(* ===== verification/Prelude.thy ===== *)
theory Prelude
  imports Main "HOL-Library.Word"
begin

unbundle bit_operations_syntax

text \<open>
  The shared vocabulary of the development: bytes and JavaScript strings, the result monad
  that models a throwing function, JavaScript's clamped array views, and the generic lemmas
  on lists, words and association lists that the component theories use.

  A JavaScript string is the list of its UTF-16 code units, so \<open>length\<close>, \<open>charCodeAt\<close>,
  \<open>slice\<close> and regular expressions read what the engine reads. A \<open>Uint8Array\<close> is a list of
  bytes. A thrown exception is the left summand of a result.
\<close>

section \<open>Types\<close>

type_synonym byte = "8 word"
type_synonym bytes = "byte list"
type_synonym jstr = "16 word list"
type_synonym ('e, 'a) result = "'e + 'a"

text \<open>A JavaScript string literal, from its characters.\<close>

definition js :: "string \<Rightarrow> jstr" where
  "js = map (\<lambda>c. of_nat (of_char c))"

named_theorems js_eval "the code units of a literal"

lemma js_simps [js_eval]:
  "js [] = []"
  "js (c # cs) = of_nat (of_char c) # js cs"
  by (simp_all add: js_def)

lemma length_js [simp]: "length (js s) = length s"
  by (simp add: js_def)

lemma char_unit_inj: "(of_nat (of_char c) :: 16 word) = of_nat (of_char d) \<longleftrightarrow> c = d"
proof -
  have small: "unat (of_nat (of_char c) :: 16 word) = of_char c" for c :: char
    using nat_of_char_less_256 [of c]
    by (simp add: unat_of_nat take_bit_nat_eq_self del: of_nat_of_char nat_of_char_less_256)
  show ?thesis using small [of c] small [of d] of_char_eqI [of c d, where 'a = nat] by metis
qed

lemma js_eq_Nil [simp]: "js s = [] \<longleftrightarrow> s = []"
  by (simp add: js_def)

lemma js_inj [simp]: "js s = js t \<longleftrightarrow> s = t"
  unfolding js_def by (rule inj_map_eq_map) (simp add: inj_def char_unit_inj)

named_theorems result_simps "inversion of the result monad"
named_theorems view_simps "clamped array views"

section \<open>The result monad: a function that may throw\<close>

definition rbind :: "('e, 'a) result \<Rightarrow> ('a \<Rightarrow> ('e, 'b) result) \<Rightarrow> ('e, 'b) result" where
  "rbind m f = (case m of Inl e \<Rightarrow> Inl e | Inr x \<Rightarrow> f x)"

definition ensure :: "bool \<Rightarrow> 'e \<Rightarrow> ('e, unit) result" where
  "ensure b e = (if b then Inr () else Inl e)"

fun is_ok :: "('e, 'a) result \<Rightarrow> bool" where
  "is_ok (Inr _) = True"
| "is_ok (Inl _) = False"

lemma rbind_simps [simp]:
  "rbind (Inl e) f = Inl e"
  "rbind (Inr x) f = f x"
  by (simp_all add: rbind_def)

lemma ensure_simps [simp]:
  "ensure True e = Inr ()"
  "ensure False e = Inl e"
  by (simp_all add: ensure_def)

lemma rbind_eq_Inr [result_simps]:
  "rbind m f = Inr y \<longleftrightarrow> (\<exists>x. m = Inr x \<and> f x = Inr y)"
  by (cases m) auto

lemma rbind_eq_Inl [result_simps]:
  "rbind m f = Inl e \<longleftrightarrow> m = Inl e \<or> (\<exists>x. m = Inr x \<and> f x = Inl e)"
  by (cases m) auto

lemma ensure_eq_Inr [result_simps]: "ensure b e = Inr u \<longleftrightarrow> b"
  by (simp add: ensure_def)

lemma ensure_eq_Inl [result_simps]: "ensure b e = Inl e' \<longleftrightarrow> \<not> b \<and> e' = e"
  by (auto simp: ensure_def)

lemma is_ok_iff: "is_ok m \<longleftrightarrow> (\<exists>x. m = Inr x)"
  by (cases m) auto

lemma rbind_cong [fundef_cong]:
  "m = m' \<Longrightarrow> (\<And>x. m' = Inr x \<Longrightarrow> f x = g x) \<Longrightarrow> rbind m f = rbind m' g"
  by (simp add: rbind_def split: sum.splits)

lemma rbind_ensure: "rbind (ensure b e) f = (if b then f () else Inl e)"
  by (simp add: ensure_def)

text \<open>A loop that stops at the first throw, as \<open>for (const x of xs) step(x)\<close> does.\<close>

fun rfold :: "('a \<Rightarrow> 's \<Rightarrow> ('e, 's) result) \<Rightarrow> 'a list \<Rightarrow> 's \<Rightarrow> ('e, 's) result" where
  "rfold f [] s = Inr s"
| "rfold f (x # xs) s = rbind (f x s) (rfold f xs)"

lemma rfold_append: "rfold f (xs @ ys) s = rbind (rfold f xs s) (rfold f ys)"
  by (induction xs arbitrary: s) (auto simp: rbind_def split: sum.splits)

lemma rfold_invariant:
  assumes "rfold f xs s = Inr s'" and "P s"
    and "\<And>x s s'. x \<in> set xs \<Longrightarrow> P s \<Longrightarrow> f x s = Inr s' \<Longrightarrow> P s'"
  shows "P s'"
  using assms
proof (induction xs arbitrary: s)
  case Nil
  then show ?case by simp
next
  case (Cons x xs)
  then obtain t where t: "f x s = Inr t" "rfold f xs t = Inr s'"
    by (auto simp: result_simps)
  have "P t" using Cons.prems t(1) by (meson list.set_intros(1))
  then show ?case using Cons.IH [OF t(2)] Cons.prems(3) by (meson list.set_intros(2))
qed

section \<open>Array views and reads\<close>

text \<open>
  \<open>subarray(a, b)\<close> and \<open>slice(a, b)\<close> clamp both ends to the array; a view past the end is
  empty. An element read out of range is \<open>undefined\<close>, which is \<open>None\<close>; where the code feeds
  it to a bitwise operator it is the number 0.
\<close>

definition subarray :: "'a list \<Rightarrow> nat \<Rightarrow> nat \<Rightarrow> 'a list" where
  "subarray xs a b = take (b - a) (drop a xs)"

definition elem_at :: "'a list \<Rightarrow> nat \<Rightarrow> 'a option" where
  "elem_at xs i = (if i < length xs then Some (xs ! i) else None)"

definition num_at :: "bytes \<Rightarrow> nat \<Rightarrow> byte" where
  "num_at xs i = (if i < length xs then xs ! i else 0)"

lemma length_subarray [view_simps]: "length (subarray xs a b) = min (b - a) (length xs - a)"
  by (simp add: subarray_def)

lemma subarray_append_left [view_simps]:
  "length xs = a \<Longrightarrow> subarray (xs @ ys) a b = take (b - a) ys"
  by (simp add: subarray_def)

lemma subarray_from_zero [view_simps]: "subarray xs 0 b = take b xs"
  by (simp add: subarray_def)

lemma subarray_middle [view_simps]:
  "length xs = a \<Longrightarrow> a + length ys = b \<Longrightarrow> subarray (xs @ ys @ zs) a b = ys"
  by (auto simp: subarray_def)

lemma subarray_drop: "a \<le> b \<Longrightarrow> subarray xs a b @ drop b xs = drop a xs"
  using append_take_drop_id [of "b - a" "drop a xs"] by (simp add: subarray_def)

lemma take_subarray_drop: "a \<le> b \<Longrightarrow> take a xs @ subarray xs a b @ drop b xs = xs"
  by (simp add: subarray_drop)

lemma elem_at_simps [simp]:
  "elem_at [] i = None"
  "elem_at (x # xs) 0 = Some x"
  "elem_at (x # xs) (Suc i) = elem_at xs i"
  by (simp_all add: elem_at_def)

lemma elem_at_eq_Some: "elem_at xs i = Some x \<longleftrightarrow> i < length xs \<and> xs ! i = x"
  by (auto simp: elem_at_def)

lemma num_at_append_left [simp]: "i < length xs \<Longrightarrow> num_at (xs @ ys) i = xs ! i"
  by (simp add: num_at_def nth_append)

lemma num_at_append_right [simp]: "length xs \<le> i \<Longrightarrow> num_at (xs @ ys) i = num_at ys (i - length xs)"
  by (auto simp: num_at_def nth_append)

section \<open>Words\<close>

lemma byte_nat_bound [simp]: "unat (b :: byte) < 256"
  using unsigned_less [of b] by simp

lemma unit_nat_bound [simp]: "unat (c :: 16 word) < 65536"
  using unsigned_less [of c] by simp

lemma unat_of_nat_byte: "n < 256 \<Longrightarrow> unat (of_nat n :: byte) = n"
  by (simp add: unat_of_nat take_bit_nat_eq_self)

lemma unat_of_nat_unit: "n < 65536 \<Longrightarrow> unat (of_nat n :: 16 word) = n"
  by (simp add: unat_of_nat take_bit_nat_eq_self)

lemma unat_of_nat_word32: "n < 4294967296 \<Longrightarrow> unat (of_nat n :: 32 word) = n"
  by (simp add: unat_of_nat take_bit_nat_eq_self)

lemma or_low_nat:
  assumes "lo < 2 ^ k"
  shows "push_bit k hi OR lo = 2 ^ k * hi + (lo :: nat)"
proof -
  have "push_bit k hi AND take_bit k lo = 0"
    by (rule bit_eqI) (auto simp: bit_simps)
  then have "push_bit k hi + lo = push_bit k hi OR lo"
    using assms by (simp add: disjunctive_add_eq_or take_bit_nat_eq_self)
  then show ?thesis by (simp add: push_bit_eq_mult mult.commute)
qed

section \<open>Association lists as insertion-ordered maps\<close>

text \<open>
  A JavaScript \<open>Map\<close> keeps its keys in insertion order: \<open>set\<close> on a present key keeps its
  place, and a new key goes last.
\<close>

fun mset_at :: "'k \<Rightarrow> 'v \<Rightarrow> ('k \<times> 'v) list \<Rightarrow> ('k \<times> 'v) list" where
  "mset_at k v [] = [(k, v)]"
| "mset_at k v ((k', v') # m) = (if k = k' then (k, v) # m else (k', v') # mset_at k v m)"

definition mdel :: "'k \<Rightarrow> ('k \<times> 'v) list \<Rightarrow> ('k \<times> 'v) list" where
  "mdel k m = filter (\<lambda>p. fst p \<noteq> k) m"

lemma map_of_mset_at [simp]: "map_of (mset_at k v m) = (map_of m)(k \<mapsto> v)"
  by (induction m) (auto simp: fun_eq_iff)

lemma map_of_mset_at_apply [simp]:
  "map_of (mset_at k v m) k' = (if k' = k then Some v else map_of m k')"
  by simp

lemma fst_set_mset_at [simp]: "fst ` set (mset_at k v m) = insert k (fst ` set m)"
  by (induction k v m rule: mset_at.induct) auto

lemma distinct_mset_at [simp]: "distinct (map fst m) \<Longrightarrow> distinct (map fst (mset_at k v m))"
  by (induction m) (auto simp: image_iff)

lemma map_of_mdel: "map_of (mdel k m) = (map_of m)(k := None)"
  by (induction m) (auto simp: mdel_def fun_eq_iff)

lemma map_of_mdel_apply [simp]:
  "map_of (mdel k m) k' = (if k' = k then None else map_of m k')"
  by (simp add: map_of_mdel)

lemma distinct_mdel [simp]: "distinct (map fst m) \<Longrightarrow> distinct (map fst (mdel k m))"
  by (induction m) (auto simp: mdel_def)

lemma set_mdel [simp]: "set (mdel k m) = {p \<in> set m. fst p \<noteq> k}"
  by (simp add: mdel_def)

lemma length_mdel_le: "length (mdel k m) \<le> length m"
  by (simp add: mdel_def)

lemma length_mset_at_new: "map_of m k = None \<Longrightarrow> length (mset_at k v m) = Suc (length m)"
  by (induction m) auto

lemma length_mset_at_old: "map_of m k \<noteq> None \<Longrightarrow> length (mset_at k v m) = length m"
  by (induction m) auto

end
