(* ===== verification/Util.thy ===== *)
theory Util
  imports Prelude
begin

text \<open>
  \<^verbatim>\<open>WASM/host/util.ts\<close>: hex encoding and decoding, big-endian 32-bit fields, byte
  concatenation, and the queue \<open>Fifo\<close> with its head index and compaction.
\<close>

section \<open>Hex\<close>

text \<open>\<open>HEX_BYTE[b]\<close>: the two lowercase digits of a byte.\<close>

definition hex_digit :: "nat \<Rightarrow> 16 word" where
  "hex_digit d = (if d < 10 then of_nat (48 + d) else of_nat (87 + d))"

definition HEX_BYTE :: "byte \<Rightarrow> jstr" where
  "HEX_BYTE b = [hex_digit (unat b div 16), hex_digit (unat b mod 16)]"

text \<open>The unrolled loop takes four bytes at a time; the tail loop takes what is left.\<close>

fun toHex :: "bytes \<Rightarrow> jstr" where
  "toHex (b0 # b1 # b2 # b3 # rest) =
     HEX_BYTE b0 @ HEX_BYTE b1 @ HEX_BYTE b2 @ HEX_BYTE b3 @ toHex rest"
| "toHex rest = concat (map HEX_BYTE rest)"

text \<open>
  \<open>NIBBLE\<close>: the digit's value plus one per ASCII code, 0 for every other code; a code past the
  table reads \<open>undefined\<close>, which the code treats as 0.
\<close>

definition NIBBLE :: "16 word \<Rightarrow> nat" where
  "NIBBLE c =
     (case map_of (zip (js ''0123456789abcdef'' @ js ''0123456789ABCDEF'') ([1..<17] @ [1..<17])) c of
        None \<Rightarrow> 0 | Some v \<Rightarrow> v)"

fun fromHex :: "jstr \<Rightarrow> bytes" where
  "fromHex (h # l # rest) =
     (let hi = NIBBLE h; lo = NIBBLE l
      in (if hi \<noteq> 0 \<and> lo \<noteq> 0 then (push_bit 4 (of_nat (hi - 1))) OR of_nat (lo - 1) else 0)
         # fromHex rest)"
| "fromHex _ = []"

definition is_hex_digit :: "16 word \<Rightarrow> bool" where
  "is_hex_digit c \<longleftrightarrow> 48 \<le> c \<and> c \<le> 57 \<or> 97 \<le> c \<and> c \<le> 102 \<or> 65 \<le> c \<and> c \<le> 70"

definition isHex64 :: "jstr \<Rightarrow> bool" where
  "isHex64 s \<longleftrightarrow> length s = 64 \<and> list_all is_hex_digit s"

text \<open>\<open>toLowerCase\<close> on the ASCII strings the code applies it to.\<close>

definition lower_unit :: "16 word \<Rightarrow> 16 word" where
  "lower_unit c = (if 65 \<le> c \<and> c \<le> 90 then c + 32 else c)"

definition toLowerCase :: "jstr \<Rightarrow> jstr" where
  "toLowerCase = map lower_unit"

section \<open>Bytes\<close>

definition concatBytes :: "bytes list \<Rightarrow> bytes" where
  "concatBytes parts = concat parts"

definition HOST_CALLER_ID :: bytes where
  "HOST_CALLER_ID = replicate 32 0"

definition writeU32BE :: "bytes \<Rightarrow> nat \<Rightarrow> int \<Rightarrow> bytes" where
  "writeU32BE out offset v =
     (let w = word_of_int v :: 32 word
      in out[offset := ucast (drop_bit 24 w AND 255),
             offset + 1 := ucast (drop_bit 16 w AND 255),
             offset + 2 := ucast (drop_bit 8 w AND 255),
             offset + 3 := ucast (w AND 255)])"

definition readU32BE :: "bytes \<Rightarrow> nat \<Rightarrow> nat" where
  "readU32BE buf offset =
     unat (push_bit 24 (ucast (num_at buf offset)) OR push_bit 16 (ucast (num_at buf (offset + 1))) OR
       push_bit 8 (ucast (num_at buf (offset + 2))) OR ucast (num_at buf (offset + 3)) :: 32 word)"

text \<open>The four bytes a freshly allocated field holds after \<open>writeU32BE\<close>.\<close>

definition u32be :: "int \<Rightarrow> bytes" where
  "u32be v = writeU32BE (replicate 4 0) 0 v"

section \<open>Fifo\<close>

text \<open>
  A head index into a plain array. Consumed entries are cleared (\<open>None\<close> stands for the
  \<open>undefined\<close> the code writes) and the consumed prefix is dropped once it is at least eight
  entries and at least half of the array.
\<close>

record 'a Fifo =
  items :: "'a option list"
  head :: nat

definition fifo_new :: "'a Fifo" where
  "fifo_new = \<lparr>items = [], head = 0\<rparr>"

definition fifo_size :: "'a Fifo \<Rightarrow> nat" where
  "fifo_size q = length (items q) - head q"

definition fifo_push :: "'a \<Rightarrow> 'a Fifo \<Rightarrow> 'a Fifo" where
  "fifo_push v q = q\<lparr>items := items q @ [Some v]\<rparr>"

definition fifo_peek :: "'a Fifo \<Rightarrow> 'a option" where
  "fifo_peek q = (if head q < length (items q) then items q ! head q else None)"

definition fifo_at :: "nat \<Rightarrow> 'a Fifo \<Rightarrow> 'a option" where
  "fifo_at i q = (case elem_at (items q) (head q + i) of None \<Rightarrow> None | Some v \<Rightarrow> v)"

fun clear_slots :: "'a option list \<Rightarrow> nat \<Rightarrow> nat \<Rightarrow> 'a option list" where
  "clear_slots xs from 0 = xs"
| "clear_slots xs from (Suc n) = clear_slots (xs[from := None]) (Suc from) n"

definition fifo_drop :: "nat \<Rightarrow> 'a Fifo \<Rightarrow> 'a Fifo" where
  "fifo_drop n q =
     (let end' = min (head q + n) (length (items q));
          cleared = clear_slots (items q) (head q) (end' - head q);
          h = max (head q) end'
      in if 8 \<le> h \<and> length cleared \<le> h * 2
         then \<lparr>items = drop h cleared, head = 0\<rparr>
         else \<lparr>items = cleared, head = h\<rparr>)"

definition fifo_shift :: "'a Fifo \<Rightarrow> 'a option \<times> 'a Fifo" where
  "fifo_shift q =
     (if length (items q) \<le> head q then (None, q)
      else (items q ! head q, fifo_drop 1 q))"

definition fifo_clear :: "'a Fifo \<Rightarrow> 'a Fifo" where
  "fifo_clear q = \<lparr>items = [], head = 0\<rparr>"

text \<open>What a queue means: the live entries, oldest first.\<close>

definition fifo_list :: "'a Fifo \<Rightarrow> 'a list" where
  "fifo_list q = map the (drop (head q) (items q))"

definition fifo_ok :: "'a Fifo \<Rightarrow> bool" where
  "fifo_ok q \<longleftrightarrow> head q \<le> length (items q)
     \<and> list_all (\<lambda>x. x = None) (take (head q) (items q))
     \<and> list_all (\<lambda>x. x \<noteq> None) (drop (head q) (items q))
     \<and> (head q < 8 \<or> head q * 2 < length (items q))"

section \<open>Facts about hex\<close>

lemma toHex_eq_concat: "toHex bs = concat (map HEX_BYTE bs)"
  by (induction bs rule: toHex.induct) simp_all

lemma toHex_simps [simp]:
  "toHex [] = []"
  "toHex (b # bs) = HEX_BYTE b @ toHex bs"
  by (simp_all add: toHex_eq_concat)

lemma length_HEX_BYTE [simp]: "length (HEX_BYTE b) = 2"
  by (simp add: HEX_BYTE_def)

lemma length_toHex [simp]: "length (toHex bs) = 2 * length bs"
  by (induction bs) simp_all

text \<open>The digits, one by one: what the nibble table and the digit table say of each other.\<close>

lemma nat16_cases:
  "(d :: nat) < 16 \<Longrightarrow> d = 0 \<or> d = 1 \<or> d = 2 \<or> d = 3 \<or> d = 4 \<or> d = 5 \<or> d = 6 \<or> d = 7
    \<or> d = 8 \<or> d = 9 \<or> d = 10 \<or> d = 11 \<or> d = 12 \<or> d = 13 \<or> d = 14 \<or> d = 15"
  by presburger

lemma nibble_table:
  "zip (js ''0123456789abcdef'' @ js ''0123456789ABCDEF'') ([1..<17] @ [1..<17]) =
     [(48, 1), (49, 2), (50, 3), (51, 4), (52, 5), (53, 6), (54, 7), (55, 8), (56, 9), (57,
       10), (97, 11), (98, 12), (99, 13), (100, 14), (101, 15), (102, 16), (48, 1), (49, 2),
       (50, 3), (51, 4), (52, 5), (53, 6), (54, 7), (55, 8), (56, 9), (57, 10), (65, 11),
       (66, 12), (67, 13), (68, 14), (69, 15), (70, 16)]"
  by (simp add: upt_conv_Cons js_eval)

lemmas NIBBLE_eval = NIBBLE_def [unfolded nibble_table]

lemma NIBBLE_hex_digit: "d < 16 \<Longrightarrow> NIBBLE (hex_digit d) = d + 1"
  by (drule nat16_cases) (elim disjE; simp add: NIBBLE_eval hex_digit_def)

lemma is_hex_digit_hex_digit: "d < 16 \<Longrightarrow> is_hex_digit (hex_digit d)"
  by (drule nat16_cases) (elim disjE; simp add: is_hex_digit_def hex_digit_def)

lemma hex_chars:
  "js ''0123456789abcdefABCDEF'' = map of_nat ([48..<58] @ [97..<103] @ [65..<71])"
  by (simp add: upt_conv_Cons js_eval)

lemma is_hex_digit_cases:
  assumes "is_hex_digit c"
  shows "c \<in> set (js ''0123456789abcdefABCDEF'')"
proof -
  have "unat c \<in> set ([48..<58] @ [97..<103] @ [65..<71])"
    unfolding set_append set_upt Un_iff atLeastLessThan_iff
    using assms by (auto simp: is_hex_digit_def word_le_nat_alt)
  then have "of_nat (unat c) \<in> set (js ''0123456789abcdefABCDEF'')"
    unfolding hex_chars set_map by (rule imageI)
  then show ?thesis by simp
qed

lemma digit_table:
  "list_all (\<lambda>c. 0 < NIBBLE c \<and> NIBBLE c \<le> 16 \<and> hex_digit (NIBBLE c - 1) = lower_unit c)
     (js ''0123456789abcdefABCDEF'')"
  by (simp add: NIBBLE_eval hex_digit_def lower_unit_def js_eval)

lemma NIBBLE_digit:
  assumes "is_hex_digit c"
  shows "0 < NIBBLE c" and "NIBBLE c \<le> 16" and "hex_digit (NIBBLE c - 1) = lower_unit c"
  using is_hex_digit_cases [OF assms] digit_table unfolding list_all_iff by blast+

lemma nibble_pair:
  assumes "hi < 16" and "lo < 16"
  shows "unat (push_bit 4 (of_nat hi) OR of_nat lo :: byte) = 16 * hi + lo"
proof -
  have "push_bit 4 (of_nat hi) OR of_nat lo = (of_nat (push_bit 4 hi OR lo) :: byte)"
    by (simp add: of_nat_or_eq of_nat_push_bit)
  also have "\<dots> = of_nat (16 * hi + lo)"
    using or_low_nat [of lo 4 hi] assms(2) by simp
  finally show ?thesis
    using assms by (simp only: unat_of_nat_byte)
qed

lemma byte_nibbles: "unat (b :: byte) div 16 < 16" "unat b mod 16 < 16"
  by (rule less_mult_imp_div_less) simp_all

lemma HEX_BYTE_nibbles:
  "hi < 16 \<Longrightarrow> lo < 16 \<Longrightarrow>
     HEX_BYTE (push_bit 4 (of_nat hi) OR of_nat lo) = [hex_digit hi, hex_digit lo]"
  by (simp add: HEX_BYTE_def nibble_pair)

lemma HEX_BYTE_fromHex: "fromHex (HEX_BYTE b @ s) = b # fromHex s"
proof -
  note d = byte_nibbles [of b]
  have "unat (push_bit 4 (of_nat (unat b div 16)) OR of_nat (unat b mod 16) :: byte) = unat b"
    by (simp only: nibble_pair [OF d] mult_div_mod_eq)
  then have "push_bit 4 (of_nat (unat b div 16)) OR of_nat (unat b mod 16) = b"
    by (rule unsigned_word_eqI)
  then show ?thesis
    by (simp add: HEX_BYTE_def NIBBLE_hex_digit d Let_def)
qed

lemma fromHex_toHex: "fromHex (toHex bs) = bs"
  by (induction bs) (simp_all add: HEX_BYTE_fromHex)

lemma toHex_inj [simp]: "toHex a = toHex b \<longleftrightarrow> a = b"
  by (metis fromHex_toHex)

lemma HEX_BYTE_digit: "list_all is_hex_digit (HEX_BYTE b)"
  by (simp add: HEX_BYTE_def is_hex_digit_hex_digit byte_nibbles)

lemma toHex_digits: "list_all is_hex_digit (toHex bs)"
  by (induction bs) (simp_all add: HEX_BYTE_digit)

lemma isHex64_toHex: "length bs = 32 \<Longrightarrow> isHex64 (toHex bs)"
  by (simp add: isHex64_def toHex_digits)

lemma HEX_BYTE_pair:
  assumes "is_hex_digit h" and "is_hex_digit l"
  shows "toHex (fromHex (h # l # s)) = lower_unit h # lower_unit l # toHex (fromHex s)"
proof -
  let ?hi = "NIBBLE h - 1" and ?lo = "NIBBLE l - 1"
  have bounds: "?hi < 16" "?lo < 16" "NIBBLE h \<noteq> 0" "NIBBLE l \<noteq> 0"
    using NIBBLE_digit [OF assms(1)] NIBBLE_digit [OF assms(2)] by auto
  have "fromHex (h # l # s) = (push_bit 4 (of_nat ?hi) OR of_nat ?lo) # fromHex s"
    using bounds by (simp add: Let_def)
  then show ?thesis
    by (simp only: toHex_simps HEX_BYTE_nibbles [OF bounds(1,2)] append.simps
        NIBBLE_digit(3) [OF assms(1)] NIBBLE_digit(3) [OF assms(2)])
qed

lemma toHex_fromHex:
  "even (length s) \<Longrightarrow> list_all is_hex_digit s \<Longrightarrow> toHex (fromHex s) = toLowerCase s"
  by (induction s rule: fromHex.induct)
     (simp_all add: toLowerCase_def HEX_BYTE_pair del: fromHex.simps(1))

lemma toHex_fromHex_64: "isHex64 s \<Longrightarrow> toHex (fromHex s) = toLowerCase s"
  by (simp add: isHex64_def toHex_fromHex)

lemma length_fromHex: "length (fromHex s) = length s div 2"
  by (induction s rule: fromHex.induct) (simp_all add: Let_def)

lemma toLowerCase_toHex: "toLowerCase (toHex bs) = toHex bs"
  using toHex_fromHex [of "toHex bs"] by (simp add: toHex_digits fromHex_toHex)

section \<open>Facts about 32-bit fields\<close>

lemma length_writeU32BE [simp]: "length (writeU32BE out off v) = length out"
  by (simp add: writeU32BE_def Let_def)

lemma low_byte: "ucast (x AND 255 :: 32 word) = (ucast x :: byte)"
proof -
  have m: "(255 :: 32 word) = mask 8" by (simp add: mask_eq_exp_minus_1)
  show ?thesis unfolding m by (rule bit_word_eqI) (simp add: bit_simps)
qed

lemma join_bytes32:
  "push_bit 24 (ucast (ucast (drop_bit 24 w) :: byte)) OR
   push_bit 16 (ucast (ucast (drop_bit 16 w) :: byte)) OR
   push_bit 8 (ucast (ucast (drop_bit 8 w) :: byte)) OR
   ucast (ucast w :: byte) = (w :: 32 word)" (is "?l = w")
proof (rule bit_word_eqI)
  fix n assume "n < LENGTH(32)"
  then consider "n < 8" | "8 \<le> n \<and> n < 16" | "16 \<le> n \<and> n < 24" | "24 \<le> n \<and> n < 32"
    by fastforce
  then show "bit ?l n = bit w n"
    by cases (auto simp: bit_simps)
qed

lemma num_at_update [simp]: "num_at (xs[i := v]) j = (if i = j \<and> i < length xs then v else num_at xs j)"
  by (auto simp: num_at_def)

lemma readU32BE_writeU32BE:
  assumes "off + 4 \<le> length out"
  shows "readU32BE (writeU32BE out off v) off = nat (v mod 2 ^ 32)"
proof -
  have "readU32BE (writeU32BE out off v) off = unat (word_of_int v :: 32 word)"
    using assms by (simp add: readU32BE_def writeU32BE_def Let_def low_byte join_bytes32)
  then show ?thesis
    by (simp add: unat_eq_nat_uint uint_word_of_int)
qed

lemma readU32BE_bound: "readU32BE buf off < 2 ^ 32"
  unfolding readU32BE_def by (rule order_less_le_trans [OF unsigned_less]) simp

lemma readU32BE_append: "off + 4 \<le> length xs \<Longrightarrow> readU32BE (xs @ ys) off = readU32BE xs off"
  by (simp add: readU32BE_def num_at_def nth_append)

lemma readU32BE_shift: "readU32BE (xs @ ys) (length xs + off) = readU32BE ys off"
  by (simp add: readU32BE_def add.assoc)

lemma length_u32be [simp]: "length (u32be v) = 4"
  by (simp add: u32be_def)

lemma readU32BE_u32be: "0 \<le> v \<Longrightarrow> v < 2 ^ 32 \<Longrightarrow> readU32BE (u32be v @ ys) 0 = nat v"
  by (simp add: readU32BE_append u32be_def readU32BE_writeU32BE)

section \<open>Facts about the queue\<close>

lemma clear_slots_eq:
  "from + n \<le> length xs \<Longrightarrow>
     clear_slots xs from n = take from xs @ replicate n None @ drop (from + n) xs"
proof (induction n arbitrary: xs "from")
  case 0
  then show ?case by simp
next
  case (Suc n)
  have "take (Suc from) (xs[from := None]) = take from xs @ [None]"
    using Suc.prems by (simp add: take_Suc_conv_app_nth)
  with Suc show ?case by simp
qed

lemma fifo_drop_cases:
  assumes ok: "fifo_ok q" and h: "h = min (head q + n) (length (items q))"
  shows "fifo_drop n q = (if 8 \<le> h \<and> length (items q) \<le> h * 2
    then \<lparr>items = drop h (items q), head = 0\<rparr>
    else \<lparr>items = replicate h None @ drop h (items q), head = h\<rparr>)"
proof -
  have le: "head q \<le> h" "h \<le> length (items q)"
    using ok by (auto simp: fifo_ok_def h)
  have "take (head q) (items q) = replicate (head q) None"
    using ok by (intro replicate_eqI) (auto simp: fifo_ok_def list_all_iff)
  then have "clear_slots (items q) (head q) (h - head q) = replicate h None @ drop h (items q)"
    using le by (simp add: clear_slots_eq replicate_add [symmetric] flip: append_assoc)
  with le show ?thesis
    by (simp add: fifo_drop_def h [symmetric] Let_def max_absorb2)
qed

lemma fifo_drop_list:
  assumes "fifo_ok q"
  shows "fifo_list (fifo_drop n q) = drop n (fifo_list q)"
  using assms
  by (auto simp: fifo_drop_cases [OF _ refl] fifo_list_def fifo_ok_def drop_map min_def add.commute)

lemma fifo_drop_ok:
  assumes "fifo_ok q"
  shows "fifo_ok (fifo_drop n q)"
proof -
  let ?h = "min (head q + n) (length (items q))"
  have "set (drop ?h (items q)) \<subseteq> set (drop (head q) (items q))"
    using assms by (intro set_drop_subset_set_drop) (auto simp: fifo_ok_def)
  then have "list_all (\<lambda>x. x \<noteq> None) (drop ?h (items q))"
    using assms by (auto simp: fifo_ok_def list_all_iff)
  then show ?thesis
    unfolding fifo_drop_cases [OF assms refl] by (auto simp: fifo_ok_def list_all_iff min_def)
qed

text \<open>
  The contract the queue's clients rely on, over the list of live entries: what a push, a
  read, a shift and a drop do to it, and that each keeps the representation in order.
\<close>

locale queue_spec =
  fixes empty :: "'q" and push :: "'a \<Rightarrow> 'q \<Rightarrow> 'q" and shift :: "'q \<Rightarrow> 'a option \<times> 'q"
    and discard :: "nat \<Rightarrow> 'q \<Rightarrow> 'q" and peek_at :: "nat \<Rightarrow> 'q \<Rightarrow> 'a option" and qsize :: "'q \<Rightarrow> nat"
    and list :: "'q \<Rightarrow> 'a list" and invar :: "'q \<Rightarrow> bool"
  assumes list_empty: "list empty = []"
    and list_push: "invar q \<Longrightarrow> list (push x q) = list q @ [x]"
    and list_shift: "invar q \<Longrightarrow> list (snd (shift q)) = tl (list q)"
    and shift_value: "invar q \<Longrightarrow> fst (shift q) = (case list q of [] \<Rightarrow> None | x # _ \<Rightarrow> Some x)"
    and list_discard: "invar q \<Longrightarrow> list (discard n q) = drop n (list q)"
    and peek_at_value: "invar q \<Longrightarrow> peek_at i q = elem_at (list q) i"
    and size_length: "invar q \<Longrightarrow> qsize q = length (list q)"
    and invar_empty: "invar empty"
    and invar_push: "invar q \<Longrightarrow> invar (push x q)"
    and invar_shift: "invar q \<Longrightarrow> invar (snd (shift q))"
    and invar_discard: "invar q \<Longrightarrow> invar (discard n q)"
begin

lemmas queue_laws = list_empty list_push list_shift shift_value list_discard peek_at_value
  size_length invar_empty invar_push invar_shift invar_discard

lemma push_all:
  "invar q \<Longrightarrow> invar (fold push xs q) \<and> list (fold push xs q) = list q @ xs"
  by (induction xs arbitrary: q) (simp_all add: invar_push list_push)

text \<open>Shifting as often as there are entries yields them all, in the order they were pushed.\<close>

primrec shift_many :: "nat \<Rightarrow> 'q \<Rightarrow> 'a option list \<times> 'q" where
  "shift_many 0 q = ([], q)"
| "shift_many (Suc n) q =
     (let (x, q') = shift q; (xs, q'') = shift_many n q' in (x # xs, q''))"

lemma shift_many_drains:
  "invar q \<Longrightarrow> length (list q) = n \<Longrightarrow>
     fst (shift_many n q) = map Some (list q) \<and> list (snd (shift_many n q)) = []"
proof (induction n arbitrary: q)
  case 0
  then show ?case by simp
next
  case (Suc n)
  then obtain x xs where q: "list q = x # xs" by (cases "list q") auto
  have "invar (snd (shift q))" "length (list (snd (shift q))) = n"
    using Suc.prems q by (simp_all add: invar_shift list_shift)
  from Suc.IH [OF this] show ?case
    using Suc.prems q by (simp add: case_prod_beta Let_def list_shift shift_value)
qed

end

lemma fifo_list_Cons:
  assumes "fifo_ok q" and "head q < length (items q)"
  shows "\<exists>x. items q ! head q = Some x \<and> fifo_list q = x # map the (drop (Suc (head q)) (items q))"
proof -
  have split: "drop (head q) (items q) = items q ! head q # drop (Suc (head q)) (items q)"
    using assms(2) by (rule Cons_nth_drop_Suc [symmetric])
  then have "items q ! head q \<noteq> None"
    using assms(1) by (simp add: fifo_ok_def)
  then show ?thesis
    by (auto simp: fifo_list_def split)
qed

lemma fifo_shift_value:
  assumes "fifo_ok q"
  shows "fst (fifo_shift q) = (case fifo_list q of [] \<Rightarrow> None | x # _ \<Rightarrow> Some x)"
proof (cases "head q < length (items q)")
  case True
  from fifo_list_Cons [OF assms True] True show ?thesis
    by (auto simp: fifo_shift_def)
next
  case False
  then show ?thesis by (simp add: fifo_shift_def fifo_list_def)
qed

lemma fifo_shift_list:
  assumes "fifo_ok q"
  shows "fifo_list (snd (fifo_shift q)) = tl (fifo_list q)" and "fifo_ok (snd (fifo_shift q))"
  using assms
  by (simp_all add: fifo_shift_def fifo_drop_list fifo_drop_ok drop_Suc, simp add: fifo_list_def)

lemma fifo_at_value: "fifo_ok q \<Longrightarrow> fifo_at i q = elem_at (fifo_list q) i"
proof -
  assume ok: "fifo_ok q"
  have "items q ! (head q + i) \<noteq> None" if "head q + i < length (items q)"
  proof -
    have "drop (head q) (items q) ! i \<in> set (drop (head q) (items q))"
      using that by (intro nth_mem) simp
    then show ?thesis using ok that by (auto simp: fifo_ok_def list_all_iff)
  qed
  then show ?thesis
    using ok by (auto simp: fifo_at_def elem_at_def fifo_list_def fifo_ok_def)
qed

interpretation fifo: queue_spec fifo_new fifo_push fifo_shift fifo_drop fifo_at fifo_size
  fifo_list fifo_ok
proof unfold_locales
  fix q :: "'a Fifo" and x :: 'a
  assume ok: "fifo_ok q"
  then show "fifo_list (fifo_push x q) = fifo_list q @ [x]" and "fifo_ok (fifo_push x q)"
    by (auto simp: fifo_push_def fifo_list_def fifo_ok_def)
  from ok show "fifo_size q = length (fifo_list q)"
    by (simp add: fifo_size_def fifo_list_def)
qed (simp_all add: fifo_shift_value fifo_shift_list fifo_drop_list fifo_drop_ok fifo_at_value,
     simp_all add: fifo_new_def fifo_list_def fifo_ok_def)

lemma fifo_clear_new: "fifo_clear q = fifo_new"
  by (simp add: fifo_clear_def fifo_new_def)

text \<open>The consumed prefix an array keeps is bounded by the live entries.\<close>

lemma fifo_memory_bound:
  "fifo_ok q \<Longrightarrow> length (items q) \<le> 2 * fifo_size q + 7"
  by (auto simp: fifo_ok_def fifo_size_def)

end
