(* ===== verification/Utf8.thy ===== *)
theory Utf8
  imports Util
begin

text \<open>
  \<^verbatim>\<open>WASM/host/utf8.ts\<close>: the UTF-8 codec of every guest realm and of the native host realm
  (where it also is \<open>TextEncoder\<close> and \<open>TextDecoder\<close>, so \<open>enc\<close> and \<open>dec\<close> of util.ts). Strings
  are lists of UTF-16 code units; a surrogate pair is one four-byte sequence, and a lone
  surrogate is written as U+FFFD.
\<close>

section \<open>The codec\<close>

definition encode_cp :: "nat \<Rightarrow> bytes" where
  "encode_cp c =
     (if c < 0x80 then [of_nat c]
      else if c < 0x800 then [of_nat (0xc0 OR drop_bit 6 c), of_nat (0x80 OR (c AND 63))]
      else if c < 0x10000 then
        [of_nat (0xe0 OR drop_bit 12 c), of_nat (0x80 OR (drop_bit 6 c AND 63)),
         of_nat (0x80 OR (c AND 63))]
      else
        [of_nat (0xf0 OR drop_bit 18 c), of_nat (0x80 OR (drop_bit 12 c AND 63)),
         of_nat (0x80 OR (drop_bit 6 c AND 63)), of_nat (0x80 OR (c AND 63))])"

definition is_surrogate :: "16 word \<Rightarrow> bool" where
  "is_surrogate c \<longleftrightarrow> 0xd800 \<le> unat c \<and> unat c \<le> 0xdfff"

definition is_pair :: "16 word \<Rightarrow> 16 word \<Rightarrow> bool" where
  "is_pair c lo \<longleftrightarrow> 0xd800 \<le> unat c \<and> unat c < 0xdc00 \<and> 0xdc00 \<le> unat lo \<and> unat lo \<le> 0xdfff"

fun utf8Encode :: "jstr \<Rightarrow> bytes" where
  "utf8Encode [] = []"
| "utf8Encode [c] = encode_cp (if is_surrogate c then 0xfffd else unat c)"
| "utf8Encode (c # lo # rest) =
     (if is_surrogate c
      then if is_pair c lo
           then encode_cp (0x10000 + push_bit 10 (unat c - 0xd800) + (unat lo - 0xdc00)) @ utf8Encode rest
           else encode_cp 0xfffd @ utf8Encode (lo # rest)
      else encode_cp (unat c) @ utf8Encode (lo # rest))"

text \<open>
  The decoder reads past a truncated sequence as zeros (\<open>undefined & 63\<close>) and pushes what the
  code pushes; gathering 4096 units per \<open>fromCharCode\<close> call only bounds the argument list, and
  the pieces are concatenated in order.
\<close>

definition cont :: "bytes \<Rightarrow> nat \<Rightarrow> nat" where
  "cont b i = unat (num_at b i) AND 63"

fun utf8Decode :: "bytes \<Rightarrow> jstr" where
  "utf8Decode [] = []"
| "utf8Decode (c # b) =
     (let n = unat c in
      if n < 0x80 then of_nat n # utf8Decode b
      else if n < 0xe0 then of_nat (push_bit 6 (n AND 31) OR cont b 0) # utf8Decode (drop 1 b)
      else if n < 0xf0
      then of_nat (push_bit 12 (n AND 15) OR push_bit 6 (cont b 0) OR cont b 1) # utf8Decode (drop 2 b)
      else
        let cp = int (push_bit 18 (n AND 7) OR push_bit 12 (cont b 0) OR push_bit 6 (cont b 1) OR cont b 2)
                   - 0x10000
        in of_int (0xd800 OR drop_bit 10 cp) # of_int (0xdc00 OR (cp AND 0x3ff)) # utf8Decode (drop 3 b))"

text \<open>\<open>String.prototype.isWellFormed\<close>, and the string with its lone surrogates replaced.\<close>

fun isWellFormed :: "jstr \<Rightarrow> bool" where
  "isWellFormed [] = True"
| "isWellFormed [c] = (\<not> is_surrogate c)"
| "isWellFormed (c # lo # rest) =
     (if is_surrogate c then is_pair c lo \<and> isWellFormed rest else isWellFormed (lo # rest))"

fun toWellFormed :: "jstr \<Rightarrow> jstr" where
  "toWellFormed [] = []"
| "toWellFormed [c] = [if is_surrogate c then 0xfffd else c]"
| "toWellFormed (c # lo # rest) =
     (if is_surrogate c
      then if is_pair c lo then c # lo # toWellFormed rest else 0xfffd # toWellFormed (lo # rest)
      else c # toWellFormed (lo # rest))"

section \<open>Round trip\<close>

lemma and_mask_nat: "n AND (2 ^ k - 1) = n mod 2 ^ k" for n :: nat
  by (simp add: take_bit_eq_mod [symmetric] take_bit_eq_mask mask_eq_exp_minus_1)

lemma and_masks:
  "n AND 63 = n mod 64" "n AND 31 = n mod 32" "n AND 15 = n mod 16" "n AND 7 = n mod 8"
  "n AND 1023 = n mod 1024" for n :: nat
  using and_mask_nat [of n 6] and_mask_nat [of n 5] and_mask_nat [of n 4] and_mask_nat [of n 3]
    and_mask_nat [of n 10] by simp_all

lemma or_tags:
  "n < 64 \<Longrightarrow> 0x80 OR n = 128 + n" "n < 32 \<Longrightarrow> 0xc0 OR n = 192 + n"
  "n < 16 \<Longrightarrow> 0xe0 OR n = 224 + n" "n < 8 \<Longrightarrow> 0xf0 OR n = 240 + n"
  "n < 1024 \<Longrightarrow> 0xd800 OR n = 0xd800 + n" "n < 1024 \<Longrightarrow> 0xdc00 OR n = 0xdc00 + n" for n :: nat
  using or_low_nat [of n 6 2] or_low_nat [of n 5 6] or_low_nat [of n 4 14] or_low_nat [of n 3 30]
    or_low_nat [of n 10 54] or_low_nat [of n 10 55] by simp_all

lemmas or_joins = or_low_nat [of _ 6, simplified] or_low_nat [of _ 12, simplified]
  or_low_nat [of _ 18, simplified]

lemma cont_simps [simp]:
  "cont (y # b) 0 = unat y mod 64"
  "cont (y # b) (Suc i) = cont b i"
  by (simp_all add: cont_def num_at_def and_masks)

lemma tag_mods [simp]:
  "n < 64 \<Longrightarrow> (128 + n) mod 64 = n" "n < 32 \<Longrightarrow> (192 + n) mod 32 = n"
  "n < 16 \<Longrightarrow> (224 + n) mod 16 = n" "n < 8 \<Longrightarrow> (240 + n) mod 8 = n" for n :: nat
  using mod_mult_self3 [of 2 64 n] mod_mult_self3 [of 6 32 n] mod_mult_self3 [of 14 16 n]
    mod_mult_self3 [of 30 8 n] by simp_all

lemma split3: "4096 * (c div 4096) + (64 * (c div 64 mod 64) + c mod 64) = c" for c :: nat
proof -
  have "c div 4096 = c div 64 div 64" by (simp add: div_mult2_eq [symmetric])
  then show ?thesis
    using mult_div_mod_eq [of 64 "c div 64"] mult_div_mod_eq [of 64 c] by linarith
qed

lemma split4:
  "262144 * (c div 262144) + (4096 * (c div 4096 mod 64) + (64 * (c div 64 mod 64) + c mod 64)) = c"
  for c :: nat
proof -
  have "c div 262144 = c div 4096 div 64" by (simp add: div_mult2_eq [symmetric])
  then show ?thesis
    using mult_div_mod_eq [of 64 "c div 4096"] split3 [of c] by linarith
qed

text \<open>One sequence of each width: what the decoder makes of a lead byte and its continuations.\<close>

lemma decode_step1: "unat x < 0x80 \<Longrightarrow> utf8Decode (x # b) = of_nat (unat x) # utf8Decode b"
  by simp

lemma decode_step2:
  assumes "unat x = 192 + hi" "hi < 32" "unat y = 128 + lo" "lo < 64"
  shows "utf8Decode (x # y # b) = of_nat (64 * hi + lo) # utf8Decode b"
  using assms by (simp add: Let_def and_masks or_joins del: utf8Decode.simps(2) add: utf8Decode.simps(2) [of x])

lemma decode_step3:
  assumes "unat x = 224 + hi" "hi < 16" "unat y = 128 + mi" "mi < 64" "unat z = 128 + lo" "lo < 64"
  shows "utf8Decode (x # y # z # b) = of_nat (4096 * hi + (64 * mi + lo)) # utf8Decode b"
  using assms by (simp add: Let_def and_masks or_joins numeral_2_eq_2 del: utf8Decode.simps(2) of_nat_add of_nat_mult
    add: utf8Decode.simps(2) [of x])

lemma surrogate_units:
  assumes "m < 0x100000"
  shows "of_int (0xd800 OR drop_bit 10 (int m)) = (of_nat (0xd800 + m div 1024) :: 16 word)"
    and "of_int (0xdc00 OR (int m AND 0x3ff)) = (of_nat (0xdc00 + m mod 1024) :: 16 word)"
proof -
  have "0xd800 OR drop_bit 10 (int m) = int (0xd800 OR drop_bit 10 m)"
    by (simp add: of_nat_or_eq of_nat_drop_bit)
  also have "\<dots> = int (0xd800 + m div 1024)"
    using assms by (simp add: drop_bit_eq_div or_tags)
  finally show "of_int (0xd800 OR drop_bit 10 (int m)) = (of_nat (0xd800 + m div 1024) :: 16 word)"
    by simp
  have "0xdc00 OR (int m AND 0x3ff) = int (0xdc00 OR (m AND 0x3ff))"
    by (simp add: of_nat_or_eq of_nat_and_eq)
  also have "\<dots> = int (0xdc00 + m mod 1024)"
    by (simp add: and_masks or_tags)
  finally show "of_int (0xdc00 OR (int m AND 0x3ff)) = (of_nat (0xdc00 + m mod 1024) :: 16 word)"
    by simp
qed

lemma decode_step4:
  assumes "unat x = 240 + a" "a < 8" "unat y = 128 + c" "c < 64" "unat z = 128 + d" "d < 64"
    and "unat w = 128 + e" "e < 64"
    and cp: "262144 * a + (4096 * c + (64 * d + e)) = 0x10000 + m" "m < 0x100000"
  shows "utf8Decode (x # y # z # w # b) =
    of_nat (0xd800 + m div 1024) # of_nat (0xdc00 + m mod 1024) # utf8Decode b"
proof -
  have "int (push_bit 18 (unat x AND 7) OR push_bit 12 (cont (y # z # w # b) 0) OR
      push_bit 6 (cont (y # z # w # b) 1) OR cont (y # z # w # b) 2) - 0x10000 = int m"
    using assms by (simp add: and_masks or_joins numeral_2_eq_2)
  then show ?thesis
    using assms(1) surrogate_units [OF cp(2)]
    by (simp add: Let_def numeral_3_eq_3 del: utf8Decode.simps(2) of_nat_add add: utf8Decode.simps(2) [of x])
qed

lemma decode_encode_bmp:
  assumes "c < 0x10000"
  shows "utf8Decode (encode_cp c @ b) = of_nat c # utf8Decode b"
proof -
  consider "c < 0x80" | "0x80 \<le> c" "c < 0x800" | "0x800 \<le> c" by linarith
  then show ?thesis
  proof cases
    case 1
    then show ?thesis by (simp add: encode_cp_def decode_step1 unat_of_nat_byte del: utf8Decode.simps(2))
  next
    case 2
    then have d: "c div 64 < 32" by simp
    then have "encode_cp c = [of_nat (192 + c div 64), of_nat (128 + c mod 64)]"
      using 2 by (simp add: encode_cp_def drop_bit_eq_div and_masks or_tags)
    moreover have "utf8Decode (of_nat (192 + c div 64) # of_nat (128 + c mod 64) # b) =
        of_nat (64 * (c div 64) + c mod 64) # utf8Decode b"
      using d by (intro decode_step2 unat_of_nat_byte) simp_all
    ultimately show ?thesis by (simp del: utf8Decode.simps(2))
  next
    case 3
    then have d: "c div 4096 < 16" using assms by simp
    then have "encode_cp c = [of_nat (224 + c div 4096), of_nat (128 + c div 64 mod 64), of_nat (128 + c mod 64)]"
      using 3 assms by (simp add: encode_cp_def drop_bit_eq_div and_masks or_tags)
    moreover have "utf8Decode (of_nat (224 + c div 4096) # of_nat (128 + c div 64 mod 64) # of_nat (128 + c mod 64) # b) =
        of_nat (4096 * (c div 4096) + (64 * (c div 64 mod 64) + c mod 64)) # utf8Decode b"
      using d by (intro decode_step3 unat_of_nat_byte) simp_all
    ultimately show ?thesis by (simp only: split3 append.simps)
  qed
qed

lemma decode_encode_pair:
  assumes "m < 0x100000"
  shows "utf8Decode (encode_cp (0x10000 + m) @ b) =
    of_nat (0xd800 + m div 1024) # of_nat (0xdc00 + m mod 1024) # utf8Decode b"
proof -
  let ?c = "0x10000 + m"
  have d: "?c div 262144 < 8" using assms by simp
  then have e: "encode_cp ?c = [of_nat (240 + ?c div 262144), of_nat (128 + ?c div 4096 mod 64),
      of_nat (128 + ?c div 64 mod 64), of_nat (128 + ?c mod 64)]"
    using assms by (simp add: encode_cp_def drop_bit_eq_div and_masks or_tags)
  show ?thesis
    unfolding e append.simps
    by (rule decode_step4 [OF unat_of_nat_byte d unat_of_nat_byte _ unat_of_nat_byte _ unat_of_nat_byte _
          split4 assms]) (use d in simp_all)
qed

lemma pair_split:
  assumes "is_pair c lo"
  defines "m \<equiv> push_bit 10 (unat c - 0xd800) + (unat lo - 0xdc00)"
  shows "m < 0x100000" and "of_nat (0xd800 + m div 1024) = c" and "of_nat (0xdc00 + m mod 1024) = lo"
proof -
  define h l where hl: "h = unat c - 0xd800" "l = unat lo - 0xdc00"
  have b: "h < 1024" "l < 1024" "unat c = 0xd800 + h" "unat lo = 0xdc00 + l"
    using assms(1) by (auto simp: is_pair_def hl)
  have m: "m = 1024 * h + l" by (simp add: m_def hl push_bit_eq_mult)
  then show "m < 0x100000" using b by simp
  from m b have "m div 1024 = h" "m mod 1024 = l" by simp_all
  then show "of_nat (0xd800 + m div 1024) = c" "of_nat (0xdc00 + m mod 1024) = lo"
    using b by (simp_all only: flip: b(3,4)) simp_all
qed

lemma utf8Decode_utf8Encode: "utf8Decode (utf8Encode s) = toWellFormed s"
proof (induction s rule: utf8Encode.induct)
  case 1
  then show ?case by simp
next
  case (2 c)
  show ?case using decode_encode_bmp [of "if is_surrogate c then 0xfffd else unat c" "[]"] by simp
next
  case (3 c lo rest)
  show ?case
  proof (cases "is_surrogate c \<and> is_pair c lo")
    case True
    with pair_split [of c lo] 3 show ?thesis
      using decode_encode_pair [of "push_bit 10 (unat c - 0xd800) + (unat lo - 0xdc00)" "utf8Encode rest"]
      by (simp add: add.assoc)
  next
    case False
    then show ?thesis using 3 by (auto simp: decode_encode_bmp)
  qed
qed

lemma toWellFormed_id: "isWellFormed s \<Longrightarrow> toWellFormed s = s"
  by (induction s rule: isWellFormed.induct) (auto split: if_splits)

lemma utf8_roundtrip: "isWellFormed s \<Longrightarrow> utf8Decode (utf8Encode s) = s"
  by (simp add: utf8Decode_utf8Encode toWellFormed_id)

lemma utf8Encode_inj: "isWellFormed s \<Longrightarrow> isWellFormed t \<Longrightarrow> utf8Encode s = utf8Encode t \<longleftrightarrow> s = t"
  by (metis utf8_roundtrip)

section \<open>ASCII\<close>

definition is_ascii :: "jstr \<Rightarrow> bool" where
  "is_ascii s \<longleftrightarrow> list_all (\<lambda>c. unat c < 0x80) s"

lemma ascii_not_surrogate: "unat c < 0x80 \<Longrightarrow> \<not> is_surrogate c"
  by (simp add: is_surrogate_def)

lemma utf8Encode_ascii: "is_ascii s \<Longrightarrow> utf8Encode s = map (\<lambda>c. of_nat (unat c)) s"
  by (induction s rule: utf8Encode.induct) (simp_all add: is_ascii_def ascii_not_surrogate encode_cp_def)

lemma isWellFormed_ascii: "is_ascii s \<Longrightarrow> isWellFormed s"
  by (induction s rule: isWellFormed.induct) (simp_all add: is_ascii_def ascii_not_surrogate)

lemma length_encode_cp: "length (encode_cp c) \<le> 4" "0 < length (encode_cp c)"
  by (simp_all add: encode_cp_def)

lemma utf8Encode_eq_Nil [simp]: "utf8Encode s = [] \<longleftrightarrow> s = []"
  by (cases s rule: utf8Encode.cases) (auto simp: encode_cp_def)

declare utf8Encode.simps [simp del] utf8Decode.simps [simp del] isWellFormed.simps [simp del]
  toWellFormed.simps [simp del]

end
