(* ===== verification/Json.thy ===== *)
theory Json
  imports Complex_Main Utf8
begin

text \<open>
  JSON values as \<open>JSON.parse\<close> returns them, with the accessors the host code uses. A number is
  a finite value, an infinity (a literal past the range of a double) or NaN (which \<open>JSON.parse\<close>
  never returns but a computed number can be). The text codec itself, \<open>JSON.parse\<close> and
  \<open>JSON.stringify\<close>, is a parameter of the operations that read or write JSON text.
\<close>

datatype jsnum = Fin rat | PosInf | NegInf | NaN

datatype json =
    JNull
  | JBool bool
  | JNum jsnum
  | JStr jstr
  | JArr "json list"
  | JObj "(jstr \<times> json) list"

text \<open>The platform's \<open>JSON\<close> object.\<close>

record json_codec =
  parse :: "jstr \<Rightarrow> json option"
  stringify :: "json \<Rightarrow> jstr"

fun isRecord :: "json \<Rightarrow> bool" where
  "isRecord (JObj _) = True"
| "isRecord _ = False"

text \<open>\<open>typeof v === "object" && v !== null\<close>: an array passes.\<close>

fun is_object :: "json \<Rightarrow> bool" where
  "is_object (JObj _) = True"
| "is_object (JArr _) = True"
| "is_object _ = False"

text \<open>A property read: \<open>None\<close> is \<open>undefined\<close>.\<close>

fun jget :: "json \<Rightarrow> jstr \<Rightarrow> json option" where
  "jget (JObj kvs) k = map_of kvs k"
| "jget _ k = None"

fun is_string :: "json \<Rightarrow> bool" where
  "is_string (JStr _) = True"
| "is_string _ = False"

fun as_array :: "json option \<Rightarrow> json list option" where
  "as_array (Some (JArr xs)) = Some xs"
| "as_array _ = None"

fun str_of :: "json \<Rightarrow> jstr" where
  "str_of (JStr s) = s"
| "str_of _ = []"

text \<open>\<open>Number.isSafeInteger\<close>, with the integer it is.\<close>

definition MAX_SAFE :: int where
  "MAX_SAFE = 9007199254740991"

fun safe_int :: "jsnum \<Rightarrow> int option" where
  "safe_int (Fin q) = (if of_int \<lfloor>q\<rfloor> = q \<and> \<bar>\<lfloor>q\<rfloor>\<bar> \<le> MAX_SAFE then Some \<lfloor>q\<rfloor> else None)"
| "safe_int _ = None"

fun num_of :: "json option \<Rightarrow> int option" where
  "num_of (Some (JNum n)) = safe_int n"
| "num_of _ = None"

definition jint :: "int \<Rightarrow> json" where
  "jint n = JNum (Fin (of_int n))"

lemma num_of_jint [simp]: "\<bar>n\<bar> \<le> MAX_SAFE \<Longrightarrow> num_of (Some (jint n)) = Some n"
  by (simp add: jint_def)

lemma num_of_bound: "num_of j = Some n \<Longrightarrow> \<bar>n\<bar> \<le> MAX_SAFE"
  by (cases "the j"; cases j) (auto elim!: safe_int.elims split: if_splits)

lemma is_string_str_of: "is_string j \<Longrightarrow> j = JStr (str_of j)"
  by (cases j) simp_all

lemma as_array_eq_Some [simp]: "as_array j = Some xs \<longleftrightarrow> j = Some (JArr xs)"
  by (cases "the j"; cases j) auto

end
