(* ===== verification/Domains.thy ===== *)
theory Domains
  imports Utf8
begin

text \<open>
  \<^verbatim>\<open>WASM/host/domains.ts\<close>: the signing and hashing prefixes and the vocabulary of host services.
\<close>

section \<open>Signing prefixes\<close>

definition domain :: "jstr \<Rightarrow> bytes" where
  "domain s = utf8Encode s"

definition NUL :: jstr where
  "NUL = [0]"

definition DOMAIN_MANIFEST :: bytes where
  "DOMAIN_MANIFEST = domain (js ''seedkernel-manifest-sig-v1'' @ NUL)"

definition DOMAIN_MANIFEST_AUTHOR :: bytes where
  "DOMAIN_MANIFEST_AUTHOR = domain (js ''seedkernel-manifest-author-v1'' @ NUL)"

definition DOMAIN_HOST :: bytes where
  "DOMAIN_HOST = domain (js ''seedkernel-host-sig-v1'' @ NUL)"

definition DOMAIN_GUEST :: bytes where
  "DOMAIN_GUEST = domain (js ''seedkernel-guest-sig-v1'' @ NUL)"

definition DOMAIN_LINK_SCOPE :: bytes where
  "DOMAIN_LINK_SCOPE = domain (js ''seedkernel-link-scope-v1'' @ NUL)"

definition DOMAIN_SUBKEY :: bytes where
  "DOMAIN_SUBKEY = domain (js ''seedkernel-subkey-v1'' @ NUL)"

definition AUTHOR_MLDSA_SEED_LABEL :: bytes where
  "AUTHOR_MLDSA_SEED_LABEL = domain (js ''seedkernel-author-mldsa-v1'')"

definition SUITE_MANIFEST_HYBRID_PQ :: byte where
  "SUITE_MANIFEST_HYBRID_PQ = 0x02"

definition HOST_TRANSFORM_NAMES :: "jstr list" where
  "HOST_TRANSFORM_NAMES =
     [js ''blake2b'', js ''chacha20poly1305-ietf/seal'', js ''chacha20poly1305-ietf/open'',
      js ''x25519/dh'', js ''random'']"

section \<open>Host services\<close>

record service_abi =
  calls :: "jstr list"
  events :: "jstr list option"

definition HOST_SERVICES :: "(jstr \<times> service_abi) list" where
  "HOST_SERVICES =
     [(js ''node'', \<lparr>calls = [js ''sign'', js ''verify''], events = None\<rparr>),
      (js ''fs'', \<lparr>calls = [js ''get'', js ''put'', js ''list'', js ''delete'', js ''size'', js ''stat''], events = None\<rparr>),
      (js ''timer'', \<lparr>calls = [js ''arm'', js ''clear''], events = None\<rparr>),
      (js ''link'', \<lparr>calls = [js ''open'', js ''send'', js ''pause'', js ''close'', js ''deliver'', js ''status'',
                        js ''udpBind'', js ''udpSend'', js ''udpClose''],
                 events = Some [js ''linkOpen'', js ''linkBytes'', js ''linkClosed'', js ''datagrams'']\<rparr>),
      (js ''host'', \<lparr>calls = [js ''stage''], events = None\<rparr>)]"

definition LINK_EVENTS :: "jstr list" where
  "LINK_EVENTS = (case map_of HOST_SERVICES (js ''link'') of
     Some a \<Rightarrow> (case events a of Some es \<Rightarrow> es | None \<Rightarrow> []) | None \<Rightarrow> [])"

definition isService :: "jstr \<Rightarrow> bool" where
  "isService name \<longleftrightarrow> map_of HOST_SERVICES name \<noteq> None"

definition isOccupiedService :: "jstr \<Rightarrow> bool" where
  "isOccupiedService name \<longleftrightarrow> isService name \<and> (case map_of HOST_SERVICES name of
     Some a \<Rightarrow> events a \<noteq> None | None \<Rightarrow> False)"

definition isHostNamespace :: "jstr \<Rightarrow> bool" where
  "isHostNamespace hd' \<longleftrightarrow> hd' = js ''crypto'' \<or> isService hd'"

section \<open>Facts\<close>

text \<open>
  A label without a NUL, closed by one, is never extended by another such label: two byte
  strings that open with different prefixes differ, whatever follows.
\<close>

lemma nul_terminated_prefix:
  assumes "(0 :: byte) \<notin> set a" and "0 \<notin> set b" and "a @ 0 # x = b @ 0 # y"
  shows "a = b \<and> x = y"
  using assms
proof (induction a arbitrary: b)
  case Nil
  then show ?case by (cases b) auto
next
  case (Cons h a)
  then show ?case by (cases b) auto
qed

lemmas domain_defs = DOMAIN_MANIFEST_def DOMAIN_MANIFEST_AUTHOR_def DOMAIN_HOST_def DOMAIN_GUEST_def
  DOMAIN_LINK_SCOPE_def DOMAIN_SUBKEY_def

lemma domain_ascii: "is_ascii s \<Longrightarrow> domain s = map (\<lambda>c. of_nat (unat c)) s"
  by (simp add: domain_def utf8Encode_ascii)

definition DOMAINS :: "bytes list" where
  "DOMAINS = [DOMAIN_MANIFEST, DOMAIN_MANIFEST_AUTHOR, DOMAIN_HOST, DOMAIN_GUEST, DOMAIN_LINK_SCOPE,
     DOMAIN_SUBKEY]"

lemma DOMAINS_nul:
  "list_all (\<lambda>d. last d = 0 \<and> d \<noteq> [] \<and> 0 \<notin> set (butlast d)) DOMAINS"
  by (simp add: DOMAINS_def domain_defs NUL_def domain_ascii is_ascii_def js_eval)

lemma DOMAINS_distinct: "distinct DOMAINS"
  by (simp add: DOMAINS_def domain_defs NUL_def domain_ascii is_ascii_def js_eval)

lemma domain_separation:
  assumes "d \<in> set DOMAINS" and "e \<in> set DOMAINS" and "d @ x = e @ y"
  shows "d = e \<and> x = y"
proof -
  have nul: "d = butlast d @ [0] \<and> 0 \<notin> set (butlast d)" if "d \<in> set DOMAINS" for d
    using DOMAINS_nul that append_butlast_last_id [of d] by (auto simp: list_all_iff)
  have "butlast d @ 0 # x = butlast e @ 0 # y"
    using assms(3) nul [OF assms(1)] nul [OF assms(2)] by (metis append.assoc append_Cons append_Nil)
  then have "butlast d = butlast e \<and> x = y"
    using nul_terminated_prefix nul [OF assms(1)] nul [OF assms(2)] by blast
  then show ?thesis using nul [OF assms(1)] nul [OF assms(2)] by metis
qed

lemma domains_mem [simp]:
  "DOMAIN_MANIFEST \<in> set DOMAINS" "DOMAIN_MANIFEST_AUTHOR \<in> set DOMAINS" "DOMAIN_HOST \<in> set DOMAINS"
  "DOMAIN_GUEST \<in> set DOMAINS" "DOMAIN_LINK_SCOPE \<in> set DOMAINS" "DOMAIN_SUBKEY \<in> set DOMAINS"
  by (simp_all add: DOMAINS_def)

lemma domains_neq [simp]:
  "DOMAIN_MANIFEST \<noteq> DOMAIN_HOST" "DOMAIN_HOST \<noteq> DOMAIN_MANIFEST"
  "DOMAIN_GUEST \<noteq> DOMAIN_LINK_SCOPE" "DOMAIN_LINK_SCOPE \<noteq> DOMAIN_GUEST"
  "DOMAIN_SUBKEY \<noteq> DOMAIN_MANIFEST_AUTHOR" "DOMAIN_MANIFEST_AUTHOR \<noteq> DOMAIN_SUBKEY"
  "DOMAIN_GUEST \<noteq> DOMAIN_MANIFEST" "DOMAIN_GUEST \<noteq> DOMAIN_HOST"
  using DOMAINS_distinct by (auto simp: DOMAINS_def)

lemma isService_iff:
  "isService s \<longleftrightarrow> s \<in> {js ''node'', js ''fs'', js ''timer'', js ''link'', js ''host''}"
  by (simp add: isService_def HOST_SERVICES_def)

lemma isOccupiedService_iff: "isOccupiedService s \<longleftrightarrow> s = js ''link''"
  by (simp add: isOccupiedService_def isService_def HOST_SERVICES_def)

end
