(* ===== verification/Op_Frame.thy ===== *)
theory Op_Frame
  imports Utf8
begin

text \<open>
  \<^verbatim>\<open>WASM/host/op-frame.ts\<close>: the caller prefix of a realm argument, the named-op envelope
  \<open>[opLen u8][op][args]\<close>, the field writer \<open>OpArgs\<close>, and the reader of the protocol id a
  \<open>send\<close> goes out under.
\<close>

datatype op_error = Malformed_Envelope | Op_Name_Length | Op_Name_Not_Ascii | Malformed_Send

section \<open>Caller and op envelope\<close>

record caller_view =
  fromHost :: bool
  caller :: bytes
  body :: bytes

definition callerOf :: "bytes \<Rightarrow> caller_view" where
  "callerOf arg =
     (let c = subarray arg 0 32
      in \<lparr>fromHost = list_all (\<lambda>i. elem_at c i = Some 0) [0..<32], caller = c, body = drop 32 arg\<rparr>)"

definition chars_of_bytes :: "bytes \<Rightarrow> jstr" where
  "chars_of_bytes = map ucast"

definition readOp :: "bytes \<Rightarrow> (op_error, jstr \<times> bytes) result" where
  "readOp b =
     (case b of
        [] \<Rightarrow> Inl Malformed_Envelope
      | n # rest \<Rightarrow>
          if length b < 1 + unat n then Inl Malformed_Envelope
          else Inr (chars_of_bytes (take (unat n) rest), drop (1 + unat n) b))"

definition writeOp :: "jstr \<Rightarrow> bytes \<Rightarrow> (op_error, bytes) result" where
  "writeOp op args =
     (if length op < 1 \<or> 255 < length op then Inl Op_Name_Length
      else if list_ex (\<lambda>c. 0x7f < c) op then Inl Op_Name_Not_Ascii
      else Inr (of_nat (length op) # map ucast op @ args))"

section \<open>Op arguments\<close>

record OpArgs =
  parts :: "bytes list"
  len :: nat

text \<open>
  A field is appended as a part; \<open>build\<close> allocates the whole buffer and copies the prefix and
  the parts into it at a running offset.
\<close>

definition args_bytes :: "bytes \<Rightarrow> OpArgs \<Rightarrow> OpArgs" where
  "args_bytes b a = a\<lparr>parts := parts a @ [b], len := len a + length b\<rparr>"

definition args_new :: OpArgs where
  "args_new = \<lparr>parts = [], len = 0\<rparr>"

definition args_op :: "jstr \<Rightarrow> (op_error, OpArgs) result" where
  "args_op op = (if op = [] then Inr args_new else rbind (writeOp op []) (\<lambda>h. Inr (args_bytes h args_new)))"

definition args_u8 :: "nat \<Rightarrow> OpArgs \<Rightarrow> OpArgs" where
  "args_u8 v = args_bytes [of_nat (v AND 255)]"

definition args_u16 :: "nat \<Rightarrow> OpArgs \<Rightarrow> OpArgs" where
  "args_u16 v = args_bytes [of_nat (drop_bit 8 v), of_nat (v AND 255)]"

definition args_u32 :: "int \<Rightarrow> OpArgs \<Rightarrow> OpArgs" where
  "args_u32 v = args_bytes (u32be v)"

definition args_blob :: "bytes \<Rightarrow> OpArgs \<Rightarrow> OpArgs" where
  "args_blob b a = args_bytes b (args_u32 (int (length b)) a)"

definition args_text :: "jstr \<Rightarrow> OpArgs \<Rightarrow> OpArgs" where
  "args_text s = args_blob (utf8Encode s)"

definition buf_set :: "bytes \<Rightarrow> bytes \<Rightarrow> nat \<Rightarrow> bytes" where
  "buf_set out p off = take off out @ p @ drop (off + length p) out"

fun fill_parts :: "bytes \<Rightarrow> nat \<Rightarrow> bytes list \<Rightarrow> bytes" where
  "fill_parts out off [] = out"
| "fill_parts out off (p # ps) = fill_parts (buf_set out p off) (off + length p) ps"

definition args_build :: "bytes \<Rightarrow> OpArgs \<Rightarrow> bytes" where
  "args_build prefix a =
     (let out = replicate (length prefix + len a) 0
      in fill_parts (buf_set out prefix 0) (length prefix) (parts a))"

section \<open>The protocol a send goes out under\<close>

definition blobEnd :: "bytes \<Rightarrow> nat \<Rightarrow> (op_error, nat) result" where
  "blobEnd args at' =
     (if length args < at' + 4 \<or> length args < at' + 4 + readU32BE args at' then Inl Malformed_Send
      else Inr (at' + 4 + readU32BE args at'))"

definition sendProtocol :: "bytes \<Rightarrow> (op_error, jstr option) result" where
  "sendProtocol b =
     rbind (readOp b) (\<lambda>(op, args).
       if op \<noteq> js ''send'' then Inr None
       else rbind (blobEnd args 1) (\<lambda>at'.
            rbind (blobEnd args at') (\<lambda>end'.
            Inr (Some (chars_of_bytes (subarray args (at' + 4) end'))))))"

section \<open>Facts about the envelope\<close>

lemma all_zero_iff:
  "(\<forall>i<n. elem_at xs i = Some 0) \<longleftrightarrow> take n xs = replicate n 0"
proof
  assume zero: "\<forall>i<n. elem_at xs i = Some 0"
  then have "n \<le> length xs"
    by (metis elem_at_def linorder_not_less nat_neq_iff option.distinct(1) order_refl)
  with zero show "take n xs = replicate n 0"
    by (auto simp: list_eq_iff_nth_eq elem_at_eq_Some)
next
  assume eq: "take n xs = replicate n 0"
  have "min (length xs) n = n"
    using arg_cong [OF eq, of length] by simp
  then have "n \<le> length xs" by linarith
  moreover have "xs ! i = 0" if "i < n" for i
    using arg_cong [OF eq, of "\<lambda>l. l ! i"] that by simp
  ultimately show "\<forall>i<n. elem_at xs i = Some 0"
    by (simp add: elem_at_def)
qed

lemma callerOf_fromHost: "fromHost (callerOf arg) \<longleftrightarrow> take 32 arg = HOST_CALLER_ID"
  using all_zero_iff [of 32 "take 32 arg"]
  by (simp add: callerOf_def Let_def list_all_iff HOST_CALLER_ID_def view_simps atLeast0LessThan
      lessThan_def Ball_def)

lemma callerOf_split: "caller (callerOf arg) @ body (callerOf arg) = arg"
  by (simp add: callerOf_def Let_def view_simps)

lemma ucast_ascii: "unat c \<le> 0xff \<Longrightarrow> ucast (ucast (c :: 16 word) :: byte) = c"
  by (simp add: word_unat_eq_iff unsigned_ucast_eq unsigned_take_bit_eq take_bit_nat_eq_self)

lemma chars_of_bytes_ucast:
  "list_all (\<lambda>c. unat c \<le> 0xff) s \<Longrightarrow> chars_of_bytes (map ucast s) = s"
  by (induction s) (simp_all add: chars_of_bytes_def ucast_ascii)

lemma length_chars_of_bytes [simp]: "length (chars_of_bytes b) = length b"
  by (simp add: chars_of_bytes_def)

lemma writeOp_ok:
  "writeOp op args = Inr b \<longleftrightarrow> op \<noteq> [] \<and> length op \<le> 255 \<and> list_all (\<lambda>c. unat c \<le> 0x7f) op
     \<and> b = of_nat (length op) # map ucast op @ args"
proof -
  have "list_ex (\<lambda>c. 0x7f < c) op \<longleftrightarrow> \<not> list_all (\<lambda>c. unat c \<le> 0x7f) op"
    by (simp add: list_ex_iff list_all_iff word_less_nat_alt not_le)
  moreover have "length op < 1 \<longleftrightarrow> op = []" by (cases op) auto
  ultimately show ?thesis by (auto simp: writeOp_def)
qed

lemma ascii_latin: "list_all (\<lambda>c. unat c \<le> 0x7f) s \<Longrightarrow> list_all (\<lambda>c. unat c \<le> 0xff) s"
  by (erule list.pred_mono_strong) simp

lemma readOp_writeOp:
  assumes "writeOp op args = Inr b"
  shows "readOp b = Inr (op, args)"
proof -
  from assms have n: "unat (of_nat (length op) :: byte) = length op"
    and a: "list_all (\<lambda>c. unat c \<le> 0xff) op"
    by (auto simp: writeOp_ok unat_of_nat_byte intro: ascii_latin)
  with assms chars_of_bytes_ucast [OF a] show ?thesis
    by (auto simp: writeOp_ok readOp_def)
qed

lemma readOp_ok:
  "readOp b = Inr (op, args) \<longleftrightarrow>
     (\<exists>name. b = of_nat (length name) # name @ args \<and> length name \<le> 255 \<and> op = chars_of_bytes name)"
  (is "?l \<longleftrightarrow> ?r")
proof
  assume ?l
  then obtain n rest where b: "b = n # rest" and n: "unat n \<le> length rest"
    and op: "op = chars_of_bytes (take (unat n) rest)" and args: "args = drop (unat n) rest"
    by (auto simp: readOp_def split: list.splits if_splits)
  have "unat n \<le> 255" using byte_nat_bound [of n] by linarith
  then show ?r
    using b n op args by (intro exI [of _ "take (unat n) rest"]) (simp add: min_absorb2)
next
  assume ?r
  then show ?l by (auto simp: readOp_def unat_of_nat_byte)
qed

section \<open>Facts about op arguments\<close>

definition args_ok :: "OpArgs \<Rightarrow> bool" where
  "args_ok a \<longleftrightarrow> len a = length (concat (parts a))"

lemma fill_parts_eq:
  "off + length (concat ps) = length out \<Longrightarrow> fill_parts out off ps = take off out @ concat ps"
  by (induction ps arbitrary: out off) (simp_all add: buf_set_def)

lemma args_build_eq: "args_ok a \<Longrightarrow> args_build prefix a = prefix @ concat (parts a)"
  by (simp add: args_build_def args_ok_def Let_def fill_parts_eq buf_set_def)

lemma args_bytes_ok [simp]: "args_ok a \<Longrightarrow> args_ok (args_bytes b a)"
  by (simp add: args_ok_def args_bytes_def)

lemma args_new_ok [simp]: "args_ok args_new"
  by (simp add: args_ok_def args_new_def)

lemma args_ok_fields [simp]:
  assumes "args_ok a"
  shows "args_ok (args_u8 v a)" "args_ok (args_u16 v a)" "args_ok (args_u32 w a)"
    "args_ok (args_blob b a)" "args_ok (args_text s a)"
  using assms by (simp_all add: args_u8_def args_u16_def args_u32_def args_blob_def args_text_def)

lemma args_op_ok: "args_op op = Inr a \<Longrightarrow> args_ok a"
  by (auto simp: args_op_def result_simps split: if_splits)

text \<open>What a built payload holds, field by field.\<close>

lemma parts_fields [simp]:
  "concat (parts args_new) = []"
  "concat (parts (args_bytes b a)) = concat (parts a) @ b"
  "concat (parts (args_u8 n a)) = concat (parts a) @ [of_nat (n AND 255)]"
  "concat (parts (args_u16 n a)) = concat (parts a) @ [of_nat (drop_bit 8 n), of_nat (n AND 255)]"
  "concat (parts (args_u32 v a)) = concat (parts a) @ u32be v"
  "concat (parts (args_blob b a)) = concat (parts a) @ u32be (int (length b)) @ b"
  "concat (parts (args_text s a)) = concat (parts a) @ u32be (int (length (utf8Encode s))) @ utf8Encode s"
  by (simp_all add: args_new_def args_bytes_def args_u8_def args_u16_def args_u32_def args_blob_def args_text_def)

section \<open>Facts about the send op\<close>

lemma readU32BE_field:
  "length xs = n \<Longrightarrow> length b < 2 ^ 32 \<Longrightarrow> readU32BE (xs @ u32be (int (length b)) @ ys) n = length b"
  using readU32BE_shift [of xs "u32be (int (length b)) @ ys" 0] readU32BE_u32be [of "int (length b)" ys]
  by (simp add: nat_int)

lemma blobEnd_field:
  "length xs = n \<Longrightarrow> length b < 2 ^ 32 \<Longrightarrow>
     blobEnd (xs @ u32be (int (length b)) @ b @ ys) n = Inr (n + 4 + length b)"
  by (simp add: blobEnd_def readU32BE_field)

lemma sendProtocol_written:
  assumes hdr: "args_op (js ''send'') = Inr a0"
    and small: "length to < 2 ^ 32" "length proto < 2 ^ 32"
    and ascii: "list_all (\<lambda>c. unat c \<le> 0x7f) p" "proto = map ucast p"
  shows "sendProtocol (args_build [] (args_blob payload (args_blob proto (args_blob to (args_u8 noReply a0)))))
    = Inr (Some p)"
proof -
  let ?args = "[of_nat (noReply AND 255)] @ u32be (int (length to)) @ to @
    u32be (int (length proto)) @ proto @ u32be (int (length payload)) @ payload"
  obtain h where h: "writeOp (js ''send'') [] = Inr h" and a0: "a0 = args_bytes h args_new"
    using hdr by (auto simp: args_op_def result_simps)
  have w: "writeOp (js ''send'') ?args = Inr (h @ ?args)"
    using h by (auto simp: writeOp_ok)
  have "args_build [] (args_blob payload (args_blob proto (args_blob to (args_u8 noReply a0)))) = h @ ?args"
    by (simp add: args_build_eq a0)
  moreover have "blobEnd ?args 1 = Inr (5 + length to)"
    using blobEnd_field [of "[of_nat (noReply AND 255)]" 1 to] small by simp
  moreover have "blobEnd ?args (5 + length to) = Inr (9 + length to + length proto)"
    using blobEnd_field [of "[of_nat (noReply AND 255)] @ u32be (int (length to)) @ to" "5 + length to" proto] small
    by simp
  moreover have "subarray ?args (9 + length to) (9 + length to + length proto) = proto"
    using subarray_middle [of "[of_nat (noReply AND 255)] @ u32be (int (length to)) @ to @ u32be (int (length proto))"
      "9 + length to" proto] by simp
  moreover have "chars_of_bytes proto = p"
    using ascii chars_of_bytes_ucast [OF ascii_latin] by simp
  ultimately show ?thesis
    by (simp only: sendProtocol_def readOp_writeOp [OF w] rbind_simps prod.case) simp
qed

end
