(* ===== verification/Wasm_Limits.thy ===== *)
theory Wasm_Limits
  imports Op_Frame
begin

text \<open>
  \<^verbatim>\<open>WASM/host/wasm-limits.ts\<close>: what a WebAssembly module declares it may allocate, read off its
  bytes before it is instantiated, and the admission check against the host's budget. The cursor
  is the offset \<open>i\<close>, returned with every value read. Sums are exact naturals; a JavaScript
  number is exact below \<open>2 ^ 53\<close>, far above every budget the check compares with.
\<close>

section \<open>Constants and types\<close>

definition WASM_PAGE_BYTES :: nat where
  "WASM_PAGE_BYTES = 65536"

definition WASM_TABLE_ELEMENT_BYTES :: nat where
  "WASM_TABLE_ELEMENT_BYTES = 32"

definition DEFAULT_MAX_MODULE_MEMORY_BYTES :: nat where
  "DEFAULT_MAX_MODULE_MEMORY_BYTES = 64 * 1024 * 1024"

definition DEFAULT_MAX_BUNDLE_MODULES :: nat where
  "DEFAULT_MAX_BUNDLE_MODULES = 256"

record MemoryLimits =
  initialPages :: nat
  maxPages :: "nat option"

record ModuleLimits =
  memory :: "MemoryLimits option"
  initialTableElements :: nat
  maxTableElements :: "nat option"

datatype what_limits = Memory | Table

datatype wasm_error =
    Truncated_Leb | Leb_Too_Long | Truncated_Name | Truncated_Limits what_limits
  | Shared_Limits what_limits | Unsupported_Flags what_limits byte
  | Truncated_Table_Type | Unsupported_Reftype byte
  | Too_Short | Bad_Magic | Truncated_Section | Truncated_Import | Forbidden_Import jstr
  | Truncated_Table_Section | Memory_Count nat
  | No_Memory_Max | No_Table_Max | Initial_Over_Budget nat | Max_Over_Budget nat

section \<open>The reader\<close>

fun leb_loop :: "nat \<Rightarrow> nat \<Rightarrow> nat \<Rightarrow> bytes \<Rightarrow> nat \<Rightarrow> (wasm_error, nat \<times> nat) result" where
  "leb_loop 0 shift acc b i = Inl Leb_Too_Long"
| "leb_loop (Suc n) shift acc b i =
     (if length b \<le> i then Inl Truncated_Leb
      else let byte = unat (b ! i); acc' = acc + (byte AND 0x7f) * 2 ^ shift
           in if byte AND 0x80 = 0 then Inr (acc', i + 1) else leb_loop n (shift + 7) acc' b (i + 1))"

definition readVarU32 :: "bytes \<Rightarrow> nat \<Rightarrow> (wasm_error, nat \<times> nat) result" where
  "readVarU32 b i = leb_loop 5 0 0 b i"

definition readName :: "bytes \<Rightarrow> nat \<Rightarrow> (wasm_error, jstr \<times> nat) result" where
  "readName b i =
     rbind (readVarU32 b i) (\<lambda>(len, i).
       if length b - i < len then Inl Truncated_Name
       else Inr (chars_of_bytes (subarray b i (i + len)), i + len))"

definition MODULE_IMPORTS :: "jstr list" where
  "MODULE_IMPORTS = [js ''env.abort'', js ''env.seed'', js ''env.trace'']"

record limits_rec =
  initial :: nat
  max_opt :: "nat option"

definition readLimits :: "bytes \<Rightarrow> nat \<Rightarrow> what_limits \<Rightarrow> (wasm_error, limits_rec \<times> nat) result" where
  "readLimits b i what =
     (if length b \<le> i then Inl (Truncated_Limits what)
      else let flags = b ! i in
        if flags AND 0x02 \<noteq> 0 then Inl (Shared_Limits what)
        else if flags AND NOT 0x01 \<noteq> 0 then Inl (Unsupported_Flags what flags)
        else rbind (readVarU32 b (i + 1)) (\<lambda>(ini, i).
             if flags AND 0x01 \<noteq> 0
             then rbind (readVarU32 b i) (\<lambda>(mx, i). Inr (\<lparr>initial = ini, max_opt = Some mx\<rparr>, i))
             else Inr (\<lparr>initial = ini, max_opt = None\<rparr>, i)))"

definition readTableType :: "bytes \<Rightarrow> nat \<Rightarrow> (wasm_error, limits_rec \<times> nat) result" where
  "readTableType b i =
     (if length b \<le> i then Inl Truncated_Table_Type
      else if b ! i \<noteq> 0x70 \<and> b ! i \<noteq> 0x6f then Inl (Unsupported_Reftype (b ! i))
      else readLimits b (i + 1) Table)"

text \<open>The import loop, once per declared import.\<close>

primrec readImports :: "nat \<Rightarrow> bytes \<Rightarrow> nat \<Rightarrow> (wasm_error, nat) result" where
  "readImports 0 b i = Inr i"
| "readImports (Suc k) b i =
     rbind (readName b i) (\<lambda>(m, i).
     rbind (readName b i) (\<lambda>(f, i).
       let name = m @ js ''.'' @ f in
       if length b \<le> i then Inl Truncated_Import
       else if b ! i \<noteq> 0x00 \<or> name \<notin> set MODULE_IMPORTS then Inl (Forbidden_Import name)
       else rbind (readVarU32 b (i + 1)) (\<lambda>(_, i). readImports k b i)))"

text \<open>The table loop, which charges every table to the two sums.\<close>

definition add_max :: "nat option \<Rightarrow> nat option \<Rightarrow> nat option" where
  "add_max a b = (case (a, b) of (Some x, Some y) \<Rightarrow> Some (x + y) | _ \<Rightarrow> None)"

definition charge_table :: "limits_rec \<Rightarrow> ModuleLimits \<Rightarrow> ModuleLimits" where
  "charge_table t l = l\<lparr>initialTableElements := initialTableElements l + initial t,
                        maxTableElements := add_max (maxTableElements l) (max_opt t)\<rparr>"

primrec readTables :: "nat \<Rightarrow> bytes \<Rightarrow> nat \<Rightarrow> ModuleLimits \<Rightarrow> (wasm_error, ModuleLimits \<times> nat) result" where
  "readTables 0 b i l = Inr (l, i)"
| "readTables (Suc k) b i l =
     rbind (readTableType b i) (\<lambda>(t, i). readTables k b i (charge_table t l))"

definition readSection :: "byte \<Rightarrow> bytes \<Rightarrow> nat \<Rightarrow> nat \<Rightarrow> ModuleLimits \<Rightarrow> (wasm_error, ModuleLimits) result" where
  "readSection id' b i end' l =
     (if id' = 2 then
        rbind (readVarU32 b i) (\<lambda>(count, i). rbind (readImports count b i) (\<lambda>_. Inr l))
      else if id' = 4 then
        rbind (readVarU32 b i) (\<lambda>(count, i).
        rbind (readTables count b i l) (\<lambda>(l, i).
          if end' < i then Inl Truncated_Table_Section else Inr l))
      else if id' = 5 then
        rbind (readVarU32 b i) (\<lambda>(count, i).
          if count \<noteq> 1 then Inl (Memory_Count count)
          else rbind (readLimits b i Memory) (\<lambda>(m, _).
               Inr (l\<lparr>memory := Some \<lparr>initialPages = initial m, maxPages = max_opt m\<rparr>\<rparr>)))
      else Inr l)"

lemma leb_loop_advances: "leb_loop n s a b i = Inr (v, j) \<Longrightarrow> i < j \<and> j \<le> length b"
  by (induction n s a b i rule: leb_loop.induct) (fastforce simp: Let_def split: if_splits)+

lemma readVarU32_advances: "readVarU32 b i = Inr (v, j) \<Longrightarrow> i < j \<and> j \<le> length b"
  unfolding readVarU32_def by (rule leb_loop_advances)

text \<open>
  The section walk. Every section ends strictly past where it began, so the walk ends; the
  cursor always goes to the section's declared end, whatever the section's own reader used.
\<close>

function walkSections :: "bytes \<Rightarrow> nat \<Rightarrow> ModuleLimits \<Rightarrow> (wasm_error, ModuleLimits) result" where
  "walkSections b i l =
     (if length b \<le> i then Inr l
      else rbind (readVarU32 b (i + 1)) (\<lambda>(size, j).
             if length b < j + size then Inl Truncated_Section
             else rbind (readSection (b ! i) b j (j + size) l) (\<lambda>l'. walkSections b (j + size) l')))"
  by pat_completeness auto
termination
  by (relation "measure (\<lambda>(b, i, l). length b - i)") (auto dest: readVarU32_advances)

declare walkSections.simps [simp del]

definition readModuleLimits :: "bytes \<Rightarrow> (wasm_error, ModuleLimits) result" where
  "readModuleLimits wasm =
     (if length wasm < 8 then Inl Too_Short
      else if \<not> (wasm ! 0 = 0x00 \<and> wasm ! 1 = 0x61 \<and> wasm ! 2 = 0x73 \<and> wasm ! 3 = 0x6d) then Inl Bad_Magic
      else walkSections wasm 8 \<lparr>memory = None, initialTableElements = 0, maxTableElements = Some 0\<rparr>)"

definition or_zero :: "nat option \<Rightarrow> nat" where
  "or_zero x = (case x of None \<Rightarrow> 0 | Some n \<Rightarrow> n)"

definition moduleFootprintBytes :: "ModuleLimits \<Rightarrow> nat" where
  "moduleFootprintBytes l =
     or_zero (case memory l of None \<Rightarrow> None | Some m \<Rightarrow> maxPages m) * WASM_PAGE_BYTES
     + or_zero (maxTableElements l) * WASM_TABLE_ELEMENT_BYTES"

definition initialFootprintBytes :: "ModuleLimits \<Rightarrow> nat" where
  "initialFootprintBytes l =
     (case memory l of None \<Rightarrow> 0 | Some m \<Rightarrow> initialPages m) * WASM_PAGE_BYTES
     + initialTableElements l * WASM_TABLE_ELEMENT_BYTES"

definition checkModuleLimits :: "bytes \<Rightarrow> nat \<Rightarrow> (wasm_error, ModuleLimits) result" where
  "checkModuleLimits wasm maxBytes =
     rbind (readModuleLimits wasm) (\<lambda>l.
       if (case memory l of None \<Rightarrow> False | Some m \<Rightarrow> maxPages m = None) then Inl No_Memory_Max
       else if maxTableElements l = None then Inl No_Table_Max
       else if maxBytes < initialFootprintBytes l then Inl (Initial_Over_Budget (initialFootprintBytes l))
       else if maxBytes < moduleFootprintBytes l then Inl (Max_Over_Budget (moduleFootprintBytes l))
       else Inr l)"

section \<open>What a module declares\<close>

text \<open>
  The module as its author wrote it, and its binary encoding (the WebAssembly core
  specification's, for the sections the reader looks into). The reader is proved to compute
  \<open>declare_section\<close> over the sections of every encoded module.
\<close>

record wimport =
  imp_module :: bytes
  imp_name :: bytes
  imp_kind :: byte
  imp_type :: nat

datatype wsection =
    SImports "wimport list"
  | STables "(byte \<times> limits_rec) list"
  | SMemory limits_rec
  | SOther byte bytes

fun leb :: "nat \<Rightarrow> bytes" where
  "leb n = (if n < 128 then [of_nat n] else of_nat (n mod 128 + 128) # leb (n div 128))"

declare leb.simps [simp del]

definition enc_limits :: "limits_rec \<Rightarrow> bytes" where
  "enc_limits l = (case max_opt l of
     None \<Rightarrow> 0 # leb (initial l) | Some m \<Rightarrow> 1 # leb (initial l) @ leb m)"

definition enc_name :: "bytes \<Rightarrow> bytes" where
  "enc_name s = leb (length s) @ s"

definition enc_import :: "wimport \<Rightarrow> bytes" where
  "enc_import m = enc_name (imp_module m) @ enc_name (imp_name m) @ imp_kind m # leb (imp_type m)"

fun section_id :: "wsection \<Rightarrow> byte" where
  "section_id (SImports _) = 2"
| "section_id (STables _) = 4"
| "section_id (SMemory _) = 5"
| "section_id (SOther i _) = i"

fun section_payload :: "wsection \<Rightarrow> bytes" where
  "section_payload (SImports ms) = leb (length ms) @ concat (map enc_import ms)"
| "section_payload (STables ts) = leb (length ts) @ concat (map (\<lambda>(rt, l). rt # enc_limits l) ts)"
| "section_payload (SMemory l) = leb 1 @ enc_limits l"
| "section_payload (SOther _ p) = p"

definition enc_section :: "wsection \<Rightarrow> bytes" where
  "enc_section s = section_id s # leb (length (section_payload s)) @ section_payload s"

definition enc_module :: "bytes \<Rightarrow> wsection list \<Rightarrow> bytes" where
  "enc_module version ss = [0x00, 0x61, 0x73, 0x6d] @ version @ concat (map enc_section ss)"

definition import_label :: "wimport \<Rightarrow> jstr" where
  "import_label m = chars_of_bytes (imp_module m) @ js ''.'' @ chars_of_bytes (imp_name m)"

definition shim_import :: "wimport \<Rightarrow> bool" where
  "shim_import m \<longleftrightarrow> imp_kind m = 0 \<and> import_label m \<in> set MODULE_IMPORTS"

fun declare_section :: "wsection \<Rightarrow> ModuleLimits \<Rightarrow> (wasm_error, ModuleLimits) result" where
  "declare_section (SImports ms) l =
     (case find (\<lambda>m. \<not> shim_import m) ms of
        None \<Rightarrow> Inr l | Some m \<Rightarrow> Inl (Forbidden_Import (import_label m)))"
| "declare_section (STables ts) l = Inr (fold (\<lambda>(_, t). charge_table t) ts l)"
| "declare_section (SMemory t) l =
     Inr (l\<lparr>memory := Some \<lparr>initialPages = initial t, maxPages = max_opt t\<rparr>\<rparr>)"
| "declare_section (SOther _ _) l = Inr l"

definition no_limits :: ModuleLimits where
  "no_limits = \<lparr>memory = None, initialTableElements = 0, maxTableElements = Some 0\<rparr>"

definition u32 :: "nat \<Rightarrow> bool" where
  "u32 n \<longleftrightarrow> n < 2 ^ 32"

definition limits_wf :: "limits_rec \<Rightarrow> bool" where
  "limits_wf l \<longleftrightarrow> u32 (initial l) \<and> (case max_opt l of None \<Rightarrow> True | Some m \<Rightarrow> u32 m)"

fun section_wf :: "wsection \<Rightarrow> bool" where
  "section_wf (SImports ms) \<longleftrightarrow> u32 (length ms) \<and>
     list_all (\<lambda>m. u32 (length (imp_module m)) \<and> u32 (length (imp_name m)) \<and> u32 (imp_type m)) ms"
| "section_wf (STables ts) \<longleftrightarrow> u32 (length ts) \<and>
     list_all (\<lambda>(rt, l). (rt = 0x70 \<or> rt = 0x6f) \<and> limits_wf l) ts"
| "section_wf (SMemory l) \<longleftrightarrow> limits_wf l"
| "section_wf (SOther i _) \<longleftrightarrow> i \<noteq> 2 \<and> i \<noteq> 4 \<and> i \<noteq> 5"

section \<open>Reading at a position\<close>

definition at_pos :: "'a list \<Rightarrow> nat \<Rightarrow> 'a list \<Rightarrow> bool" where
  "at_pos b i xs \<longleftrightarrow> i \<le> length b \<and> take (length xs) (drop i b) = xs"

lemma at_pos_Nil [simp]: "at_pos b i [] \<longleftrightarrow> i \<le> length b"
  by (simp add: at_pos_def)

lemma at_pos_Cons [simp]: "at_pos b i (x # xs) \<longleftrightarrow> i < length b \<and> b ! i = x \<and> at_pos b (Suc i) xs"
proof (cases "i < length b")
  case True
  then have "drop i b = b ! i # drop (Suc i) b" by (rule Cons_nth_drop_Suc [symmetric])
  with True show ?thesis by (auto simp: at_pos_def)
qed (auto simp: at_pos_def)

lemma at_pos_append [simp]: "at_pos b i (xs @ ys) \<longleftrightarrow> at_pos b i xs \<and> at_pos b (i + length xs) ys"
  by (induction xs arbitrary: i) (use less_imp_le_nat in \<open>auto simp: at_pos_def [of _ _ ys]\<close>)

lemma at_pos_bound: "at_pos b i xs \<Longrightarrow> i + length xs \<le> length b"
  by (induction xs arbitrary: i) fastforce+

lemma at_pos_subarray: "at_pos b i xs \<Longrightarrow> subarray b i (i + length xs) = xs"
  by (simp add: at_pos_def subarray_def)

lemma at_pos_whole: "length pre = i \<Longrightarrow> at_pos (pre @ xs) i xs"
  by (simp add: at_pos_def)

lemma leb_byte:
  assumes "n < 256"
  shows "unat (of_nat n :: byte) AND 0x7f = n mod 128" "unat (of_nat n :: byte) AND 0x80 = 0 \<longleftrightarrow> n < 128"
proof -
  have u: "unat (of_nat n :: byte) = n" using assms by (rule unat_of_nat_byte)
  show "unat (of_nat n :: byte) AND 0x7f = n mod 128"
    unfolding u using and_mask_nat [of n 7] by simp
  have "n AND 2 ^ 7 = 0 \<longleftrightarrow> \<not> bit n 7" by (rule and_exp_eq_0_iff_not_bit)
  then show "unat (of_nat n :: byte) AND 0x80 = 0 \<longleftrightarrow> n < 128"
    unfolding u using assms div_nat_eqI [of 128 1 n] by (cases "n < 128") (simp_all add: bit_iff_odd)
qed

lemma join128: "n mod 128 * p + n div 128 * (p * 128) = n * (p :: nat)"
proof -
  have "n * p = (n mod 128 + 128 * (n div 128)) * p" by (simp only: mod_mult_div_eq)
  then show ?thesis by (simp only: add_mult_distrib add_mult_distrib2 mult.assoc mult.commute mult.left_commute)
qed

lemma leb_loop_leb:
  "at_pos b i (leb n) \<Longrightarrow> n < 128 ^ Suc k \<Longrightarrow>
     leb_loop (Suc k) shift acc b i = Inr (acc + n * 2 ^ shift, i + length (leb n))"
proof (induction k arbitrary: n shift acc i)
  case 0
  with leb_byte [of n] show ?case by (simp add: leb.simps [of n] Let_def)
next
  case (Suc k)
  show ?case
  proof (cases "n < 128")
    case True
    with Suc.prems leb_byte [of n] show ?thesis
      by (simp add: leb.simps [of n] Let_def)
  next
    case False
    let ?d = "n mod 128 + 128"
    have d: "?d < 256" using mod_less_divisor [of 128 n] by linarith
    have "n div 128 < 128 ^ Suc k"
      using Suc.prems(2) by (simp add: div_less_iff_less_mult)
    then have "leb_loop (Suc k) (shift + 7) (acc + n mod 128 * 2 ^ shift) b (Suc i) =
      Inr (acc + n mod 128 * 2 ^ shift + n div 128 * 2 ^ (shift + 7), Suc i + length (leb (n div 128)))"
      using Suc.prems(1) False by (intro Suc.IH) (simp_all add: leb.simps [of n])
    then show ?thesis
      using Suc.prems(1) False leb_byte [OF d] join128 [of n "2 ^ shift"]
      by (simp add: leb.simps [of n] Let_def power_add del: leb_loop.simps add: leb_loop.simps(2) [of "Suc k"])
  qed
qed

lemma readVarU32_leb:
  assumes "at_pos b i (leb n)" and "u32 n"
  shows "readVarU32 b i = Inr (n, i + length (leb n))"
proof -
  have five: "(5 :: nat) = Suc 4" by simp
  have "n < 128 ^ Suc 4" using assms(2) by (simp add: u32_def)
  from leb_loop_leb [OF assms(1) this, of 0 0] show ?thesis
    unfolding readVarU32_def five by (simp only: add_0 power_0 mult_1_right)
qed

lemma readName_enc:
  assumes "at_pos b i (enc_name s)" and "u32 (length s)"
  shows "readName b i = Inr (chars_of_bytes s, i + length (enc_name s))"
proof -
  let ?j = "i + length (leb (length s))"
  have pos: "at_pos b i (leb (length s))" "at_pos b ?j s"
    using assms(1) by (simp_all add: enc_name_def)
  have "length s \<le> length b - ?j" using at_pos_bound [OF pos(2)] by linarith
  then show ?thesis
    using at_pos_subarray [OF pos(2)]
    by (simp add: readName_def readVarU32_leb [OF pos(1) assms(2)] enc_name_def add.assoc)
qed

lemma readLimits_enc:
  assumes "at_pos b i (enc_limits l)" and "limits_wf l"
  shows "readLimits b i w = Inr (l, i + length (enc_limits l))"
proof (cases "max_opt l")
  case None
  with assms have pos: "i < length b" "b ! i = 0" "at_pos b (Suc i) (leb (initial l))"
    and u: "u32 (initial l)"
    by (simp_all add: enc_limits_def limits_wf_def)
  with None show ?thesis
    by (cases l) (simp add: readLimits_def readVarU32_leb [OF pos(3) u] enc_limits_def)
next
  case (Some m)
  let ?j = "Suc i + length (leb (initial l))"
  from Some assms have pos: "i < length b" "b ! i = 1" "at_pos b (Suc i) (leb (initial l))" "at_pos b ?j (leb m)"
    and u: "u32 (initial l)" "u32 m"
    by (simp_all add: enc_limits_def limits_wf_def)
  then have "readVarU32 b (Suc i) = Inr (initial l, Suc (i + length (leb (initial l))))"
    "readVarU32 b (Suc (i + length (leb (initial l)))) = Inr (m, Suc (i + length (leb (initial l)) + length (leb m)))"
    by (simp_all add: readVarU32_leb)
  with Some pos show ?thesis
    by (cases l) (simp add: readLimits_def enc_limits_def)
qed

lemma readImports_enc:
  assumes "at_pos b i (concat (map enc_import ms))"
    and "list_all (\<lambda>m. u32 (length (imp_module m)) \<and> u32 (length (imp_name m)) \<and> u32 (imp_type m)) ms"
  shows "readImports (length ms) b i =
    (case find (\<lambda>m. \<not> shim_import m) ms of
       None \<Rightarrow> Inr (i + length (concat (map enc_import ms)))
     | Some m \<Rightarrow> Inl (Forbidden_Import (import_label m)))"
  using assms
proof (induction ms arbitrary: i)
  case Nil
  then show ?case by simp
next
  case (Cons m ms)
  let ?j = "i + length (enc_name (imp_module m))"
  let ?k = "?j + length (enc_name (imp_name m))"
  have u: "u32 (length (imp_module m))" "u32 (length (imp_name m))" "u32 (imp_type m)"
    using Cons.prems(2) by simp_all
  have pos: "at_pos b i (enc_name (imp_module m))" "at_pos b ?j (enc_name (imp_name m))"
    "?k < length b" "b ! ?k = imp_kind m" "at_pos b (?k + 1) (leb (imp_type m))"
    using Cons.prems(1) by (simp_all add: enc_import_def [of m] add.assoc)
  have rest: "at_pos b (?k + 1 + length (leb (imp_type m))) (concat (map enc_import ms))"
    using Cons.prems(1) by (simp add: enc_import_def [of m] add.assoc)
  have step: "readImports (Suc n) b i =
      (if shim_import m then readImports n b (?k + 1 + length (leb (imp_type m)))
       else Inl (Forbidden_Import (import_label m)))" for n
    using pos by (simp add: readName_enc [OF pos(1) u(1)] readName_enc [OF pos(2) u(2)]
        readVarU32_leb [OF pos(5) [simplified] u(3)] shim_import_def import_label_def Let_def)
  show ?case
    using Cons.IH [OF rest] Cons.prems(2)
    by (auto simp: step enc_import_def [of m] add.assoc simp del: readImports.simps split: option.splits)
qed

lemma readTables_enc:
  assumes "at_pos b i (concat (map (\<lambda>(rt, l). rt # enc_limits l) ts))"
    and "list_all (\<lambda>(rt, l). (rt = 0x70 \<or> rt = 0x6f) \<and> limits_wf l) ts"
  shows "readTables (length ts) b i l =
    Inr (fold (\<lambda>(_, t). charge_table t) ts l, i + length (concat (map (\<lambda>(rt, l). rt # enc_limits l) ts)))"
  using assms
proof (induction ts arbitrary: i l)
  case Nil
  then show ?case by simp
next
  case (Cons t ts)
  obtain rt lim where t: "t = (rt, lim)" by fastforce
  let ?j = "i + 1 + length (enc_limits lim)"
  have pos: "i < length b" "b ! i = rt" "at_pos b (i + 1) (enc_limits lim)" and wf: "limits_wf lim"
    and rest: "at_pos b ?j (concat (map (\<lambda>(rt, l). rt # enc_limits l) ts))"
    using Cons.prems by (simp_all add: t add.assoc)
  have "readTableType b i = Inr (lim, ?j)"
    using Cons.prems(2) pos readLimits_enc [OF pos(3) wf] by (auto simp: readTableType_def t)
  then show ?case
    using Cons.IH [OF rest] Cons.prems(2) by (simp add: t add.assoc)
qed

lemma readSection_enc:
  assumes "at_pos b i (section_payload s)" and "section_wf s" and "e = i + length (section_payload s)"
  shows "readSection (section_id s) b i e l = declare_section s l"
proof (cases s)
  case (SImports ms)
  then have pos: "at_pos b i (leb (length ms))" "at_pos b (i + length (leb (length ms))) (concat (map enc_import ms))"
    and u: "u32 (length ms)"
    using assms by simp_all
  show ?thesis
    using assms(2) SImports readImports_enc [OF pos(2)] readVarU32_leb [OF pos(1) u]
    by (simp add: readSection_def split: option.splits)
next
  case (STables ts)
  then have pos: "at_pos b i (leb (length ts))"
    "at_pos b (i + length (leb (length ts))) (concat (map (\<lambda>(rt, l). rt # enc_limits l) ts))"
    and u: "u32 (length ts)"
    using assms by simp_all
  show ?thesis
    using assms(2,3) STables readTables_enc [OF pos(2)] readVarU32_leb [OF pos(1) u]
    by (simp add: readSection_def)
next
  case (SMemory m)
  then have pos: "at_pos b i (leb 1)" "at_pos b (i + length (leb 1)) (enc_limits m)"
    using assms by simp_all
  then show ?thesis
    using assms(2) SMemory readLimits_enc [OF pos(2)] readVarU32_leb [OF pos(1)]
    by (simp add: readSection_def u32_def)
next
  case (SOther x p)
  then show ?thesis using assms by (simp add: readSection_def)
qed

lemma walkSections_enc:
  assumes "at_pos b i (concat (map enc_section ss))" and "length b = i + length (concat (map enc_section ss))"
    and "list_all section_wf ss" and "list_all (\<lambda>s. u32 (length (section_payload s))) ss"
  shows "walkSections b i l = rfold declare_section ss l"
  using assms
proof (induction ss arbitrary: i l)
  case Nil
  then show ?case by (simp add: walkSections.simps [of b i])
next
  case (Cons s ss)
  let ?j = "i + 1 + length (leb (length (section_payload s)))"
  let ?e = "?j + length (section_payload s)"
  have pos: "i < length b" "b ! i = section_id s" "at_pos b (i + 1) (leb (length (section_payload s)))"
    "at_pos b ?j (section_payload s)" and rest: "at_pos b ?e (concat (map enc_section ss))"
    and len: "length b = ?e + length (concat (map enc_section ss))"
    using Cons.prems(1,2) by (simp_all add: enc_section_def [of s] add.assoc)
  have "walkSections b ?e = rfold declare_section ss"
    using Cons.IH [OF rest len] Cons.prems(3,4) by (simp add: fun_eq_iff)
  moreover have "readSection (section_id s) b ?j ?e l = declare_section s l"
    using readSection_enc [OF pos(4) _ refl] Cons.prems(3) by simp
  ultimately show ?case
    using Cons.prems(4) pos len readVarU32_leb [OF pos(3)]
    by (simp add: walkSections.simps [of b i])
qed

theorem readModuleLimits_enc_module:
  assumes "length version = 4" and "list_all section_wf ss"
    and "list_all (\<lambda>s. u32 (length (section_payload s))) ss"
  shows "readModuleLimits (enc_module version ss) = rfold declare_section ss no_limits"
proof -
  have "walkSections (enc_module version ss) 8 no_limits = rfold declare_section ss no_limits"
    using assms by (intro walkSections_enc) (auto simp: enc_module_def at_pos_def)
  then show ?thesis
    using assms(1) by (simp add: readModuleLimits_def enc_module_def no_limits_def)
qed

section \<open>Admission\<close>

lemma checkModuleLimits_ok:
  "checkModuleLimits wasm maxBytes = Inr l \<longleftrightarrow>
     readModuleLimits wasm = Inr l \<and> (\<forall>m. memory l = Some m \<longrightarrow> maxPages m \<noteq> None) \<and>
     maxTableElements l \<noteq> None \<and> initialFootprintBytes l \<le> maxBytes \<and> moduleFootprintBytes l \<le> maxBytes"
  by (auto simp: checkModuleLimits_def result_simps split: option.splits if_splits)

end
