(* ===== verification/Bundle.thy ===== *)
theory Bundle
  imports Json Domains Wasm_Limits
begin

text \<open>
  \<^verbatim>\<open>WASM/host/bundle.ts\<close>: the signed envelope, the manifest checks, and the parse of a bundle's
  body. The verifier's cryptography is the record \<open>ManifestVerifier\<close>; the JSON text codec is a
  parameter too.
\<close>

section \<open>Data\<close>

record BundleGuest =
  requires :: "jstr list"
  config :: "json option"

record BundleManifest =
  app :: jstr
  version :: int
  protocols :: "jstr list option"
  services :: "jstr list option"
  modules :: "jstr list"
  guest :: BundleGuest

record ManifestVerifier =
  crypto_sign_verify_detached :: "bytes \<Rightarrow> bytes \<Rightarrow> bytes \<Rightarrow> bool"
  crypto_generichash :: "nat \<Rightarrow> bytes \<Rightarrow> bytes option \<Rightarrow> bytes"
  ml_dsa65_verify_detached :: "(bytes \<Rightarrow> bytes \<Rightarrow> bytes \<Rightarrow> bool) option"

record ManifestAuthorKeys =
  ed :: bytes
  mlDsa :: bytes

record LoadedBundle =
  author :: bytes
  authorKeys :: ManifestAuthorKeys
  manifest :: BundleManifest
  guestSource :: jstr

record VerifiedBundle = LoadedBundle +
  module_wasm :: "(jstr \<times> bytes) list"

datatype bundle_error =
    No_MlDsa_Verifier | Signature_Invalid | Unsupported_Suite byte
  | Truncated_Body | Manifest_Not_Json | No_Guest | Malformed_Manifest
  | Requires_Host_Method jstr | Requires_Malformed jstr | Requires_Own_Module jstr
  | Trailing_Bytes | Module_Refused wasm_error | Aggregate_Over_Budget nat | Module_Build_Failed

section \<open>Hashes and scopes\<close>

definition genesisHash :: "ManifestVerifier \<Rightarrow> bytes \<Rightarrow> bytes" where
  "genesisHash sodium data = crypto_generichash sodium 32 data None"

definition reachesLink :: "BundleManifest \<Rightarrow> bool" where
  "reachesLink m \<longleftrightarrow> js ''link'' \<in> set (requires (guest m))"

definition appScopeFor :: "ManifestVerifier \<Rightarrow> jstr \<Rightarrow> jstr" where
  "appScopeFor crypto a = subarray (toHex (genesisHash crypto (utf8Encode a))) 0 32 @ js ''-''"

section \<open>The envelope\<close>

definition SUITE_LEN :: nat where "SUITE_LEN = 1"
definition PK_LEN :: nat where "PK_LEN = 32"
definition SIG_LEN :: nat where "SIG_LEN = 64"
definition ML_DSA_PK_LEN :: nat where "ML_DSA_PK_LEN = 1952"
definition ML_DSA_SIG_LEN :: nat where "ML_DSA_SIG_LEN = 3309"
definition OFF_ED_PK :: nat where "OFF_ED_PK = SUITE_LEN"
definition OFF_ML_PK :: nat where "OFF_ML_PK = OFF_ED_PK + PK_LEN"
definition OFF_ED_SIG :: nat where "OFF_ED_SIG = OFF_ML_PK + ML_DSA_PK_LEN"
definition OFF_ML_SIG :: nat where "OFF_ML_SIG = OFF_ED_SIG + SIG_LEN"
definition OFF_BODY :: nat where "OFF_BODY = OFF_ML_SIG + ML_DSA_SIG_LEN"

lemmas envelope_offsets = SUITE_LEN_def PK_LEN_def SIG_LEN_def ML_DSA_PK_LEN_def ML_DSA_SIG_LEN_def
  OFF_ED_PK_def OFF_ML_PK_def OFF_ED_SIG_def OFF_ML_SIG_def OFF_BODY_def

definition envelopeSigningInput :: "ManifestVerifier \<Rightarrow> bytes \<Rightarrow> bytes \<Rightarrow> bytes \<Rightarrow> bytes \<Rightarrow> bytes" where
  "envelopeSigningInput sodium dmn edPk mlDsaPk body' =
     concatBytes [dmn, [SUITE_MANIFEST_HYBRID_PQ], edPk, mlDsaPk, genesisHash sodium body']"

definition hybridAuthorId :: "ManifestVerifier \<Rightarrow> bytes \<Rightarrow> bytes \<Rightarrow> bytes" where
  "hybridAuthorId sodium edPk mlDsaPk =
     crypto_generichash sodium 32
       (concatBytes [DOMAIN_MANIFEST_AUTHOR, [SUITE_MANIFEST_HYBRID_PQ], edPk, mlDsaPk]) None"

definition envelopeBody :: "bytes \<Rightarrow> (bundle_error, bytes) result" where
  "envelopeBody env =
     (if length env < SUITE_LEN then Inl Signature_Invalid
      else if env ! 0 \<noteq> SUITE_MANIFEST_HYBRID_PQ then Inl (Unsupported_Suite (env ! 0))
      else if length env < OFF_BODY then Inl Signature_Invalid
      else Inr (drop OFF_BODY env))"

record VerifiedEnvelope =
  env_author :: bytes
  env_keys :: ManifestAuthorKeys
  env_body :: bytes

definition verifyEnvelope :: "ManifestVerifier \<Rightarrow> bytes \<Rightarrow> bytes \<Rightarrow> (bundle_error, VerifiedEnvelope) result" where
  "verifyEnvelope sodium env dmn =
     (if elem_at env 0 = Some SUITE_MANIFEST_HYBRID_PQ \<and> ml_dsa65_verify_detached sodium = None
      then Inl No_MlDsa_Verifier
      else rbind (envelopeBody env) (\<lambda>body'.
        let edPk = subarray env OFF_ED_PK OFF_ML_PK;
            mlPk = subarray env OFF_ML_PK OFF_ED_SIG;
            edSig = subarray env OFF_ED_SIG OFF_ML_SIG;
            mlSig = subarray env OFF_ML_SIG OFF_BODY;
            pre = envelopeSigningInput sodium dmn edPk mlPk body'
        in if \<not> crypto_sign_verify_detached sodium edSig pre edPk then Inl Signature_Invalid
           else if (case ml_dsa65_verify_detached sodium of None \<Rightarrow> True | Some v \<Rightarrow> \<not> v mlSig pre mlPk)
           then Inl Signature_Invalid
           else Inr \<lparr>env_author = hybridAuthorId sodium edPk mlPk,
                     env_keys = \<lparr>ed = edPk, mlDsa = mlPk\<rparr>, env_body = body'\<rparr>))"

section \<open>The manifest\<close>

definition is_alnum :: "16 word \<Rightarrow> bool" where
  "is_alnum c \<longleftrightarrow> 65 \<le> c \<and> c \<le> 90 \<or> 97 \<le> c \<and> c \<le> 122 \<or> 48 \<le> c \<and> c \<le> 57"

text \<open>\<open>NAME_RE\<close> and \<open>CLAIM_RE\<close>: the characters \<open>_\<close> (95), \<open>-\<close> (45), \<open>.\<close> (46), \<open>/\<close> (47).\<close>

definition NAME_RE :: "jstr \<Rightarrow> bool" where
  "NAME_RE s \<longleftrightarrow> (case s of [] \<Rightarrow> False
     | c # cs \<Rightarrow> is_alnum c \<and> list_all (\<lambda>c. is_alnum c \<or> c = 95 \<or> c = 45) cs)"

definition CLAIM_RE :: "jstr \<Rightarrow> bool" where
  "CLAIM_RE s \<longleftrightarrow> (case s of [] \<Rightarrow> False
     | c # cs \<Rightarrow> (is_alnum c \<or> c = 95) \<and> length cs \<le> 63 \<and>
         list_all (\<lambda>c. is_alnum c \<or> c = 46 \<or> c = 95 \<or> c = 47 \<or> c = 45) cs)"

definition UNSAFE_LABEL :: "jstr \<Rightarrow> bool" where
  "UNSAFE_LABEL s \<longleftrightarrow> list_ex (\<lambda>c. c \<le> 0x1f \<or> 0x7f \<le> c \<and> c \<le> 0x9f \<or> 0x200b \<le> c \<and> c \<le> 0x200f
     \<or> 0x2028 \<le> c \<and> c \<le> 0x202e \<or> 0x2060 \<le> c \<and> c \<le> 0x206f \<or> c = 0xfeff) s"

text \<open>The loop over one claim list, with the set of names already seen.\<close>

fun claims_ok :: "jstr set \<Rightarrow> json list \<Rightarrow> bool" where
  "claims_ok claimed [] = True"
| "claims_ok claimed (p # ps) =
     (is_string p \<and> CLAIM_RE (str_of p) \<and> str_of p \<notin> claimed \<and> claims_ok (insert (str_of p) claimed) ps)"

fun claim_list_ok :: "json option \<Rightarrow> bool" where
  "claim_list_ok None = True"
| "claim_list_ok (Some (JArr ps)) = claims_ok {} ps"
| "claim_list_ok (Some _) = False"

fun modules_ok :: "jstr set \<Rightarrow> json list \<Rightarrow> bool" where
  "modules_ok seen [] = True"
| "modules_ok seen (m # ms) =
     (is_object m \<and> (case jget m (js ''name'') of
        Some (JStr n) \<Rightarrow> NAME_RE n \<and> n \<notin> seen \<and> modules_ok (insert n seen) ms
      | _ \<Rightarrow> False))"

definition app_ok :: "json option \<Rightarrow> bool" where
  "app_ok a = (case a of
     Some (JStr s) \<Rightarrow> s \<noteq> [] \<and> isWellFormed s \<and> length (utf8Encode s) \<le> 255 \<and> \<not> UNSAFE_LABEL s
   | _ \<Rightarrow> False)"

definition guest_ok :: "json option \<Rightarrow> bool" where
  "guest_ok g = (case g of
     Some g' \<Rightarrow> isRecord g' \<and>
       (case as_array (jget g' (js ''requires'')) of None \<Rightarrow> False | Some rs \<Rightarrow> \<not> list_ex (\<lambda>r. \<not> is_string r) rs) \<and>
       (case jget g' (js ''config'') of None \<Rightarrow> True | Some c \<Rightarrow> isRecord c)
   | None \<Rightarrow> False)"

definition isValidManifest :: "json \<Rightarrow> bool" where
  "isValidManifest o' \<longleftrightarrow> isRecord o' \<and> app_ok (jget o' (js ''app'')) \<and>
     (case num_of (jget o' (js ''version'')) of None \<Rightarrow> False | Some v \<Rightarrow> \<not> v < 0) \<and>
     claim_list_ok (jget o' (js ''protocols'')) \<and> claim_list_ok (jget o' (js ''services'')) \<and>
     (case as_array (jget o' (js ''modules'')) of None \<Rightarrow> False
      | Some ms \<Rightarrow> length ms \<le> DEFAULT_MAX_BUNDLE_MODULES \<and> modules_ok {} ms) \<and>
     guest_ok (jget o' (js ''guest''))"

text \<open>A valid manifest's fields, as the rest of the host reads them.\<close>

definition strings_of :: "json option \<Rightarrow> jstr list option" where
  "strings_of j = map_option (map str_of) (as_array j)"

definition manifest_view :: "json \<Rightarrow> BundleManifest" where
  "manifest_view o' =
     \<lparr>app = str_of (the (jget o' (js ''app''))), version = the (num_of (jget o' (js ''version''))),
      protocols = strings_of (jget o' (js ''protocols'')), services = strings_of (jget o' (js ''services'')),
      modules = map (\<lambda>m. str_of (the (jget m (js ''name'')))) (the (as_array (jget o' (js ''modules'')))),
      guest = (let g = the (jget o' (js ''guest''))
               in \<lparr>requires = the (strings_of (jget g (js ''requires''))), config = jget g (js ''config'')\<rparr>)\<rparr>"

text \<open>The text before the first \<open>/\<close>, or all of it.\<close>

definition name_head :: "jstr \<Rightarrow> jstr" where
  "name_head r = takeWhile (\<lambda>c. c \<noteq> 47) r"

definition require_ok :: "jstr list \<Rightarrow> jstr \<Rightarrow> (bundle_error, unit) result" where
  "require_ok moduleNames r =
     (if isService r then Inr ()
      else if isHostNamespace (name_head r) then Inl (Requires_Host_Method r)
      else if \<not> CLAIM_RE r then Inl (Requires_Malformed r)
      else if r \<in> set moduleNames then Inl (Requires_Own_Module r)
      else Inr ())"

definition validateManifest :: "json \<Rightarrow> (bundle_error, BundleManifest) result" where
  "validateManifest j =
     (if \<not> isValidManifest j then Inl Malformed_Manifest
      else let m = manifest_view j in
        rbind (rfold (\<lambda>r _. require_ok (modules m) r) (requires (guest m)) ()) (\<lambda>_. Inr m))"

section \<open>The body\<close>

definition reader_next :: "bytes \<Rightarrow> nat \<Rightarrow> (bundle_error, bytes \<times> nat) result" where
  "reader_next b off =
     (if length b < off + 4 then Inl Truncated_Body
      else let n = readU32BE b off; off' = off + 4
           in if length b - off' < n then Inl Truncated_Body
              else Inr (subarray b off' (off' + n), off' + n))"

definition reader_done :: "bytes \<Rightarrow> nat \<Rightarrow> bool" where
  "reader_done b off \<longleftrightarrow> off = length b"

fun read_modules :: "jstr list \<Rightarrow> bytes \<Rightarrow> nat \<Rightarrow> (bundle_error, (jstr \<times> bytes) list \<times> nat) result" where
  "read_modules [] b off = Inr ([], off)"
| "read_modules (m # ms) b off =
     rbind (reader_next b off) (\<lambda>(wasm, off).
     rbind (read_modules ms b off) (\<lambda>(rest, off). Inr ((m, wasm) # rest, off)))"

definition verifyBundle :: "json_codec \<Rightarrow> ManifestVerifier \<Rightarrow> bytes \<Rightarrow> (bundle_error, VerifiedBundle) result" where
  "verifyBundle J sodium env =
     rbind (verifyEnvelope sodium env DOMAIN_MANIFEST) (\<lambda>ve.
     rbind (reader_next (env_body ve) 0) (\<lambda>(json, off).
       case parse J (utf8Decode json) of
         None \<Rightarrow> Inl Manifest_Not_Json
       | Some parsed \<Rightarrow>
           if isRecord parsed \<and> jget parsed (js ''guest'') = None then Inl No_Guest
           else rbind (validateManifest parsed) (\<lambda>m.
                rbind (reader_next (env_body ve) off) (\<lambda>(src, off).
                rbind (read_modules (modules m) (env_body ve) off) (\<lambda>(mods, off).
                  if \<not> reader_done (env_body ve) off then Inl Trailing_Bytes
                  else Inr \<lparr>author = env_author ve, authorKeys = env_keys ve, manifest = m,
                            guestSource = utf8Decode src, module_wasm = mods\<rparr>)))))"

section \<open>Module admission\<close>

fun charge_modules :: "nat \<Rightarrow> (jstr \<times> bytes) list \<Rightarrow> nat \<Rightarrow> (bundle_error, nat) result" where
  "charge_modules maxBytes [] bundleBytes = Inr bundleBytes"
| "charge_modules maxBytes ((_, wasm) # ms) bundleBytes =
     (case checkModuleLimits wasm maxBytes of
        Inl e \<Rightarrow> Inl (Module_Refused e)
      | Inr l \<Rightarrow>
          let total = bundleBytes + moduleFootprintBytes l
          in if maxBytes < total then Inl (Aggregate_Over_Budget total)
             else charge_modules maxBytes ms total)"

text \<open>
  \<open>build\<close> is the target's module loader: it builds all of the named modules or none
  (\<open>None\<close> is its failure).
\<close>

definition loadBundleModules ::
    "((jstr \<times> bytes) list \<Rightarrow> 'mods option) \<Rightarrow> VerifiedBundle \<Rightarrow> (bundle_error, 'mods) result" where
  "loadBundleModules build v =
     rbind (charge_modules DEFAULT_MAX_MODULE_MEMORY_BYTES (module_wasm v) 0) (\<lambda>_.
       case build (module_wasm v) of None \<Rightarrow> Inl Module_Build_Failed | Some ms \<Rightarrow> Inr ms)"

section \<open>Facts about the envelope\<close>

lemma OFF_BODY_eq: "OFF_BODY = 5358"
  by (simp add: envelope_offsets)

lemma envelopeBody_ok:
  "envelopeBody env = Inr b \<longleftrightarrow>
     OFF_BODY \<le> length env \<and> env ! 0 = SUITE_MANIFEST_HYBRID_PQ \<and> b = drop OFF_BODY env"
  by (auto simp: envelopeBody_def envelope_offsets)

lemma verifyEnvelope_ok:
  "verifyEnvelope sodium env d = Inr ve \<longleftrightarrow>
     (\<exists>mlVerify edPk mlPk edSig mlSig.
        ml_dsa65_verify_detached sodium = Some mlVerify \<and>
        env = SUITE_MANIFEST_HYBRID_PQ # edPk @ mlPk @ edSig @ mlSig @ env_body ve \<and>
        length edPk = PK_LEN \<and> length mlPk = ML_DSA_PK_LEN \<and>
        length edSig = SIG_LEN \<and> length mlSig = ML_DSA_SIG_LEN \<and>
        crypto_sign_verify_detached sodium edSig (envelopeSigningInput sodium d edPk mlPk (env_body ve)) edPk \<and>
        mlVerify mlSig (envelopeSigningInput sodium d edPk mlPk (env_body ve)) mlPk \<and>
        ve = \<lparr>env_author = hybridAuthorId sodium edPk mlPk, env_keys = \<lparr>ed = edPk, mlDsa = mlPk\<rparr>,
              env_body = env_body ve\<rparr>)" (is "?l \<longleftrightarrow> ?r")
proof
  assume ?l
  then obtain b where b: "OFF_BODY \<le> length env" "env ! 0 = SUITE_MANIFEST_HYBRID_PQ" "b = drop OFF_BODY env"
    and l: "verifyEnvelope sodium env d = Inr ve" "envelopeBody env = Inr b"
    by (auto simp: verifyEnvelope_def result_simps envelopeBody_ok split: if_splits)
  have "env = SUITE_MANIFEST_HYBRID_PQ # drop OFF_ED_PK env"
    using b by (cases env) (auto simp: envelope_offsets)
  then have e: "env = SUITE_MANIFEST_HYBRID_PQ # subarray env OFF_ED_PK OFF_ML_PK @ subarray env OFF_ML_PK OFF_ED_SIG @
      subarray env OFF_ED_SIG OFF_ML_SIG @ subarray env OFF_ML_SIG OFF_BODY @ b"
    unfolding b(3) by (simp add: subarray_drop envelope_offsets)
  have len: "length (subarray env OFF_ED_PK OFF_ML_PK) = PK_LEN"
    "length (subarray env OFF_ML_PK OFF_ED_SIG) = ML_DSA_PK_LEN"
    "length (subarray env OFF_ED_SIG OFF_ML_SIG) = SIG_LEN"
    "length (subarray env OFF_ML_SIG OFF_BODY) = ML_DSA_SIG_LEN"
    using b(1) by (simp_all add: length_subarray envelope_offsets)
  define edPk mlPk edSig mlSig where cuts: "edPk = subarray env OFF_ED_PK OFF_ML_PK"
    "mlPk = subarray env OFF_ML_PK OFF_ED_SIG" "edSig = subarray env OFF_ED_SIG OFF_ML_SIG"
    "mlSig = subarray env OFF_ML_SIG OFF_BODY"
  obtain mlVerify where ml: "ml_dsa65_verify_detached sodium = Some mlVerify"
    using l b by (cases "ml_dsa65_verify_detached sodium") (auto simp: verifyEnvelope_def Let_def split: if_splits)
  have ve: "env_body ve = b" "ve = \<lparr>env_author = hybridAuthorId sodium edPk mlPk,
      env_keys = \<lparr>ed = edPk, mlDsa = mlPk\<rparr>, env_body = b\<rparr>"
    and v: "crypto_sign_verify_detached sodium edSig (envelopeSigningInput sodium d edPk mlPk b) edPk"
      "mlVerify mlSig (envelopeSigningInput sodium d edPk mlPk b) mlPk"
    using l ml by (auto simp: verifyEnvelope_def Let_def cuts split: if_splits)
  show ?r
    using ml v ve e len unfolding cuts [symmetric] by blast
next
  assume ?r
  then obtain mlVerify edPk mlPk edSig mlSig where r: "ml_dsa65_verify_detached sodium = Some mlVerify"
      "env = SUITE_MANIFEST_HYBRID_PQ # edPk @ mlPk @ edSig @ mlSig @ env_body ve"
      "length edPk = PK_LEN" "length mlPk = ML_DSA_PK_LEN" "length edSig = SIG_LEN" "length mlSig = ML_DSA_SIG_LEN"
    and v: "crypto_sign_verify_detached sodium edSig (envelopeSigningInput sodium d edPk mlPk (env_body ve)) edPk"
      "mlVerify mlSig (envelopeSigningInput sodium d edPk mlPk (env_body ve)) mlPk"
    and ve: "ve = \<lparr>env_author = hybridAuthorId sodium edPk mlPk, env_keys = \<lparr>ed = edPk, mlDsa = mlPk\<rparr>,
              env_body = env_body ve\<rparr>"
    by blast
  have cuts: "subarray env OFF_ED_PK OFF_ML_PK = edPk" "subarray env OFF_ML_PK OFF_ED_SIG = mlPk"
    "subarray env OFF_ED_SIG OFF_ML_SIG = edSig" "subarray env OFF_ML_SIG OFF_BODY = mlSig"
    using r(3-6) unfolding r(2) by (simp_all add: subarray_def envelope_offsets)
  have "envelopeBody env = Inr (env_body ve)"
    using r(3-6) unfolding envelopeBody_ok r(2) by (simp add: envelope_offsets)
  then show ?l
    using r(1) v ve by (simp add: verifyEnvelope_def Let_def cuts)
qed

text \<open>What two signing inputs share when they are equal.\<close>

lemma signing_input_inj:
  assumes "d \<in> set DOMAINS" and "d' \<in> set DOMAINS"
    and "length e = PK_LEN" and "length e' = PK_LEN"
    and "length m = ML_DSA_PK_LEN" and "length m' = ML_DSA_PK_LEN"
    and "envelopeSigningInput sodium d e m b = envelopeSigningInput sodium d' e' m' b'"
  shows "d = d' \<and> e = e' \<and> m = m' \<and> genesisHash sodium b = genesisHash sodium b'"
  using domain_separation [OF assms(1,2), of "SUITE_MANIFEST_HYBRID_PQ # e @ m @ genesisHash sodium b"
      "SUITE_MANIFEST_HYBRID_PQ # e' @ m' @ genesisHash sodium b'"] assms(3-7)
  by (simp add: envelopeSigningInput_def concatBytes_def)

section \<open>Facts about the manifest\<close>

text \<open>What every accepted manifest satisfies, over its fields.\<close>

definition label_ok :: "jstr \<Rightarrow> bool" where
  "label_ok s \<longleftrightarrow> s \<noteq> [] \<and> isWellFormed s \<and> length (utf8Encode s) \<le> 255 \<and> \<not> UNSAFE_LABEL s"

definition claim_names_ok :: "jstr list option \<Rightarrow> bool" where
  "claim_names_ok cs \<longleftrightarrow> (case cs of None \<Rightarrow> True | Some ns \<Rightarrow> distinct ns \<and> list_all CLAIM_RE ns)"

definition reach_ok :: "jstr list \<Rightarrow> jstr \<Rightarrow> bool" where
  "reach_ok mods r \<longleftrightarrow> isService r \<or>
     \<not> isHostNamespace (name_head r) \<and> CLAIM_RE r \<and> r \<notin> set mods"

definition manifest_ok :: "BundleManifest \<Rightarrow> bool" where
  "manifest_ok m \<longleftrightarrow> label_ok (app m) \<and> 0 \<le> version m \<and> version m \<le> MAX_SAFE \<and>
     claim_names_ok (protocols m) \<and> claim_names_ok (services m) \<and>
     length (modules m) \<le> DEFAULT_MAX_BUNDLE_MODULES \<and> distinct (modules m) \<and> list_all NAME_RE (modules m) \<and>
     list_all (reach_ok (modules m)) (requires (guest m)) \<and>
     (case config (guest m) of None \<Rightarrow> True | Some c \<Rightarrow> isRecord c)"

lemma claims_ok_iff:
  "claims_ok seen ps \<longleftrightarrow> list_all is_string ps \<and> distinct (map str_of ps) \<and>
     set (map str_of ps) \<inter> seen = {} \<and> list_all CLAIM_RE (map str_of ps)"
  by (induction ps arbitrary: seen) auto

lemma claim_list_ok_iff:
  "claim_list_ok j \<longleftrightarrow> (j = None \<or> (\<exists>ps. j = Some (JArr ps) \<and> list_all is_string ps)) \<and>
     claim_names_ok (strings_of j)"
  by (induction j rule: claim_list_ok.induct)
     (auto simp: claims_ok_iff claim_names_ok_def strings_of_def)

definition mod_name :: "json \<Rightarrow> jstr option" where
  "mod_name m = (case jget m (js ''name'') of Some (JStr n) \<Rightarrow> Some n | _ \<Rightarrow> None)"

lemma modules_ok_step:
  "modules_ok seen (m # ms) \<longleftrightarrow> is_object m \<and> (\<exists>n. mod_name m = Some n \<and> NAME_RE n \<and> n \<notin> seen \<and>
     modules_ok (insert n seen) ms)"
  by (simp add: mod_name_def split: option.splits json.splits)

lemma mod_name_view: "mod_name m = Some n \<Longrightarrow> str_of (the (jget m (js ''name''))) = n"
  by (auto simp: mod_name_def split: option.splits json.splits)

lemma modules_ok_names:
  "modules_ok seen ms \<Longrightarrow>
     (let ns = map (\<lambda>m. str_of (the (jget m (js ''name'')))) ms
      in distinct ns \<and> list_all NAME_RE ns \<and> set ns \<inter> seen = {})"
proof (induction ms arbitrary: seen)
  case Nil
  then show ?case by simp
next
  case (Cons m ms)
  from Cons.prems obtain n where n: "mod_name m = Some n" "NAME_RE n" "n \<notin> seen" "modules_ok (insert n seen) ms"
    by (auto simp: modules_ok_step simp del: modules_ok.simps)
  from Cons.IH [OF n(4)] n show ?case by (auto simp: Let_def mod_name_view [OF n(1)])
qed

lemma require_ok_iff: "require_ok ms r = Inr u \<longleftrightarrow> reach_ok ms r"
  by (simp add: require_ok_def reach_ok_def)

lemma rfold_unit_ok: "rfold (\<lambda>x _. f x) xs () = Inr () \<longleftrightarrow> (\<forall>x\<in>set xs. f x = Inr ())"
  by (induction xs) (auto simp: result_simps)

lemma validateManifest_iff:
  "validateManifest j = Inr m \<longleftrightarrow>
     isValidManifest j \<and> m = manifest_view j \<and> list_all (reach_ok (modules m)) (requires (guest m))"
  by (auto simp: validateManifest_def Let_def result_simps rfold_unit_ok require_ok_iff list_all_iff)

lemma validateManifest_manifest_ok:
  assumes "validateManifest j = Inr m"
  shows "manifest_ok m"
proof -
  from assms have v: "isValidManifest j" and m: "m = manifest_view j"
    and r: "list_all (reach_ok (modules m)) (requires (guest m))"
    unfolding validateManifest_iff by blast+
  have "label_ok (app m)"
    using v by (auto simp: m manifest_view_def isValidManifest_def app_ok_def label_ok_def split: option.splits json.splits)
  moreover have "0 \<le> version m \<and> version m \<le> MAX_SAFE"
    using v num_of_bound [of "jget j (js ''version'')"]
    by (auto simp: m manifest_view_def isValidManifest_def split: option.splits)
  moreover have "claim_names_ok (protocols m) \<and> claim_names_ok (services m)"
    using v by (simp add: m manifest_view_def isValidManifest_def claim_list_ok_iff)
  moreover have "length (modules m) \<le> DEFAULT_MAX_BUNDLE_MODULES \<and> distinct (modules m) \<and> list_all NAME_RE (modules m)"
    using v modules_ok_names [of "{}"]
    by (auto simp: m manifest_view_def isValidManifest_def Let_def split: option.splits)
  moreover have "case config (guest m) of None \<Rightarrow> True | Some c \<Rightarrow> isRecord c"
    using v by (auto simp: m manifest_view_def isValidManifest_def guest_ok_def Let_def split: option.splits)
  ultimately show ?thesis using r by (simp add: manifest_ok_def)
qed

section \<open>Facts about module admission\<close>

lemma charge_modules_ok:
  assumes "charge_modules mx ms acc = Inr tot" and "acc \<le> mx"
  shows "tot \<le> mx \<and> list_all (\<lambda>(_, w). is_ok (checkModuleLimits w mx)) ms \<and>
    tot = acc + (\<Sum>(_, w) \<leftarrow> ms. case checkModuleLimits w mx of Inr l \<Rightarrow> moduleFootprintBytes l | Inl _ \<Rightarrow> 0)"
  using assms
proof (induction ms arbitrary: acc)
  case Nil
  then show ?case by simp
next
  case (Cons m ms)
  obtain n w where m: "m = (n, w)" by fastforce
  from Cons.prems obtain l where l: "checkModuleLimits w mx = Inr l" "acc + moduleFootprintBytes l \<le> mx"
    "charge_modules mx ms (acc + moduleFootprintBytes l) = Inr tot"
    by (auto simp: m Let_def split: sum.splits if_splits)
  from Cons.IH [OF l(3,2)] l(1) show ?case by (simp add: m)
qed

end
