(* ===== verification/Freshness.thy ===== *)
theory Freshness
  imports Bundle
begin

text \<open>
  The freshness store of \<^verbatim>\<open>WASM/host/bundle.ts\<close> (\<open>FreshnessMarks\<close>): the highest version loaded per
  author and app, and the revoked authors, kept in memory and on disk, and the admission
  predicates of \<^verbatim>\<open>WASM/host/policy.ts\<close> that read them. \<open>persist\<close> is the target's atomic file write:
  it answers whether the write landed, and the record's \<open>disk\<close> is the text last written.
\<close>

section \<open>The store\<close>

record FreshnessMarks =
  marks :: "(jstr \<times> int) list"
  revoked :: "jstr list"
  disk :: "jstr option"

datatype fresh_error =
    Corrupt_Json | Root_Not_Object | Fields_Missing | Marks_Not_Object | Bad_Mark_Key jstr
  | Bad_Mark_Version jstr | Revoked_Not_Array | Bad_Revoked_Entry
  | Invalid_Version | Mark_Not_Persisted | Revocation_Not_Persisted

definition set_add :: "'a \<Rightarrow> 'a list \<Rightarrow> 'a list" where
  "set_add x xs = (if x \<in> set xs then xs else xs @ [x])"

definition read_mark :: "jstr \<times> json \<Rightarrow> (jstr \<times> int) list \<Rightarrow> (fresh_error, (jstr \<times> int) list) result" where
  "read_mark kv ms =
     (let (k, v) = kv in
      if \<not> isHex64 (take 64 k) \<or> elem_at k 64 \<noteq> Some 58 \<or> length k = 65 then Inl (Bad_Mark_Key k)
      else case num_of (Some v) of
             None \<Rightarrow> Inl (Bad_Mark_Version k)
           | Some n \<Rightarrow> if n < 0 then Inl (Bad_Mark_Version k)
                       else Inr (mset_at (toLowerCase (take 64 k) @ drop 64 k) n ms))"

definition read_revoked :: "json \<Rightarrow> jstr list \<Rightarrow> (fresh_error, jstr list) result" where
  "read_revoked a rs =
     (case a of
        JStr s \<Rightarrow> if isHex64 s then Inr (set_add (toLowerCase s) rs) else Inl Bad_Revoked_Entry
      | _ \<Rightarrow> Inl Bad_Revoked_Entry)"

fun entries_of :: "json \<Rightarrow> (jstr \<times> json) list option" where
  "entries_of (JObj kvs) = Some kvs"
| "entries_of _ = None"

definition fresh_load :: "json_codec \<Rightarrow> jstr option \<Rightarrow> (fresh_error, FreshnessMarks) result" where
  "fresh_load J txt =
     (case txt of
        None \<Rightarrow> Inr \<lparr>marks = [], revoked = [], disk = None\<rparr>
      | Some t \<Rightarrow>
          (case parse J t of
             None \<Rightarrow> Inl Corrupt_Json
           | Some parsed \<Rightarrow>
               if \<not> isRecord parsed then Inl Root_Not_Object
               else (case (jget parsed (js ''marks''), jget parsed (js ''revoked'')) of
                  (Some ms, Some rs) \<Rightarrow>
                    (case entries_of ms of
                       None \<Rightarrow> Inl Marks_Not_Object
                     | Some kvs \<Rightarrow>
                         rbind (rfold read_mark kvs []) (\<lambda>marks'.
                           case as_array (Some rs) of
                             None \<Rightarrow> Inl Revoked_Not_Array
                           | Some as' \<Rightarrow>
                               rbind (rfold read_revoked as' []) (\<lambda>revoked'.
                                 Inr \<lparr>marks = marks', revoked = revoked', disk = Some t\<rparr>)))
                | _ \<Rightarrow> Inl Fields_Missing)))"

definition fresh_json :: "FreshnessMarks \<Rightarrow> json" where
  "fresh_json st = JObj [(js ''marks'', JObj (map (\<lambda>(k, v). (k, jint v)) (marks st))),
     (js ''revoked'', JArr (map JStr (revoked st)))]"

definition serialize :: "json_codec \<Rightarrow> FreshnessMarks \<Rightarrow> jstr" where
  "serialize J st = stringify J (fresh_json st)"

definition mark_key :: "bytes \<Rightarrow> jstr \<Rightarrow> jstr" where
  "mark_key a ap = toHex a @ js '':'' @ ap"

text \<open>\<open>None\<close> is the \<open>-Infinity\<close> of an author and app never loaded.\<close>

definition fresh_get :: "FreshnessMarks \<Rightarrow> bytes \<Rightarrow> jstr \<Rightarrow> int option" where
  "fresh_get st a ap = map_of (marks st) (mark_key a ap)"

definition fresh_set :: "json_codec \<Rightarrow> (jstr \<Rightarrow> bool) \<Rightarrow> bytes \<Rightarrow> jstr \<Rightarrow> jsnum \<Rightarrow> FreshnessMarks \<Rightarrow>
    (fresh_error, unit) result \<times> FreshnessMarks" where
  "fresh_set J persist a ap ver st =
     (case safe_int ver of
        None \<Rightarrow> (Inl Invalid_Version, st)
      | Some n \<Rightarrow>
          if n < 0 then (Inl Invalid_Version, st)
          else
            let k = mark_key a ap; cur = map_of (marks st) k
            in if (case cur of None \<Rightarrow> False | Some c \<Rightarrow> n \<le> c) then (Inr (), st)
               else let st' = st\<lparr>marks := mset_at k n (marks st)\<rparr>
                    in if persist (serialize J st')
                       then (Inr (), st'\<lparr>disk := Some (serialize J st')\<rparr>)
                       else (Inl Mark_Not_Persisted,
                             (case cur of
                                None \<Rightarrow> st'\<lparr>marks := mdel k (marks st')\<rparr>
                              | Some c \<Rightarrow> st'\<lparr>marks := mset_at k c (marks st')\<rparr>)))"

definition isRevoked :: "FreshnessMarks \<Rightarrow> bytes \<Rightarrow> bool" where
  "isRevoked st a \<longleftrightarrow> toHex a \<in> set (revoked st)"

definition fresh_revoke :: "json_codec \<Rightarrow> (jstr \<Rightarrow> bool) \<Rightarrow> bytes \<Rightarrow> FreshnessMarks \<Rightarrow>
    (fresh_error, unit) result \<times> FreshnessMarks" where
  "fresh_revoke J persist a st =
     (let hex = toHex a in
      if hex \<in> set (revoked st) then (Inr (), st)
      else let st' = st\<lparr>revoked := set_add hex (revoked st)\<rparr>
           in if persist (serialize J st') then (Inr (), st'\<lparr>disk := Some (serialize J st')\<rparr>)
              else (Inl Revocation_Not_Persisted, st'\<lparr>revoked := filter (\<lambda>h. h \<noteq> hex) (revoked st')\<rparr>))"

section \<open>Admission\<close>

datatype gate_error = Author_Revoked bytes | Downgrade int int

definition checkHostGates :: "'x LoadedBundle_scheme \<Rightarrow> FreshnessMarks \<Rightarrow> (gate_error, unit) result" where
  "checkHostGates v store =
     (if isRevoked store (author v) then Inl (Author_Revoked (author v))
      else case fresh_get store (author v) (app (manifest v)) of
             None \<Rightarrow> Inr ()
           | Some highWater \<Rightarrow>
               if version (manifest v) < highWater then Inl (Downgrade (version (manifest v)) highWater)
               else Inr ())"

type_synonym admit = "VerifiedBundle \<Rightarrow> bool"

definition denyAll :: admit where
  "denyAll v = False"

definition admitAll :: admit where
  "admitAll v = True"

definition authorAllowlist :: "jstr list \<Rightarrow> admit" where
  "authorAllowlist authors v \<longleftrightarrow> toHex (author v) \<in> set (map toLowerCase authors)"

datatype policy_error = Policy_Json | Policy_Not_Object | Policy_Key jstr | Policy_Authors

definition parsePolicy :: "json_codec \<Rightarrow> jstr \<Rightarrow> (policy_error, admit) result" where
  "parsePolicy J txt =
     (case parse J txt of
        None \<Rightarrow> Inl Policy_Json
      | Some raw \<Rightarrow>
          (case entries_of raw of
             None \<Rightarrow> Inl Policy_Not_Object
           | Some kvs \<Rightarrow>
               (case find (\<lambda>(k, _). k \<noteq> js ''authors'') kvs of
                  Some (k, _) \<Rightarrow> Inl (Policy_Key k)
                | None \<Rightarrow>
                    (case as_array (jget raw (js ''authors'')) of
                       None \<Rightarrow> Inl Policy_Authors
                     | Some as' \<Rightarrow>
                         if list_ex (\<lambda>a. \<not> is_string a \<or> \<not> isHex64 (str_of a)) as' then Inl Policy_Authors
                         else Inr (authorAllowlist (map str_of as'))))))"

definition policyFromJson :: "json_codec \<Rightarrow> jstr option \<Rightarrow> (policy_error, admit) result" where
  "policyFromJson J txt =
     (case txt of None \<Rightarrow> Inr denyAll | Some t \<Rightarrow> if t = [] then Inr denyAll else parsePolicy J t)"

section \<open>Facts\<close>

text \<open>A failed write leaves the store exactly as it was.\<close>

lemma mdel_mset_at_new: "map_of m k = None \<Longrightarrow> mdel k (mset_at k v m) = m"
  by (induction m) (auto simp: mdel_def filter_id_conv map_of_eq_None_iff image_iff intro!: filter_True split: if_splits)

lemma mset_at_restore: "map_of m k = Some c \<Longrightarrow> mset_at k c (mset_at k v m) = m"
  by (induction m) (auto split: if_splits)

lemma filter_set_add: "x \<notin> set xs \<Longrightarrow> filter (\<lambda>y. y \<noteq> x) (set_add x xs) = xs"
  by (auto simp: set_add_def intro: filter_True)

lemma fresh_set_failed: "fresh_set J persist a ap ver st = (Inl e, st') \<Longrightarrow> st' = st"
  by (auto simp: fresh_set_def Let_def mdel_mset_at_new mset_at_restore split: option.splits if_splits)

lemma fresh_revoke_failed: "fresh_revoke J persist a st = (Inl e, st') \<Longrightarrow> st' = st"
  by (auto simp: fresh_revoke_def Let_def filter_set_add split: if_splits)

text \<open>Versions in order, the unset mark first.\<close>

definition mark_le :: "int option \<Rightarrow> int option \<Rightarrow> bool" where
  "mark_le a b = (case (a, b) of (None, _) \<Rightarrow> True | (Some x, Some y) \<Rightarrow> x \<le> y | (Some _, None) \<Rightarrow> False)"

lemma mark_le_refl [simp]: "mark_le a a"
  by (simp add: mark_le_def split: option.splits)

lemma mark_le_trans: "mark_le a b \<Longrightarrow> mark_le b c \<Longrightarrow> mark_le a c"
  by (auto simp: mark_le_def split: option.splits)

text \<open>The operations of a store's life, each with the outcome of its write.\<close>

datatype fresh_op = Set_Mark bytes jstr jsnum bool | Revoke_Author bytes bool

fun fresh_step :: "json_codec \<Rightarrow> fresh_op \<Rightarrow> FreshnessMarks \<Rightarrow> FreshnessMarks" where
  "fresh_step J (Set_Mark a ap ver landed) st = snd (fresh_set J (\<lambda>_. landed) a ap ver st)"
| "fresh_step J (Revoke_Author a landed) st = snd (fresh_revoke J (\<lambda>_. landed) a st)"

definition fresh_run :: "json_codec \<Rightarrow> fresh_op list \<Rightarrow> FreshnessMarks \<Rightarrow> FreshnessMarks" where
  "fresh_run J = fold (fresh_step J)"

lemma fresh_set_get:
  "mark_le (fresh_get st b q) (fresh_get (snd (fresh_set J persist a ap ver st)) b q)"
  by (auto simp: fresh_set_def Let_def fresh_get_def mark_le_def mdel_mset_at_new mset_at_restore split: option.splits)

lemma fresh_set_revoked: "revoked (snd (fresh_set J persist a ap ver st)) = revoked st"
  by (auto simp: fresh_set_def Let_def split: option.splits)

lemma fresh_revoke_marks: "marks (snd (fresh_revoke J persist a st)) = marks st"
  by (auto simp: fresh_revoke_def Let_def)

lemma fresh_revoke_revoked: "set (revoked st) \<subseteq> set (revoked (snd (fresh_revoke J persist a st)))"
  by (auto simp: fresh_revoke_def Let_def set_add_def filter_set_add)

lemma fresh_step_get: "mark_le (fresh_get st a ap) (fresh_get (fresh_step J oper st) a ap)"
  by (cases oper) (simp_all add: fresh_set_get, simp add: fresh_get_def fresh_revoke_marks)

lemma fresh_step_revoked: "isRevoked st a \<Longrightarrow> isRevoked (fresh_step J oper st) a"
  using fresh_revoke_revoked [of st J] by (cases oper) (auto simp: isRevoked_def fresh_set_revoked)

lemma fresh_run_get: "mark_le (fresh_get st a ap) (fresh_get (fresh_run J ops st) a ap)"
  unfolding fresh_run_def
  by (induction ops arbitrary: st) (simp, metis fold_simps(2) fresh_step_get mark_le_trans)

lemma fresh_run_revoked: "isRevoked st a \<Longrightarrow> isRevoked (fresh_run J ops st) a"
  unfolding fresh_run_def by (induction ops arbitrary: st) (simp_all add: fresh_step_revoked)

lemma fresh_set_ok_mark:
  "fresh_set J persist a ap ver st = (Inr (), st') \<Longrightarrow>
     \<exists>n. safe_int ver = Some n \<and> mark_le (Some n) (fresh_get st' a ap)"
  by (auto simp: fresh_set_def Let_def fresh_get_def mark_le_def split: option.splits if_splits)

lemma fresh_revoke_ok: "fresh_revoke J persist a st = (Inr (), st') \<Longrightarrow> isRevoked st' a"
  by (auto simp: fresh_revoke_def Let_def isRevoked_def set_add_def split: if_splits)

lemma checkHostGates_refuses:
  "isRevoked store (author v) \<Longrightarrow> \<not> is_ok (checkHostGates v store)"
  "mark_le (Some n) (fresh_get store (author v) (app (manifest v))) \<Longrightarrow> version (manifest v) < n \<Longrightarrow>
     \<not> is_ok (checkHostGates v store)"
  by (auto simp: checkHostGates_def mark_le_def split: option.splits)

text \<open>The shape of every key and value a store holds.\<close>

definition hex_id :: "jstr \<Rightarrow> bool" where
  "hex_id s \<longleftrightarrow> isHex64 s \<and> toLowerCase s = s"

definition mark_ok :: "jstr \<times> int \<Rightarrow> bool" where
  "mark_ok kv \<longleftrightarrow> (\<exists>h ap. fst kv = h @ js '':'' @ ap \<and> hex_id h \<and> ap \<noteq> []) \<and> 0 \<le> snd kv \<and> snd kv \<le> MAX_SAFE"

definition fresh_ok :: "FreshnessMarks \<Rightarrow> bool" where
  "fresh_ok st \<longleftrightarrow> distinct (map fst (marks st)) \<and> (\<forall>kv\<in>set (marks st). mark_ok kv) \<and>
     distinct (revoked st) \<and> (\<forall>r\<in>set (revoked st). hex_id r)"

lemma hex_id_toHex: "length a = 32 \<Longrightarrow> hex_id (toHex a)"
  by (simp add: hex_id_def isHex64_toHex toLowerCase_toHex)

lemma set_mset_at: "set (mset_at k v m) \<subseteq> insert (k, v) (set m)"
  by (induction k v m rule: mset_at.induct) auto

lemma mset_at_new: "k \<notin> fst ` set m \<Longrightarrow> mset_at k v m = m @ [(k, v)]"
  by (induction k v m rule: mset_at.induct) auto

lemma read_mark_ok:
  assumes "mark_ok (k, n)" and "k \<notin> fst ` set ms"
  shows "read_mark (k, jint n) ms = Inr (ms @ [(k, n)])"
proof -
  obtain h ap where k: "k = h @ js '':'' @ ap" "isHex64 h" "toLowerCase h = h" "ap \<noteq> []"
    and n: "0 \<le> n" "n \<le> MAX_SAFE"
    using assms(1) by (auto simp: mark_ok_def hex_id_def)
  have "length h = 64" using k(2) by (simp add: isHex64_def)
  then have "take 64 k = h" "drop 64 k = js '':'' @ ap" "elem_at k 64 = Some 58" "length k \<noteq> 65"
    using k(4) by (simp_all add: k(1) elem_at_def js_eval nth_append)
  then show ?thesis
    using k n assms(2) by (simp add: read_mark_def mset_at_new abs_le_iff)
qed

lemma read_marks_ok:
  "distinct (map fst (acc @ ms)) \<Longrightarrow> \<forall>kv\<in>set ms. mark_ok kv \<Longrightarrow>
     rfold read_mark (map (\<lambda>(k, v). (k, jint v)) ms) acc = Inr (acc @ ms)"
proof (induction ms arbitrary: acc)
  case Nil
  then show ?case by simp
next
  case (Cons m ms)
  obtain k n where m: "m = (k, n)" by fastforce
  have "read_mark (k, jint n) acc = Inr (acc @ [(k, n)])"
    using Cons.prems by (intro read_mark_ok) (auto simp: m)
  then show ?case
    using Cons.IH [of "acc @ [(k, n)]"] Cons.prems by (simp add: m)
qed

lemma read_revoked_ok:
  "distinct (acc @ rs) \<Longrightarrow> \<forall>r\<in>set rs. hex_id r \<Longrightarrow> rfold read_revoked (map JStr rs) acc = Inr (acc @ rs)"
proof (induction rs arbitrary: acc)
  case Nil
  then show ?case by simp
next
  case (Cons r rs)
  then show ?case
    using Cons.IH [of "acc @ [r]"] by (simp add: read_revoked_def hex_id_def set_add_def)
qed

lemma fresh_load_serialize:
  assumes "fresh_ok st" and "parse J (serialize J st) = Some (fresh_json st)"
  shows "fresh_load J (Some (serialize J st)) = Inr (st\<lparr>disk := Some (serialize J st)\<rparr>)"
  using assms read_marks_ok [of "[]" "marks st"] read_revoked_ok [of "[]" "revoked st"]
  by (simp add: fresh_load_def fresh_json_def fresh_ok_def)

lemma fresh_set_invar:
  assumes "fresh_ok st" and "length a = 32" and "ap \<noteq> []"
  shows "fresh_ok (snd (fresh_set J persist a ap ver st))"
proof -
  have "mark_ok (mark_key a ap, n)" if "0 \<le> n" "safe_int ver = Some n" for n
    using that assms(2,3) hex_id_toHex num_of_bound [of "Some (JNum ver)" n] by (auto simp: mark_ok_def mark_key_def)
  then have "fresh_ok (st\<lparr>marks := mset_at (mark_key a ap) n (marks st), disk := d\<rparr>)"
    if "0 \<le> n" "safe_int ver = Some n" for n d
    using assms(1) that set_mset_at [of "mark_key a ap" n "marks st"] by (auto simp: fresh_ok_def)
  then show ?thesis
    using assms(1) by (auto simp: fresh_set_def Let_def mdel_mset_at_new mset_at_restore split: option.splits)
qed

lemma fresh_revoke_invar:
  assumes "fresh_ok st" and "length a = 32"
  shows "fresh_ok (snd (fresh_revoke J persist a st))"
  using assms hex_id_toHex [OF assms(2)]
  by (auto simp: fresh_revoke_def Let_def fresh_ok_def set_add_def filter_id_conv)

fun fresh_op_ok :: "fresh_op \<Rightarrow> bool" where
  "fresh_op_ok (Set_Mark a ap _ _) \<longleftrightarrow> length a = 32 \<and> ap \<noteq> []"
| "fresh_op_ok (Revoke_Author a _) \<longleftrightarrow> length a = 32"

lemma fresh_run_invar: "list_all fresh_op_ok ops \<Longrightarrow> fresh_ok st \<Longrightarrow> fresh_ok (fresh_run J ops st)"
  unfolding fresh_run_def
proof (induction ops arbitrary: st)
  case (Cons oper ops)
  then have "fresh_ok (fresh_step J oper st)"
    by (cases oper) (simp_all add: fresh_set_invar fresh_revoke_invar)
  with Cons show ?case by simp
qed simp

text \<open>The disk holds what memory holds, from the first write on.\<close>

definition synced :: "json_codec \<Rightarrow> FreshnessMarks \<Rightarrow> bool" where
  "synced J st \<longleftrightarrow> (case disk st of None \<Rightarrow> marks st = [] \<and> revoked st = []
     | Some t \<Rightarrow> t = serialize J st)"

lemma serialize_disk [simp]: "serialize J (st\<lparr>disk := d\<rparr>) = serialize J st"
  by (simp add: serialize_def fresh_json_def)

lemma fresh_run_synced: "synced J st \<Longrightarrow> synced J (fresh_run J ops st)"
  unfolding fresh_run_def
proof (induction ops arbitrary: st)
  case (Cons oper ops)
  then have "synced J (fresh_step J oper st)"
    by (cases oper) (auto simp: synced_def fresh_set_def fresh_revoke_def Let_def mdel_mset_at_new mset_at_restore
        filter_set_add split: option.splits)
  with Cons show ?case by simp
qed simp

section \<open>Properties\<close>

text \<open>
  C6: the downgrade guard holds for good. Once a version has been recorded for an author and app,
  every later state of the store, whatever marks and revocations follow and whichever of their
  writes fail, refuses each bundle of that author and app with a lower version.
\<close>

theorem no_downgrade:
  assumes "fresh_set J persist (author v) (app (manifest v)) ver st = (Inr (), st1)"
    and "safe_int ver = Some n" and "version (manifest v) < n"
  shows "\<not> is_ok (checkHostGates v (fresh_run J ops st1))"
proof -
  have "mark_le (Some n) (fresh_get st1 (author v) (app (manifest v)))"
    using fresh_set_ok_mark [OF assms(1)] assms(2) by auto
  then have "mark_le (Some n) (fresh_get (fresh_run J ops st1) (author v) (app (manifest v)))"
    using fresh_run_get mark_le_trans by blast
  then show ?thesis using assms(3) by (rule checkHostGates_refuses)
qed

definition demo_loaded :: "int \<Rightarrow> LoadedBundle" where
  "demo_loaded n = \<lparr>author = replicate 32 1, authorKeys = \<lparr>ed = [], mlDsa = []\<rparr>,
     manifest = \<lparr>app = js ''a'', version = n, protocols = None, services = None, modules = [],
       guest = \<lparr>requires = [], config = None\<rparr>\<rparr>, guestSource = []\<rparr>"

definition demo_text_codec :: "json \<Rightarrow> json_codec" where
  "demo_text_codec j = \<lparr>parse = (\<lambda>_. Some j), stringify = (\<lambda>_. js ''t'')\<rparr>"

definition empty_store :: FreshnessMarks where
  "empty_store = \<lparr>marks = [], revoked = [], disk = None\<rparr>"

theorem no_downgrade_witness:
  "\<not> is_ok (checkHostGates (demo_loaded 4)
     (fresh_run (demo_text_codec JNull) [Set_Mark (replicate 32 1) (js ''a'') (Fin 3) True]
       (snd (fresh_set (demo_text_codec JNull) (\<lambda>_. True) (replicate 32 1) (js ''a'') (Fin 5) empty_store))))"
  by (rule no_downgrade [where persist = "\<lambda>_. True" and ver = "Fin 5" and st = empty_store and n = 5])
     (simp_all add: demo_loaded_def fresh_set_def empty_store_def MAX_SAFE_def Let_def)

text \<open>
  C7: a revocation holds for good. After a successful \<open>revoke\<close>, no later state of the store
  admits any bundle of that author past the host's gates.
\<close>

theorem revocation_permanent:
  assumes "fresh_revoke J persist (author v) st = (Inr (), st1)"
  shows "checkHostGates v (fresh_run J ops st1) = Inl (Author_Revoked (author v))"
  using fresh_run_revoked [OF fresh_revoke_ok [OF assms]] by (simp add: checkHostGates_def)

theorem revocation_permanent_witness:
  "checkHostGates (demo_loaded 4)
     (fresh_run (demo_text_codec JNull) [Set_Mark (replicate 32 1) (js ''a'') (Fin 3) False]
       (snd (fresh_revoke (demo_text_codec JNull) (\<lambda>_. True) (replicate 32 1) empty_store))) =
     Inl (Author_Revoked (author (demo_loaded 4)))"
  by (rule revocation_permanent [where persist = "\<lambda>_. True" and st = empty_store])
     (simp add: demo_loaded_def fresh_revoke_def empty_store_def Let_def)

text \<open>
  a restart loses nothing. After any sequence of marks and revocations from an empty store,
  with any of the writes failing, loading the text on disk gives back exactly the store in
  memory, provided \<open>JSON.parse\<close> reads back what \<open>JSON.stringify\<close> wrote for it.
\<close>

theorem restart_restores:
  assumes "list_all fresh_op_ok ops" and "st = fresh_run J ops empty_store"
    and "parse J (serialize J st) = Some (fresh_json st)"
  shows "fresh_load J (disk st) = Inr st"
proof -
  have ok: "fresh_ok st" and sync: "synced J st"
    unfolding assms(2)
    by (rule fresh_run_invar [OF assms(1)], simp add: fresh_ok_def empty_store_def)
       (rule fresh_run_synced, simp add: synced_def empty_store_def)
  show ?thesis
  proof (cases "disk st")
    case None
    then show ?thesis using sync by (simp add: synced_def fresh_load_def)
  next
    case (Some t)
    then show ?thesis using sync fresh_load_serialize [OF ok assms(3)] by (simp add: synced_def)
  qed
qed

definition demo_ops :: "fresh_op list" where
  "demo_ops = [Set_Mark (replicate 32 1) (js ''a'') (Fin 3) True, Revoke_Author (replicate 32 2) True,
     Set_Mark (replicate 32 1) (js ''a'') (Fin 9) False]"

theorem restart_restores_witness:
  "\<exists>J. let st = fresh_run J demo_ops empty_store in fresh_load J (disk st) = Inr st \<and> disk st \<noteq> None"
proof -
  let ?st0 = "fresh_run (demo_text_codec JNull) demo_ops empty_store"
  let ?J = "demo_text_codec (fresh_json ?st0)"
  have same: "fresh_run ?J demo_ops empty_store = ?st0" and written: "disk ?st0 = Some (js ''t'')"
    by (simp_all add: fresh_run_def demo_ops_def fresh_set_def fresh_revoke_def empty_store_def demo_text_codec_def
        Let_def MAX_SAFE_def serialize_def set_add_def mark_key_def)
  have "fresh_load ?J (disk ?st0) = Inr ?st0"
    by (rule restart_restores [of demo_ops])
       (simp_all only: same, simp_all add: demo_ops_def demo_text_codec_def)
  then show ?thesis using same written by (auto simp: Let_def intro!: exI [of _ ?J])
qed

text \<open>
  an author policy admits exactly the authors it lists. A policy text is accepted only when
  its root is an object whose one key is \<open>authors\<close>, holding 64-digit hex ids, in either case;
  the predicate it yields admits a bundle if and only if its author's id is among them.
\<close>

theorem parsePolicy_exact:
  assumes "parsePolicy J txt = Inr admit" and "parse J txt = Some raw"
  shows "\<exists>kvs ids. raw = JObj kvs \<and> fst ` set kvs \<subseteq> {js ''authors''} \<and>
    jget raw (js ''authors'') = Some (JArr (map JStr ids)) \<and> list_all isHex64 ids \<and>
    (\<forall>v. admit v = (author v \<in> fromHex ` set ids))"
proof -
  obtain kvs as' where raw: "raw = JObj kvs" and keys: "find (\<lambda>(k, _). k \<noteq> js ''authors'') kvs = None"
    and arr: "jget raw (js ''authors'') = Some (JArr as')"
    and str: "\<forall>a\<in>set as'. is_string a \<and> isHex64 (str_of a)" and adm: "admit = authorAllowlist (map str_of as')"
    using assms by (cases raw) (auto simp: parsePolicy_def list_ex_iff split: option.splits if_splits prod.splits)
  have "as' = map JStr (map str_of as')"
    using str is_string_str_of by (induction as') auto
  moreover have "admit v = (author v \<in> fromHex ` set (map str_of as'))" for v
  proof -
    have "toHex (author v) = toLowerCase s \<longleftrightarrow> author v = fromHex s" if "s \<in> set (map str_of as')" for s
      using that str toHex_fromHex_64 [of s] by (metis (no_types, lifting) imageE list.set_map toHex_inj)
    then show ?thesis by (auto simp: adm authorAllowlist_def image_iff)
  qed
  moreover have "fst ` set kvs \<subseteq> {js ''authors''}"
    using keys by (auto simp: find_None_iff)
  ultimately show ?thesis
    using raw arr str by (intro exI [of _ kvs] exI [of _ "map str_of as'"]) (simp add: list_all_iff)
qed

theorem parsePolicy_exact_witness:
  "let raw = JObj [(js ''authors'', JArr [JStr (toHex (replicate 32 1))])] in
     \<exists>ids. jget raw (js ''authors'') = Some (JArr (map JStr ids)) \<and>
       (\<forall>v. authorAllowlist [toHex (replicate 32 1)] v = (author v \<in> fromHex ` set ids))"
proof -
  let ?raw = "JObj [(js ''authors'', JArr [JStr (toHex (replicate 32 1))])]"
  have "parsePolicy (demo_text_codec ?raw) [] = Inr (authorAllowlist [toHex (replicate 32 1)])"
    by (simp add: parsePolicy_def demo_text_codec_def isHex64_toHex del: toHex.simps)
  from parsePolicy_exact [OF this, of ?raw] show ?thesis
    unfolding Let_def demo_text_codec_def by fastforce
qed

end
