(* ===== verification/Slot_Table.thy ===== *)
theory Slot_Table
  imports Bundle
begin

text \<open>
  \<^verbatim>\<open>WASM/host/slot-table.ts\<close>: the installed slots and the three claim books that route to them.
  A slot is a JavaScript object compared by identity; here it carries its identity \<open>sid\<close>, so
  that equality of the model's slots is identity of the program's.
\<close>

section \<open>State\<close>

record Slot =
  sid :: nat
  verifiedBundle :: LoadedBundle

datatype book = Occupied | Peer | Local

record slot_table =
  maxSlots :: nat
  slots :: "Slot list"
  peer :: "(jstr \<times> Slot) list"
  local :: "(jstr \<times> Slot) list"
  occupied :: "(jstr \<times> Slot) list"

definition DEFAULT_MAX_APP_SLOTS :: nat where
  "DEFAULT_MAX_APP_SLOTS = 8"

definition createSlotTable :: "nat \<Rightarrow> slot_table" where
  "createSlotTable n = \<lparr>maxSlots = n, slots = [], peer = [], local = [], occupied = []\<rparr>"

fun book_of :: "book \<Rightarrow> slot_table \<Rightarrow> (jstr \<times> Slot) list" where
  "book_of Occupied t = occupied t"
| "book_of Peer t = peer t"
| "book_of Local t = local t"

fun put_book :: "book \<Rightarrow> (jstr \<times> Slot) list \<Rightarrow> slot_table \<Rightarrow> slot_table" where
  "put_book Occupied m t = t\<lparr>occupied := m\<rparr>"
| "put_book Peer m t = t\<lparr>peer := m\<rparr>"
| "put_book Local m t = t\<lparr>local := m\<rparr>"

definition or_empty :: "'a list option \<Rightarrow> 'a list" where
  "or_empty x = (case x of None \<Rightarrow> [] | Some xs \<Rightarrow> xs)"

definition labelOf :: "Slot \<Rightarrow> jstr" where
  "labelOf s = app (manifest (verifiedBundle s))"

section \<open>Operations\<close>

definition booksOf :: "BundleManifest \<Rightarrow> (book \<times> jstr list) list" where
  "booksOf m = [(Occupied, filter isOccupiedService (requires (guest m))),
     (Peer, or_empty (protocols m)), (Local, or_empty (services m))]"

definition release_claim :: "Slot \<Rightarrow> jstr \<Rightarrow> (jstr \<times> Slot) list \<Rightarrow> (jstr \<times> Slot) list" where
  "release_claim s c m = (if map_of m c = Some s then mdel c m else m)"

definition release :: "Slot \<Rightarrow> slot_table \<Rightarrow> slot_table" where
  "release s t =
     fold (\<lambda>(b, names) t. put_book b (fold (release_claim s) names (book_of b t)) t)
       (booksOf (manifest (verifiedBundle s))) t"

definition table_get :: "jstr \<Rightarrow> slot_table \<Rightarrow> Slot option" where
  "table_get ap t = find (\<lambda>s. labelOf s = ap) (slots t)"

definition owner :: "jstr \<Rightarrow> slot_table \<Rightarrow> Slot option" where
  "owner c t = (case map_of (peer t) c of Some s \<Rightarrow> Some s | None \<Rightarrow> map_of (local t) c)"

definition peerClaimant :: "jstr \<Rightarrow> slot_table \<Rightarrow> Slot option" where
  "peerClaimant c t = map_of (peer t) c"

definition localClaimant :: "jstr \<Rightarrow> slot_table \<Rightarrow> Slot option" where
  "localClaimant c t = map_of (local t) c"

definition occupant :: "jstr \<Rightarrow> slot_table \<Rightarrow> Slot option" where
  "occupant c t = map_of (occupied t) c"

definition routes :: "slot_table \<Rightarrow> (jstr \<times> jstr) list" where
  "routes t = map (\<lambda>(c, s). (c, labelOf s)) (peer t @ local t)"

datatype table_error =
    Replacement_Gone | Already_Installed jstr | Claim_Held book jstr jstr | Occupied_Not_Selected jstr | Slots_Full nat

definition check_claim :: "slot_table \<Rightarrow> Slot option \<Rightarrow> bool \<Rightarrow> book \<Rightarrow> jstr \<Rightarrow> (table_error, unit) result" where
  "check_claim t replacement selected b c =
     (case map_of (book_of b t) c of
        Some s \<Rightarrow> if Some s \<noteq> replacement then Inl (Claim_Held b c (labelOf s)) else Inr ()
      | None \<Rightarrow> if b = Occupied \<and> \<not> selected then Inl (Occupied_Not_Selected c) else Inr ())"

definition check_book :: "slot_table \<Rightarrow> Slot option \<Rightarrow> bool \<Rightarrow> book \<times> jstr list \<Rightarrow> (table_error, unit) result" where
  "check_book t replacement selected bn =
     rfold (\<lambda>c _. check_claim t replacement selected (fst bn) c) (snd bn) ()"

definition refuseConflicts :: "'x LoadedBundle_scheme \<Rightarrow> Slot option \<Rightarrow> bool \<Rightarrow> slot_table \<Rightarrow> (table_error, unit) result" where
  "refuseConflicts loaded replacement selected t =
     (if (case replacement of None \<Rightarrow> False | Some r \<Rightarrow> r \<notin> set (slots t)) then Inl Replacement_Gone
      else if (case table_get (app (manifest loaded)) t of None \<Rightarrow> False | Some s \<Rightarrow> Some s \<noteq> replacement)
      then Inl (Already_Installed (app (manifest loaded)))
      else rbind (rfold (\<lambda>bn _. check_book t replacement selected bn) (booksOf (manifest loaded)) ()) (\<lambda>_.
        if replacement = None \<and> maxSlots t \<le> length (slots t) then Inl (Slots_Full (maxSlots t)) else Inr ()))"

fun replace_first :: "'a \<Rightarrow> 'a \<Rightarrow> 'a list \<Rightarrow> 'a list" where
  "replace_first old new [] = []"
| "replace_first old new (x # xs) = (if x = old then new # xs else x # replace_first old new xs)"

definition claim_all :: "Slot \<Rightarrow> slot_table \<Rightarrow> slot_table" where
  "claim_all s t =
     fold (\<lambda>(b, names) t. put_book b (fold (\<lambda>c. mset_at c s) names (book_of b t)) t)
       (booksOf (manifest (verifiedBundle s))) t"

definition commit :: "Slot \<Rightarrow> Slot option \<Rightarrow> slot_table \<Rightarrow> slot_table" where
  "commit s replacement t =
     claim_all s
       (case replacement of
          Some r \<Rightarrow> (let t' = release r t in t'\<lparr>slots := replace_first r s (slots t')\<rparr>)
        | None \<Rightarrow> t\<lparr>slots := slots t @ [s]\<rparr>)"

definition remove :: "jstr \<Rightarrow> slot_table \<Rightarrow> Slot option \<times> slot_table" where
  "remove ap t =
     (case table_get ap t of
        None \<Rightarrow> (None, t)
      | Some s \<Rightarrow> (Some s, release s (t\<lparr>slots := remove1 s (slots t)\<rparr>)))"

definition clear :: "slot_table \<Rightarrow> Slot list \<times> slot_table" where
  "clear t = (slots t, t\<lparr>slots := [], peer := [], local := [], occupied := []\<rparr>)"

section \<open>Invariant\<close>

definition claims :: "book \<Rightarrow> BundleManifest \<Rightarrow> jstr set" where
  "claims b m = (\<Union>(b', names) \<in> set (booksOf m). if b' = b then set names else {})"

abbreviation manifest_of :: "Slot \<Rightarrow> BundleManifest" where
  "manifest_of s \<equiv> manifest (verifiedBundle s)"

text \<open>
  The books are exactly the claims of the installed manifests, no two slots share an identity,
  a label or a claim, and the table respects its cap.
\<close>

definition table_ok :: "slot_table \<Rightarrow> bool" where
  "table_ok t \<longleftrightarrow> distinct (map labelOf (slots t)) \<and> length (slots t) \<le> maxSlots t \<and>
     (\<forall>b c s. map_of (book_of b t) c = Some s \<longleftrightarrow> s \<in> set (slots t) \<and> c \<in> claims b (manifest_of s))"

lemma book_put [simp]: "book_of b (put_book b' m t) = (if b = b' then m else book_of b t)"
  by (cases b; cases b') simp_all

lemma slots_put [simp]: "slots (put_book b m t) = slots t" "maxSlots (put_book b m t) = maxSlots t"
  by (cases b; simp)+

lemma book_of_slots [simp]: "book_of b (t\<lparr>slots := ss\<rparr>) = book_of b t"
  by (cases b) simp_all

lemma claims_eq:
  "claims Occupied m = set (filter isOccupiedService (requires (guest m)))"
  "claims Peer m = set (or_empty (protocols m))"
  "claims Local m = set (or_empty (services m))"
  by (auto simp: claims_def booksOf_def)

lemma release_claims: "map_of (fold (release_claim s) names m) c =
    (if c \<in> set names \<and> map_of m c = Some s then None else map_of m c)"
  by (induction names arbitrary: m) (auto simp: release_claim_def)

lemma claim_names: "map_of (fold (\<lambda>c. mset_at c s) names m) c = (if c \<in> set names then Some s else map_of m c)"
  by (induction names arbitrary: m) auto

lemma map_of_release:
  "map_of (book_of b (release s t)) c =
     (if c \<in> claims b (manifest_of s) \<and> map_of (book_of b t) c = Some s then None else map_of (book_of b t) c)"
  by (cases b) (simp_all add: release_def booksOf_def release_claims claims_eq)

lemma map_of_claim_all:
  "map_of (book_of b (claim_all s t)) c = (if c \<in> claims b (manifest_of s) then Some s else map_of (book_of b t) c)"
  by (cases b) (simp_all add: claim_all_def booksOf_def claim_names claims_eq)

lemma slots_release [simp]: "slots (release s t) = slots t" "maxSlots (release s t) = maxSlots t"
  by (simp_all add: release_def booksOf_def)

lemma slots_claim_all [simp]: "slots (claim_all s t) = slots t" "maxSlots (claim_all s t) = maxSlots t"
  by (simp_all add: claim_all_def booksOf_def)

text \<open>What the check establishes of a candidate.\<close>

lemma refuseConflicts_ok:
  assumes "refuseConflicts loaded replacement selected t = Inr ()"
  shows refuse_live: "replacement = Some r \<Longrightarrow> r \<in> set (slots t)"
    and refuse_label: "distinct (map labelOf (slots t)) \<Longrightarrow> s \<in> set (slots t) \<Longrightarrow>
      labelOf s = app (manifest loaded) \<Longrightarrow> replacement = Some s"
    and refuse_claim: "c \<in> claims b (manifest loaded) \<Longrightarrow> map_of (book_of b t) c = Some s \<Longrightarrow> replacement = Some s"
    and refuse_occupied: "c \<in> claims Occupied (manifest loaded) \<Longrightarrow> map_of (occupied t) c = None \<Longrightarrow> selected"
    and refuse_cap: "replacement = None \<Longrightarrow> length (slots t) < maxSlots t"
proof -
  show "replacement = Some r \<Longrightarrow> r \<in> set (slots t)"
    using assms by (auto simp: refuseConflicts_def split: if_splits)
  show "replacement = None \<Longrightarrow> length (slots t) < maxSlots t"
    using assms by (auto simp: refuseConflicts_def result_simps split: if_splits option.splits)
  have "rfold (\<lambda>bn _. check_book t replacement selected bn) (booksOf (manifest loaded)) () = Inr ()"
    using assms by (auto simp: refuseConflicts_def result_simps split: if_splits)
  then have ok: "\<forall>bn\<in>set (booksOf (manifest loaded)). \<forall>c\<in>set (snd bn). check_claim t replacement selected (fst bn) c = Inr ()"
    by (simp only: rfold_unit_ok check_book_def)
  have "check_claim t replacement selected b c = Inr ()" if "c \<in> claims b (manifest loaded)" for b c
    using ok that by (cases b) (auto simp: claims_def booksOf_def)
  then show "c \<in> claims b (manifest loaded) \<Longrightarrow> map_of (book_of b t) c = Some s \<Longrightarrow> replacement = Some s"
    and "c \<in> claims Occupied (manifest loaded) \<Longrightarrow> map_of (occupied t) c = None \<Longrightarrow> selected"
    by (fastforce simp: check_claim_def split: option.splits if_splits)+
  show "replacement = Some s" if l: "distinct (map labelOf (slots t))" "s \<in> set (slots t)" "labelOf s = app (manifest loaded)"
  proof -
    have "table_get (app (manifest loaded)) t \<noteq> None"
      using l(2,3) by (auto simp: table_get_def find_None_iff)
    then obtain s' where s': "table_get (app (manifest loaded)) t = Some s'" by blast
    then have r: "replacement = Some s'"
      using assms by (auto simp: refuseConflicts_def split: if_splits)
    have "s' \<in> set (slots t)" "labelOf s' = labelOf s"
      using s' l(3) unfolding table_get_def find_Some_iff by auto
    then have "s' = s" using l by (simp add: distinct_map inj_on_def)
    with r show ?thesis by simp
  qed
qed

lemma set_replace_first: "distinct xs \<Longrightarrow> x \<in> set xs \<Longrightarrow> set (replace_first x y xs) = insert y (set xs - {x})"
  by (induction xs) auto

lemma length_replace_first [simp]: "length (replace_first x y xs) = length xs"
  by (induction xs) auto

lemma distinct_map_replace_first:
  "distinct (map f xs) \<Longrightarrow> (\<And>z. z \<in> set xs \<Longrightarrow> f z = f y \<Longrightarrow> z = x) \<Longrightarrow> distinct (map f (replace_first x y xs))"
proof (induction xs)
  case (Cons a xs)
  have sub: "f ` set (replace_first x y xs) \<subseteq> insert (f y) (f ` set xs)"
    by (induction xs) auto
  have "f y \<notin> f ` set xs \<or> x \<in> set xs" using Cons.prems(2) by fastforce
  then show ?case using Cons sub by (auto simp: image_iff) 
qed simp

lemma table_ok_unique:
  "table_ok t \<Longrightarrow> x \<in> set (slots t) \<Longrightarrow> y \<in> set (slots t) \<Longrightarrow> c \<in> claims b (manifest_of x) \<Longrightarrow>
     c \<in> claims b (manifest_of y) \<Longrightarrow> x = y"
  unfolding table_ok_def by (metis option.inject)

lemma map_of_commit:
  "map_of (book_of b (commit s r t)) c = Some x \<Longrightarrow> x \<noteq> s \<Longrightarrow> map_of (book_of b t) c = Some x"
  by (cases r) (auto simp: commit_def map_of_claim_all map_of_release Let_def split: if_splits)

lemma commit_table_ok:
  assumes ok: "table_ok t" and ref: "refuseConflicts (verifiedBundle s) replacement selected t = Inr ()"
    and new: "s \<notin> set (slots t)"
  shows "table_ok (commit s replacement t)"
proof -
  have lab: "distinct (map labelOf (slots t))" and len: "length (slots t) \<le> maxSlots t"
    and books: "\<And>b c x. map_of (book_of b t) c = Some x \<longleftrightarrow> x \<in> set (slots t) \<and> c \<in> claims b (manifest_of x)"
    using ok by (auto simp: table_ok_def)
  have dist: "distinct (slots t)" using lab by (simp add: distinct_map)
  let ?t = "case replacement of
      Some r \<Rightarrow> (let t' = release r t in t'\<lparr>slots := replace_first r s (slots t')\<rparr>)
    | None \<Rightarrow> t\<lparr>slots := slots t @ [s]\<rparr>"
  let ?old = "{x \<in> set (slots t). replacement \<noteq> Some x}"
  have set: "set (slots ?t) = insert s ?old"
    using refuse_live [OF ref] dist by (cases replacement) (auto simp: Let_def set_replace_first)
  have old: "map_of (book_of b ?t) c = Some x \<longleftrightarrow> x \<in> ?old \<and> c \<in> claims b (manifest_of x)" for b c x
    using books table_ok_unique [OF ok, of _ x] by (cases replacement) (auto simp: Let_def map_of_release)
  have "map_of (book_of b (claim_all s ?t)) c = Some x \<longleftrightarrow> x \<in> insert s ?old \<and> c \<in> claims b (manifest_of x)" for b c x
    using refuse_claim [OF ref, of c b x] books [of b c x] old [of b c x] new
    by (auto simp: map_of_claim_all)
  moreover have "distinct (map labelOf (slots ?t))"
  proof (cases replacement)
    case None
    then show ?thesis using lab refuse_label [OF ref lab] by (fastforce simp: labelOf_def)
  next
    case (Some r)
    then show ?thesis
      using lab refuse_label [OF ref lab] by (auto simp: Let_def labelOf_def intro!: distinct_map_replace_first)
  qed
  moreover have "length (slots ?t) \<le> maxSlots ?t"
    using len refuse_cap [OF ref] by (cases replacement) (auto simp: Let_def)
  ultimately show ?thesis
    unfolding table_ok_def commit_def by (simp add: set)
qed

lemma remove_table_ok:
  assumes ok: "table_ok t"
  shows "table_ok (snd (remove ap t))"
proof (cases "table_get ap t")
  case None
  then show ?thesis using ok by (simp add: remove_def)
next
  case (Some s)
  have lab: "distinct (map labelOf (slots t))" using ok by (simp add: table_ok_def)
  then have "set (remove1 s (slots t)) = set (slots t) - {s}" "distinct (map labelOf (remove1 s (slots t)))"
    by (auto simp: distinct_map set_remove1_eq intro: inj_on_diff)
  moreover have "length (remove1 s (slots t)) \<le> maxSlots t"
    using ok by (auto simp: table_ok_def length_remove1)
  ultimately show ?thesis
    using ok Some table_ok_unique [OF ok, of s] by (auto simp: remove_def table_ok_def map_of_release)
qed

lemma clear_table_ok: "table_ok (snd (clear t))"
proof -
  have "book_of b (snd (clear t)) = []" for b by (cases b) (simp_all add: clear_def)
  then show ?thesis by (simp add: table_ok_def) (simp add: clear_def)
qed

lemma createSlotTable_ok: "table_ok (createSlotTable n)"
proof -
  have "book_of b (createSlotTable n) = []" for b by (cases b) (simp_all add: createSlotTable_def)
  then show ?thesis by (simp add: table_ok_def) (simp add: createSlotTable_def)
qed

section \<open>The table over time\<close>

datatype table_action = Install Slot "Slot option" bool | Uninstall jstr | Shutdown

text \<open>
  A step of the shell on the table: a candidate that passed the conflict check is committed, a
  label is removed, or the table is emptied. A candidate is a new object, in no slot yet.
\<close>

inductive table_step :: "slot_table \<Rightarrow> table_action \<Rightarrow> slot_table \<Rightarrow> bool" where
  install: "refuseConflicts (verifiedBundle s) r selected t = Inr () \<Longrightarrow> s \<notin> set (slots t) \<Longrightarrow>
    table_step t (Install s r selected) (commit s r t)"
| uninstall: "table_step t (Uninstall ap) (snd (remove ap t))"
| shutdown: "table_step t Shutdown (snd (clear t))"

inductive_cases table_step_cases: "table_step t a t'"

inductive table_reachable :: "nat \<Rightarrow> slot_table \<Rightarrow> bool" for n where
  init: "table_reachable n (createSlotTable n)"
| step: "table_reachable n t \<Longrightarrow> table_step t a t' \<Longrightarrow> table_reachable n t'"

lemma step_table_ok: "table_step t a t' \<Longrightarrow> table_ok t \<Longrightarrow> table_ok t'"
  by (erule table_step_cases) (auto simp: commit_table_ok remove_table_ok clear_table_ok)

lemma maxSlots_step: "table_step t a t' \<Longrightarrow> maxSlots t' = maxSlots t"
  by (erule table_step_cases)
     (auto simp: commit_def remove_def clear_def Let_def split: option.splits)

text \<open>
  C10: the claim books always agree with the installed manifests. In every table reached by
  installs that passed the conflict check, replacements, removals and shutdowns, no two slots
  carry one label, the cap holds, and each book maps a name to a slot exactly when that slot is
  installed and its manifest claims the name in that book, so a name never routes to a removed
  slot and is never held by two.
\<close>

theorem slot_table_invariant:
  assumes "table_reachable n t"
  shows "distinct (map labelOf (slots t)) \<and> length (slots t) \<le> n \<and>
    (\<forall>b c s. map_of (book_of b t) c = Some s \<longleftrightarrow> s \<in> set (slots t) \<and> c \<in> claims b (manifest_of s))"
proof -
  have "table_ok t \<and> maxSlots t = n"
    using assms
  proof (induction rule: table_reachable.induct)
    case init
    then show ?case using createSlotTable_ok [of n] by (simp add: createSlotTable_def)
  next
    case (step t a t')
    then show ?case using step_table_ok maxSlots_step by metis
  qed
  then show ?thesis by (auto simp: table_ok_def)
qed

definition demo_slot :: "nat \<Rightarrow> string \<Rightarrow> jstr list \<Rightarrow> jstr list \<Rightarrow> Slot" where
  "demo_slot n label req protos = \<lparr>sid = n, verifiedBundle =
     \<lparr>author = [], authorKeys = \<lparr>ed = [], mlDsa = []\<rparr>,
      manifest = \<lparr>app = js label, version = 1, protocols = Some protos, services = None, modules = [],
        guest = \<lparr>requires = req, config = None\<rparr>\<rparr>, guestSource = []\<rparr>\<rparr>"

lemmas table_eval = createSlotTable_def refuseConflicts_def table_get_def labelOf_def demo_slot_def booksOf_def
  check_book_def check_claim_def isOccupiedService_iff or_empty_def commit_def claim_all_def release_def release_claim_def
  Let_def

definition demo_table :: slot_table where
  "demo_table = commit (demo_slot 1 ''net'' [js ''link''] [js ''p'']) None (createSlotTable 2)"

lemma demo_table_step:
  "table_step (createSlotTable 2) (Install (demo_slot 1 ''net'' [js ''link''] [js ''p'']) None True) demo_table"
  unfolding demo_table_def by (rule table_step.install) (simp_all add: table_eval)

theorem slot_table_invariant_witness:
  "distinct (map labelOf (slots demo_table)) \<and> length (slots demo_table) \<le> 2 \<and>
    (\<forall>b c s. map_of (book_of b demo_table) c = Some s \<longleftrightarrow>
       s \<in> set (slots demo_table) \<and> c \<in> claims b (manifest_of s))"
  by (rule slot_table_invariant) (rule table_reachable.step [OF table_reachable.init demo_table_step])

text \<open>
  the raw-link service changes hands only by the two ways meant for it. In one step of a
  well-formed table, the slot holding an occupied service either keeps it, or it is the newly
  installed slot, whose manifest requires the service and which was either the boot's transport
  selection taking a free service or an explicit replacement of the current holder.
\<close>

theorem occupied_service_handover:
  assumes "table_ok t" and "table_step t a t'" and "occupant svc t' = Some s"
  shows "occupant svc t = Some s \<or>
    (\<exists>r selected. a = Install s r selected \<and> svc \<in> set (requires (guest (manifest_of s))) \<and> isOccupiedService svc \<and>
       (occupant svc t = None \<and> selected \<or> occupant svc t = r \<and> r \<noteq> None))"
  using assms(2)
proof (cases rule: table_step.cases)
  case (install s1 r selected)
  have ok': "table_ok t'" using step_table_ok assms by blast
  have held: "map_of (book_of Occupied t') svc = Some s" using assms(3) by (simp add: occupant_def)
  show ?thesis
  proof (cases "s = s1")
    case True
    have claim: "svc \<in> claims Occupied (manifest_of s)"
      using ok' held unfolding table_ok_def by blast
    moreover have "occupant svc t = r \<and> r \<noteq> None" if "occupant svc t = Some x" for x
      using refuse_claim [OF install(3), of svc Occupied x] claim that True by (simp add: occupant_def)
    moreover have selected if "occupant svc t = None"
      using refuse_occupied [OF install(3), of svc] claim that True by (simp add: occupant_def)
    ultimately show ?thesis using install(1) True by (cases "occupant svc t") (auto simp: claims_eq)
  next
    case False
    then have "map_of (book_of Occupied t) svc = Some s"
      using held map_of_commit [of Occupied s1 r t svc s] install(2) by simp
    then show ?thesis by (simp add: occupant_def)
  qed
next
  case (uninstall ap)
  then have "map_of (book_of Occupied t) svc = Some s"
    using assms(3) map_of_release [of Occupied]
    by (auto simp: remove_def occupant_def split: option.splits if_splits)
  then show ?thesis by (simp add: occupant_def)
next
  case shutdown
  then show ?thesis using assms(3) by (simp add: occupant_def clear_def)
qed

theorem occupied_service_handover_witness:
  "occupant (js ''link'') (createSlotTable 2) = Some (demo_slot 1 ''net'' [js ''link''] [js ''p'']) \<or>
    (\<exists>r selected. Install (demo_slot 1 ''net'' [js ''link''] [js ''p'']) None True =
         Install (demo_slot 1 ''net'' [js ''link''] [js ''p'']) r selected \<and>
       js ''link'' \<in> set (requires (guest (manifest_of (demo_slot 1 ''net'' [js ''link''] [js ''p''])))) \<and>
       isOccupiedService (js ''link'') \<and>
       (occupant (js ''link'') (createSlotTable 2) = None \<and> selected \<or>
        occupant (js ''link'') (createSlotTable 2) = r \<and> r \<noteq> None))"
  by (rule occupied_service_handover [OF createSlotTable_ok demo_table_step])
     (simp add: occupant_def demo_table_def table_eval)

end
