(* ===== verification/Bundle_Author.thy ===== *)
theory Bundle_Author
  imports Bundle
begin

text \<open>
  \<^verbatim>\<open>WASM/scripts/bundle-author.ts\<close>: deriving an author's keys, framing and signing a body, and
  authoring a bundle. The comment stripper is TypeScript's parser at work and is a parameter, as
  are the signing primitives. The facts connect this writer with the verifier of
  \<^verbatim>\<open>WASM/host/bundle.ts\<close>.
\<close>

section \<open>Keys and crypto\<close>

record Keypair =
  publicKey :: bytes
  privateKey :: bytes

record HybridAuthorKeys =
  kp_ed :: Keypair
  kp_mlDsa :: Keypair

record ManifestCrypto = ManifestVerifier +
  crypto_sign_detached :: "bytes \<Rightarrow> bytes \<Rightarrow> bytes"
  ml_dsa65_sign_detached :: "bytes \<Rightarrow> bytes \<Rightarrow> bytes"

record AuthorSeedCrypto =
  crypto_sign_seed_keypair :: "bytes \<Rightarrow> Keypair"
  seed_generichash :: "nat \<Rightarrow> bytes \<Rightarrow> bytes option \<Rightarrow> bytes"
  ml_dsa65_keypair_from_seed :: "bytes \<Rightarrow> Keypair"

definition hybridAuthorKeysFromSeed :: "AuthorSeedCrypto \<Rightarrow> bytes \<Rightarrow> (nat, HybridAuthorKeys) result" where
  "hybridAuthorKeysFromSeed sodium seed =
     (if length seed \<noteq> 32 then Inl (length seed)
      else Inr \<lparr>kp_ed = crypto_sign_seed_keypair sodium seed,
                kp_mlDsa = ml_dsa65_keypair_from_seed sodium
                  (seed_generichash sodium 32 (concatBytes [seed, AUTHOR_MLDSA_SEED_LABEL]) None)\<rparr>)"

section \<open>Framing and signing\<close>

definition encodeParts :: "bytes list \<Rightarrow> bytes" where
  "encodeParts fs = args_build [] (fold args_blob fs args_new)"

definition encodeManifest :: "json_codec \<Rightarrow> json \<Rightarrow> bytes" where
  "encodeManifest J m = utf8Encode (stringify J m)"

definition encodeBundleBody :: "json_codec \<Rightarrow> json \<Rightarrow> bytes \<Rightarrow> bytes list \<Rightarrow> bytes" where
  "encodeBundleBody J m guest' mods = encodeParts ([encodeManifest J m, guest'] @ mods)"

definition signEnvelope :: "ManifestCrypto \<Rightarrow> HybridAuthorKeys \<Rightarrow> bytes \<Rightarrow> bytes \<Rightarrow> bytes" where
  "signEnvelope sodium keys dmn body' =
     (let edPk = publicKey (kp_ed keys); mlPk = publicKey (kp_mlDsa keys);
          pre = envelopeSigningInput (ManifestVerifier.truncate sodium) dmn edPk mlPk body';
          edSig = crypto_sign_detached sodium pre (privateKey (kp_ed keys));
          mlSig = ml_dsa65_sign_detached sodium pre (privateKey (kp_mlDsa keys))
      in concatBytes [[SUITE_MANIFEST_HYBRID_PQ], edPk, mlPk, edSig, mlSig, body'])"

definition signBundle :: "json_codec \<Rightarrow> ManifestCrypto \<Rightarrow> HybridAuthorKeys \<Rightarrow> json \<Rightarrow> bytes \<Rightarrow> bytes list \<Rightarrow> bytes" where
  "signBundle J sodium keys m guest' mods =
     signEnvelope sodium keys DOMAIN_MANIFEST (encodeBundleBody J m guest' mods)"

section \<open>Authoring\<close>

record UnsignedBundle =
  in_app :: jstr
  in_version :: jsnum
  in_protocols :: "jstr list option"
  in_services :: "jstr list option"
  in_modules :: "(jstr \<times> bytes) list"
  in_guestSource :: jstr
  in_guestRequires :: "jstr list"
  in_guestConfig :: "json option"

record AuthoredBundle =
  blob :: bytes
  signed_manifest :: BundleManifest
  signed_author :: bytes

definition opt_field :: "string \<Rightarrow> json option \<Rightarrow> (jstr \<times> json) list" where
  "opt_field k v = (case v of None \<Rightarrow> [] | Some x \<Rightarrow> [(js k, x)])"

definition jstrings :: "jstr list \<Rightarrow> json" where
  "jstrings ss = JArr (map JStr ss)"

definition unsigned_json :: "UnsignedBundle \<Rightarrow> json" where
  "unsigned_json i =
     JObj ([(js ''app'', JStr (in_app i)), (js ''version'', JNum (in_version i))]
       @ opt_field ''protocols'' (map_option jstrings (in_protocols i))
       @ opt_field ''services'' (map_option jstrings (in_services i))
       @ [(js ''modules'', JArr (map (\<lambda>(n, _). JObj [(js ''name'', JStr n)]) (in_modules i))),
          (js ''guest'', JObj ([(js ''requires'', jstrings (in_guestRequires i))]
             @ opt_field ''config'' (in_guestConfig i)))])"

definition authorBundle :: "json_codec \<Rightarrow> (jstr \<Rightarrow> jstr) \<Rightarrow> ManifestCrypto \<Rightarrow> HybridAuthorKeys \<Rightarrow>
    UnsignedBundle \<Rightarrow> (bundle_error, AuthoredBundle) result" where
  "authorBundle J stripComments sodium keys input =
     (let guestBytes = utf8Encode (stripComments (in_guestSource input)) in
      case parse J (stringify J (unsigned_json input)) of
        None \<Rightarrow> Inl Manifest_Not_Json
      | Some m \<Rightarrow>
          rbind (validateManifest m) (\<lambda>mv.
            Inr \<lparr>blob = signBundle J sodium keys m guestBytes (map snd (in_modules input)),
                 signed_manifest = mv,
                 signed_author = hybridAuthorId (ManifestVerifier.truncate sodium)
                   (publicKey (kp_ed keys)) (publicKey (kp_mlDsa keys))\<rparr>))"

section \<open>Reading back what was framed\<close>

lemma encodeParts_eq: "encodeParts fs = concat (map (\<lambda>b. u32be (int (length b)) @ b) fs)"
proof -
  have "args_ok (fold args_blob fs a) \<and>
      concat (parts (fold args_blob fs a)) = concat (parts a) @ concat (map (\<lambda>b. u32be (int (length b)) @ b) fs)"
    if "args_ok a" for a
    using that by (induction fs arbitrary: a) simp_all
  from this [of args_new] show ?thesis by (simp add: encodeParts_def args_build_eq)
qed

lemma encodeParts_Cons: "encodeParts (b # fs) = u32be (int (length b)) @ b @ encodeParts fs"
  by (simp add: encodeParts_eq)

lemma encodeParts_Nil: "encodeParts [] = []"
  by (simp add: encodeParts_eq)

lemma reader_next_part:
  assumes "b = pre @ u32be (int (length x)) @ x @ rest" and "length pre = off" and "length x < 2 ^ 32"
  shows "reader_next b off = Inr (x, off + 4 + length x)"
proof -
  have "readU32BE b off = length x"
    using readU32BE_field [OF assms(2,3), of "x @ rest"] by (simp add: assms(1))
  moreover have "subarray b (off + 4) (off + 4 + length x) = x"
    using subarray_middle [of "pre @ u32be (int (length x))" "off + 4" x _ rest] assms(2) by (simp add: assms(1))
  ultimately show ?thesis
    using assms(2) by (simp add: reader_next_def Let_def assms(1))
qed

lemma read_modules_parts:
  assumes "b = pre @ encodeParts ws" and "length pre = off" and "length ns = length ws"
    and "list_all (\<lambda>w. length w < 2 ^ 32) ws"
  shows "read_modules ns b off = Inr (zip ns ws, length b)"
  using assms
proof (induction ns arbitrary: ws pre off)
  case Nil
  then show ?case by (simp add: encodeParts_Nil)
next
  case (Cons n ns)
  then obtain w ws' where ws: "ws = w # ws'" by (cases ws) auto
  let ?pre = "pre @ u32be (int (length w)) @ w"
  have b: "b = ?pre @ encodeParts ws'" using Cons.prems(1) by (simp add: ws encodeParts_Cons)
  have step: "reader_next b off = Inr (w, off + 4 + length w)"
    using Cons.prems by (intro reader_next_part [of _ pre _ "encodeParts ws'"]) (simp_all add: ws encodeParts_Cons)
  have "read_modules ns b (off + 4 + length w) = Inr (zip ns ws', length b)"
    using Cons.prems by (intro Cons.IH [OF b]) (simp_all add: ws)
  then show ?case by (simp add: step ws)
qed

section \<open>What the verifier reads of an authored bundle\<close>

lemma jget_unsigned:
  "jget (unsigned_json i) (js ''app'') = Some (JStr (in_app i))"
  "jget (unsigned_json i) (js ''version'') = Some (JNum (in_version i))"
  "jget (unsigned_json i) (js ''protocols'') = map_option jstrings (in_protocols i)"
  "jget (unsigned_json i) (js ''services'') = map_option jstrings (in_services i)"
  "jget (unsigned_json i) (js ''modules'') = Some (JArr (map (\<lambda>(n, _). JObj [(js ''name'', JStr n)]) (in_modules i)))"
  "\<exists>g. jget (unsigned_json i) (js ''guest'') = Some g \<and> isRecord g \<and>
     jget g (js ''requires'') = Some (jstrings (in_guestRequires i)) \<and> jget g (js ''config'') = in_guestConfig i"
  by (auto simp: unsigned_json_def opt_field_def split: option.splits)

lemma unsigned_modules: "modules (manifest_view (unsigned_json i)) = map fst (in_modules i)"
  by (simp add: manifest_view_def jget_unsigned case_prod_beta comp_def)

text \<open>
  The signing contract: with an author's key pairs, each signature verifies and has its
  scheme's width.
\<close>

definition signs_at :: "ManifestCrypto \<Rightarrow> HybridAuthorKeys \<Rightarrow> bytes \<Rightarrow> bool" where
  "signs_at sodium keys m \<longleftrightarrow>
     (let edSig = crypto_sign_detached sodium m (privateKey (kp_ed keys));
          mlSig = ml_dsa65_sign_detached sodium m (privateKey (kp_mlDsa keys))
      in length edSig = SIG_LEN \<and> crypto_sign_verify_detached sodium edSig m (publicKey (kp_ed keys)) \<and>
         length mlSig = ML_DSA_SIG_LEN \<and>
         (case ml_dsa65_verify_detached sodium of None \<Rightarrow> False | Some verify \<Rightarrow> verify mlSig m (publicKey (kp_mlDsa keys))))"

definition keys_ok :: "HybridAuthorKeys \<Rightarrow> bool" where
  "keys_ok keys \<longleftrightarrow> length (publicKey (kp_ed keys)) = PK_LEN \<and> length (publicKey (kp_mlDsa keys)) = ML_DSA_PK_LEN"

definition author_keys :: "HybridAuthorKeys \<Rightarrow> ManifestAuthorKeys" where
  "author_keys keys = \<lparr>ed = publicKey (kp_ed keys), mlDsa = publicKey (kp_mlDsa keys)\<rparr>"

definition signing_input :: "ManifestCrypto \<Rightarrow> HybridAuthorKeys \<Rightarrow> bytes \<Rightarrow> bytes \<Rightarrow> bytes" where
  "signing_input sodium keys d b =
     envelopeSigningInput (ManifestVerifier.truncate sodium) d (publicKey (kp_ed keys)) (publicKey (kp_mlDsa keys)) b"

lemma verifyEnvelope_signEnvelope:
  assumes "keys_ok keys" and "signs_at sodium keys (signing_input sodium keys d b)"
  shows "verifyEnvelope (ManifestVerifier.truncate sodium) (signEnvelope sodium keys d b) d =
    Inr \<lparr>env_author = hybridAuthorId (ManifestVerifier.truncate sodium) (publicKey (kp_ed keys)) (publicKey (kp_mlDsa keys)),
         env_keys = author_keys keys, env_body = b\<rparr>"
proof -
  obtain verify where "ml_dsa65_verify_detached sodium = Some verify"
    using assms(2) by (auto simp: signs_at_def Let_def split: option.splits)
  then show ?thesis
    using assms unfolding verifyEnvelope_ok signs_at_def keys_ok_def
    by (intro exI [of _ verify] exI [of _ "publicKey (kp_ed keys)"] exI [of _ "publicKey (kp_mlDsa keys)"] exI)
       (auto simp: signEnvelope_def Let_def concatBytes_def ManifestVerifier.truncate_def author_keys_def signing_input_def)
qed

lemma authorBundle_ok:
  assumes "parse J (stringify J (unsigned_json i)) = Some (unsigned_json i)"
  shows "authorBundle J strip sodium keys i = Inr a \<longleftrightarrow>
    (\<exists>mv. validateManifest (unsigned_json i) = Inr mv \<and>
      a = \<lparr>blob = signBundle J sodium keys (unsigned_json i) (utf8Encode (strip (in_guestSource i))) (map snd (in_modules i)),
           signed_manifest = mv, signed_author = hybridAuthorId (ManifestVerifier.truncate sodium)
             (publicKey (kp_ed keys)) (publicKey (kp_mlDsa keys))\<rparr>)"
  using assms by (auto simp: authorBundle_def Let_def result_simps)

lemma unsigned_has_guest: "jget (unsigned_json i) (js ''guest'') \<noteq> None"
  using jget_unsigned(6) [of i] by auto

definition unsigned_view :: "UnsignedBundle \<Rightarrow> BundleManifest" where
  "unsigned_view i =
     \<lparr>app = in_app i, version = the (safe_int (in_version i)), protocols = in_protocols i, services = in_services i,
      modules = map fst (in_modules i), guest = \<lparr>requires = in_guestRequires i, config = in_guestConfig i\<rparr>\<rparr>"

lemma strings_of_jstrings [simp]:
  "strings_of (Some (jstrings ss)) = Some ss" "strings_of (map_option jstrings so) = so"
  by (cases so; simp add: strings_of_def jstrings_def comp_def)+

lemma manifest_view_unsigned: "manifest_view (unsigned_json i) = unsigned_view i"
  using jget_unsigned(6) [of i] unsigned_modules [of i]
  by (auto simp: manifest_view_def unsigned_view_def jget_unsigned(1-5))

lemma modules_ok_unsigned:
  "modules_ok seen (map (\<lambda>(n, _). JObj [(js ''name'', JStr n)]) ms) \<longleftrightarrow>
     distinct (map fst ms) \<and> list_all NAME_RE (map fst ms) \<and> set (map fst ms) \<inter> seen = {}"
proof (induction ms arbitrary: seen)
  case Nil
  then show ?case by simp
next
  case (Cons m ms)
  then show ?case by (cases m) auto
qed

lemma validateManifest_unsigned:
  "validateManifest (unsigned_json i) = Inr mv \<longleftrightarrow>
     safe_int (in_version i) \<noteq> None \<and> manifest_ok (unsigned_view i) \<and> mv = unsigned_view i"
proof -
  have guest: "guest_ok (jget (unsigned_json i) (js ''guest'')) \<longleftrightarrow>
      (case in_guestConfig i of None \<Rightarrow> True | Some c \<Rightarrow> isRecord c)"
    using jget_unsigned(6) [of i] by (auto simp: guest_ok_def jstrings_def list_ex_iff)
  have claims: "claim_list_ok (map_option jstrings so) \<longleftrightarrow> claim_names_ok so" for so
    by (cases so) (auto simp: claim_list_ok_iff jstrings_def strings_of_def list_all_iff comp_def)
  have bound: "n \<le> MAX_SAFE" if "safe_int (in_version i) = Some n" for n
    using num_of_bound [of "Some (JNum (in_version i))"] that by simp
  have "isRecord (unsigned_json i)" by (simp add: unsigned_json_def)
  then have "isValidManifest (unsigned_json i) \<longleftrightarrow> safe_int (in_version i) \<noteq> None \<and> label_ok (in_app i) \<and>
      0 \<le> the (safe_int (in_version i)) \<and> claim_names_ok (in_protocols i) \<and> claim_names_ok (in_services i) \<and>
      length (in_modules i) \<le> DEFAULT_MAX_BUNDLE_MODULES \<and> distinct (map fst (in_modules i)) \<and>
      list_all NAME_RE (map fst (in_modules i)) \<and> (case in_guestConfig i of None \<Rightarrow> True | Some c \<Rightarrow> isRecord c)"
    by (auto simp: isValidManifest_def jget_unsigned(1-5) app_ok_def label_ok_def claims guest modules_ok_unsigned
        split: option.splits)
  then show ?thesis
    using bound by (auto simp: validateManifest_iff manifest_view_unsigned manifest_ok_def unsigned_view_def)
qed

text \<open>What a signed body reads back as, whoever built it.\<close>

lemma verifyBundle_signBundle:
  assumes keys: "keys_ok keys" "signs_at sodium keys (signing_input sodium keys DOMAIN_MANIFEST (encodeBundleBody J m g ws))"
    and m: "parse J (stringify J m) = Some m" "isWellFormed (stringify J m)" "validateManifest m = Inr mv"
    and ws: "length ws = length (modules mv)" "list_all (\<lambda>w. length w < 2 ^ 32) (encodeManifest J m # g # ws)"
  shows "verifyBundle J (ManifestVerifier.truncate sodium) (signBundle J sodium keys m g ws) =
    Inr \<lparr>author = hybridAuthorId (ManifestVerifier.truncate sodium) (publicKey (kp_ed keys)) (publicKey (kp_mlDsa keys)),
         authorKeys = author_keys keys, manifest = mv, guestSource = utf8Decode g, module_wasm = zip (modules mv) ws\<rparr>"
proof -
  let ?m = "encodeManifest J m"
  let ?body = "encodeBundleBody J m g ws"
  have body: "?body = u32be (int (length ?m)) @ ?m @ u32be (int (length g)) @ g @ encodeParts ws"
    by (simp add: encodeBundleBody_def encodeParts_Cons)
  have r1: "reader_next ?body 0 = Inr (?m, 4 + length ?m)"
    using reader_next_part [of ?body "[]" ?m _ 0] ws(2) by (simp add: body)
  have r2: "reader_next ?body (4 + length ?m) = Inr (g, 8 + length ?m + length g)"
    using reader_next_part [of ?body "u32be (int (length ?m)) @ ?m" g "encodeParts ws"] ws(2) by (simp add: body)
  have r3: "read_modules (modules mv) ?body (8 + length ?m + length g) = Inr (zip (modules mv) ws, length ?body)"
    using read_modules_parts [of ?body "u32be (int (length ?m)) @ ?m @ u32be (int (length g)) @ g" ws _ "modules mv"]
      ws by (simp add: body add.assoc)
  have p: "parse J (utf8Decode ?m) = Some m"
    using m by (simp add: encodeManifest_def utf8_roundtrip)
  have "jget m (js ''guest'') \<noteq> None"
    using m(3) by (auto simp: validateManifest_iff isValidManifest_def guest_ok_def split: option.splits)
  then show ?thesis
    unfolding verifyBundle_def signBundle_def verifyEnvelope_signEnvelope [OF keys]
    by (simp add: r1 r2 r3 p m(3) reader_done_def)
qed

text \<open>
  C2: an authored bundle verifies. Whenever \<open>authorBundle\<close> signs an input, \<open>verifyBundle\<close>
  accepts the blob and returns the author's id and keys, the manifest that was validated, the
  stripped guest source and every module's bytes under its name. It assumes that the signing
  primitives produce verifiable signatures of their widths, that \<open>JSON.parse\<close> inverts
  \<open>JSON.stringify\<close> on the manifest, and that each part's length fits its 32-bit field.
\<close>

theorem verifyBundle_authorBundle:
  assumes "authorBundle J strip sodium keys i = Inr a"
    and "keys_ok keys" and "\<forall>m. signs_at sodium keys m"
    and json: "parse J (stringify J (unsigned_json i)) = Some (unsigned_json i)"
    and wf: "isWellFormed (stringify J (unsigned_json i))"
    and small: "list_all (\<lambda>w. length w < 2 ^ 32)
      (encodeManifest J (unsigned_json i) # utf8Encode (strip (in_guestSource i)) # map snd (in_modules i))"
  shows "verifyBundle J (ManifestVerifier.truncate sodium) (blob a) =
    Inr \<lparr>author = signed_author a, authorKeys = author_keys keys, manifest = signed_manifest a,
         guestSource = toWellFormed (strip (in_guestSource i)), module_wasm = in_modules i\<rparr>"
proof -
  obtain mv where mv: "validateManifest (unsigned_json i) = Inr mv" and a: "signed_manifest a = mv"
    "blob a = signBundle J sodium keys (unsigned_json i) (utf8Encode (strip (in_guestSource i))) (map snd (in_modules i))"
    "signed_author a = hybridAuthorId (ManifestVerifier.truncate sodium) (publicKey (kp_ed keys)) (publicKey (kp_mlDsa keys))"
    using assms(1) by (auto simp: authorBundle_ok [OF json])
  have names: "modules mv = map fst (in_modules i)"
    using mv by (simp add: validateManifest_iff unsigned_modules)
  show ?thesis
    unfolding a using verifyBundle_signBundle [OF assms(2) assms(3) [rule_format] json wf mv _ small]
    by (simp add: names zip_map_fst_snd utf8Decode_utf8Encode)
qed

text \<open>A concrete author: constant signatures of the right widths, and a one-manifest codec.\<close>

definition demo_input :: UnsignedBundle where
  "demo_input = \<lparr>in_app = js ''notes'', in_version = Fin 3, in_protocols = Some [js ''notes/sync''], in_services = None,
     in_modules = [(js ''index'', [1, 2, 3]), (js ''rank'', [])], in_guestSource = js ''x=1'',
     in_guestRequires = [js ''fs'', js ''_net''], in_guestConfig = None\<rparr>"

definition demo_codec :: json_codec where
  "demo_codec = \<lparr>parse = (\<lambda>_. Some (unsigned_json demo_input)), stringify = (\<lambda>_. js ''{}'')\<rparr>"

definition demo_keys :: HybridAuthorKeys where
  "demo_keys = \<lparr>kp_ed = \<lparr>publicKey = replicate PK_LEN 7, privateKey = []\<rparr>,
     kp_mlDsa = \<lparr>publicKey = replicate ML_DSA_PK_LEN 9, privateKey = []\<rparr>\<rparr>"

text \<open>A verifier that accepts a constant signature over the messages \<open>ok\<close> admits.\<close>

definition demo_crypto :: "(bytes \<Rightarrow> bool) \<Rightarrow> ManifestCrypto" where
  "demo_crypto ok = \<lparr>crypto_sign_verify_detached = (\<lambda>sig m pk. sig = replicate SIG_LEN 5 \<and> ok m),
     crypto_generichash = (\<lambda>n m k. replicate n (of_nat (length m))),
     ml_dsa65_verify_detached = Some (\<lambda>sig m pk. sig = replicate ML_DSA_SIG_LEN 6 \<and> ok m),
     crypto_sign_detached = (\<lambda>m sk. replicate SIG_LEN 5),
     ml_dsa65_sign_detached = (\<lambda>m sk. replicate ML_DSA_SIG_LEN 6)\<rparr>"

lemma demo_keys_ok: "keys_ok demo_keys"
  by (simp add: keys_ok_def demo_keys_def)

lemma demo_signs: "ok m \<Longrightarrow> signs_at (demo_crypto ok) demo_keys m"
  by (simp add: signs_at_def demo_crypto_def Let_def)

lemma demo_json:
  "parse demo_codec (stringify demo_codec (unsigned_json demo_input)) = Some (unsigned_json demo_input)"
  "isWellFormed (stringify demo_codec (unsigned_json demo_input))"
  by (simp_all add: demo_codec_def isWellFormed_ascii is_ascii_def js_eval)

lemma demo_small:
  "list_all (\<lambda>w. length w < 2 ^ 32)
     (encodeManifest demo_codec (unsigned_json demo_input) # utf8Encode (id (in_guestSource demo_input)) #
      map snd (in_modules demo_input))"
  by (simp add: encodeManifest_def demo_codec_def demo_input_def utf8Encode_ascii is_ascii_def js_eval)

lemma demo_valid: "validateManifest (unsigned_json demo_input) = Inr (unsigned_view demo_input)"
proof -
  have "label_ok (js ''notes'')"
    by (simp add: label_ok_def isWellFormed_ascii utf8Encode_ascii is_ascii_def UNSAFE_LABEL_def js_eval)
  then have "manifest_ok (unsigned_view demo_input)"
    by (simp add: manifest_ok_def unsigned_view_def demo_input_def MAX_SAFE_def claim_names_ok_def CLAIM_RE_def NAME_RE_def
        is_alnum_def DEFAULT_MAX_BUNDLE_MODULES_def reach_ok_def isService_iff isHostNamespace_def name_head_def js_eval)
  then show ?thesis
    by (auto simp: validateManifest_unsigned demo_input_def MAX_SAFE_def)
qed

theorem verifyBundle_authorBundle_witness:
  "\<exists>a v. authorBundle demo_codec id (demo_crypto (\<lambda>_. True)) demo_keys demo_input = Inr a \<and>
     verifyBundle demo_codec (ManifestVerifier.truncate (demo_crypto (\<lambda>_. True))) (blob a) = Inr v \<and>
     module_wasm v = [(js ''index'', [1, 2, 3]), (js ''rank'', [])] \<and> guestSource v = toWellFormed (js ''x=1'')"
proof -
  obtain a where a: "authorBundle demo_codec id (demo_crypto (\<lambda>_. True)) demo_keys demo_input = Inr a"
    using demo_valid by (auto simp: authorBundle_ok [OF demo_json(1)])
  from verifyBundle_authorBundle [OF a demo_keys_ok _ demo_json demo_small] demo_signs a show ?thesis
    by (simp add: demo_input_def)
qed

section \<open>Authenticity\<close>

lemma verifyBundle_envelope:
  assumes "verifyBundle J sodium env = Inr v"
  obtains ve where "verifyEnvelope sodium env DOMAIN_MANIFEST = Inr ve" "env_keys ve = authorKeys v"
    "env_author ve = author v"
  using assms by (auto simp: verifyBundle_def result_simps split: option.splits if_splits)

text \<open>
  C1: an accepted bundle is one its author released as a bundle. Let \<open>Signed\<close> hold the messages
  the author's keys ever signed, all of them envelope inputs for the released pairs of domain
  and body. If at least one of the two signature schemes is unforgeable for the keys in the
  envelope, and the body's hash collides with no other released body's, then the accepted
  body was released under the manifest domain: no altered body, no host blob and no half-forged
  hybrid signature is accepted.
\<close>

theorem verifyBundle_authentic:
  assumes acc: "verifyBundle J sodium env = Inr v"
    and unforgeable: "(\<forall>sig m. crypto_sign_verify_detached sodium sig m (ed (authorKeys v)) \<longrightarrow> m \<in> Signed) \<or>
      (\<forall>verify sig m. ml_dsa65_verify_detached sodium = Some verify \<longrightarrow>
         verify sig m (mlDsa (authorKeys v)) \<longrightarrow> m \<in> Signed)"
    and signed: "\<forall>m\<in>Signed. \<exists>(d, b)\<in>Released. d \<in> set DOMAINS \<and>
      m = envelopeSigningInput sodium d (ed (authorKeys v)) (mlDsa (authorKeys v)) b"
    and collision_free: "\<forall>(d, b)\<in>Released. genesisHash sodium b = genesisHash sodium (drop OFF_BODY env) \<longrightarrow>
      b = drop OFF_BODY env"
  shows "(DOMAIN_MANIFEST, drop OFF_BODY env) \<in> Released"
proof -
  obtain ve where ve: "verifyEnvelope sodium env DOMAIN_MANIFEST = Inr ve" "env_keys ve = authorKeys v"
    using verifyBundle_envelope [OF acc] by metis
  let ?in = "envelopeSigningInput sodium DOMAIN_MANIFEST (ed (authorKeys v)) (mlDsa (authorKeys v)) (env_body ve)"
  from ve obtain mlVerify edSig mlSig where ml: "ml_dsa65_verify_detached sodium = Some mlVerify"
    and env: "env = SUITE_MANIFEST_HYBRID_PQ # ed (authorKeys v) @ mlDsa (authorKeys v) @ edSig @ mlSig @ env_body ve"
    and len: "length (ed (authorKeys v)) = PK_LEN" "length (mlDsa (authorKeys v)) = ML_DSA_PK_LEN"
      "length edSig = SIG_LEN" "length mlSig = ML_DSA_SIG_LEN"
    and sigs: "crypto_sign_verify_detached sodium edSig ?in (ed (authorKeys v))" "mlVerify mlSig ?in (mlDsa (authorKeys v))"
    unfolding verifyEnvelope_ok by (metis ManifestAuthorKeys.select_convs VerifiedEnvelope.select_convs(2))
  have body: "drop OFF_BODY env = env_body ve"
    using len by (simp add: env OFF_BODY_eq PK_LEN_def SIG_LEN_def ML_DSA_PK_LEN_def ML_DSA_SIG_LEN_def)
  have "?in \<in> Signed" using unforgeable sigs ml by blast
  then obtain d b where db: "(d, b) \<in> Released" "d \<in> set DOMAINS"
    "?in = envelopeSigningInput sodium d (ed (authorKeys v)) (mlDsa (authorKeys v)) b"
    using signed by fastforce
  have "DOMAIN_MANIFEST = d \<and> genesisHash sodium (env_body ve) = genesisHash sodium b"
    using signing_input_inj [OF _ db(2) len(1) len(1) len(2) len(2) db(3)] by simp
  with db(1) collision_free body show ?thesis by fastforce
qed

definition demo_body :: bytes where
  "demo_body = encodeBundleBody demo_codec (unsigned_json demo_input) [] [[1], []]"

definition demo_message :: bytes where
  "demo_message = signing_input (demo_crypto (\<lambda>_. True)) demo_keys DOMAIN_MANIFEST demo_body"

definition demo_env :: bytes where
  "demo_env = signEnvelope (demo_crypto (\<lambda>m. m = demo_message)) demo_keys DOMAIN_MANIFEST demo_body"

lemma demo_message_eq:
  "signing_input (demo_crypto ok) demo_keys DOMAIN_MANIFEST demo_body = demo_message"
  by (simp add: demo_message_def signing_input_def envelopeSigningInput_def genesisHash_def
      demo_crypto_def ManifestVerifier.truncate_def)

lemma demo_accepted:
  "\<exists>v. verifyBundle demo_codec (ManifestVerifier.truncate (demo_crypto (\<lambda>m. m = demo_message))) demo_env = Inr v \<and>
     authorKeys v = author_keys demo_keys"
proof -
  let ?c = "demo_crypto (\<lambda>m. m = demo_message)"
  have s: "signs_at ?c demo_keys (signing_input ?c demo_keys DOMAIN_MANIFEST
      (encodeBundleBody demo_codec (unsigned_json demo_input) [] [[1], []]))"
    by (rule demo_signs) (simp only: demo_message_eq demo_body_def [symmetric])
  have "length [[1 :: byte], []] = length (modules (unsigned_view demo_input))"
    by (simp add: unsigned_view_def demo_input_def)
  moreover have "list_all (\<lambda>w. length w < 2 ^ 32) (encodeManifest demo_codec (unsigned_json demo_input) # [] # [[1], []])"
    using demo_small by simp
  ultimately show ?thesis
    using verifyBundle_signBundle [OF demo_keys_ok s demo_json demo_valid]
    by (simp add: demo_env_def demo_body_def signBundle_def)
qed

lemma drop_signEnvelope:
  "drop OFF_BODY (signEnvelope (demo_crypto ok) demo_keys d b) = b"
  by (simp add: signEnvelope_def Let_def concatBytes_def demo_crypto_def demo_keys_def OFF_BODY_eq
      PK_LEN_def SIG_LEN_def ML_DSA_PK_LEN_def ML_DSA_SIG_LEN_def)

theorem verifyBundle_authentic_witness:
  "(DOMAIN_MANIFEST, drop OFF_BODY demo_env) \<in> {(DOMAIN_MANIFEST, demo_body)}"
proof -
  let ?s = "ManifestVerifier.truncate (demo_crypto (\<lambda>m. m = demo_message))"
  obtain v where v: "verifyBundle demo_codec ?s demo_env = Inr v" "authorKeys v = author_keys demo_keys"
    using demo_accepted by blast
  have m: "demo_message = envelopeSigningInput ?s DOMAIN_MANIFEST (ed (authorKeys v)) (mlDsa (authorKeys v)) demo_body"
    using demo_message_eq [of "\<lambda>m. m = demo_message"] by (simp add: v signing_input_def author_keys_def)
  have u: "crypto_sign_verify_detached ?s sig m k \<longrightarrow> m \<in> {demo_message}" for sig m k
    by (simp add: demo_crypto_def ManifestVerifier.truncate_def)
  have b: "drop OFF_BODY demo_env = demo_body"
    by (simp add: demo_env_def drop_signEnvelope)
  show ?thesis
    by (rule verifyBundle_authentic [OF v(1), of "{demo_message}"]) (use u m b in \<open>auto\<close>)
qed

end
