(* ===== verification/Host_Blob.thy ===== *)
theory Host_Blob
  imports Bundle_Author
begin

text \<open>
  \<^verbatim>\<open>WASM/host/host-blob.ts\<close>: the signed host blob a loader runs, its parse, and the check a
  running host makes of its successor; and \<open>signHostBlob\<close> of \<^verbatim>\<open>WASM/scripts/bundle-author.ts\<close>.
\<close>

section \<open>The blob\<close>

record HostManifest =
  host_version :: int
  host_abi :: int

record HostParts =
  part_script :: bytes
  part_qjs :: bytes
  part_sodium :: bytes
  part_mldsa :: bytes
  part_transport :: bytes

record HostBlob =
  hb_manifest :: HostManifest
  hb_parts :: HostParts

datatype host_error =
    Host_Envelope bundle_error | Host_Not_Json | Host_Manifest | Host_Author bytes
  | Host_Abi int | Host_Not_Newer int int

definition HOST_PART_NAMES :: "jstr list" where
  "HOST_PART_NAMES = [js ''script'', js ''qjs'', js ''sodium'', js ''mldsa'', js ''transport'']"

definition TRANSPORT_SERVICE :: jstr where
  "TRANSPORT_SERVICE = js ''_net''"

definition lift_err :: "('e \<Rightarrow> 'f) \<Rightarrow> ('e, 'a) result \<Rightarrow> ('f, 'a) result" where
  "lift_err f m = (case m of Inl e \<Rightarrow> Inl (f e) | Inr x \<Rightarrow> Inr x)"

definition parts_of :: "(jstr \<times> bytes) list \<Rightarrow> HostParts" where
  "parts_of ps =
     (let part = (\<lambda>n. case map_of ps (js n) of Some b \<Rightarrow> b | None \<Rightarrow> [])
      in \<lparr>part_script = part ''script'', part_qjs = part ''qjs'', part_sodium = part ''sodium'',
          part_mldsa = part ''mldsa'', part_transport = part ''transport''\<rparr>)"

text \<open>
  One part per name, in order, by the reader the modules of a bundle are read with. The manifest
  is read inside a \<open>try\<close>, so a truncated first part is reported as a manifest that
  is not JSON.
\<close>

definition parseBody :: "json_codec \<Rightarrow> bytes \<Rightarrow> (host_error, HostBlob) result" where
  "parseBody J b =
     (case reader_next b 0 of
        Inl _ \<Rightarrow> Inl Host_Not_Json
      | Inr (tx, off) \<Rightarrow>
          (case parse J (utf8Decode tx) of
             None \<Rightarrow> Inl Host_Not_Json
           | Some m \<Rightarrow>
               (case (isRecord m, num_of (jget m (js ''version'')), num_of (jget m (js ''abi''))) of
                  (True, Some v, Some a) \<Rightarrow>
                    if v < 1 \<or> a < 1 then Inl Host_Manifest
                    else rbind (lift_err Host_Envelope (read_modules HOST_PART_NAMES b off)) (\<lambda>(ps, off).
                           if \<not> reader_done b off then Inl (Host_Envelope Trailing_Bytes)
                           else Inr \<lparr>hb_manifest = \<lparr>host_version = v, host_abi = a\<rparr>, hb_parts = parts_of ps\<rparr>)
                | _ \<Rightarrow> Inl Host_Manifest)))"

definition readHostBlob :: "json_codec \<Rightarrow> bytes \<Rightarrow> (host_error, HostBlob) result" where
  "readHostBlob J env = rbind (lift_err Host_Envelope (envelopeBody env)) (parseBody J)"

definition verifyHostBlob :: "json_codec \<Rightarrow> ManifestVerifier \<Rightarrow> bytes \<Rightarrow> (host_error, bytes \<times> HostBlob) result" where
  "verifyHostBlob J crypto env =
     rbind (lift_err Host_Envelope (verifyEnvelope crypto env DOMAIN_HOST)) (\<lambda>ve.
     rbind (parseBody J (env_body ve)) (\<lambda>h. Inr (env_author ve, h)))"

definition checkStagedHost :: "json_codec \<Rightarrow> ManifestVerifier \<Rightarrow> bytes \<Rightarrow> int \<Rightarrow> bytes \<Rightarrow> (host_error, unit) result" where
  "checkStagedHost J crypto running abi env =
     rbind (verifyHostBlob J crypto running) (\<lambda>(selfAuthor, self).
     rbind (verifyHostBlob J crypto env) (\<lambda>(author', h).
       if toHex author' \<noteq> toHex selfAuthor then Inl (Host_Author author')
       else if host_abi (hb_manifest h) \<noteq> abi then Inl (Host_Abi (host_abi (hb_manifest h)))
       else if host_version (hb_manifest h) \<le> host_version (hb_manifest self)
       then Inl (Host_Not_Newer (host_version (hb_manifest h)) (host_version (hb_manifest self)))
       else Inr ()))"

section \<open>Signing\<close>

definition host_json :: "HostManifest \<Rightarrow> json" where
  "host_json m = JObj [(js ''version'', jint (host_version m)), (js ''abi'', jint (host_abi m))]"

definition part_list :: "HostParts \<Rightarrow> bytes list" where
  "part_list p = [part_script p, part_qjs p, part_sodium p, part_mldsa p, part_transport p]"

definition signHostBlob :: "json_codec \<Rightarrow> ManifestCrypto \<Rightarrow> HybridAuthorKeys \<Rightarrow> HostManifest \<Rightarrow> HostParts \<Rightarrow> bytes" where
  "signHostBlob J sodium keys m p =
     signEnvelope sodium keys DOMAIN_HOST (encodeParts ([utf8Encode (stringify J (host_json m))] @ part_list p))"

section \<open>Facts\<close>

lemma lift_err_simps [simp]:
  "lift_err f (Inl e) = Inl (f e)" "lift_err f (Inr x) = Inr x"
  "lift_err f m = Inr y \<longleftrightarrow> m = Inr y"
  by (simp_all add: lift_err_def split: sum.splits)

lemma readHostBlob_verified:
  assumes "verifyHostBlob J crypto env = Inr (a, h)"
  shows "readHostBlob J env = Inr h"
proof -
  obtain ve where ve: "verifyEnvelope crypto env DOMAIN_HOST = Inr ve" "parseBody J (env_body ve) = Inr h"
    using assms by (auto simp: verifyHostBlob_def result_simps)
  have "envelopeBody env = Inr (env_body ve)"
    using ve(1) by (auto simp: verifyEnvelope_def Let_def result_simps split: if_splits)
  with ve(2) show ?thesis by (simp add: readHostBlob_def)
qed

lemma parseBody_version:
  "parseBody J b = Inr h \<Longrightarrow> 1 \<le> host_version (hb_manifest h) \<and> 1 \<le> host_abi (hb_manifest h)"
  by (auto simp: parseBody_def result_simps split: sum.splits option.splits bool.splits if_splits prod.splits)

lemma verifyHostBlob_envelope:
  assumes "verifyHostBlob J crypto env = Inr (a, h)"
  obtains ve where "verifyEnvelope crypto env DOMAIN_HOST = Inr ve" "a = env_author ve"
  using assms by (auto simp: verifyHostBlob_def result_simps)

lemma parts_of_list: "parts_of (zip HOST_PART_NAMES (part_list ps)) = ps"
  by (cases ps) (simp add: parts_of_def HOST_PART_NAMES_def part_list_def Let_def)

lemma parseBody_encodeParts:
  assumes "parse J (utf8Decode tx) = Some (host_json m)"
    and m: "1 \<le> host_version m" "host_version m \<le> MAX_SAFE" "1 \<le> host_abi m" "host_abi m \<le> MAX_SAFE"
    and small: "length tx < 2 ^ 32" "list_all (\<lambda>p. length p < 2 ^ 32) (part_list ps)"
  shows "parseBody J (encodeParts (tx # part_list ps)) = Inr \<lparr>hb_manifest = m, hb_parts = ps\<rparr>"
proof -
  let ?b = "encodeParts (tx # part_list ps)"
  have "reader_next ?b 0 = Inr (tx, 4 + length tx)"
    using reader_next_part [of ?b "[]" tx "encodeParts (part_list ps)" 0] small(1) by (simp add: encodeParts_Cons)
  moreover have "read_modules HOST_PART_NAMES ?b (4 + length tx) = Inr (zip HOST_PART_NAMES (part_list ps), length ?b)"
    using read_modules_parts [of ?b "u32be (int (length tx)) @ tx" "part_list ps" "4 + length tx" HOST_PART_NAMES] small(2)
    by (simp add: encodeParts_Cons HOST_PART_NAMES_def part_list_def)
  ultimately show ?thesis
    using assms(1) m by (simp add: parseBody_def host_json_def jint_def reader_done_def parts_of_list)
qed

text \<open>
  C31: a signed host blob verifies and splits back into its parts. What \<open>signHostBlob\<close> writes,
  \<open>verifyHostBlob\<close> accepts under the author's id, and both it and the loader's unauthenticated
  \<open>readHostBlob\<close> return the manifest and the five parts that were signed.
\<close>

theorem verifyHostBlob_signHostBlob:
  assumes "keys_ok keys" and "\<forall>m. signs_at sodium keys m"
    and "parse J (stringify J (host_json m)) = Some (host_json m)" and "isWellFormed (stringify J (host_json m))"
    and "1 \<le> host_version m" and "host_version m \<le> MAX_SAFE" and "1 \<le> host_abi m" and "host_abi m \<le> MAX_SAFE"
    and "list_all (\<lambda>p. length p < 2 ^ 32) (utf8Encode (stringify J (host_json m)) # part_list ps)"
  shows "verifyHostBlob J (ManifestVerifier.truncate sodium) (signHostBlob J sodium keys m ps) =
      Inr (hybridAuthorId (ManifestVerifier.truncate sodium) (publicKey (kp_ed keys)) (publicKey (kp_mlDsa keys)),
           \<lparr>hb_manifest = m, hb_parts = ps\<rparr>) \<and>
    readHostBlob J (signHostBlob J sodium keys m ps) = Inr \<lparr>hb_manifest = m, hb_parts = ps\<rparr>"
proof -
  let ?tx = "utf8Encode (stringify J (host_json m))"
  have "parseBody J (encodeParts (?tx # part_list ps)) = Inr \<lparr>hb_manifest = m, hb_parts = ps\<rparr>"
    using assms by (intro parseBody_encodeParts) (simp_all add: utf8_roundtrip)
  then have v: "verifyHostBlob J (ManifestVerifier.truncate sodium) (signHostBlob J sodium keys m ps) =
      Inr (hybridAuthorId (ManifestVerifier.truncate sodium) (publicKey (kp_ed keys)) (publicKey (kp_mlDsa keys)),
           \<lparr>hb_manifest = m, hb_parts = ps\<rparr>)"
    unfolding verifyHostBlob_def signHostBlob_def verifyEnvelope_signEnvelope [OF assms(1) assms(2) [rule_format]]
    by simp
  then show ?thesis using readHostBlob_verified by blast
qed

definition demo_host :: HostManifest where
  "demo_host = \<lparr>host_version = 4, host_abi = 1\<rparr>"

definition demo_host_parts :: HostParts where
  "demo_host_parts = \<lparr>part_script = [1], part_qjs = [2, 2], part_sodium = [], part_mldsa = [3], part_transport = [4]\<rparr>"

definition demo_host_codec :: json_codec where
  "demo_host_codec = \<lparr>parse = (\<lambda>_. Some (host_json demo_host)), stringify = (\<lambda>_. js ''{}'')\<rparr>"

theorem verifyHostBlob_signHostBlob_witness:
  "readHostBlob demo_host_codec (signHostBlob demo_host_codec (demo_crypto (\<lambda>_. True)) demo_keys demo_host demo_host_parts) =
     Inr \<lparr>hb_manifest = demo_host, hb_parts = demo_host_parts\<rparr>"
  by (rule verifyHostBlob_signHostBlob [OF demo_keys_ok, THEN conjunct2])
     (simp_all add: demo_signs demo_host_codec_def demo_host_def demo_host_parts_def part_list_def MAX_SAFE_def
       isWellFormed_ascii utf8Encode_ascii is_ascii_def js_eval)

text \<open>
  C30: a staged host is its own author's, for this loader, and newer. Whatever blob passes
  \<open>checkStagedHost\<close> carries both signatures under the host domain, has the running host's author
  id, the loader's ABI and a version strictly above the running host's; and the loader, which
  reads the blob without checking signatures, reads that same version and ABI.
\<close>

theorem checkStagedHost_sound:
  assumes "checkStagedHost J crypto running abi env = Inr ()"
  shows "\<exists>a self h. verifyHostBlob J crypto running = Inr (a, self) \<and> verifyHostBlob J crypto env = Inr (a, h) \<and>
    readHostBlob J env = Inr h \<and> host_abi (hb_manifest h) = abi \<and>
    host_version (hb_manifest self) < host_version (hb_manifest h)"
proof -
  obtain a self a' h where v: "verifyHostBlob J crypto running = Inr (a, self)" "verifyHostBlob J crypto env = Inr (a', h)"
    and c: "a' = a" "host_abi (hb_manifest h) = abi" "host_version (hb_manifest self) < host_version (hb_manifest h)"
    using assms by (auto simp: checkStagedHost_def result_simps split: if_splits)
  from readHostBlob_verified [OF v(2)] v c show ?thesis by auto
qed

definition demo_two_codec :: json_codec where
  "demo_two_codec = \<lparr>parse = (\<lambda>s. Some (host_json \<lparr>host_version = int (length s), host_abi = 1\<rparr>)),
     stringify = (\<lambda>j. case num_of (jget j (js ''version'')) of Some n \<Rightarrow> replicate (nat n) 65 | None \<Rightarrow> [])\<rparr>"

lemma demo_two_signed:
  assumes "n = 4 \<or> n = 5"
  shows "verifyHostBlob demo_two_codec (ManifestVerifier.truncate (demo_crypto (\<lambda>_. True)))
      (signHostBlob demo_two_codec (demo_crypto (\<lambda>_. True)) demo_keys \<lparr>host_version = n, host_abi = 1\<rparr> demo_host_parts) =
    Inr (hybridAuthorId (ManifestVerifier.truncate (demo_crypto (\<lambda>_. True))) (publicKey (kp_ed demo_keys)) (publicKey (kp_mlDsa demo_keys)),
         \<lparr>hb_manifest = \<lparr>host_version = n, host_abi = 1\<rparr>, hb_parts = demo_host_parts\<rparr>)"
proof -
  let ?m = "\<lparr>host_version = n, host_abi = 1\<rparr>"
  let ?tx = "utf8Encode (stringify demo_two_codec (host_json ?m))"
  have n: "num_of (Some (jint n)) = Some n" "1 \<le> n" "n \<le> MAX_SAFE"
    using assms by (auto simp: MAX_SAFE_def)
  have s: "stringify demo_two_codec (host_json ?m) = replicate (nat n) 65"
    using n by (simp add: demo_two_codec_def host_json_def)
  have a: "is_ascii (replicate (nat n) 65)" by (simp add: is_ascii_def list_all_iff)
  have d: "utf8Decode ?tx = replicate (nat n) 65"
    using utf8_roundtrip [OF isWellFormed_ascii [OF a]] by (simp add: s)
  have p: "parse demo_two_codec (utf8Decode ?tx) = Some (host_json ?m)"
    using n(2) unfolding d by (simp add: demo_two_codec_def)
  have "parseBody demo_two_codec (encodeParts (?tx # part_list demo_host_parts)) = Inr \<lparr>hb_manifest = ?m, hb_parts = demo_host_parts\<rparr>"
    using n assms by (intro parseBody_encodeParts [OF p])
      (auto simp: s utf8Encode_ascii [OF a] MAX_SAFE_def demo_host_parts_def part_list_def)
  then show ?thesis
    unfolding verifyHostBlob_def signHostBlob_def verifyEnvelope_signEnvelope [OF demo_keys_ok demo_signs [OF TrueI]]
    by simp
qed

theorem checkStagedHost_sound_witness:
  "\<exists>h. readHostBlob demo_two_codec (signHostBlob demo_two_codec (demo_crypto (\<lambda>_. True)) demo_keys
       \<lparr>host_version = 5, host_abi = 1\<rparr> demo_host_parts) = Inr h \<and> host_abi (hb_manifest h) = 1"
proof -
  have "checkStagedHost demo_two_codec (ManifestVerifier.truncate (demo_crypto (\<lambda>_. True)))
     (signHostBlob demo_two_codec (demo_crypto (\<lambda>_. True)) demo_keys \<lparr>host_version = 4, host_abi = 1\<rparr> demo_host_parts) 1
     (signHostBlob demo_two_codec (demo_crypto (\<lambda>_. True)) demo_keys \<lparr>host_version = 5, host_abi = 1\<rparr> demo_host_parts) = Inr ()"
    by (simp add: checkStagedHost_def demo_two_signed)
  from checkStagedHost_sound [OF this] show ?thesis by blast
qed

end
