(* ===== verification/Loader.thy ===== *)
theory Loader
  imports Host_Blob
begin

text \<open>
  \<^verbatim>\<open>WASM/host/slots.ts\<close>: the loader's flags, the choice of the host blob each boot runs, and the
  trial that commits a staged blob or drops it. The loader's files are a map from paths to bytes;
  each call takes the outcomes of its own file operations (\<open>io\<close>), so a theorem holds whichever
  of them fail. A failed write leaves the file as it was (the interface's \<open>write\<close> is atomic). Log
  lines are not modelled.
\<close>

section \<open>Flags\<close>

definition DEFAULT_DIR :: jstr where
  "DEFAULT_DIR = js ''./data''"

definition PLATFORM_ABI :: int where
  "PLATFORM_ABI = 1"

definition MAX_BLOB_BYTES :: nat where
  "MAX_BLOB_BYTES = 64 * 2 ^ 20"

record LoaderFlags =
  rest :: "jstr list"
  hostFile :: "jstr option"
  updates :: jstr

datatype loader_error =
    Flag_Needs_Value jstr | Bad_Update_Mode jstr | Bad_Health_Ms | Host_File_Missing | Host_File_Abi
  | Host_File_Broken host_error | Genesis_Broken host_error | Read_Failed | Committed_Broken
  | Updates_Off | Staged_Broken host_error | Stage_Write_Failed

definition startsWith :: "jstr \<Rightarrow> jstr \<Rightarrow> bool" where
  "startsWith s p \<longleftrightarrow> take (length p) s = p"

text \<open>The name of a \<open>--name\<close> or \<open>--name=value\<close> argument, empty for any other.\<close>

definition flag_name :: "jstr \<Rightarrow> jstr" where
  "flag_name a = (if startsWith a (js ''--'') then takeWhile (\<lambda>c. c \<noteq> 61) (drop 2 a) else [])"

definition flag_value :: "jstr \<Rightarrow> jstr option" where
  "flag_value a = (if 61 \<in> set a then Some (drop 1 (dropWhile (\<lambda>c. c \<noteq> 61) a)) else None)"

definition set_flag :: "jstr \<Rightarrow> jstr \<Rightarrow> LoaderFlags \<Rightarrow> LoaderFlags" where
  "set_flag name value out =
     (if name = js ''host'' then out\<lparr>hostFile := Some value\<rparr> else out\<lparr>updates := value\<rparr>)"

fun flags_loop :: "jstr list \<Rightarrow> LoaderFlags \<Rightarrow> (loader_error, LoaderFlags) result" where
  "flags_loop [] out = Inr out"
| "flags_loop (a # argv) out =
     (let name = flag_name a in
      if name \<noteq> js ''host'' \<and> name \<noteq> js ''host-updates'' then flags_loop argv (out\<lparr>rest := rest out @ [a]\<rparr>)
      else case flag_value a of
             Some v \<Rightarrow> flags_loop argv (set_flag name v out)
           | None \<Rightarrow> (case argv of
                        [] \<Rightarrow> Inl (Flag_Needs_Value name)
                      | v # argv' \<Rightarrow> flags_loop argv' (set_flag name v out)))"

definition loaderFlags :: "jstr list \<Rightarrow> (loader_error, LoaderFlags) result" where
  "loaderFlags argv = flags_loop argv \<lparr>rest = [], hostFile = None, updates = js ''off''\<rparr>"

fun without_op_after :: "jstr option \<Rightarrow> jstr list \<Rightarrow> jstr list" where
  "without_op_after prev [] = []"
| "without_op_after prev (a # args) =
     (if a \<noteq> js ''--op'' \<and> \<not> startsWith a (js ''--op='') \<and> prev \<noteq> Some (js ''--op'')
      then a # without_op_after (Some a) args else without_op_after (Some a) args)"

definition withoutOp :: "jstr list \<Rightarrow> jstr list" where
  "withoutOp args = without_op_after None args"

fun dataDirOf :: "jstr list \<Rightarrow> jstr" where
  "dataDirOf [] = DEFAULT_DIR"
| "dataDirOf (a # args) =
     (if a = js ''--dir'' \<and> args \<noteq> [] then hd args
      else if startsWith a (js ''--dir='') then drop 6 a
      else dataDirOf args)"

section \<open>State\<close>

record BlobSlot =
  env :: bytes
  bversion :: int

type_synonym files = "jstr \<rightharpoonup> bytes"

record io =
  read_fails :: "jstr \<Rightarrow> bool"
  write_fails :: "jstr \<Rightarrow> bool"
  remove_fails :: "jstr \<Rightarrow> bool"
  mkdir_fails :: bool

record Loader =
  hostArgs :: "jstr list"
  windowMs :: jsnum
  fixed :: "bytes option"
  mode :: jstr
  dir :: jstr
  genesis :: BlobSlot
  trial :: "BlobSlot option"
  serving :: bool
  bootAfterFlow :: bool
  gen :: nat
  files :: files
  timers :: "nat list"

definition file_read :: "io \<Rightarrow> files \<Rightarrow> jstr \<Rightarrow> (loader_error, bytes option) result" where
  "file_read x fs p =
     (case fs p of
        None \<Rightarrow> if read_fails x p then Inl Read_Failed else Inr None
      | Some b \<Rightarrow> if read_fails x p \<or> MAX_BLOB_BYTES < length b then Inl Read_Failed else Inr (Some b))"

definition file_remove :: "io \<Rightarrow> jstr \<Rightarrow> files \<Rightarrow> files" where
  "file_remove x p fs = (if remove_fails x p then fs else fs(p := None))"

definition strip_slashes :: "jstr \<Rightarrow> jstr" where
  "strip_slashes s = rev (dropWhile (\<lambda>c. c = 47 \<or> c = 92) (rev s))"

text \<open>
  The constructor. \<open>to_number\<close> is JavaScript's \<open>Number(s)\<close> on the health window's text; an unset or
  empty text keeps the default.
\<close>

definition nonneg :: "jsnum \<Rightarrow> bool" where
  "nonneg n = (case n of Fin q \<Rightarrow> 0 \<le> q | PosInf \<Rightarrow> True | _ \<Rightarrow> False)"

definition new_Loader :: "json_codec \<Rightarrow> (jstr \<Rightarrow> jsnum) \<Rightarrow> io \<Rightarrow> files \<Rightarrow> jstr list \<Rightarrow> bytes \<Rightarrow> jstr option \<Rightarrow>
    (loader_error, Loader) result" where
  "new_Loader J to_number x fs argv gen' healthMs =
     rbind (loaderFlags argv) (\<lambda>flags.
       if updates flags \<notin> {js ''off'', js ''next'', js ''now''} then Inl (Bad_Update_Mode (updates flags))
       else
         let w = (case healthMs of None \<Rightarrow> Fin 30000 | Some t \<Rightarrow> if t = [] then Fin 30000 else to_number t)
         in if \<not> nonneg w then Inl Bad_Health_Ms
            else rbind (case hostFile flags of
                     None \<Rightarrow> Inr (None, updates flags)
                   | Some f \<Rightarrow>
                       rbind (file_read x fs f) (\<lambda>raw. case raw of
                           None \<Rightarrow> Inl Host_File_Missing
                         | Some b \<Rightarrow> rbind (lift_err Host_File_Broken (readHostBlob J b)) (\<lambda>h.
                             if host_abi (hb_manifest h) \<noteq> PLATFORM_ABI then Inl Host_File_Abi
                             else Inr (Some b, js ''off'')))) (\<lambda>(fixed', mode').
                 rbind (lift_err Genesis_Broken (readHostBlob J gen')) (\<lambda>g.
                   Inr \<lparr>hostArgs = rest flags, windowMs = w, fixed = fixed', mode = mode',
                        dir = strip_slashes (dataDirOf (rest flags)) @ js ''.host'',
                        genesis = \<lparr>env = gen', bversion = host_version (hb_manifest g)\<rparr>,
                        trial = None, serving = False, bootAfterFlow = False, gen = 0, files = fs, timers = []\<rparr>)))"

section \<open>Operations\<close>

definition path :: "string \<Rightarrow> Loader \<Rightarrow> jstr" where
  "path name L = dir L @ js ''/'' @ js name"

text \<open>The blob of one slot's bytes, when it is one and is for this loader's ABI.\<close>

definition blob_slot :: "json_codec \<Rightarrow> bytes \<Rightarrow> (host_error, BlobSlot option) result" where
  "blob_slot J b = rbind (readHostBlob J b) (\<lambda>h.
     Inr (if host_abi (hb_manifest h) = PLATFORM_ABI
          then Some \<lparr>env = b, bversion = host_version (hb_manifest h)\<rparr> else None))"

definition load :: "json_codec \<Rightarrow> io \<Rightarrow> string \<Rightarrow> Loader \<Rightarrow> (loader_error, BlobSlot option) result" where
  "load J x name L =
     (let broken = (if name = ''committed.skb'' then Inl Committed_Broken else Inr None) in
      case file_read x (files L) (path name L) of
        Inl _ \<Rightarrow> broken
      | Inr None \<Rightarrow> Inr None
      | Inr (Some raw) \<Rightarrow> (case blob_slot J raw of Inl _ \<Rightarrow> broken | Inr s \<Rightarrow> Inr s))"

definition base :: "json_codec \<Rightarrow> io \<Rightarrow> Loader \<Rightarrow> (loader_error, BlobSlot) result" where
  "base J x L = rbind (load J x ''committed.skb'' L) (\<lambda>c. Inr (case c of
     Some c' \<Rightarrow> if bversion (genesis L) < bversion c' then c' else genesis L
   | None \<Rightarrow> genesis L))"

definition clearPending :: "io \<Rightarrow> Loader \<Rightarrow> Loader" where
  "clearPending x L =
     L\<lparr>files := file_remove x (path ''tried'' L) (file_remove x (path ''pending.skb'' L) (files L))\<rparr>"

definition discard :: "io \<Rightarrow> Loader \<Rightarrow> Loader" where
  "discard x L = (clearPending x L)\<lparr>trial := None\<rparr>"

definition choose_boot :: "json_codec \<Rightarrow> io \<Rightarrow> Loader \<Rightarrow> (loader_error, bytes) result \<times> Loader" where
  "choose_boot J x L0 =
     (let L = L0\<lparr>serving := False\<rparr> in
      case fixed L of
        Some b \<Rightarrow> (Inr b, L)
      | None \<Rightarrow>
          let L = L\<lparr>gen := gen L + 1, trial := None\<rparr> in
          case base J x L of
            Inl e \<Rightarrow> (Inl e, L)
          | Inr b \<Rightarrow>
              if files L (path ''pending.skb'' L) = None then (Inr (env b), L)
              else if files L (path ''tried'' L) \<noteq> None then (Inr (env b), discard x L)
              else
                (case load J x ''pending.skb'' L of
                   Inr (Some p) \<Rightarrow>
                     if bversion p \<le> bversion b then (Inr (env b), discard x L)
                     else if write_fails x (path ''tried'' L) then (Inr (env b), L)
                     else (Inr (env p), L\<lparr>files := (files L)(path ''tried'' L \<mapsto> []), trial := Some p\<rparr>)
                 | _ \<Rightarrow> (Inr (env b), discard x L)))"

definition holdsPending :: "json_codec \<Rightarrow> io \<Rightarrow> BlobSlot \<Rightarrow> Loader \<Rightarrow> bool" where
  "holdsPending J x s L =
     (case load J x ''pending.skb'' L of Inr (Some p) \<Rightarrow> bversion p = bversion s | _ \<Rightarrow> False)"

definition failed :: "json_codec \<Rightarrow> io \<Rightarrow> Loader \<Rightarrow> bool \<times> Loader" where
  "failed J x L =
     (case trial L of
        None \<Rightarrow> (False, L)
      | Some t \<Rightarrow> if holdsPending J x t L then (True, discard x L) else (True, L\<lparr>trial := None\<rparr>))"

definition ended :: "io \<Rightarrow> bool \<Rightarrow> Loader \<Rightarrow> bool \<times> Loader" where
  "ended x serving' L0 =
     (let again = serving' \<and> bootAfterFlow L0;
          L = L0\<lparr>hostArgs := withoutOp (hostArgs L0), bootAfterFlow := False, serving := serving' \<and> \<not> again\<rparr>
      in (again,
          if trial L \<noteq> None \<and> \<not> serving'
          then L\<lparr>files := file_remove x (path ''tried'' L) (files L), trial := None\<rparr>
          else if trial L \<noteq> None \<and> \<not> again then L\<lparr>timers := timers L @ [gen L]\<rparr>
          else L))"

definition commit_trial :: "json_codec \<Rightarrow> io \<Rightarrow> nat \<Rightarrow> Loader \<Rightarrow> Loader" where
  "commit_trial J x g L =
     (case trial L of
        None \<Rightarrow> L
      | Some t \<Rightarrow>
          if gen L \<noteq> g then L
          else if write_fails x (path ''committed.skb'' L) then L
          else let L = L\<lparr>files := (files L)(path ''committed.skb'' L \<mapsto> env t)\<rparr>;
                   L = (if holdsPending J x t L then clearPending x L else L)
               in L\<lparr>trial := None\<rparr>)"

definition stage :: "json_codec \<Rightarrow> io \<Rightarrow> bytes \<Rightarrow> Loader \<Rightarrow> (loader_error, bool) result \<times> Loader" where
  "stage J x e L =
     (if mode L = js ''off'' then (Inl Updates_Off, L)
      else case readHostBlob J e of
             Inl err \<Rightarrow> (Inl (Staged_Broken err), L)
           | Inr _ \<Rightarrow>
               if mkdir_fails x \<or> write_fails x (path ''pending.skb'' L) then (Inl Stage_Write_Failed, L)
               else let L = L\<lparr>files := file_remove x (path ''tried'' L) ((files L)(path ''pending.skb'' L \<mapsto> e))\<rparr>
                    in if mode L \<noteq> js ''now'' then (Inr False, L)
                       else (Inr (serving L), if serving L then L else L\<lparr>bootAfterFlow := True\<rparr>))"

section \<open>The floor\<close>

text \<open>The version a slot file holds, when its bytes are a blob for this loader.\<close>

definition slot_at :: "json_codec \<Rightarrow> files \<Rightarrow> jstr \<Rightarrow> BlobSlot option" where
  "slot_at J fs p = (case fs p of
     None \<Rightarrow> None
   | Some b \<Rightarrow> if MAX_BLOB_BYTES < length b then None
               else (case blob_slot J b of Inr s \<Rightarrow> s | Inl _ \<Rightarrow> None))"

definition floor_at :: "json_codec \<Rightarrow> BlobSlot \<Rightarrow> bytes option \<Rightarrow> int" where
  "floor_at J g committed = (case slot_at J (\<lambda>_. committed) [] of
     None \<Rightarrow> bversion g | Some c \<Rightarrow> max (bversion g) (bversion c))"

definition floor_of :: "json_codec \<Rightarrow> Loader \<Rightarrow> int" where
  "floor_of J L = floor_at J (genesis L) (files L (path ''committed.skb'' L))"

definition blob_version :: "json_codec \<Rightarrow> bytes \<Rightarrow> int option" where
  "blob_version J b = (case readHostBlob J b of Inr h \<Rightarrow> Some (host_version (hb_manifest h)) | Inl _ \<Rightarrow> None)"

text \<open>What holds of a loader between its calls.\<close>

definition loader_ok :: "json_codec \<Rightarrow> Loader \<Rightarrow> bool" where
  "loader_ok J L \<longleftrightarrow> blob_version J (env (genesis L)) = Some (bversion (genesis L)) \<and>
     (case trial L of None \<Rightarrow> True
      | Some p \<Rightarrow> length (env p) \<le> MAX_BLOB_BYTES \<and> blob_slot J (env p) = Inr (Some p) \<and> floor_of J L < bversion p)"

lemma path_neq [simp]:
  "path ''pending.skb'' L \<noteq> path ''committed.skb'' L" "path ''committed.skb'' L \<noteq> path ''pending.skb'' L"
  "path ''tried'' L \<noteq> path ''committed.skb'' L" "path ''committed.skb'' L \<noteq> path ''tried'' L"
  "path ''tried'' L \<noteq> path ''pending.skb'' L" "path ''pending.skb'' L \<noteq> path ''tried'' L"
  by (simp_all add: path_def)

lemma path_cong: "dir L' = dir L \<Longrightarrow> path n L' = path n L"
  by (simp add: path_def)

lemma path_update [simp]:
  "path n (L\<lparr>trial := t\<rparr>) = path n L" "path n (L\<lparr>serving := s\<rparr>) = path n L" "path n (L\<lparr>gen := g\<rparr>) = path n L"
  "path n (L\<lparr>timers := ts\<rparr>) = path n L" "path n (L\<lparr>bootAfterFlow := b\<rparr>) = path n L"
  "path n (L\<lparr>hostArgs := h\<rparr>) = path n L" "path n (L\<lparr>files := fs\<rparr>) = path n L"
  by (simp_all add: path_def)

lemma floor_cong:
  "dir L' = dir L \<Longrightarrow> genesis L' = genesis L \<Longrightarrow>
     files L' (path ''committed.skb'' L) = files L (path ''committed.skb'' L) \<Longrightarrow> floor_of J L' = floor_of J L"
  by (simp add: floor_of_def path_def)

lemma slot_at_file: "slot_at J (\<lambda>_. fs p) q = slot_at J fs p"
  by (simp add: slot_at_def)

lemma file_remove_other: "p \<noteq> q \<Longrightarrow> file_remove x p fs q = fs q"
  by (simp add: file_remove_def)

lemma load_committed:
  "load J x ''committed.skb'' L = Inr c \<Longrightarrow> c = slot_at J (files L) (path ''committed.skb'' L)"
  by (auto simp: load_def file_read_def slot_at_def Let_def split: option.splits if_splits sum.splits)

lemma load_pending:
  "load J x ''pending.skb'' L = Inr (Some p) \<Longrightarrow>
     length (env p) \<le> MAX_BLOB_BYTES \<and> blob_slot J (env p) = Inr (Some p)"
  by (auto simp: load_def file_read_def blob_slot_def Let_def result_simps split: option.splits if_splits sum.splits)

lemma blob_slot_version: "blob_slot J b = Inr (Some p) \<Longrightarrow> env p = b \<and> blob_version J b = Some (bversion p)"
  by (auto simp: blob_slot_def blob_version_def result_simps split: if_splits)

lemma slot_at_version: "slot_at J fs p = Some c \<Longrightarrow> blob_version J (env c) = Some (bversion c)"
  by (auto simp: slot_at_def split: option.splits if_splits sum.splits dest: blob_slot_version)

lemma base_floor:
  assumes "base J x L = Inr b" and "blob_version J (env (genesis L)) = Some (bversion (genesis L))"
  shows "bversion b = floor_of J L" and "blob_version J (env b) = Some (bversion b)"
proof -
  obtain c where c: "load J x ''committed.skb'' L = Inr c"
    "b = (case c of Some c' \<Rightarrow> if bversion (genesis L) < bversion c' then c' else genesis L | None \<Rightarrow> genesis L)"
    using assms(1) by (auto simp: base_def result_simps)
  note s = load_committed [OF c(1)]
  show "bversion b = floor_of J L"
    using c(2) by (auto simp: floor_of_def floor_at_def slot_at_file s [symmetric] split: option.splits)
  show "blob_version J (env b) = Some (bversion b)"
    using c(2) assms(2) slot_at_version s by (auto split: option.splits if_splits)
qed

text \<open>A boot has something to run whenever the committed slot can be read.\<close>

lemma choose_boot_answers:
  assumes "fixed L = None" and "load J x ''committed.skb'' (L\<lparr>serving := False, gen := gen L + 1, trial := None\<rparr>) = Inr c"
  shows "\<exists>e L'. choose_boot J x L = (Inr e, L')"
  using assms by (auto simp: choose_boot_def base_def Let_def split: sum.splits option.splits)

text \<open>What one boot's choice is, and what it leaves behind.\<close>

lemma choose_boot_cases:
  assumes ok: "blob_version J (env (genesis L)) = Some (bversion (genesis L))" and none: "fixed L = None"
    and ch: "choose_boot J x L = (Inr e, L')"
  obtains (base) b where "base J x (L\<lparr>serving := False, gen := gen L + 1, trial := None\<rparr>) = Inr b" "e = env b"
      "trial L' = None" "blob_version J e = Some (floor_of J L)" "floor_of J L' = floor_of J L"
  | (pending) p where "trial L' = Some p" "e = env p" "floor_of J L < bversion p" "blob_slot J (env p) = Inr (Some p)"
      "length (env p) \<le> MAX_BLOB_BYTES" "files L (path ''tried'' L) = None" "files L' (path ''tried'' L) = Some []"
      "files L' (path ''pending.skb'' L) = files L (path ''pending.skb'' L)" "files L (path ''pending.skb'' L) \<noteq> None"
      "floor_of J L' = floor_of J L"
proof -
  let ?L = "L\<lparr>serving := False, gen := gen L + 1, trial := None\<rparr>"
  have fl: "floor_of J ?L = floor_of J L" by (rule floor_cong) simp_all
  obtain b where b: "base J x ?L = Inr b"
    using ch none by (auto simp: choose_boot_def Let_def split: sum.splits)
  have v: "bversion b = floor_of J L" "blob_version J (env b) = Some (floor_of J L)"
    using base_floor [OF b] ok fl by simp_all
  have fd: "floor_of J (discard x ?L) = floor_of J L"
    by (rule floor_cong) (simp_all add: discard_def clearPending_def file_remove_def path_def)
  show thesis
  proof (cases "trial L'")
    case None
    have "L' = ?L \<or> L' = discard x ?L" "e = env b"
      using ch none b None by (auto simp: choose_boot_def Let_def split: if_splits sum.splits option.splits)
    then show thesis using base [OF b] v None fl fd by auto
  next
    case (Some q)
    have q: "load J x ''pending.skb'' ?L = Inr (Some q)" "e = env q" "\<not> bversion q \<le> bversion b"
      "files L (path ''tried'' L) = None" "files L (path ''pending.skb'' L) \<noteq> None"
      "L' = ?L\<lparr>files := (files L)(path ''tried'' L \<mapsto> []), trial := Some q\<rparr>"
      using ch none b Some by (auto simp: choose_boot_def Let_def discard_def split: if_splits sum.splits option.splits)
    have "floor_of J L' = floor_of J L"
      by (rule floor_cong) (simp_all add: q(6))
    then show thesis
      using pending [OF Some q(2)] q v load_pending [OF q(1)] by simp
  qed
qed

section \<open>The loader over time\<close>

text \<open>A new loader on the files the last one left: what a restart or a crash comes to.\<close>

definition restart :: "Loader \<Rightarrow> Loader" where
  "restart L = L\<lparr>trial := None, serving := False, bootAfterFlow := False, gen := 0, timers := []\<rparr>"

definition write_committed :: "BlobSlot \<Rightarrow> Loader \<Rightarrow> Loader" where
  "write_committed t L = L\<lparr>files := (files L)(path ''committed.skb'' L \<mapsto> env t)\<rparr>"

text \<open>
  The last rule is a crash inside \<open>commit_trial\<close>, between the write of the committed slot and
  the removal of the pending one.
\<close>

inductive loader_step :: "json_codec \<Rightarrow> Loader \<Rightarrow> Loader \<Rightarrow> bool" for J where
  choose: "loader_step J L (snd (choose_boot J x L))"
| failed: "loader_step J L (snd (failed J x L))"
| ended: "loader_step J L (snd (ended x s L))"
| window: "g \<in> set (timers L) \<Longrightarrow> loader_step J L (commit_trial J x g L)"
| stage: "loader_step J L (snd (stage J x e L))"
| restart: "loader_step J L (restart L)"
| crash: "trial L = Some t \<Longrightarrow> loader_step J L (restart (write_committed t L))"

lemma write_committed_floor:
  assumes "loader_ok J L" and "trial L = Some t"
  shows "floor_of J (write_committed t L) = bversion t" and "floor_of J L \<le> bversion t"
  using assms by (auto simp: loader_ok_def write_committed_def floor_of_def floor_at_def slot_at_def path_def split: option.splits)

lemma loader_ok_floor_eq:
  "loader_ok J L \<Longrightarrow> genesis L' = genesis L \<Longrightarrow> floor_of J L' = floor_of J L \<Longrightarrow> trial L' = None \<or> trial L' = trial L \<Longrightarrow>
     loader_ok J L'"
  by (auto simp: loader_ok_def split: option.splits)

lemma clearPending_simps [simp]:
  "genesis (clearPending x L) = genesis L" "dir (clearPending x L) = dir L" "trial (clearPending x L) = trial L"
  "floor_of J (clearPending x L) = floor_of J L"
  by (simp_all add: clearPending_def floor_of_def file_remove_def path_def)

lemma floor_update [simp]:
  "floor_of J (L\<lparr>trial := t\<rparr>) = floor_of J L" "floor_of J (L\<lparr>serving := s\<rparr>) = floor_of J L"
  "floor_of J (L\<lparr>gen := g\<rparr>) = floor_of J L" "floor_of J (L\<lparr>timers := ts\<rparr>) = floor_of J L"
  "floor_of J (L\<lparr>bootAfterFlow := b\<rparr>) = floor_of J L" "floor_of J (L\<lparr>hostArgs := h\<rparr>) = floor_of J L"
  by (simp_all add: floor_of_def path_def)

lemma floor_tried [simp]:
  "floor_of J (L\<lparr>files := file_remove x (path ''tried'' L) (files L)\<rparr>) = floor_of J L"
  by (rule floor_cong) (simp_all add: file_remove_other)

lemma commit_trial_floor:
  assumes "loader_ok J L"
  shows "loader_ok J (commit_trial J x g L) \<and> floor_of J L \<le> floor_of J (commit_trial J x g L)"
proof (cases "trial L")
  case None
  then show ?thesis using assms by (simp add: commit_trial_def)
next
  case (Some t)
  note w = write_committed_floor [OF assms Some]
  let ?L = "write_committed t L"
  have "commit_trial J x g L = L \<or>
      commit_trial J x g L = (if holdsPending J x t ?L then clearPending x ?L else ?L)\<lparr>trial := None\<rparr>"
    by (auto simp: commit_trial_def Some write_committed_def Let_def)
  then show ?thesis
  proof
    assume "commit_trial J x g L = L"
    then show ?thesis using assms by simp
  next
    assume "commit_trial J x g L = (if holdsPending J x t ?L then clearPending x ?L else ?L)\<lparr>trial := None\<rparr>"
    moreover have "genesis ?L = genesis L" by (simp add: write_committed_def)
    ultimately show ?thesis using assms w by (simp add: loader_ok_def)
  qed
qed

lemma choose_boot_trial:
  assumes "loader_ok J L"
  shows "genesis (snd (choose_boot J x L)) = genesis L \<and> floor_of J (snd (choose_boot J x L)) = floor_of J L \<and>
    (trial (snd (choose_boot J x L)) = None \<or> trial (snd (choose_boot J x L)) = trial L \<or>
     (\<exists>p. trial (snd (choose_boot J x L)) = Some p \<and> length (env p) \<le> MAX_BLOB_BYTES \<and>
        blob_slot J (env p) = Inr (Some p) \<and> floor_of J L < bversion p))"
proof -
  have gen: "blob_version J (env (genesis L)) = Some (bversion (genesis L))"
    using assms by (simp add: loader_ok_def)
  have g: "genesis (snd (choose_boot J x L)) = genesis L"
    by (auto simp: choose_boot_def Let_def discard_def split: option.splits sum.splits)
  consider (fixed) f where "fixed L = Some f" | (err) er where "fixed L = None" "fst (choose_boot J x L) = Inl er"
    | (ok) e where "fixed L = None" "fst (choose_boot J x L) = Inr e"
    by (cases "fixed L"; cases "fst (choose_boot J x L)") auto
  then show ?thesis
  proof cases
    case fixed
    then show ?thesis by (simp add: choose_boot_def)
  next
    case err
    then have "snd (choose_boot J x L) = L\<lparr>serving := False, gen := gen L + 1, trial := None\<rparr>"
      by (auto simp: choose_boot_def Let_def split: sum.splits option.splits if_splits)
    then show ?thesis by simp
  next
    case ok
    then have "choose_boot J x L = (Inr e, snd (choose_boot J x L))" by (cases "choose_boot J x L") simp
    from choose_boot_cases [OF gen ok(1) this] show ?thesis using g by cases auto
  qed
qed

lemma choose_boot_ok:
  assumes "loader_ok J L"
  shows "loader_ok J (snd (choose_boot J x L)) \<and> floor_of J L \<le> floor_of J (snd (choose_boot J x L))"
  using choose_boot_trial [OF assms, of x] assms by (auto simp: loader_ok_def split: option.splits)

lemma loader_step_floor:
  assumes "loader_step J L L'" and "loader_ok J L"
  shows "loader_ok J L' \<and> floor_of J L \<le> floor_of J L'"
  using assms(1)
proof (cases rule: loader_step.cases)
  case (choose x)
  then show ?thesis using choose_boot_ok [OF assms(2)] by simp
next
  case (failed x)
  have "floor_of J L' = floor_of J L" "genesis L' = genesis L" "trial L' = None"
    by (auto simp: failed failed_def discard_def split: option.splits)
  then show ?thesis using loader_ok_floor_eq assms(2) by simp
next
  case (ended x s)
  have "floor_of J L' = floor_of J L" "genesis L' = genesis L" "trial L' = None \<or> trial L' = trial L"
    by (auto simp: ended ended_def Let_def) (simp_all add: floor_of_def file_remove_def path_def)
  then show ?thesis using loader_ok_floor_eq assms(2) by simp
next
  case (window g x)
  then show ?thesis using commit_trial_floor assms(2) by simp
next
  case (stage x e)
  have "floor_of J L' = floor_of J L" "genesis L' = genesis L" "trial L' = trial L"
    by (auto simp: stage stage_def Let_def split: sum.splits) (simp_all add: floor_of_def file_remove_def path_def)
  then show ?thesis using loader_ok_floor_eq assms(2) by simp
next
  case restart
  then show ?thesis using assms(2) by (simp add: loader_ok_def restart_def)
next
  case (crash t)
  have "floor_of J L' = floor_of J (write_committed t L)" by (simp add: crash restart_def)
  then show ?thesis
    using write_committed_floor [OF assms(2) crash(2)] assms(2)
    by (auto simp: loader_ok_def crash restart_def write_committed_def)
qed

section \<open>A concrete loader\<close>

text \<open>A loader on genesis version 4 with version 5 pending.\<close>

definition demo_blob :: "int \<Rightarrow> bytes" where
  "demo_blob n = signHostBlob demo_two_codec (demo_crypto (\<lambda>_. True)) demo_keys \<lparr>host_version = n, host_abi = 1\<rparr> demo_host_parts"

definition demo_loader :: Loader where
  "demo_loader = \<lparr>hostArgs = [], windowMs = Fin 0, fixed = None, mode = js ''now'', dir = js ''d'',
     genesis = \<lparr>env = demo_blob 4, bversion = 4\<rparr>, trial = None, serving = False, bootAfterFlow = False, gen = 0,
     files = [js ''d'' @ js ''/'' @ js ''pending.skb'' \<mapsto> demo_blob 5], timers = []\<rparr>"

definition demo_io :: io where
  "demo_io = \<lparr>read_fails = (\<lambda>_. False), write_fails = (\<lambda>_. False), remove_fails = (\<lambda>_. False), mkdir_fails = False\<rparr>"

lemma demo_blob_read:
  "n = 4 \<or> n = 5 \<Longrightarrow> readHostBlob demo_two_codec (demo_blob n) =
     Inr \<lparr>hb_manifest = \<lparr>host_version = n, host_abi = 1\<rparr>, hb_parts = demo_host_parts\<rparr>"
  unfolding demo_blob_def by (rule readHostBlob_verified [OF demo_two_signed])

lemma demo_blob_small: "length (demo_blob 5) \<le> MAX_BLOB_BYTES"
proof -
  have a: "is_ascii (replicate 5 65)" by (simp add: is_ascii_def list_all_iff)
  have "num_of (Some (jint 5)) = Some 5" by (simp add: MAX_SAFE_def)
  then have "stringify demo_two_codec (host_json \<lparr>host_version = 5, host_abi = 1\<rparr>) = replicate 5 65"
    by (simp add: demo_two_codec_def host_json_def)
  then have "length (utf8Encode (stringify demo_two_codec (host_json \<lparr>host_version = 5, host_abi = 1\<rparr>))) = 5"
    by (simp add: utf8Encode_ascii [OF a])
  then show ?thesis
    by (simp add: demo_blob_def signHostBlob_def signEnvelope_def encodeParts_eq Let_def concatBytes_def demo_keys_def
        demo_crypto_def part_list_def demo_host_parts_def MAX_BLOB_BYTES_def PK_LEN_def ML_DSA_PK_LEN_def SIG_LEN_def
        ML_DSA_SIG_LEN_def)
qed

lemma demo_slot5: "blob_slot demo_two_codec (demo_blob 5) = Inr (Some \<lparr>env = demo_blob 5, bversion = 5\<rparr>)"
  by (simp add: blob_slot_def demo_blob_read PLATFORM_ABI_def)

lemma demo_loader_ok: "loader_ok demo_two_codec demo_loader" "fixed demo_loader = None"
  by (simp_all add: loader_ok_def demo_loader_def blob_version_def demo_blob_read)

lemma demo_choose:
  "\<exists>L'. choose_boot demo_two_codec demo_io demo_loader = (Inr (demo_blob 5), L') \<and>
     trial L' = Some \<lparr>env = demo_blob 5, bversion = 5\<rparr> \<and> files L' (path ''committed.skb'' demo_loader) = None \<and>
     dir L' = dir demo_loader \<and> fixed L' = None \<and> genesis L' = genesis demo_loader"
proof -
  have p: "path n demo_loader = js ''d'' @ js ''/'' @ js n" for n by (simp add: path_def demo_loader_def)
  have f: "files demo_loader = [js ''d'' @ js ''/'' @ js ''pending.skb'' \<mapsto> demo_blob 5]" "fixed demo_loader = None"
    "genesis demo_loader = \<lparr>env = demo_blob 4, bversion = 4\<rparr>"
    by (simp_all add: demo_loader_def)
  show ?thesis
    using demo_blob_small
    by (simp add: choose_boot_def Let_def base_def load_def file_read_def f p demo_io_def demo_slot5)
qed

section \<open>Properties\<close>

text \<open>
  the loader never boots a host below its floor. Whatever \<open>choose_boot\<close> answers, unless the
  operator named a blob, is a readable host blob whose version is at least the floor: the higher of
  the genesis blob's version and the committed one's. When it is above the floor it is the pending
  blob, untried until now, and the mark that it has been tried is on disk before it boots.
\<close>

theorem boot_respects_floor:
  assumes "loader_ok J L" and "fixed L = None" and "choose_boot J x L = (Inr e, L')"
  shows "\<exists>v. blob_version J e = Some v \<and> floor_of J L \<le> v \<and>
    (floor_of J L < v \<longrightarrow> files L (path ''tried'' L) = None \<and> files L' (path ''tried'' L) \<noteq> None \<and>
       trial L' = Some \<lparr>env = e, bversion = v\<rparr>)"
proof -
  have gen: "blob_version J (env (genesis L)) = Some (bversion (genesis L))"
    using assms(1) by (simp add: loader_ok_def)
  show ?thesis
  proof (cases rule: choose_boot_cases [OF gen assms(2,3), case_names base pending])
    case (base b)
    then show ?thesis by simp
  next
    case (pending p)
    then show ?thesis using blob_slot_version [OF pending(4)] by (cases p) auto
  qed
qed

theorem boot_respects_floor_witness:
  "\<exists>v. blob_version demo_two_codec (demo_blob 5) = Some v \<and> floor_of demo_two_codec demo_loader \<le> v"
proof -
  obtain L' where "choose_boot demo_two_codec demo_io demo_loader = (Inr (demo_blob 5), L')"
    using demo_choose by blast
  from boot_respects_floor [OF demo_loader_ok this] show ?thesis by blast
qed



text \<open>
  C5: the floor never drops. Over every sequence of boots, failures, ended flows, health windows,
  stagings, restarts and crashes, including a crash between the commit's write and the removal of
  the pending blob, and with any of the file operations failing, the loader's floor only rises.
\<close>

theorem floor_never_drops:
  assumes "(loader_step J)\<^sup>*\<^sup>* L L'" and "loader_ok J L"
  shows "loader_ok J L' \<and> floor_of J L \<le> floor_of J L'"
  using assms
proof (induction rule: rtranclp_induct)
  case base
  then show ?case by simp
next
  case (step M M')
  then show ?case using loader_step_floor [OF step.hyps(2)] by fastforce
qed

theorem floor_never_drops_witness:
  "floor_of demo_two_codec demo_loader \<le>
     floor_of demo_two_codec (restart (snd (choose_boot demo_two_codec demo_io demo_loader)))"
proof -
  have "(loader_step demo_two_codec)\<^sup>*\<^sup>* demo_loader (restart (snd (choose_boot demo_two_codec demo_io demo_loader)))"
    by (meson loader_step.choose loader_step.restart r_into_rtranclp rtranclp.rtrancl_into_rtrancl)
  from floor_never_drops [OF this demo_loader_ok(1)] show ?thesis by blast
qed

end
