(* ===== verification/Fs.thy ===== *)
theory Fs
  imports Bundle
begin

text \<open>
  \<^verbatim>\<open>WASM/services/fs.ts\<close>: the key rule, one app's view of a backend, and the \<open>fs\<close> handlers. A backend
  is a record of its operations over its own state, as the source's \<open>Fs\<close> interface is; the
  locale \<open>fs_store\<close> states what a backend promises, and the views are proved to keep the promise.
\<close>

section \<open>The seam\<close>

datatype fs_error = Unsafe_Key jstr | Unsafe_Scope jstr | Backend_Failed | Malformed_Payload

record FsStat =
  stat_used :: int
  stat_available :: int

definition FS_AVAILABLE_UNKNOWN :: int where
  "FS_AVAILABLE_UNKNOWN = MAX_SAFE"

text \<open>Reads do not change a backend; a put, a delete and a stat may (they scan first).\<close>

record 's Fs =
  fs_get :: "jstr \<Rightarrow> 's \<Rightarrow> (fs_error, bytes option) result"
  fs_put :: "jstr \<Rightarrow> bytes \<Rightarrow> 's \<Rightarrow> (fs_error, unit) result \<times> 's"
  fs_size :: "jstr \<Rightarrow> 's \<Rightarrow> (fs_error, int) result"
  fs_list :: "jstr option \<Rightarrow> 's \<Rightarrow> (fs_error, jstr list) result"
  fs_delete :: "jstr \<Rightarrow> 's \<Rightarrow> (fs_error, bool) result \<times> 's"
  fs_stat :: "'s \<Rightarrow> (fs_error, FsStat) result \<times> 's"

section \<open>The key rule\<close>

definition safe_char :: "16 word \<Rightarrow> bool" where
  "safe_char c \<longleftrightarrow> is_alnum c \<or> c = 46 \<or> c = 95 \<or> c = 45"

definition SAFE_CHARS :: "jstr \<Rightarrow> bool" where
  "SAFE_CHARS s \<longleftrightarrow> s \<noteq> [] \<and> list_all safe_char s"

definition RESERVED_DEVICE_NAMES :: "jstr list" where
  "RESERVED_DEVICE_NAMES = [js ''CON'', js ''PRN'', js ''AUX'', js ''NUL''] @
     concat (map (\<lambda>i. [js ''COM'' @ [48 + of_nat i], js ''LPT'' @ [48 + of_nat i]]) [0..<10])"

definition upper_unit :: "16 word \<Rightarrow> 16 word" where
  "upper_unit c = (if 97 \<le> c \<and> c \<le> 122 then c - 32 else c)"

definition isReservedDeviceName :: "jstr \<Rightarrow> bool" where
  "isReservedDeviceName key \<longleftrightarrow> map upper_unit (takeWhile (\<lambda>c. c \<noteq> 46) key) \<in> set RESERVED_DEVICE_NAMES"

definition isSafeFsKey :: "jstr \<Rightarrow> bool" where
  "isSafeFsKey key \<longleftrightarrow> key \<noteq> js ''.'' \<and> key \<noteq> js ''..'' \<and> SAFE_CHARS key \<and> \<not> isReservedDeviceName key"

definition isSafeFsScope :: "jstr \<Rightarrow> bool" where
  "isSafeFsScope scope \<longleftrightarrow> SAFE_CHARS scope"

section \<open>One app's view\<close>

definition checked :: "jstr \<Rightarrow> ('s \<Rightarrow> (fs_error, 'a) result) \<Rightarrow> 's \<Rightarrow> (fs_error, 'a) result" where
  "checked key f s = (if isSafeFsKey key then f s else Inl (Unsafe_Key key))"

definition checked_upd :: "jstr \<Rightarrow> ('s \<Rightarrow> (fs_error, 'a) result \<times> 's) \<Rightarrow> 's \<Rightarrow> (fs_error, 'a) result \<times> 's" where
  "checked_upd key f s = (if isSafeFsKey key then f s else (Inl (Unsafe_Key key), s))"

definition validatedFs :: "'s Fs \<Rightarrow> 's Fs" where
  "validatedFs inner =
     \<lparr>fs_get = (\<lambda>key. checked key (fs_get inner key)),
      fs_put = (\<lambda>key b. checked_upd key (fs_put inner key b)),
      fs_size = (\<lambda>key. checked key (fs_size inner key)),
      fs_list = fs_list inner,
      fs_delete = (\<lambda>key. checked_upd key (fs_delete inner key)),
      fs_stat = fs_stat inner\<rparr>"

definition scoped_view :: "'s Fs \<Rightarrow> jstr \<Rightarrow> 's Fs" where
  "scoped_view inner scope =
     \<lparr>fs_get = (\<lambda>key. fs_get inner (scope @ key)),
      fs_put = (\<lambda>key. fs_put inner (scope @ key)),
      fs_size = (\<lambda>key. fs_size inner (scope @ key)),
      fs_list = (\<lambda>prefix s. rbind (fs_list inner (Some (scope @ (case prefix of None \<Rightarrow> [] | Some p \<Rightarrow> p))) s)
                   (\<lambda>ks. Inr (map (drop (length scope)) ks))),
      fs_delete = (\<lambda>key. fs_delete inner (scope @ key)),
      fs_stat = fs_stat inner\<rparr>"

definition scopedFs :: "'s Fs \<Rightarrow> jstr \<Rightarrow> (fs_error, 's Fs) result" where
  "scopedFs inner scope = (if \<not> isSafeFsScope scope then Inl (Unsafe_Scope scope) else Inr (scoped_view inner scope))"

section \<open>The handlers\<close>

definition u64be :: "int \<Rightarrow> bytes" where
  "u64be v = writeU32BE (writeU32BE (replicate 8 0) 0 (v div 2 ^ 32)) 4 (v mod 2 ^ 32)"

definition fs_handler_get :: "'s Fs \<Rightarrow> bytes \<Rightarrow> 's \<Rightarrow> (fs_error, bytes) result" where
  "fs_handler_get fs payload s =
     rbind (fs_get fs (utf8Decode payload) s) (\<lambda>v. Inr (case v of Some b \<Rightarrow> concatBytes [[1], b] | None \<Rightarrow> [0]))"

definition fs_handler_put :: "'s Fs \<Rightarrow> bytes \<Rightarrow> 's \<Rightarrow> (fs_error, bytes) result \<times> 's" where
  "fs_handler_put fs payload s =
     (let klen = readU32BE payload 0;
          (r, s') = fs_put fs (utf8Decode (subarray payload 4 (4 + klen))) (drop (4 + klen) payload) s
      in (rbind r (\<lambda>_. Inr []), s'))"

definition fs_handler_list :: "'s Fs \<Rightarrow> bytes \<Rightarrow> 's \<Rightarrow> (fs_error, bytes) result" where
  "fs_handler_list fs payload s =
     rbind (fs_list fs (if payload \<noteq> [] then Some (utf8Decode payload) else None) s) (\<lambda>keys.
       Inr (args_build [] (fold args_text keys (args_u32 (int (length keys)) args_new))))"

definition fs_handler_delete :: "'s Fs \<Rightarrow> bytes \<Rightarrow> 's \<Rightarrow> (fs_error, bytes) result \<times> 's" where
  "fs_handler_delete fs payload s =
     (let (r, s') = fs_delete fs (utf8Decode payload) s in (rbind r (\<lambda>_. Inr []), s'))"

definition fs_handler_size :: "'s Fs \<Rightarrow> bytes \<Rightarrow> 's \<Rightarrow> (fs_error, bytes) result" where
  "fs_handler_size fs payload s =
     rbind (fs_size fs (utf8Decode payload) s) (\<lambda>n. Inr (args_build [] (args_u32 (n mod 2 ^ 32) args_new)))"

definition fs_handler_stat :: "'s Fs \<Rightarrow> 's \<Rightarrow> (fs_error, bytes) result \<times> 's" where
  "fs_handler_stat fs s =
     (let (r, s') = fs_stat fs s
      in (rbind r (\<lambda>st. Inr (concatBytes [u64be (stat_used st), u64be (stat_available st)])), s'))"

section \<open>What a backend promises\<close>

text \<open>
  Over the legal keys \<open>K\<close> and the values that fit, a backend is a finite map: a put that does
  not fail sets one key, a failed one changes nothing, a delete removes one key and says whether
  it was there, and a listing names the keys present under a prefix.
\<close>

locale fs_store =
  fixes F :: "'s Fs" and store :: "'s \<Rightarrow> jstr \<rightharpoonup> bytes" and inv :: "'s \<Rightarrow> bool" and K :: "jstr \<Rightarrow> bool"
    and fits :: "bytes \<Rightarrow> bool"
  assumes get_law: "inv s \<Longrightarrow> K k \<Longrightarrow> fs_get F k s = Inr (store s k)"
    and size_law: "inv s \<Longrightarrow> K k \<Longrightarrow>
      fs_size F k s = Inr (case store s k of None \<Rightarrow> - 1 | Some b \<Rightarrow> int (length b))"
    and put_law: "inv s \<Longrightarrow> K k \<Longrightarrow> fits b \<Longrightarrow> fs_put F k b s = (r, s') \<Longrightarrow>
      inv s' \<and> store s' = (if is_ok r then (store s)(k \<mapsto> b) else store s)"
    and delete_law: "inv s \<Longrightarrow> K k \<Longrightarrow> fs_delete F k s = (d, s') \<Longrightarrow>
      inv s' \<and> d = Inr (store s k \<noteq> None) \<and> store s' = (store s)(k := None)"
    and list_law: "inv s \<Longrightarrow> \<exists>ks. fs_list F pre s = Inr ks \<and>
      set ks = {k \<in> dom (store s). take (length (case pre of None \<Rightarrow> [] | Some p \<Rightarrow> p)) k = (case pre of None \<Rightarrow> [] | Some p \<Rightarrow> p)}"
    and store_keys: "inv s \<Longrightarrow> k \<in> dom (store s) \<Longrightarrow> K k"
begin

lemma get_after_put:
  "inv s \<Longrightarrow> K k \<Longrightarrow> K k' \<Longrightarrow> fits b \<Longrightarrow> fs_put F k b s = (Inr (), s') \<Longrightarrow>
     fs_get F k' s' = (if k' = k then Inr (Some b) else fs_get F k' s)"
  using put_law [of s k b "Inr ()" s'] by (auto simp: get_law)

lemma get_after_delete:
  "inv s \<Longrightarrow> K k \<Longrightarrow> K k' \<Longrightarrow> fs_delete F k s = (r, s') \<Longrightarrow>
     fs_get F k' s' = (if k' = k then Inr None else fs_get F k' s)"
  using delete_law [of s k r s'] by (auto simp: get_law)

text \<open>The operations of a guest on its view, in sequence.\<close>

end

datatype fs_op = Put jstr bytes | Delete jstr

fun fs_run :: "'s Fs \<Rightarrow> fs_op \<Rightarrow> 's \<Rightarrow> 's" where
  "fs_run F (Put k b) s = snd (fs_put F k b s)"
| "fs_run F (Delete k) s = snd (fs_delete F k s)"

fun op_key :: "fs_op \<Rightarrow> jstr" where
  "op_key (Put k b) = k"
| "op_key (Delete k) = k"

fun op_fits :: "(bytes \<Rightarrow> bool) \<Rightarrow> fs_op \<Rightarrow> bool" where
  "op_fits fits (Put k b) = fits b"
| "op_fits fits (Delete k) = True"

context fs_store
begin

lemma run_frame:
  assumes "inv s" and "K (op_key oper)" and "op_fits fits oper"
  shows "inv (fs_run F oper s)" and "k \<noteq> op_key oper \<Longrightarrow> store (fs_run F oper s) k = store s k"
proof -
  have "inv (fs_run F oper s) \<and> (k \<noteq> op_key oper \<longrightarrow> store (fs_run F oper s) k = store s k)"
  proof (cases oper)
    case (Put k' b)
    obtain r s' where "fs_put F k' b s = (r, s')" by fastforce
    with put_law [of s k' b r s'] assms Put show ?thesis by auto
  next
    case (Delete k')
    obtain r s' where "fs_delete F k' s = (r, s')" by fastforce
    with delete_law [of s k' r s'] assms Delete show ?thesis by auto
  qed
  then show "inv (fs_run F oper s)" "k \<noteq> op_key oper \<Longrightarrow> store (fs_run F oper s) k = store s k" by auto
qed

lemma runs_frame:
  "inv s \<Longrightarrow> \<forall>oper\<in>set ops. K (op_key oper) \<and> op_fits fits oper \<and> op_key oper \<noteq> k \<Longrightarrow>
     inv (fold (fs_run F) ops s) \<and> store (fold (fs_run F) ops s) k = store s k"
  using run_frame by (induction ops arbitrary: s) auto

end

section \<open>The views keep the promise\<close>

text \<open>The key rule refuses an unsafe key on every operation, and leaves the backend alone.\<close>

lemma validatedFs_refuses:
  assumes "\<not> isSafeFsKey k"
  shows "fs_get (validatedFs F) k s = Inl (Unsafe_Key k)" "fs_size (validatedFs F) k s = Inl (Unsafe_Key k)"
    "fs_put (validatedFs F) k b s = (Inl (Unsafe_Key k), s)" "fs_delete (validatedFs F) k s = (Inl (Unsafe_Key k), s)"
  using assms by (simp_all add: validatedFs_def checked_def checked_upd_def)

lemma validatedFs_passes:
  assumes "isSafeFsKey k"
  shows "fs_get (validatedFs F) k = fs_get F k" "fs_size (validatedFs F) k = fs_size F k"
    "fs_put (validatedFs F) k b = fs_put F k b" "fs_delete (validatedFs F) k = fs_delete F k"
  using assms by (simp_all add: validatedFs_def checked_def checked_upd_def fun_eq_iff)

lemma fs_run_validated:
  "fs_run (validatedFs F) oper s = (if isSafeFsKey (op_key oper) then fs_run F oper s else s)"
  by (cases oper) (simp_all add: validatedFs_refuses validatedFs_passes)

lemma fs_run_scoped:
  "fs_run (scoped_view F scope) oper s =
     fs_run F (case oper of Put k b \<Rightarrow> Put (scope @ k) b | Delete k \<Rightarrow> Delete (scope @ k)) s"
  by (cases oper) (simp_all add: scoped_view_def)

context fs_store
begin

lemma scoped_store:
  assumes "fs_list F (Some scope) s = Inr ks" and "inv s"
  shows "set (map (drop (length scope)) ks) = dom (\<lambda>k. store s (scope @ k))"
proof -
  have "set ks = {k \<in> dom (store s). take (length scope) k = scope}"
    using list_law [OF assms(2), of "Some scope"] assms(1) by auto
  then show ?thesis
    by (auto simp: dom_def image_iff) (metis append_eq_conv_conj, metis append_eq_conv_conj append_take_drop_id)
qed

text \<open>
  Two scopes of one length never meet: what a guest does through its own scoped, validated view
  leaves every key of another scope as it was.
\<close>

lemma scope_isolation:
  assumes "inv s" and "length a = length b" and "a \<noteq> b"
    and "\<forall>oper\<in>set ops. op_fits fits oper" and safe: "\<And>k. isSafeFsKey k \<Longrightarrow> K k" and "K (b @ k)"
  shows "fs_get F (b @ k) (fold (fs_run (scoped_view (validatedFs F) a)) ops s) = fs_get F (b @ k) s"
    and "inv (fold (fs_run (scoped_view (validatedFs F) a)) ops s)"
proof -
  have apart: "a @ k' \<noteq> b @ k" for k' using assms(2,3) by simp
  have "inv (fold (fs_run (scoped_view (validatedFs F) a)) ops s) \<and>
      store (fold (fs_run (scoped_view (validatedFs F) a)) ops s) (b @ k) = store s (b @ k)"
    using assms(1,4)
  proof (induction ops arbitrary: s)
    case Nil
    then show ?case by simp
  next
    case (Cons oper ops)
    let ?o = "case oper of Put k b \<Rightarrow> Put (a @ k) b | Delete k \<Rightarrow> Delete (a @ k)"
    have fit: "op_fits fits ?o" and key: "b @ k \<noteq> op_key ?o"
      using Cons.prems(2) apart [THEN not_sym] by (cases oper; simp)+
    have "inv (fs_run (scoped_view (validatedFs F) a) oper s) \<and>
        store (fs_run (scoped_view (validatedFs F) a) oper s) (b @ k) = store s (b @ k)"
      using run_frame(1) [OF Cons.prems(1), of ?o] run_frame(2) [OF Cons.prems(1), of ?o "b @ k"] fit key safe Cons.prems(1)
      unfolding fs_run_scoped fs_run_validated by auto
    with Cons show ?case by auto
  qed
  then show "fs_get F (b @ k) (fold (fs_run (scoped_view (validatedFs F) a)) ops s) = fs_get F (b @ k) s"
    and "inv (fold (fs_run (scoped_view (validatedFs F) a)) ops s)"
    using assms(1,6) by (simp_all add: get_law)
qed

end

section \<open>Facts about the key rule\<close>

lemma safe_key_chars: "isSafeFsKey k \<Longrightarrow> k \<noteq> [] \<and> 47 \<notin> set k \<and> 92 \<notin> set k \<and> 10 \<notin> set k \<and> 126 \<notin> set k"
  by (auto simp: isSafeFsKey_def SAFE_CHARS_def list_all_iff safe_char_def is_alnum_def)

lemma safe_key_not_dots: "isSafeFsKey k \<Longrightarrow> k \<noteq> js ''.'' \<and> k \<noteq> js ''..''"
  by (simp add: isSafeFsKey_def)

end
