(* ===== verification/Fs_Files.thy ===== *)
theory Fs_Files
  imports Fs
begin

text \<open>
  \<^verbatim>\<open>WASM/services/fs-files.ts\<close> and \<^verbatim>\<open>WASM/services/fs-memory.ts\<close>: the key store over raw files, with its
  space accounting and crash-temp cleanup, and the in-memory raw files with their quotas. A raw
  file operation that throws is \<open>Inl ()\<close>; the locale \<open>raw_files\<close> states what the platform promises
  of the ones that do not.
\<close>

section \<open>Raw files\<close>

record 'r RawFiles =
  rf_mkdir :: "jstr \<Rightarrow> 'r \<Rightarrow> (unit, 'r) result"
  rf_read :: "jstr \<Rightarrow> nat \<Rightarrow> 'r \<Rightarrow> (unit, bytes option) result"
  rf_write :: "jstr \<Rightarrow> bytes \<Rightarrow> 'r \<Rightarrow> (unit, 'r) result"
  rf_remove :: "jstr \<Rightarrow> 'r \<Rightarrow> (unit, bool \<times> 'r) result"
  rf_size :: "jstr \<Rightarrow> 'r \<Rightarrow> (unit, int) result"
  rf_list :: "jstr \<Rightarrow> 'r \<Rightarrow> (unit, jstr) result"
  rf_available :: "jstr \<Rightarrow> 'r \<Rightarrow> (unit, int) result"

section \<open>The store\<close>

record 'r FilesFs =
  raw :: 'r
  fdir :: jstr
  used :: int

definition TMP_PREFIX :: jstr where
  "TMP_PREFIX = js ''~''"

definition MAX_VALUE_BYTES :: nat where
  "MAX_VALUE_BYTES = 16 * 2 ^ 20"

definition is_temp :: "jstr \<Rightarrow> bool" where
  "is_temp n \<longleftrightarrow> take (length TMP_PREFIX) n = TMP_PREFIX"

definition new_FilesFs :: "'r \<Rightarrow> jstr \<Rightarrow> 'r FilesFs" where
  "new_FilesFs r d = \<lparr>raw = r, fdir = d, used = - 1\<rparr>"

definition file_path :: "jstr \<Rightarrow> 'r FilesFs \<Rightarrow> (fs_error, jstr) result" where
  "file_path key s =
     (if key = [] \<or> key = js ''.'' \<or> key = js ''..'' \<or> 47 \<in> set key \<or> 92 \<in> set key then Inl (Unsafe_Key key)
      else Inr (fdir s @ js ''/'' @ key))"

fun split_lines :: "jstr \<Rightarrow> jstr list" where
  "split_lines [] = [[]]"
| "split_lines (c # cs) =
     (if c = 10 then [] # split_lines cs
      else case split_lines cs of [] \<Rightarrow> [[c]] | l # ls \<Rightarrow> (c # l) # ls)"

definition names :: "'r RawFiles \<Rightarrow> bool \<Rightarrow> 'r FilesFs \<Rightarrow> (fs_error, jstr list) result" where
  "names R withTemps s =
     (case rf_list R (fdir s) (raw s) of
        Inl _ \<Rightarrow> Inl Backend_Failed
      | Inr t \<Rightarrow> (let ns = (if t = [] then [] else split_lines t)
                  in Inr (if withTemps then ns else filter (\<lambda>n. \<not> is_temp n) ns)))"

text \<open>The scan's loop: temp files are removed, the others are counted.\<close>

fun scan_loop :: "'r RawFiles \<Rightarrow> jstr list \<Rightarrow> int \<Rightarrow> 'r FilesFs \<Rightarrow> (fs_error, int) result \<times> 'r FilesFs" where
  "scan_loop R [] acc s = (Inr acc, s)"
| "scan_loop R (n # ns) acc s =
     (case file_path n s of
        Inl e \<Rightarrow> (Inl e, s)
      | Inr p \<Rightarrow>
          if is_temp n
          then (case rf_remove R p (raw s) of
                  Inl _ \<Rightarrow> (Inl Backend_Failed, s)
                | Inr (_, r') \<Rightarrow> scan_loop R ns acc (s\<lparr>raw := r'\<rparr>))
          else (case rf_size R p (raw s) of
                  Inl _ \<Rightarrow> (Inl Backend_Failed, s)
                | Inr n \<Rightarrow> scan_loop R ns (acc + max 0 n) s))"

definition scan :: "'r RawFiles \<Rightarrow> 'r FilesFs \<Rightarrow> (fs_error, unit) result \<times> 'r FilesFs" where
  "scan R s =
     (if 0 \<le> used s then (Inr (), s)
      else case rf_mkdir R (fdir s) (raw s) of
             Inl _ \<Rightarrow> (Inl Backend_Failed, s)
           | Inr r \<Rightarrow>
               (let s = s\<lparr>raw := r\<rparr> in
                case names R True s of
                  Inl e \<Rightarrow> (Inl e, s)
                | Inr ns \<Rightarrow> (case scan_loop R ns 0 s of
                              (Inl e, s') \<Rightarrow> (Inl e, s')
                            | (Inr u, s') \<Rightarrow> (Inr (), s'\<lparr>used := u\<rparr>))))"

definition files_get :: "'r RawFiles \<Rightarrow> jstr \<Rightarrow> 'r FilesFs \<Rightarrow> (fs_error, bytes option) result" where
  "files_get R key s =
     (case file_path key s of
        Inl _ \<Rightarrow> Inr None
      | Inr p \<Rightarrow> (case rf_read R p MAX_VALUE_BYTES (raw s) of Inl _ \<Rightarrow> Inr None | Inr b \<Rightarrow> Inr b))"

definition files_put :: "'r RawFiles \<Rightarrow> jstr \<Rightarrow> bytes \<Rightarrow> 'r FilesFs \<Rightarrow> (fs_error, unit) result \<times> 'r FilesFs" where
  "files_put R key b s =
     (case file_path key s of
        Inl e \<Rightarrow> (Inl e, s)
      | Inr p \<Rightarrow>
          (case scan R s of
             (Inl e, s) \<Rightarrow> (Inl e, s)
           | (Inr _, s) \<Rightarrow>
               (case rf_size R p (raw s) of
                  Inl _ \<Rightarrow> (Inl Backend_Failed, s)
                | Inr n \<Rightarrow>
                    (case rf_write R p b (raw s) of
                       Inl _ \<Rightarrow> (Inl Backend_Failed, s)
                     | Inr r \<Rightarrow> (Inr (), s\<lparr>raw := r, used := used s + (int (length b) - max 0 n)\<rparr>)))))"

definition files_size :: "'r RawFiles \<Rightarrow> jstr \<Rightarrow> 'r FilesFs \<Rightarrow> (fs_error, int) result" where
  "files_size R key s =
     (case file_path key s of
        Inl _ \<Rightarrow> Inr (- 1)
      | Inr p \<Rightarrow> (case rf_size R p (raw s) of Inl _ \<Rightarrow> Inr (- 1) | Inr n \<Rightarrow> Inr n))"

definition files_list :: "'r RawFiles \<Rightarrow> jstr option \<Rightarrow> 'r FilesFs \<Rightarrow> (fs_error, jstr list) result" where
  "files_list R prefix s =
     (case names R False s of
        Inl _ \<Rightarrow> Inr []
      | Inr ns \<Rightarrow> (case prefix of
                      None \<Rightarrow> Inr ns
                    | Some p \<Rightarrow> Inr (if p = [] then ns else filter (\<lambda>n. take (length p) n = p) ns)))"

definition files_delete :: "'r RawFiles \<Rightarrow> jstr \<Rightarrow> 'r FilesFs \<Rightarrow> (fs_error, bool) result \<times> 'r FilesFs" where
  "files_delete R key s =
     (case file_path key s of
        Inl _ \<Rightarrow> (Inr False, s)
      | Inr p \<Rightarrow>
          (case scan R s of
             (Inl _, s) \<Rightarrow> (Inr False, s)
           | (Inr _, s) \<Rightarrow>
               (case rf_size R p (raw s) of
                  Inl _ \<Rightarrow> (Inr False, s)
                | Inr n \<Rightarrow>
                    (case rf_remove R p (raw s) of
                       Inl _ \<Rightarrow> (Inr False, s)
                     | Inr (False, r) \<Rightarrow> (Inr False, s\<lparr>raw := r\<rparr>)
                     | Inr (True, r) \<Rightarrow> (Inr True, s\<lparr>raw := r, used := used s - max 0 n\<rparr>)))))"

definition files_stat :: "'r RawFiles \<Rightarrow> 'r FilesFs \<Rightarrow> (fs_error, FsStat) result \<times> 'r FilesFs" where
  "files_stat R s =
     (case scan R s of
        (Inl e, s) \<Rightarrow> (Inl e, s)
      | (Inr _, s) \<Rightarrow>
          (case rf_available R (fdir s) (raw s) of
             Inl _ \<Rightarrow> (Inl Backend_Failed, s)
           | Inr a \<Rightarrow> (Inr \<lparr>stat_used = used s, stat_available = (if a < 0 then FS_AVAILABLE_UNKNOWN else a)\<rparr>, s)))"

definition filesFs :: "'r RawFiles \<Rightarrow> 'r FilesFs Fs" where
  "filesFs R = \<lparr>fs_get = files_get R, fs_put = files_put R, fs_size = files_size R, fs_list = files_list R,
     fs_delete = files_delete R, fs_stat = files_stat R\<rparr>"

section \<open>Files in memory\<close>

definition DEFAULT_MEMORY_FS_MAX_BYTES :: nat where
  "DEFAULT_MEMORY_FS_MAX_BYTES = 64 * 1024 * 1024"

definition DEFAULT_MEMORY_FS_MAX_ENTRIES :: nat where
  "DEFAULT_MEMORY_FS_MAX_ENTRIES = 2 ^ 16"

record memory_files =
  mfiles :: "(jstr \<times> bytes) list"
  mused :: int
  maxBytes :: int
  maxEntries :: int

definition new_memory_files :: "jsnum \<Rightarrow> jsnum \<Rightarrow> (fs_error, memory_files) result" where
  "new_memory_files mb me =
     (case (safe_int mb, safe_int me) of
        (Some b, Some e) \<Rightarrow>
          if b < 0 \<or> e < 0 then Inl Backend_Failed
          else Inr \<lparr>mfiles = [], mused = 0, maxBytes = b, maxEntries = e\<rparr>
      | _ \<Rightarrow> Inl Backend_Failed)"

definition len_or_zero :: "bytes option \<Rightarrow> int" where
  "len_or_zero b = (case b of None \<Rightarrow> 0 | Some x \<Rightarrow> int (length x))"

definition mem_read :: "jstr \<Rightarrow> nat \<Rightarrow> memory_files \<Rightarrow> (unit, bytes option) result" where
  "mem_read p mx m = (case map_of (mfiles m) p of
     Some f \<Rightarrow> if mx < length f then Inl () else Inr (Some f) | None \<Rightarrow> Inr None)"

definition mem_write :: "jstr \<Rightarrow> bytes \<Rightarrow> memory_files \<Rightarrow> (unit, memory_files) result" where
  "mem_write p b m =
     (let previous = map_of (mfiles m) p in
      if previous = None \<and> maxEntries m \<le> int (length (mfiles m)) then Inl ()
      else let next = mused m - len_or_zero previous + int (length b)
           in if maxBytes m < next then Inl ()
              else Inr (m\<lparr>mfiles := mset_at p b (mfiles m), mused := next\<rparr>))"

definition mem_remove :: "jstr \<Rightarrow> memory_files \<Rightarrow> (unit, bool \<times> memory_files) result" where
  "mem_remove p m = Inr (map_of (mfiles m) p \<noteq> None,
     m\<lparr>mused := mused m - len_or_zero (map_of (mfiles m) p), mfiles := mdel p (mfiles m)\<rparr>)"

definition mem_size :: "jstr \<Rightarrow> memory_files \<Rightarrow> (unit, int) result" where
  "mem_size p m = Inr (case map_of (mfiles m) p of None \<Rightarrow> - 1 | Some b \<Rightarrow> int (length b))"

fun join_lines :: "jstr list \<Rightarrow> jstr" where
  "join_lines [] = []"
| "join_lines [l] = l"
| "join_lines (l # ls) = l @ 10 # join_lines ls"

definition mem_list :: "jstr \<Rightarrow> memory_files \<Rightarrow> (unit, jstr) result" where
  "mem_list d m =
     (let pre = d @ js ''/''
      in Inr (join_lines (map (drop (length pre)) (filter (\<lambda>p. take (length pre) p = pre) (map fst (mfiles m))))))"

definition memoryRawFiles :: "memory_files RawFiles" where
  "memoryRawFiles =
     \<lparr>rf_mkdir = (\<lambda>d m. Inr m), rf_read = mem_read, rf_write = mem_write, rf_remove = mem_remove, rf_size = mem_size,
      rf_list = mem_list, rf_available = (\<lambda>d m. Inr (maxBytes m - mused m))\<rparr>"

definition MemoryFs :: "jsnum \<Rightarrow> jsnum \<Rightarrow> (fs_error, memory_files FilesFs) result" where
  "MemoryFs mb me = rbind (new_memory_files mb me) (\<lambda>m. Inr (new_FilesFs m (js ''memory'')))"

section \<open>Listings\<close>

lemma split_lines_nonempty [simp]: "split_lines s \<noteq> []"
  by (induction s) (auto split: list.splits)

lemma split_lines_line: "10 \<notin> set l \<Longrightarrow> split_lines l = [l]"
  by (induction l) auto

lemma split_lines_append: "10 \<notin> set l \<Longrightarrow> split_lines (l @ 10 # r) = l # split_lines r"
  by (induction l) auto

lemma split_join_lines: "ls \<noteq> [] \<Longrightarrow> \<forall>l\<in>set ls. 10 \<notin> set l \<Longrightarrow> split_lines (join_lines ls) = ls"
  by (induction ls rule: join_lines.induct) (auto simp: split_lines_line split_lines_append)

lemma join_lines_eq_Nil: "join_lines ls = [] \<longleftrightarrow> ls = [] \<or> ls = [[]]"
  by (cases ls rule: join_lines.cases) auto

section \<open>What the platform promises\<close>

locale raw_files =
  fixes R :: "'r RawFiles" and content :: "'r \<Rightarrow> jstr \<rightharpoonup> bytes" and rinv :: "'r \<Rightarrow> bool"
  assumes mkdir_law: "rinv r \<Longrightarrow> \<exists>r'. rf_mkdir R d r = Inr r' \<and> rinv r' \<and> content r' = content r"
    and read_law: "rinv r \<Longrightarrow> rf_read R p n r =
      (case content r p of None \<Rightarrow> Inr None | Some b \<Rightarrow> if n < length b then Inl () else Inr (Some b))"
    and write_law: "rinv r \<Longrightarrow> rf_write R p b r = Inr r' \<Longrightarrow> rinv r' \<and> content r' = (content r)(p \<mapsto> b)"
    and remove_law: "rinv r \<Longrightarrow> \<exists>r'. rf_remove R p r = Inr (content r p \<noteq> None, r') \<and> rinv r' \<and>
      content r' = (content r)(p := None)"
    and rsize_law: "rinv r \<Longrightarrow> rf_size R p r = Inr (case content r p of None \<Rightarrow> - 1 | Some b \<Rightarrow> int (length b))"
    and rlist_law: "rinv r \<Longrightarrow> \<exists>ns. rf_list R d r = Inr (join_lines ns) \<and> distinct ns \<and>
      set ns = {n. d @ js ''/'' @ n \<in> dom (content r)}"
    and finite_law: "rinv r \<Longrightarrow> finite (dom (content r))"
begin

text \<open>
  What the store holds, and when its directory is in order: every file is a value under a
  legal key or a temp file a crash left behind, and the byte count, once taken, is exact.
\<close>

definition fstore :: "'r FilesFs \<Rightarrow> jstr \<rightharpoonup> bytes" where
  "fstore s k = (if isSafeFsKey k then content (raw s) (fdir s @ js ''/'' @ k) else None)"

definition total :: "(jstr \<rightharpoonup> bytes) \<Rightarrow> int" where
  "total m = (\<Sum>k\<in>dom m. int (length (the (m k))))"

definition finv :: "'r FilesFs \<Rightarrow> bool" where
  "finv s \<longleftrightarrow> rinv (raw s) \<and>
     (\<forall>n b. content (raw s) (fdir s @ js ''/'' @ n) = Some b \<longrightarrow>
        (isSafeFsKey n \<and> length b \<le> MAX_VALUE_BYTES) \<or>
        (is_temp n \<and> 10 \<notin> set n \<and> 47 \<notin> set n \<and> 92 \<notin> set n)) \<and>
     (used s = - 1 \<or> used s = total (fstore s))"

abbreviation fpath :: "'r FilesFs \<Rightarrow> jstr \<Rightarrow> jstr" where
  "fpath s n \<equiv> fdir s @ js ''/'' @ n"

lemma total_nonneg: "0 \<le> total m"
  by (simp add: total_def sum_nonneg)

lemma total_remove: "finite (dom m) \<Longrightarrow> total (m(k := None)) = total m - len_or_zero (m k)"
  by (cases "m k") (auto simp: total_def len_or_zero_def sum.remove [of _ k] domIff intro!: sum.cong)

lemma total_update:
  "finite (dom m) \<Longrightarrow> total (m(k \<mapsto> b)) = total m - len_or_zero (m k) + int (length b)"
  using total_remove [of "m(k \<mapsto> b)" k] total_remove [of m k] by (simp add: len_or_zero_def)

lemma fstore_finite: "rinv (raw s) \<Longrightarrow> finite (dom (fstore s))"
proof -
  assume "rinv (raw s)"
  then have "finite (fpath s -` dom (content (raw s)))"
    by (intro finite_vimageI finite_law) (auto simp: inj_def)
  moreover have "dom (fstore s) \<subseteq> fpath s -` dom (content (raw s))"
    by (auto simp: fstore_def dom_def split: if_splits)
  ultimately show ?thesis by (rule rev_finite_subset)
qed

lemma file_path_update [simp]: "file_path n (s\<lparr>raw := r\<rparr>) = file_path n s" "file_path n (s\<lparr>used := u\<rparr>) = file_path n s"
  by (simp_all add: file_path_def)

definition file_len :: "(jstr \<rightharpoonup> bytes) \<Rightarrow> jstr \<Rightarrow> jstr \<Rightarrow> int" where
  "file_len c d n = (if is_temp n then 0 else len_or_zero (c (d @ js ''/'' @ n)))"

definition without_temps :: "(jstr \<rightharpoonup> bytes) \<Rightarrow> jstr \<Rightarrow> jstr list \<Rightarrow> jstr \<rightharpoonup> bytes" where
  "without_temps c d ns = (\<lambda>p. if \<exists>n\<in>set ns. is_temp n \<and> p = d @ js ''/'' @ n then None else c p)"

lemma safe_path: "isSafeFsKey k \<Longrightarrow> file_path k s = Inr (fpath s k)"
  using safe_key_chars [of k] safe_key_not_dots [of k] by (simp add: file_path_def)

lemma safe_not_temp: "isSafeFsKey k \<Longrightarrow> \<not> is_temp k"
  using safe_key_chars [of k] by (cases k) (auto simp: is_temp_def TMP_PREFIX_def js_eval)

lemma temp_path:
  assumes "is_temp n" and "47 \<notin> set n" and "92 \<notin> set n"
  shows "file_path n s = Inr (fpath s n)"
proof -
  have "n \<noteq> [] \<and> n \<noteq> js ''.'' \<and> n \<noteq> js ''..''"
    using assms(1) by (auto simp: is_temp_def TMP_PREFIX_def js_eval)
  then show ?thesis using assms by (simp add: file_path_def)
qed

definition file_name :: "'r FilesFs \<Rightarrow> jstr \<Rightarrow> bool" where
  "file_name s n \<longleftrightarrow> fpath s n \<in> dom (content (raw s))"

lemma finv_name:
  assumes "finv s" and "file_name s n"
  shows "10 \<notin> set n" "n \<noteq> []" "file_path n s = Inr (fpath s n)" "is_temp n \<longleftrightarrow> \<not> isSafeFsKey n"
proof -
  have "isSafeFsKey n \<or> is_temp n \<and> 10 \<notin> set n \<and> 47 \<notin> set n \<and> 92 \<notin> set n"
    using assms by (auto simp: finv_def file_name_def)
  then show "10 \<notin> set n" "n \<noteq> []" "file_path n s = Inr (fpath s n)" "is_temp n \<longleftrightarrow> \<not> isSafeFsKey n"
    using safe_key_chars [of n] safe_path [of n s] temp_path [of n s] safe_not_temp [of n]
    by (auto simp: is_temp_def TMP_PREFIX_def js_eval)
qed

lemma names_ok:
  assumes "finv s"
  shows "\<exists>ns. names R withTemps s = Inr (if withTemps then ns else filter (\<lambda>n. \<not> is_temp n) ns) \<and> distinct ns \<and>
    set ns = {n. file_name s n}"
proof -
  have r: "rinv (raw s)" using assms by (simp add: finv_def)
  obtain ns where ns: "rf_list R (fdir s) (raw s) = Inr (join_lines ns)" "distinct ns" "set ns = {n. file_name s n}"
    using rlist_law [OF r, of "fdir s"] by (auto simp: file_name_def)
  have "[] \<notin> set ns" using finv_name(2) [OF assms] ns(3) by blast
  then have "join_lines ns = [] \<longleftrightarrow> ns = []" by (auto simp: join_lines_eq_Nil)
  moreover have "split_lines (join_lines ns) = ns" if "ns \<noteq> []"
    using finv_name(1) [OF assms] ns(3) that by (intro split_join_lines) auto
  ultimately have "names R withTemps s = Inr (if withTemps then ns else filter (\<lambda>n. \<not> is_temp n) ns)"
    by (auto simp: names_def ns(1) Let_def)
  with ns(2,3) show ?thesis by blast
qed

lemma scan_loop_ok:
  assumes "rinv (raw s)" and "\<forall>n\<in>set ns. file_path n s = Inr (fpath s n)"
  shows "\<exists>r'. scan_loop R ns acc s =
      (Inr (acc + (\<Sum>n\<leftarrow>ns. file_len (content (raw s)) (fdir s) n)), s\<lparr>raw := r'\<rparr>) \<and>
    rinv r' \<and> content r' = without_temps (content (raw s)) (fdir s) ns"
  using assms
proof (induction ns arbitrary: acc s)
  case Nil
  then show ?case by (auto simp: without_temps_def intro!: exI [of _ "raw s"])
next
  case (Cons n ns)
  show ?case
  proof (cases "is_temp n")
    case True
    obtain r1 where r1: "rf_remove R (fpath s n) (raw s) = Inr (content (raw s) (fpath s n) \<noteq> None, r1)" "rinv r1"
      "content r1 = (content (raw s))(fpath s n := None)"
      using remove_law [OF Cons.prems(1)] by blast
    let ?s = "s\<lparr>raw := r1\<rparr>"
    have "\<forall>n\<in>set ns. file_path n ?s = Inr (fpath ?s n)" using Cons.prems(2) by simp
    from Cons.IH [OF _ this, of acc] obtain r' where r': "scan_loop R ns acc ?s =
        (Inr (acc + (\<Sum>n\<leftarrow>ns. file_len (content r1) (fdir s) n)), s\<lparr>raw := r'\<rparr>)"
      "rinv r'" "content r' = without_temps (content r1) (fdir s) ns"
      using r1(2) by auto
    have same: "(\<Sum>n\<leftarrow>ns. file_len (content r1) (fdir s) n) =
        (\<Sum>n\<leftarrow>ns. file_len (content (raw s)) (fdir s) n)"
      using True by (intro arg_cong [of _ _ sum_list] map_cong) (auto simp: r1(3) file_len_def)
    show ?thesis
      using True Cons.prems(2) r1 r' same by (auto simp: fun_eq_iff file_len_def [of _ _ n] without_temps_def intro!: exI [of _ r'])
  next
    case False
    have acc: "acc + max 0 (case content (raw s) (fpath s n) of None \<Rightarrow> - 1 | Some b \<Rightarrow> int (length b)) =
        acc + len_or_zero (content (raw s) (fpath s n))"
      by (simp add: len_or_zero_def split: option.splits)
    obtain r' where "scan_loop R ns (acc + len_or_zero (content (raw s) (fpath s n))) s =
        (Inr (acc + len_or_zero (content (raw s) (fpath s n)) +
           (\<Sum>n\<leftarrow>ns. file_len (content (raw s)) (fdir s) n)), s\<lparr>raw := r'\<rparr>)"
      "rinv r'" "content r' = without_temps (content (raw s)) (fdir s) ns"
      using Cons.IH [OF Cons.prems(1)] Cons.prems(2) by (metis list.set_intros(2))
    then show ?thesis
      using False Cons.prems rsize_law [OF Cons.prems(1), of "fpath s n"] acc
      by (auto simp: add.assoc file_len_def [of _ _ n] without_temps_def intro!: exI [of _ r'])
  qed
qed

text \<open>A scan answers, keeps every value, and leaves an exact count.\<close>

lemma scan_ok:
  assumes "finv s"
  shows "\<exists>s'. scan R s = (Inr (), s') \<and> finv s' \<and> fstore s' = fstore s \<and> fdir s' = fdir s \<and> used s' = total (fstore s)"
proof (cases "0 \<le> used s")
  case True
  then show ?thesis using assms by (auto simp: scan_def finv_def)
next
  case False
  have r: "rinv (raw s)" using assms by (simp add: finv_def)
  obtain r1 where r1: "rf_mkdir R (fdir s) (raw s) = Inr r1" "rinv r1" "content r1 = content (raw s)"
    using mkdir_law [OF r] by blast
  let ?s = "s\<lparr>raw := r1\<rparr>"
  have same: "fstore ?s = fstore s" "file_name ?s = file_name s"
    by (simp_all add: fun_eq_iff fstore_def file_name_def r1(3))
  have inv1: "finv ?s" using assms by (auto simp: finv_def r1 same)
  obtain ns where ns: "names R True ?s = Inr ns" "distinct ns" "set ns = {n. file_name ?s n}"
    using names_ok [OF inv1, of True] by auto
  obtain r' where r': "scan_loop R ns 0 ?s =
      (Inr (\<Sum>n\<leftarrow>ns. file_len (content r1) (fdir s) n), ?s\<lparr>raw := r'\<rparr>)"
    "rinv r'" "content r' = without_temps (content r1) (fdir s) ns"
    using scan_loop_ok [of ?s ns 0] r1(2) ns(3) finv_name(3) [OF inv1] by auto
  define u where "u = (\<Sum>n\<leftarrow>ns. file_len (content r1) (fdir s) n)"
  let ?t = "s\<lparr>raw := r', used := u\<rparr>"
  have safe: "n \<in> set ns \<Longrightarrow> is_temp n \<longleftrightarrow> \<not> isSafeFsKey n" for n
    using finv_name(4) [OF inv1] ns(3) by auto
  have st: "fstore ?t = fstore s"
    using safe_not_temp by (auto simp: fun_eq_iff fstore_def r'(3) r1(3) without_temps_def)
  have "u = (\<Sum>n\<in>set ns. file_len (content r1) (fdir s) n)"
    unfolding u_def using ns(2) by (simp add: sum_list_distinct_conv_sum_set)
  also have "\<dots> = (\<Sum>n\<in>dom (fstore s). int (length (the (fstore s n))))"
  proof (rule sum.mono_neutral_cong_right)
    show "dom (fstore s) \<subseteq> set ns"
      by (auto simp: ns(3) file_name_def fstore_def r1(3) split: if_splits)
    show "\<forall>i\<in>set ns - dom (fstore s). file_len (content r1) (fdir s) i = 0"
      using safe by (auto simp: fstore_def file_len_def len_or_zero_def r1(3) domIff split: option.splits if_splits)
  qed (use safe_not_temp in \<open>auto simp: fstore_def file_len_def len_or_zero_def r1(3) split: if_splits option.splits\<close>)
  finally have u: "u = total (fstore s)" by (simp add: total_def)
  have "finv ?t"
    using inv1 r'(2) u st by (auto simp: finv_def r'(3) r1(3) without_temps_def split: if_splits)
  moreover have "scan R s = (Inr (), ?t)"
    using False r1 ns(1) r'(1) by (simp add: scan_def Let_def u_def)
  ultimately show ?thesis using st u by (intro exI [of _ ?t]) simp
qed

lemma files_get_law: "finv s \<Longrightarrow> isSafeFsKey k \<Longrightarrow> files_get R k s = Inr (fstore s k)"
  by (fastforce simp: files_get_def safe_path finv_def read_law fstore_def dest: safe_not_temp split: option.splits)

lemma files_size_law:
  "finv s \<Longrightarrow> isSafeFsKey k \<Longrightarrow>
     files_size R k s = Inr (case fstore s k of None \<Rightarrow> - 1 | Some b \<Rightarrow> int (length b))"
  by (simp add: files_size_def safe_path finv_def rsize_law fstore_def)

lemma files_put_law:
  assumes "finv s" and k: "isSafeFsKey k" and fit: "length b \<le> MAX_VALUE_BYTES" and put: "files_put R k b s = (r, s')"
  shows "finv s' \<and> fstore s' = (if is_ok r then (fstore s)(k \<mapsto> b) else fstore s)"
proof -
  obtain t where t: "scan R s = (Inr (), t)" "finv t" "fstore t = fstore s" "fdir t = fdir s" "used t = total (fstore s)"
    using scan_ok [OF assms(1)] by blast
  have rt: "rinv (raw t)" using t(2) by (simp add: finv_def)
  show ?thesis
  proof (cases "rf_write R (fpath s k) b (raw t)")
    case (Inl e)
    then have "r = Inl Backend_Failed" "s' = t"
      using put by (simp_all add: files_put_def safe_path [OF k] t rsize_law [OF rt])
    then show ?thesis using t by simp
  next
    case (Inr r')
    let ?n = "case content (raw t) (fpath s k) of None \<Rightarrow> - 1 | Some b \<Rightarrow> int (length b)"
    have s': "r = Inr ()" "s' = t\<lparr>raw := r', used := used t + (int (length b) - max 0 ?n)\<rparr>"
      using put Inr by (simp_all add: files_put_def safe_path [OF k] t rsize_law [OF rt])
    have w: "rinv r'" "content r' = (content (raw t))(fpath s k \<mapsto> b)"
      using write_law [OF rt Inr] by simp_all
    have st: "fstore s' = (fstore s)(k \<mapsto> b)"
      using k by (auto simp: fun_eq_iff fstore_def s'(2) w t(4) t(3) [symmetric])
    have old: "max 0 ?n = len_or_zero (fstore s k)"
      using fun_cong [OF t(3), of k] k t(4) by (auto simp: fstore_def len_or_zero_def split: option.splits)
    have us: "used s' = used t + (int (length b) - max 0 ?n)" by (simp add: s'(2))
    have "used s' = total (fstore s')"
      unfolding us st old t(5) using total_update [OF fstore_finite, of s k b] assms(1) by (simp add: finv_def)
    moreover have "\<forall>n b. content (raw s') (fpath s' n) = Some b \<longrightarrow> (isSafeFsKey n \<and> length b \<le> MAX_VALUE_BYTES) \<or>
        (is_temp n \<and> 10 \<notin> set n \<and> 47 \<notin> set n \<and> 92 \<notin> set n)"
      using t(2) k fit by (auto simp: finv_def s'(2) w t(4))
    ultimately show ?thesis using st s'(1) w(1) by (simp add: finv_def s'(2))
  qed
qed

lemma files_delete_law:
  assumes "finv s" and k: "isSafeFsKey k" and del: "files_delete R k s = (d, s')"
  shows "finv s' \<and> d = Inr (fstore s k \<noteq> None) \<and> fstore s' = (fstore s)(k := None)"
proof -
  obtain t where t: "scan R s = (Inr (), t)" "finv t" "fstore t = fstore s" "fdir t = fdir s" "used t = total (fstore s)"
    using scan_ok [OF assms(1)] by blast
  have rt: "rinv (raw t)" using t(2) by (simp add: finv_def)
  obtain r' where r': "rf_remove R (fpath s k) (raw t) = Inr (content (raw t) (fpath s k) \<noteq> None, r')" "rinv r'"
    "content r' = (content (raw t))(fpath s k := None)"
    using remove_law [OF rt] by blast
  let ?n = "case content (raw t) (fpath s k) of None \<Rightarrow> - 1 | Some b \<Rightarrow> int (length b)"
  have fk: "fstore s k = content (raw t) (fpath s k)"
    using fun_cong [OF t(3), of k] k t(4) by (simp add: fstore_def)
  have s': "d = Inr (fstore s k \<noteq> None)" "s' = t\<lparr>raw := r', used := used t - len_or_zero (fstore s k)\<rparr>"
    using del by (auto simp: files_delete_def safe_path [OF k] t rsize_law [OF rt] r' fk len_or_zero_def split: option.splits bool.splits)
  have st: "fstore s' = (fstore s)(k := None)"
    using k by (auto simp: fun_eq_iff fstore_def s'(2) r' t(4) t(3) [symmetric])
  have us: "used s' = used t - len_or_zero (fstore s k)" by (simp add: s'(2))
  have "used s' = total (fstore s')"
    unfolding us st t(5) using total_remove [OF fstore_finite, of s k] assms(1) by (simp add: finv_def)
  moreover have "\<forall>n b. content (raw s') (fpath s' n) = Some b \<longrightarrow> (isSafeFsKey n \<and> length b \<le> MAX_VALUE_BYTES) \<or>
      (is_temp n \<and> 10 \<notin> set n \<and> 47 \<notin> set n \<and> 92 \<notin> set n)"
    using t(2) by (auto simp: finv_def s'(2) r' t(4))
  ultimately show ?thesis using st s'(1) r'(2) by (simp add: finv_def s'(2))
qed

lemma files_list_law:
  assumes "finv s"
  shows "\<exists>ks. files_list R pre s = Inr ks \<and> set ks = {k \<in> dom (fstore s).
    take (length (case pre of None \<Rightarrow> [] | Some p \<Rightarrow> p)) k = (case pre of None \<Rightarrow> [] | Some p \<Rightarrow> p)}"
proof -
  obtain ns where ns: "names R False s = Inr (filter (\<lambda>n. \<not> is_temp n) ns)" "set ns = {n. file_name s n}"
    using names_ok [OF assms, of False] by auto
  have "{n. file_name s n \<and> \<not> is_temp n} = dom (fstore s)"
    using finv_name(4) [OF assms] by (auto simp: file_name_def fstore_def dom_def split: if_splits dest: safe_not_temp)
  then have "set (filter (\<lambda>n. \<not> is_temp n) ns) = dom (fstore s)" using ns(2) by auto
  then show ?thesis by (auto simp: files_list_def ns(1) split: option.splits)
qed

text \<open>The reported usage is the sum of the stored values' lengths.\<close>

lemma files_stat_law:
  assumes "finv s" and "files_stat R s = (Inr st, s')"
  shows "stat_used st = total (fstore s) \<and> finv s' \<and> fstore s' = fstore s"
  using scan_ok [OF assms(1)] assms(2) by (auto simp: files_stat_def split: sum.splits)

lemma files_fs_store: "fs_store (filesFs R) fstore finv isSafeFsKey (\<lambda>b. length b \<le> MAX_VALUE_BYTES)"
  by unfold_locales
     (auto simp: filesFs_def files_get_law files_size_law files_list_law fstore_def
       dest: files_put_law files_delete_law split: if_splits)

end

section \<open>The in-memory files keep the platform's promise\<close>

definition mem_content :: "memory_files \<Rightarrow> jstr \<rightharpoonup> bytes" where
  "mem_content m = map_of (mfiles m)"

definition mem_total :: "(jstr \<times> bytes) list \<Rightarrow> int" where
  "mem_total fs = (\<Sum>(_, b)\<leftarrow>fs. int (length b))"

definition mem_ok :: "memory_files \<Rightarrow> bool" where
  "mem_ok m \<longleftrightarrow> distinct (map fst (mfiles m)) \<and> mused m = mem_total (mfiles m) \<and> mused m \<le> maxBytes m \<and>
     int (length (mfiles m)) \<le> maxEntries m"

lemma mem_total_set:
  "mem_total (mset_at p b fs) = mem_total fs - len_or_zero (map_of fs p) + int (length b)"
  by (induction fs) (auto simp: mem_total_def len_or_zero_def)

lemma mem_total_del:
  "distinct (map fst fs) \<Longrightarrow> mem_total (mdel p fs) = mem_total fs - len_or_zero (map_of fs p)"
proof (induction fs)
  case Nil
  then show ?case by (simp add: mem_total_def mdel_def len_or_zero_def)
next
  case (Cons f fs)
  have "map_of fs (fst f) = None" using Cons.prems by (simp add: map_of_eq_None_iff)
  moreover have "fst f = p \<Longrightarrow> mdel p fs = fs"
    using Cons.prems by (auto simp: mdel_def filter_id_conv image_iff)
  ultimately show ?case using Cons by (cases f) (auto simp: mem_total_def mdel_def len_or_zero_def)
qed

lemma mem_total_nonneg: "0 \<le> mem_total fs"
  by (auto simp: mem_total_def intro!: sum_list_nonneg)

lemma mem_write_ok:
  assumes "mem_ok m" and "mem_write p b m = Inr m'"
  shows "mem_ok m' \<and> mem_content m' = (mem_content m)(p \<mapsto> b)"
proof -
  have m': "m' = m\<lparr>mfiles := mset_at p b (mfiles m), mused := mused m - len_or_zero (map_of (mfiles m) p) + int (length b)\<rparr>"
    and ent: "map_of (mfiles m) p = None \<Longrightarrow> int (length (mfiles m)) < maxEntries m"
    and cap: "mused m - len_or_zero (map_of (mfiles m) p) + int (length b) \<le> maxBytes m"
    using assms(2) by (auto simp: mem_write_def Let_def split: if_splits)
  have "int (length (mset_at p b (mfiles m))) \<le> maxEntries m"
    using assms(1) ent by (cases "map_of (mfiles m) p") (auto simp: mem_ok_def length_mset_at_new length_mset_at_old)
  then show ?thesis
    using assms(1) cap by (simp add: m' mem_ok_def mem_content_def mem_total_set)
qed

lemma mem_remove_ok:
  assumes "mem_ok m"
  shows "\<exists>m'. mem_remove p m = Inr (mem_content m p \<noteq> None, m') \<and> mem_ok m' \<and>
    mem_content m' = (mem_content m)(p := None)"
  using assms length_mdel_le [of p "mfiles m"] 
  by (auto simp: mem_remove_def mem_ok_def mem_content_def mem_total_del map_of_mdel len_or_zero_def split: option.splits)

lemma mem_list_ok:
  assumes "mem_ok m"
  shows "\<exists>ns. mem_list d m = Inr (join_lines ns) \<and> distinct ns \<and> set ns = {n. d @ js ''/'' @ n \<in> dom (mem_content m)}"
proof -
  let ?pre = "d @ js ''/''"
  let ?ps = "filter (\<lambda>p. take (length ?pre) p = ?pre) (map fst (mfiles m))"
  have whole: "p = ?pre @ drop (length ?pre) p" if "p \<in> set ?ps" for p
    using that append_take_drop_id [of "length ?pre" p] by auto
  have "inj_on (drop (length ?pre)) (set ?ps)" by (rule inj_onI) (metis whole)
  then have "distinct (map (drop (length ?pre)) ?ps)"
    using assms by (simp add: distinct_map mem_ok_def)
  moreover have "set (map (drop (length ?pre)) ?ps) = {n. d @ js ''/'' @ n \<in> dom (mem_content m)}" (is "?l = ?r")
  proof
    show "?l \<subseteq> ?r"
    proof
      fix n assume "n \<in> ?l"
      then obtain p where p: "p \<in> set ?ps" "n = drop (length ?pre) p" by auto
      have "p = d @ js ''/'' @ n" using whole [OF p(1)] p(2) by simp
      then show "n \<in> ?r" using p(1) by (auto simp: mem_content_def dom_map_of_conv_image_fst)
    qed
    show "?r \<subseteq> ?l"
    proof
      fix n assume "n \<in> ?r"
      then have "d @ js ''/'' @ n \<in> set ?ps" by (auto simp: mem_content_def dom_map_of_conv_image_fst image_iff)
      then show "n \<in> ?l" by (force simp: image_iff)
    qed
  qed
  ultimately show ?thesis
    by (intro exI [of _ "map (drop (length ?pre)) ?ps"]) (simp add: mem_list_def Let_def)
qed

interpretation mem: raw_files memoryRawFiles mem_content mem_ok
proof unfold_locales
  fix m :: memory_files and p :: jstr and n :: nat
  assume ok: "mem_ok m"
  show "rf_read memoryRawFiles p n m =
      (case mem_content m p of None \<Rightarrow> Inr None | Some b \<Rightarrow> if n < length b then Inl () else Inr (Some b))"
    by (simp add: memoryRawFiles_def mem_read_def mem_content_def split: option.splits)
  show "rf_size memoryRawFiles p m = Inr (case mem_content m p of None \<Rightarrow> - 1 | Some b \<Rightarrow> int (length b))"
    by (simp add: memoryRawFiles_def mem_size_def mem_content_def)
  show "\<exists>m'. rf_remove memoryRawFiles p m = Inr (mem_content m p \<noteq> None, m') \<and> mem_ok m' \<and>
      mem_content m' = (mem_content m)(p := None)"
    using mem_remove_ok [OF ok] by (simp add: memoryRawFiles_def)
  show "\<exists>ns. rf_list memoryRawFiles p m = Inr (join_lines ns) \<and> distinct ns \<and>
      set ns = {n. p @ js ''/'' @ n \<in> dom (mem_content m)}"
    using mem_list_ok [OF ok] by (simp add: memoryRawFiles_def)
  show "finite (dom (mem_content m))" by (simp add: mem_content_def finite_dom_map_of)
qed (auto simp: memoryRawFiles_def dest: mem_write_ok)

interpretation memfs: fs_store "filesFs memoryRawFiles" mem.fstore mem.finv isSafeFsKey "\<lambda>b. length b \<le> MAX_VALUE_BYTES"
  by (rule mem.files_fs_store)

section \<open>Properties\<close>

text \<open>A store as the host uses it: opened empty, then put to and deleted from under legal keys.\<close>

inductive memory_store :: "memory_files FilesFs \<Rightarrow> bool" where
  opened: "MemoryFs mb me = Inr s \<Longrightarrow> memory_store s"
| run: "memory_store s \<Longrightarrow> isSafeFsKey (op_key oper) \<Longrightarrow> op_fits (\<lambda>b. length b \<le> MAX_VALUE_BYTES) oper \<Longrightarrow>
    memory_store (fs_run (filesFs memoryRawFiles) oper s)"

lemma memory_store_finv: "memory_store s \<Longrightarrow> mem.finv s"
proof (induction rule: memory_store.induct)
  case (opened mb me s)
  then show ?case
    unfolding mem.finv_def
    by (auto simp: MemoryFs_def new_memory_files_def new_FilesFs_def mem_ok_def mem_content_def mem_total_def
        result_simps split: option.splits if_splits)
next
  case (run s oper)
  then show ?case by (auto intro: memfs.run_frame)
qed

definition app_view :: "jstr \<Rightarrow> memory_files FilesFs Fs" where
  "app_view scope = scoped_view (validatedFs (filesFs memoryRawFiles)) scope"

lemma app_view_get:
  "fs_get (app_view scope) k s =
     (if isSafeFsKey (scope @ k) then fs_get (filesFs memoryRawFiles) (scope @ k) s else Inl (Unsafe_Key (scope @ k)))"
  by (simp add: app_view_def scoped_view_def validatedFs_def checked_def)

text \<open>
  C11: apps cannot reach each other's files. Whatever sequence of puts and deletes an app makes
  through its scoped view, under any keys it likes, every read another app makes through its own
  scope answers as before; scopes are the fixed-length prefixes \<open>appScopeFor\<close> derives, and two
  different ones suffice.
\<close>

theorem fs_isolation:
  assumes "memory_store s" and "length a = length b" and "a \<noteq> b"
    and "\<forall>oper\<in>set ops. op_fits (\<lambda>x. length x \<le> MAX_VALUE_BYTES) oper"
  shows "fs_get (app_view b) k (fold (fs_run (app_view a)) ops s) = fs_get (app_view b) k s"
  using memfs.scope_isolation(1) [OF memory_store_finv [OF assms(1)] assms(2,3,4)]
  unfolding app_view_get by (simp add: app_view_def)

definition demo_store :: "memory_files FilesFs" where
  "demo_store = new_FilesFs \<lparr>mfiles = [], mused = 0, maxBytes = 100, maxEntries = 10\<rparr> (js ''memory'')"

lemma demo_store_opened: "memory_store demo_store"
  by (rule memory_store.opened [of "Fin 100" "Fin 10"])
     (simp add: MemoryFs_def new_memory_files_def demo_store_def MAX_SAFE_def)

theorem fs_isolation_witness:
  "fs_get (app_view (js ''b-'')) (js ''k'') (fold (fs_run (app_view (js ''a-''))) [Put (js ''k'') [1], Delete (js ''b-k'')] demo_store) =
     fs_get (app_view (js ''b-'')) (js ''k'') demo_store"
  by (rule fs_isolation [OF demo_store_opened]) (simp_all add: MAX_VALUE_BYTES_def)

text \<open>
  a scoped view is a map. After a put that succeeds through an app's view, reading that key
  gives the bytes put and every other key reads as before, with the key rule applied to the
  whole name, the scope included.
\<close>

theorem app_view_put_get:
  assumes "memory_store s" and "length b \<le> MAX_VALUE_BYTES" and "fs_put (app_view scope) k b s = (Inr (), s')"
  shows "fs_get (app_view scope) k' s' = (if k' = k then Inr (Some b) else fs_get (app_view scope) k' s)"
proof -
  have k: "isSafeFsKey (scope @ k)" and p: "fs_put (filesFs memoryRawFiles) (scope @ k) b s = (Inr (), s')"
    using assms(3) by (auto simp: app_view_def scoped_view_def validatedFs_def checked_upd_def split: if_splits)
  show ?thesis
    using memfs.get_after_put [OF memory_store_finv [OF assms(1)] k _ assms(2) p] k by (auto simp: app_view_get)
qed

lemma demo_put:
  "fs_put (app_view (js ''a-'')) (js ''k'') [7] demo_store =
     (Inr (), \<lparr>raw = \<lparr>mfiles = [(js ''memory/a-k'', [7])], mused = 1, maxBytes = 100, maxEntries = 10\<rparr>,
       fdir = js ''memory'', used = 1\<rparr>)"
proof -
  have "isSafeFsKey (js ''a-'' @ js ''k'')"
    by (simp add: isSafeFsKey_def SAFE_CHARS_def safe_char_def is_alnum_def isReservedDeviceName_def upper_unit_def
        RESERVED_DEVICE_NAMES_def js_eval upt_rec)
  then show ?thesis
    by (simp add: app_view_def scoped_view_def validatedFs_def checked_upd_def filesFs_def files_put_def demo_store_def
        new_FilesFs_def scan_def memoryRawFiles_def names_def mem_list_def Let_def file_path_def mem_size_def mem_write_def
        len_or_zero_def js_eval)
qed

theorem app_view_put_get_witness:
  "fs_get (app_view (js ''a-'')) (js ''k'') (snd (fs_put (app_view (js ''a-'')) (js ''k'') [7] demo_store)) = Inr (Some [7])"
  using app_view_put_get [OF demo_store_opened _ demo_put, of "js ''k''"] by (simp add: demo_put MAX_VALUE_BYTES_def)

text \<open>
  the reported usage is exact and the quotas hold. In every reachable in-memory store, a
  \<open>stat\<close> reports exactly the bytes held under legal keys, the files never exceed the byte and entry
  quotas, and nothing but values under legal keys is there.
\<close>

theorem memory_stat_exact:
  assumes "memory_store s" and "files_stat memoryRawFiles s = (Inr st, s')"
  shows "stat_used st = (\<Sum>k\<in>{k. isSafeFsKey k \<and> map_of (mfiles (raw s)) (fdir s @ js ''/'' @ k) \<noteq> None}.
      int (length (the (map_of (mfiles (raw s)) (fdir s @ js ''/'' @ k))))) \<and>
    mem_total (mfiles (raw s)) \<le> maxBytes (raw s) \<and> int (length (mfiles (raw s))) \<le> maxEntries (raw s)"
proof -
  have inv: "mem.finv s" by (rule memory_store_finv [OF assms(1)])
  have "dom (mem.fstore s) = {k. isSafeFsKey k \<and> map_of (mfiles (raw s)) (fdir s @ js ''/'' @ k) \<noteq> None}"
    by (auto simp: mem.fstore_def mem_content_def dom_def split: if_splits)
  then have "mem.total (mem.fstore s) = (\<Sum>k\<in>{k. isSafeFsKey k \<and> map_of (mfiles (raw s)) (fdir s @ js ''/'' @ k) \<noteq> None}.
      int (length (the (map_of (mfiles (raw s)) (fdir s @ js ''/'' @ k)))))"
    unfolding mem.total_def by (intro sum.cong) (auto simp: mem.fstore_def mem_content_def)
  moreover have "mem_ok (raw s)" using inv by (simp add: mem.finv_def)
  ultimately show ?thesis
    using mem.files_stat_law [OF inv assms(2)] by (simp add: mem_ok_def)
qed

theorem memory_stat_exact_witness:
  "mem_total (mfiles (raw demo_store)) \<le> maxBytes (raw demo_store)"
proof -
  have "\<exists>st s'. files_stat memoryRawFiles demo_store = (Inr st, s')"
    by (simp add: files_stat_def demo_store_def new_FilesFs_def scan_def memoryRawFiles_def names_def mem_list_def Let_def)
  with memory_stat_exact [OF demo_store_opened] show ?thesis by blast
qed

end
