(* ===== verification/Node_Service.thy ===== *)
theory Node_Service
  imports Bundle_Author
begin

text \<open>
  \<^verbatim>\<open>WASM/services/node.ts\<close> and \<^verbatim>\<open>WASM/host/subkeys.ts\<close>: what the node's one key signs for each slot, and how
  that key is derived. The signing primitives are parameters; a verifier that throws answers
  \<open>None\<close>.
\<close>

section \<open>The node key\<close>

record SubkeyCrypto =
  sub_generichash :: "nat \<Rightarrow> bytes \<Rightarrow> bytes option \<Rightarrow> bytes"
  sub_seed_keypair :: "bytes \<Rightarrow> Keypair"

definition deriveNodeKey :: "SubkeyCrypto \<Rightarrow> bytes \<Rightarrow> (nat, Keypair) result" where
  "deriveNodeKey sodium master =
     (if length master \<noteq> 32 then Inl (length master)
      else let seed = sub_generichash sodium 32
                 (concatBytes [DOMAIN_SUBKEY, utf8Encode (js ''seedkernel-subkey-channel-v1'' @ NUL), master]) None
           in Inr (sub_seed_keypair sodium seed))"

section \<open>Scopes\<close>

record SignScope =
  scope_domain :: bytes
  scope_bytes :: bytes
  scope_key :: Keypair

datatype node_error = App_Name_Too_Long | Verify_Payload_Short

definition appSignScope :: "Keypair \<Rightarrow> jstr \<Rightarrow> (node_error, SignScope) result" where
  "appSignScope key ap =
     (let appBytes = utf8Encode ap in
      if 255 < length appBytes then Inl App_Name_Too_Long
      else Inr \<lparr>scope_domain = DOMAIN_GUEST, scope_bytes = concatBytes [[of_nat (length appBytes)], appBytes], scope_key = key\<rparr>)"

definition slotSignScope :: "Keypair \<Rightarrow> jstr \<Rightarrow> bool \<Rightarrow> (node_error, SignScope) result" where
  "slotSignScope identity ap links =
     (if links then Inr \<lparr>scope_domain = DOMAIN_LINK_SCOPE, scope_bytes = [], scope_key = identity\<rparr>
      else appSignScope identity ap)"

section \<open>Signing under a scope\<close>

record SeamCrypto =
  seam_sign_detached :: "bytes \<Rightarrow> bytes \<Rightarrow> bytes"
  seam_verify_detached :: "bytes \<Rightarrow> bytes \<Rightarrow> bytes \<Rightarrow> bool option"

definition scoped_input :: "SignScope \<Rightarrow> bytes \<Rightarrow> bytes" where
  "scoped_input sc msg = concatBytes [scope_domain sc, scope_bytes sc, msg]"

definition scoped_sign :: "SeamCrypto \<Rightarrow> SignScope \<Rightarrow> bytes \<Rightarrow> bytes" where
  "scoped_sign sodium sc msg = seam_sign_detached sodium (scoped_input sc msg) (privateKey (scope_key sc))"

definition scoped_verify :: "SeamCrypto \<Rightarrow> SignScope \<Rightarrow> bytes \<Rightarrow> bytes \<Rightarrow> bytes \<Rightarrow> bool" where
  "scoped_verify sodium sc pk sig msg =
     (case seam_verify_detached sodium sig (scoped_input sc msg) pk of None \<Rightarrow> False | Some ok \<Rightarrow> ok)"

definition appSigner :: "SeamCrypto \<Rightarrow> Keypair \<Rightarrow> jstr \<Rightarrow> (node_error, (bytes \<Rightarrow> bytes) \<times> (bytes \<Rightarrow> bytes \<Rightarrow> bytes \<Rightarrow> bool)) result" where
  "appSigner sodium key ap = rbind (appSignScope key ap) (\<lambda>sc. Inr (scoped_sign sodium sc, scoped_verify sodium sc))"

definition node_sign :: "SeamCrypto \<Rightarrow> SignScope \<Rightarrow> bytes \<Rightarrow> bytes" where
  "node_sign sodium sc payload = scoped_sign sodium sc payload"

definition node_verify :: "SeamCrypto \<Rightarrow> SignScope \<Rightarrow> bytes \<Rightarrow> (node_error, bytes) result" where
  "node_verify sodium sc payload =
     (if length payload < 96 then Inl Verify_Payload_Short
      else Inr (if scoped_verify sodium sc (subarray payload 0 32) (subarray payload 32 96) (drop 96 payload)
                then [1] else [0]))"

section \<open>Facts\<close>

lemma appSignScope_ok:
  "appSignScope key ap = Inr sc \<longleftrightarrow> length (utf8Encode ap) \<le> 255 \<and>
     sc = \<lparr>scope_domain = DOMAIN_GUEST, scope_bytes = of_nat (length (utf8Encode ap)) # utf8Encode ap, scope_key = key\<rparr>"
  by (auto simp: appSignScope_def Let_def concatBytes_def)

lemma slotSignScope_domain:
  "slotSignScope key ap links = Inr sc \<Longrightarrow> scope_domain sc = (if links then DOMAIN_LINK_SCOPE else DOMAIN_GUEST)"
  by (auto simp: slotSignScope_def appSignScope_ok split: if_splits)

lemma length_prefix_split:
  assumes "of_nat (length a) # a @ x = of_nat (length b) # b @ (y :: bytes)" and "length a \<le> 255" and "length b \<le> 255"
  shows "a = b \<and> x = y"
proof -
  have n: "(of_nat (length a) :: byte) = of_nat (length b)" and eq: "a @ x = b @ y" using assms(1) by simp_all
  have "length a = length b"
    using arg_cong [OF n, of unat] assms(2,3) unat_of_nat_byte [of "length a"] unat_of_nat_byte [of "length b"]
    by linarith
  with eq show ?thesis by simp
qed

text \<open>
  C12: a slot's signatures stay in its namespace. The bytes the node key signs for a slot
  determine whether the slot is the link holder, the app label when it is not, and the
  message: two slots never sign the same bytes unless they are the same kind of slot with the
  same label and the message is the same. And no slot ever signs the bytes of a manifest or host
  envelope, whatever message it supplies.
\<close>

theorem sign_scope_separation:
  assumes "slotSignScope k1 app1 links1 = Inr s1" and "slotSignScope k2 app2 links2 = Inr s2"
    and "isWellFormed app1" and "isWellFormed app2"
  shows "(scoped_input s1 m1 = scoped_input s2 m2 \<longrightarrow>
      links1 = links2 \<and> (links1 \<or> app1 = app2) \<and> m1 = m2) \<and>
    (\<forall>d\<in>{DOMAIN_MANIFEST, DOMAIN_HOST}. scoped_input s1 m1 \<noteq> envelopeSigningInput sodium d edPk mlPk body')"
proof -
  have dom: "scope_domain s1 = (if links1 then DOMAIN_LINK_SCOPE else DOMAIN_GUEST)"
    "scope_domain s2 = (if links2 then DOMAIN_LINK_SCOPE else DOMAIN_GUEST)"
    using slotSignScope_domain assms(1,2) by blast+
  have mem: "scope_domain s1 \<in> set DOMAINS" "scope_domain s2 \<in> set DOMAINS" by (simp_all add: dom)
  have "links1 = links2 \<and> (links1 \<or> app1 = app2) \<and> m1 = m2" if "scoped_input s1 m1 = scoped_input s2 m2"
  proof -
    have "scope_domain s1 = scope_domain s2 \<and> scope_bytes s1 @ m1 = scope_bytes s2 @ m2"
      using domain_separation [OF mem] that by (simp add: scoped_input_def concatBytes_def)
    then have l: "links1 = links2" and b: "scope_bytes s1 @ m1 = scope_bytes s2 @ m2"
      using dom by (auto split: if_splits)
    show ?thesis
    proof (cases links1)
      case True
      then show ?thesis using b l assms(1,2) by (auto simp: slotSignScope_def)
    next
      case False
      then have "utf8Encode app1 = utf8Encode app2 \<and> m1 = m2"
        using b l assms(1,2) length_prefix_split [of "utf8Encode app1" m1 "utf8Encode app2" m2]
        by (auto simp: slotSignScope_def appSignScope_ok)
      then show ?thesis using l utf8Encode_inj [OF assms(3,4)] by simp
    qed
  qed
  moreover have "scoped_input s1 m1 \<noteq> envelopeSigningInput sodium d edPk mlPk body'"
    if "d \<in> {DOMAIN_MANIFEST, DOMAIN_HOST}" for d
  proof
    assume "scoped_input s1 m1 = envelopeSigningInput sodium d edPk mlPk body'"
    then have "scope_domain s1 = d"
      using domain_separation [OF mem(1), of d] that by (auto simp: scoped_input_def envelopeSigningInput_def concatBytes_def)
    moreover have "scope_domain s1 \<noteq> DOMAIN_MANIFEST" "scope_domain s1 \<noteq> DOMAIN_HOST"
      using DOMAINS_distinct by (auto simp: dom DOMAINS_def)
    ultimately show False using that by auto
  qed
  ultimately show ?thesis by blast
qed

theorem sign_scope_separation_witness:
  "\<exists>s1 s2. slotSignScope \<lparr>publicKey = [], privateKey = []\<rparr> (js ''a'') False = Inr s1 \<and>
     slotSignScope \<lparr>publicKey = [], privateKey = []\<rparr> (js ''ab'') False = Inr s2 \<and>
     scoped_input s1 [98, 1] \<noteq> scoped_input s2 [1]"
proof -
  have a: "is_ascii (js ''a'')" "is_ascii (js ''ab'')" by (simp_all add: is_ascii_def js_eval)
  obtain s1 s2 where s: "slotSignScope \<lparr>publicKey = [], privateKey = []\<rparr> (js ''a'') False = Inr s1"
    "slotSignScope \<lparr>publicKey = [], privateKey = []\<rparr> (js ''ab'') False = Inr s2"
    using a by (auto simp: slotSignScope_def appSignScope_ok utf8Encode_ascii)
  have "scoped_input s1 [98, 1] \<noteq> scoped_input s2 [1]"
    using sign_scope_separation [OF s isWellFormed_ascii [OF a(1)] isWellFormed_ascii [OF a(2)], of "[98, 1]" "[1]"] by auto
  with s show ?thesis by blast
qed

end
