(* ===== verification/Guest_Seam.thy ===== *)
theory Guest_Seam
  imports Bundle Node_Service
begin

text \<open>
  \<^verbatim>\<open>WASM/host/guest-seam.ts\<close>: the budget of a guest's execution segment, the crypto transforms, and
  \<open>host.call\<close>, one map from names to handlers built from what the bundle declares. A handler runs
  to its answer, an error standing for a throw or a rejection, and may change the world \<open>'w\<close> behind
  the services. The libsodium functions, the other realms and the module workers are parameters.
\<close>

datatype seam_error =
    Host_Call_Spent | Bad_Blake2b_Frame | Random_Over_Cap | Bad_Aead_Frame | Ad_Past_Call
  | Service_Not_Provided jstr | No_Realm_Claims jstr | Module_Failed jstr | No_Such_Name jstr
  | Handler_Error

section \<open>The call budget\<close>

text \<open>
  \<open>consumedMs\<close> is the spend record the budget bills, and \<open>causalClock\<close> the charges made to the clock
  of self-initiated work, if the call belongs to any.
\<close>

record CallBudget =
  remainingMs :: jsnum
  causalClock :: "rat list option"
  consumedMs :: rat
  detached :: bool

fun le_zero :: "jsnum \<Rightarrow> bool" where
  "le_zero (Fin q) = (q \<le> 0)"
| "le_zero NegInf = True"
| "le_zero _ = False"

definition new_CallBudget :: "jsnum \<Rightarrow> rat list option \<Rightarrow> rat \<Rightarrow> (seam_error, CallBudget) result" where
  "new_CallBudget remaining clock spend =
     (if le_zero remaining then Inl Host_Call_Spent
      else Inr \<lparr>remainingMs = remaining, causalClock = clock, consumedMs = spend, detached = False\<rparr>)"

definition budget_charge :: "rat \<Rightarrow> CallBudget \<Rightarrow> CallBudget" where
  "budget_charge ms b =
     (if ms \<le> 0 then b
      else b\<lparr>consumedMs := consumedMs b + ms, causalClock := map_option (\<lambda>cs. cs @ [ms]) (causalClock b)\<rparr>)"

definition budget_detach :: "CallBudget \<Rightarrow> CallBudget" where
  "budget_detach b = b\<lparr>detached := True\<rparr>"

section \<open>The crypto transforms\<close>

record transform_crypto = SeamCrypto +
  seam_generichash :: "nat \<Rightarrow> bytes \<Rightarrow> bytes option \<Rightarrow> bytes"
  seam_randombytes_buf :: "nat \<Rightarrow> bytes"
  seam_aead_encrypt :: "bytes \<Rightarrow> bytes option \<Rightarrow> bytes \<Rightarrow> bytes \<Rightarrow> bytes"
  seam_aead_decrypt :: "bytes \<Rightarrow> bytes option \<Rightarrow> bytes \<Rightarrow> bytes \<Rightarrow> bytes option"
  seam_scalarmult :: "bytes \<Rightarrow> bytes \<Rightarrow> bytes option"

definition MAX_RANDOM_BYTES :: nat where
  "MAX_RANDOM_BYTES = 2 ^ 20"

record aead_args =
  aa_npub :: bytes
  aa_key :: bytes
  aa_ad :: "bytes option"
  aa_body :: bytes

definition aeadArgs :: "bytes \<Rightarrow> (seam_error, aead_args) result" where
  "aeadArgs a =
     (if length a < 48 then Inl Bad_Aead_Frame
      else let adLen = readU32BE a 44 in
        if length a - 48 < adLen then Inl Ad_Past_Call
        else Inr \<lparr>aa_npub = subarray a 0 12, aa_key = subarray a 12 44,
                  aa_ad = (if adLen = 0 then None else Some (subarray a 48 (48 + adLen))),
                  aa_body = drop (48 + adLen) a\<rparr>)"

definition crypto_blake2b :: "transform_crypto \<Rightarrow> bytes \<Rightarrow> (seam_error, bytes) result" where
  "crypto_blake2b sodium a =
     (if length a < 2 then Inl Bad_Blake2b_Frame
      else let outLen = unat (a ! 0); keyLen = unat (a ! 1) in
        if outLen < 1 \<or> 64 < outLen \<or> 64 < keyLen \<or> length a < 2 + keyLen then Inl Bad_Blake2b_Frame
        else Inr (seam_generichash sodium outLen (drop (2 + keyLen) a)
                   (if keyLen = 0 then None else Some (subarray a 2 (2 + keyLen)))))"

definition crypto_random :: "transform_crypto \<Rightarrow> bytes \<Rightarrow> (seam_error, bytes) result" where
  "crypto_random sodium a =
     (let n = readU32BE a 0 in if MAX_RANDOM_BYTES < n then Inl Random_Over_Cap else Inr (seam_randombytes_buf sodium n))"

definition crypto_seal :: "transform_crypto \<Rightarrow> bytes \<Rightarrow> (seam_error, bytes) result" where
  "crypto_seal sodium a =
     rbind (aeadArgs a) (\<lambda>x. Inr (seam_aead_encrypt sodium (aa_body x) (aa_ad x) (aa_npub x) (aa_key x)))"

definition crypto_open :: "transform_crypto \<Rightarrow> bytes \<Rightarrow> (seam_error, bytes) result" where
  "crypto_open sodium a =
     rbind (aeadArgs a) (\<lambda>x.
       case seam_aead_decrypt sodium (aa_body x) (aa_ad x) (aa_npub x) (aa_key x) of
         None \<Rightarrow> Inr [0]
       | Some pt \<Rightarrow> Inr (concatBytes [[1], pt]))"

definition crypto_dh :: "transform_crypto \<Rightarrow> bytes \<Rightarrow> (seam_error, bytes) result" where
  "crypto_dh sodium a =
     (case seam_scalarmult sodium (subarray a 0 32) (subarray a 32 64) of
        None \<Rightarrow> Inr [0]
      | Some k \<Rightarrow> Inr (concatBytes [[1], k]))"

type_synonym 'w SeamHandler = "bytes \<Rightarrow> CallBudget \<Rightarrow> 'w \<Rightarrow> (seam_error, bytes) result \<times> CallBudget \<times> 'w"

definition transform :: "(bytes \<Rightarrow> (seam_error, bytes) result) \<Rightarrow> 'w SeamHandler" where
  "transform f = (\<lambda>a b w. (f a, b, w))"

definition hostTransforms :: "transform_crypto \<Rightarrow> (jstr \<times> 'w SeamHandler) list" where
  "hostTransforms sodium =
     [(js ''crypto/blake2b'', transform (crypto_blake2b sodium)),
      (js ''crypto/random'', transform (crypto_random sodium)),
      (js ''crypto/chacha20poly1305-ietf/seal'', transform (crypto_seal sodium)),
      (js ''crypto/chacha20poly1305-ietf/open'', transform (crypto_open sodium)),
      (js ''crypto/x25519/dh'', transform (crypto_dh sodium))]"

section \<open>The seam\<close>

text \<open>
  \<open>seam_services\<close> is what the node offers a slot, \<open>seam_callLocal\<close> a call to the realm that claims a
  local id (\<open>None\<close> when nothing claims it), and \<open>seam_module_call\<close> a call to one of the bundle's own
  modules, answering its bytes (\<open>None\<close> for a failed module) and the time it took.
\<close>

record 'w GuestSeamDeps =
  seam_sodium :: transform_crypto
  seam_requires :: "jstr list"
  seam_services :: "jstr \<Rightarrow> (jstr \<times> 'w SeamHandler) list option"
  seam_callLocal :: "jstr \<Rightarrow> bytes \<Rightarrow> jsnum \<Rightarrow> rat list option \<Rightarrow> 'w \<Rightarrow>
    ((seam_error, bytes) result \<times> rat list option \<times> 'w) option"
  seam_module_names :: "jstr list"
  seam_module_call :: "jstr \<Rightarrow> bytes \<Rightarrow> jsnum \<Rightarrow> 'w \<Rightarrow> (seam_error, bytes option \<times> rat) result \<times> 'w"

definition addHost :: "(jstr \<times> 'h) list \<Rightarrow> (jstr \<rightharpoonup> 'h) \<Rightarrow> (jstr \<rightharpoonup> 'h)" where
  "addHost handlers r = fold (\<lambda>(n, f) r. r(n \<mapsto> f)) handlers r"

definition local_route :: "'w GuestSeamDeps \<Rightarrow> jstr \<Rightarrow> 'w SeamHandler" where
  "local_route d i = (\<lambda>payload b w.
     case seam_callLocal d i payload (remainingMs b) (causalClock b) w of
       None \<Rightarrow> (Inl (No_Realm_Claims i), b, w)
     | Some (r, clock, w) \<Rightarrow> (r, b\<lparr>causalClock := clock\<rparr>, w))"

definition module_route :: "'w GuestSeamDeps \<Rightarrow> jstr \<Rightarrow> 'w SeamHandler" where
  "module_route d n = (\<lambda>payload b w.
     case seam_module_call d n payload (remainingMs b) w of
       (Inl e, w) \<Rightarrow> (Inl e, b, w)
     | (Inr (bytes, ms), w) \<Rightarrow>
         (case bytes of None \<Rightarrow> Inl (Module_Failed n) | Some x \<Rightarrow> Inr x, budget_charge ms b, w))"

definition add_required :: "'w GuestSeamDeps \<Rightarrow> jstr \<Rightarrow> (jstr \<rightharpoonup> 'w SeamHandler) \<Rightarrow> (seam_error, jstr \<rightharpoonup> 'w SeamHandler) result" where
  "add_required d i r =
     (if isService i
      then (case seam_services d i of
              None \<Rightarrow> Inl (Service_Not_Provided i)
            | Some handlers \<Rightarrow> Inr (addHost handlers r))
      else Inr (r(i \<mapsto> local_route d i)))"

definition js_set :: "jstr list \<Rightarrow> jstr list" where
  "js_set xs = rev (remdups (rev xs))"

definition seam_routes :: "'w GuestSeamDeps \<Rightarrow> (seam_error, jstr \<rightharpoonup> 'w SeamHandler) result" where
  "seam_routes d =
     rbind (rfold (add_required d) (js_set (seam_requires d)) (addHost (hostTransforms (seam_sodium d)) Map.empty)) (\<lambda>r.
       Inr (fold (\<lambda>n r. r(n \<mapsto> module_route d n)) (seam_module_names d) r))"

definition seam_call :: "(jstr \<rightharpoonup> 'w SeamHandler) \<Rightarrow> jstr \<Rightarrow> 'w SeamHandler" where
  "seam_call r name = (\<lambda>payload b w.
     case r name of None \<Rightarrow> (Inl (No_Such_Name name), b, w) | Some f \<Rightarrow> f payload b w)"

definition createGuestSeam :: "'w GuestSeamDeps \<Rightarrow> (seam_error, jstr \<Rightarrow> 'w SeamHandler) result" where
  "createGuestSeam d = rbind (seam_routes d) (\<lambda>r. Inr (seam_call r))"

definition borrows :: "jstr \<Rightarrow> bool" where
  "borrows name \<longleftrightarrow> (\<exists>p \<in> {js ''crypto/'', js ''node/'', js ''fs/''}. take (length p) name = p)"

section \<open>Facts about the routes\<close>

lemma addHost_dom: "dom (addHost hs r) = fst ` set hs \<union> dom r"
  unfolding addHost_def by (induction hs arbitrary: r) (auto split: prod.splits)

lemma addHost_other: "n \<notin> fst ` set hs \<Longrightarrow> addHost hs r n = r n"
  unfolding addHost_def by (induction hs arbitrary: r) (auto split: prod.splits)

lemma js_set_set [simp]: "set (js_set xs) = set xs" "distinct (js_set xs)"
  by (simp_all add: js_set_def)

definition host_names :: "jstr list" where
  "host_names = map (\<lambda>t. js ''crypto/'' @ t) HOST_TRANSFORM_NAMES"

definition method_names :: "jstr \<Rightarrow> jstr list" where
  "method_names i = (case map_of HOST_SERVICES i of None \<Rightarrow> [] | Some a \<Rightarrow> map (\<lambda>c. i @ js ''/'' @ c) (calls a))"

text \<open>What the type \<open>SeamServices\<close> says: an offered service comes with exactly its methods.\<close>

definition services_typed :: "'w GuestSeamDeps \<Rightarrow> bool" where
  "services_typed d \<longleftrightarrow> (\<forall>i hs. isService i \<longrightarrow> seam_services d i = Some hs \<longrightarrow> fst ` set hs = set (method_names i))"

lemma hostTransforms_names: "fst ` set (hostTransforms sodium) = set host_names"
  by (auto simp: hostTransforms_def host_names_def HOST_TRANSFORM_NAMES_def js_eval)

text \<open>The names one declared id contributes, and the names a whole seam reaches.\<close>

definition names_of :: "jstr \<Rightarrow> jstr set" where
  "names_of i = (if isService i then set (method_names i) else {i})"

definition reachable_names :: "'w GuestSeamDeps \<Rightarrow> jstr set" where
  "reachable_names d = set host_names \<union> (\<Union>i \<in> set (seam_requires d). names_of i) \<union> set (seam_module_names d)"

lemma fold_updates_other: "n \<notin> set ns \<Longrightarrow> fold (\<lambda>n r. r(n \<mapsto> f n)) ns r n = r n"
  by (induction ns arbitrary: r) auto

lemma fold_updates_in: "n \<in> set ns \<Longrightarrow> fold (\<lambda>n r. r(n \<mapsto> f n)) ns r n = Some (f n)"
proof (induction ns arbitrary: r)
  case (Cons m ns)
  then show ?case by (cases "n \<in> set ns") (auto simp: fold_updates_other fun_upd_same simp del: fun_upd_apply)
qed simp

lemma fold_updates_dom: "dom (fold (\<lambda>n r. r(n \<mapsto> f n)) ns r) = set ns \<union> dom r"
  by (induction ns arbitrary: r) auto

lemma add_required_dom:
  assumes "services_typed d" "add_required d i r = Inr r'"
  shows "dom r' = names_of i \<union> dom r"
proof (cases "isService i")
  case True
  then obtain hs where hs: "seam_services d i = Some hs" "r' = addHost hs r"
    using assms(2) by (auto simp: add_required_def split: option.splits)
  then have "fst ` set hs = set (method_names i)" using assms(1) True by (simp add: services_typed_def)
  then show ?thesis using True addHost_dom [of hs r] by (simp add: hs(2) names_of_def)
next
  case False
  then show ?thesis using assms(2) by (auto simp: add_required_def names_of_def)
qed

lemma required_dom:
  "services_typed d \<Longrightarrow> rfold (add_required d) is r = Inr r' \<Longrightarrow> dom r' = (\<Union>i \<in> set is. names_of i) \<union> dom r"
proof (induction "is" arbitrary: r)
  case (Cons i "is")
  then obtain r1 where r1: "add_required d i r = Inr r1" "rfold (add_required d) is r1 = Inr r'"
    by (auto simp: result_simps)
  from Cons.IH [OF Cons.prems(1) r1(2)] add_required_dom [OF Cons.prems(1) r1(1)] show ?case
    by (simp add: Un_assoc Un_left_commute)
qed simp

lemma seam_routes_dom:
  assumes "services_typed d" and "seam_routes d = Inr r"
  shows "dom r = reachable_names d"
proof -
  obtain r' where r': "rfold (add_required d) (js_set (seam_requires d)) (addHost (hostTransforms (seam_sodium d)) Map.empty) = Inr r'"
    and r: "r = fold (\<lambda>n r. r(n \<mapsto> module_route d n)) (seam_module_names d) r'"
    using assms(2) by (auto simp: seam_routes_def result_simps)
  show ?thesis
    using required_dom [OF assms(1) r'] unfolding r fold_updates_dom reachable_names_def
    by (auto simp: addHost_dom hostTransforms_names)
qed

lemma required_keeps:
  "services_typed d \<Longrightarrow> rfold (add_required d) is r = Inr r' \<Longrightarrow> n \<notin> (\<Union>i \<in> set is. names_of i) \<Longrightarrow> r' n = r n"
proof (induction "is" arbitrary: r)
  case (Cons i "is")
  then obtain r1 where r1: "add_required d i r = Inr r1" "rfold (add_required d) is r1 = Inr r'"
    by (auto simp: result_simps)
  have "r1 n = r n"
    using r1(1) Cons.prems by (auto simp: add_required_def names_of_def services_typed_def addHost_other split: if_splits option.splits)
  with Cons.IH [OF Cons.prems(1) r1(2)] Cons.prems show ?case by simp
qed simp

lemma required_local:
  assumes "services_typed d" "rfold (add_required d) is r = Inr r'" "i \<in> set is" "\<not> isService i"
    and "\<And>j. j \<in> set is \<Longrightarrow> isService j \<Longrightarrow> i \<notin> set (method_names j)"
  shows "r' i = Some (local_route d i)"
  using assms
proof (induction "is" arbitrary: r)
  case (Cons j "is")
  then obtain r1 where r1: "add_required d j r = Inr r1" "rfold (add_required d) is r1 = Inr r'"
    by (auto simp: result_simps)
  show ?case
  proof (cases "i \<in> set is")
    case True
    then show ?thesis using Cons.IH [OF Cons.prems(1) r1(2)] Cons.prems by simp
  next
    case False
    then have i: "j = i" using Cons.prems by simp
    have "i \<notin> (\<Union>k \<in> set is. names_of k)" using False Cons.prems by (auto simp: names_of_def)
    from required_keeps [OF Cons.prems(1) r1(2) this] have "r' i = r1 i" .
    moreover have "r1 = r(i \<mapsto> local_route d i)" using r1(1) i Cons.prems(4) by (simp add: add_required_def)
    ultimately show ?thesis by simp
  qed
qed simp

section \<open>An admitted manifest's seam\<close>

lemma method_head:
  assumes "isService i" "n \<in> set (method_names i)"
  shows "name_head n = i" "47 \<in> set n"
  using assms by (auto simp: isService_iff method_names_def HOST_SERVICES_def name_head_def js_eval)

lemma crypto_head: "n \<in> set host_names \<Longrightarrow> name_head n = js ''crypto'' \<and> 47 \<in> set n"
  by (auto simp: host_names_def HOST_TRANSFORM_NAMES_def name_head_def js_eval)

lemma NAME_RE_no_slash: "NAME_RE n \<Longrightarrow> 47 \<notin> set n"
  by (auto simp: NAME_RE_def is_alnum_def list_all_iff split: list.splits)

text \<open>The seam a slot with manifest \<open>m\<close> is built with.\<close>

definition seam_of_manifest :: "BundleManifest \<Rightarrow> 'w GuestSeamDeps \<Rightarrow> bool" where
  "seam_of_manifest m d \<longleftrightarrow> manifest_ok m \<and> services_typed d \<and>
     seam_requires d = requires (guest m) \<and> seam_module_names d = modules m"

lemma manifest_disjoint:
  assumes "seam_of_manifest m d" "n \<in> set (modules m)" "i \<in> set (requires (guest m))"
  shows "n \<notin> names_of i" "n \<notin> set host_names"
proof -
  have "NAME_RE n" using assms by (auto simp: seam_of_manifest_def manifest_ok_def list_all_iff)
  then have slash: "47 \<notin> set n" by (rule NAME_RE_no_slash)
  then show "n \<notin> set host_names" using crypto_head by blast
  have "reach_ok (modules m) i" using assms by (auto simp: seam_of_manifest_def manifest_ok_def list_all_iff)
  then show "n \<notin> names_of i"
    using slash assms(2) method_head(2) [of i n] by (auto simp: names_of_def reach_ok_def)
qed

lemma local_not_host:
  assumes "seam_of_manifest m d" "i \<in> set (requires (guest m))" "\<not> isService i"
  shows "\<not> isHostNamespace (name_head i)"
  using assms by (auto simp: seam_of_manifest_def manifest_ok_def list_all_iff reach_ok_def)

text \<open>
  C3: confinement. For an admitted manifest, \<open>host.call\<close> reaches exactly the crypto names, the
  methods of the host services the manifest declares, the declared local ids and the bundle's own
  modules. A host service's method is reachable exactly when the manifest declares that service,
  and a call to any other name is refused with the world and the budget untouched.
\<close>

theorem seam_confinement:
  assumes "seam_of_manifest m d" and "seam_routes d = Inr r"
  shows "dom r = reachable_names d \<and>
    (\<forall>i n. isService i \<longrightarrow> n \<in> set (method_names i) \<longrightarrow> (n \<in> dom r \<longleftrightarrow> i \<in> set (requires (guest m)))) \<and>
    (\<forall>n payload b w. n \<notin> reachable_names d \<longrightarrow> seam_call r n payload b w = (Inl (No_Such_Name n), b, w))"
proof -
  have typed: "services_typed d" and req: "seam_requires d = requires (guest m)" and mods: "seam_module_names d = modules m"
    using assms(1) by (simp_all add: seam_of_manifest_def)
  have dom: "dom r = reachable_names d" by (rule seam_routes_dom [OF typed assms(2)])
  have meth: "n \<in> reachable_names d \<longleftrightarrow> i \<in> set (requires (guest m))" if i: "isService i" and n: "n \<in> set (method_names i)" for i n
  proof -
    note h = method_head [OF i n]
    have svc: "i \<noteq> js ''crypto''" using i by (auto simp: isService_iff)
    have "n \<notin> set host_names" using crypto_head [of n] h svc by auto
    moreover have "n \<notin> set (modules m)"
      using assms(1) NAME_RE_no_slash [of n] h by (auto simp: seam_of_manifest_def manifest_ok_def list_all_iff)
    moreover have "n \<in> names_of j \<longleftrightarrow> j = i" if j: "j \<in> set (requires (guest m))" for j
    proof (cases "isService j")
      case True
      then show ?thesis using method_head(1) [OF True] h n by (auto simp: names_of_def)
    next
      case False
      then show ?thesis using local_not_host [OF assms(1) j] h i by (auto simp: names_of_def isHostNamespace_def)
    qed
    ultimately show ?thesis by (auto simp: reachable_names_def req mods)
  qed
  have "seam_call r n payload b w = (Inl (No_Such_Name n), b, w)" if "n \<notin> reachable_names d" for n payload b w
  proof -
    have "r n = None" using that dom by auto
    then show ?thesis by (simp add: seam_call_def)
  qed
  with dom meth show ?thesis by simp
qed

text \<open>
  for an admitted manifest the names never collide, so every name reaches its own handler whatever
  order the map was filled in: a declared local id the realm that claims it, a module name that
  module, whose processing time is billed to the caller whether it answered or failed.
\<close>

theorem seam_routes_each_name:
  assumes "seam_of_manifest m d" and "seam_routes d = Inr r"
  shows "(\<forall>i \<in> set (requires (guest m)). \<not> isService i \<longrightarrow> r i = Some (local_route d i)) \<and>
    (\<forall>n \<in> set (modules m). r n = Some (module_route d n)) \<and>
    (\<forall>n \<in> set (modules m). \<forall>payload b w ans ms w'. seam_module_call d n payload (remainingMs b) w = (Inr (ans, ms), w') \<longrightarrow>
      0 < ms \<longrightarrow> consumedMs (fst (snd (seam_call r n payload b w))) = consumedMs b + ms)"
proof -
  have typed: "services_typed d" and req: "seam_requires d = requires (guest m)" and mods: "seam_module_names d = modules m"
    using assms(1) by (simp_all add: seam_of_manifest_def)
  obtain r' where r': "rfold (add_required d) (js_set (seam_requires d)) (addHost (hostTransforms (seam_sodium d)) Map.empty) = Inr r'"
    and r: "r = fold (\<lambda>n r. r(n \<mapsto> module_route d n)) (seam_module_names d) r'"
    using assms(2) by (auto simp: seam_routes_def result_simps)
  have mod: "r n = Some (module_route d n)" if "n \<in> set (modules m)" for n
    using fold_updates_in [of n "modules m"] that by (simp add: r mods)
  have loc: "r i = Some (local_route d i)" if i: "i \<in> set (requires (guest m))" "\<not> isService i" for i
  proof -
    have "i \<notin> set (modules m)" using manifest_disjoint(1) [OF assms(1) _ i(1)] i(2) by (auto simp: names_of_def)
    then have "r i = r' i" using fold_updates_other [of i "modules m"] by (simp add: r mods)
    also have "r' i = Some (local_route d i)"
    proof (rule required_local [OF typed r'])
      show "i \<notin> set (method_names j)" if "isService j" for j
        using method_head(1) [OF that, of i] that local_not_host [OF assms(1) i] by (auto simp: isHostNamespace_def)
    qed (use i req in simp_all)
    finally show ?thesis .
  qed
  show ?thesis using mod loc by (auto simp: seam_call_def module_route_def budget_charge_def)
qed

lemma rfold_add_required:
  "(\<exists>r'. rfold (add_required d) is r = Inr r') \<longleftrightarrow> (\<forall>i \<in> set is. isService i \<longrightarrow> seam_services d i \<noteq> None)"
proof (induction "is" arbitrary: r)
  case (Cons i "is")
  show ?case
  proof (cases "add_required d i r")
    case (Inl e)
    then have "isService i \<and> seam_services d i = None" by (auto simp: add_required_def split: if_splits option.splits)
    with Inl show ?thesis by auto
  next
    case (Inr r1)
    then have "isService i \<longrightarrow> seam_services d i \<noteq> None" by (auto simp: add_required_def split: if_splits option.splits)
    with Inr Cons.IH [of r1] show ?thesis by auto
  qed
qed simp

text \<open>
  a declared service the node does not offer fails the construction of the seam, so the bundle
  fails at install; with every declared service offered, construction succeeds.
\<close>

theorem seam_construction:
  "(\<exists>call. createGuestSeam d = Inr call) \<longleftrightarrow>
   (\<forall>i \<in> set (seam_requires d). \<not> (isService i \<and> seam_services d i = None))"
proof -
  have "(\<exists>call. createGuestSeam d = Inr call) \<longleftrightarrow>
      (\<exists>r. rfold (add_required d) (js_set (seam_requires d)) (addHost (hostTransforms (seam_sodium d)) Map.empty) = Inr r)"
    by (auto simp: createGuestSeam_def seam_routes_def result_simps)
  then show ?thesis unfolding rfold_add_required by auto
qed

section \<open>A concrete seam\<close>

definition demo_sodium :: transform_crypto where
  "demo_sodium = \<lparr>seam_sign_detached = (\<lambda>m k. k @ m), seam_verify_detached = (\<lambda>s m k. Some (s = k @ m)),
     seam_generichash = (\<lambda>n m k. replicate n 0), seam_randombytes_buf = (\<lambda>n. replicate n 4),
     seam_aead_encrypt = (\<lambda>m ad n k. m @ k), seam_aead_decrypt = (\<lambda>c ad n k. Some (take (length c - length k) c)),
     seam_scalarmult = (\<lambda>a b. None)\<rparr>"

definition demo_manifest :: BundleManifest where
  "demo_manifest = \<lparr>app = js ''demo'', version = 1, protocols = None, services = None, modules = [js ''sum''],
     guest = \<lparr>requires = [js ''timer'', js ''chat''], config = None\<rparr>\<rparr>"

definition demo_seam :: "unit GuestSeamDeps" where
  "demo_seam = \<lparr>seam_sodium = demo_sodium, seam_requires = [js ''timer'', js ''chat''],
     seam_services = (\<lambda>i. if i = js ''timer''
        then Some [(js ''timer/arm'', transform (\<lambda>_. Inr [])), (js ''timer/clear'', transform (\<lambda>_. Inr []))] else None),
     seam_callLocal = (\<lambda>i p r c w. None), seam_module_names = [js ''sum''],
     seam_module_call = (\<lambda>n p r w. (Inr (Some [sum_list p], 3), w))\<rparr>"

lemma demo_seam_ok: "seam_of_manifest demo_manifest demo_seam"
  unfolding seam_of_manifest_def
proof (intro conjI)
  show "manifest_ok demo_manifest"
    by (simp add: demo_manifest_def manifest_ok_def label_ok_def claim_names_ok_def DEFAULT_MAX_BUNDLE_MODULES_def
        reach_ok_def isService_iff isHostNamespace_def name_head_def CLAIM_RE_def NAME_RE_def is_alnum_def
        UNSAFE_LABEL_def utf8Encode_ascii is_ascii_def isWellFormed_ascii js_eval MAX_SAFE_def)
  show "services_typed demo_seam"
    by (auto simp: services_typed_def demo_seam_def method_names_def HOST_SERVICES_def js_eval)
qed (simp_all add: demo_seam_def demo_manifest_def)

definition demo_routes :: "jstr \<rightharpoonup> unit SeamHandler" where
  "demo_routes = (case seam_routes demo_seam of Inr r \<Rightarrow> r | Inl _ \<Rightarrow> Map.empty)"

lemma demo_routes_ok: "seam_routes demo_seam = Inr demo_routes"
proof -
  have "\<exists>r. seam_routes demo_seam = Inr r"
    by (simp add: seam_routes_def demo_seam_def js_set_def add_required_def isService_iff)
  then show ?thesis by (auto simp: demo_routes_def)
qed

theorem seam_confinement_witness:
  "js ''timer/arm'' \<in> dom demo_routes \<and> js ''fs/get'' \<notin> dom demo_routes \<and>
   (\<forall>b. seam_call demo_routes (js ''fs/get'') [] b () = (Inl (No_Such_Name (js ''fs/get'')), b, ()))"
proof -
  note c = seam_confinement [OF demo_seam_ok demo_routes_ok]
  have "js ''timer/arm'' \<in> set (method_names (js ''timer''))" "js ''fs/get'' \<in> set (method_names (js ''fs''))"
    by (simp_all add: method_names_def HOST_SERVICES_def js_eval)
  then show ?thesis using c by (auto simp: isService_iff demo_manifest_def)
qed

theorem seam_routes_each_name_witness:
  "demo_routes (js ''chat'') = Some (local_route demo_seam (js ''chat''))"
  using seam_routes_each_name [OF demo_seam_ok demo_routes_ok] by (simp add: demo_manifest_def isService_iff)

theorem seam_construction_witness: "\<exists>call. createGuestSeam demo_seam = Inr call"
  unfolding seam_construction by (simp add: demo_seam_def isService_iff)

section \<open>The AEAD frame\<close>

text \<open>The frame \<open>[npub 12][key 32][adLen u32][ad][body]\<close> a guest writes.\<close>

definition aead_frame :: "bytes \<Rightarrow> bytes \<Rightarrow> bytes \<Rightarrow> bytes \<Rightarrow> bytes" where
  "aead_frame npub key ad bdy = npub @ key @ u32be (int (length ad)) @ ad @ bdy"

lemma aeadArgs_frame:
  assumes "length npub = 12" "length key = 32" "length ad < 2 ^ 32"
  shows "aeadArgs (aead_frame npub key ad bdy) =
    Inr \<lparr>aa_npub = npub, aa_key = key, aa_ad = (if ad = [] then None else Some ad), aa_body = bdy\<rparr>"
proof -
  have r: "readU32BE (aead_frame npub key ad bdy) 44 = length ad"
    using readU32BE_field [of "npub @ key" 44 ad "ad @ bdy"] assms by (simp add: aead_frame_def)
  show ?thesis unfolding aeadArgs_def Let_def r
    using assms by (simp add: aead_frame_def subarray_def)
qed

text \<open>
  whatever associated data and body a guest frames, the host reads the frame back exactly, so
  opening what was sealed under the same nonce, key and associated data answers \<open>[1]\<close> and the plain
  text whenever the cipher itself inverts, and an authentication failure is the answer \<open>[0]\<close>.
\<close>

theorem open_seal:
  assumes "length npub = 12" "length key = 32" "length ad < 2 ^ 32"
    and inverts: "\<And>a. seam_aead_decrypt sodium (seam_aead_encrypt sodium msg a npub key) a npub key = Some msg"
  shows "\<exists>ct. crypto_seal sodium (aead_frame npub key ad msg) = Inr ct \<and>
    crypto_open sodium (aead_frame npub key ad ct) = Inr (1 # msg) \<and>
    (\<forall>bad. seam_aead_decrypt sodium bad (if ad = [] then None else Some ad) npub key = None \<longrightarrow>
       crypto_open sodium (aead_frame npub key ad bad) = Inr [0])"
  using assms by (simp add: crypto_seal_def crypto_open_def aeadArgs_frame concatBytes_def)

theorem open_seal_witness:
  "crypto_open demo_sodium (aead_frame (replicate 12 1) (replicate 32 2) [9] ([5, 6] @ replicate 32 2)) = Inr [1, 5, 6]"
proof -
  have "\<exists>ct. crypto_seal demo_sodium (aead_frame (replicate 12 1) (replicate 32 2) [9] [5, 6]) = Inr ct \<and>
    crypto_open demo_sodium (aead_frame (replicate 12 1) (replicate 32 2) [9] ct) = Inr [1, 5, 6]"
    using open_seal [of "replicate 12 1" "replicate 32 2" "[9]" demo_sodium "[5, 6]"] by (auto simp: demo_sodium_def)
  moreover have "crypto_seal demo_sodium (aead_frame (replicate 12 1) (replicate 32 2) [9] [5, 6]) = Inr ([5, 6] @ replicate 32 2)"
    by (simp add: crypto_seal_def aeadArgs_frame demo_sodium_def)
  ultimately show ?thesis by simp
qed

text \<open>The host's allocation for a transform is bounded whatever the guest asks.\<close>

lemma crypto_random_bounded:
  assumes "\<And>n. length (seam_randombytes_buf sodium n) = n" and "crypto_random sodium a = Inr out"
  shows "length out \<le> MAX_RANDOM_BYTES"
  using assms by (auto simp: crypto_random_def Let_def split: if_splits)

end
