(* ===== verification/Realm_Queue.thy ===== *)
theory Realm_Queue
  imports Json Util "HOL-Library.Multiset"
begin

text \<open>
  \<^verbatim>\<open>WASM/host/realm-queue.ts\<close>: the deadlines a realm holds against one timer, and the serialized entry
  into one confined realm. Times are rational milliseconds of the monotonic clock, passed to the
  operations that read it; a deadline of \<open>Infinity\<close> is \<open>None\<close>. A promise is modelled by the event
  that settles it: callbacks run as steps of their own, and \<open>log\<close> records what the queue did.
\<close>

section \<open>Deadlines\<close>

datatype rq_error = Bad_Deadline | Late | Not_Ready | Invoke_Threw | Call_Failed

definition deadlineAt :: "rat \<Rightarrow> jsnum \<Rightarrow> (rq_error, rat option) result" where
  "deadlineAt now remainingMs =
     (case remainingMs of
        PosInf \<Rightarrow> Inr None
      | Fin q \<Rightarrow> if q < 0 then Inl Bad_Deadline else Inr (Some (now + q))
      | _ \<Rightarrow> Inl Bad_Deadline)"

record Deadline =
  did :: nat
  dat :: rat

record DeadlineQueue =
  pending :: "Deadline list"
  timer :: "rat option"

definition createDeadlineQueue :: DeadlineQueue where
  "createDeadlineQueue = \<lparr>pending = [], timer = None\<rparr>"

text \<open>
  One pass of the timer: what is due within a millisecond leaves the queue and expires, and the
  timer is set for the earliest left, in steps of \<open>setTimeout\<close>'s range.
\<close>

definition dq_arm :: "rat \<Rightarrow> DeadlineQueue \<Rightarrow> nat list \<times> DeadlineQueue" where
  "dq_arm now q =
     (let due = filter (\<lambda>d. \<not> dat d - now \<ge> 1) (pending q);
          left = filter (\<lambda>d. dat d - now \<ge> 1) (pending q)
      in (map did due,
          \<lparr>pending = left,
           timer = (if left = [] then None else Some (min (Min (dat ` set left)) (now + 0x7fffffff)))\<rparr>))"

definition dq_add :: "rat \<Rightarrow> Deadline \<Rightarrow> DeadlineQueue \<Rightarrow> nat list \<times> DeadlineQueue" where
  "dq_add now d q =
     (let q = q\<lparr>pending := pending q @ [d]\<rparr>
      in case timer q of
           None \<Rightarrow> dq_arm now q
         | Some t \<Rightarrow> if dat d < t - 1 then dq_arm now q else ([], q))"

definition dq_drop :: "nat \<Rightarrow> DeadlineQueue \<Rightarrow> bool \<times> DeadlineQueue" where
  "dq_drop i q =
     (if i \<in> did ` set (pending q) then (True, q\<lparr>pending := filter (\<lambda>d. did d \<noteq> i) (pending q)\<rparr>) else (False, q))"

definition dq_disarmAll :: "DeadlineQueue \<Rightarrow> DeadlineQueue" where
  "dq_disarmAll q = \<lparr>pending = [], timer = None\<rparr>"

record RealmDeadlines =
  hostCall :: DeadlineQueue
  entry_deadlines :: DeadlineQueue

definition createRealmDeadlines :: RealmDeadlines where
  "createRealmDeadlines = \<lparr>hostCall = createDeadlineQueue, entry_deadlines = createDeadlineQueue\<rparr>"

definition realm_disarmAll :: "RealmDeadlines \<Rightarrow> RealmDeadlines" where
  "realm_disarmAll r = \<lparr>hostCall = dq_disarmAll (hostCall r), entry_deadlines = dq_disarmAll (entry_deadlines r)\<rparr>"

section \<open>Serialized calls\<close>

record entry =
  e_at :: "rat option"
  e_payload :: bytes
  e_settled :: bool
  e_invoked :: bool

datatype rq_event =
    Started nat jsnum
  | Resolved nat bytes
  | Rejected nat rq_error
  | Cancelled nat

record realm_queue =
  entries :: "nat \<Rightarrow> entry"
  waiting :: "nat Fifo"
  running :: "nat option"
  pumping :: bool
  nextId :: nat
  deadlines :: DeadlineQueue
  log :: "rq_event list"

definition serializeCalls :: realm_queue where
  "serializeCalls = \<lparr>entries = (\<lambda>_. \<lparr>e_at = None, e_payload = [], e_settled = False, e_invoked = False\<rparr>),
     waiting = fifo_new, running = None, pumping = False, nextId = 0, deadlines = createDeadlineQueue, log = []\<rparr>"

definition set_entry :: "nat \<Rightarrow> entry \<Rightarrow> realm_queue \<Rightarrow> realm_queue" where
  "set_entry i e s = s\<lparr>entries := (entries s)(i := e)\<rparr>"

definition finish :: "nat \<Rightarrow> (rq_error, bytes) result \<Rightarrow> realm_queue \<Rightarrow> realm_queue" where
  "finish i v s =
     (if e_settled (entries s i) then s
      else let s = set_entry i ((entries s i)\<lparr>e_settled := True, e_payload := []\<rparr>) s
           in s\<lparr>deadlines := snd (dq_drop i (deadlines s)),
                log := log s @ [case v of Inr b \<Rightarrow> Resolved i b | Inl e \<Rightarrow> Rejected i e]\<rparr>)"

definition pump :: "realm_queue \<Rightarrow> realm_queue" where
  "pump s = (if pumping s \<or> running s \<noteq> None \<or> fifo_size (waiting s) = 0 then s else s\<lparr>pumping := True\<rparr>)"

definition release :: "nat \<Rightarrow> realm_queue \<Rightarrow> realm_queue" where
  "release i s = (if running s \<noteq> Some i then s else pump (s\<lparr>running := None\<rparr>))"

definition expire :: "nat \<Rightarrow> realm_queue \<Rightarrow> realm_queue" where
  "expire i s =
     (let s = finish i (Inl Late) s;
          s = (if e_invoked (entries s i) then s\<lparr>log := log s @ [Cancelled i]\<rparr> else s)
      in release i s)"

text \<open>
  What the realm answers when it is entered: \<open>invoke\<close> throws, or starts an invocation, whose
  result and (for a deferred one) early release come as later steps. \<open>not_ready\<close> is what the
  realm says of itself at that moment.
\<close>

record entry_env =
  env_now :: rat
  env_not_ready :: bool
  env_throws :: bool

definition budget_for :: "bool \<Rightarrow> jsnum \<Rightarrow> rat \<Rightarrow> entry \<Rightarrow> jsnum" where
  "budget_for ownTurns dflt now e =
     (if ownTurns then dflt else case e_at e of None \<Rightarrow> PosInf | Some t \<Rightarrow> Fin (t - now))"

definition is_late :: "rat \<Rightarrow> entry \<Rightarrow> bool" where
  "is_late now e = (case e_at e of None \<Rightarrow> False | Some t \<Rightarrow> t \<le> now)"

text \<open>One turn of the loop on the entry just taken from the queue.\<close>

definition enter_one :: "bool \<Rightarrow> jsnum \<Rightarrow> entry_env \<Rightarrow> nat \<Rightarrow> realm_queue \<Rightarrow> realm_queue" where
  "enter_one ownTurns dflt x i s =
     (let e = entries s i in
      if e_settled e then s
      else if is_late (env_now x) e then expire i s
      else if env_not_ready x then finish i (Inl Not_Ready) s
      else let s = s\<lparr>running := Some i, log := log s @ [Started i (budget_for ownTurns dflt (env_now x) e)]\<rparr>
           in if env_throws x then finish i (Inl Invoke_Threw) (s\<lparr>running := None\<rparr>)
              else set_entry i ((entries s i)\<lparr>e_invoked := True\<rparr>) s)"

fun enter_loop :: "nat \<Rightarrow> bool \<Rightarrow> jsnum \<Rightarrow> (nat \<Rightarrow> entry_env) \<Rightarrow> realm_queue \<Rightarrow> realm_queue" where
  "enter_loop 0 ownTurns dflt x s = s"
| "enter_loop (Suc n) ownTurns dflt x s =
     (if running s \<noteq> None then s
      else case fifo_shift (waiting s) of
             (None, _) \<Rightarrow> s
           | (Some i, w) \<Rightarrow> enter_loop n ownTurns dflt x (enter_one ownTurns dflt (x i) i (s\<lparr>waiting := w\<rparr>)))"

text \<open>
  Each round takes one entry off the queue, so as many rounds as there are entries run the
  source's loop to its end.
\<close>

definition enterNext :: "bool \<Rightarrow> jsnum \<Rightarrow> (nat \<Rightarrow> entry_env) \<Rightarrow> realm_queue \<Rightarrow> realm_queue" where
  "enterNext ownTurns dflt x s =
     enter_loop (fifo_size (waiting s)) ownTurns dflt x (s\<lparr>pumping := False\<rparr>)"

definition settle_result :: "nat \<Rightarrow> (rq_error, bytes) result \<Rightarrow> realm_queue \<Rightarrow> realm_queue" where
  "settle_result i v s = release i (finish i v s)"

fun js_min :: "jsnum \<Rightarrow> jsnum \<Rightarrow> jsnum" where
  "js_min NaN _ = NaN"
| "js_min _ NaN = NaN"
| "js_min NegInf _ = NegInf"
| "js_min _ NegInf = NegInf"
| "js_min PosInf b = b"
| "js_min a PosInf = a"
| "js_min (Fin a) (Fin b) = Fin (min a b)"

definition timer_fires :: "rat \<Rightarrow> realm_queue \<Rightarrow> realm_queue" where
  "timer_fires now s =
     (let (due, q) = dq_arm now (deadlines s) in fold expire due (s\<lparr>deadlines := q\<rparr>))"

definition call_realm :: "jsnum \<Rightarrow> rat \<Rightarrow> bool \<Rightarrow> bytes \<Rightarrow> jsnum option \<Rightarrow> realm_queue \<Rightarrow>
    (rq_error, nat) result \<times> realm_queue" where
  "call_realm dflt now notReady payload supplied s =
     (if notReady then (Inl Not_Ready, s)
      else case deadlineAt now (js_min (case supplied of None \<Rightarrow> dflt | Some d \<Rightarrow> d) dflt) of
             Inl e \<Rightarrow> (Inl e, s)
           | Inr at' \<Rightarrow>
               let i = nextId s;
                   s = set_entry i \<lparr>e_at = at', e_payload = payload, e_settled = False, e_invoked = False\<rparr> (s\<lparr>nextId := i + 1\<rparr>);
                   s = (case at' of
                          None \<Rightarrow> s
                        | Some t \<Rightarrow> (let (due, q) = dq_add now \<lparr>did = i, dat = t\<rparr> (deadlines s)
                                    in fold expire due (s\<lparr>deadlines := q\<rparr>)));
                   s = (if e_settled (entries s i) then s else pump (s\<lparr>waiting := fifo_push i (waiting s)\<rparr>))
               in (Inr i, s))"

section \<open>Facts about deadlines\<close>

text \<open>A pending deadline is always covered by an armed timer, to within the one tick \<open>add\<close> tolerates.\<close>

definition dq_ok :: "DeadlineQueue \<Rightarrow> bool" where
  "dq_ok q \<longleftrightarrow> (pending q \<noteq> [] \<longrightarrow> (\<exists>t. timer q = Some t \<and> (\<forall>d\<in>set (pending q). t \<le> dat d + 1)))"

lemma dq_arm_ok: "dq_ok (snd (dq_arm now q))"
  by (auto simp: dq_arm_def dq_ok_def Let_def min_le_iff_disj intro!: order_trans [OF Min_le])

lemma dq_add_ok: "dq_ok q \<Longrightarrow> dq_ok (snd (dq_add now d q))"
  unfolding dq_add_def Let_def
  by (cases "timer q") (auto simp: dq_arm_ok, auto simp: dq_ok_def)

lemma dq_drop_ok: "dq_ok q \<Longrightarrow> dq_ok (snd (dq_drop i q))"
  by (auto simp: dq_drop_def dq_ok_def)

lemma dq_arm_due:
  "set (fst (dq_arm now q)) = did ` {d \<in> set (pending q). dat d < now + 1}"
  by (auto simp: dq_arm_def Let_def)

lemma dq_arm_left: "set (pending (snd (dq_arm now q))) = {d \<in> set (pending q). now + 1 \<le> dat d}"
  by (auto simp: dq_arm_def Let_def)

lemma dq_drop_pending: "set (pending (snd (dq_drop i q))) = {d \<in> set (pending q). did d \<noteq> i}"
  by (auto simp: dq_drop_def)

text \<open>What \<open>add\<close> expires on the spot and what it leaves pending together are the old deadlines and the new one.\<close>

lemma dq_add_split:
  "dq_add now d q = (due, q') \<Longrightarrow>
   set (pending q') \<subseteq> insert d (set (pending q)) \<and> (\<forall>e \<in> insert d (set (pending q)). e \<in> set (pending q') \<or> did e \<in> set due)"
  using dq_arm_due [of now "q\<lparr>pending := pending q @ [d]\<rparr>"] dq_arm_left [of now "q\<lparr>pending := pending q @ [d]\<rparr>"]
  unfolding dq_add_def Let_def by (cases "timer q") (auto split: if_splits)

section \<open>The settlement of one host call\<close>

text \<open>
  \<open>settleByDeadline\<close>: the answer and the deadline race, and whoever takes the deadline out of its
  queue settles. The state holds the queue, the expiries already posted as microtasks, and the
  settlements made.
\<close>

datatype settlement = Answered bytes | Failed rq_error

record settling =
  sq :: DeadlineQueue
  timed :: "nat set"
  posted :: "nat list"
  settlements :: "(nat \<times> settlement) list"

definition settleByDeadline :: "rat \<Rightarrow> jsnum \<Rightarrow> nat \<Rightarrow> settling \<Rightarrow> (rq_error, settling) result" where
  "settleByDeadline now remaining i s =
     (case deadlineAt now remaining of
        Inl e \<Rightarrow> Inl e
      | Inr None \<Rightarrow> Inr s
      | Inr (Some t) \<Rightarrow>
          (let (due, q) = dq_add now \<lparr>did = i, dat = t\<rparr> (sq s)
           in Inr (s\<lparr>sq := q, timed := insert i (timed s), posted := posted s @ due\<rparr>)))"

definition settle_answer :: "nat \<Rightarrow> settlement \<Rightarrow> settling \<Rightarrow> settling" where
  "settle_answer i v s =
     (if i \<notin> timed s then s\<lparr>settlements := settlements s @ [(i, v)]\<rparr>
      else let (won, q) = dq_drop i (sq s)
           in if won then s\<lparr>sq := q, settlements := settlements s @ [(i, v)]\<rparr> else s)"

definition settle_timer :: "rat \<Rightarrow> settling \<Rightarrow> settling" where
  "settle_timer now s = (let (due, q) = dq_arm now (sq s) in s\<lparr>sq := q, posted := posted s @ due\<rparr>)"

definition settle_microtasks :: "settling \<Rightarrow> settling" where
  "settle_microtasks s =
     s\<lparr>posted := [], settlements := settlements s @ map (\<lambda>i. (i, Failed Late)) (posted s)\<rparr>"

text \<open>
  The histories of one realm's host calls: a call is issued under a fresh identity, its answer
  arrives at most once, the timer fires, and the posted microtasks run.
\<close>

inductive settle_reach :: "settling \<Rightarrow> nat set \<Rightarrow> nat set \<Rightarrow> bool" where
  init: "settle_reach \<lparr>sq = createDeadlineQueue, timed = {}, posted = [], settlements = []\<rparr> {} {}"
| issue: "settle_reach s I A \<Longrightarrow> i \<notin> I \<Longrightarrow> settleByDeadline now rem i s = Inr s' \<Longrightarrow> settle_reach s' (insert i I) A"
| answer: "settle_reach s I A \<Longrightarrow> i \<in> I - A \<Longrightarrow> settle_reach (settle_answer i v s) I (insert i A)"
| fire: "settle_reach s I A \<Longrightarrow> settle_reach (settle_timer now s) I A"
| micro: "settle_reach s I A \<Longrightarrow> settle_reach (settle_microtasks s) I A"

text \<open>
  Where each issued call stands: pending, posted as expired, or settled, and nowhere twice. The
  lists are the identities at each place, \<open>T\<close> the calls with a finite deadline, \<open>I\<close> those issued and
  \<open>A\<close> those answered.
\<close>

definition places :: "nat list \<Rightarrow> nat list \<Rightarrow> nat list \<Rightarrow> nat set \<Rightarrow> nat set \<Rightarrow> nat set \<Rightarrow> bool" where
  "places P X D T I A \<longleftrightarrow>
     distinct P \<and> distinct X \<and> distinct D \<and>
     (\<forall>x. (x \<in> set P \<longrightarrow> x \<notin> set X \<and> x \<notin> set D \<and> x \<in> T \<and> x \<notin> A) \<and>
          (x \<in> set X \<longrightarrow> x \<notin> set D \<and> x \<in> T) \<and>
          (x \<in> T \<longrightarrow> x \<in> I \<and> (x \<in> set P \<or> x \<in> set X \<or> x \<in> set D)) \<and>
          (x \<in> set D \<longrightarrow> x \<in> T \<or> x \<in> A) \<and>
          (x \<in> A \<longrightarrow> x \<in> I \<and> (x \<in> T \<or> x \<in> set D)))"

definition settle_inv :: "settling \<Rightarrow> nat set \<Rightarrow> nat set \<Rightarrow> bool" where
  "settle_inv s I A = places (map did (pending (sq s))) (posted s) (map fst (settlements s)) (timed s) I A"

lemma places_expire:
  assumes p: "places P X D T I A" and d: "distinct (P' @ Y)" and eq: "set P' \<union> set Y = set P"
  shows "places P' (X @ Y) D T I A"
proof -
  have *: "x \<in> set P \<longleftrightarrow> x \<in> set P' \<or> x \<in> set Y" for x using eq by auto
  from p d show ?thesis unfolding places_def * by auto
qed

lemma places_micro: "places P X D T I A \<Longrightarrow> places P [] (D @ X) T I A"
  unfolding places_def by auto

lemma places_answer_untimed: "places P X D T I A \<Longrightarrow> i \<in> I - A \<Longrightarrow> i \<notin> T \<Longrightarrow> places P X (D @ [i]) T I (insert i A)"
  unfolding places_def by auto

lemma places_answer_lost: "places P X D T I A \<Longrightarrow> i \<in> T - set P \<Longrightarrow> places P X D T I (insert i A)"
  unfolding places_def by auto

lemma places_answer_won:
  "places P X D T I A \<Longrightarrow> i \<in> set P \<Longrightarrow> places (filter (\<lambda>j. j \<noteq> i) P) X (D @ [i]) T I (insert i A)"
  unfolding places_def by auto

lemma places_issue_untimed: "places P X D T I A \<Longrightarrow> places P X D T (insert i I) A"
  unfolding places_def by blast

lemma places_issue_timed:
  assumes p: "places P X D T I A" and i: "i \<notin> I" and d: "distinct (P' @ Y)"
    and eq: "set P' \<union> set Y = insert i (set P)"
  shows "places P' (X @ Y) D (insert i T) (insert i I) A"
proof -
  have "places (i # P) X D (insert i T) (insert i I) A"
    using p i unfolding places_def by auto
  then show ?thesis by (rule places_expire) (use d eq in simp_all)
qed

lemma dq_arm_perm: "mset (map did (pending (snd (dq_arm now q)))) + mset (fst (dq_arm now q)) = mset (map did (pending q))"
  by (simp add: dq_arm_def Let_def mset_map mset_filter flip: image_mset_union)

lemma dq_arm_distinct:
  assumes "dq_arm now q = (due, q')"
  shows "set (map did (pending q')) \<union> set due = set (map did (pending q))"
    and "distinct (map did (pending q)) \<Longrightarrow> distinct (map did (pending q') @ due)"
proof -
  have m: "mset (map did (pending q') @ due) = mset (map did (pending q))"
    using dq_arm_perm [of now q] assms by simp
  from mset_eq_setD [OF m] show "set (map did (pending q')) \<union> set due = set (map did (pending q))"
    by simp
  from mset_eq_imp_distinct_iff [OF m]
  show "distinct (map did (pending q)) \<Longrightarrow> distinct (map did (pending q') @ due)" by blast
qed

lemma dq_add_distinct:
  assumes "dq_add now d q = (due, q')"
  shows "set (map did (pending q')) \<union> set due = insert (did d) (set (map did (pending q)))"
    and "distinct (map did (pending q)) \<Longrightarrow> did d \<notin> set (map did (pending q)) \<Longrightarrow> distinct (map did (pending q') @ due)"
  using dq_arm_distinct [of now "q\<lparr>pending := pending q @ [d]\<rparr>" due q'] assms
  by (auto simp: dq_add_def Let_def split: option.splits if_splits)

lemma settle_timer_inv: "settle_inv s I A \<Longrightarrow> settle_inv (settle_timer now s) I A"
proof -
  assume inv: "settle_inv s I A"
  obtain due q where a: "dq_arm now (sq s) = (due, q)" by force
  from inv have "distinct (map did (pending (sq s)))" by (simp add: settle_inv_def places_def)
  with inv dq_arm_distinct [OF a] show ?thesis
    by (simp add: settle_timer_def a settle_inv_def places_expire)
qed

lemma settle_microtasks_inv: "settle_inv s I A \<Longrightarrow> settle_inv (settle_microtasks s) I A"
  by (simp add: settle_microtasks_def settle_inv_def comp_def places_micro)

lemma settle_answer_inv: "settle_inv s I A \<Longrightarrow> i \<in> I - A \<Longrightarrow> settle_inv (settle_answer i v s) I (insert i A)"
  using places_answer_won [of "map did (pending (sq s))"]
  by (auto simp: settle_answer_def settle_inv_def dq_drop_def filter_map comp_def
        places_answer_untimed places_answer_lost)

lemma settle_issue_inv: 
  assumes inv: "settle_inv s I A" and i: "i \<notin> I" and run: "settleByDeadline now rem i s = Inr s'"
  shows "settle_inv s' (insert i I) A"
proof (cases "deadlineAt now rem")
  case (Inr at')
  show ?thesis
  proof (cases at')
    case None
    with Inr run inv i show ?thesis by (simp add: settleByDeadline_def settle_inv_def places_issue_untimed)
  next
    case (Some t)
    obtain due q where a: "dq_add now \<lparr>did = i, dat = t\<rparr> (sq s) = (due, q)" by force
    have "distinct (map did (pending (sq s)))" "i \<notin> set (map did (pending (sq s)))"
      using inv i by (auto simp: settle_inv_def places_def)
    with dq_add_distinct [OF a]
    have "places (map did (pending q)) (posted s @ due) (map fst (settlements s)) (insert i (timed s)) (insert i I) A"
      by (intro places_issue_timed [OF inv [unfolded settle_inv_def] i]) simp_all
    with Some Inr run a show ?thesis by (auto simp: settleByDeadline_def settle_inv_def)
  qed
qed (use run in \<open>simp add: settleByDeadline_def\<close>)

lemma settle_reach_inv: "settle_reach s I A \<Longrightarrow> settle_inv s I A"
proof (induction rule: settle_reach.induct)
  case init
  show ?case by (simp add: settle_inv_def places_def createDeadlineQueue_def)
qed (simp_all add: settle_issue_inv settle_answer_inv settle_timer_inv settle_microtasks_inv)

text \<open>
  in every history a host call is settled at most once, an answered call is settled once the
  posted expiries have run, and so is one whose deadline the timer found due: whichever of the
  answer and the deadline leaves the queue first settles, and the other finds nothing.
\<close>

theorem host_call_settles_once:
  assumes "settle_reach s I A"
  shows "distinct (map fst (settlements s)) \<and>
    A \<subseteq> fst ` set (settlements (settle_microtasks s)) \<and>
    did ` {d \<in> set (pending (sq s)). dat d < now + 1} \<subseteq> fst ` set (settlements (settle_microtasks (settle_timer now s)))"
proof (intro conjI)
  from settle_reach_inv [OF assms] show "distinct (map fst (settlements s))"
    by (simp add: settle_inv_def places_def)
  from settle_reach_inv [OF assms] show "A \<subseteq> fst ` set (settlements (settle_microtasks s))"
    by (auto simp: settle_inv_def places_def settle_microtasks_def image_Un image_image)
  show "did ` {d \<in> set (pending (sq s)). dat d < now + 1} \<subseteq> fst ` set (settlements (settle_microtasks (settle_timer now s)))"
    using dq_arm_due [of now "sq s"]
    by (auto simp: settle_timer_def settle_microtasks_def case_prod_beta Let_def image_Un image_image)
qed

theorem host_call_settles_once_witness:
  "distinct (map fst (settlements (settle_answer 0 (Answered []) (settle_timer 5 (settle_answer 1 (Answered [7])
     \<lparr>sq = \<lparr>pending = [\<lparr>did = 0, dat = 3\<rparr>], timer = Some 3\<rparr>, timed = {0}, posted = [], settlements = []\<rparr>)))))"
proof -
  define s1 where "s1 = \<lparr>sq = \<lparr>pending = [\<lparr>did = 0, dat = 3\<rparr>], timer = Some 3\<rparr>, timed = {0}, posted = [], settlements = []\<rparr>"
  have "settle_reach s1 {0} {}"
    using settle_reach.issue [OF settle_reach.init, of 0 0 "Fin 3" s1]
    by (simp add: s1_def settleByDeadline_def deadlineAt_def createDeadlineQueue_def dq_add_def dq_arm_def)
  from settle_reach.issue [OF this, of 1 0 PosInf s1]
  have "settle_reach s1 {0, 1} {}" by (simp add: settleByDeadline_def deadlineAt_def insert_commute)
  from settle_reach.fire [OF settle_reach.answer [OF this, of 1 "Answered [7]"]]
  have "settle_reach (settle_timer 5 (settle_answer 1 (Answered [7]) s1)) {0, 1} {1}" by simp
  from settle_reach.answer [OF this, of 0 "Answered []"]
  have "settle_reach (settle_answer 0 (Answered []) (settle_timer 5 (settle_answer 1 (Answered [7]) s1))) {0, 1} {0, 1}" by simp
  from host_call_settles_once [OF this, of 0] show ?thesis by (simp add: s1_def)
qed

section \<open>The realm queue's invariant\<close>

definition started_ids :: "rq_event list \<Rightarrow> nat list" where
  "started_ids l = concat (map (\<lambda>e. case e of Started i _ \<Rightarrow> [i] | _ \<Rightarrow> []) l)"

definition settled_ids :: "rq_event list \<Rightarrow> nat list" where
  "settled_ids l = concat (map (\<lambda>e. case e of Resolved i _ \<Rightarrow> [i] | Rejected i _ \<Rightarrow> [i] | _ \<Rightarrow> []) l)"

lemma ids_append [simp]:
  "started_ids (l @ m) = started_ids l @ started_ids m"
  "settled_ids (l @ m) = settled_ids l @ settled_ids m"
  by (simp_all add: started_ids_def settled_ids_def)

lemma ids_single [simp]:
  "started_ids [] = []" "settled_ids [] = []"
  "started_ids [Started i b] = [i]" "started_ids [Resolved i v] = []" "started_ids [Rejected i e] = []" "started_ids [Cancelled i] = []"
  "settled_ids [Started i b] = []" "settled_ids [Resolved i v] = [i]" "settled_ids [Rejected i e] = [i]" "settled_ids [Cancelled i] = []"
  by (simp_all add: started_ids_def settled_ids_def)

text \<open>
  What holds of the queue between its callbacks. Entries start in the order of admission; each is
  settled at most once; no admitted call is lost (it is settled, waits, or is in the realm); a
  waiting entry has a pump on its way whenever the realm is free; a call with a finite deadline that
  is not yet settled is held against the timer. \<open>L\<close> are the entries between queue and realm, and \<open>D\<close>
  those an expiry pass still has to visit; both are empty between callbacks.
\<close>

definition in_order :: "nat set \<Rightarrow> realm_queue \<Rightarrow> bool" where
  "in_order L s \<longleftrightarrow> fifo_ok (waiting s) \<and> sorted_wrt (<) (started_ids (log s) @ fifo_list (waiting s)) \<and>
     (\<forall>i \<in> set (started_ids (log s) @ fifo_list (waiting s)). i < nextId s \<and> i \<notin> L) \<and>
     (\<forall>i. running s = Some i \<longrightarrow> i < nextId s)"

definition settled_once :: "realm_queue \<Rightarrow> bool" where
  "settled_once s \<longleftrightarrow> distinct (settled_ids (log s)) \<and>
     (\<forall>i. e_settled (entries s i) \<longleftrightarrow> i \<in> set (settled_ids (log s))) \<and>
     (\<forall>i. e_settled (entries s i) \<or> e_invoked (entries s i) \<longrightarrow> i < nextId s)"

definition none_lost :: "nat set \<Rightarrow> realm_queue \<Rightarrow> bool" where
  "none_lost L s \<longleftrightarrow>
     (\<forall>i < nextId s. i \<notin> L \<longrightarrow> e_settled (entries s i) \<or> i \<in> set (fifo_list (waiting s)) \<or> e_invoked (entries s i))"

definition held :: "nat set \<Rightarrow> realm_queue \<Rightarrow> bool" where
  "held D s \<longleftrightarrow> dq_ok (deadlines s) \<and> (\<forall>d \<in> set (pending (deadlines s)). did d < nextId s) \<and>
     (\<forall>i t. i < nextId s \<longrightarrow> i \<notin> D \<longrightarrow> \<not> e_settled (entries s i) \<longrightarrow> e_at (entries s i) = Some t \<longrightarrow>
        \<lparr>did = i, dat = t\<rparr> \<in> set (pending (deadlines s)))"

definition pumped :: "realm_queue \<Rightarrow> bool" where
  "pumped s \<longleftrightarrow> (fifo_list (waiting s) \<noteq> [] \<longrightarrow> running s = None \<longrightarrow> pumping s)"

definition rq_ok :: "nat set \<Rightarrow> nat set \<Rightarrow> realm_queue \<Rightarrow> bool" where
  "rq_ok L D s \<longleftrightarrow> in_order L s \<and> settled_once s \<and> none_lost L s \<and> held D s"

lemmas rq_inv = rq_ok_def in_order_def settled_once_def none_lost_def held_def

lemma rq_frames:
  "in_order L (s\<lparr>deadlines := q\<rparr>) = in_order L s" "none_lost L (s\<lparr>deadlines := q\<rparr>) = none_lost L s"
  "settled_once (s\<lparr>deadlines := q\<rparr>) = settled_once s"
  "settled_once (s\<lparr>waiting := w\<rparr>) = settled_once s" "held D (s\<lparr>waiting := w\<rparr>) = held D s"
  "in_order L (s\<lparr>pumping := b\<rparr>) = in_order L s" "none_lost L (s\<lparr>pumping := b\<rparr>) = none_lost L s"
  "settled_once (s\<lparr>pumping := b\<rparr>) = settled_once s" "held D (s\<lparr>pumping := b\<rparr>) = held D s"
  by (simp_all add: in_order_def none_lost_def settled_once_def held_def)

lemma finish_frame [simp]:
  "waiting (finish i v s) = waiting s" "running (finish i v s) = running s" "pumping (finish i v s) = pumping s"
  "nextId (finish i v s) = nextId s" "e_at (entries (finish i v s) j) = e_at (entries s j)"
  "e_invoked (entries (finish i v s) j) = e_invoked (entries s j)"
  "started_ids (log (finish i v s)) = started_ids (log s)"
  "e_settled (entries (finish i v s) j) \<longleftrightarrow> j = i \<or> e_settled (entries s j)"
  by (auto simp: finish_def set_entry_def Let_def split: sum.split)

lemma finish_log: "settled_ids (log (finish i v s)) = settled_ids (log s) @ (if e_settled (entries s i) then [] else [i])"
  by (simp add: finish_def set_entry_def Let_def split: sum.split)

lemma finish_deadlines: "deadlines (finish i v s) = (if e_settled (entries s i) then deadlines s else snd (dq_drop i (deadlines s)))"
  by (simp add: finish_def set_entry_def Let_def)

lemma finish_held: "held D s \<Longrightarrow> held (D - {i}) (finish i v s)"
  by (auto simp: held_def finish_deadlines dq_drop_ok dq_drop_pending)

lemma finish_ok: "rq_ok L D s \<Longrightarrow> i < nextId s \<Longrightarrow> rq_ok (L - {i}) (D - {i}) (finish i v s)"
  by (auto simp: rq_ok_def finish_held) (auto simp: in_order_def settled_once_def none_lost_def finish_log)

lemma rq_ok_frame:
  "rq_ok L D s \<Longrightarrow> rq_ok L D (s\<lparr>running := None\<rparr>)"
  "rq_ok L D (s\<lparr>pumping := b\<rparr>) = rq_ok L D s"
  "rq_ok L D (s\<lparr>log := log s @ [Cancelled i]\<rparr>) = rq_ok L D s"
  by (auto simp: rq_inv)

lemma pump_ok: "rq_ok L D s \<Longrightarrow> rq_ok L D (pump s) \<and> pumped (pump s)"
  by (simp add: pump_def rq_ok_frame) (auto simp: rq_inv pumped_def fifo.size_length)

lemma release_ok: "rq_ok L D s \<Longrightarrow> pumped s \<Longrightarrow> rq_ok L D (release i s) \<and> pumped (release i s)"
  using pump_ok [OF rq_ok_frame(1)] by (auto simp: release_def)

lemma pump_frame [simp]: "nextId (pump s) = nextId s" "entries (pump s) = entries s" "waiting (pump s) = waiting s" "log (pump s) = log s"
  by (simp_all add: pump_def)

lemma release_frame [simp]: "nextId (release i s) = nextId s" "entries (release i s) = entries s" "waiting (release i s) = waiting s" "log (release i s) = log s"
  by (simp_all add: release_def)

lemma expire_frame [simp]:
  "nextId (expire i s) = nextId s" "waiting (expire i s) = waiting s" "e_at (entries (expire i s) j) = e_at (entries s j)"
  "e_settled (entries (expire i s) j) \<longleftrightarrow> j = i \<or> e_settled (entries s j)"
  "started_ids (log (expire i s)) = started_ids (log s)"
  by (simp_all add: expire_def Let_def)

lemma expire_ok:
  assumes "rq_ok L D s" "i < nextId s"
  shows "rq_ok (L - {i}) (D - {i}) (expire i s)" and "pumped s \<Longrightarrow> pumped (expire i s)"
proof -
  define s' where "s' = (let s = finish i (Inl Late) s in if e_invoked (entries s i) then s\<lparr>log := log s @ [Cancelled i]\<rparr> else s)"
  have ok: "rq_ok (L - {i}) (D - {i}) s'"
    unfolding s'_def Let_def using finish_ok [OF assms] rq_ok_frame(3) by auto
  have e: "expire i s = release i s'" by (simp add: expire_def s'_def Let_def)
  show "rq_ok (L - {i}) (D - {i}) (expire i s)"
    using ok pump_ok [OF rq_ok_frame(1) [OF ok]] by (simp add: e release_def)
  have "pumped s' \<longleftrightarrow> pumped s" by (simp add: s'_def Let_def pumped_def)
  then show "pumped s \<Longrightarrow> pumped (expire i s)" using ok release_ok by (simp add: e)
qed

lemma expire_all:
  "rq_ok L D s \<Longrightarrow> pumped s \<Longrightarrow> (\<forall>i \<in> set due. i < nextId s) \<Longrightarrow>
   rq_ok (L - set due) (D - set due) (fold expire due s) \<and> pumped (fold expire due s)"
proof (induction due arbitrary: L D s)
  case (Cons i due)
  then have "i < nextId s" by simp
  from Cons.IH [OF expire_ok [OF Cons.prems(1) this]] Cons.prems show ?case
    by (simp flip: Diff_insert2)
qed simp

lemma expire_all_frame [simp]:
  "nextId (fold expire due s) = nextId s" "waiting (fold expire due s) = waiting s"
  "e_settled (entries (fold expire due s) j) \<longleftrightarrow> j \<in> set due \<or> e_settled (entries s j)"
  "e_at (entries (fold expire due s) j) = e_at (entries s j)"
  "started_ids (log (fold expire due s)) = started_ids (log s)"
  by (induction due arbitrary: s) auto

lemma rq_ok_deadlines:
  "rq_ok L D s \<Longrightarrow> held D' (s\<lparr>deadlines := q\<rparr>) \<Longrightarrow> rq_ok L D' (s\<lparr>deadlines := q\<rparr>)"
  by (simp add: rq_ok_def rq_frames)

lemma timer_fires_ok:
  assumes "rq_ok {} {} s" "pumped s"
  shows "rq_ok {} {} (timer_fires now s)" and "pumped (timer_fires now s)"
proof -
  obtain due q where a: "dq_arm now (deadlines s) = (due, q)" by force
  have due: "set due \<subseteq> did ` set (pending (deadlines s))"
    and sub: "set (pending q) \<subseteq> set (pending (deadlines s))"
    using a by (auto simp: dq_arm_def Let_def algebra_simps)
  have left: "d \<in> set (pending q)" if "d \<in> set (pending (deadlines s))" "did d \<notin> set due" for d
    using that a by (auto simp: dq_arm_def Let_def)
  have "held (set due) (s\<lparr>deadlines := q\<rparr>)"
    using assms(1) dq_arm_ok [of now "deadlines s"] a left sub unfolding rq_ok_def held_def
    by (simp add: subset_iff)
  with assms(1) have "rq_ok {} (set due) (s\<lparr>deadlines := q\<rparr>)" by (rule rq_ok_deadlines)
  moreover have "\<forall>i \<in> set due. i < nextId s" using due assms(1) by (auto simp: rq_inv)
  ultimately have "rq_ok {} (set due - set due) (fold expire due (s\<lparr>deadlines := q\<rparr>)) \<and> pumped (fold expire due (s\<lparr>deadlines := q\<rparr>))"
    using expire_all [of "{}" "set due" "s\<lparr>deadlines := q\<rparr>" due] assms(2) by (simp add: pumped_def)
  then show "rq_ok {} {} (timer_fires now s)" and "pumped (timer_fires now s)"
    by (simp_all add: timer_fires_def a)
qed

lemma settle_result_ok:
  "rq_ok {} {} s \<Longrightarrow> pumped s \<Longrightarrow> i < nextId s \<Longrightarrow> rq_ok {} {} (settle_result i v s) \<and> pumped (settle_result i v s)"
  using finish_ok [of "{}" "{}" s i v] release_ok [of "{}" "{}" "finish i v s" i]
  by (simp add: settle_result_def pumped_def)

lemma popped_ok:
  assumes ok: "rq_ok {} {} s" and w: "fifo_list (waiting s) = i # r"
  shows "rq_ok {i} {} (s\<lparr>waiting := snd (fifo_shift (waiting s))\<rparr>)"
proof -
  have f: "fifo_ok (waiting s)" using ok by (simp add: rq_ok_def in_order_def)
  note l = fifo.list_shift [OF f] fifo.invar_shift [OF f]
  have "in_order {i} (s\<lparr>waiting := snd (fifo_shift (waiting s))\<rparr>)"
    using ok w unfolding rq_ok_def in_order_def by (simp add: l sorted_wrt_append) fastforce
  moreover have "none_lost {i} (s\<lparr>waiting := snd (fifo_shift (waiting s))\<rparr>)"
    using ok w unfolding rq_ok_def none_lost_def by (simp add: l) blast
  ultimately show ?thesis using ok by (simp add: rq_ok_def rq_frames)
qed

lemma rq_ok_settled: "rq_ok {i} D s \<Longrightarrow> e_settled (entries s i) \<Longrightarrow> rq_ok {} D s"
  unfolding rq_ok_def in_order_def none_lost_def by auto

lemma enter_started_ok:
  assumes ok: "rq_ok {i} {} s" and ord: "sorted_wrt (<) (started_ids (log s) @ i # fifo_list (waiting s))"
    and i: "i < nextId s"
    and e: "e_settled e' = e_settled (entries s i)" "e_at e' = e_at (entries s i)" "e_invoked e'"
  shows "rq_ok {} {} (set_entry i e' (s\<lparr>running := Some i, log := log s @ [Started i b]\<rparr>))"
proof -
  let ?s = "set_entry i e' (s\<lparr>running := Some i, log := log s @ [Started i b]\<rparr>)"
  have "in_order {} ?s" using ok ord i unfolding rq_ok_def in_order_def set_entry_def by auto
  moreover have "settled_once ?s" using ok i e unfolding rq_ok_def settled_once_def set_entry_def by auto
  moreover have "none_lost {} ?s" using ok e unfolding rq_ok_def none_lost_def set_entry_def by auto
  moreover have "held {} ?s" using ok e unfolding rq_ok_def held_def set_entry_def by auto
  ultimately show ?thesis by (simp add: rq_ok_def)
qed

lemma enter_threw_ok:
  assumes ok: "rq_ok {i} {} s" and ord: "sorted_wrt (<) (started_ids (log s) @ i # fifo_list (waiting s))"
    and i: "i < nextId s" and r: "running s = None"
  shows "rq_ok {} {} (finish i v (s\<lparr>log := log s @ [Started i b]\<rparr>))"
proof -
  let ?s = "s\<lparr>log := log s @ [Started i b]\<rparr>"
  have "in_order {} ?s" using ok ord i r unfolding rq_ok_def in_order_def by auto
  moreover have "settled_once ?s" "held {} ?s" "none_lost {i} ?s"
    using ok unfolding rq_ok_def settled_once_def held_def none_lost_def by auto
  ultimately show ?thesis
    using i finish_held [of "{}" ?s i v] 
    unfolding rq_ok_def in_order_def settled_once_def none_lost_def by (auto simp: finish_log)
qed

lemma enter_one_ok:
  assumes ok: "rq_ok {i} {} s" and ord: "sorted_wrt (<) (started_ids (log s) @ i # fifo_list (waiting s))"
    and i: "i < nextId s" and r: "running s = None"
  shows "rq_ok {} {} (enter_one own dflt x i s)"
proof -
  have same: "s\<lparr>log := l, running := None\<rparr> = s\<lparr>log := l\<rparr>" for l using r by simp
  show ?thesis
    using rq_ok_settled [OF ok] expire_ok(1) [OF ok i] finish_ok [OF ok i, of "Inl Not_Ready"]
      enter_threw_ok [OF ok ord i r] enter_started_ok [OF ok ord i, of "(entries s i)\<lparr>e_invoked := True\<rparr>"]
    by (simp add: enter_one_def Let_def same)
qed

lemma enter_one_frame [simp]:
  "waiting (enter_one own dflt x i s) = waiting s" "nextId (enter_one own dflt x i s) = nextId s"
  by (auto simp: enter_one_def Let_def set_entry_def)

lemma enter_loop_ok:
  "rq_ok {} {} s \<Longrightarrow> fifo_size (waiting s) \<le> n \<Longrightarrow>
   rq_ok {} {} (enter_loop n own dflt x s) \<and>
   (running (enter_loop n own dflt x s) \<noteq> None \<or> fifo_list (waiting (enter_loop n own dflt x s)) = [])"
proof (induction n arbitrary: s)
  case 0
  then have "fifo_ok (waiting s)" by (simp add: rq_ok_def in_order_def)
  with 0 show ?case by (simp add: fifo.size_length)
next
  case (Suc n)
  then have f: "fifo_ok (waiting s)" by (simp add: rq_ok_def in_order_def)
  show ?case
  proof (cases "running s = None")
    case True
    show ?thesis
    proof (cases "fifo_list (waiting s)")
      case Nil
      with f have "fst (fifo_shift (waiting s)) = None" by (simp add: fifo.shift_value)
      with Nil True Suc.prems show ?thesis by (cases "fifo_shift (waiting s)") simp
    next
      case (Cons i r)
      obtain w where sh: "fifo_shift (waiting s) = (Some i, w)"
        using fifo.shift_value [OF f] Cons by (cases "fifo_shift (waiting s)") simp
      let ?s = "s\<lparr>waiting := w\<rparr>"
      have l: "fifo_list w = r" and w: "fifo_ok w"
        using fifo.list_shift [OF f] fifo.invar_shift [OF f] Cons sh by simp_all
      have "rq_ok {} {} (enter_one own dflt (x i) i ?s)"
        by (rule enter_one_ok)
           (use popped_ok [OF Suc.prems(1) Cons] Suc.prems(1) Cons l True sh in \<open>auto simp: rq_ok_def in_order_def\<close>)
      moreover have "fifo_size w \<le> n"
        using Suc.prems(2) l Cons f w by (simp add: fifo.size_length)
      ultimately show ?thesis using Suc.IH [of "enter_one own dflt (x i) i ?s"] True sh by simp
    qed
  qed (use Suc.prems in simp)
qed

lemma enterNext_ok:
  assumes "rq_ok {} {} s"
  shows "rq_ok {} {} (enterNext own dflt x s)"
    and "running (enterNext own dflt x s) \<noteq> None \<or> fifo_list (waiting (enterNext own dflt x s)) = []"
  using enter_loop_ok [of "s\<lparr>pumping := False\<rparr>"] assms by (simp_all add: enterNext_def rq_ok_frame)

lemma admit_ok:
  assumes ok: "rq_ok {} {} s" and i: "i = nextId s"
  shows "rq_ok {i} {i} (set_entry i \<lparr>e_at = a, e_payload = p, e_settled = False, e_invoked = False\<rparr> (s\<lparr>nextId := i + 1\<rparr>))"
    (is "rq_ok _ _ ?s")
proof -
  have "in_order {i} ?s"
    using ok i unfolding rq_ok_def in_order_def set_entry_def by (auto simp: less_Suc_eq)
  moreover have "settled_once ?s"
    using ok i unfolding rq_ok_def settled_once_def set_entry_def by (auto simp: less_Suc_eq)
  moreover have "none_lost {i} ?s" "held {i} ?s"
    using ok i unfolding rq_ok_def none_lost_def held_def set_entry_def by (auto simp: less_Suc_eq)
  ultimately show ?thesis by (simp add: rq_ok_def)
qed

lemma add_held:
  assumes "held {i} s" "i < nextId s" "e_at (entries s i) = Some t" "dq_add now \<lparr>did = i, dat = t\<rparr> (deadlines s) = (due, q)"
  shows "held (set due) (s\<lparr>deadlines := q\<rparr>)"
proof -
  have "dq_ok q" using dq_add_ok [of "deadlines s" now "\<lparr>did = i, dat = t\<rparr>"] assms by (simp add: held_def)
  moreover have "\<forall>d \<in> set (pending q). did d < nextId s"
    using assms dq_add_split [OF assms(4)] by (auto simp: held_def)
  moreover have "\<lparr>did = j, dat = u\<rparr> \<in> set (pending q)"
    if j: "j < nextId s" "j \<notin> set due" "\<not> e_settled (entries s j)" "e_at (entries s j) = Some u" for j u
  proof -
    have "\<lparr>did = j, dat = u\<rparr> \<in> insert \<lparr>did = i, dat = t\<rparr> (set (pending (deadlines s)))"
      using assms j by (cases "j = i") (simp_all add: held_def)
    then have "\<lparr>did = j, dat = u\<rparr> \<in> set (pending q) \<or> did \<lparr>did = j, dat = u\<rparr> \<in> set due"
      using dq_add_split [OF assms(4)] by blast
    with j show ?thesis by simp
  qed
  ultimately show ?thesis by (simp add: held_def)
qed

lemma enqueue_ok:
  assumes "rq_ok L {} s" "L \<subseteq> {i}" "nextId s = Suc i" "i \<notin> set (started_ids (log s) @ fifo_list (waiting s))"
  shows "rq_ok {} {} (s\<lparr>waiting := fifo_push i (waiting s)\<rparr>)"
proof -
  let ?s = "s\<lparr>waiting := fifo_push i (waiting s)\<rparr>"
  have f: "fifo_ok (waiting s)" using assms by (simp add: rq_ok_def in_order_def)
  have lt: "j < i" if "j \<in> set (started_ids (log s) @ fifo_list (waiting s))" for j
    using assms(1,3,4) that unfolding rq_ok_def in_order_def by (metis less_antisym)
  have "in_order {} ?s"
    using assms f lt unfolding rq_ok_def in_order_def by (auto simp: fifo.list_push fifo.invar_push sorted_wrt_append)
  moreover have "none_lost {} ?s"
    using assms f unfolding rq_ok_def none_lost_def by (auto simp: fifo.list_push)
  ultimately show ?thesis using assms by (simp add: rq_ok_def rq_frames)
qed

lemma call_realm_ok:
  assumes ok: "rq_ok {} {} s" and p: "pumped s"
  shows "rq_ok {} {} (snd (call_realm dflt now nr pl sd s)) \<and> pumped (snd (call_realm dflt now nr pl sd s))"
proof (cases "nr \<or> isl (deadlineAt now (js_min (case sd of None \<Rightarrow> dflt | Some d \<Rightarrow> d) dflt))")
  case True
  with ok p show ?thesis by (auto simp: call_realm_def split: sum.splits)
next
  case False
  then obtain a where a: "deadlineAt now (js_min (case sd of None \<Rightarrow> dflt | Some d \<Rightarrow> d) dflt) = Inr a" and nr: "\<not> nr"
    by (auto simp: isl_def split: sum.splits) (metis sum.exhaust)
  define i where "i = nextId s"
  define s1 where "s1 = set_entry i \<lparr>e_at = a, e_payload = pl, e_settled = False, e_invoked = False\<rparr> (s\<lparr>nextId := i + 1\<rparr>)"
  define s2 where "s2 = (case a of None \<Rightarrow> s1
     | Some t \<Rightarrow> (let (due, q) = dq_add now \<lparr>did = i, dat = t\<rparr> (deadlines s1) in fold expire due (s1\<lparr>deadlines := q\<rparr>)))"
  have ok1: "rq_ok {i} {i} s1" unfolding s1_def by (rule admit_ok [OF ok i_def])
  define keep where "keep s' \<longleftrightarrow> nextId s' = Suc i \<and> started_ids (log s') = started_ids (log s) \<and> waiting s' = waiting s" for s' :: realm_queue
  have keep1: "keep s1" by (simp add: keep_def s1_def set_entry_def)
  have e1: "e_at (entries s1 i) = a" "nextId s1 = Suc i" "waiting s1 = waiting s" by (simp_all add: s1_def set_entry_def)
  have p1: "pumped s1" using p by (simp add: pumped_def s1_def set_entry_def)
  have "\<exists>L \<subseteq> {i}. rq_ok L {} s2 \<and> pumped s2 \<and> keep s2"
  proof (cases a)
    case None
    with ok1 e1 have "held {} s1" by (simp add: rq_ok_def held_def) (metis option.distinct(1))
    with None ok1 p1 keep1 show ?thesis by (auto simp: s2_def rq_ok_def)
  next
    case (Some t)
    obtain due q where d: "dq_add now \<lparr>did = i, dat = t\<rparr> (deadlines s1) = (due, q)" by force
    have "held (set due) (s1\<lparr>deadlines := q\<rparr>)"
      by (rule add_held [OF _ _ _ d]) (use ok1 e1 Some in \<open>simp_all add: rq_ok_def\<close>)
    with ok1 have "rq_ok {i} (set due) (s1\<lparr>deadlines := q\<rparr>)" by (rule rq_ok_deadlines)
    moreover have "\<forall>j \<in> set due. j < nextId s1"
      using dq_add_distinct(1) [OF d] ok1 e1 by (auto simp: rq_ok_def held_def)
    moreover have "pumped (s1\<lparr>deadlines := q\<rparr>)" using p1 by (simp add: pumped_def)
    moreover have s2: "s2 = fold expire due (s1\<lparr>deadlines := q\<rparr>)" using Some d by (simp add: s2_def)
    ultimately have "rq_ok ({i} - set due) (set due - set due) s2 \<and> pumped s2"
      using expire_all [of "{i}" "set due" "s1\<lparr>deadlines := q\<rparr>" due] by (simp only: s2) simp
    moreover have "keep s2" using keep1 by (simp add: s2 keep_def)
    ultimately show ?thesis by (intro exI [of _ "{i} - set due"]) simp
  qed
  then obtain L where L: "L \<subseteq> {i}" "rq_ok L {} s2" "pumped s2" "keep s2" by blast
  have fresh: "i \<notin> set (started_ids (log s2) @ fifo_list (waiting s2))"
    using ok L(4) by (auto simp: keep_def i_def rq_ok_def in_order_def)
  have res: "snd (call_realm dflt now nr pl sd s) =
      (if e_settled (entries s2 i) then s2 else pump (s2\<lparr>waiting := fifo_push i (waiting s2)\<rparr>))"
    unfolding call_realm_def s2_def s1_def i_def Let_def using nr a by simp
  show ?thesis
  proof (cases "e_settled (entries s2 i)")
    case True
    from L(1) have "L = {} \<or> L = {i}" by blast
    with L rq_ok_settled [OF _ True] True show ?thesis by (auto simp: res)
  next
    case False
    then show ?thesis unfolding res using pump_ok [OF enqueue_ok [OF L(2,1) _ fresh]] L(4) by (simp add: keep_def)
  qed
qed

section \<open>Histories of the realm queue\<close>

text \<open>
  What can happen to the queue: a call is admitted, the posted pump enters the next caller, an
  invocation answers, a deferred invocation gives the realm back, and the timer fires.
\<close>

inductive rq_reach :: "bool \<Rightarrow> jsnum \<Rightarrow> realm_queue \<Rightarrow> bool" for ownTurns :: bool and dflt :: jsnum where
  init: "rq_reach ownTurns dflt serializeCalls"
| admit: "rq_reach ownTurns dflt s \<Longrightarrow> rq_reach ownTurns dflt (snd (call_realm dflt now nr payload sd s))"
| pumps: "rq_reach ownTurns dflt s \<Longrightarrow> pumping s \<Longrightarrow> rq_reach ownTurns dflt (enterNext ownTurns dflt x s)"
| answers: "rq_reach ownTurns dflt s \<Longrightarrow> e_invoked (entries s i) \<Longrightarrow> rq_reach ownTurns dflt (settle_result i v s)"
| defers: "rq_reach ownTurns dflt s \<Longrightarrow> e_invoked (entries s i) \<Longrightarrow> rq_reach ownTurns dflt (release i s)"
| fires: "rq_reach ownTurns dflt s \<Longrightarrow> rq_reach ownTurns dflt (timer_fires now s)"

lemma rq_reach_ok: "rq_reach ownTurns dflt s \<Longrightarrow> rq_ok {} {} s \<and> pumped s"
proof (induction rule: rq_reach.induct)
  case init
  show ?case
    by (auto simp: rq_inv pumped_def serializeCalls_def createDeadlineQueue_def dq_ok_def fifo.list_empty fifo.invar_empty)
next
  case (pumps s x)
  then show ?case using enterNext_ok [of s ownTurns dflt x] by (auto simp: pumped_def)
next
  case (answers s i v)
  then have "i < nextId s" by (auto simp: rq_ok_def settled_once_def)
  with answers show ?case by (simp add: settle_result_ok)
qed (use call_realm_ok release_ok timer_fires_ok in blast)+

text \<open>
  C8: in every history of the queue, callers enter the realm in the order they were admitted, each
  caller is settled at most once, no admitted call is lost (it is settled, still queued, or has
  entered the realm), and a queued call never waits on a free realm without a pump on its way.
\<close>

theorem realm_queue_fifo:
  assumes "rq_reach ownTurns dflt s"
  shows "sorted_wrt (<) (started_ids (log s) @ fifo_list (waiting s)) \<and>
    distinct (settled_ids (log s)) \<and>
    (\<forall>i < nextId s. i \<in> set (settled_ids (log s)) \<or> i \<in> set (fifo_list (waiting s)) \<or> e_invoked (entries s i)) \<and>
    (fifo_list (waiting s) \<noteq> [] \<longrightarrow> running s = None \<longrightarrow> pumping s)"
  using rq_reach_ok [OF assms] unfolding rq_ok_def in_order_def settled_once_def none_lost_def pumped_def by auto

text \<open>
  C9: no caller outlives its deadline. A reachable queue holds every unsettled call with a finite
  deadline against an armed timer due at most one tick after it, and the pass of that timer
  at or after the deadline settles the call, whether it is queued or in the realm.
\<close>

theorem deadline_settles_every_call:
  assumes "rq_reach ownTurns dflt s" and "i < nextId s" and "e_at (entries s i) = Some t"
  shows "(i \<in> set (settled_ids (log s)) \<or> (\<exists>u. timer (deadlines s) = Some u \<and> u \<le> t + 1)) \<and>
    (t < now + 1 \<longrightarrow> e_settled (entries (timer_fires now s) i))"
proof -
  obtain due q where a: "dq_arm now (deadlines s) = (due, q)" by force
  have ok: "settled_once s" "held {} s" using rq_reach_ok [OF assms(1)] by (simp_all add: rq_ok_def)
  show ?thesis
  proof (cases "e_settled (entries s i)")
    case True
    with ok show ?thesis by (simp add: settled_once_def timer_fires_def a)
  next
    case False
    with ok assms have p: "\<lparr>did = i, dat = t\<rparr> \<in> set (pending (deadlines s))" by (simp add: held_def)
    with ok(2) obtain u where "timer (deadlines s) = Some u" "\<forall>d \<in> set (pending (deadlines s)). u \<le> dat d + 1"
      by (auto simp: held_def dq_ok_def)
    with p have "\<exists>u. timer (deadlines s) = Some u \<and> u \<le> t + 1" by force
    moreover have "i \<in> set due" if "t < now + 1"
      using dq_arm_due [of now "deadlines s"] a p that by force
    ultimately show ?thesis by (simp add: timer_fires_def a)
  qed
qed

definition may_start :: "bool \<Rightarrow> jsnum \<Rightarrow> (nat \<Rightarrow> entry_env) \<Rightarrow> realm_queue \<Rightarrow> nat \<Rightarrow> jsnum \<Rightarrow> bool" where
  "may_start own dflt x s i b \<longleftrightarrow> \<not> e_settled (entries s i) \<and> \<not> env_not_ready (x i) \<and>
     (\<forall>t. e_at (entries s i) = Some t \<longrightarrow> env_now (x i) < t) \<and>
     b = (if own then dflt else case e_at (entries s i) of None \<Rightarrow> PosInf | Some t \<Rightarrow> Fin (t - env_now (x i)))"

lemma may_start_frame [simp]:
  "may_start own dflt x (s\<lparr>waiting := w\<rparr>) i b = may_start own dflt x s i b"
  "may_start own dflt x (s\<lparr>pumping := p\<rparr>) i b = may_start own dflt x s i b"
  by (simp_all add: may_start_def split: option.split)

lemma enter_one_entries:
  "e_at (entries (enter_one own dflt x i s) j) = e_at (entries s j)"
  "\<not> e_settled (entries (enter_one own dflt x i s) j) \<Longrightarrow> \<not> e_settled (entries s j)"
  by (auto simp: enter_one_def Let_def set_entry_def split: if_splits)

lemma enter_one_started:
  "Started j b \<in> set (log (enter_one own dflt (x i) i s)) \<Longrightarrow> Started j b \<in> set (log s) \<or> may_start own dflt x s j b"
  by (auto simp: enter_one_def may_start_def Let_def is_late_def budget_for_def expire_def finish_def set_entry_def
      split: if_splits option.splits sum.splits)

lemma enter_loop_started:
  "Started j b \<in> set (log (enter_loop n own dflt x s)) \<Longrightarrow> Started j b \<in> set (log s) \<or> may_start own dflt x s j b"
proof (induction n arbitrary: s)
  case (Suc n)
  show ?case
  proof (cases "running s = None \<and> fst (fifo_shift (waiting s)) \<noteq> None")
    case True
    then obtain i w where sh: "fifo_shift (waiting s) = (Some i, w)" by (cases "fifo_shift (waiting s)") auto
    let ?s = "enter_one own dflt (x i) i (s\<lparr>waiting := w\<rparr>)"
    have "Started j b \<in> set (log (enter_loop n own dflt x ?s))" using Suc.prems True sh by simp
    from Suc.IH [OF this] show ?thesis
    proof
      assume "Started j b \<in> set (log ?s)"
      from enter_one_started [of j b own dflt x, OF this] show ?thesis by simp
    next
      assume "may_start own dflt x ?s j b"
      then show ?thesis using enter_one_entries [of own dflt "x i" i "s\<lparr>waiting := w\<rparr>" j]
        by (auto simp: may_start_def)
    qed
  next
    case False
    with Suc.prems show ?thesis by (cases "fifo_shift (waiting s)") (auto split: if_splits)
  qed
qed simp

text \<open>
  C32: the entry loop ends with the realm taken or the queue empty, and it enters only callers that
  are not settled, whose deadline has not passed and that the realm is ready for. The time it hands to
  an entered call is what is left of that call's deadline, or the realm's own ceiling for a realm
  with its own turns.
\<close>

theorem entry_loop_sound:
  assumes "rq_reach ownTurns dflt s"
  shows "(running (enterNext ownTurns dflt x s) \<noteq> None \<or> fifo_list (waiting (enterNext ownTurns dflt x s)) = []) \<and>
    (\<forall>i b. Started i b \<in> set (log (enterNext ownTurns dflt x s)) - set (log s) \<longrightarrow> may_start ownTurns dflt x s i b)"
  using rq_reach_ok [OF assms] enterNext_ok(2) [of s ownTurns dflt x]
    enter_loop_started [of _ _ "fifo_size (waiting s)" ownTurns dflt x "s\<lparr>pumping := False\<rparr>"]
  by (auto simp: enterNext_def)

text \<open>
  A history the witnesses run: two calls are admitted, the first enters the realm and answers, and
  the second is entered in its turn.
\<close>

definition ready_at :: "rat \<Rightarrow> nat \<Rightarrow> entry_env" where
  "ready_at now = (\<lambda>_. \<lparr>env_now = now, env_not_ready = False, env_throws = False\<rparr>)"

definition demo_queue :: realm_queue where
  "demo_queue = snd (call_realm (Fin 50) 1 False [2] (Some (Fin 10)) (snd (call_realm (Fin 50) 0 False [1] None serializeCalls)))"

definition demo_entered :: realm_queue where
  "demo_entered = enterNext False (Fin 50) (ready_at 2) demo_queue"

lemmas demo_eval = demo_queue_def demo_entered_def ready_at_def call_realm_def serializeCalls_def deadlineAt_def
  createDeadlineQueue_def set_entry_def dq_add_def dq_arm_def pump_def fifo_new_def fifo_size_def fifo_push_def
  enterNext_def fifo_shift_def fifo_drop_def fifo_list_def enter_one_def is_late_def budget_for_def Let_def

lemma demo_reach: "rq_reach False (Fin 50) demo_queue" "rq_reach False (Fin 50) demo_entered"
proof -
  show *: "rq_reach False (Fin 50) demo_queue" unfolding demo_queue_def by (intro rq_reach.intros)
  have "pumping demo_queue" by (simp add: demo_eval)
  with * show "rq_reach False (Fin 50) demo_entered" unfolding demo_entered_def by (rule rq_reach.pumps)
qed

lemma demo_values:
  "nextId demo_entered = 2" "e_at (entries demo_entered 1) = Some 11" "fifo_list (waiting demo_entered) = [1]"
  "started_ids (log demo_entered) = [0]"
  by (simp_all add: demo_eval)

theorem realm_queue_fifo_witness: "sorted_wrt (<) (started_ids (log demo_entered) @ fifo_list (waiting demo_entered)) \<and>
    started_ids (log demo_entered) = [0] \<and> fifo_list (waiting demo_entered) = [1]"
  using realm_queue_fifo [OF demo_reach(2)] by (simp add: demo_values)

theorem deadline_settles_every_call_witness: "e_settled (entries (timer_fires 11 demo_entered) 1)"
  using deadline_settles_every_call [OF demo_reach(2), of 1 11 11] demo_values by simp

theorem entry_loop_sound_witness:
  "may_start False (Fin 50) (ready_at 2) demo_queue 0 (Fin 48)"
  using entry_loop_sound [OF demo_reach(1), of "ready_at 2"] by (simp add: demo_eval)

text \<open>
  The comment on the shared timer says it never fires later than anything pending. \<open>add\<close> leaves it
  alone for a deadline up to one tick before it, so it can fire that much later.
\<close>

lemma timer_can_be_late:
  "(let q = snd (dq_add 0 \<lparr>did = 1, dat = 9\<rparr> (snd (dq_add 0 \<lparr>did = 0, dat = 10\<rparr> createDeadlineQueue)))
    in timer q = Some 10 \<and> \<lparr>did = 1, dat = 9\<rparr> \<in> set (pending q))"
  by (simp add: dq_add_def dq_arm_def createDeadlineQueue_def Let_def)

end
