(* ===== verification/Timer.thy ===== *)
theory Timer
  imports Json Util Op_Frame
begin

text \<open>
  \<^verbatim>\<open>WASM/services/timer.ts\<close>: the one replaceable wake of a realm, paced by a credit of execution time.
  Times and the credit are rational milliseconds; the clock a step reads is its first argument. A
  timer callback and the settling of the invocation a wake started are steps of their own, and
  \<open>wakes\<close> records what was handed to the realm.
\<close>

datatype timer_error = Wake_Disposed | Bad_Delay | Bad_Arm_Body | Bad_Clear_Body

datatype wake_event = Fired rat | Done

record live_entry =
  le_id :: nat
  le_timer :: "rat option"

record RealmTimers =
  live :: "live_entry option"
  firing :: bool
  disposed :: bool
  credit :: rat
  creditAt :: rat
  armed_so_far :: nat
  wakes :: "wake_event list"

record pace =
  budgetMs :: rat
  clockDivisor :: rat

definition wakeBody :: "(op_error, bytes) result" where
  "wakeBody = rbind (args_op (js ''wake'')) (\<lambda>a. Inr (args_build HOST_CALLER_ID a))"

definition createRealmTimers :: "pace \<Rightarrow> rat \<Rightarrow> RealmTimers" where
  "createRealmTimers p now = \<lparr>live = None, firing = False, disposed = False, credit = budgetMs p, creditAt = now,
     armed_so_far = 0, wakes = []\<rparr>"

definition paced :: "pace \<Rightarrow> bool" where
  "paced p \<longleftrightarrow> budgetMs p > 0"

definition accrue :: "pace \<Rightarrow> rat \<Rightarrow> RealmTimers \<Rightarrow> RealmTimers" where
  "accrue p now s =
     (let elapsed = now - creditAt s; s = s\<lparr>creditAt := now\<rparr>
      in if \<not> elapsed > 0 then s
         else s\<lparr>credit := max (- budgetMs p) (min (budgetMs p) (credit s + elapsed / clockDivisor p))\<rparr>)"

definition charge :: "pace \<Rightarrow> rat \<Rightarrow> jsnum \<Rightarrow> RealmTimers \<Rightarrow> RealmTimers" where
  "charge p now ms s =
     (case ms of
        Fin q \<Rightarrow> if q > 0 then (let s = accrue p now s in s\<lparr>credit := max (- budgetMs p) (credit s - q)\<rparr>) else s
      | _ \<Rightarrow> s)"

definition clear_wake :: "RealmTimers \<Rightarrow> RealmTimers" where
  "clear_wake s = s\<lparr>live := None\<rparr>"

text \<open>
  The invocation a wake started has settled: a wake that came due meanwhile is attempted at once.
  The attempt is a parameter, since \<open>release\<close> and \<open>attempt\<close> call each other.
\<close>

definition release_with :: "(nat \<Rightarrow> RealmTimers \<Rightarrow> RealmTimers) \<Rightarrow> RealmTimers \<Rightarrow> RealmTimers" where
  "release_with att s =
     (let s = s\<lparr>firing := False, wakes := wakes s @ [Done]\<rparr>
      in case live s of
           Some e \<Rightarrow> if le_timer e = None then att (le_id e) s else s
         | None \<Rightarrow> s)"

text \<open>
  \<open>handed\<close> says whether \<open>fire\<close> returned a promise; one that threw or returned nothing releases at
  once, where no entry is live any more, so the inner release attempts nothing.
\<close>

definition attempt :: "pace \<Rightarrow> rat \<Rightarrow> bool \<Rightarrow> nat \<Rightarrow> RealmTimers \<Rightarrow> RealmTimers" where
  "attempt p now handed i s =
     (case live s of
        None \<Rightarrow> s
      | Some e \<Rightarrow>
          if le_id e \<noteq> i then s
          else let s = s\<lparr>live := Some (e\<lparr>le_timer := None\<rparr>)\<rparr> in
            if firing s then s
            else let s = accrue p now s in
              if paced p \<and> credit s \<le> 0
              then s\<lparr>live := Some (e\<lparr>le_timer :=
                     Some (now + min 0x7fffffff (of_int \<lceil>(1 - credit s) * clockDivisor p\<rceil>))\<rparr>)\<rparr>
              else let s = s\<lparr>live := None, firing := True, wakes := wakes s @ [Fired (credit s)]\<rparr>
                   in if handed then s else release_with (\<lambda>_ s. s) s)"

definition release_wake :: "pace \<Rightarrow> rat \<Rightarrow> bool \<Rightarrow> RealmTimers \<Rightarrow> RealmTimers" where
  "release_wake p now handed s = release_with (attempt p now handed) s"

definition arm_wake :: "rat \<Rightarrow> jsnum \<Rightarrow> RealmTimers \<Rightarrow> (timer_error, RealmTimers) result" where
  "arm_wake now ms s =
     (if disposed s then Inl Wake_Disposed
      else case ms of
             Fin q \<Rightarrow>
               if of_int \<lfloor>q\<rfloor> = q \<and> 0 \<le> q \<and> q \<le> 0x7fffffff
               then Inr ((clear_wake s)\<lparr>live := Some \<lparr>le_id = armed_so_far s, le_timer = Some (now + q)\<rparr>,
                                        armed_so_far := armed_so_far s + 1\<rparr>)
               else Inl Bad_Delay
           | _ \<Rightarrow> Inl Bad_Delay)"

definition clearAll :: "RealmTimers \<Rightarrow> RealmTimers" where
  "clearAll s = clear_wake (s\<lparr>disposed := True\<rparr>)"

definition timer_arm :: "rat \<Rightarrow> bytes \<Rightarrow> RealmTimers \<Rightarrow> (timer_error, bytes \<times> RealmTimers) result" where
  "timer_arm now payload s =
     (if length payload \<noteq> 4 then Inl Bad_Arm_Body
      else rbind (arm_wake now (Fin (of_nat (readU32BE payload 0))) s) (\<lambda>s. Inr ([], s)))"

definition timer_clear :: "bytes \<Rightarrow> RealmTimers \<Rightarrow> (timer_error, bytes \<times> RealmTimers) result" where
  "timer_clear payload s = (if length payload \<noteq> 0 then Inl Bad_Clear_Body else Inr ([], clear_wake s))"

section \<open>What the realm is handed\<close>

text \<open>A wake reads back as the op \<open>wake\<close> with no arguments, from the host.\<close>

lemma wakeBody_value: "wakeBody = Inr (HOST_CALLER_ID @ [4, 0x77, 0x61, 0x6b, 0x65])"
proof -
  have w: "writeOp (js ''wake'') [] = Inr [4, 0x77, 0x61, 0x6b, 0x65]"
    by (simp add: writeOp_def js_eval)
  have "args_op (js ''wake'') = Inr (args_bytes [4, 0x77, 0x61, 0x6b, 0x65] args_new)"
    by (simp add: args_op_def w)
  then show ?thesis by (simp add: wakeBody_def args_build_eq)
qed

section \<open>The wake's invariant\<close>

text \<open>The wakes handed over and settled so far: \<open>Some b\<close> when they alternate, with \<open>b\<close> one in flight.\<close>

fun in_flight :: "bool \<Rightarrow> wake_event list \<Rightarrow> bool option" where
  "in_flight f [] = Some f"
| "in_flight False (Fired _ # l) = in_flight True l"
| "in_flight True (Done # l) = in_flight False l"
| "in_flight _ _ = None"

lemma in_flight_append: "in_flight f (l @ m) = (case in_flight f l of None \<Rightarrow> None | Some g \<Rightarrow> in_flight g m)"
  by (induction f l rule: in_flight.induct) auto

definition wakes_paced :: "pace \<Rightarrow> wake_event list \<Rightarrow> bool" where
  "wakes_paced p l \<longleftrightarrow> paced p \<longrightarrow> (\<forall>c. Fired c \<in> set l \<longrightarrow> c > 0)"

definition credit_ok :: "pace \<Rightarrow> RealmTimers \<Rightarrow> bool" where
  "credit_ok p s \<longleftrightarrow> - budgetMs p \<le> credit s \<and> credit s \<le> budgetMs p"

definition flight_ok :: "RealmTimers \<Rightarrow> bool" where
  "flight_ok s \<longleftrightarrow> in_flight False (wakes s) = Some (firing s) \<and>
     (\<forall>e. live s = Some e \<longrightarrow> \<not> disposed s \<and> (le_timer e = None \<longrightarrow> firing s))"

definition timers_ok :: "pace \<Rightarrow> RealmTimers \<Rightarrow> bool" where
  "timers_ok p s \<longleftrightarrow> credit_ok p s \<and> flight_ok s \<and> wakes_paced p (wakes s)"

lemma accrue_frame [simp]:
  "live (accrue p now s) = live s" "firing (accrue p now s) = firing s" "disposed (accrue p now s) = disposed s"
  "wakes (accrue p now s) = wakes s"
  by (simp_all add: accrue_def Let_def)

lemma accrue_ok: "0 \<le> budgetMs p \<Longrightarrow> timers_ok p s \<Longrightarrow> timers_ok p (accrue p now s)"
  by (auto simp: timers_ok_def flight_ok_def) (auto simp: credit_ok_def accrue_def Let_def)

lemma charge_ok: "0 \<le> budgetMs p \<Longrightarrow> timers_ok p s \<Longrightarrow> timers_ok p (charge p now ms s)"
  using accrue_ok [of p s now]
  by (cases ms) (auto simp: charge_def Let_def timers_ok_def credit_ok_def flight_ok_def)

lemma clear_wake_ok: "timers_ok p s \<Longrightarrow> timers_ok p (clear_wake s)"
  by (simp add: timers_ok_def clear_wake_def credit_ok_def flight_ok_def)

lemma clearAll_ok: "timers_ok p s \<Longrightarrow> timers_ok p (clearAll s)"
  by (simp add: timers_ok_def clearAll_def clear_wake_def credit_ok_def flight_ok_def)

lemma arm_wake_ok: "timers_ok p s \<Longrightarrow> arm_wake now ms s = Inr s' \<Longrightarrow> timers_ok p s'"
  by (auto simp: timers_ok_def arm_wake_def clear_wake_def credit_ok_def flight_ok_def split: if_splits jsnum.splits)

text \<open>The state an attempt is made in: like the invariant, but the due entry may have no timer yet.\<close>

definition due_ok :: "pace \<Rightarrow> RealmTimers \<Rightarrow> bool" where
  "due_ok p s \<longleftrightarrow> credit_ok p s \<and> in_flight False (wakes s) = Some (firing s) \<and>
     (\<forall>e. live s = Some e \<longrightarrow> \<not> disposed s) \<and> wakes_paced p (wakes s)"

lemma accrue_credit: "0 \<le> budgetMs p \<Longrightarrow> credit_ok p s \<Longrightarrow> credit_ok p (accrue p now s)"
  by (auto simp: credit_ok_def accrue_def Let_def)

lemma attempt_ok:
  assumes b: "0 \<le> budgetMs p" and due: "due_ok p s"
    and i: "\<forall>e. live s = Some e \<longrightarrow> le_id e = i \<or> (le_timer e = None \<longrightarrow> firing s)"
  shows "timers_ok p (attempt p now handed i s)"
proof (cases "live s")
  case None
  with due show ?thesis by (simp add: attempt_def due_ok_def timers_ok_def flight_ok_def)
next
  case (Some e)
  define s1 where "s1 = s\<lparr>live := Some (e\<lparr>le_timer := None\<rparr>)\<rparr>"
  define s2 where "s2 = accrue p now s1"
  have "credit_ok p s1" using due by (simp add: s1_def due_ok_def credit_ok_def)
  then have c2: "credit_ok p s2" unfolding s2_def by (rule accrue_credit [OF b])
  have "attempt p now handed i s =
      (if le_id e \<noteq> i then s else if firing s then s1
       else if paced p \<and> credit s2 \<le> 0
       then s2\<lparr>live := Some (e\<lparr>le_timer := Some (now + min 0x7fffffff (of_int \<lceil>(1 - credit s2) * clockDivisor p\<rceil>))\<rparr>)\<rparr>
       else let s3 = s2\<lparr>live := None, firing := True, wakes := wakes s @ [Fired (credit s2)]\<rparr>
            in if handed then s3 else s3\<lparr>firing := False, wakes := wakes s3 @ [Done]\<rparr>)"
    using Some by (simp add: attempt_def Let_def s1_def [symmetric] s2_def [symmetric] release_with_def)
       (simp add: s2_def s1_def)
  then show ?thesis
    using Some due i c2
    by (auto simp: due_ok_def timers_ok_def flight_ok_def credit_ok_def wakes_paced_def in_flight_append s1_def s2_def
        Let_def split: if_splits)
qed

lemma release_wake_ok:
  assumes b: "0 \<le> budgetMs p" and ok: "timers_ok p s" and f: "firing s"
  shows "timers_ok p (release_wake p now handed s)"
proof -
  let ?s = "s\<lparr>firing := False, wakes := wakes s @ [Done]\<rparr>"
  have due: "due_ok p ?s"
    using ok f by (auto simp: timers_ok_def due_ok_def flight_ok_def credit_ok_def wakes_paced_def in_flight_append)
  show ?thesis
  proof (cases "live s")
    case None
    with due show ?thesis
      by (simp add: release_wake_def release_with_def due_ok_def timers_ok_def flight_ok_def)
  next
    case (Some e)
    have rel: "release_wake p now handed s = (if le_timer e = None then attempt p now handed (le_id e) ?s else ?s)"
      using Some by (simp add: release_wake_def release_with_def Let_def)
    have "timers_ok p ?s" if "le_timer e \<noteq> None"
      using due that Some by (simp add: due_ok_def timers_ok_def flight_ok_def)
    with attempt_ok [OF b due, of "le_id e"] Some show ?thesis by (auto simp: rel)
  qed
qed

text \<open>
  The histories of one wake: the guest arms and clears it, the host timer calls back for any entry
  it was ever set for, the invocation in flight settles, the realm's work is charged, and the slot
  goes away.
\<close>

inductive timer_step :: "pace \<Rightarrow> RealmTimers \<Rightarrow> RealmTimers \<Rightarrow> bool" for p :: pace where
  arms: "arm_wake now ms s = Inr s' \<Longrightarrow> timer_step p s s'"
| clears: "timer_step p s (clear_wake s)"
| comes_due: "timer_step p s (attempt p now handed i s)"
| settles: "firing s \<Longrightarrow> timer_step p s (release_wake p now handed s)"
| charges: "timer_step p s (charge p now ms s)"
| disposes: "timer_step p s (clearAll s)"

inductive_cases timer_stepE: "timer_step p s s'"

definition timer_reach :: "pace \<Rightarrow> RealmTimers \<Rightarrow> bool" where
  "timer_reach p s \<longleftrightarrow> (\<exists>now. (timer_step p)\<^sup>*\<^sup>* (createRealmTimers p now) s)"

lemma timer_step_ok:
  assumes "timer_step p s s'" and b: "0 \<le> budgetMs p" and ok: "timers_ok p s"
  shows "timers_ok p s'"
  using assms(1)
proof cases
  case (comes_due now handed i)
  have "due_ok p s" "\<forall>e. live s = Some e \<longrightarrow> le_timer e = None \<longrightarrow> firing s"
    using ok by (auto simp: timers_ok_def due_ok_def flight_ok_def)
  with b comes_due show ?thesis by (auto intro: attempt_ok)
qed (use b ok in \<open>simp_all add: arm_wake_ok clear_wake_ok release_wake_ok charge_ok clearAll_ok\<close>)

lemma timer_steps_ok: "(timer_step p)\<^sup>*\<^sup>* s s' \<Longrightarrow> 0 \<le> budgetMs p \<Longrightarrow> timers_ok p s \<Longrightarrow> timers_ok p s'"
  by (induction rule: rtranclp_induct) (simp_all add: timer_step_ok)

lemma timer_start_ok: "0 \<le> budgetMs p \<Longrightarrow> timers_ok p (createRealmTimers p now)"
  by (simp add: timers_ok_def createRealmTimers_def credit_ok_def flight_ok_def wakes_paced_def)

lemma timer_reach_ok: "timer_reach p s \<Longrightarrow> 0 \<le> budgetMs p \<Longrightarrow> timers_ok p s"
  unfolding timer_reach_def using timer_steps_ok timer_start_ok by blast

text \<open>
  C13: in every history of a realm's wake at most one wake is in flight (hand-overs and settlements
  alternate), the execution credit stays within the budget on both sides, a paced wake is only
  handed over while credit is left, and a wake that came due is never forgotten: an entry without a
  timer is waiting for the one in flight to settle.
\<close>

theorem one_wake_in_flight:
  assumes "timer_reach p s" and "0 \<le> budgetMs p"
  shows "in_flight False (wakes s) = Some (firing s) \<and>
    - budgetMs p \<le> credit s \<and> credit s \<le> budgetMs p \<and>
    (0 < budgetMs p \<longrightarrow> (\<forall>c. Fired c \<in> set (wakes s) \<longrightarrow> 0 < c)) \<and>
    (\<forall>e. live s = Some e \<longrightarrow> le_timer e = None \<longrightarrow> firing s)"
  using timer_reach_ok [OF assms]
  by (simp add: timers_ok_def credit_ok_def flight_ok_def wakes_paced_def paced_def)

definition demo_pace :: pace where
  "demo_pace = \<lparr>budgetMs = 10, clockDivisor = 16\<rparr>"

definition demo_wake :: RealmTimers where
  "demo_wake = attempt demo_pace 5 True 0
     ((createRealmTimers demo_pace 0)\<lparr>live := Some \<lparr>le_id = 0, le_timer = Some 5\<rparr>, armed_so_far := 1\<rparr>)"

lemma demo_wake_reach: "timer_reach demo_pace demo_wake"
proof -
  have "arm_wake 0 (Fin 5) (createRealmTimers demo_pace 0) =
      Inr ((createRealmTimers demo_pace 0)\<lparr>live := Some \<lparr>le_id = 0, le_timer = Some 5\<rparr>, armed_so_far := 1\<rparr>)"
    by (simp add: arm_wake_def clear_wake_def createRealmTimers_def)
  then have "timer_step demo_pace (createRealmTimers demo_pace 0)
      ((createRealmTimers demo_pace 0)\<lparr>live := Some \<lparr>le_id = 0, le_timer = Some 5\<rparr>, armed_so_far := 1\<rparr>)"
    by (rule timer_step.arms)
  moreover have "timer_step demo_pace ((createRealmTimers demo_pace 0)\<lparr>live := Some \<lparr>le_id = 0, le_timer = Some 5\<rparr>,
      armed_so_far := 1\<rparr>) demo_wake"
    unfolding demo_wake_def by (rule timer_step.comes_due)
  ultimately show ?thesis unfolding timer_reach_def
    by (meson converse_rtranclp_into_rtranclp r_into_rtranclp)
qed

theorem one_wake_in_flight_witness: "in_flight False (wakes demo_wake) = Some (firing demo_wake) \<and> firing demo_wake"
  using one_wake_in_flight [OF demo_wake_reach]
  by (simp add: demo_wake_def demo_pace_def attempt_def createRealmTimers_def accrue_def Let_def paced_def)

definition hand_overs :: "RealmTimers \<Rightarrow> wake_event list" where
  "hand_overs s = filter (\<lambda>e. e \<noteq> Done) (wakes s)"

lemma disposed_step:
  assumes "timer_step p s s'" and "live s = None" and "disposed s"
  shows "live s' = None \<and> disposed s' \<and> hand_overs s' = hand_overs s"
  using assms
  by (auto elim!: timer_stepE simp: arm_wake_def clear_wake_def clearAll_def attempt_def release_wake_def release_with_def
      hand_overs_def charge_def Let_def split: jsnum.splits)

lemma disposed_steps:
  "(timer_step p)\<^sup>*\<^sup>* s s' \<Longrightarrow> live s = None \<Longrightarrow> disposed s \<Longrightarrow> live s' = None \<and> disposed s' \<and> hand_overs s' = hand_overs s"
  by (induction rule: rtranclp_induct) (auto dest: disposed_step)

text \<open>
  once its slot is disposed, a realm is never woken again: after \<open>clearAll\<close> no sequence of
  steps of any kind hands over another wake, and arming is refused.
\<close>

theorem disposed_never_woken:
  assumes "(timer_step p)\<^sup>*\<^sup>* (clearAll s) s'"
  shows "hand_overs s' = hand_overs s \<and> arm_wake now ms s' = Inl Wake_Disposed"
  using disposed_steps [OF assms] by (simp add: clearAll_def clear_wake_def arm_wake_def hand_overs_def)

theorem disposed_never_woken_witness:
  "hand_overs (release_wake demo_pace 9 True (clearAll demo_wake)) = hand_overs demo_wake"
proof -
  have "firing (clearAll demo_wake)"
    by (simp add: clearAll_def clear_wake_def demo_wake_def demo_pace_def attempt_def createRealmTimers_def accrue_def Let_def paced_def)
  then have "timer_step demo_pace (clearAll demo_wake) (release_wake demo_pace 9 True (clearAll demo_wake))"
    by (rule timer_step.settles)
  then have "(timer_step demo_pace)\<^sup>*\<^sup>* (clearAll demo_wake) (release_wake demo_pace 9 True (clearAll demo_wake))"
    by blast
  from disposed_never_woken [OF this] show ?thesis by blast
qed

text \<open>An attempt on the live entry, with nothing in flight.\<close>

lemma attempt_idle:
  assumes "live s = Some e" "\<not> firing s" and "s2 = accrue p now (s\<lparr>live := Some (e\<lparr>le_timer := None\<rparr>)\<rparr>)"
  shows "attempt p now True (le_id e) s =
    (if paced p \<and> credit s2 \<le> 0
     then s2\<lparr>live := Some (e\<lparr>le_timer := Some (now + min 0x7fffffff (of_int \<lceil>(1 - credit s2) * clockDivisor p\<rceil>))\<rparr>)\<rparr>
     else s2\<lparr>live := None, firing := True, wakes := wakes s2 @ [Fired (credit s2)]\<rparr>)"
  using assms by (simp add: attempt_def Let_def)

lemma accrue_values:
  "creditAt (accrue p now s) = now"
  "credit (accrue p now s) = (if now - creditAt s > 0
     then max (- budgetMs p) (min (budgetMs p) (credit s + (now - creditAt s) / clockDivisor p)) else credit s)"
  by (simp_all add: accrue_def Let_def)

text \<open>Waiting out the pace earns a whole millisecond of credit.\<close>

lemma pace_earns:
  fixes c d w :: rat
  assumes "0 < d" "(1 - c) * d \<le> w" "c \<le> 0" "w \<le> x"
  shows "1 \<le> c + x / d" and "0 < w"
proof -
  have "(1 - c) * d \<le> x" using assms by linarith
  then have "1 - c \<le> x / d" using assms(1) by (simp add: pos_le_divide_eq)
  then show "1 \<le> c + x / d" by linarith
  have "0 < (1 - c) * d" using assms by (intro mult_pos_pos) auto
  with assms show "0 < w" by linarith
qed

text \<open>
  pacing delays a wake and never starves it. A due wake that the credit holds back is set to be
  retried after \<open>(1 - credit) * clockDivisor\<close> milliseconds, rounded up, and if nothing is charged
  meanwhile, that retry hands it over.
\<close>

theorem held_wake_is_retried:
  assumes live: "live s = Some e" and idle: "\<not> firing s"
    and b: "1 \<le> budgetMs p" and d: "0 < clockDivisor p" and ok: "credit_ok p s"
    and cap: "(1 + budgetMs p) * clockDivisor p \<le> 0x7ffffffe"
  shows "let s' = attempt p now True (le_id e) s in
    firing s' \<or> (\<exists>e' t. live s' = Some e' \<and> le_timer e' = Some t \<and> le_id e' = le_id e \<and>
      (\<forall>later \<ge> t. firing (attempt p later True (le_id e') s')))"
proof -
  define s2 where "s2 = accrue p now (s\<lparr>live := Some (e\<lparr>le_timer := None\<rparr>)\<rparr>)"
  note att = attempt_idle [OF live idle s2_def]
  have c2: "credit_ok p s2" unfolding s2_def
    by (rule accrue_credit) (use b ok in \<open>simp_all add: credit_ok_def\<close>)
  have i2: "\<not> firing s2" "creditAt s2 = now" using idle by (simp_all add: s2_def accrue_values)
  define w where "w = (of_int \<lceil>(1 - credit s2) * clockDivisor p\<rceil> :: rat)"
  have w: "(1 - credit s2) * clockDivisor p \<le> w" "w \<le> (1 - credit s2) * clockDivisor p + 1"
    unfolding w_def by (simp_all add: le_of_int_ceiling)
  show ?thesis
  proof (cases "paced p \<and> credit s2 \<le> 0")
    case True
    have "(1 - credit s2) * clockDivisor p \<le> (1 + budgetMs p) * clockDivisor p"
      using c2 d by (intro mult_right_mono) (auto simp: credit_ok_def)
    with w cap have m: "min 0x7fffffff w = w" by linarith
    let ?e = "e\<lparr>le_timer := Some (now + w)\<rparr>"
    let ?s = "s2\<lparr>live := Some ?e\<rparr>"
    have s': "attempt p now True (le_id e) s = ?s" using True m by (simp add: att w_def [symmetric])
    have "firing (attempt p later True (le_id ?e) ?s)" if "now + w \<le> later" for later
    proof -
      have wl: "w \<le> later - now" using that by linarith
      note earn = pace_earns [OF d w(1) _ wl]
      have "0 < credit (accrue p later (?s\<lparr>live := Some (?e\<lparr>le_timer := None\<rparr>)\<rparr>))"
        using earn True wl b i2 by (simp add: accrue_values)
      then show ?thesis
        using attempt_idle [OF _ _ refl, of ?s ?e p later] i2 by simp
    qed
    then show ?thesis unfolding Let_def s' by (intro disjI2 exI [of _ ?e] exI [of _ "now + w"]) simp
  next
    case False
    then have "attempt p now True (le_id e) s = s2\<lparr>live := None, firing := True, wakes := wakes s2 @ [Fired (credit s2)]\<rparr>"
      by (simp only: att if_False)
    then show ?thesis by (simp add: Let_def)
  qed
qed

theorem held_wake_is_retried_witness:
  "let s = \<lparr>live = Some \<lparr>le_id = 0, le_timer = Some 5\<rparr>, firing = False, disposed = False, credit = - 3, creditAt = 5,
             armed_so_far = 1, wakes = []\<rparr>;
       s' = attempt demo_pace 5 True 0 s
   in live s' = Some \<lparr>le_id = 0, le_timer = Some 69\<rparr> \<and> firing (attempt demo_pace 69 True 0 s')"
  using held_wake_is_retried [of "\<lparr>live = Some \<lparr>le_id = 0, le_timer = Some 5\<rparr>, firing = False, disposed = False, credit = - 3,
      creditAt = 5, armed_so_far = 1, wakes = []\<rparr>" "\<lparr>le_id = 0, le_timer = Some 5\<rparr>" demo_pace 5]
  by (simp add: Let_def attempt_def accrue_def paced_def demo_pace_def credit_ok_def)

end
