(* ===== verification/Guest_Util.thy ===== *)
theory Guest_Util
  imports Op_Frame
begin

text \<open>
  \<^verbatim>\<open>WASM/transport/src/util.js\<close>: the byte helpers of the transport guest, the reader of a host event's
  arguments, and \<open>Pieces\<close>, the byte queue its framers and streams are built on. The guest carries
  its own copies of the host's helpers, so what the two sides share is proved here.
\<close>

section \<open>Byte helpers\<close>

definition guest_concatBytes :: "bytes list \<Rightarrow> bytes" where
  "guest_concatBytes ps = (let n = fold (\<lambda>p len. len + length p) ps 0 in fill_parts (replicate n 0) 0 ps)"

definition guest_writeU32BE :: "bytes \<Rightarrow> nat \<Rightarrow> nat \<Rightarrow> bytes" where
  "guest_writeU32BE out off v =
     out[off := of_nat (drop_bit 24 v), off + 1 := of_nat (drop_bit 16 v AND 255),
         off + 2 := of_nat (drop_bit 8 v AND 255), off + 3 := of_nat (v AND 255)]"

definition writeU16BE :: "bytes \<Rightarrow> nat \<Rightarrow> nat \<Rightarrow> bytes" where
  "writeU16BE out off v = out[off := of_nat (drop_bit 8 v), off + 1 := of_nat (v AND 255)]"

definition readU16BE :: "bytes \<Rightarrow> nat \<Rightarrow> nat" where
  "readU16BE b off = push_bit 8 (unat (num_at b off)) OR unat (num_at b (off + 1))"

text \<open>A 48-bit field: the high half is the quotient by \<open>2 ^ 32\<close>, taken to an unsigned 32-bit number.\<close>

definition writeU48BE :: "bytes \<Rightarrow> nat \<Rightarrow> nat \<Rightarrow> bytes" where
  "writeU48BE out off v =
     (let hi = v div 4294967296 mod 2 ^ 32
      in guest_writeU32BE (out[off := of_nat (drop_bit 8 hi), off + 1 := of_nat (hi AND 255)]) (off + 2) v)"

definition readU48BE :: "bytes \<Rightarrow> nat \<Rightarrow> nat" where
  "readU48BE b off = readU16BE b off * 4294967296 + readU32BE b (off + 2)"

fun guest_toHex :: "bytes \<Rightarrow> jstr" where
  "guest_toHex (b0 # b1 # b2 # b3 # rest) =
     (HEX_BYTE b0 @ HEX_BYTE b1 @ HEX_BYTE b2 @ HEX_BYTE b3) @ guest_toHex rest"
| "guest_toHex (b # rest) = HEX_BYTE b @ guest_toHex rest"
| "guest_toHex [] = []"

text \<open>The answer is -1, 0 or 1; the bytes decide, then the lengths.\<close>

fun bytesCompare :: "bytes \<Rightarrow> bytes \<Rightarrow> int" where
  "bytesCompare (x # a) (y # b) = (if x \<noteq> y then (if x < y then -1 else 1) else bytesCompare a b)"
| "bytesCompare a b = (if length a = length b then 0 else if length a < length b then -1 else 1)"

section \<open>Arguments\<close>

definition argU32 :: "nat \<Rightarrow> bytes" where
  "argU32 v = guest_writeU32BE (replicate 4 0) 0 v"

definition args :: "nat list \<Rightarrow> byte list \<Rightarrow> bytes option \<Rightarrow> bytes" where
  "args u32s u8s tl' = guest_concatBytes (map argU32 u32s @ (if u8s \<noteq> [] then [u8s] else []) @
     (case tl' of None \<Rightarrow> [] | Some t \<Rightarrow> [t]))"

record Reader =
  rbuf :: bytes
  roff :: nat

definition new_Reader :: "bytes \<Rightarrow> Reader" where
  "new_Reader b = \<lparr>rbuf = b, roff = 0\<rparr>"

definition reader_u8 :: "Reader \<Rightarrow> byte option \<times> Reader" where
  "reader_u8 r = (elem_at (rbuf r) (roff r), r\<lparr>roff := roff r + 1\<rparr>)"

definition reader_u32 :: "Reader \<Rightarrow> nat \<times> Reader" where
  "reader_u32 r = (readU32BE (rbuf r) (roff r), r\<lparr>roff := roff r + 4\<rparr>)"

definition reader_blob :: "Reader \<Rightarrow> bytes \<times> Reader" where
  "reader_blob r = (let (n, r) = reader_u32 r in (subarray (rbuf r) (roff r) (roff r + n), r\<lparr>roff := roff r + n\<rparr>))"

definition reader_peer :: "Reader \<Rightarrow> (unit, bytes \<times> Reader) result" where
  "reader_peer r = (let (b, r) = reader_blob r in if length b \<noteq> 32 then Inl () else Inr (b, r))"

definition reader_more :: "Reader \<Rightarrow> bool" where
  "reader_more r \<longleftrightarrow> roff r < length (rbuf r)"

section \<open>The byte queue\<close>

text \<open>
  A piece is its bytes and the spare capacity of the buffer behind it, which only an accumulator the
  queue allocated itself uses. A consumed slot is \<open>None\<close>; \<open>ptail\<close> is the accumulator's index.
\<close>

record Pieces =
  plist :: "(bytes \<times> nat) option list"
  phead :: nat
  pat :: nat
  pbytes :: nat
  mergeBelow :: nat
  ptail :: "nat option"
  ptailOwned :: bool

definition new_Pieces :: "nat \<Rightarrow> Pieces" where
  "new_Pieces m = \<lparr>plist = [], phead = 0, pat = 0, pbytes = 0, mergeBelow = m, ptail = None, ptailOwned = False\<rparr>"

definition pieces_slices :: "Pieces \<Rightarrow> nat" where
  "pieces_slices p = length (plist p) - phead p"

definition pdata :: "(bytes \<times> nat) option \<Rightarrow> bytes" where
  "pdata q = (case q of Some (b, _) \<Rightarrow> b | None \<Rightarrow> [])"

definition piece_at :: "Pieces \<Rightarrow> nat \<Rightarrow> bytes" where
  "piece_at p i = pdata (plist p ! i)"

definition piece_spare :: "Pieces \<Rightarrow> nat \<Rightarrow> nat" where
  "piece_spare p i = (case plist p ! i of Some (_, n) \<Rightarrow> n | None \<Rightarrow> 0)"

definition pieces_push :: "bytes \<Rightarrow> Pieces \<Rightarrow> Pieces" where
  "pieces_push piece p =
     (if piece = [] then p
      else let p = p\<lparr>pbytes := pbytes p + length piece\<rparr> in
        if length piece \<ge> mergeBelow p then p\<lparr>plist := plist p @ [Some (piece, 0)], ptail := None\<rparr>
        else case ptail p of
               None \<Rightarrow> p\<lparr>ptail := Some (length (plist p)), ptailOwned := False, plist := plist p @ [Some (piece, 0)]\<rparr>
             | Some t \<Rightarrow>
                 let cur = piece_at p t; spare = piece_spare p t; want = length cur + length piece in
                 if ptailOwned p \<and> length piece \<le> spare
                 then p\<lparr>plist := (plist p)[t := Some (cur @ piece, spare - length piece)]\<rparr>
                 else p\<lparr>plist := (plist p)[t := Some (cur @ piece, max (mergeBelow p) (want * 2) - want)],
                        ptailOwned := True\<rparr>)"

definition pieces_shift :: "Pieces \<Rightarrow> Pieces" where
  "pieces_shift p =
     (let p = (if ptail p = Some (phead p) then p\<lparr>ptail := None\<rparr> else p);
          p = p\<lparr>plist := (plist p)[phead p := None], phead := phead p + 1, pat := 0\<rparr>
      in if phead p \<ge> 1024 \<and> phead p * 2 \<ge> length (plist p)
         then p\<lparr>plist := drop (phead p) (plist p), ptail := map_option (\<lambda>t. t - phead p) (ptail p), phead := 0\<rparr>
         else p)"

text \<open>\<open>peek\<close>'s loop over the pieces from index \<open>i\<close>, wanting \<open>n\<close> bytes more.\<close>

fun peek_from :: "(bytes \<times> nat) option list \<Rightarrow> nat \<Rightarrow> nat \<Rightarrow> bytes" where
  "peek_from [] from n = []"
| "peek_from (q # qs) from n =
     (if n = 0 then []
      else let p = pdata q; k = min (length p - from) n
           in subarray p from (from + k) @ peek_from qs 0 (n - k))"

definition pieces_peek :: "nat \<Rightarrow> Pieces \<Rightarrow> bytes" where
  "pieces_peek n p = peek_from (drop (phead p) (plist p)) (pat p) (min n (pbytes p))"

fun byte_from :: "(bytes \<times> nat) option list \<Rightarrow> nat \<Rightarrow> byte" where
  "byte_from [] i = 0"
| "byte_from (q # qs) i =
     (let p = pdata q
      in if i < length p then p ! i else byte_from qs (i - length p))"

definition byteAt :: "nat \<Rightarrow> Pieces \<Rightarrow> byte" where
  "byteAt i p = byte_from (drop (phead p) (plist p)) (i + pat p)"

text \<open>
  \<open>consume\<close>'s loop. \<open>out\<close> is what was copied so far; a first piece that holds all of \<open>n\<close> is handed out
  as it is, which gives the same bytes. The fuel is the number of pieces, one of which each round but
  the last uses up.
\<close>

fun consume_loop :: "nat \<Rightarrow> nat \<Rightarrow> nat \<Rightarrow> bytes \<Rightarrow> Pieces \<Rightarrow> bytes \<times> Pieces" where
  "consume_loop 0 n got out p = (out, p)"
| "consume_loop (Suc f) n got out p =
     (if got < n
      then let piece = piece_at p (phead p); k = min (length piece - pat p) (n - got);
               out = out @ subarray piece (pat p) (pat p + k);
               p = p\<lparr>pat := pat p + k\<rparr>;
               p = (if pat p = length piece then pieces_shift p else p)
           in consume_loop f n (got + k) out p
      else (out, p))"

definition pieces_consume :: "nat \<Rightarrow> Pieces \<Rightarrow> bytes \<times> Pieces" where
  "pieces_consume n p = consume_loop (pieces_slices p) n 0 [] (p\<lparr>pbytes := pbytes p - n\<rparr>)"

definition pieces_take :: "nat \<Rightarrow> Pieces \<Rightarrow> bytes \<times> Pieces" where
  "pieces_take n p = pieces_consume n p"

definition pieces_takeCopy :: "nat \<Rightarrow> nat \<Rightarrow> Pieces \<Rightarrow> bytes \<times> Pieces" where
  "pieces_takeCopy n prefix p = (let (b, p) = pieces_consume n p in (replicate prefix 0 @ b, p))"

section \<open>What the two sides share\<close>

lemma fold_lengths: "fold (\<lambda>p n. n + length p) ps m = m + length (concat ps)"
  by (induction ps arbitrary: m) auto

lemma guest_concatBytes_eq: "guest_concatBytes ps = concat ps"
  by (simp add: guest_concatBytes_def fold_lengths fill_parts_eq)

lemma guest_toHex_eq: "guest_toHex bs = concat (map HEX_BYTE bs)"
  by (induction bs rule: guest_toHex.induct) auto

section \<open>The byte queue as a list of bytes\<close>

definition pieces_live :: "Pieces \<Rightarrow> bytes" where
  "pieces_live p = drop (pat p) (concat (map pdata (drop (phead p) (plist p))))"

definition pieces_shape :: "Pieces \<Rightarrow> bool" where
  "pieces_shape p \<longleftrightarrow> phead p \<le> length (plist p) \<and> (\<forall>q \<in> set (drop (phead p) (plist p)). pdata q \<noteq> []) \<and>
     (pat p = 0 \<or> phead p < length (plist p) \<and> pat p < length (piece_at p (phead p))) \<and>
     (\<forall>t. ptail p = Some t \<longrightarrow> phead p \<le> t \<and> Suc t = length (plist p))"

definition pieces_ok :: "Pieces \<Rightarrow> bool" where
  "pieces_ok p \<longleftrightarrow> pieces_shape p \<and> pbytes p = length (pieces_live p)"

lemma pdata_Some [simp]: "pdata (Some (b, n)) = b"
  by (simp add: pdata_def)

lemma shape_front:
  assumes "pieces_shape p" "pieces_live p \<noteq> []"
  shows "phead p < length (plist p)" "pat p < length (piece_at p (phead p))"
    "drop (phead p) (plist p) = plist p ! phead p # drop (Suc (phead p)) (plist p)"
proof -
  show h: "phead p < length (plist p)" using assms by (auto simp: pieces_live_def pieces_shape_def not_le [symmetric])
  then show d: "drop (phead p) (plist p) = plist p ! phead p # drop (Suc (phead p)) (plist p)"
    by (simp add: Cons_nth_drop_Suc)
  have "piece_at p (phead p) \<noteq> []" using assms(1) d by (simp add: pieces_shape_def piece_at_def)
  then show "pat p < length (piece_at p (phead p))" using assms(1) by (auto simp: pieces_shape_def)
qed

lemma live_front:
  assumes "pieces_shape p" "pieces_live p \<noteq> []"
  shows "pieces_live p = drop (pat p) (piece_at p (phead p)) @ concat (map pdata (drop (Suc (phead p)) (plist p)))"
  using shape_front [OF assms] by (simp add: pieces_live_def piece_at_def)

lemma shift_live:
  assumes "pieces_shape p" "pieces_live p \<noteq> []"
  shows "pieces_live (pieces_shift p) = concat (map pdata (drop (Suc (phead p)) (plist p)))"
    and "pieces_slices (pieces_shift p) = pieces_slices p - 1"
  using shape_front(1) [OF assms]
  by (simp_all add: pieces_shift_def pieces_live_def pieces_slices_def Let_def)

lemma shift_shape:
  assumes "pieces_shape p" "pieces_live p \<noteq> []"
  shows "pieces_shape (pieces_shift p)"
proof -
  note h = shape_front [OF assms]
  have "\<forall>q \<in> set (drop (Suc (phead p)) (plist p)). pdata q \<noteq> []"
    using assms(1) h(3) by (simp add: pieces_shape_def)
  with assms(1) h show ?thesis
    by (auto simp: pieces_shape_def pieces_shift_def Let_def piece_at_def)
qed

lemma advance_shape:
  assumes "pieces_shape p" "pieces_live p \<noteq> []" "pat p + k < length (piece_at p (phead p))"
  shows "pieces_shape (p\<lparr>pat := pat p + k\<rparr>)"
  using assms shape_front [OF assms(1,2)] by (simp add: pieces_shape_def piece_at_def)

lemma shift_pat: "pieces_shift (p\<lparr>pat := x\<rparr>) = pieces_shift p"
  by (auto simp: pieces_shift_def Let_def)

lemma consume_loop_live:
  assumes "pieces_shape p" "n - got \<le> length (pieces_live p)" "pieces_slices p \<le> f"
  shows "fst (consume_loop f n got out p) = out @ take (n - got) (pieces_live p) \<and>
    pieces_live (snd (consume_loop f n got out p)) = drop (n - got) (pieces_live p) \<and>
    pieces_shape (snd (consume_loop f n got out p))"
  using assms
proof (induction f arbitrary: got out p)
  case 0
  then have "pieces_live p = []" by (simp add: pieces_slices_def pieces_live_def)
  with 0 show ?case by simp
next
  case (Suc f)
  show ?case
  proof (cases "got < n")
    case False
    with Suc.prems show ?thesis by simp
  next
    case True
    with Suc.prems have ne: "pieces_live p \<noteq> []" by auto
    note h = shape_front [OF Suc.prems(1) ne] and l = live_front [OF Suc.prems(1) ne]
    define c where "c = piece_at p (phead p)"
    define k where "k = min (length c - pat p) (n - got)"
    define p' where "p' = (if pat p + k = length c then pieces_shift p else p\<lparr>pat := pat p + k\<rparr>)"
    have k: "0 < k" "k \<le> n - got" using True h(2) by (auto simp: k_def c_def)
    have step: "consume_loop (Suc f) n got out p = consume_loop f n (got + k) (out @ subarray c (pat p) (pat p + k)) p'"
      using True by (simp add: Let_def shift_pat c_def [symmetric] k_def [symmetric] p'_def)
    have sub: "subarray c (pat p) (pat p + k) = take k (pieces_live p)"
      unfolding l c_def [symmetric] subarray_def k_def by simp
    show ?thesis
    proof (cases "pat p + k = length c")
      case full: True
      then have "k = length c - pat p" by simp
      then have live: "pieces_live p' = drop k (pieces_live p)"
        using shift_live(1) [OF Suc.prems(1) ne] full l by (simp add: p'_def c_def)
      have "pieces_slices p' \<le> f" using shift_live(2) [OF Suc.prems(1) ne] full Suc.prems(3) by (simp add: p'_def)
      with Suc.IH [of p' "got + k" "out @ subarray c (pat p) (pat p + k)"] shift_shape [OF Suc.prems(1) ne] full Suc.prems(2) k
      show ?thesis unfolding step sub live by (simp add: p'_def take_add [symmetric] diff_diff_add)
    next
      case part: False
      then have kn: "k = n - got" "pat p + k < length c" using h(2) unfolding k_def c_def [symmetric] by (simp_all add: min_def split: if_splits)
      have live: "pieces_live p' = drop k (pieces_live p)"
        using part by (simp add: p'_def pieces_live_def add.commute)
      have stop: "consume_loop f n (got + k) o' q = (o', q)" for o' q using kn k by (cases f) auto
      show ?thesis
        using part live advance_shape [OF Suc.prems(1) ne] kn unfolding step sub stop by (simp add: p'_def c_def)
    qed
  qed
qed

lemma shape_bytes [simp]: "pieces_shape (p\<lparr>pbytes := b\<rparr>) = pieces_shape p" "pieces_live (p\<lparr>pbytes := b\<rparr>) = pieces_live p"
  "pieces_slices (p\<lparr>pbytes := b\<rparr>) = pieces_slices p"
  by (simp_all add: pieces_shape_def pieces_live_def pieces_slices_def piece_at_def)

lemma shift_bytes [simp]: "pbytes (pieces_shift p) = pbytes p"
  by (simp add: pieces_shift_def Let_def)

lemma consume_loop_bytes [simp]: "pbytes (snd (consume_loop f n got out p)) = pbytes p"
  by (induction f arbitrary: got out p) (auto simp: Let_def)

lemma pieces_consume_live:
  assumes "pieces_ok p" "n \<le> pbytes p"
  shows "fst (pieces_consume n p) = take n (pieces_live p)" "pieces_live (snd (pieces_consume n p)) = drop n (pieces_live p)"
    "pieces_ok (snd (pieces_consume n p))"
  using consume_loop_live [of "p\<lparr>pbytes := pbytes p - n\<rparr>" n 0 "pieces_slices p" "[]"] assms
  by (simp_all add: pieces_ok_def pieces_consume_def)

lemma pat_in_concat: "pieces_shape p \<Longrightarrow> pat p \<le> length (concat (map pdata (drop (phead p) (plist p))))"
proof (cases "pat p = 0")
  case False
  assume s: "pieces_shape p"
  with False have h: "phead p < length (plist p)" "pat p < length (piece_at p (phead p))" by (auto simp: pieces_shape_def)
  then show ?thesis by (simp add: piece_at_def Cons_nth_drop_Suc [symmetric])
qed simp

lemma push_list:
  assumes "pieces_shape p" "piece \<noteq> []"
  shows "\<exists>L x. drop (phead p) (plist p) = L @ (if ptail p \<noteq> None \<and> length piece < mergeBelow p then [x] else []) \<and>
    (\<exists>n. drop (phead (pieces_push piece p)) (plist (pieces_push piece p)) =
      L @ [Some ((if ptail p \<noteq> None \<and> length piece < mergeBelow p then pdata x else []) @ piece, n)])"
proof (cases "ptail p \<noteq> None \<and> length piece < mergeBelow p")
  case False
  with assms show ?thesis
    by (auto simp: pieces_push_def Let_def pieces_shape_def split: option.splits)
next
  case True
  then obtain t where t: "ptail p = Some t" "phead p \<le> t" "Suc t = length (plist p)"
    using assms(1) by (auto simp: pieces_shape_def)
  have split: "plist p = take t (plist p) @ [plist p ! t]" using t by (metis lessI take_Suc_conv_app_nth take_all order_refl)
  have upd: "(plist p)[t := y] = take t (plist p) @ [y]" for y
    using t by (simp add: list_update_beyond upd_conv_take_nth_drop)
  have d1: "drop (phead p) (plist p) = drop (phead p) (take t (plist p)) @ [plist p ! t]"
    using split t by (metis (no_types, lifting) diff_is_0_eq drop0 drop_append length_take less_or_eq_imp_le lessI min.absorb2)
  have d2: "drop (phead p) ((plist p)[t := y]) = drop (phead p) (take t (plist p)) @ [y]" for y
    unfolding upd using t by simp
  have "\<exists>n. drop (phead (pieces_push piece p)) (plist (pieces_push piece p)) =
      drop (phead p) (take t (plist p)) @ [Some (piece_at p t @ piece, n)]"
    using True t assms(2) by (auto simp: pieces_push_def Let_def d2 piece_at_def)
  with True d1 show ?thesis by (auto simp: piece_at_def)
qed

lemma push_frame:
  "phead (pieces_push piece p) = phead p" "pat (pieces_push piece p) = pat p"
  "pbytes (pieces_push piece p) = pbytes p + length piece" "mergeBelow (pieces_push piece p) = mergeBelow p"
  by (auto simp: pieces_push_def Let_def split: option.splits)

lemma push_tail:
  assumes "pieces_shape p"
  shows "\<forall>t. ptail (pieces_push piece p) = Some t \<longrightarrow> phead p \<le> t \<and> Suc t = length (plist (pieces_push piece p))"
  using assms by (auto simp: pieces_push_def Let_def pieces_shape_def split: option.splits)

lemma pieces_push_live:
  assumes "pieces_ok p"
  shows "pieces_live (pieces_push piece p) = pieces_live p @ piece" "pieces_ok (pieces_push piece p)"
proof -
  have s: "pieces_shape p" and b: "pbytes p = length (pieces_live p)" using assms by (simp_all add: pieces_ok_def)
  have "pieces_live (pieces_push piece p) = pieces_live p @ piece \<and> pieces_shape (pieces_push piece p)"
  proof (cases "piece = []")
    case True
    then show ?thesis using s by (simp add: pieces_push_def)
  next
    case False
    let ?m = "ptail p \<noteq> None \<and> length piece < mergeBelow p" and ?q = "pieces_push piece p"
    obtain L x n where l: "drop (phead p) (plist p) = L @ (if ?m then [x] else [])"
      "drop (phead ?q) (plist ?q) = L @ [Some ((if ?m then pdata x else []) @ piece, n)]"
      using push_list [OF s False] by blast
    have "pieces_live ?q = pieces_live p @ piece"
      using pat_in_concat [OF s] unfolding pieces_live_def push_frame(2) l by auto
    moreover have "pieces_shape ?q"
    proof -
      have ne: "\<forall>r \<in> set (drop (phead ?q) (plist ?q)). pdata r \<noteq> []"
        using s False l unfolding pieces_shape_def by auto
      have len: "phead p < length (plist ?q)" using l(2) by (metis push_frame(1) drop_all leI append_is_Nil_conv list.distinct(1))
      have at0: "pat p < length (piece_at ?q (phead p))"
      proof (cases "pat p = 0")
        case True
        have "plist ?q ! phead p \<in> set (drop (phead ?q) (plist ?q))"
          using len by (simp add: push_frame(1) Cons_nth_drop_Suc [symmetric])
        with ne True show ?thesis by (simp add: piece_at_def)
      next
        case False
        then have h: "phead p < length (plist p)" "pat p < length (piece_at p (phead p))" using s by (auto simp: pieces_shape_def)
        have first: "plist r ! phead p = drop (phead p) (plist r) ! 0" if "phead p < length (plist r)" for r :: Pieces
          using that by simp
        have "pdata (drop (phead p) (plist p) ! 0) = piece_at p (phead p)" using first [OF h(1)] by (simp add: piece_at_def)
        moreover have "length (pdata (drop (phead p) (plist p) ! 0)) \<le> length (pdata (drop (phead ?q) (plist ?q) ! 0))"
        proof -
          have "L @ (if ?m then [x] else []) \<noteq> []" using h(1) unfolding l(1) [symmetric] by simp
          then show ?thesis unfolding l by (cases L) (auto split: if_splits)
        qed
        ultimately show ?thesis using h(2) first [OF len] by (simp add: piece_at_def push_frame(1))
      qed
      show ?thesis using s ne len at0 push_tail [OF s, of piece]
        unfolding pieces_shape_def push_frame(1,2) by auto
    qed
    ultimately show ?thesis by blast
  qed
  then show "pieces_live (pieces_push piece p) = pieces_live p @ piece" "pieces_ok (pieces_push piece p)"
    using b by (simp_all add: pieces_ok_def push_frame(3))
qed

lemma byte_from_eq: "i < length (concat (map pdata qs)) \<Longrightarrow> byte_from qs i = concat (map pdata qs) ! i"
  by (induction qs i rule: byte_from.induct) (auto simp: Let_def nth_append)

lemma byteAt_live: "pieces_ok p \<Longrightarrow> i < pbytes p \<Longrightarrow> byteAt i p = pieces_live p ! i"
  unfolding pieces_ok_def byteAt_def pieces_live_def by (subst byte_from_eq) (auto simp: add.commute)

lemma peek_from_eq: "from \<le> length (concat (map pdata qs)) \<Longrightarrow> (qs \<noteq> [] \<Longrightarrow> from \<le> length (pdata (hd qs))) \<Longrightarrow>
    peek_from qs from n = take n (drop from (concat (map pdata qs)))"
  by (induction qs "from" n rule: peek_from.induct)
     (auto simp: Let_def subarray_def min_def not_le take_append split: if_splits)

lemma pieces_peek_live: "pieces_ok p \<Longrightarrow> pieces_peek n p = take n (pieces_live p)"
proof -
  assume ok: "pieces_ok p"
  then have s: "pieces_shape p" by (simp add: pieces_ok_def)
  have "pat p \<le> length (pdata (hd (drop (phead p) (plist p))))" if "drop (phead p) (plist p) \<noteq> []"
    using s that unfolding pieces_shape_def piece_at_def by (auto simp: hd_drop_conv_nth)
  then show ?thesis
    using ok pat_in_concat [OF s] unfolding pieces_peek_def pieces_live_def pieces_ok_def
    by (subst peek_from_eq) (auto simp: min_def)
qed

text \<open>
  The contract the framers and the streams rely on: a queue of bytes, filled at the back in chunks
  of any size and read from the front.
\<close>

locale byte_queue =
  fixes bempty :: 'q and bpush :: "bytes \<Rightarrow> 'q \<Rightarrow> 'q" and btake :: "nat \<Rightarrow> 'q \<Rightarrow> bytes \<times> 'q"
    and bat :: "nat \<Rightarrow> 'q \<Rightarrow> byte" and bpeek :: "nat \<Rightarrow> 'q \<Rightarrow> bytes" and bsize :: "'q \<Rightarrow> nat"
    and blive :: "'q \<Rightarrow> bytes" and binv :: "'q \<Rightarrow> bool"
  assumes live_empty: "blive bempty = []" and inv_empty: "binv bempty"
    and live_push: "binv q \<Longrightarrow> blive (bpush b q) = blive q @ b" and inv_push: "binv q \<Longrightarrow> binv (bpush b q)"
    and take_value: "binv q \<Longrightarrow> n \<le> bsize q \<Longrightarrow> fst (btake n q) = take n (blive q)"
    and live_take: "binv q \<Longrightarrow> n \<le> bsize q \<Longrightarrow> blive (snd (btake n q)) = drop n (blive q)"
    and inv_take: "binv q \<Longrightarrow> n \<le> bsize q \<Longrightarrow> binv (snd (btake n q))"
    and at_value: "binv q \<Longrightarrow> i < bsize q \<Longrightarrow> bat i q = blive q ! i"
    and peek_value: "binv q \<Longrightarrow> bpeek n q = take n (blive q)"
    and size_live: "binv q \<Longrightarrow> bsize q = length (blive q)"
begin

lemma push_chunks: "binv q \<Longrightarrow> binv (fold bpush cs q) \<and> blive (fold bpush cs q) = blive q @ concat cs"
  by (induction cs arbitrary: q) (simp_all add: live_push inv_push)

text \<open>Cutting the same bytes differently makes no difference to what is read.\<close>

lemma chunking_irrelevant:
  assumes "binv q" "concat cs = concat ds" "n \<le> length (blive q) + length (concat cs)"
  shows "fst (btake n (fold bpush cs q)) = fst (btake n (fold bpush ds q))"
    and "blive (snd (btake n (fold bpush cs q))) = blive (snd (btake n (fold bpush ds q)))"
  using push_chunks [OF assms(1), of cs] push_chunks [OF assms(1), of ds] assms(2,3)
  by (simp_all add: take_value live_take size_live)

end

interpretation pieces: byte_queue "new_Pieces m" pieces_push pieces_take byteAt pieces_peek pbytes pieces_live pieces_ok
proof
  show "pieces_live (new_Pieces m) = []" "pieces_ok (new_Pieces m)"
    by (simp_all add: new_Pieces_def pieces_live_def pieces_ok_def pieces_shape_def)
qed (simp_all add: pieces_push_live pieces_take_def pieces_consume_live byteAt_live pieces_peek_live, simp add: pieces_ok_def)

section \<open>Fields\<close>

lemma byte_of_word: "k + 8 \<le> 32 \<Longrightarrow> (ucast (drop_bit k (of_nat v :: 32 word)) :: byte) = of_nat (drop_bit k v)"
  by (rule bit_word_eqI) (simp add: bit_simps bit_of_nat_iff_bit)

lemma and_255: "n AND 255 = n mod 256" for n :: nat
  using and_mask_nat [of n 8] by simp

lemma byte_mod: "(of_nat (n mod 256) :: byte) = of_nat n"
  using word_of_nat_eq_iff [where 'a = 8, of "n mod 256" n] by (simp add: take_bit_eq_mod)

text \<open>The guest's writer puts the same four bytes as the host's, so either side's reader reads either's.\<close>

lemma guest_writeU32BE_eq: "guest_writeU32BE out off v = writeU32BE out off (int v)"
  using byte_of_word [of 0 v] byte_of_word [of 8 v] byte_of_word [of 16 v] byte_of_word [of 24 v]
  by (simp add: guest_writeU32BE_def writeU32BE_def Let_def low_byte and_255 byte_mod)

lemma readU16BE_bytes:
  assumes "num_at b off = of_nat (v div 256)" "num_at b (off + 1) = of_nat v" "v < 2 ^ 16"
  shows "readU16BE b off = v"
proof -
  have d: "v div 256 < 256" using assms(3) by (simp add: less_mult_imp_div_less)
  have "(of_nat v :: byte) = of_nat (v mod 256)" by (simp add: byte_mod)
  then have "readU16BE b off = push_bit 8 (v div 256) OR (v mod 256)"
    using assms(1,2) d by (simp add: readU16BE_def unat_of_nat_byte)
  also have "\<dots> = v" using or_low_nat [of "v mod 256" 8 "v div 256"] by (simp add: push_bit_eq_mult)
  finally show ?thesis .
qed

lemma readU16BE_writeU16BE:
  assumes "off + 2 \<le> length out" "v < 2 ^ 16"
  shows "readU16BE (writeU16BE out off v) off = v"
  using assms by (intro readU16BE_bytes) (simp_all add: writeU16BE_def and_255 byte_mod drop_bit_eq_div)

lemma readU48BE_writeU48BE:
  assumes "off + 6 \<le> length out" "v < 2 ^ 48"
  shows "readU48BE (writeU48BE out off v) off = v"
proof -
  have hi: "v div 4294967296 < 2 ^ 16" using assms(2) by (simp add: less_mult_imp_div_less)
  then have h: "v div 4294967296 mod 2 ^ 32 = v div 4294967296" by (intro mod_less) simp
  let ?o = "out[off := of_nat (drop_bit 8 (v div 4294967296)), off + 1 := of_nat (v div 4294967296 AND 255)]"
  have w: "writeU48BE out off v = writeU32BE ?o (off + 2) (int v)"
    unfolding writeU48BE_def Let_def h guest_writeU32BE_eq ..
  have "readU16BE (writeU48BE out off v) off = v div 4294967296"
    by (rule readU16BE_bytes) (use assms hi in \<open>simp_all add: w writeU32BE_def Let_def and_255 byte_mod drop_bit_eq_div\<close>)
  moreover have "readU32BE (writeU48BE out off v) (off + 2) = v mod 4294967296"
    using assms(1) by (simp add: w readU32BE_writeU32BE zmod_int [symmetric] nat_mod_distrib flip: of_nat_mod)
  ultimately show ?thesis by (simp add: readU48BE_def)
qed

lemma length_writes [simp]:
  "length (writeU16BE out off v) = length out" "length (writeU48BE out off v) = length out"
  "length (guest_writeU32BE out off v) = length out" "length (argU32 v) = 4"
  by (simp_all add: writeU16BE_def writeU48BE_def guest_writeU32BE_def argU32_def Let_def)

lemma bytesCompare_zero: "bytesCompare a b = 0 \<longleftrightarrow> a = b"
  by (induction a b rule: bytesCompare.induct) auto

lemma bytesCompare_less: "bytesCompare a b = -1 \<longleftrightarrow> ord_class.lexordp a b"
  by (induction a b rule: bytesCompare.induct) (auto simp: neq_Nil_conv)

section \<open>Host events read back\<close>

text \<open>A host event's arguments: what the host writes with \<open>OpArgs\<close> and the guest reads with \<open>Reader\<close>, field by field.\<close>

datatype event_field = FU8 byte | FU32 nat | FBlob bytes

fun write_field :: "event_field \<Rightarrow> OpArgs \<Rightarrow> OpArgs" where
  "write_field (FU8 b) = args_u8 (unat b)"
| "write_field (FU32 v) = args_u32 (int v)"
| "write_field (FBlob b) = args_blob b"

fun read_field :: "event_field \<Rightarrow> Reader \<Rightarrow> event_field option \<times> Reader" where
  "read_field (FU8 _) r = (let (b, r) = reader_u8 r in (map_option FU8 b, r))"
| "read_field (FU32 _) r = (let (v, r) = reader_u32 r in (Some (FU32 v), r))"
| "read_field (FBlob _) r = (let (b, r) = reader_blob r in (Some (FBlob b), r))"

fun read_fields :: "event_field list \<Rightarrow> Reader \<Rightarrow> event_field option list \<times> Reader" where
  "read_fields [] r = ([], r)"
| "read_fields (f # fs) r = (let (x, r) = read_field f r; (xs, r) = read_fields fs r in (x # xs, r))"

fun field_fits :: "event_field \<Rightarrow> bool" where
  "field_fits (FU8 _) = True"
| "field_fits (FU32 v) = (v < 2 ^ 32)"
| "field_fits (FBlob b) = (length b < 2 ^ 32)"

fun field_bytes :: "event_field \<Rightarrow> bytes" where
  "field_bytes (FU8 b) = [b]"
| "field_bytes (FU32 v) = u32be (int v)"
| "field_bytes (FBlob b) = u32be (int (length b)) @ b"

lemma write_field_bytes: "concat (parts (write_field f a)) = concat (parts a) @ field_bytes f"
  by (cases f) (simp_all add: and_255 byte_mod)

lemma write_fields_bytes: "concat (parts (fold write_field fs a)) = concat (parts a) @ concat (map field_bytes fs)"
  by (induction fs arbitrary: a) (simp_all add: write_field_bytes)

lemma write_fields_ok: "args_ok a \<Longrightarrow> args_ok (fold write_field fs a)"
proof (induction fs arbitrary: a)
  case (Cons f fs)
  then show ?case by (cases f) simp_all
qed simp

lemma readU32BE_at: "length pre = off \<Longrightarrow> v < 2 ^ 32 \<Longrightarrow> readU32BE (pre @ u32be (int v) @ post) off = v"
  using readU32BE_shift [of pre "u32be (int v) @ post" 0] readU32BE_u32be [of "int v" post] by simp

lemma read_field_at:
  assumes "field_fits f" "rbuf r = pre @ field_bytes f @ post" "roff r = length pre"
  shows "read_field f r = (Some f, r\<lparr>roff := length (pre @ field_bytes f)\<rparr>)"
proof (cases f)
  case (FBlob b)
  have v: "readU32BE (pre @ u32be (int (length b)) @ b @ post) (length pre) = length b"
    using assms(1) FBlob by (intro readU32BE_at) auto
  have "subarray (pre @ u32be (int (length b)) @ b @ post) (length pre + 4) (length pre + 4 + length b) = b"
    using subarray_middle [of "pre @ u32be (int (length b))" "length pre + 4" b "length pre + 4 + length b" post] by simp
  with v FBlob assms(2,3) show ?thesis by (simp add: reader_blob_def reader_u32_def Let_def)
qed (use assms in \<open>simp_all add: reader_u8_def reader_u32_def readU32BE_at elem_at_def Let_def\<close>)

lemma read_fields_at:
  "list_all field_fits fs \<Longrightarrow> rbuf r = pre @ concat (map field_bytes fs) @ post \<Longrightarrow> roff r = length pre \<Longrightarrow>
   read_fields fs r = (map Some fs, r\<lparr>roff := length (pre @ concat (map field_bytes fs))\<rparr>)"
proof (induction fs arbitrary: r pre)
  case (Cons f fs)
  then have rf: "read_field f r = (Some f, r\<lparr>roff := length (pre @ field_bytes f)\<rparr>)"
    by (intro read_field_at [of f r pre "concat (map field_bytes fs) @ post"]) simp_all
  have "read_fields fs (r\<lparr>roff := length (pre @ field_bytes f)\<rparr>) =
      (map Some fs, r\<lparr>roff := length ((pre @ field_bytes f) @ concat (map field_bytes fs))\<rparr>)"
    using Cons.IH [of "r\<lparr>roff := length (pre @ field_bytes f)\<rparr>" "pre @ field_bytes f"] Cons.prems by simp
  with rf show ?case by simp
qed simp

text \<open>
  the guest reads the fields the host wrote. Whatever sequence of bytes, 32-bit numbers and
  blobs the host's \<open>OpArgs\<close> writes for an event, behind whatever prefix, the guest's \<open>Reader\<close> set
  behind that prefix reads the same fields in the same order and stops exactly at the end.
\<close>

theorem event_fields_roundtrip:
  assumes "list_all field_fits fs"
  shows "read_fields fs \<lparr>rbuf = args_build prefix (fold write_field fs args_new), roff = length prefix\<rparr> =
      (map Some fs, \<lparr>rbuf = args_build prefix (fold write_field fs args_new),
                     roff = length (args_build prefix (fold write_field fs args_new))\<rparr>)"
proof -
  have b: "args_build prefix (fold write_field fs args_new) = prefix @ concat (map field_bytes fs)"
    unfolding args_build_eq [OF write_fields_ok [OF args_new_ok]] write_fields_bytes by (simp add: args_new_def)
  show ?thesis unfolding b using read_fields_at [OF assms, of _ prefix "[]"] by simp
qed

theorem event_fields_roundtrip_witness:
  "read_fields [FU32 7, FU8 1, FBlob [9, 9]] \<lparr>rbuf = args_build [] (fold write_field [FU32 7, FU8 1, FBlob [9, 9]] args_new), roff = 0\<rparr> =
    ([Some (FU32 7), Some (FU8 1), Some (FBlob [9, 9])],
     \<lparr>rbuf = args_build [] (fold write_field [FU32 7, FU8 1, FBlob [9, 9]] args_new), roff = length (args_build [] (fold write_field [FU32 7, FU8 1, FBlob [9, 9]] args_new))\<rparr>)"
  using event_fields_roundtrip [of "[FU32 7, FU8 1, FBlob [9, 9]]" "[]"] by simp

text \<open>
  the guest's copies of the host's byte helpers compute the same bytes: concatenation into one
  buffer, 32-bit fields, the unrolled hex encoder, and the byte comparison decides equality and the
  lexicographic order.
\<close>

theorem guest_helpers_agree:
  "guest_concatBytes ps = concatBytes ps \<and> guest_writeU32BE out off v = writeU32BE out off (int v) \<and>
   guest_toHex bs = toHex bs \<and> fromHex (guest_toHex bs) = bs \<and>
   (bytesCompare a b = 0 \<longleftrightarrow> a = b) \<and> (bytesCompare a b = -1 \<longleftrightarrow> ord_class.lexordp a b)"
  by (simp add: guest_concatBytes_eq concatBytes_def guest_writeU32BE_eq guest_toHex_eq toHex_eq_concat
      bytesCompare_zero bytesCompare_less fromHex_toHex [unfolded toHex_eq_concat])



end
