(* ===== verification/Framing.thy ===== *)
theory Framing
  imports Guest_Util
begin

text \<open>
  The first half of \<^verbatim>\<open>WASM/transport/src/framing.js\<close>: a link's bytes cut into messages. \<open>LengthFramer\<close> is the
  codec of a plain stream link. What handling a delivered message does to the framer (raise the cap once
  the peer is authenticated, drop the buffer once it is refused) is the callback's answer, a parameter here.
  Both framers are shown to follow a parser on the plain sequence of bytes; the interface that makes such a
  parser independent of how the bytes were cut is the locale \<open>incremental\<close>.
\<close>

section \<open>Parsing as the bytes come\<close>

text \<open>One step of a parser: wait for more bytes, refuse, or a new state after some bytes.\<close>

datatype 's verdict = Wait | Refuse | Next 's nat

function run_parser :: "('s \<Rightarrow> bytes \<Rightarrow> 's verdict) \<Rightarrow> 's \<Rightarrow> bytes \<Rightarrow> bool \<times> 's \<times> bytes" where
  "run_parser step s bs =
     (case step s bs of
        Wait \<Rightarrow> (True, s, bs)
      | Refuse \<Rightarrow> (False, s, bs)
      | Next s' n \<Rightarrow> if 0 < n \<and> n \<le> length bs then run_parser step s' (drop n bs) else (False, s, bs))"
  by pat_completeness auto
termination by (relation "measure (\<lambda>(step, s, bs). length bs)") auto

declare run_parser.simps [simp del]

text \<open>Feeding chunk after chunk; nothing is read after a refusal.\<close>

fun feed :: "('s \<Rightarrow> bytes \<Rightarrow> 's verdict) \<Rightarrow> bool \<times> 's \<times> bytes \<Rightarrow> bytes list \<Rightarrow> bool \<times> 's \<times> bytes" where
  "feed step r [] = r"
| "feed step (ok, s, bs) (c # cs) = (if ok then feed step (run_parser step s (bs @ c)) cs else (False, s, bs))"

locale incremental =
  fixes step :: "'s \<Rightarrow> bytes \<Rightarrow> 's verdict"
  assumes next_takes: "step s bs = Next s' n \<Longrightarrow> 0 < n \<and> n \<le> length bs"
    and next_stable: "step s bs = Next s' n \<Longrightarrow> step s (bs @ xs) = Next s' n"
    and refuse_stable: "step s bs = Refuse \<Longrightarrow> step s (bs @ xs) = Refuse"
begin

lemma run_next: "step s bs = Next s' n \<Longrightarrow> run_parser step s bs = run_parser step s' (drop n bs)"
  using next_takes [of s bs s' n] by (simp add: run_parser.simps [of step s bs])

lemma run_waits: "run_parser step s bs = (True, s', rest) \<Longrightarrow> step s' rest = Wait"
proof (induction step s bs rule: run_parser.induct)
  case (1 stp s bs)
  then show ?case by (cases "stp s bs") (auto simp: run_parser.simps [of stp s bs] split: if_splits)
qed

lemma run_refuses: "run_parser step s bs = (False, s', rest) \<Longrightarrow> run_parser step s (bs @ xs) = (False, s', rest @ xs)"
proof (induction "length bs" arbitrary: s bs rule: less_induct)
  case less
  show ?case
  proof (cases "step s bs")
    case Wait
    with less.prems show ?thesis by (simp add: run_parser.simps [of step s bs])
  next
    case Refuse
    from Refuse less.prems have "s' = s" "rest = bs" by (simp_all add: run_parser.simps [of step s bs])
    with refuse_stable [OF Refuse, of xs] show ?thesis by (simp add: run_parser.simps [of step s "bs @ xs"])
  next
    case (Next t n)
    note n = next_takes [OF Next]
    then have d: "length (drop n bs) < length bs" by auto
    from less.prems have "run_parser step t (drop n bs) = (False, s', rest)" by (simp add: run_next [OF Next])
    from less.hyps [OF d this] n show ?thesis by (simp add: run_next [OF next_stable [OF Next]])
  qed
qed

lemma run_continues:
  "run_parser step s bs = (True, s', rest) \<Longrightarrow> run_parser step s (bs @ xs) = run_parser step s' (rest @ xs)"
proof (induction "length bs" arbitrary: s bs rule: less_induct)
  case less
  show ?case
  proof (cases "step s bs")
    case (Next t n)
    note n = next_takes [OF Next]
    then have d: "length (drop n bs) < length bs" by auto
    from less.prems have "run_parser step t (drop n bs) = (True, s', rest)" by (simp add: run_next [OF Next])
    from less.hyps [OF d this] n show ?thesis by (simp add: run_next [OF next_stable [OF Next]])
  qed (use less.prems in \<open>simp_all add: run_parser.simps [of step s bs]\<close>)
qed

lemma feed_refused: "feed step (False, s, bs) cs = (False, s, bs)"
  by (cases cs) simp_all

text \<open>However the bytes are cut, the same verdict and the same state come out.\<close>

lemma feed_concat:
  assumes "step s bs = Wait"
  shows "fst (feed step (True, s, bs) cs) = fst (run_parser step s (bs @ concat cs)) \<and>
    fst (snd (feed step (True, s, bs) cs)) = fst (snd (run_parser step s (bs @ concat cs)))"
  using assms
proof (induction cs arbitrary: s bs)
  case Nil
  then show ?case by (simp add: run_parser.simps [of step s bs])
next
  case (Cons c cs)
  obtain ok t rest where run: "run_parser step s (bs @ c) = (ok, t, rest)" by (cases "run_parser step s (bs @ c)")
  show ?case
  proof (cases ok)
    case True
    with run run_waits [of s "bs @ c" t rest] run_continues [of s "bs @ c" t rest "concat cs"] Cons.IH [of t rest] show ?thesis
      by simp
  next
    case False
    with run run_refuses [of s "bs @ c" t rest "concat cs"] show ?thesis by (simp add: feed_refused)
  qed
qed

lemma feed_all:
  assumes "step s bs = Wait" and "run_parser step s (bs @ concat cs) = (True, t, rest)"
  shows "feed step (True, s, bs) cs = (True, t, rest)"
  using assms
proof (induction cs arbitrary: s bs)
  case Nil
  then show ?case by (simp add: run_parser.simps [of step s bs])
next
  case (Cons c cs)
  obtain ok u r where run: "run_parser step s (bs @ c) = (ok, u, r)" by (cases "run_parser step s (bs @ c)")
  with Cons.prems run_refuses [of s "bs @ c" u r "concat cs"] have ok by (cases ok) auto
  with run run_waits [of s "bs @ c" u r] run_continues [of s "bs @ c" u r "concat cs"] Cons show ?case by simp
qed

lemma feed_waits: "step s bs = Wait \<Longrightarrow> feed step (True, s, bs) cs = (True, t, rest) \<Longrightarrow> step t rest = Wait"
proof (induction cs arbitrary: s bs)
  case (Cons c cs)
  obtain ok u r where run: "run_parser step s (bs @ c) = (ok, u, r)" by (cases "run_parser step s (bs @ c)")
  with Cons feed_refused [of u r cs] run_waits [of s "bs @ c" u r] show ?case by (cases ok) auto
qed simp

text \<open>Parsing what an encoder wrote: if each encoding is one step, a sequence of them is a sequence of steps.\<close>

lemma run_encoded:
  assumes enc: "\<And>x s. Q x s \<Longrightarrow> step s (enc x) = Next (upd x s) (length (enc x))"
    and "\<And>pre x post. xs = pre @ x # post \<Longrightarrow> Q x (fold upd pre s)" and "step (fold upd xs s) [] = Wait"
  shows "run_parser step s (concat (map enc xs)) = (True, fold upd xs s, [])"
  using assms(2,3)
proof (induction xs arbitrary: s)
  case Nil
  then show ?case by (simp add: run_parser.simps)
next
  case (Cons x xs)
  have "Q x s" using Cons.prems(1) [of "[]"] by simp
  note st = next_stable [OF enc [OF this], of "concat (map enc xs)"]
  have "Q y (fold upd pre (upd x s))" if "xs = pre @ y # post" for pre y post
    using Cons.prems(1) [of "x # pre" y post] that by simp
  from Cons.IH [OF this] Cons.prems(2) show ?case by (simp add: run_next [OF st])
qed

end

section \<open>The length framer\<close>

definition MAX_HANDSHAKE_FRAME_BYTES :: nat where
  "MAX_HANDSHAKE_FRAME_BYTES = 8 * 1024"

definition MERGE_BELOW :: nat where
  "MERGE_BELOW = 8 * 1024"

record LengthFramer =
  lf_parts :: Pieces
  lf_cap :: nat

text \<open>What handling a message did to the framer: \<open>raiseCap\<close>, \<open>discard\<close>, both or neither.\<close>

record handled =
  raised :: bool
  dropped :: bool

definition LengthFramer_new :: LengthFramer where
  "LengthFramer_new = \<lparr>lf_parts = new_Pieces MERGE_BELOW, lf_cap = MAX_HANDSHAKE_FRAME_BYTES\<rparr>"

definition set_bytes :: "bytes \<Rightarrow> nat \<Rightarrow> bytes \<Rightarrow> bytes" where
  "set_bytes out off xs = take off out @ xs @ drop (off + length xs) out"

definition lf_send :: "bytes \<Rightarrow> bytes" where
  "lf_send msg = set_bytes (guest_writeU32BE (replicate (4 + length msg) 0) 0 (length msg)) 4 msg"

definition lf_raiseCap :: "nat \<Rightarrow> LengthFramer \<Rightarrow> LengthFramer" where
  "lf_raiseCap maxFrameBytes f = f\<lparr>lf_cap := maxFrameBytes\<rparr>"

definition lf_discard :: "LengthFramer \<Rightarrow> LengthFramer" where
  "lf_discard f = f\<lparr>lf_parts := new_Pieces MERGE_BELOW\<rparr>"

definition lf_handled :: "nat \<Rightarrow> handled \<Rightarrow> LengthFramer \<Rightarrow> LengthFramer" where
  "lf_handled maxFrameBytes h f =
     (let f = (if raised h then lf_raiseCap maxFrameBytes f else f) in if dropped h then lf_discard f else f)"

text \<open>Four bytes read off the front as an unsigned number.\<close>

definition pieces_u32 :: "Pieces \<Rightarrow> nat \<Rightarrow> nat" where
  "pieces_u32 p i =
     unat (push_bit 24 (ucast (byteAt i p)) OR push_bit 16 (ucast (byteAt (i + 1) p)) OR
           push_bit 8 (ucast (byteAt (i + 2) p)) OR ucast (byteAt (i + 3) p) :: 32 word)"

text \<open>
  Each turn of the loop delivers one message. Before the cap is raised the next turn waits for the
  message to be handled; after, the loop goes on at once, and by then handling changes nothing. Either
  way the next frame is measured against the cap as handling the previous message left it. The
  messages delivered so far are \<open>got\<close>; \<open>handle\<close> says what handling the last of them did.
\<close>

function lf_parse :: "nat \<Rightarrow> (bytes list \<Rightarrow> handled) \<Rightarrow> bytes list \<Rightarrow> LengthFramer \<Rightarrow> bool \<times> bytes list \<times> LengthFramer" where
  "lf_parse maxFrameBytes handle got f =
     (let p = lf_parts f in
      if pbytes p < 4 then (True, got, f)
      else let len = pieces_u32 p 0 in
           if len > lf_cap f then (False, got, f)
           else if pbytes p < 4 + len then (True, got, f)
           else let (_, p) = pieces_take 4 p; (msg, p) = pieces_takeCopy len 0 p; got = got @ [msg]
                in lf_parse maxFrameBytes handle got (lf_handled maxFrameBytes (handle got) (f\<lparr>lf_parts := p\<rparr>)))"
  by pat_completeness auto

lemma takes_bytes [simp]:
  "pbytes (snd (pieces_take n p)) = pbytes p - n" "pbytes (snd (pieces_takeCopy n k p)) = pbytes p - n"
  by (simp_all add: pieces_take_def pieces_takeCopy_def pieces_consume_def Let_def case_prod_beta)

lemma handled_bytes: "pbytes (lf_parts (lf_handled m h f)) \<le> pbytes (lf_parts f)"
  by (simp add: lf_handled_def lf_raiseCap_def lf_discard_def new_Pieces_def Let_def)

termination lf_parse
proof (relation "measure (\<lambda>(_, _, _, f). pbytes (lf_parts f))", simp, goal_cases)
  case (1 m handle got f p len t q u v msg r got')
  then have "pbytes r = pbytes p - 4 - len" using takes_bytes by (metis prod.collapse snd_conv)
  moreover have "pbytes (lf_parts (lf_handled m (handle got') (f\<lparr>lf_parts := r\<rparr>))) \<le> pbytes r"
    using handled_bytes [of m "handle got'" "f\<lparr>lf_parts := r\<rparr>"] by simp
  ultimately show ?case using 1 by auto
qed

declare lf_parse.simps [simp del]

definition lf_push :: "nat \<Rightarrow> (bytes list \<Rightarrow> handled) \<Rightarrow> bytes \<Rightarrow> bytes list \<Rightarrow> LengthFramer \<Rightarrow> bool \<times> bytes list \<times> LengthFramer" where
  "lf_push maxFrameBytes handle chunk got f = lf_parse maxFrameBytes handle got (f\<lparr>lf_parts := pieces_push chunk (lf_parts f)\<rparr>)"

text \<open>A link hands the framer its reads one after another, and none after a refusal.\<close>

fun lf_reads :: "nat \<Rightarrow> (bytes list \<Rightarrow> handled) \<Rightarrow> bool \<times> bytes list \<times> LengthFramer \<Rightarrow> bytes list \<Rightarrow> bool \<times> bytes list \<times> LengthFramer" where
  "lf_reads m handle r [] = r"
| "lf_reads m handle (ok, got, f) (c # cs) = (if ok then lf_reads m handle (lf_push m handle c got f) cs else (False, got, f))"

section \<open>The length framer as a parser of bytes\<close>

definition length_step :: "nat \<Rightarrow> (bytes list \<Rightarrow> handled) \<Rightarrow> nat \<times> bytes list \<Rightarrow> bytes \<Rightarrow> (nat \<times> bytes list) verdict" where
  "length_step maxFrameBytes handle = (\<lambda>(cap, got) bs.
     if length bs < 4 then Wait
     else let len = readU32BE bs 0 in
          if len > cap then Refuse
          else if length bs < 4 + len then Wait
          else let got = got @ [take len (drop 4 bs)]
               in Next (if raised (handle got) then maxFrameBytes else cap, got) (4 + len))"

interpretation length_frames: incremental "length_step m handle"
proof
  fix s s' :: "nat \<times> bytes list" and bs xs n
  show "length_step m handle s bs = Next s' n \<Longrightarrow> 0 < n \<and> n \<le> length bs"
    by (auto simp: length_step_def Let_def split: if_splits prod.splits)
  show "length_step m handle s bs = Next s' n \<Longrightarrow> length_step m handle s (bs @ xs) = Next s' n"
    by (auto simp: length_step_def Let_def readU32BE_append split: if_splits prod.splits)
  show "length_step m handle s bs = Refuse \<Longrightarrow> length_step m handle s (bs @ xs) = Refuse"
    by (auto simp: length_step_def Let_def readU32BE_append split: if_splits prod.splits)
qed


lemma length_set_bytes [simp]: "off + length xs \<le> length out \<Longrightarrow> length (set_bytes out off xs) = length out"
  by (simp add: set_bytes_def)

lemma guest_u32be: "guest_writeU32BE (replicate (4 + n) 0) 0 v = u32be (int v) @ replicate n 0"
  by (simp add: guest_writeU32BE_eq u32be_def writeU32BE_def Let_def replicate_add list_update_append numeral_eq_Suc)

lemma lf_send_bytes: "lf_send msg = u32be (int (length msg)) @ msg"
  by (simp only: lf_send_def guest_u32be) (simp add: set_bytes_def)

lemma pieces_u32_live: "pieces_ok p \<Longrightarrow> i + 4 \<le> pbytes p \<Longrightarrow> pieces_u32 p i = readU32BE (pieces_live p) i"
  using pieces.size_live [of p] by (simp add: pieces_u32_def readU32BE_def num_at_def pieces.at_value)

lemma pieces_takeCopy_live:
  assumes "pieces_ok p" "n \<le> pbytes p"
  shows "fst (pieces_takeCopy n k p) = replicate k 0 @ take n (pieces_live p)"
    "pieces_live (snd (pieces_takeCopy n k p)) = drop n (pieces_live p)" "pieces_ok (snd (pieces_takeCopy n k p))"
  using pieces_consume_live [OF assms] by (simp_all add: pieces_takeCopy_def case_prod_beta Let_def)

lemma lf_parse_run:
  assumes "\<And>h. \<not> dropped (handle h)" and "pieces_ok (lf_parts f)"
  shows "run_parser (length_step m handle) (lf_cap f, got) (pieces_live (lf_parts f)) =
      (let (ok, got', f') = lf_parse m handle got f in (ok, (lf_cap f', got'), pieces_live (lf_parts f'))) \<and>
    pieces_ok (lf_parts (snd (snd (lf_parse m handle got f))))"
  using assms
proof (induction m handle got f rule: lf_parse.induct)
  case (1 m handle got f)
  let ?p = "lf_parts f"
  let ?q = "snd (pieces_take 4 ?p)" and ?len = "pieces_u32 ?p 0"
  let ?r = "snd (pieces_takeCopy ?len 0 ?q)" and ?msg = "fst (pieces_takeCopy ?len 0 ?q)"
  let ?f' = "lf_handled m (handle (got @ [?msg])) (f\<lparr>lf_parts := ?r\<rparr>)"
  note size = pieces.size_live [OF 1(3)]
  have len: "?len = readU32BE (pieces_live ?p) 0" if "4 \<le> pbytes ?p" using that 1(3) by (simp add: pieces_u32_live)
  show ?case
  proof (cases "pbytes ?p < 4 \<or> ?len > lf_cap f \<or> pbytes ?p < 4 + ?len")
    case True
    then show ?thesis
      using 1(3) size len by (auto simp: lf_parse.simps [of m handle got f] run_parser.simps [of _ _ "pieces_live (lf_parts f)"] length_step_def Let_def)
  next
    case False
    then have f: "4 \<le> pbytes ?p" "?len \<le> lf_cap f" "4 + ?len \<le> pbytes ?p" by auto
    have q: "pieces_ok ?q" "pieces_live ?q = drop 4 (pieces_live ?p)" "pbytes ?q = pbytes ?p - 4"
      using f 1(3) by (simp_all add: pieces.inv_take pieces.live_take)
    then have r: "pieces_ok ?r" "pieces_live ?r = drop (4 + ?len) (pieces_live ?p)" "?msg = take ?len (drop 4 (pieces_live ?p))"
      using f by (simp_all add: pieces_takeCopy_live add.commute)
    have parse: "lf_parse m handle got f = lf_parse m handle (got @ [?msg]) ?f'"
      using f by (subst lf_parse.simps) (simp add: Let_def case_prod_beta)
    have f': "lf_parts ?f' = ?r" "lf_cap ?f' = (if raised (handle (got @ [?msg])) then m else lf_cap f)"
      using 1(2) by (simp_all add: lf_handled_def lf_raiseCap_def Let_def)
    have st: "length_step m handle (lf_cap f, got) (pieces_live ?p) = Next (lf_cap ?f', got @ [?msg]) (4 + ?len)"
      unfolding f'(2) unfolding r(3) using f size len by (simp add: length_step_def Let_def)
    have "run_parser (length_step m handle) (lf_cap ?f', got @ [?msg]) (pieces_live (lf_parts ?f')) =
        (let (ok, got', f') = lf_parse m handle (got @ [?msg]) ?f' in (ok, (lf_cap f', got'), pieces_live (lf_parts f'))) \<and>
      pieces_ok (lf_parts (snd (snd (lf_parse m handle (got @ [?msg]) ?f'))))"
      using f f'(1) r(1) 1(2) by (intro 1(1)) (auto intro: prod_eqI)
    then show ?thesis unfolding length_frames.run_next [OF st] parse f'(1) r(2) [symmetric] .
  qed
qed

lemma lf_reads_feed:
  assumes "\<And>h. \<not> dropped (handle h)" and "pieces_ok (lf_parts f)"
  shows "feed (length_step m handle) (ok, (lf_cap f, got), pieces_live (lf_parts f)) cs =
      (let (ok', got', f') = lf_reads m handle (ok, got, f) cs in (ok', (lf_cap f', got'), pieces_live (lf_parts f'))) \<and>
    pieces_ok (lf_parts (snd (snd (lf_reads m handle (ok, got, f) cs))))"
  using assms(2)
proof (induction cs arbitrary: ok got f)
  case (Cons c cs)
  let ?g = "f\<lparr>lf_parts := pieces_push c (lf_parts f)\<rparr>"
  obtain ok' got' f' where push: "lf_push m handle c got f = (ok', got', f')" by (cases "lf_push m handle c got f")
  have "pieces_ok (lf_parts ?g)" "pieces_live (lf_parts ?g) = pieces_live (lf_parts f) @ c"
    using Cons.prems by (simp_all add: pieces.inv_push pieces.live_push)
  with lf_parse_run [where handle = handle and f = ?g and m = m and got = got, OF assms(1)] push Cons show ?case by (simp add: lf_push_def)
qed simp

lemma length_step_waits: "length_step m handle (cap, got) bs = Wait \<Longrightarrow> length bs < 4 + cap"
  by (auto simp: length_step_def Let_def split: if_splits)

text \<open>The cap a message is measured against, after those before it were handled.\<close>

definition cap_in_force :: "nat \<Rightarrow> (bytes list \<Rightarrow> handled) \<Rightarrow> bytes list \<Rightarrow> nat" where
  "cap_in_force m handle pre =
     (if list_ex (\<lambda>k. raised (handle (take k pre))) [1..<Suc (length pre)] then m else MAX_HANDSHAKE_FRAME_BYTES)"

definition length_upd :: "nat \<Rightarrow> (bytes list \<Rightarrow> handled) \<Rightarrow> bytes \<Rightarrow> nat \<times> bytes list \<Rightarrow> nat \<times> bytes list" where
  "length_upd m handle msg = (\<lambda>(cap, got). (if raised (handle (got @ [msg])) then m else cap, got @ [msg]))"

lemma cap_in_force_snoc:
  "cap_in_force m handle (pre @ [x]) = (if raised (handle (pre @ [x])) then m else cap_in_force m handle pre)"
  by (auto simp: cap_in_force_def list_ex_iff less_Suc_eq Bex_def)

lemma fold_length_upd:
  "fold (length_upd m handle) pre (MAX_HANDSHAKE_FRAME_BYTES, []) = (cap_in_force m handle pre, pre)"
  by (induction pre rule: rev_induct) (simp_all add: length_upd_def cap_in_force_snoc, simp add: cap_in_force_def)

lemma length_step_send:
  "length msg \<le> fst s \<and> length msg < 2 ^ 32 \<Longrightarrow>
   length_step m handle s (lf_send msg) = Next (length_upd m handle msg s) (length (lf_send msg))"
  by (cases s) (simp add: length_step_def lf_send_bytes readU32BE_u32be length_upd_def Let_def)

lemma lf_reads_new:
  assumes "\<And>h. \<not> dropped (handle h)"
  shows "let (ok, got, f) = lf_reads m handle (True, [], LengthFramer_new) chunks in
    feed (length_step m handle) (True, (MAX_HANDSHAKE_FRAME_BYTES, []), []) chunks = (ok, (lf_cap f, got), pieces_live (lf_parts f)) \<and>
    pieces_ok (lf_parts f)"
proof -
  have new: "pieces_live (lf_parts LengthFramer_new) = []" "pieces_ok (lf_parts LengthFramer_new)"
    "lf_cap LengthFramer_new = MAX_HANDSHAKE_FRAME_BYTES"
    by (simp_all add: LengthFramer_new_def pieces.live_empty pieces.inv_empty)
  show ?thesis
    using lf_reads_feed [where handle = handle and m = m and ok = True and got = "[]" and cs = chunks, OF assms new(2)]
    by (simp add: new case_prod_beta Let_def)
qed

text \<open>The length framer delivers the same messages and gives the same verdict however the link cut its
  bytes: feeding reads one by one to the framer (whose buffer is the piece queue, and whose cap may be
  raised by handling a message) is parsing their concatenation in one go, and while it waits it holds
  less than one length prefix and one capped message.\<close>

theorem length_framer_chunking:
  assumes "\<And>h. \<not> dropped (handle h)"
  shows "let (ok, got, f) = lf_reads m handle (True, [], LengthFramer_new) chunks;
             (ok', (_, got'), _) = run_parser (length_step m handle) (MAX_HANDSHAKE_FRAME_BYTES, []) (concat chunks)
         in ok = ok' \<and> got = got' \<and> (ok \<longrightarrow> pbytes (lf_parts f) < 4 + lf_cap f)"
proof -
  let ?s = "(MAX_HANDSHAKE_FRAME_BYTES, []) :: nat \<times> bytes list" and ?r = "lf_reads m handle (True, [], LengthFramer_new) chunks"
  have feed: "feed (length_step m handle) (True, ?s, []) chunks =
      (fst ?r, (lf_cap (snd (snd ?r)), fst (snd ?r)), pieces_live (lf_parts (snd (snd ?r))))"
    and ok: "pieces_ok (lf_parts (snd (snd ?r)))"
    using lf_reads_new [OF assms, where m = m and chunks = chunks] by (simp_all add: case_prod_beta Let_def)
  have wait: "length_step m handle ?s [] = Wait" by (simp add: length_step_def)
  note same = length_frames.feed_concat [OF wait, of chunks]
  have "pbytes (lf_parts (snd (snd ?r))) < 4 + lf_cap (snd (snd ?r))" if "fst ?r"
  proof -
    from feed that have "feed (length_step m handle) (True, ?s, []) chunks =
      (True, (lf_cap (snd (snd ?r)), fst (snd ?r)), pieces_live (lf_parts (snd (snd ?r))))" by simp
    from length_step_waits [OF length_frames.feed_waits [OF wait this]] pieces.size_live [OF ok] show ?thesis by simp
  qed
  with same feed show ?thesis
    by (cases "run_parser (length_step m handle) ?s (concat chunks)") (auto simp: case_prod_beta Let_def)
qed

theorem length_framer_chunking_witness:
  "fst (snd (lf_reads 100 (\<lambda>_. \<lparr>raised = False, dropped = False\<rparr>) (True, [], LengthFramer_new) [[0, 0], [0, 2, 7], [8, 0]])) = [[7, 8]]"
  using length_framer_chunking [of "\<lambda>_. \<lparr>raised = False, dropped = False\<rparr>" 100 "[[0, 0], [0, 2, 7], [8, 0]]"]
  by (simp add: case_prod_beta Let_def run_parser.simps length_step_def readU32BE_def num_at_def MAX_HANDSHAKE_FRAME_BYTES_def)

text \<open>C39: Length framing loses nothing: the bytes \<open>send\<close> wrote for a sequence of messages, cut into reads in any
  way, are delivered as exactly those messages in order, the framer asking for more and holding no bytes,
  provided each message fits the cap in force when it is measured (the handshake cap until handling a
  message raised it).\<close>

theorem length_framer_roundtrip:
  assumes "\<And>h. \<not> dropped (handle h)" and "concat chunks = concat (map lf_send msgs)"
    and "\<And>pre x post. msgs = pre @ x # post \<Longrightarrow> length x \<le> cap_in_force m handle pre \<and> length x < 2 ^ 32"
  shows "let (ok, got, f) = lf_reads m handle (True, [], LengthFramer_new) chunks in ok \<and> got = msgs \<and> pbytes (lf_parts f) = 0"
proof -
  let ?s = "(MAX_HANDSHAKE_FRAME_BYTES, []) :: nat \<times> bytes list" and ?r = "lf_reads m handle (True, [], LengthFramer_new) chunks"
  have "run_parser (length_step m handle) ?s (concat (map lf_send msgs)) = (True, fold (length_upd m handle) msgs ?s, [])"
    using assms(3) by (intro length_frames.run_encoded [where Q = "\<lambda>msg s. length msg \<le> fst s \<and> length msg < 2 ^ 32"] length_step_send)
      (simp_all add: fold_length_upd, simp add: length_step_def)
  note run = this [unfolded fold_length_upd, folded assms(2)]
  note reads = lf_reads_new [OF assms(1), where m = m and chunks = chunks]
  have wait: "length_step m handle ?s [] = Wait" by (simp add: length_step_def)
  show ?thesis using length_frames.feed_all [OF wait, of chunks] run reads pieces.size_live [of "lf_parts (snd (snd ?r))"]
    by (simp add: case_prod_beta Let_def)
qed

theorem length_framer_roundtrip_witness:
  "fst (snd (lf_reads 100 (\<lambda>_. \<lparr>raised = True, dropped = False\<rparr>) (True, [], LengthFramer_new) [[0, 0], [0, 2, 7], [8]])) = [[7, 8]]"
proof -
  have "lf_send [7, 8] = [0, 0, 0, 2, 7, 8]"
    by (simp add: lf_send_bytes u32be_def writeU32BE_def Let_def) (simp add: numeral_eq_Suc)
  then show ?thesis
    using length_framer_roundtrip [of "\<lambda>_. \<lparr>raised = True, dropped = False\<rparr>" "[[0, 0], [0, 2, 7], [8]]" "[[7, 8]]" 100]
    by (simp add: case_prod_beta Let_def cap_in_force_def MAX_HANDSHAKE_FRAME_BYTES_def append_eq_Cons_conv Cons_eq_append_conv)
qed

end
