(* ===== verification/Ws_Module.thy ===== *)
theory Ws_Module
  imports Op_Frame
begin

text \<open>
  \<^verbatim>\<open>WASM/assembly/ws/index.ts\<close> and \<^verbatim>\<open>abi.ts\<close>: the pure module that does the per-byte work of RFC 6455 for
  the transport bundle: masking, base64 and the accept value. Its linear memory is modelled by the
  byte lists the operations read and write; loads and stores of 4 and 8 bytes are little-endian
  words, as WebAssembly's are.
\<close>

section \<open>Constants\<close>

definition OP_MASK :: byte where "OP_MASK = 1"
definition OP_ACCEPT :: byte where "OP_ACCEPT = 2"
definition OP_BASE64 :: byte where "OP_BASE64 = 3"

definition WS_GUID :: jstr where
  "WS_GUID = js ''258EAFA5-E914-47DA-95CA-C5AB0DC85B11''"

definition SCRATCH_SIZE :: nat where
  "SCRATCH_SIZE = 2 * 2 ^ 20 + 2 ^ 12"

section \<open>Masking\<close>

text \<open>A little-endian load of as many bytes as the list has, and a store of \<open>n\<close> bytes.\<close>

fun load_le :: "bytes \<Rightarrow> 'a::len word" where
  "load_le [] = 0"
| "load_le (b # bs) = ucast b OR push_bit 8 (load_le bs)"

fun store_le :: "nat \<Rightarrow> 'a::len word \<Rightarrow> bytes" where
  "store_le 0 w = []"
| "store_le (Suc n) w = ucast w # store_le n (drop_bit 8 w)"

definition mask_word :: "byte \<Rightarrow> byte \<Rightarrow> byte \<Rightarrow> byte \<Rightarrow> 32 word" where
  "mask_word m0 m1 m2 m3 = ucast m0 OR push_bit 8 (ucast m1) OR push_bit 16 (ucast m2) OR push_bit 24 (ucast m3)"

definition mask_dword :: "32 word \<Rightarrow> 64 word" where
  "mask_dword w = ucast w OR push_bit 32 (ucast w)"

text \<open>The three loops of \<open>maskRun\<close>: eight bytes at a time, then four at most once, then one at a time.\<close>

fun mask_eights :: "64 word \<Rightarrow> nat \<Rightarrow> bytes \<Rightarrow> bytes" where
  "mask_eights d 0 xs = []"
| "mask_eights d (Suc n) xs = store_le 8 (load_le (take 8 xs) XOR d) @ mask_eights d n (drop 8 xs)"

fun mask_ones :: "byte list \<Rightarrow> nat \<Rightarrow> bytes \<Rightarrow> bytes" where
  "mask_ones key i [] = []"
| "mask_ones key i (x # xs) = (x XOR key ! (i mod 4)) # mask_ones key (i + 1) xs"

definition maskRun :: "byte \<Rightarrow> byte \<Rightarrow> byte \<Rightarrow> byte \<Rightarrow> bytes \<Rightarrow> bytes" where
  "maskRun m0 m1 m2 m3 xs =
     (let word = mask_word m0 m1 m2 m3; dword = mask_dword word;
          eights = 8 * (length xs div 8);
          head' = mask_eights dword (length xs div 8) xs;
          rest = drop eights xs
      in if eights + 4 \<le> length xs
         then head' @ store_le 4 (load_le (take 4 rest) XOR word) @ mask_ones [m0, m1, m2, m3] (eights + 4) (drop 4 rest)
         else head' @ mask_ones [m0, m1, m2, m3] eights rest)"

section \<open>Base64\<close>

definition B64 :: jstr where
  "B64 = js ''ABCDEFGHIJKLMNOPQRSTUVWXYZabcdefghijklmnopqrstuvwxyz0123456789+/''"

definition b64char :: "nat \<Rightarrow> byte" where
  "b64char i = ucast (B64 ! i)"

fun base64 :: "bytes \<Rightarrow> bytes" where
  "base64 [] = []"
| "base64 [b0] = [b64char (drop_bit 2 (unat b0)), b64char (push_bit 4 (unat b0 AND 3)), 61, 61]"
| "base64 [b0, b1] = [b64char (drop_bit 2 (unat b0)), b64char (push_bit 4 (unat b0 AND 3) OR drop_bit 4 (unat b1)),
     b64char (push_bit 2 (unat b1 AND 15)), 61]"
| "base64 (b0 # b1 # b2 # bs) =
     [b64char (drop_bit 2 (unat b0)), b64char (push_bit 4 (unat b0 AND 3) OR drop_bit 4 (unat b1)),
      b64char (push_bit 2 (unat b1 AND 15) OR drop_bit 6 (unat b2)), b64char (unat b2 AND 63)] @ base64 bs"

section \<open>SHA-1\<close>

definition storeBE :: "32 word \<Rightarrow> bytes" where
  "storeBE v = [ucast (drop_bit 24 v AND 255), ucast (drop_bit 16 v AND 255), ucast (drop_bit 8 v AND 255), ucast (v AND 255)]"

definition sha1_total :: "nat \<Rightarrow> nat" where
  "sha1_total msgLen = push_bit 6 (drop_bit 6 (msgLen + 1 + 8 + 63))"

definition sha1_pad :: "bytes \<Rightarrow> bytes" where
  "sha1_pad msg =
     (let total = sha1_total (length msg); work = msg @ replicate (total - length msg) 0;
          work = work[length msg := 0x80]
      in take (total - 4) work @ storeBE (of_nat (length msg * 8)))"

text \<open>The first sixteen schedule words of a block, then the sixty-four derived ones.\<close>

definition block_word :: "bytes \<Rightarrow> nat \<Rightarrow> 32 word" where
  "block_word blk i =
     push_bit 24 (ucast (blk ! (4 * i))) OR push_bit 16 (ucast (blk ! (4 * i + 1))) OR
     push_bit 8 (ucast (blk ! (4 * i + 2))) OR ucast (blk ! (4 * i + 3))"

definition schedule_step :: "32 word list \<Rightarrow> 32 word list" where
  "schedule_step w =
     (let i = length w; v = w ! (i - 3) XOR w ! (i - 8) XOR w ! (i - 14) XOR w ! (i - 16)
      in w @ [push_bit 1 v OR drop_bit 31 v])"

definition schedule :: "bytes \<Rightarrow> 32 word list" where
  "schedule blk = (schedule_step ^^ 64) (map (block_word blk) [0..<16])"

type_synonym sha_state = "32 word \<times> 32 word \<times> 32 word \<times> 32 word \<times> 32 word"

definition sha_round :: "32 word list \<Rightarrow> nat \<Rightarrow> sha_state \<Rightarrow> sha_state" where
  "sha_round w i = (\<lambda>(a, b, c, d, e).
     let (f, k) = (if i < 20 then ((b AND c) OR (NOT b AND d), 0x5a827999)
                   else if i < 40 then (b XOR c XOR d, 0x6ed9eba1)
                   else if i < 60 then ((b AND c) OR (b AND d) OR (c AND d), 0x8f1bbcdc)
                   else (b XOR c XOR d, 0xca62c1d6));
         tmp = (push_bit 5 a OR drop_bit 27 a) + f + e + k + w ! i
     in (tmp, a, push_bit 30 b OR drop_bit 2 b, c, d))"

definition sha_block :: "bytes \<Rightarrow> sha_state \<Rightarrow> sha_state" where
  "sha_block blk = (\<lambda>(h0, h1, h2, h3, h4).
     let (a, b, c, d, e) = fold (sha_round (schedule blk)) [0..<80] (h0, h1, h2, h3, h4)
     in (h0 + a, h1 + b, h2 + c, h3 + d, h4 + e))"

fun sha_blocks :: "nat \<Rightarrow> bytes \<Rightarrow> sha_state \<Rightarrow> sha_state" where
  "sha_blocks 0 work s = s"
| "sha_blocks (Suc n) work s = sha_blocks n (drop 64 work) (sha_block (take 64 work) s)"

definition sha1 :: "bytes \<Rightarrow> bytes" where
  "sha1 msg =
     (let work = sha1_pad msg;
          (h0, h1, h2, h3, h4) = sha_blocks (length work div 64) work
            (0x67452301, 0xefcdab89, 0x98badcfe, 0x10325476, 0xc3d2e1f0)
      in storeBE h0 @ storeBE h1 @ storeBE h2 @ storeBE h3 @ storeBE h4)"

section \<open>The operations\<close>

text \<open>A request is \<open>[op][args]\<close>; an answer of no bytes is the error.\<close>

definition opMask :: "bytes \<Rightarrow> bytes" where
  "opMask req =
     (let len = length req - 1 in
      if len < 2 then []
      else let len7 = unat (req ! 2) AND 0x7f;
               head' = (if len7 = 127 then 10 else if len7 = 126 then 4 else 2) + 4
           in if len < head' then []
              else let frame = drop 1 req; k = head' - 4
                   in take head' frame @
                      maskRun (frame ! k) (frame ! (k + 1)) (frame ! (k + 2)) (frame ! (k + 3)) (drop head' frame))"

definition opAccept :: "bytes \<Rightarrow> bytes" where
  "opAccept req =
     (let keyLen = length req - 1 in
      if keyLen + length WS_GUID > 4096 then []
      else base64 (sha1 (drop 1 req @ map ucast WS_GUID)))"

definition opBase64 :: "bytes \<Rightarrow> bytes" where
  "opBase64 req = (let n = length req - 1 in if n > 4096 then [] else base64 (drop 1 req))"

definition ws_handle :: "bytes \<Rightarrow> bytes" where
  "ws_handle req =
     (case req of
        [] \<Rightarrow> []
      | op # _ \<Rightarrow> if op = OP_MASK then opMask req
                 else if op = OP_ACCEPT then opAccept req
                 else if op = OP_BASE64 then opBase64 req
                 else [])"



lemma bit_load_le: "bit (load_le bs :: 'a::len word) n \<longleftrightarrow> n < LENGTH('a) \<and> n div 8 < length bs \<and> bit (bs ! (n div 8)) (n mod 8)"
proof (induction bs arbitrary: n)
  case (Cons b bs)
  show ?case
  proof (cases "n < 8")
    case True
    then show ?thesis by (auto simp: bit_simps)
  next
    case False
    then obtain m where m: "n = m + 8" by (metis add.commute le_Suc_ex not_less)
    then have "n div 8 = Suc (m div 8)" "n mod 8 = m mod 8" by simp_all
    with m show ?thesis using Cons.IH [of m] by (auto simp: bit_simps dest: bit_imp_le_length)
  qed
qed simp

lemma store_le_nth: "i < n \<Longrightarrow> store_le n w ! i = ucast (drop_bit (8 * i) w)"
proof (induction n arbitrary: w i)
  case (Suc n)
  then show ?case by (cases i) (simp_all add: add.commute)
qed simp

lemma length_store_le [simp]: "length (store_le n w) = n"
  by (induction n arbitrary: w) simp_all

lemma store_load_xor:
  assumes "length xs = n" "length ys = n" "8 * n \<le> LENGTH('a::len)"
  shows "store_le n (load_le xs XOR load_le ys :: 'a word) = map2 (XOR) xs ys"
proof (rule nth_equalityI)
  fix i assume "i < length (store_le n (load_le xs XOR load_le ys :: 'a word))"
  then have i: "i < n" by simp
  have "(ucast (drop_bit (8 * i) (load_le xs XOR load_le ys :: 'a word)) :: byte) = xs ! i XOR ys ! i"
  proof (rule bit_word_eqI)
    fix j assume "j < LENGTH(8)"
    then have j: "j < 8" by simp
    have "8 * i + j < LENGTH('a)" using i j assms(3) by linarith
    with i j assms show "bit (ucast (drop_bit (8 * i) (load_le xs XOR load_le ys :: 'a word)) :: byte) j = bit (xs ! i XOR ys ! i) j"
      by (simp add: bit_simps bit_load_le)
  qed
  with i assms show "store_le n (load_le xs XOR load_le ys :: 'a word) ! i = map2 (XOR) xs ys ! i"
    by (simp add: store_le_nth)
qed (use assms in simp)

lemma mask_word_load: "mask_word m0 m1 m2 m3 = load_le [m0, m1, m2, m3]"
  by (simp add: mask_word_def push_bit_or)

lemma doubled_load:
  assumes "length k = 4"
  shows "(ucast (load_le k :: 32 word) OR push_bit 32 (ucast (load_le k :: 32 word))) = (load_le (k @ k) :: 64 word)"
proof (rule bit_word_eqI)
  fix n assume "n < LENGTH(64)"
  then have n: "n < 64" by simp
  show "bit (ucast (load_le k :: 32 word) OR push_bit 32 (ucast (load_le k :: 32 word)) :: 64 word) n = bit (load_le (k @ k) :: 64 word) n"
  proof (cases "n < 32")
    case True
    then have "n div 8 < 4" by linarith
    with True assms show ?thesis by (simp add: bit_simps bit_load_le nth_append)
  next
    case False
    then obtain m where m: "n = m + 32" "m < 32" using n by (metis add.commute le_Suc_ex nat_add_left_cancel_less not_less numeral_Bit0)
    from m(1) have n8: "n = m + 8 * 4" by simp
    have "n div 8 = m div 8 + 4" "n mod 8 = m mod 8" unfolding n8 by (simp, rule mod_mult_self2)
    moreover have "m div 8 < 4" using m(2) by (simp add: less_mult_imp_div_less)
    ultimately have "n div 8 = m div 8 + 4" "n mod 8 = m mod 8" "m div 8 < 4" by blast+
    with m assms show ?thesis by (simp add: bit_simps bit_load_le nth_append)
  qed
qed

lemma mask_dword_load: "mask_dword (mask_word m0 m1 m2 m3) = load_le ([m0, m1, m2, m3] @ [m0, m1, m2, m3])"
  unfolding mask_dword_def mask_word_load by (rule doubled_load) simp

text \<open>The reference: every byte under the key octet of its position.\<close>

definition mask_ref :: "bytes \<Rightarrow> nat \<Rightarrow> bytes \<Rightarrow> bytes" where
  "mask_ref key i xs = map (\<lambda>(j, x). x XOR key ! ((i + j) mod 4)) (enumerate 0 xs)"

lemma mask_ref_nth: "j < length xs \<Longrightarrow> mask_ref key i xs ! j = xs ! j XOR key ! ((i + j) mod 4)"
  by (simp add: mask_ref_def nth_enumerate_eq)

lemma length_mask_ref [simp]: "length (mask_ref key i xs) = length xs"
  by (simp add: mask_ref_def)

lemma mask_ref_append: "mask_ref key i (xs @ ys) = mask_ref key i xs @ mask_ref key (i + length xs) ys"
  by (rule nth_equalityI) (auto simp: mask_ref_nth nth_append add.assoc)

lemma mask_ref_period: "mask_ref key (4 * n + i) xs = mask_ref key i xs"
  by (rule nth_equalityI) (simp_all add: mask_ref_nth add.assoc)

lemma mask_ones_ref: "mask_ones key i xs = mask_ref key i xs"
proof (induction xs arbitrary: i)
  case (Cons x xs)
  have "mask_ref key i (x # xs) = mask_ref key i [x] @ mask_ref key (Suc i) xs"
    using mask_ref_append [of key i "[x]" xs] by simp
  with Cons show ?case by (simp add: mask_ref_def [of _ _ "[x]"])
qed (simp add: mask_ref_def)

lemma mask_ref_xor4: "length xs = 4 \<Longrightarrow> length key = 4 \<Longrightarrow> mask_ref key 0 xs = map2 (XOR) xs key"
  by (rule nth_equalityI) (auto simp: mask_ref_nth)

lemma mask_ref_xor8: "length xs = 8 \<Longrightarrow> length key = 4 \<Longrightarrow> mask_ref key 0 xs = map2 (XOR) xs (key @ key)"
  by (rule nth_equalityI) (auto simp: mask_ref_nth nth_append le_mod_geq)

lemma mask_eights_ref:
  "8 * n \<le> length xs \<Longrightarrow> length key = 4 \<Longrightarrow> mask_eights (load_le (key @ key)) n xs = mask_ref key 0 (take (8 * n) xs)"
proof (induction n arbitrary: xs)
  case (Suc n)
  have "take (8 * Suc n) xs = take 8 xs @ take (8 * n) (drop 8 xs)" using take_add [of 8 "8 * n" xs] by simp
  then have "mask_ref key 0 (take (8 * Suc n) xs) = mask_ref key 0 (take 8 xs) @ mask_ref key 0 (take (8 * n) (drop 8 xs))"
    using Suc.prems mask_ref_period [of key 2 0] by (simp add: mask_ref_append)
  moreover have "store_le 8 (load_le (take 8 xs) XOR load_le (key @ key) :: 64 word) = mask_ref key 0 (take 8 xs)"
    using Suc.prems by (subst store_load_xor) (simp_all add: mask_ref_xor8)
  ultimately show ?case using Suc by simp
qed (simp add: mask_ref_def)

lemma mask_ref_split4: "4 \<le> length ys \<Longrightarrow> mask_ref k 0 ys = mask_ref k 0 (take 4 ys) @ mask_ref k 4 (drop 4 ys)"
  using mask_ref_append [of k 0 "take 4 ys" "drop 4 ys"] by simp

lemma maskRun_ref: "maskRun m0 m1 m2 m3 xs = mask_ref [m0, m1, m2, m3] 0 xs"
proof -
  let ?k = "[m0, m1, m2, m3]" and ?e = "8 * (length xs div 8)"
  have h: "mask_eights (mask_dword (mask_word m0 m1 m2 m3)) (length xs div 8) xs = mask_ref ?k 0 (take ?e xs)"
    unfolding mask_dword_load by (rule mask_eights_ref) simp_all
  have per: "mask_ref ?k ?e ys = mask_ref ?k 0 ys" for ys
    using mask_ref_period [of ?k "2 * (length xs div 8)" 0 ys] by simp
  have per4: "mask_ref ?k (?e + 4) ys = mask_ref ?k 4 ys" for ys
    using mask_ref_period [of ?k "2 * (length xs div 8)" 4 ys] by simp
  have split: "mask_ref ?k 0 xs = mask_ref ?k 0 (take ?e xs) @ mask_ref ?k 0 (drop ?e xs)"
    using mask_ref_append [of ?k 0 "take ?e xs" "drop ?e xs"] per [of "drop ?e xs"] by simp
  have four: "mask_ref ?k 0 (drop ?e xs) = store_le 4 (load_le (take 4 (drop ?e xs)) XOR mask_word m0 m1 m2 m3) @
      mask_ref ?k 4 (drop 4 (drop ?e xs))" if "?e + 4 \<le> length xs"
  proof -
    have "store_le 4 (load_le (take 4 (drop ?e xs)) XOR mask_word m0 m1 m2 m3) = mask_ref ?k 0 (take 4 (drop ?e xs))"
      unfolding mask_word_load using that by (subst store_load_xor) (simp_all add: mask_ref_xor4)
    then show ?thesis using mask_ref_split4 [of "drop ?e xs" ?k] that by simp
  qed
  show ?thesis
    unfolding maskRun_def Let_def h mask_ones_ref per per4 split using four by simp
qed

lemma mask_ref_twice: "mask_ref key i (mask_ref key i xs) = xs"
  by (rule nth_equalityI) (simp_all add: mask_ref_nth xor.assoc)

section \<open>Base64 read back\<close>

definition b64index :: "byte \<Rightarrow> nat" where
  "b64index c = length (takeWhile (\<lambda>d. ucast d \<noteq> c) B64)"

text \<open>The reference decoder: four digits to three bytes, fewer with padding.\<close>

fun unbase64 :: "bytes \<Rightarrow> bytes" where
  "unbase64 (c0 # c1 # c2 # c3 # cs) =
     (let i0 = b64index c0; i1 = b64index c1; i2 = b64index c2; i3 = b64index c3;
          b0 = of_nat (4 * i0 + i1 div 16); b1 = of_nat (16 * (i1 mod 16) + i2 div 4); b2 = of_nat (64 * (i2 mod 4) + i3)
      in if c2 = 61 then [b0] else if c3 = 61 then [b0, b1] else b0 # b1 # b2 # unbase64 cs)"
| "unbase64 _ = []"

lemma b64_table: "list_all (\<lambda>i. b64index (b64char i) = i \<and> b64char i \<noteq> 61) [0..<64]"
  unfolding b64index_def b64char_def B64_def by (simp add: upt_conv_Cons js_eval)

lemma b64index_char [simp]: "i < 64 \<Longrightarrow> b64index (b64char i) = i" "i < 64 \<Longrightarrow> b64char i \<noteq> 61"
  using b64_table by (auto simp: list_all_iff)

lemma b64_masks: "n AND 3 = n mod 4" "n AND 15 = n mod 16" "n AND 63 = n mod 64" for n :: nat
  using and_mask_nat [of n 2] and_mask_nat [of n 4] and_mask_nat [of n 6] by simp_all

lemma b64_second: "push_bit 4 (n mod 4) OR drop_bit 4 (unat (b :: byte)) = 16 * (n mod 4) + unat b div 16"
proof -
  have "unat b div 16 < 2 ^ 4" using byte_nat_bound [of b] by (simp add: less_mult_imp_div_less)
  from or_low_nat [OF this, of "n mod 4"] show ?thesis by (simp add: drop_bit_eq_div)
qed

lemma b64_third: "push_bit 2 (n mod 16) OR drop_bit 6 (unat (b :: byte)) = 4 * (n mod 16) + unat b div 64"
proof -
  have "unat b div 64 < 2 ^ 2" using byte_nat_bound [of b] by (simp add: less_mult_imp_div_less)
  from or_low_nat [OF this, of "n mod 16"] show ?thesis by (simp add: drop_bit_eq_div)
qed

lemma b64_ranges:
  "unat (b :: byte) div 4 < 64" "16 * (n mod 4) + unat b div 16 < 64" "4 * (n mod 16) + unat b div 64 < 64"
  "16 * (n mod 4) < 64" "4 * (n mod 16) < 64" "unat b mod 64 < 64"
proof -
  have b: "unat b < 256" by simp
  have "unat b div 16 < 16" "unat b div 64 < 4" "unat b div 4 < 64" using b by linarith+
  moreover have "n mod 4 < 4" "n mod 16 < 16" by simp_all
  ultimately show "unat b div 4 < 64" "16 * (n mod 4) + unat b div 16 < 64" "4 * (n mod 16) + unat b div 64 < 64"
    "16 * (n mod 4) < 64" "4 * (n mod 16) < 64" "unat b mod 64 < 64" by linarith+
qed

lemma b64_joins:
  "(16 * (n mod 4) + unat (b :: byte) div 16) div 16 = n mod 4" "(16 * (n mod 4) + unat b div 16) mod 16 = unat b div 16"
  "(4 * (n mod 16) + unat b div 64) div 4 = n mod 16" "(4 * (n mod 16) + unat b div 64) mod 4 = unat b div 64"
proof -
  have b: "unat b < 256" by simp
  have "unat b div 16 < 16" "unat b div 64 < 4" using b by linarith+
  then show "(16 * (n mod 4) + unat b div 16) div 16 = n mod 4" "(16 * (n mod 4) + unat b div 16) mod 16 = unat b div 16"
    "(4 * (n mod 16) + unat b div 64) div 4 = n mod 16" "(4 * (n mod 16) + unat b div 64) mod 4 = unat b div 64"
    by simp_all
qed

lemma b64_joined:
  "push_bit 4 (n AND 3) OR drop_bit 4 (unat b) = 16 * (n mod 4) + unat b div 16"
  "push_bit 2 (n AND 15) OR drop_bit 6 (unat b) = 4 * (n mod 16) + unat b div 64" for b :: byte
  unfolding b64_masks b64_second b64_third by simp_all

lemma b64_single:
  "drop_bit 2 (unat b) = unat b div 4" "push_bit 4 (n AND 3) = 16 * (n mod 4)" "push_bit 2 (n AND 15) = 4 * (n mod 16)"
  "unat b AND 63 = unat b mod 64" for b :: byte and n :: nat
  unfolding b64_masks by (simp_all add: push_bit_eq_mult drop_bit_eq_div)

lemma b64_bytes:
  "of_nat (4 * (unat b div 4) + unat b mod 4) = b" "of_nat (16 * (unat b div 16) + unat b mod 16) = b"
  "of_nat (64 * (unat b div 64) + unat b mod 64) = b" for b :: byte
  unfolding mult_div_mod_eq by simp_all

lemma b64_quot: "16 * n div 16 = n" "4 * n div 4 = n" for n :: nat
  by simp_all

lemmas b64_reads = b64_ranges [THEN b64index_char(1)]

lemma unbase64_base64: "unbase64 (base64 bs) = bs"
proof (induction bs rule: base64.induct)
  case (2 b0)
  show ?case
    unfolding base64.simps unbase64.simps Let_def b64_single b64_reads b64_quot b64_bytes by simp
next
  case (3 b0 b1)
  show ?case
    unfolding base64.simps unbase64.simps Let_def b64_joined
    unfolding b64_single b64_reads b64_joins b64_quot b64_bytes
    using b64index_char(2) [OF b64_ranges(5)] by simp
next
  case (4 b0 b1 b2 bs)
  show ?case
    unfolding base64.simps append.simps unbase64.simps Let_def b64_joined
    unfolding b64_single b64_reads b64_joins b64_bytes 4
    using b64index_char(2) [OF b64_ranges(3)] b64index_char(2) [OF b64_ranges(6)] by simp
qed simp

lemma length_base64: "length (base64 bs) = 4 * ((length bs + 2) div 3)"
proof (induction bs rule: base64.induct)
  case (4 b0 b1 b2 bs)
  have "(length bs + 5) div 3 = (length bs + 2) div 3 + 1" by arith
  moreover have "length (b0 # b1 # b2 # bs) + 2 = length bs + 5" by simp
  ultimately show ?case using 4 by (simp only: base64.simps length_append list.size) simp
qed simp_all


section \<open>What the operations answer\<close>

definition mask_head :: "bytes \<Rightarrow> nat" where
  "mask_head frame = (let len7 = unat (frame ! 1) mod 128 in (if len7 = 127 then 10 else if len7 = 126 then 4 else 2) + 4)"

lemma and_127: "n AND 127 = n mod 128" for n :: nat
  using and_mask_nat [of n 7] by simp

lemma mask_head_ge [simp]: "6 \<le> mask_head frame"
  by (simp add: mask_head_def Let_def)

lemma opMask_ref:
  assumes "mask_head frame \<le> length frame"
  shows "ws_handle (OP_MASK # frame) =
    take (mask_head frame) frame @ mask_ref (take 4 (drop (mask_head frame - 4) frame)) 0 (drop (mask_head frame) frame)"
proof -
  let ?k = "mask_head frame - 4"
  have k: "?k + 4 \<le> length frame" using assms mask_head_ge [of frame] by linarith
  have head: "(if unat (frame ! 1) mod 128 = 127 then 10 else if unat (frame ! 1) mod 128 = 126 then 4 else 2) + 4 = mask_head frame"
    by (simp add: mask_head_def Let_def)
  have len: "\<not> length frame < 2" "\<not> length frame < mask_head frame" using k assms mask_head_ge [of frame] by linarith+
  have key: "take 4 (drop ?k frame) = [frame ! ?k, frame ! (?k + 1), frame ! (?k + 2), frame ! (?k + 3)]"
    using k by (intro nth_equalityI) (auto simp: less_Suc_eq numeral_eq_Suc)
  have second: "(OP_MASK # frame) ! 2 = frame ! 1" by (simp add: numeral_eq_Suc)
  have "ws_handle (OP_MASK # frame) = opMask (OP_MASK # frame)" by (simp add: ws_handle_def)
  also have "\<dots> = take (mask_head frame) frame @
      maskRun (frame ! ?k) (frame ! (?k + 1)) (frame ! (?k + 2)) (frame ! (?k + 3)) (drop (mask_head frame) frame)"
    unfolding opMask_def Let_def second and_127 head using len by simp
  finally show ?thesis unfolding maskRun_ref key .
qed

lemma length_storeBE [simp]: "length (storeBE v) = 4"
  by (simp add: storeBE_def)

lemma length_sha1 [simp]: "length (sha1 msg) = 20"
  by (simp add: sha1_def Let_def split: prod.split)

text \<open>The masking operation of the WebSocket module is RFC 6455's: whatever the frame's length form, the
  header and the key are returned as they were, payload byte \<open>i\<close> is exclusive-ored with key byte \<open>i mod 4\<close>
  (so the eight-at-a-time, four-at-a-time and one-at-a-time loops together compute the byte-wise
  definition), and masking the answer again gives the frame back.\<close>

theorem ws_mask_correct:
  assumes "mask_head frame \<le> length frame"
  shows "ws_handle (OP_MASK # frame) =
      take (mask_head frame) frame @ mask_ref (take 4 (drop (mask_head frame - 4) frame)) 0 (drop (mask_head frame) frame) \<and>
    ws_handle (OP_MASK # ws_handle (OP_MASK # frame)) = frame"
proof -
  let ?h = "mask_head frame" and ?out = "ws_handle (OP_MASK # frame)"
  have out: "?out = take ?h frame @ mask_ref (take 4 (drop (?h - 4) frame)) 0 (drop ?h frame)" by (rule opMask_ref [OF assms])
  then have heads: "take ?h ?out = take ?h frame" "length ?out = length frame"
    and tail: "drop ?h ?out = mask_ref (take 4 (drop (?h - 4) frame)) 0 (drop ?h frame)" using assms by simp_all
  have nth: "?out ! i = frame ! i" if "i < ?h" for i using that assms by (simp add: out nth_append)
  then have same: "mask_head ?out = ?h" using mask_head_ge [of frame] by (simp add: mask_head_def [of "_ # _"] mask_head_def)
  have diff: "?h - (?h - 4) = 4" using mask_head_ge [of frame] by linarith
  have "take 4 (drop (?h - 4) ?out) = take 4 (drop (?h - 4) (take ?h ?out))" using diff by (simp add: drop_take)
  also have "\<dots> = take 4 (drop (?h - 4) frame)" unfolding heads using diff by (simp add: drop_take)
  finally have key: "take 4 (drop (?h - 4) ?out) = take 4 (drop (?h - 4) frame)" .
  have "ws_handle (OP_MASK # ?out) = frame"
    using opMask_ref [of ?out] assms by (simp add: same heads key tail mask_ref_twice)
  with out show ?thesis by blast
qed

theorem ws_mask_correct_witness:
  "ws_handle (OP_MASK # [0x82, 0x83, 1, 2, 3, 4, 0x10, 0x20, 0x30]) = [0x82, 0x83, 1, 2, 3, 4, 0x11, 0x22, 0x33]"
  using ws_mask_correct [of "[0x82, 0x83, 1, 2, 3, 4, 0x10, 0x20, 0x30]"]
  by (simp add: mask_head_def mask_ref_def Let_def)

text \<open>The base64 operation loses nothing: for any request it does not refuse the reference decoder reads
  the answer back to the bytes that were sent, the answer has the length base64 defines, and the accept
  operation always answers the 28 characters a SHA-1 digest takes.\<close>

theorem ws_base64_roundtrip:
  assumes "length bs \<le> 4096"
  shows "unbase64 (ws_handle (OP_BASE64 # bs)) = bs \<and>
    length (ws_handle (OP_BASE64 # bs)) = 4 * ((length bs + 2) div 3) \<and>
    (length bs + length WS_GUID \<le> 4096 \<longrightarrow> length (ws_handle (OP_ACCEPT # bs)) = 28)"
  using assms by (simp add: ws_handle_def OP_MASK_def OP_ACCEPT_def OP_BASE64_def opBase64_def opAccept_def Let_def
    unbase64_base64 length_base64)

theorem ws_base64_roundtrip_witness:
  "unbase64 (ws_handle (OP_BASE64 # [0x4d, 0x61])) = [0x4d, 0x61] \<and> length (ws_handle (OP_ACCEPT # [0x4d, 0x61])) = 28"
  using ws_base64_roundtrip [of "[0x4d, 0x61]"] by (simp add: WS_GUID_def js_eval)

end
