(* ===== verification/Ws_Framer.thy ===== *)
theory Ws_Framer
  imports Framing Ws_Module Utf8
begin

text \<open>
  The second half of \<^verbatim>\<open>WASM/transport/src/framing.js\<close>: the RFC 6455 codec both ends of a browser link run.
  Frame headers are read and written here; masking and the accept value are calls of the bundle's WebSocket
  module, a parameter of the definitions that the properties instantiate with \<open>Ws_Module.ws_handle\<close>.
  Writes and reads each run on a promise chain, so their effects happen one after another: the model is a
  sequential machine whose output is the list of what was put on the wire.
\<close>

section \<open>Constants\<close>

definition WS_OP_CONT :: nat where "WS_OP_CONT = 0x0"
definition WS_OP_BINARY :: nat where "WS_OP_BINARY = 0x2"
definition WS_OP_CLOSE :: nat where "WS_OP_CLOSE = 0x8"
definition WS_OP_PING :: nat where "WS_OP_PING = 0x9"
definition WS_OP_PONG :: nat where "WS_OP_PONG = 0xa"

lemmas ws_ops = WS_OP_CONT_def WS_OP_BINARY_def WS_OP_CLOSE_def WS_OP_PING_def WS_OP_PONG_def

definition WS_CLOSE_NORMAL :: bytes where "WS_CLOSE_NORMAL = [0x03, 0xe8]"

definition MAX_WS_HANDSHAKE :: nat where "MAX_WS_HANDSHAKE = 16 * 1024"

definition MASK_POOL_BYTES :: nat where "MASK_POOL_BYTES = 1024"

section \<open>Masking keys\<close>

text \<open>The pool of entropy the keys are cut from; \<open>mp_asked\<close> counts the blocks the host was asked for.\<close>

record MaskPool =
  maskPool :: bytes
  maskAt :: nat
  mp_asked :: nat

definition MaskPool_new :: MaskPool where
  "MaskPool_new = \<lparr>maskPool = [], maskAt = 0, mp_asked = 0\<rparr>"

text \<open>\<open>entropy i\<close> is the host's answer to the \<open>i\<close>-th request for \<open>MASK_POOL_BYTES\<close> random bytes.\<close>

definition maskKey :: "(nat \<Rightarrow> bytes) \<Rightarrow> MaskPool \<Rightarrow> bytes \<times> MaskPool" where
  "maskKey entropy p =
     (if maskAt p + 4 \<le> length (maskPool p)
      then (subarray (maskPool p) (maskAt p) (maskAt p + 4), p\<lparr>maskAt := maskAt p + 4\<rparr>)
      else let pool = entropy (mp_asked p)
           in (subarray pool 0 4, \<lparr>maskPool = pool, maskAt = 4, mp_asked = mp_asked p + 1\<rparr>))"

section \<open>One frame\<close>

definition ws_ext :: "nat \<Rightarrow> nat" where
  "ws_ext n = (if n < 126 then 0 else if n < 65536 then 2 else 8)"

definition wsFrame :: "nat \<Rightarrow> bytes \<Rightarrow> bytes option \<Rightarrow> bytes" where
  "wsFrame opcode payload key =
     (let n = length payload; ext = ws_ext n;
          at' = (if key \<noteq> None then 1 else 0); head' = 2 + ext + (if key \<noteq> None then 4 else 0);
          out = replicate (at' + head' + n) 0;
          out = out[at' := of_nat (0x80 OR opcode)];
          out = out[at' + 1 := of_nat ((if key \<noteq> None then 0x80 else 0) OR (if ext = 0 then n else if ext = 2 then 126 else 127))];
          out = (if ext = 2 then writeU16BE out (at' + 2) n else if ext = 8 then guest_writeU32BE out (at' + 6) n else out);
          out = set_bytes out (at' + head') payload
      in case key of
           None \<Rightarrow> out
         | Some k \<Rightarrow> set_bytes (out[0 := OP_MASK]) (at' + head' - 4) k)"

text \<open>The next frame's header: not all there yet, refused, or its fields.\<close>

datatype ws_head = NoHead | BadHead | Head bool nat nat nat

text \<open>The checks on the first two bytes: reserved bits and masking, the opcode, a control frame's shape.\<close>

definition head_refused :: "nat \<Rightarrow> nat \<Rightarrow> bool \<Rightarrow> bool" where
  "head_refused b0 b1 masked \<longleftrightarrow>
     (let fin = b0 AND 0x80 \<noteq> 0; opcode = b0 AND 0x0f; n = b1 AND 0x7f
      in b0 AND 0x70 \<noteq> 0 \<or> (b1 AND 0x80 \<noteq> 0) \<noteq> masked \<or>
         opcode > WS_OP_BINARY \<and> (opcode < WS_OP_CLOSE \<or> opcode > WS_OP_PONG) \<or>
         opcode \<ge> WS_OP_CLOSE \<and> (\<not> fin \<or> n > 125 \<or> opcode = WS_OP_CLOSE \<and> n = 1))"

text \<open>The length field in its shortest form, with the header's size: \<open>None\<close> to wait, \<open>Some None\<close> to refuse.\<close>

definition head_length :: "(nat \<Rightarrow> nat) \<Rightarrow> nat \<Rightarrow> nat \<Rightarrow> (nat \<times> nat) option option" where
  "head_length at' bytes' n =
     (if n = 126
      then if bytes' < 4 then None
           else let n = push_bit 8 (at' 2) OR at' 3 in if n < 126 then Some None else Some (Some (4, n))
      else if n = 127
      then if bytes' < 10 then None
           else if at' 2 OR at' 3 OR at' 4 OR at' 5 \<noteq> 0 then Some None
           else let n = push_bit 24 (at' 6) OR push_bit 16 (at' 7) OR push_bit 8 (at' 8) OR at' 9
                in if n < 65536 then Some None else Some (Some (10, n))
      else Some (Some (2, n)))"

definition head_of :: "(nat \<Rightarrow> nat) \<Rightarrow> nat \<Rightarrow> bool \<Rightarrow> nat \<Rightarrow> ws_head" where
  "head_of at' bytes' masked cap =
     (if bytes' < 2 then NoHead
      else if head_refused (at' 0) (at' 1) masked then BadHead
      else case head_length at' bytes' (at' 1 AND 0x7f) of
             None \<Rightarrow> NoHead
           | Some None \<Rightarrow> BadHead
           | Some (Some (head', n)) \<Rightarrow>
               if n > cap then BadHead
               else Head (at' 0 AND 0x80 \<noteq> 0) (at' 0 AND 0x0f) (head' + (if masked then 4 else 0)) n)"

definition wsHead :: "Pieces \<Rightarrow> bool \<Rightarrow> nat \<Rightarrow> ws_head" where
  "wsHead p masked cap = head_of (\<lambda>i. unat (byteAt i p)) (pbytes p) masked cap"

section \<open>The framer\<close>

record WsState =
  wf_client :: bool
  wf_cap :: nat
  wf_open :: bool
  wf_headLen :: nat
  wf_h0 :: int
  wf_h1 :: int
  wf_h2 :: int
  wf_h3 :: int
  wf_fragOpcode :: int
  wf_frags :: "bytes list"
  wf_fragBytes :: nat
  wf_expectAccept :: "jstr option"
  wf_waiting :: "bytes list"
  wf_writable :: bool
  wf_wire :: "bytes list"
  wf_got :: "bytes list"
  wf_mask :: MaskPool

record WsFramer =
  wf_parts :: Pieces
  wf_st :: WsState

text \<open>
  What the framer's code relies on from outside: the configured message cap, what handling the messages
  delivered so far did, the module call (\<open>None\<close> when it rejects) and the host's random bytes.
\<close>

record WsEnv =
  we_max :: nat
  we_handle :: "bytes list \<Rightarrow> handled"
  we_call :: "bytes \<Rightarrow> bytes option"
  we_entropy :: "nat \<Rightarrow> bytes"

definition request_head :: "jstr \<Rightarrow> jstr \<Rightarrow> jstr \<Rightarrow> jstr" where
  "request_head path authority key =
     js ''GET '' @ path @ js '' HTTP/1.1'' @ [13, 10] @ js ''Host: '' @ authority @ [13, 10] @
     js ''Upgrade: websocket'' @ [13, 10] @ js ''Connection: Upgrade'' @ [13, 10] @
     js ''Sec-WebSocket-Key: '' @ key @ [13, 10] @ js ''Sec-WebSocket-Version: 13'' @ [13, 10, 13, 10]"

definition response_head :: "jstr \<Rightarrow> jstr" where
  "response_head accept =
     js ''HTTP/1.1 101 Switching Protocols'' @ [13, 10] @ js ''Upgrade: websocket'' @ [13, 10] @
     js ''Connection: Upgrade'' @ [13, 10] @ js ''Sec-WebSocket-Accept: '' @ accept @ [13, 10, 13, 10]"

text \<open>The constructor, with the client's request prepared by two module calls; \<open>nonce\<close> is the host's sixteen bytes.\<close>

definition ws_initial :: "bool \<Rightarrow> MaskPool \<Rightarrow> WsState" where
  "ws_initial weDialed pool =
     \<lparr>wf_client = weDialed, wf_cap = MAX_HANDSHAKE_FRAME_BYTES, wf_open = False, wf_headLen = 0,
      wf_h0 = -1, wf_h1 = -1, wf_h2 = -1, wf_h3 = -1, wf_fragOpcode = -1, wf_frags = [], wf_fragBytes = 0,
      wf_expectAccept = None, wf_waiting = [], wf_writable = True, wf_wire = [], wf_got = [], wf_mask = pool\<rparr>"

definition ws_prepare :: "WsEnv \<Rightarrow> jstr \<Rightarrow> jstr \<Rightarrow> bytes \<Rightarrow> WsState \<Rightarrow> WsState" where
  "ws_prepare env authority path nonce s =
     (case we_call env (OP_BASE64 # nonce) of
        None \<Rightarrow> s
      | Some r \<Rightarrow> case we_call env (OP_ACCEPT # r) of
          None \<Rightarrow> s
        | Some a \<Rightarrow> s\<lparr>wf_expectAccept := Some (utf8Decode a),
                       wf_wire := wf_wire s @ [utf8Encode (request_head path authority (utf8Decode r))]\<rparr>)"

definition WsFramer_new :: "WsEnv \<Rightarrow> bool \<Rightarrow> jstr \<Rightarrow> jstr \<Rightarrow> bytes \<Rightarrow> MaskPool \<Rightarrow> WsFramer" where
  "WsFramer_new env weDialed authority path nonce pool =
     \<lparr>wf_parts = new_Pieces MERGE_BELOW,
      wf_st = (if weDialed then ws_prepare env authority path nonce (ws_initial weDialed pool) else ws_initial weDialed pool)\<rparr>"

definition ws_raiseCap :: "WsEnv \<Rightarrow> WsState \<Rightarrow> WsState" where
  "ws_raiseCap env s = s\<lparr>wf_cap := we_max env\<rparr>"

definition ws_discard_st :: "WsState \<Rightarrow> WsState" where
  "ws_discard_st s = s\<lparr>wf_frags := [], wf_fragBytes := 0\<rparr>"

definition ws_discard :: "WsFramer \<Rightarrow> WsFramer" where
  "ws_discard f = \<lparr>wf_parts = new_Pieces MERGE_BELOW, wf_st = ws_discard_st (wf_st f)\<rparr>"

subsection \<open>Writing\<close>

definition ws_frame :: "WsEnv \<Rightarrow> nat \<Rightarrow> bytes \<Rightarrow> WsState \<Rightarrow> bytes option \<times> WsState" where
  "ws_frame env opcode payload s =
     (if \<not> wf_client s then (Some (wsFrame opcode payload None), s)
      else let (key, pool) = maskKey (we_entropy env) (wf_mask s)
           in (we_call env (wsFrame opcode payload (Some key)), s\<lparr>wf_mask := pool\<rparr>))"

text \<open>A failed frame leaves the write chain rejected: nothing is written after it.\<close>

definition ws_enqueue :: "WsEnv \<Rightarrow> nat \<Rightarrow> bytes \<Rightarrow> WsState \<Rightarrow> bool \<times> WsState" where
  "ws_enqueue env opcode payload s =
     (if \<not> wf_writable s then (False, s)
      else case ws_frame env opcode payload s of
             (None, s) \<Rightarrow> (False, s\<lparr>wf_writable := False\<rparr>)
           | (Some f, s) \<Rightarrow> (True, s\<lparr>wf_wire := wf_wire s @ [f]\<rparr>))"

text \<open>Before the upgrade a message waits for it; opening lets the waiting ones onto the write chain.\<close>

definition ws_send :: "WsEnv \<Rightarrow> bytes \<Rightarrow> WsState \<Rightarrow> WsState" where
  "ws_send env msg s = (if wf_open s then snd (ws_enqueue env WS_OP_BINARY msg s) else s\<lparr>wf_waiting := wf_waiting s @ [msg]\<rparr>)"

definition ws_opened :: "WsEnv \<Rightarrow> WsState \<Rightarrow> WsState" where
  "ws_opened env s = fold (\<lambda>msg s. snd (ws_enqueue env WS_OP_BINARY msg s)) (wf_waiting s) (s\<lparr>wf_waiting := []\<rparr>)"

definition ws_goodbye :: "WsEnv \<Rightarrow> WsState \<Rightarrow> WsState" where
  "ws_goodbye env s = (if wf_open s then snd (ws_enqueue env WS_OP_CLOSE WS_CLOSE_NORMAL s) else s)"

definition ws_abort :: "WsState \<Rightarrow> WsState" where
  "ws_abort s = s\<lparr>wf_waiting := []\<rparr>"

subsection \<open>The opening handshake\<close>

text \<open>
  The rolling scan for the blank line. Its result: \<open>None\<close> to go on, \<open>Some None\<close> for a head over its
  ceiling, \<open>Some (Some n)\<close> for the terminator's offset.
\<close>

fun scan_bytes :: "bytes \<Rightarrow> int \<times> int \<times> int \<times> int \<times> nat \<Rightarrow> nat option option \<times> int \<times> int \<times> int \<times> int \<times> nat" where
  "scan_bytes [] w = (None, w)"
| "scan_bytes (c # cs) (h0, h1, h2, h3, n) =
     (let h0 = h1; h1 = h2; h2 = h3; h3 = uint c; n = n + 1;
          matched = (h0 = 13 \<and> h1 = 10 \<and> h2 = 13 \<and> h3 = 10)
      in if matched \<or> n > MAX_WS_HANDSHAKE
         then (Some (if matched \<and> n \<le> MAX_WS_HANDSHAKE then Some (n - 4) else None), h0, h1, h2, h3, n)
         else scan_bytes cs (h0, h1, h2, h3, n))"

definition scanHead :: "bytes \<Rightarrow> WsState \<Rightarrow> nat option option \<times> WsState" where
  "scanHead chunk s =
     (let (found, h0, h1, h2, h3, n) = scan_bytes chunk (wf_h0 s, wf_h1 s, wf_h2 s, wf_h3 s, wf_headLen s)
      in (found, s\<lparr>wf_h0 := h0, wf_h1 := h1, wf_h2 := h2, wf_h3 := h3, wf_headLen := n\<rparr>))"

text \<open>
  \<open>headerValue\<close>'s pattern, read: at the start of a line the name in any case and a colon, blanks, then a
  value that starts with a non-blank and is taken to the end of the line less its trailing blanks. The
  first line that has one answers.
\<close>

definition line_ends :: "16 word \<Rightarrow> bool" where
  "line_ends c \<longleftrightarrow> c = 10 \<or> c = 13 \<or> c = 0x2028 \<or> c = 0x2029"

definition blank :: "16 word \<Rightarrow> bool" where
  "blank c \<longleftrightarrow> c = 32 \<or> c = 9"

fun split_lines :: "jstr \<Rightarrow> jstr list" where
  "split_lines [] = [[]]"
| "split_lines (c # cs) =
     (if line_ends c then [] # split_lines cs
      else case split_lines cs of l # ls \<Rightarrow> (c # l) # ls | [] \<Rightarrow> [[c]])"

definition line_value :: "jstr \<Rightarrow> jstr \<Rightarrow> jstr option" where
  "line_value name line =
     (if toLowerCase (take (length name) line) = toLowerCase name \<and> elem_at line (length name) = Some 58
      then let v = rev (dropWhile blank (rev (dropWhile blank (drop (length name + 1) line))))
           in if v = [] then None else Some v
      else None)"

definition headerValue :: "jstr \<Rightarrow> jstr \<Rightarrow> jstr option" where
  "headerValue head' name = (case List.map_filter (line_value name) (split_lines head') of v # _ \<Rightarrow> Some v | [] \<Rightarrow> None)"

fun contains :: "'a list \<Rightarrow> 'a list \<Rightarrow> bool" where
  "contains needle [] = (needle = [])"
| "contains needle (x # xs) = (take (length needle) (x # xs) = needle \<or> contains needle xs)"

text \<open>\<open>None\<close> is the refusal the source throws; otherwise the bytes consumed and the new state.\<close>

definition ws_upgrade :: "WsEnv \<Rightarrow> nat \<Rightarrow> WsFramer \<Rightarrow> (nat \<times> WsState) option" where
  "ws_upgrade env sep f =
     (let s = wf_st f; head' = utf8Decode (pieces_peek sep (wf_parts f)) in
      if wf_client s
      then case wf_expectAccept s of
             None \<Rightarrow> None
           | Some expect \<Rightarrow>
               if \<not> contains (js ''HTTP/1.1 101'') head' \<or> headerValue head' (js ''sec-websocket-accept'') \<noteq> Some expect
               then None else Some (sep + 4, s)
      else case headerValue head' (js ''sec-websocket-key'') of
             None \<Rightarrow> None
           | Some key \<Rightarrow>
               case we_call env (OP_ACCEPT # utf8Encode key) of
                 None \<Rightarrow> None
               | Some a \<Rightarrow> Some (sep + 4, s\<lparr>wf_wire := wf_wire s @ [utf8Encode (response_head (utf8Decode a))]\<rparr>))"

subsection \<open>Reading\<close>

text \<open>Handing a message over, and what handling it did; the flag says the buffer was dropped.\<close>

definition ws_deliver :: "WsEnv \<Rightarrow> bytes \<Rightarrow> WsState \<Rightarrow> WsState \<times> bool" where
  "ws_deliver env msg s =
     (let s = s\<lparr>wf_got := wf_got s @ [msg]\<rparr>; h = we_handle env (wf_got s);
          s = (if raised h then ws_raiseCap env s else s)
      in (if dropped h then ws_discard_st s else s, dropped h))"

text \<open>\<open>False\<close> both for the source's \<open>false\<close> and for a rejection, which its caller turns into \<open>false\<close>.\<close>

definition ws_dispatch :: "WsEnv \<Rightarrow> nat \<Rightarrow> bytes \<Rightarrow> WsState \<Rightarrow> bool \<times> WsState \<times> bool" where
  "ws_dispatch env opcode payload s =
     (if opcode = WS_OP_BINARY then (True, ws_deliver env payload s)
      else if opcode = WS_OP_PING then let (ok, s) = ws_enqueue env WS_OP_PONG payload s in (ok, s, False)
      else if opcode = WS_OP_CLOSE then (False, s, False)
      else (True, s, False))"

text \<open>One whole frame's payload, in the order the loop of \<open>frames\<close> decides.\<close>

definition ws_accept :: "WsEnv \<Rightarrow> bool \<Rightarrow> nat \<Rightarrow> bytes \<Rightarrow> WsState \<Rightarrow> bool \<times> WsState \<times> bool" where
  "ws_accept env fin opcode payload s =
     (if opcode = WS_OP_CONT
      then if wf_fragOpcode s < 0 then (False, s, False)
           else let s = s\<lparr>wf_fragBytes := wf_fragBytes s + length payload\<rparr> in
                if wf_fragBytes s > wf_cap s then (False, s, False)
                else let s = s\<lparr>wf_frags := wf_frags s @ [payload]\<rparr> in
                     if fin
                     then ws_dispatch env (nat (wf_fragOpcode s)) (guest_concatBytes (wf_frags s))
                            (s\<lparr>wf_fragOpcode := -1, wf_frags := [], wf_fragBytes := 0\<rparr>)
                     else (True, s, False)
      else if \<not> fin
      then if wf_fragOpcode s \<ge> 0 then (False, s, False)
           else (True, s\<lparr>wf_fragOpcode := int opcode, wf_frags := [payload], wf_fragBytes := length payload\<rparr>, False)
      else if opcode < 0x8 \<and> wf_fragOpcode s \<ge> 0 then (False, s, False)
      else ws_dispatch env opcode payload s)"

definition ws_payload :: "WsEnv \<Rightarrow> bool \<Rightarrow> nat \<Rightarrow> nat \<Rightarrow> Pieces \<Rightarrow> bytes option \<times> Pieces" where
  "ws_payload env client head' n p =
     (if client
      then let (_, p) = pieces_take head' p; (payload, p) = pieces_takeCopy n 0 p in (Some payload, p)
      else let (req, p) = pieces_takeCopy (head' + n) 1 p
           in (map_option (drop head') (we_call env (req[0 := OP_MASK])), p))"

function ws_frames :: "WsEnv \<Rightarrow> WsFramer \<Rightarrow> bool \<times> WsFramer" where
  "ws_frames env f =
     (let s = wf_st f; p = wf_parts f in
      case wsHead p (\<not> wf_client s) (wf_cap s) of
        NoHead \<Rightarrow> (True, f)
      | BadHead \<Rightarrow> (False, f)
      | Head fin opcode head' n \<Rightarrow>
          if pbytes p < head' + n then (True, f)
          else let (got, p) = ws_payload env (wf_client s) head' n p in
               case got of
                 None \<Rightarrow> (False, f\<lparr>wf_parts := p\<rparr>)
               | Some payload \<Rightarrow>
                   let (ok, s, drop') = ws_accept env fin opcode payload s;
                       f = \<lparr>wf_parts = (if drop' then new_Pieces MERGE_BELOW else p), wf_st = s\<rparr>
                   in if ok then ws_frames env f else (False, f))"
  by pat_completeness auto

lemma wsHead_size: "wsHead p masked cap = Head fin opcode head' n \<Longrightarrow> 2 \<le> head' \<and> 2 \<le> pbytes p \<and> n \<le> cap"
  by (auto simp: wsHead_def head_of_def head_length_def Let_def split: if_splits option.splits)

lemma ws_payload_bytes: "pbytes (snd (ws_payload env c h n p)) = pbytes p - (h + n)"
  by (simp add: ws_payload_def Let_def case_prod_beta)

termination ws_frames
proof (relation "measure (\<lambda>(_, f). pbytes (wf_parts f))", simp, goal_cases)
  case (1 env f s p fin opcode head' n x got q payload acc ok t t' drop' f')
  then have "pbytes q = pbytes p - (head' + n)" using ws_payload_bytes by (metis snd_conv)
  moreover have "2 \<le> head'" "2 \<le> pbytes p" using 1 wsHead_size by blast+
  moreover have "pbytes (wf_parts f') \<le> pbytes q" using 1 by (simp add: new_Pieces_def)
  ultimately show ?case using 1 by simp
qed

declare ws_frames.simps [simp del]

definition ws_read :: "WsEnv \<Rightarrow> bytes \<Rightarrow> WsFramer \<Rightarrow> bool \<times> WsFramer" where
  "ws_read env chunk f =
     (let s = wf_st f in
      if \<not> wf_open s
      then let (sep, s) = scanHead chunk s in
           case sep of
             Some None \<Rightarrow> (False, f\<lparr>wf_st := s\<rparr>)
           | None \<Rightarrow> (True, \<lparr>wf_parts = pieces_push chunk (wf_parts f), wf_st = s\<rparr>)
           | Some (Some n) \<Rightarrow>
               let f = \<lparr>wf_parts = pieces_push chunk (wf_parts f), wf_st = s\<rparr> in
               case ws_upgrade env n f of
                 None \<Rightarrow> (False, f)
               | Some (consumed, s) \<Rightarrow>
                   ws_frames env \<lparr>wf_parts = snd (pieces_take consumed (wf_parts f)), wf_st = s\<lparr>wf_open := True\<rparr>\<rparr>
      else ws_frames env (f\<lparr>wf_parts := pieces_push chunk (wf_parts f)\<rparr>))"


section \<open>Scanning for the end of the head\<close>

definition ends_at :: "nat \<Rightarrow> bytes \<Rightarrow> bool" where
  "ends_at n bs \<longleftrightarrow> n + 4 \<le> length bs \<and> take 4 (drop n bs) = [13, 10, 13, 10]"

definition scan_verdict :: "nat option option \<Rightarrow> bytes \<Rightarrow> bool" where
  "scan_verdict r bs \<longleftrightarrow>
     (case r of
        None \<Rightarrow> (\<forall>n. \<not> ends_at n bs) \<and> length bs \<le> MAX_WS_HANDSHAKE
      | Some None \<Rightarrow> MAX_WS_HANDSHAKE < length bs \<and> (\<forall>n. ends_at n bs \<longrightarrow> MAX_WS_HANDSHAKE < n + 4)
      | Some (Some n) \<Rightarrow> ends_at n bs \<and> (\<forall>m<n. \<not> ends_at m bs) \<and> n + 4 \<le> MAX_WS_HANDSHAKE)"

definition seen :: "bytes \<Rightarrow> int list" where
  "seen pre = take 4 (rev (map uint pre) @ replicate 4 (-1))"

lemma seen_snoc: "seen (pre @ [c]) = uint c # take 3 (seen pre)"
  by (simp add: seen_def min_def take_Cons' numeral_eq_Suc)

lemma ends_at_append: "ends_at n xs \<Longrightarrow> ends_at n (xs @ ys)"
  by (auto simp: ends_at_def)

lemma ends_at_prefix: "ends_at n (xs @ ys) \<Longrightarrow> n + 4 \<le> length xs \<Longrightarrow> ends_at n xs"
  by (auto simp: ends_at_def)

lemma four_elems: "length t = 4 \<Longrightarrow> \<exists>a b c d. t = [a, b, c, d]"
  by (auto simp: length_Suc_conv numeral_eq_Suc)

lemma uint_units: "uint (b :: byte) = 10 \<longleftrightarrow> b = 10" "uint b = 13 \<longleftrightarrow> b = 13"
  using word_uint_eq_iff [of b 10] word_uint_eq_iff [of b 13] by simp_all

lemma seen_ends: "seen pre = [10, 13, 10, 13] \<longleftrightarrow> ends_at (length pre - 4) pre"
proof (cases "4 \<le> length pre")
  case True
  define xs where "xs = take (length pre - 4) pre"
  have "length (drop (length pre - 4) pre) = 4" using True by simp
  then obtain a b c d where "drop (length pre - 4) pre = [a, b, c, d]" using four_elems by blast
  then have pre: "pre = xs @ [a, b, c, d]" by (metis xs_def append_take_drop_id)
  have "seen pre = [uint d, uint c, uint b, uint a]" unfolding pre by (simp add: seen_def)
  moreover have "ends_at (length pre - 4) pre \<longleftrightarrow> [a, b, c, d] = [13, 10, 13, 10]" unfolding pre by (simp add: ends_at_def)
  ultimately show ?thesis by (auto simp: uint_units)
next
  case False
  then have "seen pre ! 3 = -1" by (auto simp: seen_def nth_append)
  then have "seen pre \<noteq> [10, 13, 10, 13]" by auto
  with False show ?thesis by (auto simp: ends_at_def)
qed

lemma scan_bytes_verdict:
  assumes "rev [h0, h1, h2, h3] = seen pre" and "\<forall>n. \<not> ends_at n pre" and "length pre \<le> MAX_WS_HANDSHAKE"
  shows "scan_verdict (fst (scan_bytes post (h0, h1, h2, h3, length pre))) (pre @ post)"
  using assms
proof (induction post arbitrary: pre h0 h1 h2 h3)
  case Nil
  then show ?case by (simp add: scan_verdict_def)
next
  case (Cons c post)
  let ?pre = "pre @ [c]"
  have seen: "rev [h1, h2, h3, uint c] = seen ?pre" using Cons.prems(1) by (simp add: seen_snoc flip: Cons.prems(1))
  have matched: "(h1 = 13 \<and> h2 = 10 \<and> h3 = 13 \<and> uint c = 10) \<longleftrightarrow> ends_at (length ?pre - 4) ?pre"
    using seen_ends [of ?pre] by (auto simp flip: seen)
  have only: "n = length ?pre - 4" if "ends_at n ?pre" for n
    using that Cons.prems(2) ends_at_prefix [of n pre "[c]"] by (fastforce simp: ends_at_def)
  have early: "n + 4 > length pre" if "ends_at n (pre @ c # post)" for n
    using that Cons.prems(2) ends_at_prefix [of n pre "c # post"] by force
  show ?case
  proof (cases "ends_at (length ?pre - 4) ?pre \<or> length ?pre > MAX_WS_HANDSHAKE")
    case True
    have "scan_verdict (Some (if ends_at (length ?pre - 4) ?pre \<and> length ?pre \<le> MAX_WS_HANDSHAKE then Some (length ?pre - 4) else None)) (pre @ c # post)"
    proof (cases "ends_at (length ?pre - 4) ?pre \<and> length ?pre \<le> MAX_WS_HANDSHAKE")
      case fits: True
      then have four: "length ?pre - 4 + 4 = length ?pre" by (auto simp: ends_at_def)
      have "ends_at (length ?pre - 4) (pre @ c # post)" using fits ends_at_append [of "length ?pre - 4" ?pre post] by simp
      moreover have "\<not> ends_at m (pre @ c # post)" if "m < length ?pre - 4" for m using early [of m] that four by auto
      ultimately show ?thesis using fits four by (simp add: scan_verdict_def)
    next
      case False
      with True have over: "MAX_WS_HANDSHAKE < length ?pre" by auto
      then have "MAX_WS_HANDSHAKE < n + 4" if "ends_at n (pre @ c # post)" for n using early [OF that] by simp
      with over False show ?thesis by (auto simp: scan_verdict_def)
    qed
    with True matched show ?thesis by (auto simp: Let_def split: if_splits)
  next
    case False
    then have "\<forall>n. \<not> ends_at n ?pre" using only by blast
    with Cons.IH [OF seen] False matched show ?thesis by (auto simp: Let_def)
  qed
qed

lemma scan_bytes_append:
  "scan_bytes (xs @ ys) w = (case scan_bytes xs w of (None, w') \<Rightarrow> scan_bytes ys w' | r \<Rightarrow> r)"
  by (induction xs w rule: scan_bytes.induct) (auto simp: Let_def)

fun scan_chunks :: "bytes list \<Rightarrow> WsState \<Rightarrow> nat option option \<times> WsState" where
  "scan_chunks [] s = (None, s)"
| "scan_chunks (c # cs) s = (case scanHead c s of (None, s') \<Rightarrow> scan_chunks cs s' | r \<Rightarrow> r)"

abbreviation scan_window :: "WsState \<Rightarrow> int \<times> int \<times> int \<times> int \<times> nat" where
  "scan_window s \<equiv> (wf_h0 s, wf_h1 s, wf_h2 s, wf_h3 s, wf_headLen s)"

lemma scanHead_bytes: "fst (scanHead c s) = fst (scan_bytes c (scan_window s)) \<and> scan_window (snd (scanHead c s)) = snd (scan_bytes c (scan_window s))"
  by (simp add: scanHead_def case_prod_beta Let_def)

lemma scan_chunks_bytes: "fst (scan_chunks cs s) = fst (scan_bytes (concat cs) (scan_window s))"
proof (induction cs arbitrary: s)
  case (Cons c cs)
  obtain r t where sc: "scanHead c s = (r, t)" by (cases "scanHead c s")
  with scanHead_bytes [of c s] have "scan_bytes c (scan_window s) = (r, scan_window t)" by (auto intro: prod_eqI)
  with Cons sc show ?case by (cases r) (simp_all add: scan_bytes_append)
qed simp

text \<open>However the opening handshake's bytes are cut into reads, the rolling scan finds the first blank line
  (\<open>CR LF CR LF\<close>) of the stream, says to wait exactly while there is none within the ceiling, and refuses
  exactly when the head passes its ceiling without one that fits.\<close>

theorem ws_head_scan:
  "scan_verdict (fst (scan_chunks chunks (ws_initial weDialed pool))) (concat chunks)"
  using scan_bytes_verdict [of "-1" "-1" "-1" "-1" "[]" "concat chunks"]
  by (simp add: scan_chunks_bytes ws_initial_def seen_def ends_at_def numeral_eq_Suc)

section \<open>The framer as a parser of bytes\<close>

definition head_at :: "bytes \<Rightarrow> bool \<Rightarrow> nat \<Rightarrow> ws_head" where
  "head_at bs = head_of (\<lambda>i. unat (bs ! i)) (length bs)"

lemma head_of_cong:
  assumes "\<And>i. i < n \<Longrightarrow> f i = g i"
  shows "head_of f n masked cap = head_of g n masked cap"
proof -
  have "head_length f n l = head_length g n l" for l using assms by (simp add: head_length_def)
  then show ?thesis using assms [of 0] assms [of 1] by (cases "n < 2") (simp_all add: head_of_def split: option.split)
qed

lemma wsHead_live: "pieces_ok p \<Longrightarrow> wsHead p masked cap = head_at (pieces_live p) masked cap"
  unfolding wsHead_def head_at_def using pieces.size_live [of p] pieces.at_value [of p]
  by (auto intro!: head_of_cong)

lemma head_length_more: "n \<le> n' \<Longrightarrow> head_length f n l \<noteq> None \<Longrightarrow> head_length f n' l = head_length f n l"
  by (auto simp: head_length_def Let_def)

lemma head_of_more:
  assumes "n \<le> n'" and "head_of f n masked cap \<noteq> NoHead"
  shows "head_of f n' masked cap = head_of f n masked cap"
  using assms head_length_more [of n n' f "f 1 AND 0x7f"] by (auto simp: head_of_def split: option.splits if_splits)

lemma head_at_append: "head_at bs masked cap \<noteq> NoHead \<Longrightarrow> head_at (bs @ xs) masked cap = head_at bs masked cap"
proof -
  assume h: "head_at bs masked cap \<noteq> NoHead"
  have c: "head_of (\<lambda>i. unat ((bs @ xs) ! i)) (length bs) masked cap = head_at bs masked cap"
    unfolding head_at_def by (rule head_of_cong) (simp add: nth_append)
  with h head_of_more [of "length bs" "length (bs @ xs)"] show ?thesis by (simp add: head_at_def)
qed

definition payload_of :: "WsEnv \<Rightarrow> bool \<Rightarrow> nat \<Rightarrow> nat \<Rightarrow> bytes \<Rightarrow> bytes option" where
  "payload_of env client head' n bs =
     (if client then Some (take n (drop head' bs)) else map_option (drop head') (we_call env (OP_MASK # take (head' + n) bs)))"

definition ws_step :: "WsEnv \<Rightarrow> WsState \<Rightarrow> bytes \<Rightarrow> WsState verdict" where
  "ws_step env s bs =
     (case head_at bs (\<not> wf_client s) (wf_cap s) of
        NoHead \<Rightarrow> Wait
      | BadHead \<Rightarrow> Refuse
      | Head fin opcode head' n \<Rightarrow>
          if length bs < head' + n then Wait
          else case payload_of env (wf_client s) head' n bs of
                 None \<Rightarrow> Refuse
               | Some payload \<Rightarrow> let (ok, s', _) = ws_accept env fin opcode payload s in if ok then Next s' (head' + n) else Refuse)"

lemma head_at_size: "head_at bs masked cap = Head fin opcode head' n \<Longrightarrow> 2 \<le> head' \<and> n \<le> cap"
  by (auto simp: head_at_def head_of_def head_length_def Let_def split: if_splits option.splits)

lemma payload_of_append: "head' + n \<le> length bs \<Longrightarrow> payload_of env c head' n (bs @ xs) = payload_of env c head' n bs"
  by (simp add: payload_of_def)

interpretation ws_parser: incremental "ws_step env"
proof
  fix s s' :: WsState and bs xs n
  show "ws_step env s bs = Next s' n \<Longrightarrow> 0 < n \<and> n \<le> length bs"
    using head_at_size by (fastforce simp: ws_step_def split: ws_head.splits option.splits if_splits prod.splits)
  assume step: "ws_step env s bs = Next s' n"
  then have "head_at bs (\<not> wf_client s) (wf_cap s) \<noteq> NoHead" by (auto simp: ws_step_def)
  from head_at_append [OF this] step show "ws_step env s (bs @ xs) = Next s' n"
    by (auto simp: ws_step_def payload_of_append split: ws_head.splits if_splits)
next
  fix s :: WsState and bs xs
  assume step: "ws_step env s bs = Refuse"
  then have "head_at bs (\<not> wf_client s) (wf_cap s) \<noteq> NoHead" by (auto simp: ws_step_def)
  from head_at_append [OF this] step show "ws_step env s (bs @ xs) = Refuse"
    by (auto simp: ws_step_def payload_of_append split: ws_head.splits if_splits)
qed

lemma ws_payload_live:
  assumes "pieces_ok p" "h + n \<le> pbytes p"
  shows "fst (ws_payload env c h n p) = payload_of env c h n (pieces_live p)"
    "pieces_live (snd (ws_payload env c h n p)) = drop (h + n) (pieces_live p)" "pieces_ok (snd (ws_payload env c h n p))"
proof -
  have q: "pieces_ok (snd (pieces_take h p))" "pieces_live (snd (pieces_take h p)) = drop h (pieces_live p)"
    using assms by (simp_all add: pieces.inv_take pieces.live_take)
  have n: "n \<le> pbytes (snd (pieces_take h p))" using assms by simp
  show "fst (ws_payload env c h n p) = payload_of env c h n (pieces_live p)"
    "pieces_live (snd (ws_payload env c h n p)) = drop (h + n) (pieces_live p)" "pieces_ok (snd (ws_payload env c h n p))"
    using pieces_takeCopy_live [OF q(1) n, of 0] pieces_takeCopy_live [OF assms, of 1] q(2)
    by (simp_all add: ws_payload_def payload_of_def case_prod_beta Let_def add.commute)
qed

lemma ws_enqueue_got: "wf_got (snd (ws_enqueue env opcode payload s)) = wf_got s"
  by (simp add: ws_enqueue_def ws_frame_def Let_def split: prod.splits option.splits)

lemma ws_accept_refused: "ws_accept env fin opcode payload s = (False, t, d) \<Longrightarrow> wf_got t = wf_got s"
  using ws_enqueue_got [of env WS_OP_PONG]
  by (auto simp: ws_accept_def ws_dispatch_def Let_def split: if_splits prod.splits dest!: arg_cong [where f = snd])

lemma ws_accept_kept: "\<not> dropped (we_handle env (wf_got s @ [msg])) \<Longrightarrow> \<not> snd (ws_deliver env msg s)"
  by (simp add: ws_deliver_def Let_def)

lemma ws_accept_flag:
  assumes "\<And>h. \<not> dropped (we_handle env h)"
  shows "snd (snd (ws_accept env fin opcode payload s)) = False"
  using assms by (simp add: ws_accept_def ws_dispatch_def ws_deliver_def Let_def split: prod.split)

text \<open>Once refused, only what was delivered before matters: the link is dropped.\<close>

lemma ws_frames_run:
  assumes "\<And>h. \<not> dropped (we_handle env h)" and "pieces_ok (wf_parts f)"
  shows "case run_parser (ws_step env) (wf_st f) (pieces_live (wf_parts f)) of (ok, s, rest) \<Rightarrow>
    fst (ws_frames env f) = ok \<and> wf_got (wf_st (snd (ws_frames env f))) = wf_got s \<and>
    (ok \<longrightarrow> wf_st (snd (ws_frames env f)) = s \<and> pieces_live (wf_parts (snd (ws_frames env f))) = rest \<and>
      pieces_ok (wf_parts (snd (ws_frames env f))))"
  using assms
proof (induction env f rule: ws_frames.induct)
  case (1 env f)
  let ?p = "wf_parts f" and ?s = "wf_st f"
  let ?bs = "pieces_live ?p"
  note size = pieces.size_live [OF 1(3)] and head = wsHead_live [OF 1(3), of "\<not> wf_client ?s" "wf_cap ?s"]
  show ?case
  proof (cases "head_at ?bs (\<not> wf_client ?s) (wf_cap ?s)")
    case (Head fin opcode h n)
    show ?thesis
    proof (cases "pbytes ?p < h + n")
      case False
      then have fits: "h + n \<le> pbytes ?p" by simp
      note pay = ws_payload_live [OF 1(3) fits, where env = env and c = "wf_client ?s"]
      show ?thesis
      proof (cases "payload_of env (wf_client ?s) h n ?bs")
        case None
        with Head False head pay(1) size show ?thesis
          by (simp add: ws_frames.simps [of env f] run_parser.simps [of _ ?s ?bs] ws_step_def case_prod_beta Let_def)
      next
        case (Some payload)
        obtain ok t d where acc: "ws_accept env fin opcode payload ?s = (ok, t, d)" by (cases "ws_accept env fin opcode payload ?s")
        with ws_accept_flag [OF 1(2), of fin opcode payload ?s] have d: "\<not> d" by simp
        let ?f = "\<lparr>wf_parts = snd (ws_payload env (wf_client ?s) h n ?p), wf_st = t\<rparr>"
        have frames: "ws_frames env f = (if ok then ws_frames env ?f else (False, ?f))"
          using Head False head pay(1) Some acc d
          by (simp add: ws_frames.simps [of env f] case_prod_beta Let_def)
        have step: "ws_step env ?s ?bs = (if ok then Next t (h + n) else Refuse)"
          using Head False size Some acc by (simp add: ws_step_def)
        show ?thesis
        proof (cases ok)
          case True
          have "case run_parser (ws_step env) (wf_st ?f) (pieces_live (wf_parts ?f)) of (ok, s, rest) \<Rightarrow>
            fst (ws_frames env ?f) = ok \<and> wf_got (wf_st (snd (ws_frames env ?f))) = wf_got s \<and>
            (ok \<longrightarrow> wf_st (snd (ws_frames env ?f)) = s \<and> pieces_live (wf_parts (snd (ws_frames env ?f))) = rest \<and>
              pieces_ok (wf_parts (snd (ws_frames env ?f))))"
            using Head head False pay Some acc d True 1(2) by (intro 1(1)) (auto intro: prod_eqI)
          with True frames step ws_parser.run_next [of env ?s ?bs t "h + n"] pay(2) show ?thesis by simp
        next
          case False
          with frames step ws_accept_refused acc show ?thesis by (simp add: run_parser.simps [of _ ?s ?bs])
        qed
      qed
    qed (use Head head size 1(3) in \<open>simp add: ws_frames.simps [of env f] run_parser.simps [of _ ?s ?bs] ws_step_def Let_def\<close>)
  qed (use head size 1(3) in \<open>simp_all add: ws_frames.simps [of env f] run_parser.simps [of _ ?s ?bs] ws_step_def Let_def\<close>)
qed

end
