(* ===== verification/Ws_Link.thy ===== *)
theory Ws_Link
  imports Ws_Framer
begin

text \<open>
  The WebSocket codec and the WebSocket module together: what one end's framer writes the other end's reads,
  and what a peer can make a link hold.
\<close>


section \<open>Frames written are frames read\<close>

definition ws_prefix :: "nat \<Rightarrow> nat \<Rightarrow> bool \<Rightarrow> bytes" where
  "ws_prefix opcode n masked =
     [of_nat (128 OR opcode), of_nat ((if masked then 128 else 0) OR (if n < 126 then n else if n < 65536 then 126 else 127))] @
     (if n < 126 then [] else if n < 65536 then [of_nat (n div 256), of_nat n] else [0, 0, 0, 0] @ u32be (int n))"

lemma length_ws_prefix: "length (ws_prefix opcode n masked) = 2 + ws_ext n"
  by (simp add: ws_prefix_def ws_ext_def)

lemma update_numeral: "(x # xs)[numeral k := y] = x # xs[pred_numeral k := y]"
  by (simp add: numeral_eq_Suc)

lemma zeros:
  "replicate 2 x = [x, x]" "replicate 4 x = [x, x, x, x]" "replicate 6 x = [x, x, x, x, x, x]" "replicate 8 x = [x, x, x, x, x, x, x, x]" "replicate 14 x = [x, x, x, x, x, x, x, x, x, x, x, x, x, x]"
  "replicate 7 x = [x, x, x, x, x, x, x]"
  "replicate 9 x = [x, x, x, x, x, x, x, x, x]" "replicate 10 x = [x, x, x, x, x, x, x, x, x, x]"
  "replicate 15 x = [x, x, x, x, x, x, x, x, x, x, x, x, x, x, x]"
  by (simp_all add: numeral_eq_Suc)

lemma u32be_list:
  "u32be (int v) = [of_nat (drop_bit 24 v), of_nat (drop_bit 16 v AND 255), of_nat (drop_bit 8 v AND 255), of_nat (v AND 255)]"
  by (simp add: u32be_def guest_writeU32BE_eq [symmetric] guest_writeU32BE_def zeros update_numeral)

lemmas frame_layout = ws_ext_def ws_prefix_def writeU16BE_def guest_writeU32BE_def u32be_list set_bytes_def Let_def
  replicate_add zeros update_numeral and_255 byte_mod drop_bit_eq_div

lemma wsFrame_clear: "wsFrame opcode payload None = ws_prefix opcode (length payload) False @ payload"
proof -
  consider "length payload < 126" | "126 \<le> length payload" "length payload < 65536" | "65536 \<le> length payload" by linarith
  then show ?thesis
  proof cases
    case 1
    then show ?thesis by (simp add: wsFrame_def frame_layout)
  next
    case 2
    then show ?thesis by (simp add: wsFrame_def frame_layout)
  next
    case 3
    then show ?thesis by (simp add: wsFrame_def frame_layout)
  qed
qed

lemma wsFrame_masked:
  assumes "length key = 4"
  shows "wsFrame opcode payload (Some key) = OP_MASK # ws_prefix opcode (length payload) True @ key @ payload"
proof -
  consider "length payload < 126" | "126 \<le> length payload" "length payload < 65536" | "65536 \<le> length payload" by linarith
  then show ?thesis
  proof cases
    case 1
    then show ?thesis using assms by (simp add: wsFrame_def frame_layout)
  next
    case 2
    then show ?thesis using assms by (simp add: wsFrame_def frame_layout)
  next
    case 3
    then show ?thesis using assms by (simp add: wsFrame_def frame_layout)
  qed
qed

lemma and_128: "m AND 128 = (if odd (m div 128) then 128 else 0)" for m :: nat
proof -
  have b: "bit (128 :: nat) k \<longleftrightarrow> k = 7" for k using bit_exp_iff [where 'a = nat, of 7 k] by auto
  show ?thesis by (rule bit_eqI) (auto simp: bit_and_iff b bit_iff_odd [of m])
qed

lemma mask_bits:
  fixes n :: nat
  assumes "n < 128"
  shows "128 OR n = 128 + n" "(128 + n) AND 128 = 128" "n AND 128 = 0"
  using assms or_low_nat [of n 7 1] by (simp_all add: and_128 push_bit_eq_mult div_add_self1)

lemma low_bits: "n < 128 \<Longrightarrow> (128 + n) AND 127 = n" "n < 128 \<Longrightarrow> n AND 127 = n" for n :: nat
  by (simp_all add: and_127)

definition ws_sendable :: "nat \<Rightarrow> nat \<Rightarrow> bool" where
  "ws_sendable opcode n \<longleftrightarrow> n < 2 ^ 32 \<and>
     (opcode = WS_OP_BINARY \<or> opcode \<in> {WS_OP_CLOSE, WS_OP_PING, WS_OP_PONG} \<and> n \<le> 125 \<and> (opcode = WS_OP_CLOSE \<longrightarrow> n \<noteq> 1))"

definition len7 :: "nat \<Rightarrow> nat" where
  "len7 n = (if n < 126 then n else if n < 65536 then 126 else 127)"

lemma head_refused_sent:
  assumes "ws_sendable opcode n"
  shows "\<not> head_refused (128 OR opcode) ((if masked then 128 else 0) OR len7 n) masked"
proof -
  have l: "len7 n < 128" "n \<le> 125 \<Longrightarrow> len7 n = n" by (simp_all add: len7_def)
  show ?thesis
    using assms l by (auto simp: head_refused_def ws_sendable_def ws_ops Let_def mask_bits low_bits)
qed

lemma head_opcode_sent:
  "ws_sendable opcode n \<Longrightarrow> (128 OR opcode) AND 128 \<noteq> 0 \<and> (128 OR opcode) AND 15 = opcode \<and> 128 OR opcode < 256"
  by (auto simp: ws_sendable_def ws_ops)

lemma or_bytes2: "n < 65536 \<Longrightarrow> push_bit 8 (n div 256) OR unat (of_nat n :: byte) = n"
proof -
  assume "n < 65536"
  have "unat (of_nat n :: byte) = n mod 256" by (simp add: unat_of_nat take_bit_eq_mod)
  with or_low_nat [of "n mod 256" 8 "n div 256"] show ?thesis by simp
qed

lemma unat_push_byte: "k \<le> 24 \<Longrightarrow> unat (push_bit k (ucast (b :: byte)) :: 32 word) = push_bit k (unat b)"
proof -
  assume k: "k \<le> 24"
  have "push_bit k (unat b) < 2 ^ k * 2 ^ 8" by (simp add: push_bit_eq_mult)
  also have "\<dots> \<le> 2 ^ 32" using k power_increasing [of "k + 8" 32 "2 :: nat"] by (simp add: power_add)
  finally have "take_bit 32 (push_bit k (unat b)) = push_bit k (unat b)" by (simp add: take_bit_nat_eq_self)
  moreover have "take_bit 32 (unat b) = unat b" using less_trans [OF byte_nat_bound [of b], of "2 ^ 32"] by (simp add: take_bit_nat_eq_self)
  ultimately show ?thesis by (simp add: unsigned_push_bit_eq unsigned_ucast_eq)
qed

lemma or_bytes4: "push_bit 24 (unat (b :: byte)) OR push_bit 16 (unat (c :: byte)) OR push_bit 8 (unat (d :: byte)) OR unat (e :: byte) =
    unat (push_bit 24 (ucast b) OR push_bit 16 (ucast c) OR push_bit 8 (ucast d) OR ucast e :: 32 word)"
  using unat_push_byte [of 24 b] unat_push_byte [of 16 c] unat_push_byte [of 8 d] unat_push_byte [of 0 e]
  by (simp add: unsigned_or_eq)

lemma head_at_sent:
  assumes "ws_sendable opcode n" and "n \<le> cap"
  shows "head_at (ws_prefix opcode n masked @ rest) masked cap = Head True opcode (2 + ws_ext n + (if masked then 4 else 0)) n"
proof -
  let ?bs = "ws_prefix opcode n masked @ rest"
  note op = head_opcode_sent [OF assms(1)]
  have l: "len7 n < 128" by (simp add: len7_def)
  have b0: "unat (?bs ! 0) = 128 OR opcode" using op by (simp add: ws_prefix_def unat_of_nat_byte)
  have "(if masked then 128 else 0) OR len7 n < 256" using l by (simp add: mask_bits)
  then have b1: "unat (?bs ! 1) = (if masked then 128 else 0) OR len7 n"
    by (simp add: ws_prefix_def len7_def [symmetric] unat_of_nat_byte)
  have low: "((if masked then 128 else 0) OR len7 n) AND 127 = len7 n" using l by (simp add: mask_bits low_bits)
  have size: "2 + ws_ext n \<le> length ?bs" by (simp add: length_ws_prefix)
  have "head_length (\<lambda>i. unat (?bs ! i)) (length ?bs) (len7 n) = Some (Some (2 + ws_ext n, n))"
  proof -
    consider "n < 126" | "126 \<le> n" "n < 65536" | "65536 \<le> n" by linarith
    then show ?thesis
    proof cases
      case 1
      then show ?thesis by (simp add: head_length_def len7_def ws_ext_def)
    next
      case 2
      then have "unat (?bs ! 2) = n div 256" "unat (?bs ! 3) = unat (of_nat n :: byte)"
        by (simp_all add: ws_prefix_def unat_of_nat_byte less_mult_imp_div_less)
      with 2 size show ?thesis by (simp add: head_length_def len7_def ws_ext_def or_bytes2)
    next
      case 3
      have n: "n < 2 ^ 32" using assms(1) by (simp add: ws_sendable_def)
      have "?bs = (of_nat (128 OR opcode) # of_nat ((if masked then 128 else 0) OR 127) # [0, 0, 0, 0]) @ u32be (int n) @ rest"
        using 3 by (simp add: ws_prefix_def)
      from this readU32BE_at [OF _ n, of "of_nat (128 OR opcode) # of_nat ((if masked then 128 else 0) OR 127) # [0, 0, 0, 0]" 6 rest]
      have "readU32BE ?bs 6 = n" and z: "?bs ! 2 = 0" "?bs ! 3 = 0" "?bs ! 4 = 0" "?bs ! 5 = 0" by simp_all
      then have "push_bit 24 (unat (?bs ! 6)) OR push_bit 16 (unat (?bs ! 7)) OR push_bit 8 (unat (?bs ! 8)) OR unat (?bs ! 9) = n"
        using size 3 by (simp add: or_bytes4 readU32BE_def num_at_def ws_ext_def)
      with 3 size z show ?thesis by (simp add: head_length_def len7_def ws_ext_def)
    qed
  qed
  with size assms(2) op head_refused_sent [OF assms(1), of masked] show ?thesis
    unfolding head_at_def head_of_def b0 b1 low by simp
qed

lemma mask_head_prefix:
  assumes "ws_sendable opcode n"
  shows "mask_head (ws_prefix opcode n True @ rest) = 2 + ws_ext n + 4"
proof -
  have "len7 n < 128" by (simp add: len7_def)
  then have "unat ((ws_prefix opcode n True @ rest) ! 1) mod 128 = len7 n"
    by (simp add: ws_prefix_def len7_def [symmetric] mask_bits unat_of_nat_byte del: of_nat_add)
  then show ?thesis unfolding mask_head_def Let_def by (simp add: len7_def ws_ext_def)
qed

text \<open>What a client puts on the wire, and what a server's masking call makes of it.\<close>

lemma ws_handle_masked:
  assumes "ws_sendable opcode (length payload)" "length key = 4"
  shows "ws_handle (OP_MASK # ws_prefix opcode (length payload) True @ key @ payload) =
    ws_prefix opcode (length payload) True @ key @ mask_ref key 0 payload"
proof -
  let ?frame = "ws_prefix opcode (length payload) True @ key @ payload"
  have h: "mask_head ?frame = length (ws_prefix opcode (length payload) True) + 4"
    by (simp only: mask_head_prefix [OF assms(1)] length_ws_prefix)
  then show ?thesis using assms(2) by (subst opMask_ref) (simp_all add: h)
qed

definition ws_wire_frame :: "nat \<Rightarrow> bytes \<Rightarrow> bytes option \<Rightarrow> bytes" where
  "ws_wire_frame opcode payload key =
     (case key of None \<Rightarrow> wsFrame opcode payload None | Some k \<Rightarrow> ws_handle (wsFrame opcode payload (Some k)))"

lemma ws_wire_frame_masked:
  "ws_sendable opcode (length payload) \<Longrightarrow> length key = 4 \<Longrightarrow>
   ws_wire_frame opcode payload (Some key) = ws_prefix opcode (length payload) True @ key @ mask_ref key 0 payload"
  by (simp add: ws_wire_frame_def wsFrame_masked ws_handle_masked)

lemma payload_of_sent:
  assumes "ws_sendable opcode (length payload)" "\<And>k. key = Some k \<Longrightarrow> length k = 4" "we_call env = Some \<circ> ws_handle"
  shows "payload_of env (key = None) (2 + ws_ext (length payload) + (if key = None then 0 else 4)) (length payload)
    (ws_wire_frame opcode payload key @ rest) = Some payload"
proof (cases key)
  case None
  then show ?thesis by (simp add: payload_of_def ws_wire_frame_def wsFrame_clear length_ws_prefix)
next
  case (Some k)
  let ?p = "ws_prefix opcode (length payload) True"
  have k: "length k = 4" using Some assms(2) by blast
  have take: "take (2 + ws_ext (length payload) + 4 + length payload) (?p @ k @ mask_ref k 0 payload @ rest) = ?p @ k @ mask_ref k 0 payload"
    using k by (simp add: length_ws_prefix)
  have "ws_handle (OP_MASK # ?p @ k @ mask_ref k 0 payload) = ?p @ k @ payload"
    using ws_handle_masked [of opcode "mask_ref k 0 payload" k] assms(1) k by (simp add: mask_ref_twice)
  then show ?thesis using Some k assms(3) take
    by (simp add: payload_of_def ws_wire_frame_masked [OF assms(1) k] length_ws_prefix del: take_append)
qed


section \<open>A link's reads\<close>

fun ws_reads :: "WsEnv \<Rightarrow> bool \<times> WsFramer \<Rightarrow> bytes list \<Rightarrow> bool \<times> WsFramer" where
  "ws_reads env r [] = r"
| "ws_reads env (ok, f) (c # cs) = (if ok then ws_reads env (ws_read env c f) cs else (False, f))"

lemma ws_enqueue_frame:
  "wf_open (snd (ws_enqueue env opcode payload s)) = wf_open s" "wf_cap (snd (ws_enqueue env opcode payload s)) = wf_cap s"
  "wf_frags (snd (ws_enqueue env opcode payload s)) = wf_frags s" "wf_fragBytes (snd (ws_enqueue env opcode payload s)) = wf_fragBytes s"
  by (simp_all add: ws_enqueue_def ws_frame_def Let_def split: prod.splits option.splits)

lemma ws_deliver_frame [simp]:
  "wf_open (fst (ws_deliver env msg s)) = wf_open s" "wf_client (fst (ws_deliver env msg s)) = wf_client s"
  "wf_fragOpcode (fst (ws_deliver env msg s)) = wf_fragOpcode s" "wf_got (fst (ws_deliver env msg s)) = wf_got s @ [msg]"
  by (simp_all add: ws_deliver_def ws_raiseCap_def ws_discard_st_def Let_def)

lemma ws_deliver_cap: "wf_cap s \<le> we_max env \<Longrightarrow> wf_cap s \<le> wf_cap (fst (ws_deliver env msg s)) \<and> wf_cap (fst (ws_deliver env msg s)) \<le> we_max env"
  by (simp add: ws_deliver_def ws_raiseCap_def ws_discard_st_def Let_def)

lemma ws_dispatch_open: "wf_open (fst (snd (ws_dispatch env opcode payload s))) = wf_open s"
  using ws_enqueue_frame [of env WS_OP_PONG payload s] by (simp add: ws_dispatch_def case_prod_beta Let_def)

lemma ws_accept_open: "wf_open (fst (snd (ws_accept env fin opcode payload s))) = wf_open s"
  by (simp add: ws_accept_def ws_dispatch_open Let_def)

lemma wsHead_bounds:
  "wsHead p masked cap = Head fin opcode h n \<Longrightarrow> h \<le> 14 \<and> n \<le> cap" "wsHead p masked cap = NoHead \<Longrightarrow> pbytes p < 10"
  by (auto simp: wsHead_def head_of_def head_length_def Let_def split: if_splits option.splits)

lemma ws_frames_cases:
  obtains (stay) b where "ws_frames env f = (b, f)" "b \<Longrightarrow> pbytes (wf_parts f) < 14 + wf_cap (wf_st f)"
  | (lost) p where "ws_frames env f = (False, f\<lparr>wf_parts := p\<rparr>)"
  | (accept) fin opcode h n payload ok s d p where "wsHead (wf_parts f) (\<not> wf_client (wf_st f)) (wf_cap (wf_st f)) = Head fin opcode h n"
      "h + n \<le> pbytes (wf_parts f)" "fst (ws_payload env (wf_client (wf_st f)) h n (wf_parts f)) = Some payload"
      "ws_accept env fin opcode payload (wf_st f) = (ok, s, d)"
      "ws_frames env f = (if ok then ws_frames env \<lparr>wf_parts = p, wf_st = s\<rparr> else (False, \<lparr>wf_parts = p, wf_st = s\<rparr>))"
      "pbytes p < pbytes (wf_parts f)" "pieces_ok (wf_parts f) \<Longrightarrow> pieces_ok p"
proof (cases "wsHead (wf_parts f) (\<not> wf_client (wf_st f)) (wf_cap (wf_st f))")
  case (Head fin opcode h n)
  show thesis
  proof (cases "pbytes (wf_parts f) < h + n")
    case True
    with Head wsHead_bounds(1) [OF Head] show thesis by (intro stay [of True]) (simp_all add: ws_frames.simps [of env f] Let_def)
  next
    case False
    let ?pay = "ws_payload env (wf_client (wf_st f)) h n (wf_parts f)"
    show thesis
    proof (cases "fst ?pay")
      case None
      with Head False show thesis by (intro lost) (simp add: ws_frames.simps [of env f] Let_def case_prod_beta)
    next
      case (Some payload)
      obtain ok s d where acc: "ws_accept env fin opcode payload (wf_st f) = (ok, s, d)" by (cases "ws_accept env fin opcode payload (wf_st f)")
      let ?p = "if d then new_Pieces MERGE_BELOW else snd ?pay"
      have "ws_frames env f = (if ok then ws_frames env \<lparr>wf_parts = ?p, wf_st = s\<rparr> else (False, \<lparr>wf_parts = ?p, wf_st = s\<rparr>))"
        using Head False Some acc by (simp add: ws_frames.simps [of env f] Let_def case_prod_beta)
      moreover have "pbytes ?p < pbytes (wf_parts f)"
        using wsHead_size [OF Head] False by (simp add: ws_payload_bytes) (simp add: new_Pieces_def)
      moreover have "pieces_ok ?p" if "pieces_ok (wf_parts f)"
        using that False ws_payload_live(3) [of "wf_parts f" h n] by (simp add: pieces.inv_empty)
      ultimately show thesis using Head False Some acc by (intro accept [of fin opcode h n payload ok s d ?p]) simp_all
    qed
  qed
next
  case NoHead
  with wsHead_bounds(2) [OF NoHead] show thesis by (intro stay [of True]) (simp_all add: ws_frames.simps [of env f] Let_def)
next
  case BadHead
  then show thesis by (intro stay [of False]) (simp_all add: ws_frames.simps [of env f] Let_def)
qed

lemma ws_frames_open: "wf_open (wf_st (snd (ws_frames env f))) = wf_open (wf_st f)"
proof (induction "pbytes (wf_parts f)" arbitrary: f rule: less_induct)
  case less
  show ?case
  proof (cases rule: ws_frames_cases [of env f])
    case (accept fin opcode h n payload ok s d p)
    then show ?thesis using less [of "\<lparr>wf_parts = p, wf_st = s\<rparr>"] ws_accept_open [of env fin opcode payload "wf_st f"] by simp
  qed simp_all
qed

lemma ws_reads_feed:
  assumes "\<And>h. \<not> dropped (we_handle env h)" and "pieces_ok (wf_parts f)" and "wf_open (wf_st f)"
  shows "case feed (ws_step env) (True, wf_st f, pieces_live (wf_parts f)) cs of (ok, s, rest) \<Rightarrow>
    fst (ws_reads env (True, f) cs) = ok \<and> wf_got (wf_st (snd (ws_reads env (True, f) cs))) = wf_got s \<and>
    (ok \<longrightarrow> wf_st (snd (ws_reads env (True, f) cs)) = s \<and> pieces_live (wf_parts (snd (ws_reads env (True, f) cs))) = rest \<and>
      pieces_ok (wf_parts (snd (ws_reads env (True, f) cs))))"
  using assms(2,3)
proof (induction cs arbitrary: f)
  case (Cons c cs)
  let ?g = "f\<lparr>wf_parts := pieces_push c (wf_parts f)\<rparr>"
  have g: "pieces_ok (wf_parts ?g)" "pieces_live (wf_parts ?g) = pieces_live (wf_parts f) @ c"
    using Cons.prems by (simp_all add: pieces.inv_push pieces.live_push)
  obtain ok s rest where run: "run_parser (ws_step env) (wf_st f) (pieces_live (wf_parts f) @ c) = (ok, s, rest)"
    by (cases "run_parser (ws_step env) (wf_st f) (pieces_live (wf_parts f) @ c)")
  have fr: "ws_read env c f = ws_frames env ?g" using Cons.prems(2) by (simp add: ws_read_def Let_def)
  note r = ws_frames_run [where env = env and f = ?g, OF assms(1) g(1), unfolded g(2)]
  show ?case
  proof (cases ok)
    case True
    let ?h = "snd (ws_frames env ?g)"
    have h: "ws_frames env ?g = (True, ?h)" "wf_st ?h = s" "pieces_live (wf_parts ?h) = rest" "pieces_ok (wf_parts ?h)"
      using r run True by (auto intro: prod_eqI)
    moreover have "wf_open (wf_st ?h)" using ws_frames_open [of env ?g] Cons.prems(2) by simp
    ultimately show ?thesis using Cons.IH [of ?h] run True fr by simp
  next
    case False
    have "ws_reads env (ws_frames env ?g) cs = ws_frames env ?g" if "\<not> fst (ws_frames env ?g)"
      using that by (cases "ws_frames env ?g"; cases cs) simp_all
    with False r run fr ws_parser.feed_refused [of env s rest cs] show ?thesis by simp
  qed
qed simp

lemma head_at_Nil [simp]: "head_at [] masked cap = NoHead"
  by (simp add: head_at_def head_of_def)

lemma ws_step_Nil [simp]: "ws_step env s [] = Wait"
  by (simp add: ws_step_def)

text \<open>C38: Once open, the WebSocket framer delivers the same messages and gives the same verdict however the link
  cut its bytes, fragments, control frames and masking included: feeding reads one by one to the framer and its
  piece queue is parsing their concatenation in one go. The module call and the handling of messages are any
  functions, as long as handling does not drop the buffer.\<close>

theorem ws_framer_chunking:
  assumes "\<And>h. \<not> dropped (we_handle env h)" and "wf_open (wf_st f)" and "wf_parts f = new_Pieces MERGE_BELOW"
  shows "fst (ws_reads env (True, f) chunks) = fst (run_parser (ws_step env) (wf_st f) (concat chunks)) \<and>
    wf_got (wf_st (snd (ws_reads env (True, f) chunks))) = wf_got (fst (snd (run_parser (ws_step env) (wf_st f) (concat chunks))))"
proof -
  have new: "pieces_ok (wf_parts f)" "pieces_live (wf_parts f) = []" using assms(3) by (simp_all add: pieces.inv_empty pieces.live_empty)
  note same = ws_parser.feed_concat [where s = "wf_st f" and bs = "[]" and cs = chunks and env = env]
  show ?thesis
    using ws_reads_feed [where env = env and f = f and cs = chunks, OF assms(1) new(1) assms(2)] same
    by (auto simp: new(2) case_prod_beta)
qed

theorem ws_framer_chunking_witness:
  "let env = \<lparr>we_max = 8192, we_handle = \<lambda>_. \<lparr>raised = False, dropped = False\<rparr>, we_call = Some \<circ> ws_handle, we_entropy = \<lambda>_. []\<rparr>;
       f = \<lparr>wf_parts = new_Pieces MERGE_BELOW, wf_st = (ws_initial True MaskPool_new)\<lparr>wf_open := True\<rparr>\<rparr>
   in fst (ws_reads env (True, f) [[2, 1], [5, 128], [1, 6]]) = fst (run_parser (ws_step env) (wf_st f) [2, 1, 5, 128, 1, 6])"
  using ws_framer_chunking [of "\<lparr>we_max = 8192, we_handle = \<lambda>_. \<lparr>raised = False, dropped = False\<rparr>, we_call = Some \<circ> ws_handle, we_entropy = \<lambda>_. []\<rparr>"
    "\<lparr>wf_parts = new_Pieces MERGE_BELOW, wf_st = (ws_initial True MaskPool_new)\<lparr>wf_open := True\<rparr>\<rparr>" "[[2, 1], [5, 128], [1, 6]]"]
  by (simp add: Let_def)

section \<open>Messages sent are messages delivered\<close>

lemma ws_step_sent:
  assumes "we_call env = Some \<circ> ws_handle" "wf_fragOpcode s < 0" "length msg \<le> wf_cap s" "length msg < 2 ^ 32"
    "wf_client s \<longleftrightarrow> key = None" "\<And>k. key = Some k \<Longrightarrow> length k = 4"
  shows "ws_step env s (ws_wire_frame WS_OP_BINARY msg key) = Next (fst (ws_deliver env msg s)) (length (ws_wire_frame WS_OP_BINARY msg key))"
proof -
  let ?w = "ws_wire_frame WS_OP_BINARY msg key" and ?h = "2 + ws_ext (length msg) + (if key = None then 0 else 4)"
  have sendable: "ws_sendable WS_OP_BINARY (length msg)" using assms(4) by (simp add: ws_sendable_def)
  have w: "\<exists>rest. ?w = ws_prefix WS_OP_BINARY (length msg) (key \<noteq> None) @ rest \<and> length rest = (if key = None then 0 else 4) + length msg"
  proof (cases key)
    case None
    then show ?thesis by (simp add: ws_wire_frame_def wsFrame_clear)
  next
    case (Some k)
    with assms(6) [OF Some] show ?thesis by (simp add: ws_wire_frame_masked [OF sendable])
  qed
  then obtain rest where rest: "?w = ws_prefix WS_OP_BINARY (length msg) (key \<noteq> None) @ rest" "length rest = (if key = None then 0 else 4) + length msg"
    by blast
  have len: "length ?w = ?h + length msg" using rest by (simp add: length_ws_prefix)
  have head: "head_at ?w (\<not> wf_client s) (wf_cap s) = Head True WS_OP_BINARY ?h (length msg)"
    unfolding rest(1) using head_at_sent [OF sendable assms(3), of "key \<noteq> None" rest] assms(5) by simp
  have pay: "payload_of env (wf_client s) ?h (length msg) ?w = Some msg"
    using payload_of_sent [OF sendable assms(6,1), of key "[]"] assms(5) by simp
  have acc: "ws_accept env True WS_OP_BINARY msg s = (True, ws_deliver env msg s)"
    using assms(2) by (simp add: ws_accept_def ws_dispatch_def ws_ops)
  show ?thesis unfolding ws_step_def head ws_head.case pay option.case acc using len by (simp add: case_prod_beta)
qed

lemma maskKey_four:
  assumes "\<And>i. length (entropy i) = MASK_POOL_BYTES"
  shows "length (fst (maskKey entropy p)) = 4"
  using assms by (simp add: maskKey_def subarray_def Let_def MASK_POOL_BYTES_def)

lemma ws_send_wire:
  assumes "we_call env = Some \<circ> ws_handle" "\<And>i. length (we_entropy env i) = MASK_POOL_BYTES" "wf_open s" "wf_writable s"
  shows "\<exists>key. (\<not> wf_client s \<longleftrightarrow> key = None) \<and> (\<forall>k. key = Some k \<longrightarrow> length k = 4) \<and>
    wf_wire (ws_send env msg s) = wf_wire s @ [ws_wire_frame WS_OP_BINARY msg key]"
    and "wf_open (ws_send env msg s)" "wf_writable (ws_send env msg s)" "wf_client (ws_send env msg s) = wf_client s"
proof -
  have c: "we_call env x = Some (ws_handle x)" for x using assms(1) by simp
  show "\<exists>key. (\<not> wf_client s \<longleftrightarrow> key = None) \<and> (\<forall>k. key = Some k \<longrightarrow> length k = 4) \<and>
    wf_wire (ws_send env msg s) = wf_wire s @ [ws_wire_frame WS_OP_BINARY msg key]"
  proof (cases "wf_client s")
    case True
    with assms(3,4) maskKey_four [where entropy = "we_entropy env" and p = "wf_mask s", OF assms(2)] show ?thesis
      by (intro exI [of _ "Some (fst (maskKey (we_entropy env) (wf_mask s)))"])
        (simp add: ws_send_def ws_enqueue_def ws_frame_def ws_wire_frame_def c case_prod_beta Let_def)
  next
    case False
    with assms(3,4) show ?thesis by (simp add: ws_send_def ws_enqueue_def ws_frame_def ws_wire_frame_def)
  qed
  show "wf_open (ws_send env msg s)" "wf_writable (ws_send env msg s)" "wf_client (ws_send env msg s) = wf_client s"
    using assms(3,4) by (simp_all add: ws_send_def ws_enqueue_def ws_frame_def c case_prod_beta Let_def)
qed

lemma ws_sends_wire:
  assumes "we_call env = Some \<circ> ws_handle" "\<And>i. length (we_entropy env i) = MASK_POOL_BYTES" "wf_open s" "wf_writable s"
  shows "\<exists>keys. length keys = length msgs \<and> (\<forall>key \<in> set keys. (\<not> wf_client s \<longleftrightarrow> key = None) \<and> (\<forall>k. key = Some k \<longrightarrow> length k = 4)) \<and>
    wf_wire (fold (ws_send env) msgs s) = wf_wire s @ map (\<lambda>(m, key). ws_wire_frame WS_OP_BINARY m key) (zip msgs keys)"
  using assms(3,4)
proof (induction msgs arbitrary: s)
  case (Cons m msgs)
  note one = ws_send_wire [OF assms(1,2) Cons.prems, of m]
  from one(1) obtain key where key: "\<not> wf_client s \<longleftrightarrow> key = None" "\<forall>k. key = Some k \<longrightarrow> length k = 4"
    "wf_wire (ws_send env m s) = wf_wire s @ [ws_wire_frame WS_OP_BINARY m key]" by blast
  from Cons.IH [OF one(2,3)] obtain keys where "length keys = length msgs"
    "\<forall>key \<in> set keys. (\<not> wf_client s \<longleftrightarrow> key = None) \<and> (\<forall>k. key = Some k \<longrightarrow> length k = 4)"
    "wf_wire (fold (ws_send env) msgs (ws_send env m s)) = wf_wire (ws_send env m s) @ map (\<lambda>(m, key). ws_wire_frame WS_OP_BINARY m key) (zip msgs keys)"
    unfolding one(4) by blast
  with key show ?case by (intro exI [of _ "key # keys"]) simp
qed simp

lemma ws_sent_run:
  assumes "we_call env = Some \<circ> ws_handle" "wf_cap s \<le> we_max env" "wf_fragOpcode s < 0"
    and "\<And>m key. (m, key) \<in> set xs \<Longrightarrow> length m \<le> wf_cap s \<and> length m < 2 ^ 32 \<and> (wf_client s \<longleftrightarrow> key = None) \<and> (\<forall>k. key = Some k \<longrightarrow> length k = 4)"
  shows "\<exists>t. run_parser (ws_step env) s (concat (map (\<lambda>(m, key). ws_wire_frame WS_OP_BINARY m key) xs)) = (True, t, []) \<and> wf_got t = wf_got s @ map fst xs"
proof -
  let ?upd = "\<lambda>(m, key :: bytes option) s. fst (ws_deliver env m s)"
  let ?Q = "\<lambda>(m, key) t. wf_fragOpcode t < 0 \<and> length m \<le> wf_cap t \<and> length m < 2 ^ 32 \<and> (wf_client t \<longleftrightarrow> key = None) \<and> (\<forall>k. key = Some k \<longrightarrow> length k = 4)"
  have along: "wf_fragOpcode (fold ?upd ys s) = wf_fragOpcode s \<and> wf_client (fold ?upd ys s) = wf_client s \<and>
      wf_cap s \<le> wf_cap (fold ?upd ys s) \<and> wf_cap (fold ?upd ys s) \<le> we_max env \<and> wf_got (fold ?upd ys s) = wf_got s @ map fst ys" for ys
  proof (induction ys rule: rev_induct)
    case (snoc y ys)
    then show ?case using ws_deliver_cap [of "fold ?upd ys s" env "fst y"] by (cases y) auto
  qed (simp add: assms(2))
  have "run_parser (ws_step env) s (concat (map (\<lambda>(m, key). ws_wire_frame WS_OP_BINARY m key) xs)) = (True, fold ?upd xs s, [])"
  proof (rule ws_parser.run_encoded [where Q = ?Q])
    show "ws_step env t (case x of (m, key) \<Rightarrow> ws_wire_frame WS_OP_BINARY m key) =
        Next (?upd x t) (length (case x of (m, key) \<Rightarrow> ws_wire_frame WS_OP_BINARY m key))" if "?Q x t" for x t
      using that ws_step_sent [OF assms(1)] by (cases x) simp
    show "?Q x (fold ?upd pre s)" if "xs = pre @ x # post" for pre x post
      using that assms(3,4) along [of pre] by (cases x) force
  qed simp
  with along [of xs] show ?thesis by blast
qed



section \<open>What a peer can make a link hold\<close>

definition frags_ok :: "WsState \<Rightarrow> bool" where
  "frags_ok s \<longleftrightarrow> wf_fragBytes s = length (concat (wf_frags s)) \<and> wf_fragBytes s \<le> wf_cap s"

lemma ws_deliver_frags: "frags_ok s \<Longrightarrow> wf_cap s \<le> we_max env \<Longrightarrow> frags_ok (fst (ws_deliver env msg s))"
  by (auto simp: frags_ok_def ws_deliver_def ws_raiseCap_def ws_discard_st_def Let_def)

lemma ws_dispatch_frags:
  assumes "frags_ok s" "wf_cap s \<le> we_max env"
  shows "frags_ok (fst (snd (ws_dispatch env opcode payload s))) \<and> wf_cap (fst (snd (ws_dispatch env opcode payload s))) \<le> we_max env"
  using assms ws_enqueue_frame [of env WS_OP_PONG payload s] ws_deliver_frags [OF assms] ws_deliver_cap [OF assms(2)]
  by (simp add: ws_dispatch_def frags_ok_def [of "snd _"] case_prod_beta Let_def) (simp add: frags_ok_def)

lemma frags_ok_updates:
  "frags_ok (s\<lparr>wf_fragOpcode := x, wf_frags := [p], wf_fragBytes := length p\<rparr>) \<longleftrightarrow> length p \<le> wf_cap s"
  "frags_ok (s\<lparr>wf_fragOpcode := x, wf_frags := [], wf_fragBytes := 0\<rparr>)"
  "frags_ok s \<Longrightarrow> frags_ok (s\<lparr>wf_fragBytes := wf_fragBytes s + length p, wf_frags := wf_frags s @ [p]\<rparr>) \<longleftrightarrow>
    wf_fragBytes s + length p \<le> wf_cap s"
  by (simp_all add: frags_ok_def)

lemma ws_accept_frags:
  assumes "frags_ok s" "wf_cap s \<le> we_max env" "length payload \<le> wf_cap s" "fst (ws_accept env fin opcode payload s)"
  shows "frags_ok (fst (snd (ws_accept env fin opcode payload s))) \<and> wf_cap (fst (snd (ws_accept env fin opcode payload s))) \<le> we_max env"
proof (cases "opcode = WS_OP_CONT")
  case True
  let ?s = "s\<lparr>wf_fragOpcode := -1, wf_frags := [], wf_fragBytes := 0\<rparr>"
  have "frags_ok ?s" by (rule frags_ok_updates)
  from ws_dispatch_frags [OF this, of env "nat (wf_fragOpcode s)" "guest_concatBytes (wf_frags s @ [payload])"] True assms
  show ?thesis by (auto simp: ws_accept_def frags_ok_updates Let_def split: if_splits)
next
  case False
  with assms ws_dispatch_frags [OF assms(1,2), of opcode payload] show ?thesis
    by (auto simp: ws_accept_def frags_ok_updates Let_def split: if_splits)
qed

lemma opMask_length: "length (ws_handle (OP_MASK # frame)) \<le> length frame"
proof (cases "mask_head frame \<le> length frame")
  case True
  then show ?thesis using opMask_ref [OF True] by simp
next
  case False
  have "(OP_MASK # frame) ! 2 = frame ! 1" by (simp add: numeral_eq_Suc)
  with False show ?thesis
    by (auto simp: ws_handle_def opMask_def mask_head_def and_127 Let_def split: if_splits)
qed

lemma ws_payload_length:
  assumes "\<And>frame r. we_call env (OP_MASK # frame) = Some r \<Longrightarrow> length r \<le> length frame"
    and "pieces_ok p" "h + n \<le> pbytes p" "fst (ws_payload env c h n p) = Some payload"
  shows "length payload \<le> n"
  using assms(4) ws_payload_live(1) [OF assms(2,3), of env c] assms(1) [of "take (h + n) (pieces_live p)"]
  by (fastforce simp: payload_of_def split: if_splits)

lemma ws_frames_frags:
  assumes "\<And>frame r. we_call env (OP_MASK # frame) = Some r \<Longrightarrow> length r \<le> length frame"
    and "frags_ok (wf_st f)" "wf_cap (wf_st f) \<le> we_max env" "pieces_ok (wf_parts f)" "ws_frames env f = (True, g)"
  shows "frags_ok (wf_st g) \<and> wf_cap (wf_st g) \<le> we_max env \<and> pieces_ok (wf_parts g) \<and> pbytes (wf_parts g) < 14 + wf_cap (wf_st g)"
  using assms(2-)
proof (induction "pbytes (wf_parts f)" arbitrary: f rule: less_induct)
  case less
  show ?case
  proof (cases rule: ws_frames_cases [of env f])
    case (accept fin opcode h n payload ok s d p)
    have "length payload \<le> wf_cap (wf_st f)"
      using ws_payload_length [OF assms(1) less.prems(3) accept(2,3)] wsHead_size [OF accept(1)] by simp
    with accept less.prems ws_accept_frags [of "wf_st f" env payload fin opcode] less.hyps [of "\<lparr>wf_parts = p, wf_st = s\<rparr>"] show ?thesis
      by (auto split: if_splits)
  qed (use less.prems in simp_all)
qed

text \<open>Before the upgrade the buffer holds exactly what was scanned without finding the end of the head.\<close>

definition ws_pending :: "WsState \<Rightarrow> bytes \<Rightarrow> bool" where
  "ws_pending s bs \<longleftrightarrow> rev [wf_h0 s, wf_h1 s, wf_h2 s, wf_h3 s] = seen bs \<and> wf_headLen s = length bs \<and>
     (\<forall>n. \<not> ends_at n bs) \<and> length bs \<le> MAX_WS_HANDSHAKE"

lemma scan_bytes_window:
  "rev [h0, h1, h2, h3] = seen pre \<Longrightarrow> scan_bytes post (h0, h1, h2, h3, length pre) = (None, g0, g1, g2, g3, m) \<Longrightarrow>
   rev [g0, g1, g2, g3] = seen (pre @ post) \<and> m = length (pre @ post)"
proof (induction post arbitrary: pre h0 h1 h2 h3)
  case (Cons c post)
  have "rev [h1, h2, h3, uint c] = seen (pre @ [c])" by (simp add: seen_snoc flip: Cons.prems(1))
  from Cons.IH [OF this] Cons.prems(2) show ?case by (auto simp: Let_def split: if_splits)
qed simp

lemma scanHead_frame:
  "wf_open (snd (scanHead c s)) = wf_open s" "wf_cap (snd (scanHead c s)) = wf_cap s"
  "frags_ok (snd (scanHead c s)) = frags_ok s" "frags_ok (s\<lparr>wf_open := b\<rparr>) = frags_ok s"
  by (simp_all add: scanHead_def frags_ok_def case_prod_beta Let_def)

lemma scanHead_pending:
  assumes "ws_pending s bs"
  shows "scan_verdict (fst (scanHead c s)) (bs @ c)"
    and "fst (scanHead c s) = None \<Longrightarrow> ws_pending (snd (scanHead c s)) (bs @ c)"
proof -
  note w = assms [unfolded ws_pending_def]
  obtain r g0 g1 g2 g3 m where sc: "scan_bytes c (wf_h0 s, wf_h1 s, wf_h2 s, wf_h3 s, length bs) = (r, g0, g1, g2, g3, m)"
    by (metis prod.collapse)
  have r: "fst (scanHead c s) = r" using sc w by (simp add: scanHead_def)
  show v: "scan_verdict (fst (scanHead c s)) (bs @ c)"
    using scan_bytes_verdict [of "wf_h0 s" "wf_h1 s" "wf_h2 s" "wf_h3 s" bs c] w sc r by simp
  show "ws_pending (snd (scanHead c s)) (bs @ c)" if "fst (scanHead c s) = None"
  proof -
    have "rev [g0, g1, g2, g3] = seen (bs @ c) \<and> m = length (bs @ c)"
      using scan_bytes_window [of "wf_h0 s" "wf_h1 s" "wf_h2 s" "wf_h3 s" bs c] w sc r that by simp
    with v sc w that r show ?thesis by (simp add: ws_pending_def scanHead_def scan_verdict_def)
  qed
qed

definition ws_held :: "WsEnv \<Rightarrow> WsFramer \<Rightarrow> bool" where
  "ws_held env f \<longleftrightarrow> pieces_ok (wf_parts f) \<and> frags_ok (wf_st f) \<and> wf_cap (wf_st f) \<le> we_max env \<and>
     (if wf_open (wf_st f) then pbytes (wf_parts f) < 14 + wf_cap (wf_st f) else ws_pending (wf_st f) (pieces_live (wf_parts f)))"

lemma ws_frames_held:
  assumes "\<And>frame r. we_call env (OP_MASK # frame) = Some r \<Longrightarrow> length r \<le> length frame"
    and "frags_ok (wf_st f)" "wf_cap (wf_st f) \<le> we_max env" "pieces_ok (wf_parts f)" "wf_open (wf_st f)" "fst (ws_frames env f)"
  shows "ws_held env (snd (ws_frames env f))"
  using ws_frames_frags [OF assms(1-4), where g = "snd (ws_frames env f)"] ws_frames_open [of env f] assms(5,6)
  by (simp add: ws_held_def prod_eq_iff)

lemma ws_upgrade_frame:
  "ws_upgrade env sep f = Some (n, s) \<Longrightarrow> n = sep + 4 \<and> wf_cap s = wf_cap (wf_st f) \<and> frags_ok s = frags_ok (wf_st f)"
  by (auto simp: ws_upgrade_def frags_ok_def Let_def split: if_splits option.splits)

lemma ws_read_held:
  assumes call: "\<And>frame r. we_call env (OP_MASK # frame) = Some r \<Longrightarrow> length r \<le> length frame"
    and "ws_held env f" "fst (ws_read env c f)"
  shows "ws_held env (snd (ws_read env c f))"
proof (cases "wf_open (wf_st f)")
  case True
  with assms(2,3) show ?thesis
    by (auto simp: ws_read_def ws_held_def [of env f] Let_def pieces.inv_push intro!: ws_frames_held [OF call])
next
  case False
  let ?s = "snd (scanHead c (wf_st f))" and ?p = "pieces_push c (wf_parts f)"
  have h: "pieces_ok (wf_parts f)" "frags_ok (wf_st f)" "wf_cap (wf_st f) \<le> we_max env" "ws_pending (wf_st f) (pieces_live (wf_parts f))"
    using assms(2) False by (simp_all add: ws_held_def)
  have p: "pieces_ok ?p" "pieces_live ?p = pieces_live (wf_parts f) @ c" using h(1) by (simp_all add: pieces.inv_push pieces.live_push)
  note scan = scanHead_pending [OF h(4), of c]
  show ?thesis
  proof (cases "fst (scanHead c (wf_st f))")
    case None
    with scan(2) h p False show ?thesis by (simp add: ws_read_def ws_held_def scanHead_frame case_prod_beta Let_def)
  next
    case (Some r)
    with assms(3) False obtain n m t where up: "r = Some n" "ws_upgrade env n \<lparr>wf_parts = ?p, wf_st = ?s\<rparr> = Some (m, t)"
      by (auto simp: ws_read_def case_prod_beta Let_def split: option.splits)
    then have "n + 4 \<le> pbytes ?p" using scan(1) Some p by (simp add: scan_verdict_def ends_at_def pieces.size_live)
    with up Some False assms(3) h p ws_upgrade_frame [OF up(2)] show ?thesis
      by (auto simp: ws_read_def scanHead_frame case_prod_beta Let_def pieces.inv_take intro!: ws_frames_held [OF call])
  qed
qed

lemma ws_reads_held:
  assumes "\<And>frame r. we_call env (OP_MASK # frame) = Some r \<Longrightarrow> length r \<le> length frame"
    and "ws_held env f" "fst (ws_reads env (True, f) cs)"
  shows "ws_held env (snd (ws_reads env (True, f) cs))"
  using assms(2,3)
proof (induction cs arbitrary: f)
  case (Cons c cs)
  obtain ok g where read: "ws_read env c f = (ok, g)" by (cases "ws_read env c f")
  with Cons.prems(2) have ok by (cases ok; cases cs) auto
  with ws_read_held [OF assms(1) Cons.prems(1), of c] read Cons show ?case by simp
qed simp

lemma ws_new_held:
  assumes "MAX_HANDSHAKE_FRAME_BYTES \<le> we_max env"
  shows "ws_held env (WsFramer_new env weDialed authority path nonce pool)"
  using assms pieces.inv_empty [of MERGE_BELOW] pieces.live_empty [of MERGE_BELOW]
  by (simp add: WsFramer_new_def ws_held_def ws_prepare_def ws_initial_def frags_ok_def ws_pending_def seen_def ends_at_def
    numeral_eq_Suc split: option.split)

text \<open>C37: A peer cannot make a WebSocket link hold more than its bounds. From the framer's creation, through the
  handshake and any reads it accepts, the buffer holds at most the head's ceiling before the upgrade and less than
  one frame header and one capped frame after it, and the fragments of an unfinished message never add up to
  more than the cap, which never passes the configured one.\<close>

theorem ws_memory_bound:
  assumes "MAX_HANDSHAKE_FRAME_BYTES \<le> we_max env" and "\<And>frame r. we_call env (OP_MASK # frame) = Some r \<Longrightarrow> length r \<le> length frame"
  shows "let (ok, f) = ws_reads env (True, WsFramer_new env weDialed authority path nonce pool) chunks; s = wf_st f in
    ok \<longrightarrow> wf_cap s \<le> we_max env \<and> length (concat (wf_frags s)) \<le> wf_cap s \<and>
      (if wf_open s then pbytes (wf_parts f) < 14 + wf_cap s else pbytes (wf_parts f) \<le> MAX_WS_HANDSHAKE)"
proof -
  let ?r = "ws_reads env (True, WsFramer_new env weDialed authority path nonce pool) chunks"
  have held: "ws_held env (snd ?r)" if "fst ?r"
    using that assms by (intro ws_reads_held ws_new_held) auto
  have "wf_cap (wf_st g) \<le> we_max env \<and> length (concat (wf_frags (wf_st g))) \<le> wf_cap (wf_st g) \<and>
      (if wf_open (wf_st g) then pbytes (wf_parts g) < 14 + wf_cap (wf_st g) else pbytes (wf_parts g) \<le> MAX_WS_HANDSHAKE)"
    if "ws_held env g" for g
    using that by (auto simp: ws_held_def frags_ok_def ws_pending_def pieces.size_live)
  with held show ?thesis by (simp add: case_prod_beta Let_def)
qed

theorem ws_memory_bound_witness:
  "let env = \<lparr>we_max = 8192, we_handle = \<lambda>_. \<lparr>raised = False, dropped = False\<rparr>, we_call = Some \<circ> ws_handle, we_entropy = \<lambda>_. replicate 1024 9\<rparr>;
       (ok, f) = ws_reads env (True, WsFramer_new env False [] [] [] MaskPool_new) [[71, 69], [84]]
   in ok \<and> pbytes (wf_parts f) \<le> MAX_WS_HANDSHAKE"
  using ws_memory_bound [of "\<lparr>we_max = 8192, we_handle = \<lambda>_. \<lparr>raised = False, dropped = False\<rparr>, we_call = Some \<circ> ws_handle, we_entropy = \<lambda>_. replicate 1024 9\<rparr>"
    False "[]" "[]" "[]" MaskPool_new "[[71, 69], [84]]"]
  by (simp add: MAX_HANDSHAKE_FRAME_BYTES_def opMask_length ws_read_def WsFramer_new_def ws_initial_def scanHead_def MAX_WS_HANDSHAKE_def Let_def)

end
