(* ===== verification/Udp_Stream.thy ===== *)
theory Udp_Stream
  imports Guest_Util Complex_Main
begin

text \<open>
  \<^verbatim>\<open>WASM/transport/src/stream.js\<close>: a reliable, ordered byte stream over a datagram path. \<open>Rx\<close> is the receiving half's
  state, \<open>Tx\<close> the sending half's, \<open>UdpStream\<close> both with the stream's life. Packet numbers, offsets and sizes are
  natural numbers; round-trip times, the congestion window and the clock, doubles in the source, are exact
  rationals. \<open>None\<close> stands for the source's \<open>Infinity\<close> (a due time, the threshold, the smallest round trip) or
  \<open>-Infinity\<close> (the start of recovery, of a credit). Each operation is given the clock's reading \<open>t\<close>; the packets it
  hands the path and the reads it hands the link are appended to \<open>us_wire\<close> and \<open>us_reads\<close>. Arming the realm's wake
  is the caller's and is not part of the state.
\<close>

section \<open>Constants\<close>

definition S_DATA :: byte where "S_DATA = 0x64"
definition S_ACK :: byte where "S_ACK = 0x61"
definition S_PROBE :: byte where "S_PROBE = 0x6d"
definition S_CLOSE :: byte where "S_CLOSE = 0x78"
definition PATH_HEADER :: nat where "PATH_HEADER = 9"
definition DATA_HEADER :: nat where "DATA_HEADER = PATH_HEADER + 18"
definition BASE_PACKET :: nat where "BASE_PACKET = 1200"
definition MAX_PACKET :: nat where "MAX_PACKET = 1452"
definition MAX_PROBES :: nat where "MAX_PROBES = 3"
definition INITIAL_WINDOW :: nat where "INITIAL_WINDOW = 10 * BASE_PACKET"
definition MIN_WINDOW :: nat where "MIN_WINDOW = 2 * BASE_PACKET"
definition FLOWS :: nat where "FLOWS = 8"
definition PERSISTENT_PTOS :: nat where "PERSISTENT_PTOS = 3"
definition MAX_SUSPECTS :: nat where "MAX_SUSPECTS = 32"
definition CREDIT :: nat where "CREDIT = 2 ^ 20"
definition MAX_CREDIT :: nat where "MAX_CREDIT = 8 * CREDIT"
definition MIN_CHUNK :: nat where "MIN_CHUNK = 256"
definition MAX_READ :: nat where "MAX_READ = 256 * 1024"
definition MAX_BUFFERED :: nat where "MAX_BUFFERED = 16 * 1024 * 1024"
definition MAX_RANGES :: nat where "MAX_RANGES = 32"
definition ACK_DELAY_MS :: rat where "ACK_DELAY_MS = 25"
definition INITIAL_RTT_MS :: rat where "INITIAL_RTT_MS = 333"
definition KEEPALIVE_MS :: rat where "KEEPALIVE_MS = 5000"
definition SILENT_MS :: rat where "SILENT_MS = 30000"
definition MAX_PTOS :: nat where "MAX_PTOS = 6"
definition DEAD_MS :: rat where "DEAD_MS = 10000"
definition LINGER_MS :: rat where "LINGER_MS = 10000"

abbreviation B :: nat where "B \<equiv> PATH_HEADER"

section \<open>State\<close>

record Sent =
  sp_offset :: nat
  sp_size :: nat
  sp_time :: rat

record Tx =
  tx_unsent :: Pieces
  tx_written :: nat
  tx_nextOffset :: nat
  tx_chunks :: "(nat \<times> bytes) list"
  tx_sentOffsets :: "nat list"
  tx_sentHead :: nat
  tx_lost :: "nat list"
  tx_inFlight :: "(nat \<times> Sent) list"
  tx_oldestPn :: nat
  tx_nextPn :: nat
  tx_largestAcked :: int
  tx_bytesInFlight :: nat
  tx_window :: rat
  tx_threshold :: "rat option"
  tx_recoveryStart :: "rat option"
  tx_suspects :: "nat list"
  tx_undo :: "(rat \<times> rat option) option"
  tx_windowLimited :: bool
  tx_peerCredit :: nat
  tx_srtt :: rat
  tx_rttvar :: rat
  tx_minRtt :: "rat option"
  tx_latestRtt :: rat
  tx_ptoCount :: nat
  tx_lastSentData :: rat
  tx_lossTime :: "rat option"
  tx_packetBytes :: nat
  tx_probes :: "nat list"
  tx_reprobe :: bool

record Rx =
  rx_taken :: nat
  rx_held :: Pieces
  rx_ahead :: "(nat \<times> bytes) list"
  rx_aheadBytes :: nat
  rx_furthest :: nat
  rx_turnDue :: bool
  rx_ranges :: "(nat \<times> nat) list"
  rx_largestAt :: rat
  rx_unacked :: nat
  rx_credit :: nat
  rx_creditAt :: "rat option"
  rx_creditEnd :: nat
  rx_advertised :: nat

record UdpStream =
  us_tx :: Tx
  us_rx :: Rx
  us_out :: bool
  us_reader :: bool
  us_reading :: bool
  us_lastSent :: rat
  us_lastHeard :: rat
  us_recoveryAt :: "rat option"
  us_probeAt :: "rat option"
  us_liveAt :: "rat option"
  us_lingerAt :: "rat option"
  us_closing :: bool
  us_gone :: bool
  us_wire :: "bytes list"
  us_reads :: "bytes list"

definition Tx_new :: Tx where
  "Tx_new = \<lparr>tx_unsent = new_Pieces 0, tx_written = 0, tx_nextOffset = 0, tx_chunks = [], tx_sentOffsets = [], tx_sentHead = 0,
     tx_lost = [], tx_inFlight = [], tx_oldestPn = 0, tx_nextPn = 0, tx_largestAcked = -1, tx_bytesInFlight = 0,
     tx_window = of_nat INITIAL_WINDOW, tx_threshold = None, tx_recoveryStart = None, tx_suspects = [], tx_undo = None,
     tx_windowLimited = False, tx_peerCredit = CREDIT, tx_srtt = INITIAL_RTT_MS, tx_rttvar = INITIAL_RTT_MS / 2,
     tx_minRtt = None, tx_latestRtt = 0, tx_ptoCount = 0, tx_lastSentData = 0, tx_lossTime = None,
     tx_packetBytes = BASE_PACKET, tx_probes = [], tx_reprobe = False\<rparr>"

definition Rx_new :: Rx where
  "Rx_new = \<lparr>rx_taken = 0, rx_held = new_Pieces 0, rx_ahead = [], rx_aheadBytes = 0, rx_furthest = 0, rx_turnDue = False,
     rx_ranges = [], rx_largestAt = 0, rx_unacked = 0, rx_credit = CREDIT, rx_creditAt = None, rx_creditEnd = 0,
     rx_advertised = CREDIT\<rparr>"

definition UdpStream_new :: UdpStream where
  "UdpStream_new = \<lparr>us_tx = Tx_new, us_rx = Rx_new, us_out = False, us_reader = False, us_reading = False, us_lastSent = 0,
     us_lastHeard = 0, us_recoveryAt = None, us_probeAt = None, us_liveAt = None, us_lingerAt = None, us_closing = False,
     us_gone = False, us_wire = [], us_reads = []\<rparr>"

text \<open>Comparisons against the infinities.\<close>

definition before :: "rat \<Rightarrow> rat option \<Rightarrow> bool" where
  "before x y = (case y of None \<Rightarrow> True | Some y \<Rightarrow> x < y)"

definition min_due :: "rat option \<Rightarrow> rat option \<Rightarrow> rat option" where
  "min_due x y = (case x of None \<Rightarrow> y | Some a \<Rightarrow> (case y of None \<Rightarrow> x | Some b \<Rightarrow> Some (min a b)))"

definition since :: "rat \<Rightarrow> rat option \<Rightarrow> bool" where
  "since x y = (case y of None \<Rightarrow> True | Some y \<Rightarrow> x > y)"

definition due :: "rat \<Rightarrow> rat option \<Rightarrow> bool" where
  "due t d = (case d of None \<Rightarrow> False | Some d \<Rightarrow> t \<ge> d)"

section \<open>Packets\<close>

fun names_from :: "bytes \<Rightarrow> nat \<Rightarrow> nat \<Rightarrow> nat \<Rightarrow> bool" where
  "names_from p i 0 pn = False"
| "names_from p i (Suc n) pn =
     (pn \<le> readU48BE p (B + 9 + 12 * i) \<and> pn \<ge> readU48BE p (B + 15 + 12 * i) \<or> names_from p (i + 1) n pn)"

definition names :: "bytes \<Rightarrow> nat \<Rightarrow> nat \<Rightarrow> bool" where
  "names p count pn = names_from p 0 count pn"

definition packet :: "byte \<Rightarrow> nat \<Rightarrow> bytes" where
  "packet kind n = (replicate (B + n) 0)[0 := kind]"

definition emit :: "bytes \<Rightarrow> rat \<Rightarrow> UdpStream \<Rightarrow> UdpStream" where
  "emit p t s = s\<lparr>us_lastSent := t, us_wire := us_wire s @ [p]\<rparr>"

section \<open>Life\<close>

definition fail :: "UdpStream \<Rightarrow> UdpStream" where
  "fail s = (if us_gone s then s else s\<lparr>us_gone := True\<rparr>)"

definition sendClose :: "rat \<Rightarrow> UdpStream \<Rightarrow> UdpStream" where
  "sendClose t s = (if \<not> us_out s then s else (emit (packet S_CLOSE 0) t ^^ 3) s)"

definition end_stream :: "rat \<Rightarrow> UdpStream \<Rightarrow> UdpStream" where
  "end_stream t s = (if us_gone s then s else fail (sendClose t s))"

section \<open>Receiving\<close>

text \<open>The ranges of packet numbers received, \<open>(largest, smallest)\<close>, newest first.\<close>

fun record_loop :: "nat \<Rightarrow> (nat \<times> nat) list \<Rightarrow> (nat \<times> nat) list" where
  "record_loop pn [] = [(pn, pn)]"
| "record_loop pn ((hi, lo) # r) =
     (if lo > pn + 1 then (hi, lo) # record_loop pn r
      else if hi + 1 < pn then (pn, pn) # (hi, lo) # r
      else if pn = hi + 1 then (pn, lo) # r
      else if pn + 1 = lo
      then case r of
             (hi', lo') # r' \<Rightarrow> if hi' + 1 = pn then (hi, lo') # r' else (hi, pn) # r
           | [] \<Rightarrow> [(hi, pn)]
      else (hi, lo) # r)"

definition record_pn :: "nat \<Rightarrow> (nat \<times> nat) list \<Rightarrow> (nat \<times> nat) list" where
  "record_pn pn r = (let r = record_loop pn r in if length r > MAX_RANGES then take MAX_RANGES r else r)"

function prune :: "nat \<Rightarrow> (nat \<times> nat) list \<Rightarrow> (nat \<times> nat) list" where
  "prune floor' r = (if length r > 1 \<and> fst (last r) < floor' then prune floor' (butlast r) else r)"
  by pat_completeness auto
termination by (relation "measure (\<lambda>(_, r). length r)") auto

declare prune.simps [simp del]

definition write_range :: "nat \<times> nat \<times> nat \<Rightarrow> bytes \<Rightarrow> bytes" where
  "write_range = (\<lambda>(i, hi, lo) p. writeU48BE (writeU48BE p (B + 9 + 12 * i) hi) (B + 15 + 12 * i) lo)"

definition ack_packet :: "nat \<Rightarrow> nat \<Rightarrow> (nat \<times> nat) list \<Rightarrow> bytes" where
  "ack_packet credit delay r =
     (let p = packet S_ACK (9 + 12 * length r);
          p = writeU48BE p B credit; p = writeU16BE p (B + 6) delay; p = p[B + 8 := of_nat (length r)]
      in fold write_range (List.enumerate 0 r) p)"

definition sendAck :: "rat \<Rightarrow> UdpStream \<Rightarrow> UdpStream" where
  "sendAck t s =
     (if \<not> us_out s \<or> us_gone s then s
      else let rx = us_rx s; credit = rx_taken rx + rx_credit rx;
               copies = (if credit > rx_advertised rx \<and> rx_furthest rx \<ge> rx_advertised rx then 3 else 1);
               delay = min 0xffff (nat \<lfloor>t - rx_largestAt rx + 1 / 2\<rfloor>)
           in (emit (ack_packet credit delay (rx_ranges rx)) t ^^ copies)
                (s\<lparr>us_rx := rx\<lparr>rx_unacked := 0, rx_advertised := credit\<rparr>\<rparr>))"

definition received :: "rat \<Rightarrow> nat \<Rightarrow> UdpStream \<Rightarrow> UdpStream" where
  "received t pn s =
     (let rx = us_rx s; largest = (case rx_ranges rx of [] \<Rightarrow> -1 | (hi, _) # _ \<Rightarrow> int hi);
          rx = rx\<lparr>rx_ranges := record_pn pn (rx_ranges rx)\<rparr>;
          rx = (if int pn > largest then rx\<lparr>rx_largestAt := us_lastHeard s\<rparr> else rx);
          s = s\<lparr>us_rx := rx\<rparr>;
          s = (if int pn \<noteq> largest + 1 then sendAck t s else s\<lparr>us_rx := (us_rx s)\<lparr>rx_unacked := rx_unacked (us_rx s) + 1\<rparr>\<rparr>)
      in s\<lparr>us_rx := (us_rx s)\<lparr>rx_turnDue := True\<rparr>\<rparr>)"

abbreviation rx_end :: "Rx \<Rightarrow> nat" where
  "rx_end rx \<equiv> rx_taken rx + pbytes (rx_held rx)"

lemma length_mdel_less: "map_of m k = Some v \<Longrightarrow> length (mdel k m) < length m"
  by (induction m) (auto simp: mdel_def less_Suc_eq_le)

text \<open>What waits right behind what is held joins it, one chunk after another.\<close>

function drain :: "Rx \<Rightarrow> Rx" where
  "drain rx =
     (case map_of (rx_ahead rx) (rx_end rx) of
        None \<Rightarrow> rx
      | Some next \<Rightarrow> drain (rx\<lparr>rx_ahead := mdel (rx_end rx) (rx_ahead rx), rx_aheadBytes := rx_aheadBytes rx - (DATA_HEADER + length next),
                               rx_held := pieces_push next (rx_held rx)\<rparr>))"
  by pat_completeness auto
termination by (relation "measure (\<lambda>rx. length (rx_ahead rx))") (auto dest: length_mdel_less)

declare drain.simps [simp del]

definition place :: "nat \<Rightarrow> bytes \<Rightarrow> Rx \<Rightarrow> Rx" where
  "place offset bytes' rx =
     (if offset = rx_end rx
      then let rx = drain (rx\<lparr>rx_held := pieces_push bytes' (rx_held rx)\<rparr>)
           in if rx_end rx = rx_furthest rx \<and> rx_ahead rx \<noteq> [] then rx\<lparr>rx_ahead := [], rx_aheadBytes := 0\<rparr> else rx
      else if offset > rx_end rx \<and> map_of (rx_ahead rx) offset = None
      then rx\<lparr>rx_ahead := mset_at offset bytes' (rx_ahead rx), rx_aheadBytes := rx_aheadBytes rx + (DATA_HEADER + length bytes')\<rparr>
      else rx)"

definition rx_over :: "Rx \<Rightarrow> bool" where
  "rx_over rx \<longleftrightarrow> rx_aheadBytes rx > 2 * rx_credit rx \<or> (pieces_slices (rx_held rx) + length (rx_ahead rx)) * MIN_CHUNK > 2 * rx_credit rx"

definition onChunk :: "rat \<Rightarrow> nat \<Rightarrow> nat \<Rightarrow> nat \<Rightarrow> bytes \<Rightarrow> UdpStream \<Rightarrow> UdpStream" where
  "onChunk t pn offset floor' bytes' s =
     (if offset + length bytes' > rx_taken (us_rx s) + rx_credit (us_rx s) then s
      else let s = received t pn s; rx = us_rx s;
               rx = rx\<lparr>rx_ranges := prune floor' (rx_ranges rx), rx_furthest := max (rx_furthest rx) (offset + length bytes')\<rparr>;
               rx = place offset bytes' rx;
               s = s\<lparr>us_rx := rx\<rparr>
           in if rx_over rx then fail s else s)"

text \<open>One pass hands over one read, which sets \<open>reading\<close>: the source's loop runs at most once.\<close>

definition hand_over :: "UdpStream \<Rightarrow> UdpStream" where
  "hand_over s =
     (let rx = us_rx s in
      if \<not> us_reading s \<and> us_reader s \<and> pbytes (rx_held rx) > 0 \<and> \<not> us_gone s
      then let (bytes', held) = pieces_take (min (pbytes (rx_held rx)) MAX_READ) (rx_held rx)
           in s\<lparr>us_rx := rx\<lparr>rx_held := held, rx_taken := rx_taken rx + length bytes'\<rparr>, us_reading := True, us_reads := us_reads s @ [bytes']\<rparr>
      else s)"

definition tune_credit :: "rat \<Rightarrow> rat \<Rightarrow> Rx \<Rightarrow> Rx" where
  "tune_credit t srtt rx =
     (if rx_taken rx \<ge> rx_creditEnd rx
      then let credit = (case rx_creditAt rx of
                           Some at' \<Rightarrow> if t - at' < 2 * srtt then min (2 * rx_credit rx) MAX_CREDIT else rx_credit rx
                         | None \<Rightarrow> rx_credit rx)
           in rx\<lparr>rx_credit := credit, rx_creditAt := Some t, rx_creditEnd := rx_taken rx + credit\<rparr>
      else rx)"

definition deliver :: "rat \<Rightarrow> UdpStream \<Rightarrow> UdpStream" where
  "deliver t s =
     (let s = hand_over s; s = s\<lparr>us_rx := tune_credit t (tx_srtt (us_tx s)) (us_rx s)\<rparr>; rx = us_rx s
      in if 2 * (rx_taken rx + rx_credit rx) \<ge> rx_credit rx + 2 * rx_advertised rx then sendAck t s else s)"

definition readDone :: "rat \<Rightarrow> UdpStream \<Rightarrow> UdpStream" where
  "readDone t s = deliver t (s\<lparr>us_reading := False\<rparr>)"

definition reader :: "rat \<Rightarrow> UdpStream \<Rightarrow> UdpStream" where
  "reader t s = deliver t (s\<lparr>us_reader := True\<rparr>)"

definition turn :: "rat \<Rightarrow> UdpStream \<Rightarrow> UdpStream" where
  "turn t s =
     (let s = deliver t (s\<lparr>us_rx := (us_rx s)\<lparr>rx_turnDue := False\<rparr>\<rparr>)
      in if rx_unacked (us_rx s) > 0 then sendAck t s else s)"

section \<open>Sending\<close>

subsection \<open>Round trips and loss\<close>

definition sample :: "rat \<Rightarrow> rat \<Rightarrow> Tx \<Rightarrow> Tx" where
  "sample latest delay tx =
     (let tx = tx\<lparr>tx_latestRtt := latest\<rparr> in
      case tx_minRtt tx of
        None \<Rightarrow> tx\<lparr>tx_minRtt := Some latest, tx_srtt := latest, tx_rttvar := latest / 2\<rparr>
      | Some m \<Rightarrow>
          let m = min m latest; adjusted = (if latest - delay \<ge> m then latest - delay else latest)
          in tx\<lparr>tx_minRtt := Some m, tx_rttvar := 3 / 4 * tx_rttvar tx + 1 / 4 * \<bar>tx_srtt tx - adjusted\<bar>,
               tx_srtt := 7 / 8 * tx_srtt tx + 1 / 8 * adjusted\<rparr>)"

definition pto :: "Tx \<Rightarrow> rat" where
  "pto tx = tx_srtt tx + max (4 * tx_rttvar tx) 1 + ACK_DELAY_MS"

function advanceOldest :: "Tx \<Rightarrow> Tx" where
  "advanceOldest tx =
     (if tx_oldestPn tx < tx_nextPn tx \<and> map_of (tx_inFlight tx) (tx_oldestPn tx) = None
      then advanceOldest (tx\<lparr>tx_oldestPn := tx_oldestPn tx + 1\<rparr>) else tx)"
  by pat_completeness auto
termination by (relation "measure (\<lambda>tx. tx_nextPn tx - tx_oldestPn tx)") auto

declare advanceOldest.simps [simp del]

definition set_add :: "'a \<Rightarrow> 'a list \<Rightarrow> 'a list" where
  "set_add x xs = (if x \<in> set xs then xs else xs @ [x])"

text \<open>
  One packet of the walk over those an ack has passed. Besides the state it carries the latest send time of a loss,
  the send time a run of losses began, whether a run was long enough to be persistent, and the losses.
\<close>

record Loss =
  ls_sentAt :: "rat option"
  ls_runFrom :: "rat option"
  ls_persistent :: bool
  ls_lost :: "nat list"

definition later :: "rat option \<Rightarrow> rat \<Rightarrow> rat option" where
  "later x y = (case x of None \<Rightarrow> Some y | Some x \<Rightarrow> Some (max x y))"

definition loss_step :: "rat \<Rightarrow> rat \<Rightarrow> rat \<Rightarrow> nat \<Rightarrow> Tx \<times> Loss \<Rightarrow> Tx \<times> Loss" where
  "loss_step t delay persistence pn = (\<lambda>(tx, l).
     case map_of (tx_inFlight tx) pn of
       None \<Rightarrow> (tx, l\<lparr>ls_runFrom := None\<rparr>)
     | Some s \<Rightarrow>
         if tx_largestAcked tx - int pn \<ge> 3 \<or> sp_time s \<le> t - delay
         then let tx = tx\<lparr>tx_inFlight := mdel pn (tx_inFlight tx), tx_bytesInFlight := tx_bytesInFlight tx - sp_size s,
                          tx_lost := (if map_of (tx_chunks tx) (sp_offset s) \<noteq> None then set_add (sp_offset s) (tx_lost tx) else tx_lost tx)\<rparr>;
                  l = l\<lparr>ls_sentAt := later (ls_sentAt l) (sp_time s), ls_lost := ls_lost l @ [pn]\<rparr>
              in if \<not> since (sp_time s) (tx_recoveryStart tx) then (tx, l)
                 else case ls_runFrom l of
                        None \<Rightarrow> (tx, l\<lparr>ls_runFrom := Some (sp_time s)\<rparr>)
                      | Some r \<Rightarrow> (tx, if sp_time s - r > persistence then l\<lparr>ls_persistent := True\<rparr> else l)
         else (tx\<lparr>tx_lossTime := min_due (tx_lossTime tx) (Some (sp_time s + delay))\<rparr>, l))"

text \<open>The cut, once per loss episode, and the suspects whose late acks would undo it.\<close>

definition cut_window :: "rat \<Rightarrow> Loss \<Rightarrow> Tx \<Rightarrow> Tx" where
  "cut_window t l tx =
     (case ls_sentAt l of
        None \<Rightarrow> tx
      | Some at' \<Rightarrow>
          if since at' (tx_recoveryStart tx)
          then let w = max (tx_window tx * (1 - 1 / (2 * of_nat FLOWS))) (of_nat MIN_WINDOW)
               in tx\<lparr>tx_recoveryStart := Some t, tx_undo := Some (tx_window tx, tx_threshold tx), tx_suspects := [],
                    tx_threshold := Some w, tx_window := (if ls_persistent l then of_nat MIN_WINDOW else w)\<rparr>
          else tx)"

definition keep_suspects :: "nat list \<Rightarrow> Tx \<Rightarrow> Tx" where
  "keep_suspects lost tx =
     (if tx_undo tx = None then tx
      else if length (tx_suspects tx) + length lost > MAX_SUSPECTS then tx\<lparr>tx_undo := None, tx_suspects := []\<rparr>
      else tx\<lparr>tx_suspects := tx_suspects tx @ lost\<rparr>)"

definition detectLoss :: "rat \<Rightarrow> Tx \<Rightarrow> Tx" where
  "detectLoss t tx =
     (let tx = tx\<lparr>tx_lossTime := None\<rparr>;
          delay = max (9 / 8 * max (tx_latestRtt tx) (tx_srtt tx)) 1;
          persistence = of_nat PERSISTENT_PTOS * pto tx;
          tx = advanceOldest tx;
          (tx, l) = fold (loss_step t delay persistence) [tx_oldestPn tx..<nat (tx_largestAcked tx)]
                      (tx, \<lparr>ls_sentAt = None, ls_runFrom = None, ls_persistent = False, ls_lost = []\<rparr>)
      in advanceOldest (keep_suspects (ls_lost l) (cut_window t l tx)))"

subsection \<open>Chunks\<close>

function skip_acked :: "Tx \<Rightarrow> Tx" where
  "skip_acked tx =
     (if tx_sentHead tx < length (tx_sentOffsets tx) \<and> map_of (tx_chunks tx) (tx_sentOffsets tx ! tx_sentHead tx) = None
      then skip_acked (tx\<lparr>tx_sentHead := tx_sentHead tx + 1\<rparr>) else tx)"
  by pat_completeness auto
termination by (relation "measure (\<lambda>tx. length (tx_sentOffsets tx) - tx_sentHead tx)") auto

declare skip_acked.simps [simp del]

text \<open>The oldest chunk not acked, \<open>None\<close> for the source's -1.\<close>

definition oldestChunk :: "Tx \<Rightarrow> nat option \<times> Tx" where
  "oldestChunk tx =
     (let tx = skip_acked tx;
          tx = (if tx_sentHead tx > 1024 \<and> tx_sentHead tx * 2 > length (tx_sentOffsets tx)
                then tx\<lparr>tx_sentOffsets := drop (tx_sentHead tx) (tx_sentOffsets tx), tx_sentHead := 0\<rparr> else tx)
      in (elem_at (tx_sentOffsets tx) (tx_sentHead tx), tx))"

definition buffered :: "Tx \<Rightarrow> nat \<times> Tx" where
  "buffered tx = (let (oldest, tx) = oldestChunk tx in (tx_written tx - (case oldest of None \<Rightarrow> tx_nextOffset tx | Some o' \<Rightarrow> o'), tx))"

text \<open>Where the list search of \<open>fit\<close> puts the rest: behind the chunk's own entry, in front when it has none.\<close>

definition behind :: "nat \<Rightarrow> nat \<Rightarrow> nat list \<Rightarrow> nat" where
  "behind x from' xs = (case find (\<lambda>i. xs ! i = x) [from'..<length xs] of Some i \<Rightarrow> i + 1 | None \<Rightarrow> 0)"

definition fit :: "nat \<Rightarrow> bytes \<Rightarrow> Tx \<Rightarrow> Tx" where
  "fit offset chunk tx =
     (let m = tx_packetBytes tx - DATA_HEADER in
      if length chunk \<le> m then tx
      else let rest = offset + m; at' = behind offset (tx_sentHead tx) (tx_sentOffsets tx)
           in tx\<lparr>tx_chunks := mset_at rest (drop m chunk) (mset_at offset (take m chunk) (tx_chunks tx)),
                tx_sentOffsets := take at' (tx_sentOffsets tx) @ [rest] @ drop at' (tx_sentOffsets tx),
                tx_lost := set_add rest (tx_lost tx)\<rparr>)"

text \<open>The first lost offset whose chunk is still there; the ones before it leave the set.\<close>

fun next_lost :: "nat list \<Rightarrow> (nat \<times> bytes) list \<Rightarrow> (nat \<times> bytes) option \<times> nat list" where
  "next_lost [] chunks = (None, [])"
| "next_lost (offset # lost) chunks =
     (case map_of chunks offset of Some chunk \<Rightarrow> (Some (offset, chunk), lost) | None \<Rightarrow> next_lost lost chunks)"

definition new_chunk_size :: "Tx \<Rightarrow> nat" where
  "new_chunk_size tx = min (pbytes (tx_unsent tx)) (min (tx_packetBytes tx - DATA_HEADER) (tx_peerCredit tx - tx_nextOffset tx))"

definition nextChunk :: "bool \<Rightarrow> Tx \<Rightarrow> nat option \<times> Tx" where
  "nextChunk probe tx =
     (let (lost, rest) = next_lost (tx_lost tx) (tx_chunks tx); tx = tx\<lparr>tx_lost := rest\<rparr> in
      case lost of
        Some (offset, chunk) \<Rightarrow> (Some offset, fit offset chunk tx)
      | None \<Rightarrow>
          let n = new_chunk_size tx in
          if n > 0
          then let offset = tx_nextOffset tx; (bytes', unsent) = pieces_take n (tx_unsent tx)
               in (Some offset, tx\<lparr>tx_chunks := mset_at offset bytes' (tx_chunks tx), tx_unsent := unsent,
                      tx_nextOffset := tx_nextOffset tx + n, tx_sentOffsets := tx_sentOffsets tx @ [offset]\<rparr>)
          else if probe
          then case oldestChunk tx of
                 (Some offset, tx) \<Rightarrow> (case map_of (tx_chunks tx) offset of Some chunk \<Rightarrow> (Some offset, fit offset chunk tx) | None \<Rightarrow> (None, tx))
               | (None, tx) \<Rightarrow> (None, tx)
          else (None, tx))"

definition data_packet :: "nat \<Rightarrow> nat \<Rightarrow> nat \<Rightarrow> bytes \<Rightarrow> bytes" where
  "data_packet pn offset floor' chunk =
     (let p = packet S_DATA (18 + length chunk);
          p = writeU48BE p B pn; p = writeU48BE p (B + 6) offset; p = writeU48BE p (B + 12) floor'
      in take (B + 18) p @ chunk)"

definition sendChunk :: "rat \<Rightarrow> nat \<Rightarrow> bytes \<Rightarrow> UdpStream \<Rightarrow> UdpStream" where
  "sendChunk t offset chunk s =
     (let tx = us_tx s; pn = tx_nextPn tx;
          floor' = (case tx_probes tx of [] \<Rightarrow> tx_oldestPn tx | b # _ \<Rightarrow> min (tx_oldestPn tx) b);
          p = data_packet pn offset floor' chunk;
          tx = tx\<lparr>tx_nextPn := pn + 1, tx_inFlight := mset_at pn \<lparr>sp_offset = offset, sp_size = length p, sp_time = t\<rparr> (tx_inFlight tx),
                 tx_bytesInFlight := tx_bytesInFlight tx + length p, tx_lastSentData := t\<rparr>
      in emit p t (s\<lparr>us_tx := tx\<rparr>))"

subsection \<open>Recovery and probes\<close>

definition recoveryDue :: "Tx \<Rightarrow> rat" where
  "recoveryDue tx = (case tx_lossTime tx of Some x \<Rightarrow> x | None \<Rightarrow> tx_lastSentData tx + pto tx * 2 ^ tx_ptoCount tx)"

definition arm :: "UdpStream \<Rightarrow> UdpStream" where
  "arm s =
     (if us_gone s \<or> tx_inFlight (us_tx s) = [] then s
      else let at' = recoveryDue (us_tx s) in if before at' (us_recoveryAt s) then s\<lparr>us_recoveryAt := Some at'\<rparr> else s)"

text \<open>The room left in the window: what the sending loop of \<open>flush\<close> uses up.\<close>

definition window_room :: "Tx \<Rightarrow> nat" where
  "window_room tx = (if of_nat (tx_bytesInFlight tx) \<le> tx_window tx then Suc (nat \<lfloor>tx_window tx - of_nat (tx_bytesInFlight tx)\<rfloor>) else 0)"

function flush_loop :: "rat \<Rightarrow> nat \<Rightarrow> UdpStream \<Rightarrow> UdpStream" where
  "flush_loop t probes s =
     (let tx = us_tx s in
      if probes = 0 \<and> of_nat (tx_bytesInFlight tx + tx_packetBytes tx) > tx_window tx
      then s\<lparr>us_tx := tx\<lparr>tx_windowLimited := tx_lost tx \<noteq> [] \<or> pbytes (tx_unsent tx) > 0 \<and> tx_nextOffset tx < tx_peerCredit tx\<rparr>\<rparr>
      else case nextChunk (probes > 0) tx of
             (None, tx) \<Rightarrow> s\<lparr>us_tx := tx\<lparr>tx_windowLimited := False\<rparr>\<rparr>
           | (Some offset, tx) \<Rightarrow>
               (case map_of (tx_chunks tx) offset of
                  None \<Rightarrow> s\<lparr>us_tx := tx\<rparr>
                | Some chunk \<Rightarrow> flush_loop t (probes - 1) (sendChunk t offset chunk (s\<lparr>us_tx := tx\<rparr>))))"
  by pat_completeness auto

lemma skip_acked_frame:
  "tx_bytesInFlight (skip_acked tx) = tx_bytesInFlight tx \<and> tx_window (skip_acked tx) = tx_window tx"
  by (induction tx rule: skip_acked.induct) (subst (1 2) skip_acked.simps, simp)

lemma oldestChunk_frame:
  "oldestChunk tx = (x, tx') \<Longrightarrow> tx_bytesInFlight tx' = tx_bytesInFlight tx \<and> tx_window tx' = tx_window tx"
  using skip_acked_frame [of tx] by (auto simp: oldestChunk_def Let_def split: if_splits)

lemma fit_frame: "tx_bytesInFlight (fit o' c tx) = tx_bytesInFlight tx" "tx_window (fit o' c tx) = tx_window tx"
  by (simp_all add: fit_def Let_def)

lemma nextChunk_frame:
  "nextChunk probe tx = (x, tx') \<Longrightarrow> tx_bytesInFlight tx' = tx_bytesInFlight tx \<and> tx_window tx' = tx_window tx"
  by (auto simp: nextChunk_def Let_def fit_frame dest!: oldestChunk_frame split: prod.splits option.splits if_splits)

lemma sendChunk_frame:
  "tx_bytesInFlight (us_tx (sendChunk t o' c s)) \<ge> tx_bytesInFlight (us_tx s) + 1" "tx_window (us_tx (sendChunk t o' c s)) = tx_window (us_tx s)"
  by (simp_all add: sendChunk_def emit_def Let_def data_packet_def packet_def PATH_HEADER_def)

lemma window_room_less:
  assumes "b < b'" "of_nat b \<le> (w :: rat)"
  shows "(if of_nat b' \<le> w then Suc (nat \<lfloor>w - of_nat b'\<rfloor>) else 0) < Suc (nat \<lfloor>w - of_nat b\<rfloor>)"
proof (cases "of_nat b' \<le> w")
  case True
  have "of_nat b + 1 \<le> (of_nat b' :: rat)" using assms(1) by (metis Suc_eq_plus1 Suc_leI of_nat_1 of_nat_add of_nat_mono)
  then have "\<lfloor>w - of_nat b'\<rfloor> + 1 \<le> \<lfloor>w - of_nat b\<rfloor>" by (simp add: le_floor_iff) linarith
  moreover have "0 \<le> \<lfloor>w - of_nat b'\<rfloor>" using True by simp
  ultimately have "nat \<lfloor>w - of_nat b'\<rfloor> < nat \<lfloor>w - of_nat b\<rfloor>" by linarith
  with True show ?thesis by auto
qed simp

lemma window_room_shrinks:
  assumes "tx_bytesInFlight tx < tx_bytesInFlight tx'" "tx_window tx' = tx_window tx"
  shows "window_room tx' \<le> window_room tx" "of_nat (tx_bytesInFlight tx) \<le> tx_window tx \<Longrightarrow> window_room tx' < window_room tx"
proof -
  show less: "window_room tx' < window_room tx" if "of_nat (tx_bytesInFlight tx) \<le> tx_window tx"
    unfolding window_room_def assms(2) if_P [OF that] by (rule window_room_less [OF assms(1) that])
  show "window_room tx' \<le> window_room tx"
  proof (cases "of_nat (tx_bytesInFlight tx) \<le> tx_window tx")
    case False
    then have "\<not> of_nat (tx_bytesInFlight tx') \<le> tx_window tx'" using assms of_nat_mono [of "tx_bytesInFlight tx" "tx_bytesInFlight tx'", where 'a = rat] by simp
    then show ?thesis by (simp add: window_room_def)
  qed (use less in simp)
qed

termination flush_loop
proof (relation "measure (\<lambda>(t, probes, s). probes + window_room (us_tx s))", simp, goal_cases)
  case (1 t probes s tx p tx' offset chunk)
  let ?s' = "sendChunk t offset chunk (s\<lparr>us_tx := tx'\<rparr>)"
  have f: "tx_bytesInFlight tx' = tx_bytesInFlight tx" "tx_window tx' = tx_window tx" using nextChunk_frame 1 by metis+
  have grow: "tx_bytesInFlight tx < tx_bytesInFlight (us_tx ?s')" and w: "tx_window (us_tx ?s') = tx_window tx"
    using sendChunk_frame [where t = t and o' = offset and c = chunk and s = "s\<lparr>us_tx := tx'\<rparr>"] f by simp_all
  show ?case
  proof (cases "probes = 0")
    case True
    with 1 have "of_nat (tx_bytesInFlight tx) \<le> tx_window tx" using of_nat_0_le_iff [of "tx_packetBytes tx", where 'a = rat] by (simp add: not_less)
    with window_room_shrinks(2) [OF grow w] True 1(1) show ?thesis by simp
  next
    case False
    with window_room_shrinks(1) [OF grow w] 1(1) show ?thesis by simp
  qed
qed

declare flush_loop.simps [simp del]

definition flush :: "rat \<Rightarrow> nat \<Rightarrow> UdpStream \<Rightarrow> UdpStream" where
  "flush t probes s = (if \<not> us_out s \<or> us_gone s then s else arm (flush_loop t probes s))"

definition sendProbe :: "rat \<Rightarrow> UdpStream \<Rightarrow> UdpStream" where
  "sendProbe t s =
     (let s = s\<lparr>us_probeAt := None\<rparr>; tx = us_tx s in
      if us_gone s \<or> \<not> us_out s then s
      else if length (tx_probes tx) \<ge> MAX_PROBES then s\<lparr>us_tx := tx\<lparr>tx_probes := []\<rparr>\<rparr>
      else let pn = tx_nextPn tx; p = writeU48BE (packet S_PROBE (MAX_PACKET - B)) B pn;
               s = emit p t (s\<lparr>us_tx := tx\<lparr>tx_nextPn := pn + 1, tx_probes := tx_probes tx @ [pn]\<rparr>\<rparr>)
           in s\<lparr>us_probeAt := Some (t + pto (us_tx s))\<rparr>)"

definition startProbe :: "rat \<Rightarrow> UdpStream \<Rightarrow> UdpStream" where
  "startProbe t s = sendProbe t (s\<lparr>us_tx := (us_tx s)\<lparr>tx_probes := []\<rparr>\<rparr>)"

definition probeAcked :: "bytes \<Rightarrow> nat \<Rightarrow> UdpStream \<Rightarrow> UdpStream" where
  "probeAcked p count s =
     (if list_ex (names p count) (tx_probes (us_tx s))
      then s\<lparr>us_probeAt := None, us_tx := (us_tx s)\<lparr>tx_probes := [], tx_packetBytes := MAX_PACKET\<rparr>\<rparr> else s)"

definition peerGone :: "rat \<Rightarrow> UdpStream \<Rightarrow> bool" where
  "peerGone t s \<longleftrightarrow> tx_inFlight (us_tx s) \<noteq> [] \<and> tx_ptoCount (us_tx s) \<ge> MAX_PTOS \<and> t - us_lastHeard s > DEAD_MS"

definition onRecovery :: "rat \<Rightarrow> UdpStream \<Rightarrow> UdpStream" where
  "onRecovery t s =
     (let s = s\<lparr>us_recoveryAt := None\<rparr>; tx = us_tx s in
      if tx_inFlight tx = [] then s
      else if t < recoveryDue tx then arm s
      else if tx_lossTime tx \<noteq> None then flush t 0 (s\<lparr>us_tx := detectLoss t tx\<rparr>)
      else if peerGone t s then end_stream t s
      else let tx = (if tx_ptoCount tx \<ge> 1 \<and> tx_packetBytes tx > BASE_PACKET then tx\<lparr>tx_packetBytes := BASE_PACKET, tx_reprobe := True\<rparr> else tx)
           in flush t 2 (s\<lparr>us_tx := tx\<lparr>tx_ptoCount := tx_ptoCount tx + 1\<rparr>\<rparr>))"

subsection \<open>Acks\<close>

text \<open>One packet number an ack names; \<open>newest\<close> is the one the ack's largest number names.\<close>

definition ack_pn :: "int \<Rightarrow> int \<Rightarrow> Tx \<times> Sent option \<Rightarrow> Tx \<times> Sent option" where
  "ack_pn largest pn = (\<lambda>(tx, newest).
     case map_of (tx_inFlight tx) (nat pn) of
       None \<Rightarrow> (tx, newest)
     | Some s \<Rightarrow>
         (tx\<lparr>tx_inFlight := mdel (nat pn) (tx_inFlight tx), tx_bytesInFlight := tx_bytesInFlight tx - sp_size s,
             tx_chunks := mdel (sp_offset s) (tx_chunks tx), tx_ptoCount := 0,
             tx_window := (if since (sp_time s) (tx_recoveryStart tx) \<and> tx_windowLimited tx
                           then tx_window tx + (if before (tx_window tx) (tx_threshold tx) then of_nat (sp_size s)
                                                else of_nat (FLOWS * tx_packetBytes tx * sp_size s) / tx_window tx)
                           else tx_window tx)\<rparr>,
          if pn = largest then Some s else newest))"

text \<open>The ranges, newest first, each clamped below the one before it.\<close>

fun ack_ranges :: "bytes \<Rightarrow> int \<Rightarrow> int \<Rightarrow> nat \<Rightarrow> nat \<Rightarrow> int option \<Rightarrow> Tx \<times> Sent option \<Rightarrow> Tx \<times> Sent option" where
  "ack_ranges p sent largest i 0 below acc = acc"
| "ack_ranges p sent largest i (Suc n) below acc =
     (let hi = min (int (readU48BE p (B + 9 + 12 * i))) sent; hi = (case below of None \<Rightarrow> hi | Some b \<Rightarrow> min hi b);
          lo = max (int (readU48BE p (B + 15 + 12 * i))) (int (tx_oldestPn (fst acc)))
      in if lo > hi then ack_ranges p sent largest (i + 1) n below acc
         else ack_ranges p sent largest (i + 1) n (Some (lo - 1)) (fold (ack_pn largest) [lo..hi] acc))"

definition clear_suspects :: "bytes \<Rightarrow> nat \<Rightarrow> Tx \<Rightarrow> Tx" where
  "clear_suspects p count tx =
     (let tx = tx\<lparr>tx_suspects := filter (\<lambda>pn. \<not> names p count pn) (tx_suspects tx)\<rparr>
      in case tx_undo tx of
           Some (w, th) \<Rightarrow> if tx_suspects tx = [] then tx\<lparr>tx_window := max (tx_window tx) w, tx_threshold := th, tx_undo := None\<rparr> else tx
         | None \<Rightarrow> tx)"

definition ack_named :: "rat \<Rightarrow> bytes \<Rightarrow> nat \<Rightarrow> UdpStream \<Rightarrow> UdpStream" where
  "ack_named t p count s =
     (let sent = int (tx_nextPn (us_tx s)) - 1; largest = min (int (readU48BE p (B + 9))) sent;
          (tx, newest) = ack_ranges p sent largest 0 count None (us_tx s, None);
          s = s\<lparr>us_tx := tx\<rparr>;
          s = (if tx_probes (us_tx s) \<noteq> [] then probeAcked p count s else s);
          tx = clear_suspects p count (us_tx s);
          tx = advanceOldest (tx\<lparr>tx_largestAcked := max (tx_largestAcked tx) largest\<rparr>);
          tx = (case newest of Some x \<Rightarrow> sample (t - sp_time x) (of_nat (readU16BE p (B + 6))) tx | None \<Rightarrow> tx);
          tx = detectLoss t tx
      in if tx_reprobe tx \<and> tx_ptoCount tx = 0 then startProbe t (s\<lparr>us_tx := tx\<lparr>tx_reprobe := False\<rparr>\<rparr>) else s\<lparr>us_tx := tx\<rparr>)"

definition onAck :: "rat \<Rightarrow> bytes \<Rightarrow> UdpStream \<Rightarrow> UdpStream" where
  "onAck t p s =
     (let s = s\<lparr>us_tx := (us_tx s)\<lparr>tx_peerCredit := max (tx_peerCredit (us_tx s)) (readU48BE p B)\<rparr>\<rparr>;
          count = unat (num_at p (B + 8));
          s = (if count > 0 then ack_named t p count s else s)
      in if us_closing s
         then let (n, tx) = buffered (us_tx s); s = s\<lparr>us_tx := tx\<rparr> in if n = 0 then end_stream t s else flush t 0 s
         else flush t 0 s)"

section \<open>The stream's operations\<close>

definition start :: "rat \<Rightarrow> UdpStream \<Rightarrow> UdpStream" where
  "start t s =
     (if us_gone s \<or> us_out s then s
      else let s = s\<lparr>us_out := True, us_lastHeard := t, us_lastSent := t, us_liveAt := Some (t + KEEPALIVE_MS)\<rparr>;
               s = (if rx_ranges (us_rx s) \<noteq> [] then sendAck t s else s);
               s = flush t 0 s
           in s\<lparr>us_tx := (us_tx s)\<lparr>tx_reprobe := True\<rparr>\<rparr>)"

definition repath :: "rat \<Rightarrow> rat \<Rightarrow> UdpStream \<Rightarrow> UdpStream" where
  "repath t rttMs s =
     (if us_gone s then s
      else let tx = (us_tx s)\<lparr>tx_window := of_nat INITIAL_WINDOW, tx_threshold := None, tx_recoveryStart := Some t, tx_undo := None,
                       tx_suspects := [], tx_minRtt := None\<rparr>;
               tx = (sample rttMs 0 tx)\<lparr>tx_ptoCount := 0, tx_packetBytes := BASE_PACKET, tx_reprobe := False\<rparr>
           in startProbe t (flush t 0 (sendAck t (s\<lparr>us_tx := tx\<rparr>))))"

definition receive :: "rat \<Rightarrow> bytes \<Rightarrow> UdpStream \<Rightarrow> UdpStream" where
  "receive t p s =
     (if us_gone s then s
      else let s = s\<lparr>us_lastHeard := t\<rparr>; n = int (length p) - int B; kind = num_at p 0 in
           if kind = S_DATA \<and> n > 18 then onChunk t (readU48BE p B) (readU48BE p (B + 6)) (readU48BE p (B + 12)) (drop (B + 18) p) s
           else if kind = S_ACK \<and> n \<ge> 9 \<and> n \<ge> 9 + 12 * int (unat (num_at p (B + 8))) then onAck t p s
           else if kind = S_PROBE \<and> n \<ge> 6 then received t (readU48BE p B) s
           else if kind = S_CLOSE then fail s
           else s)"

text \<open>A refused write, \<open>Inl\<close>, is the error the source throws.\<close>

datatype write_error = LinkClosed | OutboundLimit

definition send :: "rat \<Rightarrow> bytes \<Rightarrow> UdpStream \<Rightarrow> write_error option \<times> UdpStream" where
  "send t bytes' s =
     (if us_gone s \<or> us_closing s then (Some LinkClosed, s)
      else let (n, tx) = buffered (us_tx s); s = s\<lparr>us_tx := tx\<rparr> in
           if n + length bytes' > MAX_BUFFERED then (Some OutboundLimit, s)
           else if bytes' = [] then (None, s)
           else (None, flush t 0 (s\<lparr>us_tx := tx\<lparr>tx_unsent := pieces_push bytes' (tx_unsent tx), tx_written := tx_written tx + length bytes'\<rparr>\<rparr>)))"

definition close :: "rat \<Rightarrow> bool \<Rightarrow> UdpStream \<Rightarrow> UdpStream" where
  "close t graceful s =
     (if us_gone s \<or> us_closing s then s
      else if graceful \<and> us_out s
      then let (n, tx) = buffered (us_tx s); s = s\<lparr>us_tx := tx\<rparr>
           in if n > 0 then s\<lparr>us_closing := True, us_lingerAt := Some (t + LINGER_MS)\<rparr> else end_stream t s
      else end_stream t s)"

definition tick :: "rat \<Rightarrow> UdpStream \<Rightarrow> UdpStream" where
  "tick t s =
     (if t - us_lastHeard s > SILENT_MS then fail s
      else if peerGone t s then end_stream t s
      else let s = (if t - us_lastSent s \<ge> KEEPALIVE_MS then sendAck t s else s) in s\<lparr>us_liveAt := Some (t + KEEPALIVE_MS)\<rparr>)"

definition onWake :: "rat \<Rightarrow> UdpStream \<Rightarrow> rat option \<times> UdpStream" where
  "onWake t s =
     (if us_gone s then (None, s)
      else if due t (us_lingerAt s) then (None, end_stream t s)
      else let s = (if due t (us_liveAt s) then tick t s else s);
               s = (if \<not> us_gone s \<and> due t (us_recoveryAt s) then onRecovery t s else s);
               s = (if \<not> us_gone s \<and> due t (us_probeAt s) then sendProbe t s else s)
           in (if us_gone s then None else min_due (us_recoveryAt s) (min_due (us_probeAt s) (min_due (us_liveAt s) (us_lingerAt s))), s))"

end
