(* ===== verification/Udp_Recv.thy ===== *)
theory Udp_Recv
  imports Udp_Stream
begin

text \<open>
  The receiving half of the stream: the ranges of packet numbers and the acks that carry them, and the
  reassembly of the stream from chunks that arrive late, twice, out of order or split.
\<close>

section \<open>Ranges of packet numbers\<close>

definition in_ranges :: "nat \<Rightarrow> (nat \<times> nat) list \<Rightarrow> bool" where
  "in_ranges x r \<longleftrightarrow> (\<exists>(hi, lo) \<in> set r. lo \<le> x \<and> x \<le> hi)"

definition ranges_ok :: "(nat \<times> nat) list \<Rightarrow> bool" where
  "ranges_ok r \<longleftrightarrow> sorted_wrt (\<lambda>a b. fst b + 1 < snd a) r \<and> (\<forall>(hi, lo) \<in> set r. lo \<le> hi)"

lemma in_ranges_simps [simp]:
  "in_ranges x [] \<longleftrightarrow> False" "in_ranges x ((hi, lo) # r) \<longleftrightarrow> lo \<le> x \<and> x \<le> hi \<or> in_ranges x r"
  by (auto simp: in_ranges_def)

lemma ranges_ok_simps [simp]:
  "ranges_ok []" "ranges_ok ((hi, lo) # r) \<longleftrightarrow> lo \<le> hi \<and> (\<forall>b \<in> set r. fst b + 1 < lo) \<and> ranges_ok r"
  by (auto simp: ranges_ok_def)

lemma record_loop_tops: "b \<in> set (record_loop pn r) \<Longrightarrow> fst b = pn \<or> fst b \<in> fst ` set r"
  by (induction pn r rule: record_loop.induct) (auto split: if_splits list.splits)

lemma record_loop_ok: "ranges_ok r \<Longrightarrow> ranges_ok (record_loop pn r)"
proof (induction pn r rule: record_loop.induct)
  case (2 pn hi lo r)
  show ?case
  proof (cases "lo > pn + 1")
    case True
    then have "fst b + 1 < lo" if "b \<in> set (record_loop pn r)" for b
      using record_loop_tops [OF that] 2(2) by auto
    with True 2 show ?thesis by simp
  next
    case False
    with 2(2) show ?thesis by (cases r) (fastforce split: if_splits)+
  qed
qed simp

lemma record_loop_adds: "ranges_ok r \<Longrightarrow> in_ranges x (record_loop pn r) \<longleftrightarrow> x = pn \<or> in_ranges x r"
  by (induction pn r rule: record_loop.induct) (auto split: list.splits)

lemma record_loop_length: "length (record_loop pn r) \<le> Suc (length r)"
  by (induction pn r rule: record_loop.induct) (auto split: list.splits)

lemma ranges_ok_take: "ranges_ok r \<Longrightarrow> ranges_ok (take k r)"
  by (auto simp: ranges_ok_def sorted_wrt_take dest: in_set_takeD)

lemma in_ranges_take: "in_ranges x (take k r) \<Longrightarrow> in_ranges x r"
  by (auto simp: in_ranges_def dest: in_set_takeD)

lemma prune_keeps:
  "\<exists>k. prune floor' r = take k r \<and> (r \<noteq> [] \<longrightarrow> k > 0) \<and> (\<forall>b \<in> set (drop k r). fst b < floor')"
proof (induction floor' r rule: prune.induct)
  case (1 floor' r)
  show ?case
  proof (cases "length r > 1 \<and> fst (last r) < floor'")
    case True
    with 1 obtain k where k: "prune floor' (butlast r) = take k (butlast r)" "butlast r \<noteq> [] \<longrightarrow> k > 0"
      "\<forall>b \<in> set (drop k (butlast r)). fst b < floor'" by blast
    have r: "r = butlast r @ [last r]" using True by (intro append_butlast_last_id [symmetric]) auto
    let ?k = "min k (length (butlast r))"
    have "take ?k r = take k (butlast r)" by (simp add: butlast_conv_take min.commute)
    moreover have "drop ?k (butlast r @ [last r]) = drop k (butlast r) @ [last r]" by (simp add: min_def)
    with r have "drop ?k r = drop k (butlast r) @ [last r]" by metis
    moreover have "butlast r \<noteq> []" using True by (cases r rule: rev_cases) auto
    ultimately show ?thesis using True k by (intro exI [of _ ?k]) (auto simp: prune.simps [of floor' r])
  qed (auto simp: prune.simps [of floor' r] intro: exI [of _ "length r"])
qed

lemma in_ranges_drop: "in_ranges x r \<longleftrightarrow> in_ranges x (take k r) \<or> in_ranges x (drop k r)"
proof -
  have "set r = set (take k r) \<union> set (drop k r)" by (metis append_take_drop_id set_append)
  then show ?thesis unfolding in_ranges_def by blast
qed

lemma prune_ok:
  assumes "ranges_ok r"
  shows "ranges_ok (prune floor' r)" "length (prune floor' r) \<le> length r" "in_ranges x (prune floor' r) \<Longrightarrow> in_ranges x r"
    "floor' \<le> x \<Longrightarrow> in_ranges x r \<Longrightarrow> in_ranges x (prune floor' r)"
proof -
  obtain k where k: "prune floor' r = take k r" "\<forall>b \<in> set (drop k r). fst b < floor'" using prune_keeps by blast
  show "ranges_ok (prune floor' r)" "length (prune floor' r) \<le> length r" "in_ranges x (prune floor' r) \<Longrightarrow> in_ranges x r"
    using assms k by (auto simp: ranges_ok_take dest: in_ranges_take)
  have "\<not> in_ranges x (drop k r)" if "floor' \<le> x" using k(2) that by (force simp: in_ranges_def)
  then show "floor' \<le> x \<Longrightarrow> in_ranges x r \<Longrightarrow> in_ranges x (prune floor' r)" using in_ranges_drop [of x r k] k(1) by simp
qed

lemma record_pn_ok:
  assumes "ranges_ok r"
  shows "ranges_ok (record_pn pn r)" "length (record_pn pn r) \<le> MAX_RANGES" "in_ranges x (record_pn pn r) \<Longrightarrow> x = pn \<or> in_ranges x r"
    "length r < MAX_RANGES \<Longrightarrow> x = pn \<or> in_ranges x r \<Longrightarrow> in_ranges x (record_pn pn r)"
proof -
  note ok = record_loop_ok [OF assms, of pn] and adds = record_loop_adds [OF assms, of x pn] and len = record_loop_length [of pn r]
  show "ranges_ok (record_pn pn r)" "length (record_pn pn r) \<le> MAX_RANGES"
    using ok by (simp_all add: record_pn_def Let_def ranges_ok_take)
  show "x = pn \<or> in_ranges x r" if "in_ranges x (record_pn pn r)"
    using that adds in_ranges_take [of x MAX_RANGES "record_loop pn r"] by (auto simp: record_pn_def Let_def split: if_splits)
  show "in_ranges x (record_pn pn r)" if "length r < MAX_RANGES" "x = pn \<or> in_ranges x r"
    using that adds len by (simp add: record_pn_def Let_def)
qed

section \<open>Acks\<close>

lemma length_packet [simp]: "length (packet k n) = B + n"
  by (simp add: packet_def)

lemma num_at_write:
  "num_at (writeU48BE out off v) j = num_at out j" if "j < off \<or> off + 6 \<le> j"
  using that by (auto simp: writeU48BE_def guest_writeU32BE_def Let_def)

lemma num_at_write16: "num_at (writeU16BE out off v) j = num_at out j" if "j < off \<or> off + 2 \<le> j"
  using that by (auto simp: writeU16BE_def)

lemma readU48BE_cong:
  assumes "\<And>j. off \<le> j \<Longrightarrow> j < off + 6 \<Longrightarrow> num_at a j = num_at b j"
  shows "readU48BE a off = readU48BE b off"
  using assms [of off] assms [of "off + 1"] assms [of "off + 2"] assms [of "off + 2 + 1"] assms [of "off + 2 + 2"] assms [of "off + 2 + 3"]
  by (simp add: readU48BE_def readU16BE_def readU32BE_def)

lemma readU48BE_write_other:
  "off' + 6 \<le> off \<or> off + 6 \<le> off' \<Longrightarrow> readU48BE (writeU48BE out off v) off' = readU48BE out off'"
  by (rule readU48BE_cong, rule num_at_write) auto

lemma length_write_range [simp]: "length (write_range x p) = length p"
  by (simp add: write_range_def split: prod.split)

lemma length_write_ranges [simp]: "length (fold write_range xs p) = length p"
  by (induction xs arbitrary: p) simp_all

lemma write_ranges_below:
  "j < B + 9 + 12 * k \<Longrightarrow> num_at (fold write_range (List.enumerate k r) p) j = num_at p j"
proof (induction r arbitrary: k p)
  case (Cons a r)
  obtain hi lo where a: "a = (hi, lo)" by (cases a)
  from Cons show ?case by (simp add: a write_range_def num_at_write)
qed simp

lemma write_ranges_read:
  assumes "B + 9 + 12 * (k + length r) \<le> length p" "\<forall>(hi, lo) \<in> set r. hi < 2 ^ 48 \<and> lo < 2 ^ 48" "i < length r"
  shows "readU48BE (fold write_range (List.enumerate k r) p) (B + 9 + 12 * (k + i)) = fst (r ! i) \<and>
    readU48BE (fold write_range (List.enumerate k r) p) (B + 15 + 12 * (k + i)) = snd (r ! i)"
  using assms
proof (induction r arbitrary: k p i)
  case (Cons a r)
  obtain hi lo where a: "a = (hi, lo)" by (cases a)
  let ?q = "write_range (k, hi, lo) p"
  show ?case
  proof (cases i)
    case 0
    have q: "readU48BE ?q (B + 9 + 12 * k) = hi" "readU48BE ?q (B + 15 + 12 * k) = lo"
      using Cons.prems a by (simp_all add: write_range_def readU48BE_write_other readU48BE_writeU48BE)
    have "readU48BE (fold write_range (List.enumerate (Suc k) r) ?q) off = readU48BE ?q off" if "off + 6 \<le> B + 9 + 12 * Suc k" for off
      using that by (intro readU48BE_cong write_ranges_below) simp
    with q show ?thesis by (simp add: 0 a)
  next
    case (Suc j)
    from Cons.IH [of "Suc k" ?q j] Cons.prems Suc a show ?thesis by simp
  qed
qed simp

lemma ack_packet_base:
  assumes "j < B + 9"
  shows "num_at (ack_packet credit delay r) j =
    num_at ((writeU16BE (writeU48BE (packet S_ACK (9 + 12 * length r)) B credit) (B + 6) delay)[B + 8 := of_nat (length r)]) j"
  using assms write_ranges_below [of j 0 r] by (simp add: ack_packet_def Let_def)

lemma ack_packet_read:
  assumes "\<forall>(hi, lo) \<in> set r. hi < 2 ^ 48 \<and> lo < 2 ^ 48" "i < length r"
  shows "readU48BE (ack_packet credit delay r) (B + 9 + 12 * i) = fst (r ! i)" "readU48BE (ack_packet credit delay r) (B + 15 + 12 * i) = snd (r ! i)"
  using write_ranges_read [of 0 r _ i] assms by (simp_all add: ack_packet_def Let_def)

lemma names_from_ranges:
  "names_from p i n pn \<longleftrightarrow> (\<exists>k<n. pn \<le> readU48BE p (B + 9 + 12 * (i + k)) \<and> readU48BE p (B + 15 + 12 * (i + k)) \<le> pn)"
  by (induction n arbitrary: i) (simp_all add: Ex_less_Suc2)

lemma in_ranges_nth: "in_ranges x r \<longleftrightarrow> (\<exists>k<length r. x \<le> fst (r ! k) \<and> snd (r ! k) \<le> x)"
  by (force simp: in_ranges_def in_set_conv_nth)

lemma length_ack_packet: "length (ack_packet credit delay r) = B + 9 + 12 * length r"
  by (simp add: ack_packet_def Let_def)

lemma readU16BE_cong:
  "num_at a off = num_at b off \<Longrightarrow> num_at a (off + 1) = num_at b (off + 1) \<Longrightarrow> readU16BE a off = readU16BE b off"
  by (simp add: readU16BE_def)

lemma ack_packet_names:
  assumes "\<forall>(hi, lo) \<in> set r. hi < 2 ^ 48 \<and> lo < 2 ^ 48"
  shows "names (ack_packet credit delay r) (length r) pn \<longleftrightarrow> in_ranges pn r"
  using ack_packet_read [OF assms] by (auto simp: names_def names_from_ranges in_ranges_nth)

text \<open>An acknowledgement says exactly what the receiver knows: read back by the sender's own reader, an ACK packet
  names a packet number if and only if it is in the receiver's ranges, and carries its credit, its delay and the
  number of ranges unchanged.\<close>

theorem udp_ack_exact:
  assumes "length r \<le> MAX_RANGES" "\<forall>(hi, lo) \<in> set r. hi < 2 ^ 48 \<and> lo < 2 ^ 48" "credit < 2 ^ 48" "delay < 2 ^ 16"
  shows "let p = ack_packet credit delay r; count = unat (num_at p (B + 8)) in
    num_at p 0 = S_ACK \<and> count = length r \<and> readU48BE p B = credit \<and> readU16BE p (B + 6) = delay \<and>
    length p = B + 9 + 12 * count \<and> (names p count pn \<longleftrightarrow> in_ranges pn r)"
proof -
  let ?p = "ack_packet credit delay r" and ?a = "writeU48BE (packet S_ACK (9 + 12 * length r)) B credit"
  let ?b = "(writeU16BE ?a (B + 6) delay)[B + 8 := of_nat (length r)]"
  have base: "num_at ?p j = num_at ?b j" if "j < B + 9" for j by (rule ack_packet_base [OF that])
  have count: "unat (num_at ?p (B + 8)) = length r"
    using assms(1) by (simp add: base unat_of_nat_byte MAX_RANGES_def)
  have "readU48BE ?p B = readU48BE ?a B"
    by (rule readU48BE_cong) (simp add: base num_at_write16)
  also have "\<dots> = credit" using assms(3) by (simp add: readU48BE_writeU48BE)
  finally have credit: "readU48BE ?p B = credit" .
  have "readU16BE ?p (B + 6) = readU16BE (writeU16BE ?a (B + 6) delay) (B + 6)"
    by (rule readU16BE_cong) (simp_all add: base)
  also have "\<dots> = delay" using assms(4) by (simp add: readU16BE_writeU16BE)
  finally have delay: "readU16BE ?p (B + 6) = delay" .
  have "num_at ?p 0 = num_at (packet S_ACK (9 + 12 * length r)) 0"
    by (simp add: base num_at_write num_at_write16 PATH_HEADER_def)
  then have "num_at ?p 0 = S_ACK" by (simp add: packet_def num_at_def PATH_HEADER_def)
  with count credit delay show ?thesis
    by (simp add: Let_def length_ack_packet ack_packet_names [OF assms(2)])
qed

theorem udp_ack_exact_witness:
  "let p = ack_packet 7 1 [(9, 8), (4, 2)] in names p (unat (num_at p (B + 8))) 3 \<and> \<not> names p (unat (num_at p (B + 8))) 5"
  using udp_ack_exact [of "[(9, 8), (4, 2)]" 7 1 3] udp_ack_exact [of "[(9, 8), (4, 2)]" 7 1 5]
  by (auto simp: Let_def MAX_RANGES_def)

text \<open>The receiver's record of packet numbers is a set. Noting a number and forgetting what the sender no longer waits
  on keeps the ranges disjoint, apart and newest first and at most \<open>MAX_RANGES\<close> of them, never invents a number, and, while
  fewer than \<open>MAX_RANGES\<close> ranges are held, contains the new number and every number recorded before that is not
  below the floor.\<close>

theorem udp_ranges_exact:
  assumes "ranges_ok r"
  shows "ranges_ok (prune floor' (record_pn pn r)) \<and> length (prune floor' (record_pn pn r)) \<le> MAX_RANGES \<and>
    (in_ranges x (prune floor' (record_pn pn r)) \<longrightarrow> x = pn \<or> in_ranges x r) \<and>
    (length r < MAX_RANGES \<and> floor' \<le> x \<and> (x = pn \<or> in_ranges x r) \<longrightarrow> in_ranges x (prune floor' (record_pn pn r)))"
proof -
  note rec = record_pn_ok [OF assms, where pn = pn]
  note pr = prune_ok [OF rec(1), where floor' = floor']
  have "length (prune floor' (record_pn pn r)) \<le> MAX_RANGES" using pr(2) rec(2) by (rule le_trans)
  with pr(1) pr(3) [where x = x] pr(4) [where x = x] rec(3) [where x = x] rec(4) [where x = x] show ?thesis by blast
qed

theorem udp_ranges_exact_witness:
  "in_ranges 5 (prune 3 (record_pn 5 [(9, 6), (4, 4)])) \<and> in_ranges 4 (prune 3 (record_pn 5 [(9, 6), (4, 4)]))"
  using udp_ranges_exact [of "[(9, 6), (4, 4)]" 3 5 5] udp_ranges_exact [of "[(9, 6), (4, 4)]" 3 5 4] by (simp add: MAX_RANGES_def)

section \<open>Reassembly\<close>

definition piece_of :: "bytes \<Rightarrow> nat \<Rightarrow> bytes \<Rightarrow> bool" where
  "piece_of S o' b \<longleftrightarrow> o' + length b \<le> length S \<and> b = take (length b) (drop o' S)"

text \<open>What the receiver holds is the stream's: the reads and what is held are its beginning, what waits past a gap is
  in its place.\<close>

definition rx_ok :: "bytes \<Rightarrow> bytes \<Rightarrow> Rx \<Rightarrow> bool" where
  "rx_ok S got rx \<longleftrightarrow> pieces_ok (rx_held rx) \<and> rx_taken rx = length got \<and> piece_of S 0 (got @ pieces_live (rx_held rx)) \<and>
     (\<forall>(o', b) \<in> set (rx_ahead rx). piece_of S o' b) \<and> distinct (map fst (rx_ahead rx)) \<and>
     rx_aheadBytes rx = (\<Sum>(o', b) \<leftarrow> rx_ahead rx. DATA_HEADER + length b)"

lemma slice_append:
  assumes "piece_of S 0 a" "piece_of S (length a) b"
  shows "piece_of S 0 (a @ b)"
proof -
  have "take (length a + length b) S = take (length a) S @ take (length b) (drop (length a) S)" by (rule take_add)
  also have "\<dots> = a @ b" using assms by (simp add: piece_of_def)
  finally show ?thesis using assms by (simp add: piece_of_def)
qed

lemma rx_end_length: "rx_ok S got rx \<Longrightarrow> rx_end rx = length (got @ pieces_live (rx_held rx))"
  by (simp add: rx_ok_def pieces.size_live)

lemma sum_mdel:
  "distinct (map fst m) \<Longrightarrow> map_of m k = Some v \<Longrightarrow> (\<Sum>(o', b) \<leftarrow> mdel k m. f b) = (\<Sum>(o', b) \<leftarrow> m. f b) - (f v :: nat)"
proof (induction m)
  case (Cons a m)
  show ?case
  proof (cases "fst a = k")
    case True
    then have "mdel k m = m" using Cons.prems(1) unfolding mdel_def by (intro filter_True) (auto intro: rev_image_eqI)
    with True Cons show ?thesis by (cases a) (simp add: mdel_def)
  next
    case False
    then have m: "map_of m k = Some v" using Cons.prems(2) by (cases a) auto
    then have "f v \<le> (\<Sum>(o', b) \<leftarrow> m. f b)" by (induction m) (auto split: if_splits)
    with False Cons m show ?thesis by (cases a) (auto simp: mdel_def)
  qed
qed simp

lemma sum_mset_at:
  "map_of m k = None \<Longrightarrow> (\<Sum>(o', b) \<leftarrow> mset_at k v m. f b) = (\<Sum>(o', b) \<leftarrow> m. f b) + (f v :: nat)"
  by (induction m) auto

lemma set_mset_at_new: "x \<in> set (mset_at k v m) \<Longrightarrow> x = (k, v) \<or> x \<in> set m"
  by (induction k v m rule: mset_at.induct) (auto split: if_splits)

lemma push_held_ok:
  assumes "rx_ok S got rx" "piece_of S (rx_end rx) b"
  shows "rx_ok S got (rx\<lparr>rx_held := pieces_push b (rx_held rx)\<rparr>)"
  using assms slice_append [of S "got @ pieces_live (rx_held rx)" b] rx_end_length [OF assms(1)]
  by (simp add: rx_ok_def pieces.inv_push pieces.live_push)

lemma drain_ok: "rx_ok S got rx \<Longrightarrow> rx_ok S got (drain rx)"
proof (induction rx rule: drain.induct)
  case (1 rx)
  show ?case
  proof (cases "map_of (rx_ahead rx) (rx_end rx)")
    case None
    with 1(2) show ?thesis by (simp add: drain.simps [of rx])
  next
    case (Some nxt)
    let ?rx = "rx\<lparr>rx_ahead := mdel (rx_end rx) (rx_ahead rx), rx_aheadBytes := rx_aheadBytes rx - (DATA_HEADER + length nxt)\<rparr>"
    have "piece_of S (rx_end rx) nxt" using Some 1(2) by (auto simp: rx_ok_def dest: map_of_SomeD)
    moreover have "rx_ok S got ?rx" using 1(2) Some sum_mdel [of "rx_ahead rx" "rx_end rx" nxt "\<lambda>b. DATA_HEADER + length b"]
      by (auto simp: rx_ok_def)
    ultimately have "rx_ok S got (?rx\<lparr>rx_held := pieces_push nxt (rx_held ?rx)\<rparr>)" by (intro push_held_ok) simp_all
    with 1(1) [OF Some] Some show ?thesis by (simp add: drain.simps [of rx])
  qed
qed

lemma place_ok:
  assumes "rx_ok S got rx" "piece_of S offset b"
  shows "rx_ok S got (place offset b rx)"
proof -
  let ?new = "rx\<lparr>rx_held := pieces_push b (rx_held rx)\<rparr>"
  have in_order: "rx_ok S got (drain ?new)" if "offset = rx_end rx"
    using assms that by (intro drain_ok push_held_ok) simp_all
  have ahead: "rx_ok S got (rx\<lparr>rx_ahead := mset_at offset b (rx_ahead rx), rx_aheadBytes := rx_aheadBytes rx + (DATA_HEADER + length b)\<rparr>)"
    if "map_of (rx_ahead rx) offset = None"
    using assms that sum_mset_at [of "rx_ahead rx" offset "\<lambda>b. DATA_HEADER + length b" b]
    by (auto simp: rx_ok_def dest!: set_mset_at_new)
  have clear: "rx_ok S got (rx'\<lparr>rx_ahead := [], rx_aheadBytes := 0\<rparr>)" if "rx_ok S got rx'" for rx'
    using that by (simp add: rx_ok_def)
  show ?thesis using in_order ahead clear assms(1) by (simp add: place_def Let_def)
qed

subsection \<open>Every chunk once is the whole stream\<close>

text \<open>A stream cut into chunks, with their offsets.\<close>

fun with_offsets :: "nat \<Rightarrow> bytes list \<Rightarrow> (nat \<times> bytes) list" where
  "with_offsets o' [] = []"
| "with_offsets o' (c # cs) = (o', c) # with_offsets (o' + length c) cs"

text \<open>One chunk's arrival, as \<open>onChunk\<close> takes it.\<close>

definition arrive :: "nat \<times> bytes \<Rightarrow> Rx \<Rightarrow> Rx" where
  "arrive = (\<lambda>(o', b) rx. place o' b (rx\<lparr>rx_furthest := max (rx_furthest rx) (o' + length b)\<rparr>))"

lemma with_offsets_range: "(o', b) \<in> set (with_offsets k cs) \<Longrightarrow> k \<le> o' \<and> o' + length b \<le> k + length (concat cs)"
  by (induction cs arbitrary: k) fastforce+

lemma with_offsets_apart:
  assumes "[] \<notin> set cs" "(o', b) \<in> set (with_offsets k cs)" "(p, c) \<in> set (with_offsets k cs)"
  shows "(o' = p \<and> b = c) \<or> o' + length b \<le> p \<or> p + length c \<le> o'"
  using assms
proof (induction cs arbitrary: k)
  case (Cons x cs)
  then show ?case using with_offsets_range [of _ _ "k + length x" cs] by fastforce
qed simp

lemma with_offsets_slice:
  assumes "(o', b) \<in> set (with_offsets k cs)" "length pre = k"
  shows "piece_of (pre @ concat cs @ post) o' b"
  using assms
proof (induction cs arbitrary: k pre)
  case (Cons x cs)
  show ?case
  proof (cases "(o', b) = (k, x)")
    case True
    with Cons.prems show ?thesis by (simp add: piece_of_def)
  next
    case False
    with Cons.prems Cons.IH [of "k + length x" "pre @ x"] show ?thesis by auto
  qed
qed simp

lemma with_offsets_next:
  assumes "k \<le> e" "e < k + length (concat cs)" "e = k \<or> (\<exists>(o', b) \<in> set (with_offsets k cs). e = o' + length b)" "[] \<notin> set cs"
  shows "\<exists>b. (e, b) \<in> set (with_offsets k cs)"
  using assms
proof (induction cs arbitrary: k)
  case (Cons x cs)
  show ?case
  proof (cases "e = k")
    case False
    then obtain o' b where ob: "(o', b) \<in> set (with_offsets k (x # cs))" "e = o' + length b" using Cons.prems(3) by auto
    then have "k + length x \<le> e" using with_offsets_range [of o' b "k + length x" cs] by fastforce
    moreover have "e = k + length x \<or> (\<exists>(o', b) \<in> set (with_offsets (k + length x) cs). e = o' + length b)" using ob by auto
    ultimately show ?thesis using Cons.IH [of "k + length x"] Cons.prems(2,4) by auto
  qed auto
qed simp

text \<open>What arrived is held, or waits at its place; nothing waits right behind what is held.\<close>

definition gathered :: "(nat \<times> bytes) set \<Rightarrow> nat \<Rightarrow> Rx \<Rightarrow> bool" where
  "gathered R e rx \<longleftrightarrow> (\<forall>(o', b) \<in> R. o' + length b \<le> e \<or> e \<le> o' \<and> map_of (rx_ahead rx) o' = Some b)"

definition boundary :: "(nat \<times> bytes) set \<Rightarrow> nat \<Rightarrow> bool" where
  "boundary P e \<longleftrightarrow> e = 0 \<or> (\<exists>(o', b) \<in> P. e = o' + length b)"

definition apart :: "(nat \<times> bytes) set \<Rightarrow> bool" where
  "apart P \<longleftrightarrow> (\<forall>o' b. (o', b) \<in> P \<longrightarrow> b \<noteq> []) \<and>
     (\<forall>o' b p c. (o', b) \<in> P \<longrightarrow> (p, c) \<in> P \<longrightarrow> (o' = p \<and> b = c) \<or> o' + length b \<le> p \<or> p + length c \<le> o')"

lemma apart_cases:
  assumes "apart P" "(o', b) \<in> P" "(p, c) \<in> P"
  shows "b \<noteq> []" "c \<noteq> []" "o' = p \<Longrightarrow> b = c" "o' < p \<Longrightarrow> o' + length b \<le> p"
proof -
  show ne: "b \<noteq> []" "c \<noteq> []" using assms unfolding apart_def by blast+
  have "(o' = p \<and> b = c) \<or> o' + length b \<le> p \<or> p + length c \<le> o'" using assms unfolding apart_def by blast
  with ne show "o' = p \<Longrightarrow> b = c" "o' < p \<Longrightarrow> o' + length b \<le> p" by auto
qed

lemma gathered_advance:
  assumes "apart P" "R \<subseteq> P" "(e, b) \<in> P" "gathered R e rx" "map_of (rx_ahead rx) e = None \<or> map_of (rx_ahead rx) e = Some b"
    and "\<And>k. k \<noteq> e \<Longrightarrow> map_of (rx_ahead rx') k = map_of (rx_ahead rx) k"
  shows "gathered R (e + length b) rx'"
  unfolding gathered_def
proof (intro ballI, clarify)
  fix o' c
  assume r: "(o', c) \<in> R" and far: "\<not> (e + length b \<le> o' \<and> map_of (rx_ahead rx') o' = Some c)"
  have "o' + length c \<le> e \<or> e \<le> o' \<and> map_of (rx_ahead rx) o' = Some c" using r assms(4) by (auto simp: gathered_def)
  moreover have oP: "(o', c) \<in> P" using r assms(2) by blast
  have "c = b" if "o' = e" using apart_cases(3) [OF assms(1) oP assms(3) that] .
  moreover have "e + length b \<le> o'" if "e < o'" using apart_cases(4) [OF assms(1,3) oP that] .
  ultimately show "o' + length c \<le> e + length b" using far assms(6) [of o'] by (cases "o' = e") auto
qed

lemma drain_gathers:
  assumes "apart P" "R \<subseteq> P"
  shows "set (rx_ahead rx) \<subseteq> P \<Longrightarrow> gathered R (rx_end rx) rx \<Longrightarrow> boundary P (rx_end rx) \<Longrightarrow>
    gathered R (rx_end (drain rx)) (drain rx) \<and> boundary P (rx_end (drain rx)) \<and> map_of (rx_ahead (drain rx)) (rx_end (drain rx)) = None \<and>
    set (rx_ahead (drain rx)) \<subseteq> P \<and> rx_furthest (drain rx) = rx_furthest rx"
proof (induction rx rule: drain.induct)
  case (1 rx)
  show ?case
  proof (cases "map_of (rx_ahead rx) (rx_end rx)")
    case None
    with 1 show ?thesis by (simp add: drain.simps [of rx])
  next
    case (Some nxt)
    let ?rx = "rx\<lparr>rx_ahead := mdel (rx_end rx) (rx_ahead rx), rx_aheadBytes := rx_aheadBytes rx - (DATA_HEADER + length nxt),
      rx_held := pieces_push nxt (rx_held rx)\<rparr>"
    have e: "(rx_end rx, nxt) \<in> P" using Some 1(2) by (auto dest: map_of_SomeD)
    have end': "rx_end ?rx = rx_end rx + length nxt" by (simp add: push_frame)
    have "gathered R (rx_end ?rx) ?rx"
      unfolding end' by (rule gathered_advance [OF assms e 1(3)]) (simp_all add: Some)
    moreover have "boundary P (rx_end ?rx)" unfolding end' boundary_def using e by blast
    moreover have "set (rx_ahead ?rx) \<subseteq> P" using 1(2) by auto
    ultimately have "gathered R (rx_end (drain ?rx)) (drain ?rx) \<and> boundary P (rx_end (drain ?rx)) \<and>
        map_of (rx_ahead (drain ?rx)) (rx_end (drain ?rx)) = None \<and> set (rx_ahead (drain ?rx)) \<subseteq> P \<and>
        rx_furthest (drain ?rx) = rx_furthest ?rx"
      by (intro 1(1) [OF Some])
    moreover have "drain rx = drain ?rx" by (simp add: drain.simps [of rx] Some)
    moreover have "rx_furthest ?rx = rx_furthest rx" by simp
    ultimately show ?thesis by metis
  qed
qed

definition gathering :: "bytes \<Rightarrow> (nat \<times> bytes) set \<Rightarrow> (nat \<times> bytes) set \<Rightarrow> Rx \<Rightarrow> bool" where
  "gathering S P R rx \<longleftrightarrow> rx_ok S [] rx \<and> set (rx_ahead rx) \<subseteq> P \<and> (\<forall>(o', b) \<in> R. o' + length b \<le> rx_furthest rx) \<and>
     gathered R (rx_end rx) rx \<and> map_of (rx_ahead rx) (rx_end rx) = None \<and> boundary P (rx_end rx)"

lemma boundary_behind:
  assumes "apart P" "boundary P e" "(o', b) \<in> P" "o' < e"
  shows "o' + length b \<le> e"
proof -
  from assms(2,4) obtain p c where pc: "(p, c) \<in> P" "e = p + length c" by (auto simp: boundary_def)
  consider "o' < p" | "o' = p" | "p < o'" by linarith
  then show ?thesis
  proof cases
    case 1
    then show ?thesis using apart_cases(4) [OF assms(1,3) pc(1)] pc(2) by simp
  next
    case 2
    then show ?thesis using apart_cases(3) [OF assms(1,3) pc(1)] pc(2) by simp
  next
    case 3
    then show ?thesis using apart_cases(4) [OF assms(1) pc(1) assms(3)] pc(2) assms(4) by simp
  qed
qed

lemma arrive_gathers:
  assumes "apart P" "R \<subseteq> P" "(o', b) \<in> P" "piece_of S o' b" "gathering S P R rx"
  shows "gathering S P (insert (o', b) R) (arrive (o', b) rx)"
proof -
  let ?rx = "rx\<lparr>rx_furthest := max (rx_furthest rx) (o' + length b)\<rparr>"
  note g = assms(5) [unfolded gathering_def]
  have ok: "rx_ok S [] ?rx" using g by (simp add: rx_ok_def)
  have placed: "rx_ok S [] (place o' b ?rx)" by (rule place_ok [OF ok assms(4)])
  have far: "\<forall>(p, c) \<in> insert (o', b) R. p + length c \<le> rx_furthest ?rx" using g by fastforce
  have got: "gathered R (rx_end ?rx) ?rx" using g by (simp add: gathered_def)
  have ne: "b \<noteq> []" using apart_cases(1) [OF assms(1,3,3)] .
  consider (here) "o' = rx_end rx" | (ahead) "o' > rx_end rx" "map_of (rx_ahead rx) o' = None"
    | (waits) c where "o' > rx_end rx" "map_of (rx_ahead rx) o' = Some c" | (had) "o' < rx_end rx"
    by (metis linorder_neqE_nat option.exhaust)
  then show ?thesis
  proof cases
    case here
    let ?push = "?rx\<lparr>rx_held := pieces_push b (rx_held ?rx)\<rparr>"
    have end': "rx_end ?push = o' + length b" by (simp add: push_frame here)
    have "gathered R (o' + length b) ?push"
      by (rule gathered_advance [OF assms(1-3), of ?rx]) (use got here g in simp_all)
    then have gp: "gathered (insert (o', b) R) (rx_end ?push) ?push" unfolding end' by (auto simp: gathered_def)
    have bp: "boundary P (rx_end ?push)" unfolding end' boundary_def using assms(3) by blast
    have sub: "insert (o', b) R \<subseteq> P" "set (rx_ahead ?push) \<subseteq> P" using assms(2,3) g by auto
    note d = drain_gathers [OF assms(1) sub gp bp]
    let ?d = "drain ?push"
    have fd: "rx_furthest ?d = rx_furthest ?rx" using d by simp
    show ?thesis
    proof (cases "rx_end ?d = rx_furthest ?d \<and> rx_ahead ?d \<noteq> []")
      case True
      have pl: "place o' b ?rx = ?d\<lparr>rx_ahead := [], rx_aheadBytes := 0\<rparr>" using here True by (simp add: place_def Let_def)
      have "gathered (insert (o', b) R) (rx_end ?d) (place o' b ?rx)" using True fd far unfolding gathered_def by fastforce
      with placed pl d far fd show ?thesis by (simp add: gathering_def arrive_def)
    next
      case False
      have "place o' b ?rx = ?d" using here False by (auto simp: place_def Let_def)
      with placed d far fd show ?thesis by (simp add: gathering_def arrive_def)
    qed
  next
    case ahead
    then have pl: "place o' b ?rx = ?rx\<lparr>rx_ahead := mset_at o' b (rx_ahead ?rx), rx_aheadBytes := rx_aheadBytes ?rx + (DATA_HEADER + length b)\<rparr>"
      by (simp add: place_def)
    have "gathered (insert (o', b) R) (rx_end rx) (place o' b ?rx)"
      using got ahead unfolding pl gathered_def by (fastforce split: prod.splits)
    moreover have "set (rx_ahead (place o' b ?rx)) \<subseteq> P" using g assms(3) unfolding pl by (auto dest!: set_mset_at_new)
    ultimately show ?thesis using placed far g ahead by (simp add: gathering_def arrive_def pl)
  next
    case (waits c)
    then have "(o', c) \<in> P" using g by (auto dest: map_of_SomeD)
    then have "c = b" using apart_cases(3) [OF assms(1) _ assms(3)] by simp
    have pl: "place o' b ?rx = ?rx" using waits by (simp add: place_def)
    have "gathered (insert (o', b) R) (rx_end rx) ?rx" using got waits \<open>c = b\<close> by (auto simp: gathered_def)
    with placed far g show ?thesis by (simp add: gathering_def arrive_def pl)
  next
    case had
    then have pl: "place o' b ?rx = ?rx" by (simp add: place_def)
    have "o' + length b \<le> rx_end rx" using g by (intro boundary_behind [OF assms(1) _ assms(3) had]) simp
    then have "gathered (insert (o', b) R) (rx_end rx) ?rx" using got by (auto simp: gathered_def)
    with placed far g show ?thesis by (simp add: gathering_def arrive_def pl)
  qed
qed

lemma arrivals_gather:
  assumes "apart P" "\<And>o' b. (o', b) \<in> P \<Longrightarrow> piece_of S o' b" "set arrivals \<subseteq> P" "R \<subseteq> P" "gathering S P R rx"
  shows "gathering S P (R \<union> set arrivals) (fold arrive arrivals rx)"
  using assms(3-5)
proof (induction arrivals arbitrary: R rx)
  case (Cons a arrivals)
  obtain o' b where a: "a = (o', b)" by (cases a)
  have "gathering S P (insert a R) (arrive a rx)"
    unfolding a using Cons.prems a assms(2) by (intro arrive_gathers [OF assms(1)]) auto
  from Cons.IH [OF _ _ this] Cons.prems show ?case by simp
qed simp

lemma gathering_new: "gathering S P {} Rx_new"
  using pieces.inv_empty [of 0] pieces.live_empty [of 0]
  by (simp add: gathering_def rx_ok_def Rx_new_def piece_of_def gathered_def boundary_def) (simp add: new_Pieces_def)

lemma apart_with_offsets: "[] \<notin> set cs \<Longrightarrow> apart (set (with_offsets 0 cs))"
proof -
  assume ne: "[] \<notin> set cs"
  have "b \<in> set cs" if "(o', b) \<in> set (with_offsets k cs)" for o' b k
    using that by (induction cs arbitrary: k) auto
  then show ?thesis using ne with_offsets_apart [OF ne] unfolding apart_def by blast
qed



section \<open>The stream's reads\<close>

text \<open>Every way a stream comes about, with packets from the peer that satisfy \<open>H\<close>.\<close>

inductive udp_reach :: "(bytes \<Rightarrow> bool) \<Rightarrow> UdpStream \<Rightarrow> bool" for H where
  created: "udp_reach H UdpStream_new"
| receives: "udp_reach H s \<Longrightarrow> H p \<Longrightarrow> udp_reach H (receive t p s)"
| turns: "udp_reach H s \<Longrightarrow> udp_reach H (turn t s)"
| read_done: "udp_reach H s \<Longrightarrow> udp_reach H (readDone t s)"
| gets_reader: "udp_reach H s \<Longrightarrow> udp_reach H (reader t s)"
| sends: "udp_reach H s \<Longrightarrow> udp_reach H (snd (send t b s))"
| starts: "udp_reach H s \<Longrightarrow> udp_reach H (start t s)"
| moves: "udp_reach H s \<Longrightarrow> udp_reach H (repath t rtt s)"
| closes: "udp_reach H s \<Longrightarrow> udp_reach H (close t graceful s)"
| wakes: "udp_reach H s \<Longrightarrow> udp_reach H (snd (onWake t s))"

text \<open>What the reader and the reassembly see of a state; everything on the sending side leaves it alone.\<close>

definition rx_view :: "UdpStream \<Rightarrow> bytes list \<times> nat \<times> Pieces \<times> (nat \<times> bytes) list \<times> nat \<times> nat" where
  "rx_view s = (us_reads s, rx_taken (us_rx s), rx_held (us_rx s), rx_ahead (us_rx s), rx_aheadBytes (us_rx s), rx_credit (us_rx s))"

lemma emits_frame [simp]:
  "us_rx ((emit p t ^^ n) s) = us_rx s" "us_reads ((emit p t ^^ n) s) = us_reads s" "us_gone ((emit p t ^^ n) s) = us_gone s"
  "us_tx ((emit p t ^^ n) s) = us_tx s"
  by (induction n) (simp_all add: emit_def)

lemma emit_frame [simp]:
  "us_rx (emit p t s) = us_rx s" "us_reads (emit p t s) = us_reads s" "us_gone (emit p t s) = us_gone s" "us_tx (emit p t s) = us_tx s"
  by (simp_all add: emit_def)

lemma view_ack [simp]: "rx_view (sendAck t s) = rx_view s" "us_gone (sendAck t s) = us_gone s" "us_tx (sendAck t s) = us_tx s"
  by (simp_all add: sendAck_def rx_view_def Let_def)

lemma view_fail [simp]: "rx_view (fail s) = rx_view s" "us_gone (fail s)"
  by (simp_all add: fail_def rx_view_def)

lemma view_end [simp]: "rx_view (end_stream t s) = rx_view s" "us_gone (end_stream t s)"
  by (simp_all add: end_stream_def sendClose_def rx_view_def fail_def)

lemma view_received [simp]: "rx_view (received t pn s) = rx_view s" "us_gone (received t pn s) = us_gone s"
proof -
  have upd: "rx_view (s\<lparr>us_rx := (us_rx s)\<lparr>rx_turnDue := b\<rparr>\<rparr>) = rx_view s" for s b by (simp add: rx_view_def)
  show "rx_view (received t pn s) = rx_view s" "us_gone (received t pn s) = us_gone s"
    unfolding received_def Let_def upd by (simp_all add: rx_view_def [of "_\<lparr>us_rx := _\<rparr>"]) (simp_all add: rx_view_def)
qed

text \<open>The sending loop only ever cuts chunks and sends them.\<close>

lemma flush_loop_invariant:
  assumes "\<And>s b. P s \<Longrightarrow> P (s\<lparr>us_tx := (us_tx s)\<lparr>tx_windowLimited := b\<rparr>\<rparr>)"
    and "\<And>s probe x tx. P s \<Longrightarrow> nextChunk probe (us_tx s) = (x, tx) \<Longrightarrow> P (s\<lparr>us_tx := tx\<rparr>)"
    and "\<And>s o' c. P s \<Longrightarrow> map_of (tx_chunks (us_tx s)) o' = Some c \<Longrightarrow> P (sendChunk t o' c s)"
  shows "P s \<Longrightarrow> P (flush_loop t n s)"
proof (induction "n + window_room (us_tx s)" arbitrary: n s rule: less_induct)
  case less
  let ?tx = "us_tx s"
  show ?case
  proof (cases "n = 0 \<and> of_nat (tx_bytesInFlight ?tx + tx_packetBytes ?tx) > tx_window ?tx")
    case True
    with less.prems assms(1) [of s] show ?thesis by (subst flush_loop.simps) (simp add: Let_def)
  next
    case False
    obtain x tx where x: "nextChunk (n > 0) ?tx = (x, tx)" by (cases "nextChunk (n > 0) ?tx")
    note cut = assms(2) [OF less.prems x]
    show ?thesis
    proof (cases x)
      case None
      with False x assms(1) [OF cut, of False] show ?thesis by (auto simp: flush_loop.simps [of t n s] Let_def)
    next
      case (Some o')
      show ?thesis
      proof (cases "map_of (tx_chunks tx) o'")
        case None
        with False x Some cut show ?thesis by (auto simp: flush_loop.simps [of t n s] Let_def)
      next
        case chunk: (Some c)
        let ?s = "sendChunk t o' c (s\<lparr>us_tx := tx\<rparr>)"
        have loop: "flush_loop t n s = flush_loop t (n - 1) ?s"
          using False x Some chunk by (auto simp: flush_loop.simps [of t n s] Let_def)
        have grow: "tx_bytesInFlight ?tx < tx_bytesInFlight (us_tx ?s)" "tx_window (us_tx ?s) = tx_window ?tx"
          using sendChunk_frame [where t = t and o' = o' and c = c and s = "s\<lparr>us_tx := tx\<rparr>"] nextChunk_frame [OF x] by simp_all
        have "(n - 1) + window_room (us_tx ?s) < n + window_room ?tx"
        proof (cases "n = 0")
          case True
          with False have "of_nat (tx_bytesInFlight ?tx) \<le> tx_window ?tx"
            using of_nat_0_le_iff [of "tx_packetBytes ?tx", where 'a = rat] by (simp add: not_less)
          from window_room_shrinks(2) [OF grow this] True show ?thesis by simp
        qed (use window_room_shrinks(1) [OF grow] in simp)
        from less.hyps [OF this] assms(3) [OF cut, of o' c] chunk show ?thesis unfolding loop by simp
      qed
    qed
  qed
qed

lemma flush_loop_frame:
  "us_rx (flush_loop t n s) = us_rx s \<and> us_reads (flush_loop t n s) = us_reads s \<and> us_gone (flush_loop t n s) = us_gone s"
  by (rule flush_loop_invariant [where P = "\<lambda>s'. us_rx s' = us_rx s \<and> us_reads s' = us_reads s \<and> us_gone s' = us_gone s"])
    (simp_all add: sendChunk_def Let_def)

lemma view_tx [simp]: "rx_view (s\<lparr>us_tx := tx\<rparr>) = rx_view s"
  by (simp add: rx_view_def)

lemma view_flush [simp]: "rx_view (flush t n s) = rx_view s" "us_gone (flush t n s) = us_gone s"
  using flush_loop_frame [of t n s] by (simp_all add: flush_def arm_def rx_view_def Let_def)

lemma view_probe [simp]: "rx_view (sendProbe t s) = rx_view s" "us_gone (sendProbe t s) = us_gone s"
  "rx_view (startProbe t s) = rx_view s" "us_gone (startProbe t s) = us_gone s"
  by (simp_all add: startProbe_def sendProbe_def rx_view_def Let_def)

lemma view_ack_named [simp]: "rx_view (ack_named t p n s) = rx_view s" "us_gone (ack_named t p n s) = us_gone s"
  by (simp_all add: ack_named_def probeAcked_def rx_view_def Let_def case_prod_beta flip: startProbe_def)
    (simp_all add: startProbe_def sendProbe_def Let_def)

lemma view_onAck: "rx_view (onAck t p s) = rx_view s \<and> (us_gone s \<longrightarrow> us_gone (onAck t p s))"
  by (simp add: onAck_def Let_def case_prod_beta)

lemma view_start: "rx_view (start t s) = rx_view s \<and> us_gone (start t s) = us_gone s"
  by (simp add: start_def Let_def) (simp add: rx_view_def)

lemma view_repath: "rx_view (repath t r s) = rx_view s \<and> us_gone (repath t r s) = us_gone s"
  by (simp add: repath_def Let_def)

lemma view_send: "rx_view (snd (send t b s)) = rx_view s \<and> us_gone (snd (send t b s)) = us_gone s"
  by (simp add: send_def Let_def case_prod_beta)

lemma view_close: "rx_view (close t g s) = rx_view s \<and> (us_gone s \<longrightarrow> us_gone (close t g s))"
  by (simp add: close_def Let_def case_prod_beta) (simp add: rx_view_def)

lemma view_arm: "rx_view (arm s) = rx_view s" "us_gone (arm s) = us_gone s"
  by (simp_all add: arm_def Let_def rx_view_def)

lemma view_recovery: "rx_view (onRecovery t s) = rx_view s"
proof -
  have "rx_view (s\<lparr>us_recoveryAt := x\<rparr>) = rx_view s" for s x by (simp add: rx_view_def)
  then show ?thesis by (simp add: onRecovery_def Let_def view_arm)
qed

lemma view_tick: "rx_view (tick t s) = rx_view s"
proof -
  have "rx_view (s\<lparr>us_liveAt := x\<rparr>) = rx_view s" for s x by (simp add: rx_view_def)
  then show ?thesis by (simp add: tick_def Let_def)
qed

lemma view_wake: "rx_view (snd (onWake t s)) = rx_view s"
  by (simp add: onWake_def Let_def view_tick view_recovery)

definition honest :: "bytes \<Rightarrow> bytes \<Rightarrow> bool" where
  "honest S p \<longleftrightarrow> (num_at p 0 = S_DATA \<and> B + 18 < length p \<longrightarrow> piece_of S (readU48BE p (B + 6)) (drop (B + 18) p))"

abbreviation reads_ok :: "bytes \<Rightarrow> UdpStream \<Rightarrow> bool" where
  "reads_ok S s \<equiv> rx_ok S (concat (us_reads s)) (us_rx s)"

lemma reads_ok_view: "rx_view s = rx_view s' \<Longrightarrow> reads_ok S s = reads_ok S s'"
  by (simp add: rx_view_def rx_ok_def)

lemma hand_over_ok: "reads_ok S s \<Longrightarrow> reads_ok S (hand_over s)"
proof -
  assume ok: "reads_ok S s"
  let ?h = "rx_held (us_rx s)" and ?n = "min (pbytes (rx_held (us_rx s))) MAX_READ"
  have h: "pieces_ok ?h" "?n \<le> pbytes ?h" using ok by (simp_all add: rx_ok_def)
  have take: "fst (pieces_take ?n ?h) = take ?n (pieces_live ?h)" "pieces_live (snd (pieces_take ?n ?h)) = drop ?n (pieces_live ?h)"
    "pieces_ok (snd (pieces_take ?n ?h))" using pieces.take_value [OF h] pieces.live_take [OF h] pieces.inv_take [OF h] by simp_all
  with ok h show ?thesis by (simp add: hand_over_def rx_ok_def case_prod_beta Let_def pieces.size_live)
qed

lemma deliver_ok: "reads_ok S s \<Longrightarrow> reads_ok S (deliver t s)"
proof -
  assume "reads_ok S s"
  then have h: "reads_ok S (hand_over s)" by (rule hand_over_ok)
  have tune: "rx_taken (tune_credit t r rx) = rx_taken rx" "rx_held (tune_credit t r rx) = rx_held rx"
    "rx_ahead (tune_credit t r rx) = rx_ahead rx" "rx_aheadBytes (tune_credit t r rx) = rx_aheadBytes rx" for r rx
    by (simp_all add: tune_credit_def Let_def)
  let ?s = "(hand_over s)\<lparr>us_rx := tune_credit t (tx_srtt (us_tx (hand_over s))) (us_rx (hand_over s))\<rparr>"
  have "reads_ok S ?s" using h by (simp add: rx_ok_def tune)
  then show ?thesis using reads_ok_view [OF view_ack(1) [of t ?s]] by (simp add: deliver_def Let_def)
qed

lemma onChunk_ok:
  assumes "reads_ok S s" "piece_of S offset b"
  shows "reads_ok S (onChunk t pn offset floor' b s)"
proof -
  let ?s = "received t pn s"
  let ?rx = "(us_rx ?s)\<lparr>rx_ranges := prune floor' (rx_ranges (us_rx ?s)), rx_furthest := max (rx_furthest (us_rx ?s)) (offset + length b)\<rparr>"
  have "reads_ok S ?s" using assms(1) reads_ok_view [OF view_received(1)] by blast
  then have "rx_ok S (concat (us_reads ?s)) ?rx" by (simp add: rx_ok_def)
  then have "reads_ok S (?s\<lparr>us_rx := place offset b ?rx\<rparr>)" using place_ok [OF _ assms(2)] by simp
  moreover from this have "reads_ok S (fail (?s\<lparr>us_rx := place offset b ?rx\<rparr>))" using reads_ok_view [OF view_fail(1)] by blast
  ultimately show ?thesis using assms(1) by (simp add: onChunk_def Let_def)
qed

lemma turn_ok: "reads_ok S s \<Longrightarrow> reads_ok S (turn t s)"
proof -
  assume "reads_ok S s"
  then have "reads_ok S (deliver t (s\<lparr>us_rx := (us_rx s)\<lparr>rx_turnDue := False\<rparr>\<rparr>))" by (intro deliver_ok) (simp add: rx_ok_def)
  then show ?thesis using reads_ok_view [OF view_ack(1)] by (simp add: turn_def Let_def)
qed

lemma receive_ok:
  assumes "reads_ok S s" "honest S p"
  shows "reads_ok S (receive t p s)"
proof -
  let ?s = "s\<lparr>us_lastHeard := t\<rparr>"
  have s: "reads_ok S ?s" using assms(1) by simp
  have "reads_ok S (onAck t p ?s)" "reads_ok S (received t (readU48BE p B) ?s)" "reads_ok S (fail ?s)"
    using s reads_ok_view view_onAck view_received(1) view_fail(1) by metis+
  moreover have "reads_ok S (onChunk t (readU48BE p B) (readU48BE p (B + 6)) (readU48BE p (B + 12)) (drop (B + 18) p) ?s)"
    if "num_at p 0 = S_DATA" "int (length p) - int B > 18"
  proof -
    have "B + 18 < length p" using that(2) by linarith
    with assms(2) that(1) show ?thesis by (intro onChunk_ok s) (simp add: honest_def)
  qed
  ultimately show ?thesis using assms(1) s by (simp add: receive_def Let_def)
qed

lemma reach_reads_ok: "udp_reach (honest S) s \<Longrightarrow> reads_ok S s"
proof (induction rule: udp_reach.induct)
  case created
  show ?case using gathering_new [of S "{}"] by (simp add: gathering_def UdpStream_new_def)
next
  case (gets_reader s t)
  then show ?case unfolding reader_def by (intro deliver_ok) simp
next
  case (read_done s t)
  then show ?case unfolding readDone_def by (intro deliver_ok) simp
qed (use receive_ok turn_ok reads_ok_view view_send view_start view_repath view_close view_wake in metis)+

lemma reads_prefix:
  assumes "reads_ok S s"
  shows "concat (us_reads s) = take (length (concat (us_reads s))) S \<and> rx_taken (us_rx s) = length (concat (us_reads s))"
proof -
  note ok = assms [unfolded rx_ok_def piece_of_def]
  let ?g = "concat (us_reads s)" and ?l = "pieces_live (rx_held (us_rx s))"
  have "?g @ ?l = take (length (?g @ ?l)) S" using ok by simp
  then have "take (length ?g) (?g @ ?l) = take (length ?g) (take (length (?g @ ?l)) S)" by (rule arg_cong)
  then show ?thesis using ok by simp
qed

text \<open>A stream never delivers anything but the stream. With a peer whose DATA packets carry pieces of one byte sequence at
  their offsets, cut, split, repeated, lost and reordered in any way, and through any sequence of the stream's
  operations, what the reader has been handed is always a beginning of that sequence, each byte once and in order.\<close>

theorem udp_delivers_prefix:
  assumes "udp_reach (honest S) s"
  shows "concat (us_reads s) = take (length (concat (us_reads s))) S \<and> rx_taken (us_rx s) = length (concat (us_reads s))"
  by (rule reads_prefix [OF reach_reads_ok [OF assms]])

lemma data_packet_read:
  shows "num_at (data_packet pn offset floor' c) 0 = S_DATA" "pn < 2 ^ 48 \<Longrightarrow> readU48BE (data_packet pn offset floor' c) B = pn"
    "offset < 2 ^ 48 \<Longrightarrow> readU48BE (data_packet pn offset floor' c) (B + 6) = offset"
    "floor' < 2 ^ 48 \<Longrightarrow> readU48BE (data_packet pn offset floor' c) (B + 12) = floor'"
    "drop (B + 18) (data_packet pn offset floor' c) = c" "length (data_packet pn offset floor' c) = DATA_HEADER + length c"
proof -
  let ?p = "writeU48BE (writeU48BE (writeU48BE (packet S_DATA (18 + length c)) B pn) (B + 6) offset) (B + 12) floor'"
  have d: "data_packet pn offset floor' c = take (B + 18) ?p @ c" by (simp add: data_packet_def Let_def)
  show "drop (B + 18) (data_packet pn offset floor' c) = c" "length (data_packet pn offset floor' c) = DATA_HEADER + length c"
    unfolding d by (simp_all add: DATA_HEADER_def)
  have at': "num_at (data_packet pn offset floor' c) j = num_at ?p j" if "j < B + 18" for j
    unfolding d using that by (simp add: num_at_def nth_append)
  have rd: "readU48BE (data_packet pn offset floor' c) off = readU48BE ?p off" if "off + 6 \<le> B + 18" for off
    using that by (intro readU48BE_cong at') simp
  show "readU48BE (data_packet pn offset floor' c) B = pn" if "pn < 2 ^ 48"
    using that by (simp add: rd readU48BE_write_other readU48BE_writeU48BE)
  show "readU48BE (data_packet pn offset floor' c) (B + 6) = offset" if "offset < 2 ^ 48"
    using that by (simp add: rd readU48BE_write_other readU48BE_writeU48BE)
  show "readU48BE (data_packet pn offset floor' c) (B + 12) = floor'" if "floor' < 2 ^ 48"
    using that by (simp add: rd readU48BE_write_other readU48BE_writeU48BE)
  show "num_at (data_packet pn offset floor' c) 0 = S_DATA"
  proof -
    have "num_at (data_packet pn offset floor' c) 0 = num_at (packet S_DATA (18 + length c)) 0"
      by (simp add: at' num_at_write PATH_HEADER_def)
    then show ?thesis by (simp add: packet_def num_at_def PATH_HEADER_def)
  qed
qed

theorem udp_delivers_prefix_witness:
  "let s = turn 2 (receive 1 (data_packet 0 0 0 [7, 8]) (reader 0 UdpStream_new))
   in concat (us_reads s) = take (length (concat (us_reads s))) [7, 8, 9]"
proof -
  have "honest [7, 8, 9] (data_packet 0 0 0 [7, 8])" by (simp add: honest_def data_packet_read piece_of_def)
  then have "udp_reach (honest [7, 8, 9]) (turn 2 (receive 1 (data_packet 0 0 0 [7, 8]) (reader 0 UdpStream_new)))"
    by (intro udp_reach.intros)
  from udp_delivers_prefix [OF this] show ?thesis by (simp add: Let_def)
qed

section \<open>What a peer can make the receiver hold\<close>

definition rx_bounds :: "Rx \<Rightarrow> bool" where
  "rx_bounds rx \<longleftrightarrow> pieces_ok (rx_held rx) \<and> rx_end rx \<le> rx_taken rx + rx_credit rx \<and> rx_credit rx \<le> MAX_CREDIT \<and>
     (\<forall>(o', b) \<in> set (rx_ahead rx). o' + length b \<le> rx_taken rx + rx_credit rx)"

abbreviation held_ok :: "UdpStream \<Rightarrow> bool" where
  "held_ok s \<equiv> rx_bounds (us_rx s) \<and> (us_gone s \<or> \<not> rx_over (us_rx s))"

lemma held_ok_view: "rx_view s = rx_view s' \<Longrightarrow> us_gone s' \<longrightarrow> us_gone s \<Longrightarrow> held_ok s' \<Longrightarrow> held_ok s"
  by (auto simp: rx_view_def rx_bounds_def rx_over_def)

lemma push_bounds:
  assumes "rx_bounds rx" "rx_end rx + length b \<le> rx_taken rx + rx_credit rx"
  shows "rx_bounds (rx\<lparr>rx_held := pieces_push b (rx_held rx)\<rparr>)"
  using assms by (simp add: rx_bounds_def pieces.inv_push push_frame)

lemma drain_bounds: "rx_bounds rx \<Longrightarrow> rx_bounds (drain rx)"
proof (induction rx rule: drain.induct)
  case (1 rx)
  show ?case
  proof (cases "map_of (rx_ahead rx) (rx_end rx)")
    case None
    with 1(2) show ?thesis by (simp add: drain.simps [of rx])
  next
    case (Some nxt)
    let ?rx = "rx\<lparr>rx_ahead := mdel (rx_end rx) (rx_ahead rx), rx_aheadBytes := rx_aheadBytes rx - (DATA_HEADER + length nxt)\<rparr>"
    have "rx_end rx + length nxt \<le> rx_taken rx + rx_credit rx" using map_of_SomeD [OF Some] 1(2) unfolding rx_bounds_def by fast
    moreover have "rx_bounds ?rx" using 1(2) by (auto simp: rx_bounds_def)
    ultimately have "rx_bounds (?rx\<lparr>rx_held := pieces_push nxt (rx_held ?rx)\<rparr>)" by (intro push_bounds) simp_all
    with 1(1) [OF Some] Some show ?thesis by (simp add: drain.simps [of rx])
  qed
qed

lemma place_bounds:
  assumes "rx_bounds rx" "offset + length b \<le> rx_taken rx + rx_credit rx"
  shows "rx_bounds (place offset b rx)"
proof -
  have in_order: "rx_bounds (drain (rx\<lparr>rx_held := pieces_push b (rx_held rx)\<rparr>))" if "offset = rx_end rx"
    using assms that by (intro drain_bounds push_bounds) simp_all
  have clear: "rx_bounds rx' \<Longrightarrow> rx_bounds (rx'\<lparr>rx_ahead := [], rx_aheadBytes := 0\<rparr>)" for rx' by (simp add: rx_bounds_def)
  have "rx_bounds (rx\<lparr>rx_ahead := mset_at offset b (rx_ahead rx), rx_aheadBytes := n\<rparr>)" for n
    using assms by (auto simp: rx_bounds_def dest!: set_mset_at_new)
  with in_order clear assms(1) show ?thesis by (simp add: place_def Let_def)
qed

lemma onChunk_held: "held_ok s \<Longrightarrow> held_ok (onChunk t pn offset floor' b s)"
proof -
  assume held: "held_ok s"
  show ?thesis
  proof (cases "offset + length b > rx_taken (us_rx s) + rx_credit (us_rx s)")
    case False
    let ?s = "received t pn s"
    let ?rx = "(us_rx ?s)\<lparr>rx_ranges := prune floor' (rx_ranges (us_rx ?s)), rx_furthest := max (rx_furthest (us_rx ?s)) (offset + length b)\<rparr>"
    have v: "rx_view ?s = rx_view s" by simp
    have "rx_bounds (us_rx ?s)" using held_ok_view [OF v] held by simp
    then have "rx_bounds ?rx" by (simp add: rx_bounds_def)
    moreover have "offset + length b \<le> rx_taken ?rx + rx_credit ?rx" using False v by (simp add: rx_view_def)
    ultimately have "rx_bounds (place offset b ?rx)" by (rule place_bounds)
    then have "rx_bounds (us_rx (fail (?s\<lparr>us_rx := place offset b ?rx\<rparr>)))" by (simp add: fail_def)
    with \<open>rx_bounds (place offset b ?rx)\<close> False show ?thesis by (simp add: onChunk_def Let_def)
  qed (use held in \<open>simp add: onChunk_def\<close>)
qed

lemma slices_shift: "pieces_slices (pieces_shift p) \<le> pieces_slices p"
  by (auto simp: pieces_shift_def pieces_slices_def Let_def)

lemma slices_consume: "pieces_slices (snd (consume_loop f n got out p)) \<le> pieces_slices p"
proof (induction f arbitrary: got out p)
  case (Suc f)
  have pat: "pieces_slices (p\<lparr>pat := x\<rparr>) = pieces_slices p" for p x by (simp add: pieces_slices_def)
  have "pieces_slices (if c then pieces_shift (p\<lparr>pat := x\<rparr>) else p\<lparr>pat := x\<rparr>) \<le> pieces_slices p" for c x
    using slices_shift [of "p\<lparr>pat := x\<rparr>"] by (simp add: pat)
  note step = le_trans [OF Suc.IH this]
  show ?case using step [where c1 = True] step [where c1 = False] by (simp add: Let_def)
qed simp

lemma slices_take: "pieces_slices (snd (pieces_take n p)) \<le> pieces_slices p"
  using slices_consume [of _ n 0 "[]" "p\<lparr>pbytes := pbytes p - n\<rparr>"] by (simp add: pieces_take_def pieces_consume_def)

lemma rx_over_less:
  "rx_aheadBytes rx' = rx_aheadBytes rx \<Longrightarrow> rx_ahead rx' = rx_ahead rx \<Longrightarrow> pieces_slices (rx_held rx') \<le> pieces_slices (rx_held rx) \<Longrightarrow>
   rx_credit rx \<le> rx_credit rx' \<Longrightarrow> \<not> rx_over rx \<Longrightarrow> \<not> rx_over rx'"
  unfolding rx_over_def MIN_CHUNK_def by auto

lemma hand_over_held: "held_ok s \<Longrightarrow> held_ok (hand_over s)"
proof -
  assume held: "held_ok s"
  let ?h = "rx_held (us_rx s)" and ?n = "min (pbytes (rx_held (us_rx s))) MAX_READ"
  have h: "pieces_ok ?h" "?n \<le> pbytes ?h" using held by (simp_all add: rx_bounds_def)
  have len: "length (fst (pieces_take ?n ?h)) = ?n"
    using pieces.take_value [OF h] pieces.size_live [OF h(1)] by simp
  have take: "pbytes (snd (pieces_take ?n ?h)) = pbytes ?h - ?n" "pieces_ok (snd (pieces_take ?n ?h))"
    using pieces.inv_take [OF h] by (simp_all add: pieces_take_def pieces_consume_def)
  let ?rx = "(us_rx s)\<lparr>rx_held := snd (pieces_take ?n ?h), rx_taken := rx_taken (us_rx s) + ?n\<rparr>"
  have "rx_bounds ?rx" using held h take by (auto simp: rx_bounds_def)
  moreover have "us_gone s \<or> \<not> rx_over ?rx" using held slices_take [of ?n ?h] rx_over_less [of ?rx "us_rx s"] by auto
  ultimately show ?thesis using held len by (auto simp: hand_over_def case_prod_beta Let_def)
qed

lemma tune_held: "rx_bounds rx \<Longrightarrow> rx_bounds (tune_credit t r rx)" "rx_credit rx \<le> MAX_CREDIT \<Longrightarrow> rx_credit rx \<le> rx_credit (tune_credit t r rx)"
  by (auto simp: tune_credit_def rx_bounds_def Let_def split: option.splits)

lemma deliver_held: "held_ok s \<Longrightarrow> held_ok (deliver t s)"
proof -
  assume "held_ok s"
  then have h: "held_ok (hand_over s)" by (rule hand_over_held)
  let ?rx = "tune_credit t (tx_srtt (us_tx (hand_over s))) (us_rx (hand_over s))"
  have b: "rx_bounds ?rx" using h by (intro tune_held) simp
  have "rx_aheadBytes ?rx = rx_aheadBytes (us_rx (hand_over s))" "rx_ahead ?rx = rx_ahead (us_rx (hand_over s))" "rx_held ?rx = rx_held (us_rx (hand_over s))"
    by (simp_all add: tune_credit_def Let_def)
  then have o': "us_gone (hand_over s) \<or> \<not> rx_over ?rx" using h tune_held(2) [of "us_rx (hand_over s)"] rx_over_less [of ?rx "us_rx (hand_over s)"]
    by (auto simp: rx_bounds_def)
  let ?s = "(hand_over s)\<lparr>us_rx := ?rx\<rparr>"
  have "held_ok ?s" using b o' by simp
  moreover from this have "held_ok (sendAck t ?s)" by (intro held_ok_view [OF view_ack(1) [of t ?s]]) simp_all
  ultimately show ?thesis by (simp add: deliver_def Let_def)
qed

lemma turn_held: "held_ok s \<Longrightarrow> held_ok (turn t s)"
proof -
  assume "held_ok s"
  then have "held_ok (deliver t (s\<lparr>us_rx := (us_rx s)\<lparr>rx_turnDue := False\<rparr>\<rparr>))" (is "held_ok ?s")
    by (intro deliver_held) (simp add: rx_bounds_def rx_over_def)
  moreover from this have "held_ok (sendAck t ?s)" by (intro held_ok_view [OF view_ack(1) [of t ?s]]) simp_all
  ultimately show ?thesis by (simp add: turn_def Let_def)
qed

lemma receive_held: "held_ok s \<Longrightarrow> held_ok (receive t p s)"
proof -
  assume held: "held_ok s"
  let ?s = "s\<lparr>us_lastHeard := t\<rparr>"
  have s: "held_ok ?s" using held by simp
  have "held_ok (onAck t p ?s)" using view_onAck [of t p ?s] s by (intro held_ok_view [of "onAck t p ?s" ?s]) simp_all
  moreover have "held_ok (received t n ?s)" for n using s by (intro held_ok_view [OF view_received(1) [of t n ?s]]) simp_all
  moreover have "held_ok (fail ?s)" using s by (intro held_ok_view [OF view_fail(1) [of ?s]]) simp_all
  ultimately show ?thesis using held s onChunk_held [OF s] by (auto simp: receive_def Let_def)
qed

lemma reach_held: "udp_reach H s \<Longrightarrow> held_ok s"
proof (induction rule: udp_reach.induct)
  case created
  show ?case using pieces.inv_empty [of 0]
    by (simp add: UdpStream_new_def Rx_new_def rx_bounds_def rx_over_def pieces_slices_def MAX_CREDIT_def) (simp add: new_Pieces_def)
next
  case (gets_reader s t)
  then show ?case unfolding reader_def by (intro deliver_held) simp
next
  case (read_done s t)
  then show ?case unfolding readDone_def by (intro deliver_held) simp
next
  case (sends s t b)
  then show ?case using held_ok_view view_send by metis
next
  case (starts s t)
  then show ?case using held_ok_view view_start by metis
next
  case (moves s t rtt)
  then show ?case using held_ok_view view_repath by metis
next
  case (closes s t graceful)
  then show ?case using held_ok_view view_close by metis
next
  case (wakes s t)
  have "us_gone s \<longrightarrow> us_gone (snd (onWake t s))" by (simp add: onWake_def)
  with wakes show ?case using held_ok_view view_wake by metis
qed (simp_all add: receive_held turn_held)

text \<open>Whatever a peer sends, a live stream's receiving side stays within its bounds: the bytes held for the reader are at
  most the credit it gave, which never passes \<open>MAX_CREDIT\<close>, the packets waiting past a gap come to at most two credits, and
  the pieces held are at most one per \<open>MIN_CHUNK / 2\<close> bytes of credit.\<close>

theorem udp_receiver_bounded:
  assumes "udp_reach (\<lambda>_. True) s" "\<not> us_gone s"
  shows "let rx = us_rx s in pbytes (rx_held rx) \<le> rx_credit rx \<and> rx_credit rx \<le> MAX_CREDIT \<and> rx_aheadBytes rx \<le> 2 * rx_credit rx \<and>
    (pieces_slices (rx_held rx) + length (rx_ahead rx)) * MIN_CHUNK \<le> 2 * rx_credit rx"
  using reach_held [OF assms(1)] assms(2) by (auto simp: rx_bounds_def rx_over_def Let_def)

theorem udp_receiver_bounded_witness:
  "pbytes (rx_held (us_rx (start 1 UdpStream_new))) \<le> rx_credit (us_rx (start 1 UdpStream_new))"
proof -
  have "udp_reach (\<lambda>_. True) (start 1 UdpStream_new)" by (intro udp_reach.intros)
  moreover have "\<not> us_gone (start 1 UdpStream_new)" using view_start [of 1 UdpStream_new] by (simp add: UdpStream_new_def)
  ultimately show ?thesis using udp_receiver_bounded [of "start 1 UdpStream_new"] by (simp add: Let_def)
qed

end
