(* ===== verification/Udp_Send.thy ===== *)
theory Udp_Send
  imports Udp_Recv
begin

text \<open>
  The sending half of the stream: what a packet carries is the stream's, no byte is given up before a packet that
  carried it is acked, and the books of what is in flight and of the window are right. The two halves are then put
  together over a path that may lose, repeat and reorder packets.
\<close>

declare map_of_eq_Some_iff [simp del]

section \<open>The sender's books\<close>

text \<open>Bytes cut into chunks and bytes still to be cut are the stream's, and nothing is cut past the peer's credit.\<close>

definition tx_stream :: "bytes \<Rightarrow> Tx \<Rightarrow> bool" where
  "tx_stream S tx \<longleftrightarrow> pieces_ok (tx_unsent tx) \<and> tx_written tx = length S \<and> tx_nextOffset tx \<le> length S \<and>
     pieces_live (tx_unsent tx) = drop (tx_nextOffset tx) S \<and> tx_nextOffset tx \<le> tx_peerCredit tx \<and>
     (\<forall>o' c. map_of (tx_chunks tx) o' = Some c \<longrightarrow> o' + length c \<le> tx_nextOffset tx \<and> piece_of S o' c)"

text \<open>No chunk and no packet in flight begins inside a chunk: chunks are only ever split where nothing began.\<close>

definition mark :: "Tx \<Rightarrow> nat \<Rightarrow> bool" where
  "mark tx x \<longleftrightarrow> map_of (tx_chunks tx) x \<noteq> None \<or> (\<exists>pn sp. map_of (tx_inFlight tx) pn = Some sp \<and> sp_offset sp = x)"

definition tx_marks :: "Tx \<Rightarrow> bool" where
  "tx_marks tx \<longleftrightarrow> (\<forall>x. mark tx x \<longrightarrow> x < tx_nextOffset tx \<and>
     (\<forall>o' c. map_of (tx_chunks tx) o' = Some c \<longrightarrow> x \<le> o' \<or> o' + length c \<le> x))"

text \<open>What is in flight: its bytes add up, its numbers were used, each packet is on the wire \<open>W\<close> and carried at least the
  chunk that is now at its offset.\<close>

definition tx_flight :: "bytes set \<Rightarrow> Tx \<Rightarrow> bool" where
  "tx_flight W tx \<longleftrightarrow> distinct (map fst (tx_inFlight tx)) \<and> tx_bytesInFlight tx = (\<Sum>(pn, sp) \<leftarrow> tx_inFlight tx. sp_size sp) \<and>
     (\<forall>pn sp. map_of (tx_inFlight tx) pn = Some sp \<longrightarrow> pn < tx_nextPn tx \<and>
       (\<exists>f c. data_packet pn (sp_offset sp) f c \<in> W \<and> sp_size sp = DATA_HEADER + length c) \<and>
       (\<forall>c. map_of (tx_chunks tx) (sp_offset sp) = Some c \<longrightarrow> DATA_HEADER + length c \<le> sp_size sp))"

definition tx_window_ok :: "Tx \<Rightarrow> bool" where
  "tx_window_ok tx \<longleftrightarrow> of_nat MIN_WINDOW \<le> tx_window tx \<and> (\<forall>w th. tx_undo tx = Some (w, th) \<longrightarrow> of_nat MIN_WINDOW \<le> w) \<and>
     BASE_PACKET \<le> tx_packetBytes tx"

text \<open>Every position cut so far is in a chunk still kept, but for those in \<open>A\<close>, the acked ones.\<close>

definition tx_covered :: "nat set \<Rightarrow> Tx \<Rightarrow> bool" where
  "tx_covered A tx \<longleftrightarrow> (\<forall>x < tx_nextOffset tx. x \<in> A \<or> (\<exists>o' c. map_of (tx_chunks tx) o' = Some c \<and> o' \<le> x \<and> x < o' + length c))"

definition tx_ok :: "bytes \<Rightarrow> nat set \<Rightarrow> bytes set \<Rightarrow> Tx \<Rightarrow> bool" where
  "tx_ok S A W tx \<longleftrightarrow> tx_stream S tx \<and> tx_marks tx \<and> tx_flight W tx \<and> tx_window_ok tx \<and> tx_covered A tx"

lemmas tx_ok_defs = tx_ok_def tx_stream_def tx_marks_def mark_def tx_flight_def tx_window_ok_def tx_covered_def

text \<open>The fields the books are about; the rest of the state they do not see.\<close>

definition books :: "Tx \<Rightarrow> Pieces \<times> nat \<times> nat \<times> (nat \<times> bytes) list \<times> (nat \<times> Sent) list \<times> nat \<times> nat \<times> nat \<times> rat \<times> (rat \<times> rat option) option \<times> nat" where
  "books tx = (tx_unsent tx, tx_written tx, tx_nextOffset tx, tx_chunks tx, tx_inFlight tx, tx_bytesInFlight tx, tx_nextPn tx,
     tx_peerCredit tx, tx_window tx, tx_undo tx, tx_packetBytes tx)"

lemma tx_ok_books: "tx_ok S A W tx' \<Longrightarrow> books tx = books tx' \<Longrightarrow> tx_ok S A W tx"
  by (simp add: books_def tx_ok_defs)

lemma books_updates [simp]:
  "books (tx\<lparr>tx_sentOffsets := a\<rparr>) = books tx" "books (tx\<lparr>tx_sentHead := b\<rparr>) = books tx" "books (tx\<lparr>tx_lost := c\<rparr>) = books tx"
  "books (tx\<lparr>tx_oldestPn := d\<rparr>) = books tx" "books (tx\<lparr>tx_largestAcked := e\<rparr>) = books tx" "books (tx\<lparr>tx_threshold := f\<rparr>) = books tx"
  "books (tx\<lparr>tx_recoveryStart := g\<rparr>) = books tx" "books (tx\<lparr>tx_suspects := h\<rparr>) = books tx" "books (tx\<lparr>tx_windowLimited := i\<rparr>) = books tx"
  "books (tx\<lparr>tx_ptoCount := j\<rparr>) = books tx" "books (tx\<lparr>tx_lastSentData := k\<rparr>) = books tx" "books (tx\<lparr>tx_lossTime := l\<rparr>) = books tx"
  "books (tx\<lparr>tx_probes := m\<rparr>) = books tx" "books (tx\<lparr>tx_reprobe := n\<rparr>) = books tx" "books (tx\<lparr>tx_srtt := q\<rparr>) = books tx"
  "books (tx\<lparr>tx_rttvar := r\<rparr>) = books tx" "books (tx\<lparr>tx_minRtt := u\<rparr>) = books tx" "books (tx\<lparr>tx_latestRtt := v\<rparr>) = books tx"
  by (simp_all add: books_def)

lemma books_advance [simp]: "books (advanceOldest tx) = books tx"
proof (induction tx rule: advanceOldest.induct)
  case (1 tx)
  then show ?case by (subst advanceOldest.simps) simp
qed

lemma books_skip [simp]: "books (skip_acked tx) = books tx"
proof (induction tx rule: skip_acked.induct)
  case (1 tx)
  then show ?case by (subst skip_acked.simps) simp
qed

lemma books_oldest [simp]: "books (snd (oldestChunk tx)) = books tx"
  by (simp add: oldestChunk_def Let_def)

lemma books_buffered [simp]: "books (snd (buffered tx)) = books tx"
  by (simp add: buffered_def case_prod_beta Let_def)

lemma books_sample [simp]: "books (sample a b tx) = books tx"
  by (simp add: sample_def Let_def split: option.split)

lemma tx_ok_mono: "tx_ok S A W tx \<Longrightarrow> A \<subseteq> A' \<Longrightarrow> W \<subseteq> W' \<Longrightarrow> tx_ok S A' W' tx"
  unfolding tx_ok_def tx_flight_def tx_covered_def by blast

lemma tx_ok_new: "tx_ok [] A W Tx_new"
  by (simp add: tx_ok_defs Tx_new_def INITIAL_WINDOW_def MIN_WINDOW_def BASE_PACKET_def pieces.live_empty pieces.inv_empty)

lemma flight_facts:
  assumes "tx_ok S A W tx" "map_of (tx_inFlight tx) pn = Some sp"
  shows "pn < tx_nextPn tx" "\<exists>f c. data_packet pn (sp_offset sp) f c \<in> W \<and> sp_size sp = DATA_HEADER + length c"
    and "map_of (tx_chunks tx) (sp_offset sp) = Some c \<Longrightarrow> DATA_HEADER + length c \<le> sp_size sp"
  using assms by (simp_all add: tx_ok_def tx_flight_def)

section \<open>Loss\<close>

lemma tx_ok_unflight:
  assumes "tx_ok S A W tx" "map_of (tx_inFlight tx) pn = Some sp"
  shows "tx_ok S A W (tx\<lparr>tx_inFlight := mdel pn (tx_inFlight tx), tx_bytesInFlight := tx_bytesInFlight tx - sp_size sp\<rparr>)"
proof -
  have "(\<Sum>(pn, sp) \<leftarrow> mdel pn (tx_inFlight tx). sp_size sp) = (\<Sum>(pn, sp) \<leftarrow> tx_inFlight tx. sp_size sp) - sp_size sp"
    using assms by (intro sum_mdel) (simp_all add: tx_ok_def tx_flight_def)
  moreover have "mark (tx\<lparr>tx_inFlight := mdel pn (tx_inFlight tx), tx_bytesInFlight := n\<rparr>) x \<Longrightarrow> mark tx x" for n x
    by (auto simp: mark_def split: if_splits)
  ultimately show ?thesis using assms(1)
    by (simp add: tx_ok_def tx_stream_def tx_marks_def tx_flight_def tx_window_ok_def tx_covered_def)
qed

lemma loss_step_ok:
  assumes "tx_ok S A W (fst acc)"
  shows "tx_ok S A W (fst (loss_step t delay pers pn acc))"
proof -
  obtain tx l where acc: "acc = (tx, l)" by (cases acc)
  show ?thesis
  proof (cases "map_of (tx_inFlight tx) pn")
    case None
    with assms acc show ?thesis by (simp add: loss_step_def)
  next
    case (Some sp)
    let ?tx = "tx\<lparr>tx_inFlight := mdel pn (tx_inFlight tx), tx_bytesInFlight := tx_bytesInFlight tx - sp_size sp\<rparr>"
    have tx: "tx_ok S A W ?tx" using tx_ok_unflight [OF _ Some] assms acc by simp
    then have "tx_ok S A W (?tx\<lparr>tx_lost := x\<rparr>)" for x by (rule tx_ok_books) simp
    moreover have "tx_ok S A W (tx\<lparr>tx_lossTime := x\<rparr>)" for x by (rule tx_ok_books [of _ _ _ tx]) (use assms acc in simp_all)
    ultimately show ?thesis using Some acc tx by (simp add: loss_step_def Let_def split: option.split)
  qed
qed

lemma loss_steps_ok: "tx_ok S A W (fst acc) \<Longrightarrow> tx_ok S A W (fst (fold (loss_step t delay pers) pns acc))"
  by (induction pns arbitrary: acc) (simp_all add: loss_step_ok)

lemma tx_ok_window:
  "tx_ok S A W tx \<Longrightarrow> of_nat MIN_WINDOW \<le> w \<Longrightarrow> (\<And>w' th. u = Some (w', th) \<Longrightarrow> of_nat MIN_WINDOW \<le> w') \<Longrightarrow> BASE_PACKET \<le> b \<Longrightarrow>
   tx_ok S A W (tx\<lparr>tx_window := w, tx_undo := u, tx_packetBytes := b\<rparr>)"
  by (simp add: tx_ok_defs)

lemma tx_ok_window_facts:
  assumes "tx_ok S A W tx"
  shows "of_nat MIN_WINDOW \<le> tx_window tx" "tx_undo tx = Some (w, th) \<Longrightarrow> of_nat MIN_WINDOW \<le> w" "BASE_PACKET \<le> tx_packetBytes tx"
  using assms by (simp_all add: tx_ok_def tx_window_ok_def)

lemma cut_window_ok:
  assumes "tx_ok S A W tx"
  shows "tx_ok S A W (cut_window t l tx)"
proof (rule tx_ok_books)
  let ?tx = "cut_window t l tx"
  show "tx_ok S A W (tx\<lparr>tx_window := tx_window ?tx, tx_undo := tx_undo ?tx, tx_packetBytes := tx_packetBytes tx\<rparr>)"
    using tx_ok_window_facts [OF assms]
    by (intro tx_ok_window [OF assms]) (auto simp: cut_window_def Let_def split: option.splits if_splits)
  show "books ?tx = books (tx\<lparr>tx_window := tx_window ?tx, tx_undo := tx_undo ?tx, tx_packetBytes := tx_packetBytes tx\<rparr>)"
    by (simp add: cut_window_def books_def Let_def split: option.split)
qed

lemma keep_suspects_ok: "tx_ok S A W tx \<Longrightarrow> tx_ok S A W (keep_suspects pns tx)"
  by (simp add: keep_suspects_def tx_ok_defs)

lemma detectLoss_ok:
  assumes "tx_ok S A W tx"
  shows "tx_ok S A W (detectLoss t tx)"
proof -
  let ?tx = "advanceOldest (tx\<lparr>tx_lossTime := None\<rparr>)"
  have tx: "tx_ok S A W ?tx" by (rule tx_ok_books [OF assms]) simp
  have "tx_ok S A W (advanceOldest (keep_suspects y (cut_window t l (fst (fold (loss_step t d p) pns (?tx, l')))))) " for y l d p pns l'
    by (rule tx_ok_books [OF keep_suspects_ok [OF cut_window_ok [OF loss_steps_ok]]]) (use tx in simp_all)
  then show ?thesis by (simp add: detectLoss_def Let_def case_prod_beta)
qed

lemma clear_suspects_ok: "tx_ok S A W tx \<Longrightarrow> tx_ok S A W (clear_suspects p n tx)"
  by (auto simp: clear_suspects_def tx_ok_defs Let_def split: option.splits)

section \<open>Cutting and sending\<close>

text \<open>Chunks do not overlap.\<close>

lemma chunks_apart:
  assumes "tx_ok S A W tx" "map_of (tx_chunks tx) x = Some c" "map_of (tx_chunks tx) y = Some d" "x < y"
  shows "x + length c \<le> y"
proof -
  have "mark tx y" using assms(3) by (simp add: mark_def)
  with assms show ?thesis by (fastforce simp: tx_ok_def tx_marks_def)
qed

lemma chunk_facts:
  assumes "tx_ok S A W tx" "map_of (tx_chunks tx) o' = Some c"
  shows "o' + length c \<le> tx_nextOffset tx" "piece_of S o' c"
    and "mark tx x \<Longrightarrow> x \<le> o' \<or> o' + length c \<le> x"
  using assms by (auto simp: tx_ok_def tx_stream_def tx_marks_def)

lemma piece_of_take: "piece_of S o' c \<Longrightarrow> piece_of S o' (take m c)"
proof -
  assume p: "piece_of S o' c"
  then have "take m c = take m (take (length c) (drop o' S))" by (simp add: piece_of_def)
  also have "\<dots> = take (length (take m c)) (drop o' S)" by (simp add: min.commute)
  finally show ?thesis using p by (auto simp: piece_of_def)
qed

lemma piece_of_drop: "piece_of S o' c \<Longrightarrow> m \<le> length c \<Longrightarrow> piece_of S (o' + m) (drop m c)"
proof -
  assume p: "piece_of S o' c" and m: "m \<le> length c"
  then have "drop m c = drop m (take (length c) (drop o' S))" by (simp add: piece_of_def)
  also have "\<dots> = take (length (drop m c)) (drop (o' + m) S)" by (simp add: drop_take add.commute)
  finally show ?thesis using p m by (auto simp: piece_of_def)
qed

lemma split_ok:
  assumes ok: "tx_ok S A W tx" and c: "map_of (tx_chunks tx) o' = Some c" and m: "0 < m" "m < length c"
    and tx': "tx' = tx\<lparr>tx_chunks := mset_at (o' + m) (drop m c) (mset_at o' (take m c) (tx_chunks tx))\<rparr>"
  shows "tx_ok S A W tx'"
proof -
  note f = chunk_facts [OF ok c]
  have chunks: "map_of (tx_chunks tx') y = Some d \<longleftrightarrow>
      (if y = o' + m then d = drop m c else if y = o' then d = take m c else map_of (tx_chunks tx) y = Some d)" for y d
    by (auto simp: tx')
  have same: "tx_inFlight tx' = tx_inFlight tx" "tx_nextOffset tx' = tx_nextOffset tx" "tx_nextPn tx' = tx_nextPn tx"
    "tx_bytesInFlight tx' = tx_bytesInFlight tx" by (simp_all add: tx')
  have "tx_stream S tx'"
    using ok f(1,2) m piece_of_take [OF f(2)] piece_of_drop [OF f(2), of m] unfolding tx_ok_def tx_stream_def chunks
    by (auto simp: tx' split: if_splits)
  moreover have "tx_window_ok tx'" using ok by (simp add: tx_ok_def tx_window_ok_def tx')
  moreover have "tx_covered A tx'"
    unfolding tx_covered_def same
  proof (intro allI impI)
    fix x assume "x < tx_nextOffset tx"
    with ok consider "x \<in> A" | y d where "map_of (tx_chunks tx) y = Some d" "y \<le> x" "x < y + length d"
      by (auto simp: tx_ok_def tx_covered_def)
    then show "x \<in> A \<or> (\<exists>o' c. map_of (tx_chunks tx') o' = Some c \<and> o' \<le> x \<and> x < o' + length c)"
    proof cases
      case (2 y d)
      have "y \<noteq> o' + m" using f(3) [of y] m 2(1) by (auto simp: mark_def)
      show ?thesis
      proof (cases "y = o'")
        case True
        with 2 c m show ?thesis unfolding chunks by (cases "x < o' + m") (auto intro: exI [of _ o'] exI [of _ "o' + m"])
      qed (use 2 \<open>y \<noteq> o' + m\<close> in \<open>auto simp: chunks\<close>)
    qed simp
  qed
  moreover have "tx_flight W tx'"
  proof -
    have "sp_offset sp \<noteq> o' + m" if "map_of (tx_inFlight tx) pn = Some sp" for pn sp
    proof -
      have "mark tx (sp_offset sp)" using that by (auto simp: mark_def)
      with f(3) [of "sp_offset sp"] m show ?thesis by auto
    qed
    moreover have "DATA_HEADER + m \<le> sp_size sp" if "map_of (tx_inFlight tx) pn = Some sp" "sp_offset sp = o'" for pn sp
      using flight_facts(3) [OF ok that(1), of c] that(2) c m by simp
    ultimately show ?thesis using ok m unfolding tx_ok_def tx_flight_def chunks same by (auto split: if_splits)
  qed
  moreover have "tx_marks tx'"
    unfolding tx_marks_def same
  proof (intro allI impI conjI)
    fix x assume x: "mark tx' x"
    have old: "mark tx x" if "x \<noteq> o' + m" using x that c by (auto simp: mark_def tx' split: if_splits)
    then show "x < tx_nextOffset tx" using ok f(1) m by (cases "x = o' + m") (auto simp: tx_ok_def tx_marks_def)
    fix y d assume d: "map_of (tx_chunks tx') y = Some d"
    show "x \<le> y \<or> y + length d \<le> x"
    proof (cases "x = o' + m")
      case True
      show ?thesis
      proof (cases "y = o' + m \<or> y = o'")
        case False
        then have "map_of (tx_chunks tx) y = Some d" using d by (simp add: chunks)
        with chunks_apart [OF ok c this] chunks_apart [OF ok this c] False True m show ?thesis by (cases y o' rule: linorder_cases) auto
      qed (use True d m in \<open>auto simp: chunks split: if_splits\<close>)
    next
      case False
      with old f(3) [of x] ok d m show ?thesis by (auto simp: chunks tx_ok_def tx_marks_def split: if_splits)
    qed
  qed
  ultimately show ?thesis by (simp add: tx_ok_def)
qed

lemma fit_ok:
  assumes "tx_ok S A W tx" "map_of (tx_chunks tx) o' = Some c"
  shows "tx_ok S A W (fit o' c tx)"
proof (cases "length c \<le> tx_packetBytes tx - DATA_HEADER")
  case False
  let ?m = "tx_packetBytes tx - DATA_HEADER"
  have "0 < ?m" using tx_ok_window_facts(3) [OF assms(1)] by (simp add: DATA_HEADER_def PATH_HEADER_def BASE_PACKET_def)
  with False have "tx_ok S A W (tx\<lparr>tx_chunks := mset_at (o' + ?m) (drop ?m c) (mset_at o' (take ?m c) (tx_chunks tx))\<rparr>)"
    by (intro split_ok [OF assms, of ?m]) simp_all
  then show ?thesis by (rule tx_ok_books) (use False in \<open>simp add: fit_def Let_def books_def\<close>)
qed (use assms in \<open>simp add: fit_def\<close>)

lemma fit_keeps: "map_of (tx_chunks tx) o' = Some c \<Longrightarrow> map_of (tx_chunks (fit o' c tx)) o' \<noteq> None"
  by (simp add: fit_def Let_def)

lemma next_lost_chunk: "next_lost l chunks = (Some (o', c), r) \<Longrightarrow> map_of chunks o' = Some c"
  by (induction l chunks rule: next_lost.induct) (auto split: option.splits)

lemma new_chunk_ok:
  assumes ok: "tx_ok S A W tx" and n: "n \<le> pbytes (tx_unsent tx)" "n \<le> tx_peerCredit tx - tx_nextOffset tx" "0 < n"
  shows "tx_ok S A W (tx\<lparr>tx_chunks := mset_at (tx_nextOffset tx) (fst (pieces_take n (tx_unsent tx))) (tx_chunks tx),
      tx_unsent := snd (pieces_take n (tx_unsent tx)), tx_nextOffset := tx_nextOffset tx + n\<rparr>)" (is "tx_ok S A W ?tx")
proof -
  let ?N = "tx_nextOffset tx" and ?c = "fst (pieces_take n (tx_unsent tx))"
  have p: "pieces_ok (tx_unsent tx)" and live: "pieces_live (tx_unsent tx) = drop ?N S" and N: "?N \<le> length S" "?N \<le> tx_peerCredit tx"
    using ok by (simp_all add: tx_ok_def tx_stream_def)
  have size: "n \<le> length S - ?N" using n(1) live pieces.size_live [OF p] by simp
  have c: "?c = take n (drop ?N S)" and lc: "length ?c = n" using pieces.take_value [OF p n(1)] live size by simp_all
  have piece: "piece_of S ?N ?c" using c lc size N by (simp add: piece_of_def)
  have fresh: "map_of (tx_chunks tx) ?N = None" "\<And>pn sp. map_of (tx_inFlight tx) pn = Some sp \<Longrightarrow> sp_offset sp < ?N"
    using ok by (auto simp: tx_ok_def tx_marks_def mark_def)
  have mk: "mark ?tx x \<longleftrightarrow> mark tx x \<or> x = ?N" for x by (auto simp: mark_def)
  have "tx_stream S ?tx"
    using ok size n N pieces.live_take [OF p n(1)] pieces.inv_take [OF p n(1)] live piece lc
    by (fastforce simp: tx_ok_def tx_stream_def add.commute split: if_splits)
  moreover have "tx_window_ok ?tx" using ok by (simp add: tx_ok_def tx_window_ok_def)
  moreover have "tx_flight W ?tx" using ok fresh(2) unfolding tx_ok_def tx_flight_def by fastforce
  moreover have "tx_covered A ?tx"
    unfolding tx_covered_def
  proof (intro allI impI)
    fix x assume x: "x < tx_nextOffset ?tx"
    show "x \<in> A \<or> (\<exists>o' c. map_of (tx_chunks ?tx) o' = Some c \<and> o' \<le> x \<and> x < o' + length c)"
    proof (cases "x < ?N")
      case True
      with ok consider "x \<in> A" | o' c where "map_of (tx_chunks tx) o' = Some c" "o' \<le> x" "x < o' + length c"
        by (auto simp: tx_ok_def tx_covered_def)
      then show ?thesis
      proof cases
        case (2 o' c)
        with fresh(1) have "map_of (tx_chunks ?tx) o' = Some c" by auto
        with 2(2,3) show ?thesis by blast
      qed simp
    qed (use x lc in \<open>auto intro: exI [of _ ?N]\<close>)
  qed
  moreover have "tx_marks ?tx" using ok n(3) unfolding tx_ok_def tx_marks_def mk tx_stream_def by (fastforce split: if_splits)
  ultimately show ?thesis by (simp add: tx_ok_def)
qed

lemma nextChunk_ok:
  assumes "tx_ok S A W tx"
  shows "tx_ok S A W (snd (nextChunk probe tx))"
proof -
  obtain l r where l: "next_lost (tx_lost tx) (tx_chunks tx) = (l, r)" by fastforce
  let ?tx = "tx\<lparr>tx_lost := r\<rparr>"
  have ok: "tx_ok S A W ?tx" by (rule tx_ok_books [OF assms]) simp
  show ?thesis
  proof (cases l)
    case (Some oc)
    obtain o' c where oc: "oc = (o', c)" by (cases oc)
    have "map_of (tx_chunks ?tx) o' = Some c" using next_lost_chunk l Some oc by simp
    from fit_ok [OF ok this] show ?thesis using l Some oc by (simp add: nextChunk_def)
  next
    case None
    let ?n = "new_chunk_size ?tx"
    consider "?n > 0" | "?n = 0" probe | "?n = 0" "\<not> probe" by blast
    then show ?thesis
    proof cases
      case 1
      have "tx_ok S A W (?tx\<lparr>tx_chunks := mset_at (tx_nextOffset ?tx) (fst (pieces_take ?n (tx_unsent ?tx))) (tx_chunks ?tx),
          tx_unsent := snd (pieces_take ?n (tx_unsent ?tx)), tx_nextOffset := tx_nextOffset ?tx + ?n\<rparr>)"
        by (rule new_chunk_ok [OF ok]) (use 1 in \<open>simp_all add: new_chunk_size_def\<close>)
      then have "tx_ok S A W (?tx\<lparr>tx_chunks := mset_at (tx_nextOffset ?tx) (fst (pieces_take ?n (tx_unsent ?tx))) (tx_chunks ?tx),
          tx_unsent := snd (pieces_take ?n (tx_unsent ?tx)), tx_nextOffset := tx_nextOffset ?tx + ?n, tx_sentOffsets := x\<rparr>)" for x
        by (rule tx_ok_books) (simp add: books_def)
      then show ?thesis using l None 1 by (simp add: nextChunk_def Let_def case_prod_beta)
    next
      case 2
      obtain x tx' where x: "oldestChunk ?tx = (x, tx')" by fastforce
      have ok': "tx_ok S A W tx'" by (rule tx_ok_books [OF ok]) (metis books_oldest snd_conv x)
      have "tx_ok S A W (fit o' c tx')" if "map_of (tx_chunks tx') o' = Some c" for o' c by (rule fit_ok [OF ok' that])
      with ok' show ?thesis using l None 2 x by (auto simp: nextChunk_def Let_def split: option.split)
    next
      case 3
      with ok l None show ?thesis by (simp add: nextChunk_def Let_def)
    qed
  qed
qed

lemma data_packet_length: "length (data_packet pn offset f c) = DATA_HEADER + length c"
  by (simp add: data_packet_def Let_def DATA_HEADER_def)

lemma flown_ok:
  assumes ok: "tx_ok S A W tx" and c: "map_of (tx_chunks tx) o' = Some c"
    and sp: "sp = \<lparr>sp_offset = o', sp_size = DATA_HEADER + length c, sp_time = t\<rparr>" and p: "data_packet (tx_nextPn tx) o' f c \<in> W"
  shows "tx_ok S A W (tx\<lparr>tx_nextPn := tx_nextPn tx + 1, tx_inFlight := mset_at (tx_nextPn tx) sp (tx_inFlight tx),
      tx_bytesInFlight := tx_bytesInFlight tx + sp_size sp\<rparr>)" (is "tx_ok S A W ?tx")
proof -
  have fresh: "map_of (tx_inFlight tx) (tx_nextPn tx) = None"
    using flight_facts(1) [OF ok, of "tx_nextPn tx"] by (cases "map_of (tx_inFlight tx) (tx_nextPn tx)") simp_all
  have mk: "mark ?tx x \<Longrightarrow> mark tx x" for x using c sp by (auto simp: mark_def split: if_splits)
  have "tx_flight W ?tx"
    using ok c sp p by (auto simp: tx_ok_def tx_flight_def sum_mset_at [OF fresh] less_Suc_eq)
  moreover have "tx_marks ?tx" using ok mk by (simp add: tx_ok_def tx_marks_def)
  ultimately show ?thesis using ok by (simp add: tx_ok_def tx_stream_def tx_window_ok_def tx_covered_def)
qed

section \<open>Acks\<close>

text \<open>The packet number \<open>pn\<close> carried the position \<open>x\<close>.\<close>

definition carried :: "bytes set \<Rightarrow> nat \<Rightarrow> nat \<Rightarrow> bool" where
  "carried W pn x \<longleftrightarrow> (\<exists>o' f c. data_packet pn o' f c \<in> W \<and> o' \<le> x \<and> x < o' + length c)"

lemma ack_pn_ok:
  assumes ok: "tx_ok S A W (fst acc)" and A: "\<And>x. carried W (nat pn) x \<Longrightarrow> x \<in> A"
  shows "tx_ok S A W (fst (ack_pn largest pn acc))"
proof -
  obtain tx newest where acc: "acc = (tx, newest)" by (cases acc)
  show ?thesis
  proof (cases "map_of (tx_inFlight tx) (nat pn)")
    case None
    with ok acc show ?thesis by (simp add: ack_pn_def)
  next
    case (Some sp)
    let ?tx = "fst (ack_pn largest pn acc)" and ?o = "sp_offset sp"
    let ?un = "tx\<lparr>tx_inFlight := mdel (nat pn) (tx_inFlight tx), tx_bytesInFlight := tx_bytesInFlight tx - sp_size sp\<rparr>"
    have ok: "tx_ok S A W tx" using ok acc by simp
    have un: "tx_ok S A W ?un" by (rule tx_ok_unflight [OF ok Some])
    obtain f c where c: "data_packet (nat pn) ?o f c \<in> W" "sp_size sp = DATA_HEADER + length c"
      using flight_facts(2) [OF ok Some] by blast
    have acked: "x \<in> A" if "map_of (tx_chunks tx) ?o = Some d" "?o \<le> x" "x < ?o + length d" for d x
    proof (rule A)
      have "x < ?o + length c" using c(2) flight_facts(3) [OF ok Some that(1)] that(3) by simp
      with c(1) that(2) show "carried W (nat pn) x" unfolding carried_def by blast
    qed
    have w: "0 < tx_window tx" "of_nat MIN_WINDOW \<le> tx_window tx"
      using tx_ok_window_facts(1) [OF ok] by (simp_all add: MIN_WINDOW_def BASE_PACKET_def)
    have grows: "tx_window tx \<le> tx_window tx + of_nat n / tx_window tx" "tx_window tx \<le> tx_window tx + of_nat n" for n
      using w(1) by simp_all
    have fields: "tx_chunks ?tx = mdel ?o (tx_chunks tx)" "tx_inFlight ?tx = mdel (nat pn) (tx_inFlight tx)"
      "tx_bytesInFlight ?tx = tx_bytesInFlight tx - sp_size sp" "tx_unsent ?tx = tx_unsent tx" "tx_written ?tx = tx_written tx"
      "tx_nextOffset ?tx = tx_nextOffset tx" "tx_peerCredit ?tx = tx_peerCredit tx" "tx_nextPn ?tx = tx_nextPn tx"
      "tx_undo ?tx = tx_undo tx" "tx_packetBytes ?tx = tx_packetBytes tx" "of_nat MIN_WINDOW \<le> tx_window ?tx"
      using Some acc order_trans [OF w(2) grows(1)] order_trans [OF w(2) grows(2)] w(2) by (simp_all add: ack_pn_def del: of_nat_mult)
    have mk: "mark ?tx x \<Longrightarrow> mark ?un x" for x unfolding mark_def fields by (auto split: if_splits)
    have "tx_covered A ?tx" using un acked unfolding tx_ok_def tx_covered_def fields by (auto split: if_splits) metis
    moreover have "tx_flight W ?tx" using un unfolding tx_ok_def tx_flight_def fields by (auto split: if_splits)
    moreover have "tx_marks ?tx" using un mk unfolding tx_ok_def tx_marks_def fields by (auto split: if_splits)
    moreover have "tx_stream S ?tx" using un unfolding tx_ok_def tx_stream_def fields by (auto split: if_splits)
    moreover have "tx_window_ok ?tx" using un fields(11) unfolding tx_ok_def tx_window_ok_def fields by simp
    ultimately show ?thesis by (simp add: tx_ok_def)
  qed
qed

lemma ack_pns_ok:
  "tx_ok S A W (fst acc) \<Longrightarrow> \<forall>pn \<in> set pns. Collect (carried W (nat pn)) \<subseteq> A \<Longrightarrow>
   tx_ok S A W (fst (fold (ack_pn largest) pns acc))"
proof (induction pns arbitrary: acc)
  case (Cons pn pns)
  have "tx_ok S A W (fst (ack_pn largest pn acc))" by (rule ack_pn_ok [OF Cons.prems(1)]) (use Cons.prems(2) in auto)
  from Cons.IH [OF this] Cons.prems(2) show ?case by simp
qed simp

lemma ack_ranges_ok:
  "tx_ok S A W (fst acc) \<Longrightarrow> \<forall>pn. names_from p i n pn \<longrightarrow> Collect (carried W pn) \<subseteq> A \<Longrightarrow>
   tx_ok S A W (fst (ack_ranges p sent largest i n below acc))"
proof (induction n arbitrary: i below acc)
  case (Suc n)
  define hi where "hi = (case below of None \<Rightarrow> min (int (readU48BE p (B + 9 + 12 * i))) sent
    | Some b \<Rightarrow> min (min (int (readU48BE p (B + 9 + 12 * i))) sent) b)"
  define lo where "lo = max (int (readU48BE p (B + 15 + 12 * i))) (int (tx_oldestPn (fst acc)))"
  have eq: "ack_ranges p sent largest i (Suc n) below acc =
      (if lo > hi then ack_ranges p sent largest (i + 1) n below acc
       else ack_ranges p sent largest (i + 1) n (Some (lo - 1)) (fold (ack_pn largest) [lo..hi] acc))"
    by (simp add: hi_def lo_def Let_def)
  have "names_from p i (Suc n) (nat pn)" if "pn \<in> set [lo..hi]" for pn
    using that by (auto simp: hi_def lo_def nat_le_iff le_nat_iff split: option.splits)
  then have "tx_ok S A W (fst (fold (ack_pn largest) [lo..hi] acc))"
    using Suc.prems(2) by (intro ack_pns_ok [OF Suc.prems(1)]) blast
  moreover have "\<forall>pn. names_from p (i + 1) n pn \<longrightarrow> Collect (carried W pn) \<subseteq> A" using Suc.prems(2) by simp
  ultimately show ?case unfolding eq using Suc.IH Suc.prems(1) by simp
qed simp

section \<open>The operations\<close>

text \<open>What is on the wire: every DATA packet carries a piece of the stream.\<close>

definition wire_ok :: "bytes \<Rightarrow> bytes \<Rightarrow> bool" where
  "wire_ok S p \<longleftrightarrow> (num_at p 0 = S_DATA \<longrightarrow> (\<exists>pn o' f c. p = data_packet pn o' f c \<and> piece_of S o' c))"

definition us_ok :: "bytes \<Rightarrow> nat set \<Rightarrow> bytes set \<Rightarrow> UdpStream \<Rightarrow> bool" where
  "us_ok S A W s \<longleftrightarrow> tx_ok S A (set (us_wire s)) (us_tx s) \<and> Ball (set (us_wire s)) (wire_ok S) \<and> W \<subseteq> set (us_wire s)"

lemma us_ok_view: "us_ok S A W s' \<Longrightarrow> books (us_tx s) = books (us_tx s') \<Longrightarrow> us_wire s = us_wire s' \<Longrightarrow> us_ok S A W s"
  unfolding us_ok_def by (metis tx_ok_books)

lemma us_ok_updates [simp]:
  "us_ok S A W (s\<lparr>us_rx := a\<rparr>) = us_ok S A W s" "us_ok S A W (s\<lparr>us_out := b\<rparr>) = us_ok S A W s"
  "us_ok S A W (s\<lparr>us_reader := b\<rparr>) = us_ok S A W s" "us_ok S A W (s\<lparr>us_reading := b\<rparr>) = us_ok S A W s"
  "us_ok S A W (s\<lparr>us_lastSent := c\<rparr>) = us_ok S A W s" "us_ok S A W (s\<lparr>us_lastHeard := c\<rparr>) = us_ok S A W s"
  "us_ok S A W (s\<lparr>us_recoveryAt := d\<rparr>) = us_ok S A W s" "us_ok S A W (s\<lparr>us_probeAt := d\<rparr>) = us_ok S A W s"
  "us_ok S A W (s\<lparr>us_liveAt := d\<rparr>) = us_ok S A W s" "us_ok S A W (s\<lparr>us_lingerAt := d\<rparr>) = us_ok S A W s"
  "us_ok S A W (s\<lparr>us_closing := b\<rparr>) = us_ok S A W s" "us_ok S A W (s\<lparr>us_gone := b\<rparr>) = us_ok S A W s"
  "us_ok S A W (s\<lparr>us_reads := e\<rparr>) = us_ok S A W s"
  by (simp_all add: us_ok_def)

lemma us_ok_tx: "us_ok S A W s \<Longrightarrow> tx_ok S A (set (us_wire s)) tx \<Longrightarrow> us_ok S A W (s\<lparr>us_tx := tx\<rparr>)"
  by (simp add: us_ok_def)

lemma us_ok_emit:
  assumes "us_ok S A W s" "wire_ok S p"
  shows "us_ok S A W (emit p t s)"
proof -
  have "tx_ok S A (set (us_wire s) \<union> {p}) (us_tx s)" using assms(1) tx_ok_mono [of S A "set (us_wire s)" "us_tx s" A] by (auto simp: us_ok_def)
  with assms show ?thesis by (auto simp: us_ok_def emit_def)
qed

lemma us_ok_emits: "us_ok S A W s \<Longrightarrow> wire_ok S p \<Longrightarrow> us_ok S A W ((emit p t ^^ n) s)"
  by (induction n) (simp_all add: us_ok_emit)

lemma control_packets [simp]: "wire_ok S (ack_packet a d r)" "wire_ok S (packet S_CLOSE n)" "wire_ok S (writeU48BE (packet S_PROBE n) B pn)"
proof -
  have "num_at (ack_packet a d r) 0 = num_at (packet S_ACK (9 + 12 * length r)) 0"
    using ack_packet_base [of 0 a d r] by (simp add: num_at_write num_at_write16 PATH_HEADER_def)
  moreover have "num_at (writeU48BE (packet S_PROBE n) B pn) 0 = num_at (packet S_PROBE n) 0"
    by (simp add: num_at_write PATH_HEADER_def)
  moreover have "num_at (packet k m) 0 = k" for k m by (simp add: packet_def num_at_def PATH_HEADER_def)
  ultimately show "wire_ok S (ack_packet a d r)" "wire_ok S (packet S_CLOSE n)" "wire_ok S (writeU48BE (packet S_PROBE n) B pn)"
    by (simp_all add: wire_ok_def S_ACK_def S_DATA_def S_CLOSE_def S_PROBE_def)
qed

lemma us_ok_ack: "us_ok S A W s \<Longrightarrow> us_ok S A W (sendAck t s)"
proof -
  assume "us_ok S A W s"
  then show ?thesis by (simp add: sendAck_def Let_def us_ok_emits)
qed

lemma us_ok_fail: "us_ok S A W s \<Longrightarrow> us_ok S A W (fail s)"
  by (simp add: fail_def)

lemma us_ok_end: "us_ok S A W s \<Longrightarrow> us_ok S A W (end_stream t s)"
  by (simp add: end_stream_def sendClose_def us_ok_fail us_ok_emits)

lemma sendChunk_ok:
  assumes ok: "us_ok S A W s" and c: "map_of (tx_chunks (us_tx s)) o' = Some c"
  shows "us_ok S A W (sendChunk t o' c s)"
proof -
  let ?tx = "us_tx s"
  define f where "f = (case tx_probes ?tx of [] \<Rightarrow> tx_oldestPn ?tx | b # _ \<Rightarrow> min (tx_oldestPn ?tx) b)"
  define p where "p = data_packet (tx_nextPn ?tx) o' f c"
  let ?W = "insert p (set (us_wire s))"
  let ?sp = "\<lparr>sp_offset = o', sp_size = DATA_HEADER + length c, sp_time = t\<rparr>"
  let ?tx' = "?tx\<lparr>tx_nextPn := tx_nextPn ?tx + 1, tx_inFlight := mset_at (tx_nextPn ?tx) ?sp (tx_inFlight ?tx),
      tx_bytesInFlight := tx_bytesInFlight ?tx + sp_size ?sp\<rparr>"
  have tx: "tx_ok S A ?W ?tx" using ok tx_ok_mono [of S A "set (us_wire s)" ?tx A ?W] by (auto simp: us_ok_def)
  have "tx_ok S A ?W ?tx'" by (rule flown_ok [OF tx c refl, of f]) (simp add: p_def)
  then have "tx_ok S A ?W (?tx'\<lparr>tx_lastSentData := t\<rparr>)" by (rule tx_ok_books) simp
  moreover have "wire_ok S p" using chunk_facts(2) [OF tx c] by (auto simp: wire_ok_def p_def)
  moreover have "sendChunk t o' c s = emit p t (s\<lparr>us_tx := ?tx'\<lparr>tx_lastSentData := t\<rparr>\<rparr>)"
    by (simp add: sendChunk_def Let_def p_def f_def data_packet_length)
  ultimately show ?thesis using ok by (auto simp: us_ok_def emit_def)
qed

lemma us_ok_flush:
  assumes "us_ok S A W s"
  shows "us_ok S A W (flush t n s)"
proof -
  have "us_ok S A W (flush_loop t n s)"
  proof (rule flush_loop_invariant [where P = "us_ok S A W"])
    fix s b assume "us_ok S A W s"
    then show "us_ok S A W (s\<lparr>us_tx := (us_tx s)\<lparr>tx_windowLimited := b\<rparr>\<rparr>)" by (rule us_ok_view) simp_all
  next
    fix s probe x tx assume "us_ok S A W s" "nextChunk probe (us_tx s) = (x, tx)"
    then show "us_ok S A W (s\<lparr>us_tx := tx\<rparr>)" using nextChunk_ok [of S A "set (us_wire s)" "us_tx s" probe] by (intro us_ok_tx) (simp_all add: us_ok_def)
  qed (use sendChunk_ok assms in blast)+
  then have "us_ok S A W (arm (flush_loop t n s))" by (rule us_ok_view) (simp_all add: arm_def Let_def)
  with assms show ?thesis by (simp add: flush_def)
qed

lemma tx_ok_pn: "tx_ok S A W tx \<Longrightarrow> tx_nextPn tx \<le> n \<Longrightarrow> tx_ok S A W (tx\<lparr>tx_nextPn := n\<rparr>)"
  by (fastforce simp: tx_ok_defs)

lemma tx_ok_size: "tx_ok S A W tx \<Longrightarrow> BASE_PACKET \<le> n \<Longrightarrow> tx_ok S A W (tx\<lparr>tx_packetBytes := n\<rparr>)"
  by (simp add: tx_ok_defs)

lemma tx_ok_credit: "tx_ok S A W tx \<Longrightarrow> tx_peerCredit tx \<le> n \<Longrightarrow> tx_ok S A W (tx\<lparr>tx_peerCredit := n\<rparr>)"
  by (simp add: tx_ok_defs)

lemma us_ok_probe:
  assumes ok: "us_ok S A W s"
  shows "us_ok S A W (sendProbe t s)"
proof -
  let ?tx = "us_tx s"
  have "tx_ok S A (set (us_wire s)) (?tx\<lparr>tx_nextPn := tx_nextPn ?tx + 1\<rparr>)" using ok by (intro tx_ok_pn) (simp_all add: us_ok_def)
  then have "tx_ok S A (set (us_wire s)) (?tx\<lparr>tx_nextPn := tx_nextPn ?tx + 1, tx_probes := x\<rparr>)" for x by (rule tx_ok_books) simp
  from us_ok_tx [OF ok this] have "us_ok S A W (s\<lparr>us_tx := ?tx\<lparr>tx_nextPn := tx_nextPn ?tx + 1, tx_probes := x\<rparr>, us_probeAt := y\<rparr>)" for x y
    by simp
  then have "us_ok S A W (s\<lparr>us_probeAt := y, us_tx := ?tx\<lparr>tx_nextPn := tx_nextPn ?tx + 1, tx_probes := x\<rparr>\<rparr>)" for x y
    by (rule us_ok_view) simp_all
  moreover have "us_ok S A W (s\<lparr>us_probeAt := y, us_tx := ?tx\<lparr>tx_probes := []\<rparr>\<rparr>)" for y by (rule us_ok_view [OF ok]) simp_all
  ultimately show ?thesis using ok by (simp add: sendProbe_def Let_def us_ok_emit)
qed

lemma us_ok_startProbe: "us_ok S A W s \<Longrightarrow> us_ok S A W (startProbe t s)"
  unfolding startProbe_def by (intro us_ok_probe, rule us_ok_view) simp_all

lemma us_ok_probeAcked:
  assumes "us_ok S A W s"
  shows "us_ok S A W (probeAcked p n s)"
proof -
  have "tx_ok S A (set (us_wire s)) ((us_tx s)\<lparr>tx_packetBytes := MAX_PACKET\<rparr>)"
    using assms by (intro tx_ok_size) (simp_all add: us_ok_def MAX_PACKET_def BASE_PACKET_def)
  then have "us_ok S A W (s\<lparr>us_tx := (us_tx s)\<lparr>tx_packetBytes := MAX_PACKET\<rparr>\<rparr>)" by (rule us_ok_tx [OF assms])
  then have "us_ok S A W (s\<lparr>us_probeAt := None, us_tx := (us_tx s)\<lparr>tx_probes := [], tx_packetBytes := MAX_PACKET\<rparr>\<rparr>)"
    by (rule us_ok_view) (simp_all add: books_def)
  with assms show ?thesis by (simp add: probeAcked_def)
qed

lemma us_ok_ack_named:
  assumes ok: "us_ok S A W s" and A: "\<forall>pn. names p n pn \<longrightarrow> Collect (carried (set (us_wire s)) pn) \<subseteq> A"
  shows "us_ok S A W (ack_named t p n s)"
proof -
  let ?w = "set (us_wire s)"
  let ?sent = "int (tx_nextPn (us_tx s)) - 1"
  let ?largest = "min (int (readU48BE p (B + 9))) ?sent"
  obtain tx newest where r: "ack_ranges p ?sent ?largest 0 n None (us_tx s, None) = (tx, newest)" by fastforce
  have "tx_ok S A ?w (fst (ack_ranges p ?sent ?largest 0 n None (us_tx s, None)))"
    using ok A by (intro ack_ranges_ok) (simp_all add: us_ok_def names_def)
  then have 1: "us_ok S A W (s\<lparr>us_tx := tx\<rparr>)" using us_ok_tx [OF ok] r by simp
  define s1 where "s1 = (if tx_probes (us_tx (s\<lparr>us_tx := tx\<rparr>)) \<noteq> [] then probeAcked p n (s\<lparr>us_tx := tx\<rparr>) else s\<lparr>us_tx := tx\<rparr>)"
  have 2: "us_ok S A W s1" using 1 us_ok_probeAcked by (simp add: s1_def)
  let ?c = "clear_suspects p n (us_tx s1)"
  let ?a = "advanceOldest (?c\<lparr>tx_largestAcked := max (tx_largestAcked ?c) ?largest\<rparr>)"
  let ?b = "case newest of Some x \<Rightarrow> sample (t - sp_time x) (of_nat (readU16BE p (B + 6))) ?a | None \<Rightarrow> ?a"
  have "books ?b = books ?c" by (simp split: option.split)
  then have "tx_ok S A (set (us_wire s1)) (detectLoss t ?b)"
    using clear_suspects_ok 2 by (intro detectLoss_ok, elim tx_ok_books [rotated]) (simp add: us_ok_def)
  then have 3: "us_ok S A W (s1\<lparr>us_tx := detectLoss t ?b\<rparr>)" by (rule us_ok_tx [OF 2])
  then have "us_ok S A W (s1\<lparr>us_tx := (detectLoss t ?b)\<lparr>tx_reprobe := False\<rparr>\<rparr>)" by (rule us_ok_view) simp_all
  moreover have "ack_named t p n s = (let tx = detectLoss t ?b in
      if tx_reprobe tx \<and> tx_ptoCount tx = 0 then startProbe t (s1\<lparr>us_tx := tx\<lparr>tx_reprobe := False\<rparr>\<rparr>) else s1\<lparr>us_tx := tx\<rparr>)"
    unfolding ack_named_def Let_def r prod.case s1_def by (rule refl)
  ultimately show ?thesis using 3 us_ok_startProbe by (simp add: Let_def)
qed

lemma us_ok_buffered:
  assumes "us_ok S A W s"
  shows "us_ok S A W (s\<lparr>us_tx := snd (buffered (us_tx s))\<rparr>)"
  by (rule us_ok_view [OF assms]) simp_all

text \<open>The positions an ack of the packets on the wire \<open>W\<close> speaks for.\<close>

definition acks :: "bytes \<Rightarrow> nat \<Rightarrow> bool" where
  "acks p pn \<longleftrightarrow> num_at p 0 = S_ACK \<and> names p (unat (num_at p (B + 8))) pn"

lemma us_ok_onAck:
  assumes ok: "us_ok S A W s" and A: "\<forall>pn. names p (unat (num_at p (B + 8))) pn \<longrightarrow> Collect (carried (set (us_wire s)) pn) \<subseteq> A"
  shows "us_ok S A W (onAck t p s)"
proof -
  let ?s = "s\<lparr>us_tx := (us_tx s)\<lparr>tx_peerCredit := max (tx_peerCredit (us_tx s)) (readU48BE p B)\<rparr>\<rparr>" and ?n = "unat (num_at p (B + 8))"
  have "tx_ok S A (set (us_wire s)) ((us_tx s)\<lparr>tx_peerCredit := max (tx_peerCredit (us_tx s)) (readU48BE p B)\<rparr>)"
    using ok by (intro tx_ok_credit) (simp_all add: us_ok_def)
  from us_ok_tx [OF ok this] have s: "us_ok S A W ?s" .
  define s1 where "s1 = (if ?n > 0 then ack_named t p ?n ?s else ?s)"
  have s1: "us_ok S A W s1" using us_ok_ack_named [OF s, of p ?n] A s by (simp add: s1_def)
  show ?thesis unfolding onAck_def Let_def case_prod_beta s1_def [symmetric]
    using s1 us_ok_buffered [OF s1] us_ok_flush us_ok_end by simp
qed

lemma us_ok_recovery: 
  assumes "us_ok S A W s"
  shows "us_ok S A W (onRecovery t s)"
proof -
  let ?tx = "us_tx s"
  have tx: "tx_ok S A (set (us_wire s)) ?tx" using assms by (simp add: us_ok_def)
  have "us_ok S A W (s\<lparr>us_tx := detectLoss t ?tx\<rparr>)" by (rule us_ok_tx [OF assms detectLoss_ok [OF tx]])
  then have 1: "us_ok S A W (s\<lparr>us_recoveryAt := x, us_tx := detectLoss t ?tx\<rparr>)" for x by (rule us_ok_view) simp_all
  have "us_ok S A W (s\<lparr>us_tx := ?tx\<lparr>tx_packetBytes := BASE_PACKET\<rparr>\<rparr>)" by (rule us_ok_tx [OF assms tx_ok_size [OF tx]]) simp
  then have 2: "us_ok S A W (s\<lparr>us_recoveryAt := x, us_tx := ?tx\<lparr>tx_packetBytes := BASE_PACKET, tx_reprobe := True, tx_ptoCount := y\<rparr>\<rparr>)" for x y
    by (rule us_ok_view) (simp_all add: books_def)
  have 3: "us_ok S A W (s\<lparr>us_recoveryAt := x, us_tx := ?tx\<lparr>tx_ptoCount := y\<rparr>\<rparr>)" for x y by (rule us_ok_view [OF assms]) simp_all
  have 4: "us_ok S A W (arm (s\<lparr>us_recoveryAt := x\<rparr>))" for x using assms by (simp add: arm_def Let_def)
  show ?thesis using assms 1 2 3 4 us_ok_flush us_ok_end by (simp add: onRecovery_def Let_def)
qed

lemma us_ok_start:
  assumes "us_ok S A W s"
  shows "us_ok S A W (start t s)"
proof -
  let ?s = "s\<lparr>us_out := True, us_lastHeard := t, us_lastSent := t, us_liveAt := Some (t + KEEPALIVE_MS)\<rparr>"
  have "us_ok S A W (flush t 0 (if rx_ranges (us_rx ?s) \<noteq> [] then sendAck t ?s else ?s))" (is "us_ok S A W ?f")
    using assms us_ok_ack [of S A W ?s t] by (intro us_ok_flush) simp
  then have "us_ok S A W (?f\<lparr>us_tx := (us_tx ?f)\<lparr>tx_reprobe := True\<rparr>\<rparr>)" by (rule us_ok_view) simp_all
  with assms show ?thesis by (simp add: start_def Let_def)
qed

lemma us_ok_repath:
  assumes "us_ok S A W s"
  shows "us_ok S A W (repath t r s)"
proof -
  have tx: "tx_ok S A (set (us_wire s)) (us_tx s)" using assms by (simp add: us_ok_def)
  have "tx_ok S A (set (us_wire s)) ((us_tx s)\<lparr>tx_window := of_nat INITIAL_WINDOW, tx_undo := None, tx_packetBytes := BASE_PACKET\<rparr>)"
    by (rule tx_ok_window [OF tx]) (simp_all add: INITIAL_WINDOW_def MIN_WINDOW_def)
  from us_ok_tx [OF assms this] have "us_ok S A W (s\<lparr>us_tx := (sample r 0 ((us_tx s)\<lparr>tx_window := of_nat INITIAL_WINDOW, tx_threshold := None,
      tx_recoveryStart := Some t, tx_undo := None, tx_suspects := [], tx_minRtt := None\<rparr>))\<lparr>tx_ptoCount := 0, tx_packetBytes := BASE_PACKET, tx_reprobe := False\<rparr>\<rparr>)"
    by (rule us_ok_view) (simp_all add: books_def sample_def)
  then show ?thesis using assms us_ok_ack us_ok_flush us_ok_startProbe by (simp add: repath_def Let_def)
qed

lemma us_ok_close: "us_ok S A W s \<Longrightarrow> us_ok S A W (close t g s)"
  using us_ok_end us_ok_buffered by (simp add: close_def Let_def case_prod_beta)

lemma us_ok_tick: "us_ok S A W s \<Longrightarrow> us_ok S A W (tick t s)"
  using us_ok_end us_ok_ack us_ok_fail by (simp add: tick_def Let_def)

lemma us_ok_wake: "us_ok S A W s \<Longrightarrow> us_ok S A W (snd (onWake t s))"
  using us_ok_end us_ok_tick us_ok_recovery us_ok_probe by (simp add: onWake_def Let_def)

lemma us_ok_received: "us_ok S A W s \<Longrightarrow> us_ok S A W (received t pn s)"
  using us_ok_ack by (simp add: received_def Let_def)

lemma us_ok_chunk: "us_ok S A W s \<Longrightarrow> us_ok S A W (onChunk t pn o' f c s)"
  using us_ok_received us_ok_fail by (simp add: onChunk_def Let_def)

lemma us_ok_deliver: "us_ok S A W s \<Longrightarrow> us_ok S A W (deliver t s)"
  using us_ok_ack by (simp add: deliver_def hand_over_def Let_def case_prod_beta)

lemma us_ok_turn: "us_ok S A W s \<Longrightarrow> us_ok S A W (turn t s)"
  using us_ok_ack us_ok_deliver by (simp add: turn_def Let_def)

lemma us_ok_receive:
  assumes "us_ok S A W s" and "\<forall>pn. acks p pn \<longrightarrow> Collect (carried (set (us_wire s)) pn) \<subseteq> A"
  shows "us_ok S A W (receive t p s)"
proof -
  have "us_ok S A W (onAck t p (s\<lparr>us_lastHeard := t\<rparr>))" if "num_at p 0 = S_ACK"
    using assms that by (intro us_ok_onAck) (simp_all add: acks_def)
  with assms(1) show ?thesis using us_ok_chunk us_ok_received us_ok_fail by (simp add: receive_def Let_def)
qed

section \<open>Runs\<close>

text \<open>Every way a stream comes about, with the bytes its writer was told are accepted and the packets it received.\<close>

inductive udp_run :: "UdpStream \<Rightarrow> bytes \<Rightarrow> bytes list \<Rightarrow> bool" where
  run_new: "udp_run UdpStream_new [] []"
| run_receive: "udp_run s S K \<Longrightarrow> udp_run (receive t p s) S (K @ [p])"
| run_turn: "udp_run s S K \<Longrightarrow> udp_run (turn t s) S K"
| run_read_done: "udp_run s S K \<Longrightarrow> udp_run (readDone t s) S K"
| run_reader: "udp_run s S K \<Longrightarrow> udp_run (reader t s) S K"
| run_send: "udp_run s S K \<Longrightarrow> send t b s = (None, s') \<Longrightarrow> udp_run s' (S @ b) K"
| run_refused: "udp_run s S K \<Longrightarrow> send t b s = (Some e, s') \<Longrightarrow> udp_run s' S K"
| run_start: "udp_run s S K \<Longrightarrow> udp_run (start t s) S K"
| run_repath: "udp_run s S K \<Longrightarrow> udp_run (repath t rtt s) S K"
| run_close: "udp_run s S K \<Longrightarrow> udp_run (close t graceful s) S K"
| run_wake: "udp_run s S K \<Longrightarrow> udp_run (snd (onWake t s)) S K"

text \<open>The positions carried by packets that were acked.\<close>

definition acked :: "bytes list \<Rightarrow> bytes list \<Rightarrow> nat set" where
  "acked K wire = {x. \<exists>p \<in> set K. \<exists>pn. acks p pn \<and> carried (set wire) pn x}"

lemma acked_mono: "set K \<subseteq> set K' \<Longrightarrow> set w \<subseteq> set w' \<Longrightarrow> acked K w \<subseteq> acked K' w'"
  unfolding acked_def carried_def by blast

definition run_ok :: "UdpStream \<Rightarrow> bytes \<Rightarrow> bytes list \<Rightarrow> bool" where
  "run_ok s S K \<longleftrightarrow> us_ok S (acked K (us_wire s)) {} s"

lemma run_ok_step:
  assumes "us_ok S (acked K (us_wire s)) (set (us_wire s)) s'" "set K \<subseteq> set K'"
  shows "run_ok s' S K'"
proof -
  have "acked K (us_wire s) \<subseteq> acked K' (us_wire s')" using assms by (intro acked_mono) (auto simp: us_ok_def)
  then show ?thesis using assms(1) tx_ok_mono [of S "acked K (us_wire s)" _ "us_tx s'"] by (auto simp: run_ok_def us_ok_def)
qed

lemma run_ok_start: "run_ok s S K \<Longrightarrow> us_ok S (acked K (us_wire s)) (set (us_wire s)) s"
  by (simp add: run_ok_def us_ok_def)

lemma piece_of_append: "piece_of S o' c \<Longrightarrow> piece_of (S @ b) o' c"
  by (auto simp: piece_of_def)

lemma pushed_ok:
  assumes "us_ok S A W s"
  shows "us_ok (S @ b) A W (s\<lparr>us_tx := (us_tx s)\<lparr>tx_unsent := pieces_push b (tx_unsent (us_tx s)), tx_written := tx_written (us_tx s) + length b\<rparr>\<rparr>)"
proof -
  have "wire_ok S p \<Longrightarrow> wire_ok (S @ b) p" for p unfolding wire_ok_def using piece_of_append by blast
  moreover have "tx_ok S A w tx \<Longrightarrow> tx_ok (S @ b) A w (tx\<lparr>tx_unsent := pieces_push b (tx_unsent tx), tx_written := tx_written tx + length b\<rparr>)" for w tx
    by (simp add: tx_ok_defs pieces.live_push pieces.inv_push piece_of_append)
  ultimately show ?thesis using assms by (auto simp: us_ok_def)
qed

lemma us_ok_send:
  assumes ok: "us_ok S A W s" and s': "send t b s = (e, s')"
  shows "us_ok (if e = None then S @ b else S) A W s'"
proof -
  note buf = us_ok_buffered [OF ok]
  from us_ok_flush [OF pushed_ok [OF buf, of b], of t 0] buf ok s' show ?thesis
    by (auto simp: send_def Let_def case_prod_beta split: if_splits)
qed

lemma udp_run_ok: "udp_run s S K \<Longrightarrow> run_ok s S K"
proof (induction rule: udp_run.induct)
  case run_new
  show ?case by (simp add: run_ok_def us_ok_def UdpStream_new_def tx_ok_new)
next
  case (run_receive s S K t p)
  let ?A = "acked (K @ [p]) (us_wire s)"
  have "us_ok S ?A (set (us_wire s)) s"
    using run_ok_step [of S K s s "K @ [p]"] run_ok_start [OF run_receive.IH] by (simp add: run_ok_def us_ok_def subset_insertI)
  moreover have "\<forall>pn. acks p pn \<longrightarrow> Collect (carried (set (us_wire s)) pn) \<subseteq> ?A" by (auto simp: acked_def)
  ultimately show ?case by (intro run_ok_step [of S "K @ [p]" s] us_ok_receive) simp_all
next
  case (run_send s S K t b s')
  from us_ok_send [OF run_ok_start [OF run_send.IH] run_send.hyps(2)] show ?case by (intro run_ok_step [of _ K s]) simp_all
next
  case (run_refused s S K t b e s')
  from us_ok_send [OF run_ok_start [OF run_refused.IH] run_refused.hyps(2)] show ?case by (intro run_ok_step [of _ K s]) simp_all
next
  case (run_reader s S K t)
  from us_ok_deliver [of S _ _ "s\<lparr>us_reader := True\<rparr>"] run_ok_start [OF run_reader.IH] show ?case
    by (intro run_ok_step [of _ K s]) (simp_all add: reader_def)
next
  case (run_read_done s S K t)
  from us_ok_deliver [of S _ _ "s\<lparr>us_reading := False\<rparr>"] run_ok_start [OF run_read_done.IH] show ?case
    by (intro run_ok_step [of _ K s]) (simp_all add: readDone_def)
qed (metis run_ok_step run_ok_start subset_refl us_ok_turn us_ok_start us_ok_repath us_ok_close us_ok_wake)+

lemma honest_wire:
  assumes "wire_ok S p" "length S < 2 ^ 48"
  shows "honest S p"
  unfolding honest_def
proof (intro impI)
  assume p: "num_at p 0 = S_DATA \<and> B + 18 < length p"
  then obtain pn o' f c where c: "p = data_packet pn o' f c" "piece_of S o' c" using assms(1) by (auto simp: wire_ok_def)
  then have "o' < 2 ^ 48" using assms(2) by (simp add: piece_of_def)
  then have "readU48BE p (B + 6) = o'" "drop (B + 18) p = c" unfolding c(1) by (simp_all add: data_packet_read)
  with c show "piece_of S (readU48BE p (B + 6)) (drop (B + 18) p)" by simp
qed

lemma udp_reach_mono: "udp_reach H r \<Longrightarrow> (\<And>p. H p \<Longrightarrow> H' p) \<Longrightarrow> udp_reach H' r"
  by (induction rule: udp_reach.induct) (auto intro: udp_reach.intros)

text \<open>C35: The stream works from end to end. Whatever packets a sender receives and whatever its operations, another end
  that is given only packets the sender put on the wire, any of them lost, repeated or reordered, hands its reader a beginning of
  exactly the bytes the sender's writer was told were accepted.\<close>

theorem udp_end_to_end:
  assumes "udp_run s S K" "length S < 2 ^ 48" "udp_reach (\<lambda>p. p \<in> set (us_wire s)) r"
  shows "concat (us_reads r) = take (length (concat (us_reads r))) S"
proof -
  have "Ball (set (us_wire s)) (wire_ok S)" using udp_run_ok [OF assms(1)] by (simp add: run_ok_def us_ok_def)
  then have "udp_reach (honest S) r" using honest_wire assms(2) by (intro udp_reach_mono [OF assms(3)]) blast
  from reads_prefix [OF reach_reads_ok [OF this]] show ?thesis by (rule conjunct1)
qed

lemma flush_loop_idle:
  "\<not> of_nat (tx_bytesInFlight (us_tx s) + tx_packetBytes (us_tx s)) > tx_window (us_tx s) \<Longrightarrow> fst (nextChunk False (us_tx s)) = None \<Longrightarrow>
   flush_loop t 0 s = s\<lparr>us_tx := (snd (nextChunk False (us_tx s)))\<lparr>tx_windowLimited := False\<rparr>\<rparr>"
  by (subst flush_loop.simps) (simp add: Let_def case_prod_beta)

lemma flush_loop_one:
  "\<not> of_nat (tx_bytesInFlight (us_tx s) + tx_packetBytes (us_tx s)) > tx_window (us_tx s) \<Longrightarrow> nextChunk False (us_tx s) = (Some o', tx) \<Longrightarrow>
   map_of (tx_chunks tx) o' = Some c \<Longrightarrow> flush_loop t 0 s = flush_loop t 0 (sendChunk t o' c (s\<lparr>us_tx := tx\<rparr>))"
  by (subst flush_loop.simps) (simp add: Let_def)

lemma skip_acked_none: "length (tx_sentOffsets tx) \<le> tx_sentHead tx \<Longrightarrow> skip_acked tx = tx"
  by (subst skip_acked.simps) simp

lemmas demo_consts = INITIAL_WINDOW_def BASE_PACKET_def CREDIT_def DATA_HEADER_def PATH_HEADER_def MAX_BUFFERED_def KEEPALIVE_MS_def

lemmas demo_pieces = pieces_push_def new_Pieces_def pieces_take_def pieces_consume_def pieces_slices_def piece_at_def pdata_def
  pieces_shift_def subarray_def Let_def

definition demo_tx :: Tx where
  "demo_tx = Tx_new\<lparr>tx_reprobe := True, tx_unsent := pieces_push [7, 8] (new_Pieces 0), tx_written := 2\<rparr>"

definition demo_cut :: Tx where
  "demo_cut = demo_tx\<lparr>tx_chunks := [(0, [7, 8])], tx_unsent := snd (pieces_take 2 (pieces_push [7, 8] (new_Pieces 0))),
     tx_nextOffset := 2, tx_sentOffsets := [0]\<rparr>"

lemma demo_next: "nextChunk False demo_tx = (Some 0, demo_cut)"
  by (simp add: nextChunk_def demo_tx_def demo_cut_def Tx_new_def new_chunk_size_def demo_consts Let_def case_prod_beta) (simp add: demo_pieces)

lemma demo_flush:
  assumes "us_tx s = demo_tx"
  shows "us_wire (flush_loop t 0 s) = us_wire s @ [data_packet 0 0 0 [7, 8]]"
proof -
  let ?s = "sendChunk t 0 [7, 8] (s\<lparr>us_tx := demo_cut\<rparr>)"
  have 1: "flush_loop t 0 s = flush_loop t 0 ?s"
    by (rule flush_loop_one) (simp_all add: assms demo_next, simp_all add: demo_tx_def demo_cut_def Tx_new_def demo_consts)
  have "pbytes (tx_unsent (us_tx ?s)) = 0" by (simp add: sendChunk_def emit_def Let_def demo_cut_def) (simp add: demo_pieces)
  then have "us_wire (flush_loop t 0 ?s) = us_wire ?s"
    by (subst flush_loop_idle) (simp_all add: nextChunk_def new_chunk_size_def sendChunk_def emit_def Let_def demo_cut_def demo_tx_def Tx_new_def
      demo_consts data_packet_length)
  then show ?thesis unfolding 1 by (simp add: sendChunk_def emit_def Let_def demo_cut_def demo_tx_def Tx_new_def)
qed

definition demo_sender :: UdpStream where
  "demo_sender = snd (send 1 [7, 8] (start 0 UdpStream_new))"

lemma demo_start:
  "us_tx (start 0 UdpStream_new) = Tx_new\<lparr>tx_reprobe := True\<rparr>" "us_wire (start 0 UdpStream_new) = []" "us_out (start 0 UdpStream_new)"
  "\<not> us_gone (start 0 UdpStream_new)" "\<not> us_closing (start 0 UdpStream_new)"
proof -
  let ?s = "UdpStream_new\<lparr>us_out := True, us_liveAt := Some 5000\<rparr>"
  have "flush_loop 0 0 ?s = ?s"
    by (subst flush_loop_idle) (simp_all add: UdpStream_new_def nextChunk_def new_chunk_size_def Tx_new_def demo_consts new_Pieces_def)
  then have s: "start 0 UdpStream_new = ?s\<lparr>us_tx := Tx_new\<lparr>tx_reprobe := True\<rparr>\<rparr>"
    by (simp add: start_def flush_def arm_def UdpStream_new_def Rx_new_def KEEPALIVE_MS_def) (simp add: Tx_new_def)
  show "us_tx (start 0 UdpStream_new) = Tx_new\<lparr>tx_reprobe := True\<rparr>" "us_wire (start 0 UdpStream_new) = []" "us_out (start 0 UdpStream_new)"
    "\<not> us_gone (start 0 UdpStream_new)" "\<not> us_closing (start 0 UdpStream_new)"
    unfolding s by (simp_all add: UdpStream_new_def)
qed

lemma demo_send: "send 1 [7, 8] (start 0 UdpStream_new) = (None, demo_sender)" "us_wire demo_sender = [data_packet 0 0 0 [7, 8]]"
proof -
  let ?s = "(start 0 UdpStream_new)\<lparr>us_tx := demo_tx\<rparr>"
  have "buffered (Tx_new\<lparr>tx_reprobe := True\<rparr>) = (0, Tx_new\<lparr>tx_reprobe := True\<rparr>)"
    by (simp add: buffered_def oldestChunk_def skip_acked_none Tx_new_def)
  then have s: "send 1 [7, 8] (start 0 UdpStream_new) = (None, flush 1 0 ?s)"
    by (simp add: send_def demo_start MAX_BUFFERED_def demo_tx_def) (simp add: Tx_new_def numeral_2_eq_2)
  then show "send 1 [7, 8] (start 0 UdpStream_new) = (None, demo_sender)" by (simp add: demo_sender_def)
  show "us_wire demo_sender = [data_packet 0 0 0 [7, 8]]"
    using demo_flush [of ?s 1] by (simp add: demo_sender_def s flush_def arm_def Let_def demo_start)
qed

lemma demo_run: "udp_run demo_sender [7, 8] []"
  using udp_run.run_send [OF udp_run.run_start [OF udp_run.run_new] demo_send(1)] by simp

theorem udp_end_to_end_witness:
  "let r = turn 2 (receive 1 (data_packet 0 0 0 [7, 8]) (reader 0 UdpStream_new)) in concat (us_reads r) = take (length (concat (us_reads r))) [7, 8]"
proof -
  have "udp_reach (\<lambda>p. p \<in> set (us_wire demo_sender)) (turn 2 (receive 1 (data_packet 0 0 0 [7, 8]) (reader 0 UdpStream_new)))"
    by (intro udp_reach.intros) (simp add: demo_send)
  from udp_end_to_end [OF demo_run _ this] show ?thesis by (simp add: Let_def)
qed

text \<open>C36: A sender never gives up a byte too early and its books are right. In every run, the bytes accepted and not
  yet cut are queued in order; every byte cut is still kept, as it was written, in a chunk that can be sent again, unless an ACK has
  named a packet that carried it; no byte is cut past the peer's credit; the bytes in flight are exactly those of the packets
  that are; and the window is never below its minimum.\<close>

theorem udp_no_byte_lost:
  assumes "udp_run s S K"
  shows "let tx = us_tx s in
    pieces_live (tx_unsent tx) = drop (tx_nextOffset tx) S \<and> tx_nextOffset tx \<le> min (length S) (tx_peerCredit tx) \<and>
    (\<forall>x < tx_nextOffset tx. (\<exists>p \<in> set K. \<exists>pn. acks p pn \<and> carried (set (us_wire s)) pn x) \<or>
       (\<exists>o' c. map_of (tx_chunks tx) o' = Some c \<and> o' \<le> x \<and> x < o' + length c \<and> c ! (x - o') = S ! x)) \<and>
    tx_bytesInFlight tx = (\<Sum>(pn, sp) \<leftarrow> tx_inFlight tx. sp_size sp) \<and> of_nat MIN_WINDOW \<le> tx_window tx"
proof -
  let ?tx = "us_tx s"
  have ok: "tx_ok S (acked K (us_wire s)) (set (us_wire s)) ?tx" using udp_run_ok [OF assms] by (simp add: run_ok_def us_ok_def)
  have chunk: "c ! (x - o') = S ! x" if "map_of (tx_chunks ?tx) o' = Some c" "o' \<le> x" "x < o' + length c" for o' c x
  proof -
    have "c = take (length c) (drop o' S)" "o' + length c \<le> length S" using chunk_facts(2) [OF ok that(1)] by (simp_all add: piece_of_def)
    then have "c ! (x - o') = take (length c) (drop o' S) ! (x - o')" by simp
    also have "\<dots> = S ! x" using that(2,3) \<open>o' + length c \<le> length S\<close> by simp
    finally show ?thesis .
  qed
  have "\<forall>x < tx_nextOffset ?tx. (\<exists>p \<in> set K. \<exists>pn. acks p pn \<and> carried (set (us_wire s)) pn x) \<or>
       (\<exists>o' c. map_of (tx_chunks ?tx) o' = Some c \<and> o' \<le> x \<and> x < o' + length c \<and> c ! (x - o') = S ! x)"
    using ok chunk unfolding tx_ok_def tx_covered_def acked_def by blast
  with ok show ?thesis by (simp add: tx_ok_def tx_stream_def tx_flight_def tx_window_ok_def Let_def)
qed

theorem udp_no_byte_lost_witness: "tx_bytesInFlight (us_tx demo_sender) = (\<Sum>(pn, sp) \<leftarrow> tx_inFlight (us_tx demo_sender). sp_size sp)"
  using udp_no_byte_lost [OF demo_run] by (simp add: Let_def)

end
