(* ===== verification/Link_Host.thy ===== *)
theory Link_Host
  imports Op_Frame Json Domains
begin

text \<open>
  \<^verbatim>\<open>WASM/services/link.ts\<close> with its bounds in \<^verbatim>\<open>net-limits.ts\<close>: the host's raw links. \<open>Owner\<close> is one link's
  outbound accounting, \<open>Reads\<close> the state of its reading side that the closures of \<open>register\<close> share, \<open>TransportHost\<close> the
  driver. A link's object is named by its id, which is never given twice, so \<open>links.get(id) === link\<close> is that the id is
  still in the table. What an adapter or the occupant's realm answers is in \<open>Env\<close>, one per operation; what the driver hands
  the occupant and the platform is appended to \<open>th_log\<close> and \<open>th_effects\<close>. A promise or a queued microtask of the source is
  a later operation of its own: \<open>th_closing\<close> holds the links whose close awaits its microtask, \<open>th_pending\<close> the \<open>datagrams\<close>
  events the occupant has not answered. The \<open>Fifo\<close>s are lists, which \<open>Util\<close> shows them to be.
\<close>

section \<open>Limits\<close>

definition MAX_LINK_READ_BYTES :: nat where "MAX_LINK_READ_BYTES = 2 * 1024 * 1024"
definition MAX_INBOUND_HOLD_BYTES :: nat where "MAX_INBOUND_HOLD_BYTES = 8 * MAX_LINK_READ_BYTES"
definition MAX_INBOUND_HOLD_SLICES :: nat where "MAX_INBOUND_HOLD_SLICES = 4096"
definition MAX_OUTBOUND_QUEUE_BYTES :: nat where "MAX_OUTBOUND_QUEUE_BYTES = 8 * MAX_LINK_READ_BYTES"
definition MAX_OUTBOUND_QUEUE_SLICES :: nat where "MAX_OUTBOUND_QUEUE_SLICES = 4096"
definition MAX_NODE_OUTBOUND_QUEUE_BYTES :: nat where "MAX_NODE_OUTBOUND_QUEUE_BYTES = 4 * MAX_OUTBOUND_QUEUE_BYTES"
definition MAX_NODE_OUTBOUND_QUEUE_SLICES :: nat where "MAX_NODE_OUTBOUND_QUEUE_SLICES = 4 * MAX_OUTBOUND_QUEUE_SLICES"
definition DEFAULT_MAX_RAW_LINKS :: nat where "DEFAULT_MAX_RAW_LINKS = 4096"
definition MAX_UDP_SOCKETS :: nat where "MAX_UDP_SOCKETS = 2048"
definition MAX_UDP_HELD_BYTES :: nat where "MAX_UDP_HELD_BYTES = 8 * MAX_LINK_READ_BYTES"

section \<open>State\<close>

text \<open>A platform's channel: its identity and which optional methods it has.\<close>

record RawLink =
  rl_key :: nat
  rl_buffered :: bool
  rl_pausable :: bool
  rl_stream :: bool
  rl_remoteAddr :: jstr

record Owner =
  lo_channel :: RawLink
  lo_queued :: "nat list"
  lo_charged :: int
  lo_closed :: bool

text \<open>\<open>rd_active\<close> is the width of the read in the realm, \<open>None\<close> for the source's -1.\<close>

record Reads =
  rd_active :: "nat option"
  rd_paused :: bool
  rd_held :: "bytes list"

datatype link_event =
    LinkOpen nat bool jstr nat jstr
  | LinkBytes nat bytes
  | LinkClosed nat
  | Datagrams "(nat \<times> bytes) list"

datatype effect =
    Wrote nat bytes
  | Readable nat bool
  | Shut nat bool
  | UdpSent bytes
  | UdpClosed nat

record DatagramEvent =
  dg_args :: "(nat \<times> bytes) list"
  dg_bytes :: nat

record TransportHost =
  th_links :: "(nat \<times> Owner) list"
  th_reads_of :: "nat \<Rightarrow> Reads"
  th_idOf :: "(nat \<times> nat) list"
  th_nextLinkId :: nat
  th_bound :: bool
  th_closed :: bool
  th_inSlices :: int
  th_inBytes :: int
  th_starved :: "nat list"
  th_outSlices :: int
  th_outBytes :: int
  th_sockets :: "nat list"
  th_binding :: nat
  th_socketGen :: nat
  th_reads :: "DatagramEvent list"
  th_heldDatagramBytes :: int
  th_readsBusy :: bool
  th_readsDue :: bool
  th_closing :: "nat list"
  th_pending :: "(nat \<times> nat) list"
  th_log :: "link_event list"
  th_effects :: "effect list"

definition TransportHost_new :: TransportHost where
  "TransportHost_new = \<lparr>th_links = [], th_reads_of = (\<lambda>_. \<lparr>rd_active = None, rd_paused = False, rd_held = []\<rparr>), th_idOf = [],
     th_nextLinkId = 1, th_bound = False, th_closed = False, th_inSlices = 0, th_inBytes = 0, th_starved = [], th_outSlices = 0,
     th_outBytes = 0, th_sockets = [], th_binding = 0, th_socketGen = 0, th_reads = [], th_heldDatagramBytes = 0,
     th_readsBusy = False, th_readsDue = False, th_closing = [], th_pending = [], th_log = [], th_effects = []\<rparr>"

text \<open>What the outside answers during one operation. An adapter's backlog is asked for before a write, in a sweep over all
  links and after the write; a write may return, throw, or report the channel's end through \<open>onClose\<close> before it returns;
  a hard close may fire \<open>onClose\<close> too. The occupant's entry returns a promise or null, or throws, which \<open>dispatchRead\<close> catches and which ends
  the microtask of \<open>pumpReads\<close>; a throw at \<open>linkOpen\<close> or \<open>linkClosed\<close>, which no caller catches and the realm's \<open>call\<close> never
  makes, is not distinguished from a null.\<close>

datatype phase = Before | Sweep | After
datatype write_outcome = Written | Write_Throws | Write_Ends
datatype call_answer = Answer_Null | Answer_Promise | Answer_Throws

record Env =
  e_backlog :: "phase \<Rightarrow> nat \<Rightarrow> jsnum option"
  e_write :: write_outcome
  e_readable :: "nat \<Rightarrow> bool \<Rightarrow> bool"
  e_close_fires :: "nat \<Rightarrow> bool"
  e_answer :: "link_event \<Rightarrow> call_answer"

abbreviation live :: "nat \<Rightarrow> TransportHost \<Rightarrow> bool" where
  "live i s \<equiv> map_of (th_links s) i \<noteq> None"

definition set_owner :: "nat \<Rightarrow> Owner \<Rightarrow> TransportHost \<Rightarrow> TransportHost" where
  "set_owner i o' s = s\<lparr>th_links := mset_at i o' (th_links s)\<rparr>"

definition set_reads :: "nat \<Rightarrow> Reads \<Rightarrow> TransportHost \<Rightarrow> TransportHost" where
  "set_reads i r s = s\<lparr>th_reads_of := (th_reads_of s)(i := r)\<rparr>"

definition effect :: "effect \<Rightarrow> TransportHost \<Rightarrow> TransportHost" where
  "effect x s = s\<lparr>th_effects := th_effects s @ [x]\<rparr>"

section \<open>Outbound\<close>

text \<open>\<open>report\<close>: \<open>None\<close> for an adapter that cannot answer.\<close>

definition report :: "RawLink \<Rightarrow> jsnum option \<Rightarrow> nat option" where
  "report ch answer =
     (if \<not> rl_buffered ch then Some 0
      else case answer of
             None \<Rightarrow> None
           | Some n \<Rightarrow> (case safe_int n of Some k \<Rightarrow> if k \<ge> 0 then Some (nat k) else None | None \<Rightarrow> None))"

fun settle_loop :: "int \<Rightarrow> int \<Rightarrow> nat list \<Rightarrow> nat \<Rightarrow> int \<Rightarrow> nat \<times> int" where
  "settle_loop charged now [] n bytes' = (n, bytes')"
| "settle_loop charged now (q # qs) n bytes' =
     (if charged - bytes' - int q \<ge> now then settle_loop charged now qs (n + 1) (bytes' + int q) else (n, bytes'))"

definition releaseOutbound :: "int \<Rightarrow> int \<Rightarrow> TransportHost \<Rightarrow> TransportHost" where
  "releaseOutbound bytes' slices s = s\<lparr>th_outBytes := th_outBytes s - bytes', th_outSlices := th_outSlices s - slices\<rparr>"

definition settle :: "nat \<Rightarrow> nat option \<Rightarrow> TransportHost \<Rightarrow> TransportHost" where
  "settle i now s =
     (case map_of (th_links s) i of
        None \<Rightarrow> s
      | Some o' \<Rightarrow>
          (case now of
             None \<Rightarrow> s
           | Some now \<Rightarrow>
               let (n, bytes') = settle_loop (lo_charged o') (int now) (lo_queued o') 0 0 in
               if n = 0 then s
               else releaseOutbound bytes' (int n)
                      (set_owner i (o'\<lparr>lo_queued := drop n (lo_queued o'), lo_charged := lo_charged o' - bytes'\<rparr>) s)))"

definition reconcile :: "Env \<Rightarrow> phase \<Rightarrow> nat \<Rightarrow> TransportHost \<Rightarrow> TransportHost" where
  "reconcile e ph i s =
     (case map_of (th_links s) i of None \<Rightarrow> s | Some o' \<Rightarrow> settle i (report (lo_channel o') (e_backlog e ph i)) s)"

definition outboundFits :: "nat \<Rightarrow> TransportHost \<Rightarrow> bool" where
  "outboundFits n s \<longleftrightarrow> th_outSlices s < int MAX_NODE_OUTBOUND_QUEUE_SLICES \<and> int n \<le> int MAX_NODE_OUTBOUND_QUEUE_BYTES - th_outBytes s"

definition reserveOutbound :: "Env \<Rightarrow> nat \<Rightarrow> TransportHost \<Rightarrow> bool \<times> TransportHost" where
  "reserveOutbound e n s =
     (let s = (if \<not> outboundFits n s then fold (reconcile e Sweep) (map fst (th_links s)) s else s) in
      if \<not> outboundFits n s then (False, s)
      else (True, s\<lparr>th_outBytes := th_outBytes s + int n, th_outSlices := th_outSlices s + 1\<rparr>))"

definition releaseAll :: "nat \<Rightarrow> TransportHost \<Rightarrow> TransportHost" where
  "releaseAll i s =
     (case map_of (th_links s) i of
        None \<Rightarrow> s
      | Some o' \<Rightarrow>
          if lo_closed o' then s
          else releaseOutbound (lo_charged o') (int (length (lo_queued o')))
                 (set_owner i (o'\<lparr>lo_closed := True, lo_queued := [], lo_charged := 0\<rparr>) s))"

section \<open>The occupant\<close>

text \<open>The bytes of an event, after the host's caller id.\<close>

definition event_name :: "link_event \<Rightarrow> jstr" where
  "event_name ev = (case ev of LinkOpen _ _ _ _ _ \<Rightarrow> js ''linkOpen'' | LinkBytes _ _ \<Rightarrow> js ''linkBytes''
     | LinkClosed _ \<Rightarrow> js ''linkClosed'' | Datagrams _ \<Rightarrow> js ''datagrams'')"

definition event_args :: "link_event \<Rightarrow> OpArgs \<Rightarrow> OpArgs" where
  "event_args ev a =
     (case ev of
        LinkOpen i st listener via remote \<Rightarrow>
          args_text remote (args_u32 (int via) (args_text listener (args_u8 (if st then 1 else 0) (args_u32 (int i) a))))
      | LinkBytes i b \<Rightarrow> args_blob b (args_u32 (int i) a)
      | LinkClosed i \<Rightarrow> args_u32 (int i) a
      | Datagrams ds \<Rightarrow> fold (\<lambda>(i, b) a. args_blob b (args_u32 (int i) a)) ds a)"

definition event_bytes :: "link_event \<Rightarrow> (op_error, bytes) result" where
  "event_bytes ev = rbind (args_op (event_name ev)) (\<lambda>a. Inr (args_build HOST_CALLER_ID (event_args ev a)))"

definition available :: "TransportHost \<Rightarrow> bool" where
  "available s \<longleftrightarrow> \<not> th_closed s \<and> th_bound s"

definition toTransport :: "Env \<Rightarrow> link_event \<Rightarrow> TransportHost \<Rightarrow> call_answer \<times> TransportHost" where
  "toTransport e ev s = (if th_closed s \<or> \<not> th_bound s then (Answer_Null, s) else (e_answer e ev, s\<lparr>th_log := th_log s @ [ev]\<rparr>))"

text \<open>\<open>tell\<close>, for an event whose answer nobody waits on.\<close>

definition tell :: "Env \<Rightarrow> link_event \<Rightarrow> TransportHost \<Rightarrow> TransportHost" where
  "tell e ev s = snd (toTransport e ev s)"

text \<open>What the driver says of a link that went down, from the occupant's answer \<open>[severity u8][reason utf8]\<close>: the reason, and
  whether it is printed.\<close>

definition down_report :: "bool \<Rightarrow> bytes \<Rightarrow> jstr \<times> bool" where
  "down_report suppressLinkLog ret = (utf8Decode (drop 1 ret), ret \<noteq> [] \<and> num_at ret 0 > 0 \<and> \<not> suppressLinkLog)"

definition channelClosed :: "Env \<Rightarrow> nat \<Rightarrow> TransportHost \<Rightarrow> TransportHost" where
  "channelClosed e i s =
     (if \<not> live i s then s
      else let s = releaseAll i s; s = s\<lparr>th_links := mdel i (th_links s)\<rparr> in snd (toTransport e (LinkClosed i) s))"

section \<open>Inbound\<close>

definition reserveInboundRead :: "nat \<Rightarrow> bool \<Rightarrow> TransportHost \<Rightarrow> bool \<times> TransportHost" where
  "reserveInboundRead n forced s =
     (if \<not> forced \<and> (th_inSlices s \<ge> int MAX_INBOUND_HOLD_SLICES \<or> int n > int MAX_INBOUND_HOLD_BYTES - th_inBytes s) then (False, s)
      else (True, s\<lparr>th_inSlices := th_inSlices s + 1, th_inBytes := th_inBytes s + int n\<rparr>))"

definition inboundSpent :: "TransportHost \<Rightarrow> bool" where
  "inboundSpent s \<longleftrightarrow> th_inSlices s \<ge> int MAX_INBOUND_HOLD_SLICES \<or> th_inBytes s \<ge> int MAX_INBOUND_HOLD_BYTES"

text \<open>
  Releasing a read, the starved links that may then read again, a link whose reading side fails there and the reads it
  held, which are released in turn, call each other. \<open>rel\<close> is the loop of \<open>releaseInboundRead\<close> that the others call back.
\<close>

definition release_one :: "(TransportHost \<Rightarrow> TransportHost) \<Rightarrow> nat \<Rightarrow> TransportHost \<Rightarrow> TransportHost" where
  "release_one rel n s = rel (s\<lparr>th_inSlices := th_inSlices s - 1, th_inBytes := th_inBytes s - int n\<rparr>)"

fun held_loop :: "(TransportHost \<Rightarrow> TransportHost) \<Rightarrow> nat \<Rightarrow> nat \<Rightarrow> nat \<Rightarrow> TransportHost \<Rightarrow> TransportHost" where
  "held_loop rel i k 0 s = s"
| "held_loop rel i k (Suc m) s =
     (if k < length (rd_held (th_reads_of s i))
      then held_loop rel i (k + 1) m (release_one rel (length (rd_held (th_reads_of s i) ! k)) s) else s)"

definition dropHeld_with :: "(TransportHost \<Rightarrow> TransportHost) \<Rightarrow> nat \<Rightarrow> TransportHost \<Rightarrow> TransportHost" where
  "dropHeld_with rel i s =
     (let s = held_loop rel i 0 (length (rd_held (th_reads_of s i))) s in set_reads i ((th_reads_of s i)\<lparr>rd_held := []\<rparr>) s)"

definition onClose_with :: "(TransportHost \<Rightarrow> TransportHost) \<Rightarrow> Env \<Rightarrow> nat \<Rightarrow> TransportHost \<Rightarrow> TransportHost" where
  "onClose_with rel e i s = channelClosed e i (dropHeld_with rel i s)"

definition dropLink_with :: "(TransportHost \<Rightarrow> TransportHost) \<Rightarrow> Env \<Rightarrow> nat \<Rightarrow> TransportHost \<Rightarrow> TransportHost" where
  "dropLink_with rel e i s =
     (let s = effect (Shut i False) s; s = (if e_close_fires e i then onClose_with rel e i s else s) in channelClosed e i s)"

definition failReadSide_with :: "(TransportHost \<Rightarrow> TransportHost) \<Rightarrow> Env \<Rightarrow> nat \<Rightarrow> TransportHost \<Rightarrow> TransportHost" where
  "failReadSide_with rel e i s = dropLink_with rel e i (dropHeld_with rel i s)"

text \<open>\<open>channel.setReadable?.(on)\<close>, \<open>False\<close> when it throws.\<close>

definition setReadable :: "Env \<Rightarrow> nat \<Rightarrow> bool \<Rightarrow> TransportHost \<Rightarrow> bool \<times> TransportHost" where
  "setReadable e i on s =
     (case map_of (th_links s) i of
        Some o' \<Rightarrow> if \<not> rl_pausable (lo_channel o') then (True, s) else (e_readable e i on, effect (Readable i on) s)
      | None \<Rightarrow> (True, s))"

definition resume_with :: "(TransportHost \<Rightarrow> TransportHost) \<Rightarrow> Env \<Rightarrow> nat \<Rightarrow> TransportHost \<Rightarrow> TransportHost" where
  "resume_with rel e i s =
     (if rd_paused (th_reads_of s i) \<or> \<not> live i s then s
      else let (ok, s) = setReadable e i True s in if ok then s else failReadSide_with rel e i s)"

text \<open>Each round takes a link off the starved queue, and nothing here puts one on it, so as many rounds as there are starved
  links run the source's loop to its end.\<close>

fun starved_loop :: "nat \<Rightarrow> Env \<Rightarrow> TransportHost \<Rightarrow> TransportHost" where
  "starved_loop 0 e s = s"
| "starved_loop (Suc n) e s =
     (case th_starved s of
        [] \<Rightarrow> s
      | i # rest \<Rightarrow> if inboundSpent s then s else starved_loop n e (resume_with (starved_loop n e) e i (s\<lparr>th_starved := rest\<rparr>)))"

definition starved_all :: "Env \<Rightarrow> TransportHost \<Rightarrow> TransportHost" where
  "starved_all e s = starved_loop (length (th_starved s)) e s"

definition releaseInboundRead :: "Env \<Rightarrow> nat \<Rightarrow> TransportHost \<Rightarrow> TransportHost" where
  "releaseInboundRead e n s = release_one (starved_all e) n s"

definition dropHeld :: "Env \<Rightarrow> nat \<Rightarrow> TransportHost \<Rightarrow> TransportHost" where
  "dropHeld e i s = dropHeld_with (starved_all e) i s"

definition dropLink :: "Env \<Rightarrow> nat \<Rightarrow> TransportHost \<Rightarrow> TransportHost" where
  "dropLink e i s = dropLink_with (starved_all e) e i s"

definition failReadSide :: "Env \<Rightarrow> nat \<Rightarrow> TransportHost \<Rightarrow> TransportHost" where
  "failReadSide e i s = failReadSide_with (starved_all e) e i s"

definition resume :: "Env \<Rightarrow> nat \<Rightarrow> TransportHost \<Rightarrow> TransportHost" where
  "resume e i s = resume_with (starved_all e) e i s"

definition releaseActive :: "Env \<Rightarrow> nat \<Rightarrow> TransportHost \<Rightarrow> TransportHost" where
  "releaseActive e i s =
     (case rd_active (th_reads_of s i) of
        None \<Rightarrow> s
      | Some n \<Rightarrow> let s = releaseInboundRead e n s in set_reads i ((th_reads_of s i)\<lparr>rd_active := None\<rparr>) s)"

definition dispatchRead :: "Env \<Rightarrow> nat \<Rightarrow> bytes \<Rightarrow> TransportHost \<Rightarrow> bool \<times> TransportHost" where
  "dispatchRead e i b s =
     (let s = set_reads i ((th_reads_of s i)\<lparr>rd_active := Some (length b)\<rparr>) s; (ok, s) = setReadable e i False s in
      if \<not> ok then (False, failReadSide e i (releaseActive e i s))
      else let (r, s) = toTransport e (LinkBytes i b) s
           in (case r of Answer_Throws \<Rightarrow> True | Answer_Null \<Rightarrow> True | Answer_Promise \<Rightarrow> False, s))"

text \<open>The loop of \<open>releaseRead\<close>, once per held read and once more to find none left.\<close>

fun releaseRead_loop :: "nat \<Rightarrow> Env \<Rightarrow> nat \<Rightarrow> TransportHost \<Rightarrow> TransportHost" where
  "releaseRead_loop 0 e i s = s"
| "releaseRead_loop (Suc n) e i s =
     (case map_of (th_links s) i of
        None \<Rightarrow> dropHeld e i s
      | Some o' \<Rightarrow>
          if rd_paused (th_reads_of s i) then s
          else case rd_held (th_reads_of s i) of
                 [] \<Rightarrow> if rl_pausable (lo_channel o') \<and> inboundSpent s then s\<lparr>th_starved := th_starved s @ [i]\<rparr> else resume e i s
               | b # rest \<Rightarrow>
                   let s = set_reads i ((th_reads_of s i)\<lparr>rd_held := rest\<rparr>) s; (sync, s) = dispatchRead e i b s
                   in if sync then releaseRead_loop n e i (releaseActive e i s) else s)"

definition releaseRead :: "Env \<Rightarrow> nat \<Rightarrow> TransportHost \<Rightarrow> TransportHost" where
  "releaseRead e i s =
     (let s = releaseActive e i s in releaseRead_loop (Suc (length (rd_held (th_reads_of s i)))) e i s)"

definition link_pause :: "Env \<Rightarrow> bool \<Rightarrow> nat \<Rightarrow> TransportHost \<Rightarrow> TransportHost" where
  "link_pause e on i s =
     (let s = set_reads i ((th_reads_of s i)\<lparr>rd_paused := on\<rparr>) s in
      if on then let (ok, s) = setReadable e i False s in if ok then s else failReadSide e i s
      else if rd_active (th_reads_of s i) = None then releaseRead e i s else s)"

definition onData :: "Env \<Rightarrow> nat \<Rightarrow> bytes \<Rightarrow> TransportHost \<Rightarrow> TransportHost" where
  "onData e i b s =
     (case map_of (th_links s) i of
        None \<Rightarrow> s
      | Some o' \<Rightarrow>
          if length b > MAX_LINK_READ_BYTES then failReadSide e i s
          else let (ok, s) = reserveInboundRead (length b) (rl_pausable (lo_channel o')) s in
               if \<not> ok then failReadSide e i s
               else let r = th_reads_of s i in
                    if rd_active r = None \<and> \<not> rd_paused r
                    then let (sync, s) = dispatchRead e i b s in if sync then releaseRead e i s else s
                    else set_reads i (r\<lparr>rd_held := rd_held r @ [b]\<rparr>) s)"

definition onClose :: "Env \<Rightarrow> nat \<Rightarrow> TransportHost \<Rightarrow> TransportHost" where
  "onClose e i s = onClose_with (starved_all e) e i s"

section \<open>Writing\<close>

datatype send_error = Link_Closed | Backlog_Unknown | Outbound_Limit | Adapter_Threw

definition charge_of :: "nat \<Rightarrow> TransportHost \<Rightarrow> int" where
  "charge_of i s = (case map_of (th_links s) i of Some o' \<Rightarrow> lo_charged o' | None \<Rightarrow> 0)"

text \<open>\<open>send\<close> in three parts: the write itself, its admission, and what comes before. A link that is closed has no charge.\<close>

definition owner_write :: "Env \<Rightarrow> nat \<Rightarrow> bytes \<Rightarrow> TransportHost \<Rightarrow> (send_error, int) result \<times> TransportHost" where
  "owner_write e i b s =
     (case map_of (th_links s) i of
        None \<Rightarrow> (Inl Link_Closed, s)
      | Some o' \<Rightarrow>
          let s = effect (Wrote i b) (set_owner i (o'\<lparr>lo_charged := lo_charged o' + int (length b), lo_queued := lo_queued o' @ [length b]\<rparr>) s)
          in case e_write e of
               Write_Throws \<Rightarrow> (Inl Adapter_Threw, releaseAll i s)
             | Write_Ends \<Rightarrow> (let s = onClose e i s in (Inr (charge_of i s), s))
             | Written \<Rightarrow> (let s = reconcile e After i s in (Inr (charge_of i s), s)))"

definition owner_admit :: "Env \<Rightarrow> nat \<Rightarrow> bytes \<Rightarrow> TransportHost \<Rightarrow> (send_error, int) result \<times> TransportHost" where
  "owner_admit e i b s =
     (case map_of (th_links s) i of
        None \<Rightarrow> (Inl Link_Closed, s)
      | Some o' \<Rightarrow>
          if length (lo_queued o') \<ge> MAX_OUTBOUND_QUEUE_SLICES \<or> int (length b) > int MAX_OUTBOUND_QUEUE_BYTES - lo_charged o'
          then (Inl Outbound_Limit, s)
          else let (ok, s) = reserveOutbound e (length b) s in if \<not> ok then (Inl Outbound_Limit, s) else owner_write e i b s)"

definition owner_send :: "Env \<Rightarrow> nat \<Rightarrow> bytes \<Rightarrow> TransportHost \<Rightarrow> (send_error, int) result \<times> TransportHost" where
  "owner_send e i b s =
     (case map_of (th_links s) i of
        None \<Rightarrow> (Inl Link_Closed, s)
      | Some o' \<Rightarrow>
          if lo_closed o' then (Inl Link_Closed, s)
          else case report (lo_channel o') (e_backlog e Before i) of
                 None \<Rightarrow> (Inl Backlog_Unknown, s)
               | Some now \<Rightarrow> (let s = settle i (Some now) s in if b = [] then (Inr (charge_of i s), s) else owner_admit e i b s))"

definition net_send :: "Env \<Rightarrow> nat \<Rightarrow> bytes \<Rightarrow> TransportHost \<Rightarrow> int \<times> TransportHost" where
  "net_send e i b s =
     (if \<not> th_bound s \<or> \<not> live i s then (0, s)
      else case owner_send e i b s of (Inr n, s) \<Rightarrow> (n, s) | (Inl _, s) \<Rightarrow> (0, dropLink e i s))"

section \<open>Links\<close>

definition register :: "nat option \<Rightarrow> RawLink \<Rightarrow> TransportHost \<Rightarrow> nat \<times> TransportHost" where
  "register maxRawLinks ch s =
     (if length (th_links s) \<ge> (case maxRawLinks of Some m \<Rightarrow> m | None \<Rightarrow> DEFAULT_MAX_RAW_LINKS) then (0, effect (Shut 0 False) s)
      else let i = th_nextLinkId s in
           (i, s\<lparr>th_nextLinkId := i + 1, th_links := mset_at i \<lparr>lo_channel = ch, lo_queued = [], lo_charged = 0, lo_closed = False\<rparr> (th_links s),
                 th_idOf := mset_at (rl_key ch) i (th_idOf s), th_reads_of := (th_reads_of s)(i := \<lparr>rd_active = None, rd_paused = False, rd_held = []\<rparr>)\<rparr>))"

text \<open>\<open>channel\<close> is what the factory's \<open>connect\<close> gave for the destination.\<close>

definition net_open :: "nat option \<Rightarrow> RawLink option \<Rightarrow> TransportHost \<Rightarrow> (nat \<times> bool) \<times> TransportHost" where
  "net_open maxRawLinks channel s =
     (if \<not> th_bound s then ((0, False), s)
      else case channel of
             None \<Rightarrow> ((0, False), s)
           | Some ch \<Rightarrow> (let (i, s) = register maxRawLinks ch s in if i = 0 then ((0, False), s) else ((i, rl_stream ch), s)))"

definition net_pause :: "Env \<Rightarrow> nat \<Rightarrow> bool \<Rightarrow> TransportHost \<Rightarrow> TransportHost" where
  "net_pause e i paused s = (if th_bound s \<and> live i s then link_pause e paused i s else s)"

text \<open>The close of the socket; the link leaves the table in a microtask, \<open>channelClosed\<close>.\<close>

definition net_close :: "Env \<Rightarrow> nat \<Rightarrow> bool \<Rightarrow> TransportHost \<Rightarrow> TransportHost" where
  "net_close e i graceful s =
     (if \<not> th_bound s \<or> \<not> live i s then s
      else let s = effect (Shut i graceful) s; s = (if e_close_fires e i then onClose e i s else s) in s\<lparr>th_closing := th_closing s @ [i]\<rparr>)"

definition close_turn :: "Env \<Rightarrow> TransportHost \<Rightarrow> TransportHost" where
  "close_turn e s = (case th_closing s of [] \<Rightarrow> s | i # rest \<Rightarrow> channelClosed e i (s\<lparr>th_closing := rest\<rparr>))"

text \<open>\<open>via\<close> is the key of the channel an accepted one arrived through.\<close>

definition announce :: "Env \<Rightarrow> nat \<Rightarrow> RawLink \<Rightarrow> jstr \<Rightarrow> nat option \<Rightarrow> TransportHost \<Rightarrow> TransportHost" where
  "announce e i ch listener via s =
     (let v = (case via of None \<Rightarrow> 0 | Some k \<Rightarrow> (case map_of (th_idOf s) k of Some j \<Rightarrow> j | None \<Rightarrow> 0))
      in tell e (LinkOpen i (rl_stream ch) listener (if v \<noteq> 0 \<and> live v s then v else 0) (rl_remoteAddr ch)) s)"

definition accept :: "nat option \<Rightarrow> Env \<Rightarrow> RawLink \<Rightarrow> jstr \<Rightarrow> nat option \<Rightarrow> TransportHost \<Rightarrow> TransportHost" where
  "accept maxRawLinks e ch listener via s =
     (if \<not> available s then effect (Shut 0 False) s
      else let (i, s) = register maxRawLinks ch s in if i = 0 then s else announce e i ch listener via s)"

section \<open>Datagrams\<close>

text \<open>\<open>bind\<close> up to its \<open>await\<close>: the generation it will compare, or a refusal.\<close>

definition bind_start :: "bool \<Rightarrow> TransportHost \<Rightarrow> nat option \<times> TransportHost" where
  "bind_start datagrams s =
     (if \<not> th_bound s \<or> \<not> datagrams \<or> length (th_sockets s) + th_binding s \<ge> MAX_UDP_SOCKETS then (None, s)
      else (Some (th_socketGen s), s\<lparr>th_binding := th_binding s + 1\<rparr>))"

text \<open>And after it: \<open>bound\<close> is the socket and port, \<open>None\<close> when the platform failed.\<close>

definition bind_done :: "nat \<Rightarrow> (nat \<times> nat) option \<Rightarrow> TransportHost \<Rightarrow> (nat \<times> nat) \<times> TransportHost" where
  "bind_done g bound s =
     (let s' = s\<lparr>th_binding := th_binding s - 1\<rparr> in
      case bound of
        None \<Rightarrow> ((0, 0), s')
      | Some (i, port) \<Rightarrow>
          if g \<noteq> th_socketGen s then ((0, 0), effect (UdpClosed i) s')
          else ((i, port), s'\<lparr>th_sockets := (if i \<in> set (th_sockets s) then th_sockets s else th_sockets s @ [i])\<rparr>))"

definition pumpReads :: "TransportHost \<Rightarrow> TransportHost" where
  "pumpReads s = (if th_readsBusy s \<or> th_readsDue s \<or> th_reads s = [] then s else s\<lparr>th_readsDue := True\<rparr>)"

definition heard :: "nat \<Rightarrow> bytes \<Rightarrow> TransportHost \<Rightarrow> TransportHost" where
  "heard i b s =
     (if i \<notin> set (th_sockets s) \<or> int (length b) > int MAX_UDP_HELD_BYTES - th_heldDatagramBytes s then s
      else let s = s\<lparr>th_heldDatagramBytes := th_heldDatagramBytes s + int (length b)\<rparr>;
               rs = th_reads s;
               rs = (if rs = [] \<or> dg_bytes (last rs) + length b > MAX_LINK_READ_BYTES then rs @ [\<lparr>dg_args = [], dg_bytes = 0\<rparr>] else rs);
               l = last rs; l = l\<lparr>dg_args := dg_args l @ [(i, b)], dg_bytes := dg_bytes l + length b\<rparr>
           in pumpReads (s\<lparr>th_reads := butlast rs @ [l]\<rparr>))"

text \<open>\<open>done\<close>, for an event of \<open>n\<close> bytes handed over under generation \<open>g\<close>.\<close>

definition reads_done :: "nat \<Rightarrow> nat \<Rightarrow> TransportHost \<Rightarrow> TransportHost" where
  "reads_done g n s =
     (if g \<noteq> th_socketGen s then s
      else pumpReads (s\<lparr>th_readsBusy := False, th_heldDatagramBytes := th_heldDatagramBytes s - int n\<rparr>))"

text \<open>The microtask of \<open>pumpReads\<close>; a pending answer keeps the generation and the bytes its \<open>done\<close> needs.\<close>

definition pump_turn :: "Env \<Rightarrow> TransportHost \<Rightarrow> TransportHost" where
  "pump_turn e s =
     (let s = s\<lparr>th_readsDue := False\<rparr> in
      case th_reads s of
        [] \<Rightarrow> s
      | d # rest \<Rightarrow>
          let s = s\<lparr>th_reads := rest\<rparr> in
          if th_readsBusy s then s
          else case toTransport e (Datagrams (dg_args d)) s of
                 (Answer_Promise, s) \<Rightarrow> s\<lparr>th_readsBusy := True, th_pending := th_pending s @ [(th_socketGen s, dg_bytes d)]\<rparr>
               | (Answer_Null, s) \<Rightarrow> reads_done (th_socketGen s) (dg_bytes d) s
               | (Answer_Throws, s) \<Rightarrow> s)"

definition pending_done :: "nat \<Rightarrow> TransportHost \<Rightarrow> TransportHost" where
  "pending_done k s =
     (if k < length (th_pending s)
      then reads_done (fst (th_pending s ! k)) (snd (th_pending s ! k)) (s\<lparr>th_pending := take k (th_pending s) @ drop (Suc k) (th_pending s)\<rparr>)
      else s)"

text \<open>\<^verbatim>\<open>datagrams.ts\<close>: where the datagram at \<open>at'\<close> of a send batch ends, \<open>None\<close> for the source's \<open>Infinity\<close>.\<close>

definition datagramEnd :: "bytes \<Rightarrow> nat \<Rightarrow> nat option" where
  "datagramEnd batch at' =
     (let p = at' + 5 + unat (num_at batch (at' + 4)) in
      if p + 4 > length batch then None else Some (p + 4 + (256 * unat (num_at batch (p + 2)) + unat (num_at batch (p + 3)))))"

text \<open>Past the batch's end the source reads \<open>undefined\<close>, so a datagram cut off before its host length gets the whole batch.\<close>

function forEachDatagram :: "bytes \<Rightarrow> nat \<Rightarrow> (nat \<times> jstr \<times> nat \<times> bytes) list" where
  "forEachDatagram batch at' =
     (if at' \<ge> length batch then []
      else let p = at' + 5 + unat (num_at batch (at' + 4));
               i = readU32BE batch at'; host = utf8Decode (subarray batch (at' + 5) p);
               port = 256 * unat (num_at batch p) + unat (num_at batch (p + 1)) in
           case datagramEnd batch at' of
             None \<Rightarrow> [(i, host, port, if at' + 4 < length batch then drop (p + 4) batch else batch)]
           | Some end' \<Rightarrow> (i, host, port, subarray batch (p + 4) end') # forEachDatagram batch end')"
  by pat_completeness auto
termination
  by (relation "measure (\<lambda>(batch, at'). length batch - at')") (auto simp: datagramEnd_def Let_def split: if_splits)

declare forEachDatagram.simps [simp del]

text \<open>\<open>kept\<close> is \<open>None\<close> while nothing was left out.\<close>

function udp_filter :: "nat list \<Rightarrow> bytes \<Rightarrow> nat \<Rightarrow> bytes list option \<Rightarrow> (unit, bytes list option) result" where
  "udp_filter sockets batch at' kept =
     (if at' \<ge> length batch then Inr kept
      else case datagramEnd batch at' of
             None \<Rightarrow> Inl ()
           | Some end' \<Rightarrow>
               if end' > length batch then Inl ()
               else udp_filter sockets batch end'
                      (if readU32BE batch at' \<in> set sockets then map_option (\<lambda>k. k @ [subarray batch at' end']) kept
                       else Some (case kept of None \<Rightarrow> [subarray batch 0 at'] | Some k \<Rightarrow> k)))"
  by pat_completeness auto
termination
  by (relation "measure (\<lambda>(_, batch, at', _). length batch - at')") (auto simp: datagramEnd_def Let_def split: if_splits)

declare udp_filter.simps [simp del]

definition net_udpSend :: "bool \<Rightarrow> bytes \<Rightarrow> TransportHost \<Rightarrow> (unit, unit) result \<times> TransportHost" where
  "net_udpSend datagrams batch s =
     (if \<not> th_bound s \<or> \<not> datagrams then (Inr (), s)
      else case udp_filter (th_sockets s) batch 0 None of
             Inl x \<Rightarrow> (Inl x, s)
           | Inr kept \<Rightarrow> (Inr (), effect (UdpSent (case kept of None \<Rightarrow> batch | Some k \<Rightarrow> concatBytes k)) s))"

definition net_udpClose :: "nat \<Rightarrow> TransportHost \<Rightarrow> TransportHost" where
  "net_udpClose i s =
     (if i \<in> set (th_sockets s) then effect (UdpClosed i) (s\<lparr>th_sockets := filter (\<lambda>j. j \<noteq> i) (th_sockets s)\<rparr>) else s)"

section \<open>The driver's life\<close>

definition reset :: "Env \<Rightarrow> TransportHost \<Rightarrow> TransportHost" where
  "reset e s =
     (let s = fold (dropLink e) (map fst (th_links s)) s;
          s = s\<lparr>th_starved := [], th_socketGen := th_socketGen s + 1\<rparr>;
          s = fold (\<lambda>i. effect (UdpClosed i)) (th_sockets s) s
      in s\<lparr>th_sockets := [], th_reads := [], th_heldDatagramBytes := 0, th_readsBusy := False\<rparr>)"

definition release_host :: "Env \<Rightarrow> TransportHost \<Rightarrow> TransportHost" where
  "release_host e s = (if \<not> th_bound s then s else reset e (s\<lparr>th_bound := False\<rparr>))"

definition activate :: "Env \<Rightarrow> TransportHost \<Rightarrow> TransportHost" where
  "activate e s = (release_host e s)\<lparr>th_bound := True\<rparr>"

definition close_host :: "Env \<Rightarrow> TransportHost \<Rightarrow> TransportHost" where
  "close_host e s = (if th_closed s then s else reset e (s\<lparr>th_closed := True, th_bound := False\<rparr>))"

section \<open>The handlers\<close>

text \<open>The handlers of \<open>linkService\<close> over the operations; \<open>link/deliver\<close> and \<open>link/status\<close> are the shell's.\<close>

definition link_open :: "nat option \<Rightarrow> (jstr \<Rightarrow> RawLink option) \<Rightarrow> bytes \<Rightarrow> TransportHost \<Rightarrow> bytes \<times> TransportHost" where
  "link_open maxRawLinks connect payload s =
     (let ((i, st), s) = net_open maxRawLinks (connect (utf8Decode payload)) s
      in (args_build [] (args_u8 (if st then 1 else 0) (args_u32 (int i) args_new)), s))"

definition link_send :: "Env \<Rightarrow> bytes \<Rightarrow> TransportHost \<Rightarrow> bytes \<times> TransportHost" where
  "link_send e payload s =
     (let (n, s) = net_send e (readU32BE payload 0) (drop 4 payload) s in (writeU32BE (replicate 4 0) 0 n, s))"

definition link_pause_handler :: "Env \<Rightarrow> bytes \<Rightarrow> TransportHost \<Rightarrow> bytes \<times> TransportHost" where
  "link_pause_handler e payload s = ([], net_pause e (readU32BE payload 0) (elem_at payload 4 = Some 1) s)"

definition link_close :: "Env \<Rightarrow> bytes \<Rightarrow> TransportHost \<Rightarrow> bytes \<times> TransportHost" where
  "link_close e payload s = ([], net_close e (readU32BE payload 0) (elem_at payload 4 = Some 1) s)"

definition link_udpBind_port :: "bytes \<Rightarrow> nat" where
  "link_udpBind_port payload = (if length payload \<ge> 2 then 256 * unat (num_at payload 0) + unat (num_at payload 1) else 0)"

definition link_udpBind_answer :: "nat \<times> nat \<Rightarrow> jstr \<Rightarrow> bytes" where
  "link_udpBind_answer = (\<lambda>(i, port) addresses. args_build [] (args_bytes (utf8Encode addresses) (args_u16 port (args_u32 (int i) args_new))))"

definition link_udpSend :: "bool \<Rightarrow> bytes \<Rightarrow> TransportHost \<Rightarrow> (unit, bytes) result \<times> TransportHost" where
  "link_udpSend datagrams payload s = (let (r, s) = net_udpSend datagrams payload s in (rbind r (\<lambda>_. Inr []), s))"

definition link_udpClose :: "bytes \<Rightarrow> TransportHost \<Rightarrow> bytes \<times> TransportHost" where
  "link_udpClose payload s = ([], net_udpClose (readU32BE payload 0) s)"

end
