(* ===== verification/Link_Out.thy ===== *)
theory Link_Out
  imports Link_Host
begin

text \<open>
  The runs of the host's link driver, and its outbound books: they are exact and bounded. The locale \<open>read_side_invariant\<close> says
  what a property of the state needs for every operation of the reading side to keep it.
\<close>

declare map_of_eq_Some_iff [simp del]

section \<open>Runs\<close>

text \<open>
  Every way a driver comes about, over adapters that answer as \<open>E\<close> allows and channels as \<open>C\<close> allows. \<open>arr\<close> is what each link's
  channel delivered while the link was in the table.
\<close>

inductive host_run :: "(Env \<Rightarrow> bool) \<Rightarrow> (RawLink \<Rightarrow> bool) \<Rightarrow> TransportHost \<Rightarrow> (nat \<Rightarrow> bytes list) \<Rightarrow> bool" for E C where
  run_new: "host_run E C TransportHost_new (\<lambda>_. [])"
| run_activate: "host_run E C s arr \<Longrightarrow> E e \<Longrightarrow> \<not> th_closed s \<Longrightarrow> host_run E C (activate e s) arr"
| run_release: "host_run E C s arr \<Longrightarrow> E e \<Longrightarrow> host_run E C (release_host e s) arr"
| run_close: "host_run E C s arr \<Longrightarrow> E e \<Longrightarrow> host_run E C (close_host e s) arr"
| run_open: "host_run E C s arr \<Longrightarrow> (\<And>ch. channel = Some ch \<Longrightarrow> C ch) \<Longrightarrow> host_run E C (snd (net_open m channel s)) arr"
| run_accept: "host_run E C s arr \<Longrightarrow> E e \<Longrightarrow> C ch \<Longrightarrow> host_run E C (accept m e ch listener via s) arr"
| run_send: "host_run E C s arr \<Longrightarrow> E e \<Longrightarrow> host_run E C (snd (net_send e i b s)) arr"
| run_pause: "host_run E C s arr \<Longrightarrow> E e \<Longrightarrow> host_run E C (net_pause e i paused s) arr"
| run_close_link: "host_run E C s arr \<Longrightarrow> E e \<Longrightarrow> host_run E C (net_close e i graceful s) arr"
| run_close_turn: "host_run E C s arr \<Longrightarrow> E e \<Longrightarrow> host_run E C (close_turn e s) arr"
| run_data: "host_run E C s arr \<Longrightarrow> E e \<Longrightarrow> host_run E C (onData e i b s) (if live i s then arr(i := arr i @ [b]) else arr)"
| run_ended: "host_run E C s arr \<Longrightarrow> E e \<Longrightarrow> host_run E C (onClose e i s) arr"
| run_settled: "host_run E C s arr \<Longrightarrow> E e \<Longrightarrow> rd_active (th_reads_of s i) \<noteq> None \<Longrightarrow> host_run E C (releaseRead e i s) arr"
| run_bind: "host_run E C s arr \<Longrightarrow> host_run E C (snd (bind_start dg s)) arr"
| run_bound: "host_run E C s arr \<Longrightarrow> 0 < th_binding s \<Longrightarrow> host_run E C (snd (bind_done g bound s)) arr"
| run_heard: "host_run E C s arr \<Longrightarrow> host_run E C (heard i b s) arr"
| run_pump: "host_run E C s arr \<Longrightarrow> E e \<Longrightarrow> th_readsDue s \<Longrightarrow> host_run E C (pump_turn e s) arr"
| run_pending: "host_run E C s arr \<Longrightarrow> host_run E C (pending_done k s) arr"
| run_udpSend: "host_run E C s arr \<Longrightarrow> host_run E C (snd (net_udpSend dg batch s)) arr"
| run_udpClose: "host_run E C s arr \<Longrightarrow> host_run E C (net_udpClose i s) arr"

section \<open>What the reading side leaves alone\<close>

text \<open>The reading side is built from a few primitives. A property of the state they keep, every operation of it keeps.\<close>

locale read_side_invariant =
  fixes P :: "TransportHost \<Rightarrow> bool"
  assumes reads: "P s \<Longrightarrow> P (set_reads i r s)"
    and inbound: "P s \<Longrightarrow> P (s\<lparr>th_inSlices := a, th_inBytes := b\<rparr>)"
    and starved: "P s \<Longrightarrow> P (s\<lparr>th_starved := q\<rparr>)"
    and effects: "P s \<Longrightarrow> P (effect x s)"
    and told: "P s \<Longrightarrow> P (snd (toTransport e ev s))"
    and gone: "P s \<Longrightarrow> P (channelClosed e i s)"
begin

lemma release_one_keeps: "(\<And>s. P s \<Longrightarrow> P (rel s)) \<Longrightarrow> P s \<Longrightarrow> P (release_one rel n s)"
  by (simp add: release_one_def inbound)

lemma held_loop_keeps: "(\<And>s. P s \<Longrightarrow> P (rel s)) \<Longrightarrow> P s \<Longrightarrow> P (held_loop rel i k n s)"
  by (induction rel i k n s rule: held_loop.induct) (simp_all add: release_one_keeps)

lemma dropHeld_with_keeps: "(\<And>s. P s \<Longrightarrow> P (rel s)) \<Longrightarrow> P s \<Longrightarrow> P (dropHeld_with rel i s)"
  by (simp add: dropHeld_with_def Let_def reads held_loop_keeps)

lemma onClose_with_keeps: "(\<And>s. P s \<Longrightarrow> P (rel s)) \<Longrightarrow> P s \<Longrightarrow> P (onClose_with rel e i s)"
  by (simp add: onClose_with_def gone dropHeld_with_keeps)

lemma dropLink_with_keeps: "(\<And>s. P s \<Longrightarrow> P (rel s)) \<Longrightarrow> P s \<Longrightarrow> P (dropLink_with rel e i s)"
  by (simp add: dropLink_with_def Let_def gone effects onClose_with_keeps)

lemma failReadSide_with_keeps: "(\<And>s. P s \<Longrightarrow> P (rel s)) \<Longrightarrow> P s \<Longrightarrow> P (failReadSide_with rel e i s)"
  by (simp add: failReadSide_with_def dropLink_with_keeps dropHeld_with_keeps)

lemma setReadable_keeps: "P s \<Longrightarrow> P (snd (setReadable e i on s))"
  by (simp add: setReadable_def effects split: option.split)

lemma resume_with_keeps: "(\<And>s. P s \<Longrightarrow> P (rel s)) \<Longrightarrow> P s \<Longrightarrow> P (resume_with rel e i s)"
  using setReadable_keeps [of s e i True] by (simp add: resume_with_def case_prod_beta failReadSide_with_keeps)

lemma starved_loop_keeps: "P s \<Longrightarrow> P (starved_loop n e s)"
proof (induction n arbitrary: s)
  case (Suc n)
  then show ?case by (cases "th_starved s") (simp_all add: resume_with_keeps starved)
qed simp

lemma starved_all_keeps: "P s \<Longrightarrow> P (starved_all e s)"
  by (simp add: starved_all_def starved_loop_keeps)

lemma dropHeld_keeps: "P s \<Longrightarrow> P (dropHeld e i s)"
  by (simp add: dropHeld_def dropHeld_with_keeps starved_all_keeps)

lemma dropLink_keeps: "P s \<Longrightarrow> P (dropLink e i s)"
  by (simp add: dropLink_def dropLink_with_keeps starved_all_keeps)

lemma failReadSide_keeps: "P s \<Longrightarrow> P (failReadSide e i s)"
  by (simp add: failReadSide_def failReadSide_with_keeps starved_all_keeps)

lemma resume_keeps: "P s \<Longrightarrow> P (resume e i s)"
  by (simp add: resume_def resume_with_keeps starved_all_keeps)

lemma onClose_keeps: "P s \<Longrightarrow> P (onClose e i s)"
  by (simp add: onClose_def onClose_with_keeps starved_all_keeps)

lemma releaseActive_keeps: "P s \<Longrightarrow> P (releaseActive e i s)"
  by (simp add: releaseActive_def releaseInboundRead_def release_one_keeps starved_all_keeps reads Let_def split: option.split)

lemma dispatchRead_keeps:
  assumes "P s"
  shows "P (snd (dispatchRead e i b s))"
proof -
  let ?s = "snd (setReadable e i False (set_reads i ((th_reads_of s i)\<lparr>rd_active := Some (length b)\<rparr>) s))"
  have "P ?s" using assms by (intro setReadable_keeps reads)
  then show ?thesis by (simp add: dispatchRead_def Let_def case_prod_beta failReadSide_keeps releaseActive_keeps told)
qed

lemma releaseRead_loop_keeps: "P s \<Longrightarrow> P (releaseRead_loop n e i s)"
proof (induction n arbitrary: s)
  case (Suc n)
  have "P (snd (dispatchRead e i b (set_reads i ((th_reads_of s i)\<lparr>rd_held := rest\<rparr>) s)))" for b rest
    using Suc.prems by (intro dispatchRead_keeps reads)
  then show ?case using Suc
    by (auto simp: Let_def case_prod_beta dropHeld_keeps starved resume_keeps releaseActive_keeps split: option.split list.split)
qed simp

lemma releaseRead_keeps: "P s \<Longrightarrow> P (releaseRead e i s)"
  unfolding releaseRead_def Let_def by (intro releaseRead_loop_keeps releaseActive_keeps)

lemma link_pause_keeps: "P s \<Longrightarrow> P (link_pause e on i s)"
  using setReadable_keeps [of "set_reads i ((th_reads_of s i)\<lparr>rd_paused := on\<rparr>) s" e i False]
  by (cases on) (simp_all add: link_pause_def Let_def case_prod_beta reads releaseRead_keeps failReadSide_keeps)

lemma net_pause_keeps: "P s \<Longrightarrow> P (net_pause e i on s)"
  by (simp add: net_pause_def link_pause_keeps)

lemma onData_keeps: "P s \<Longrightarrow> P (onData e i b s)"
proof -
  assume p: "P s"
  then have r: "P (snd (reserveInboundRead n f s))" for n f by (simp add: reserveInboundRead_def inbound)
  from dispatchRead_keeps [OF r] r p show ?thesis
    by (simp add: onData_def Let_def case_prod_beta failReadSide_keeps releaseRead_keeps reads split: option.split)
qed

lemma dropLinks_keep: "P s \<Longrightarrow> P (fold (dropLink e) is s)"
  by (induction "is" arbitrary: s) (simp_all add: dropLink_keeps)

end

section \<open>Outbound\<close>

text \<open>What a sum over a table becomes.\<close>

lemma sum_del: "distinct (map fst m) \<Longrightarrow> map_of m k = Some v \<Longrightarrow> (\<Sum>(i, b) \<leftarrow> mdel k m. f b) = (\<Sum>(i, b) \<leftarrow> m. f b) - (f v :: int)"
proof (induction m)
  case (Cons a m)
  show ?case
  proof (cases "fst a = k")
    case True
    then have "mdel k m = m" using Cons.prems(1) unfolding mdel_def by (intro filter_True) (auto intro: rev_image_eqI)
    with True Cons show ?thesis by (cases a) (simp add: mdel_def)
  next
    case False
    with Cons show ?thesis by (cases a) (auto simp: mdel_def)
  qed
qed simp

lemma sum_old: "map_of m k = Some w \<Longrightarrow> (\<Sum>(i, b) \<leftarrow> mset_at k v m. f b) = (\<Sum>(i, b) \<leftarrow> m. f b) - f w + (f v :: int)"
  by (induction m) auto

lemma sum_new: "map_of m k = None \<Longrightarrow> (\<Sum>(i, b) \<leftarrow> mset_at k v m. f b) = (\<Sum>(i, b) \<leftarrow> m. f b) + (f v :: int)"
  by (induction m) auto

definition owner_ok :: "Owner \<Rightarrow> bool" where
  "owner_ok o' \<longleftrightarrow> lo_charged o' = int (sum_list (lo_queued o')) \<and> length (lo_queued o') \<le> MAX_OUTBOUND_QUEUE_SLICES \<and>
     lo_charged o' \<le> int MAX_OUTBOUND_QUEUE_BYTES \<and> (lo_closed o' \<longrightarrow> lo_queued o' = [])"

definition out_inv :: "TransportHost \<Rightarrow> bool" where
  "out_inv s \<longleftrightarrow> distinct (map fst (th_links s)) \<and> (\<forall>i o'. map_of (th_links s) i = Some o' \<longrightarrow> 0 < i \<and> i < th_nextLinkId s \<and> owner_ok o') \<and>
     0 < th_nextLinkId s \<and> th_outBytes s = (\<Sum>(i, o') \<leftarrow> th_links s. lo_charged o') \<and>
     th_outSlices s = (\<Sum>(i, o') \<leftarrow> th_links s. int (length (lo_queued o'))) \<and>
     th_outBytes s \<le> int MAX_NODE_OUTBOUND_QUEUE_BYTES \<and> th_outSlices s \<le> int MAX_NODE_OUTBOUND_QUEUE_SLICES"

lemma out_inv_updates [simp]:
  "out_inv (s\<lparr>th_reads_of := x0\<rparr>) = out_inv s" "out_inv (s\<lparr>th_idOf := x1\<rparr>) = out_inv s" "out_inv (s\<lparr>th_bound := x2\<rparr>) = out_inv s"
  "out_inv (s\<lparr>th_closed := x3\<rparr>) = out_inv s" "out_inv (s\<lparr>th_inSlices := x4\<rparr>) = out_inv s" "out_inv (s\<lparr>th_inBytes := x5\<rparr>) = out_inv s"
  "out_inv (s\<lparr>th_starved := x6\<rparr>) = out_inv s" "out_inv (s\<lparr>th_sockets := x7\<rparr>) = out_inv s" "out_inv (s\<lparr>th_binding := x8\<rparr>) = out_inv s"
  "out_inv (s\<lparr>th_socketGen := x9\<rparr>) = out_inv s" "out_inv (s\<lparr>th_reads := x10\<rparr>) = out_inv s" "out_inv (s\<lparr>th_heldDatagramBytes := x11\<rparr>) = out_inv s"
  "out_inv (s\<lparr>th_readsBusy := x12\<rparr>) = out_inv s" "out_inv (s\<lparr>th_readsDue := x13\<rparr>) = out_inv s" "out_inv (s\<lparr>th_closing := x14\<rparr>) = out_inv s"
  "out_inv (s\<lparr>th_pending := x15\<rparr>) = out_inv s" "out_inv (s\<lparr>th_log := x16\<rparr>) = out_inv s" "out_inv (s\<lparr>th_effects := x17\<rparr>) = out_inv s"
  by (simp_all add: out_inv_def)

text \<open>Replacing one link's owner, with the node's books moved by the same amounts.\<close>

lemma out_inv_owner:
  assumes "out_inv s" "map_of (th_links s) i = Some o'" "owner_ok o''"
    and "x = lo_charged o'' - lo_charged o'" "y = int (length (lo_queued o'')) - int (length (lo_queued o'))"
    and "th_outBytes s + x \<le> int MAX_NODE_OUTBOUND_QUEUE_BYTES" "th_outSlices s + y \<le> int MAX_NODE_OUTBOUND_QUEUE_SLICES"
  shows "out_inv (set_owner i o'' (s\<lparr>th_outBytes := th_outBytes s + x, th_outSlices := th_outSlices s + y\<rparr>))"
  using assms by (auto simp: out_inv_def set_owner_def sum_old)

lemma settle_loop_takes:
  "settle_loop c now qs n b = (n', b') \<Longrightarrow> \<exists>k \<le> length qs. n' = n + k \<and> b' = b + int (sum_list (take k qs)) \<and>
     (k < length qs \<longrightarrow> c - b' - int (qs ! k) < now) \<and> (k > 0 \<longrightarrow> now \<le> c - b')"
proof (induction qs arbitrary: n b)
  case (Cons q qs)
  show ?case
  proof (cases "c - b - int q \<ge> now")
    case True
    with Cons.prems have "settle_loop c now qs (n + 1) (b + int q) = (n', b')" by simp
    from Cons.IH [OF this] obtain k where k: "k \<le> length qs" "n' = n + 1 + k" "b' = b + int q + int (sum_list (take k qs))"
      "k < length qs \<longrightarrow> c - b' - int (qs ! k) < now" "k > 0 \<longrightarrow> now \<le> c - b'" by blast
    then have "now \<le> c - b'" using True by (cases "k = 0") auto
    with k show ?thesis by (intro exI [of _ "Suc k"]) auto
  qed (use Cons.prems in auto)
qed simp

lemma out_inv_settle:
  assumes "out_inv s"
  shows "out_inv (settle i now s)"
proof (cases "map_of (th_links s) i = None \<or> now = None")
  case False
  then obtain o' now' where o: "map_of (th_links s) i = Some o'" "now = Some now'" by auto
  obtain n b where n: "settle_loop (lo_charged o') (int now') (lo_queued o') 0 0 = (n, b)" by fastforce
  from settle_loop_takes [OF this] obtain k where k: "k \<le> length (lo_queued o')" "n = k" "b = int (sum_list (take k (lo_queued o')))" by auto
  have ok: "owner_ok o'" using assms o by (auto simp: out_inv_def)
  have split: "sum_list (lo_queued o') = sum_list (take k (lo_queued o')) + sum_list (drop k (lo_queued o'))"
    by (metis append_take_drop_id sum_list_append)
  let ?o = "o'\<lparr>lo_queued := drop n (lo_queued o'), lo_charged := lo_charged o' - b\<rparr>"
  have "owner_ok ?o" using ok k split by (auto simp: owner_ok_def)
  then have "out_inv (set_owner i ?o (s\<lparr>th_outBytes := th_outBytes s + - b, th_outSlices := th_outSlices s + - int n\<rparr>))"
    using assms k by (intro out_inv_owner [OF assms o(1)]) (simp_all add: out_inv_def)
  moreover have "set_owner i ?o (s\<lparr>th_outBytes := th_outBytes s + - b, th_outSlices := th_outSlices s + - int n\<rparr>) =
      releaseOutbound b (int n) (set_owner i ?o s)" by (simp add: set_owner_def releaseOutbound_def)
  ultimately show ?thesis using assms o n by (simp add: settle_def)
qed (use assms in \<open>auto simp: settle_def split: option.split\<close>)

lemma out_inv_reconcile: "out_inv s \<Longrightarrow> out_inv (reconcile e ph i s)"
  by (simp add: reconcile_def out_inv_settle split: option.split)

lemma out_inv_sweep: "out_inv s \<Longrightarrow> out_inv (fold (reconcile e ph) is s)"
  by (induction "is" arbitrary: s) (simp_all add: out_inv_reconcile)

lemma out_inv_releaseAll:
  assumes "out_inv s"
  shows "out_inv (releaseAll i s)"
proof (cases "map_of (th_links s) i")
  case (Some o')
  have ok: "owner_ok o'" using assms Some by (auto simp: out_inv_def)
  let ?o = "o'\<lparr>lo_closed := True, lo_queued := [], lo_charged := 0\<rparr>"
  let ?x = "lo_charged o'" and ?y = "int (length (lo_queued o'))"
  have "out_inv (set_owner i ?o (s\<lparr>th_outBytes := th_outBytes s + - ?x, th_outSlices := th_outSlices s + - ?y\<rparr>))"
    using assms ok by (intro out_inv_owner [OF assms Some]) (simp_all add: out_inv_def owner_ok_def)
  moreover have "set_owner i ?o (s\<lparr>th_outBytes := th_outBytes s + - ?x, th_outSlices := th_outSlices s + - ?y\<rparr>) =
      releaseOutbound ?x ?y (set_owner i ?o s)" by (simp add: set_owner_def releaseOutbound_def)
  ultimately show ?thesis using assms Some by (simp add: releaseAll_def)
qed (use assms in \<open>simp add: releaseAll_def\<close>)

lemma releaseAll_empties:
  assumes "out_inv s" "map_of (th_links s) i = Some o'"
  shows "\<exists>o''. map_of (th_links (releaseAll i s)) i = Some o'' \<and> lo_queued o'' = [] \<and> lo_charged o'' = 0"
  using assms by (auto simp: releaseAll_def releaseOutbound_def set_owner_def out_inv_def owner_ok_def)

lemma out_inv_told: "out_inv s \<Longrightarrow> out_inv (snd (toTransport e ev s))"
  by (simp add: toTransport_def out_inv_def)

lemma out_inv_gone:
  assumes "out_inv s"
  shows "out_inv (channelClosed e i s)"
proof (cases "map_of (th_links s) i")
  case (Some o')
  let ?s = "releaseAll i s"
  obtain o'' where o: "map_of (th_links ?s) i = Some o''" "lo_queued o'' = []" "lo_charged o'' = 0" using releaseAll_empties [OF assms Some] by blast
  have "out_inv ?s" by (rule out_inv_releaseAll [OF assms])
  then have "out_inv (?s\<lparr>th_links := mdel i (th_links ?s)\<rparr>)" using o by (auto simp: out_inv_def sum_del split: if_splits)
  from out_inv_told [OF this] show ?thesis using Some by (simp add: channelClosed_def Let_def)
qed (use assms in \<open>simp add: channelClosed_def\<close>)

interpretation outbound: read_side_invariant out_inv
  by unfold_locales (simp_all add: set_reads_def effect_def out_inv_told out_inv_gone)

text \<open>A settled link keeps its channel and only ever has less queued.\<close>

definition shrunk :: "Owner \<Rightarrow> Owner \<Rightarrow> bool" where
  "shrunk o' o'' \<longleftrightarrow> lo_channel o'' = lo_channel o' \<and> length (lo_queued o'') \<le> length (lo_queued o') \<and> lo_charged o'' \<le> lo_charged o' \<and>
     lo_closed o'' = lo_closed o'"

definition less_queued :: "TransportHost \<Rightarrow> TransportHost \<Rightarrow> bool" where
  "less_queued s s' \<longleftrightarrow> (\<forall>j o'. map_of (th_links s) j = Some o' \<longrightarrow> (\<exists>o''. map_of (th_links s') j = Some o'' \<and> shrunk o' o''))"

lemma shrunk_refl [simp]: "shrunk o' o'"
  by (simp add: shrunk_def)

lemma shrunk_trans: "shrunk a b \<Longrightarrow> shrunk b c \<Longrightarrow> shrunk a c"
  by (simp add: shrunk_def)

lemma less_queued_settle: "less_queued s (settle i now s)"
  unfolding less_queued_def
proof (intro allI impI)
  fix j o' assume o: "map_of (th_links s) j = Some o'"
  show "\<exists>o''. map_of (th_links (settle i now s)) j = Some o'' \<and> shrunk o' o''"
  proof (cases "i = j \<and> now \<noteq> None")
    case True
    then obtain now' where now: "now = Some now'" by auto
    obtain n b where n: "settle_loop (lo_charged o') (int now') (lo_queued o') 0 0 = (n, b)" by fastforce
    from settle_loop_takes [OF this] have "0 \<le> b" by auto
    with True o n now show ?thesis by (simp add: settle_def releaseOutbound_def set_owner_def shrunk_def)
  qed (use o in \<open>auto simp: settle_def releaseOutbound_def set_owner_def Let_def case_prod_beta split: option.split\<close>)
qed

lemma less_queued_trans: "less_queued s s' \<Longrightarrow> less_queued s' s'' \<Longrightarrow> less_queued s s''"
  unfolding less_queued_def by (blast intro: shrunk_trans)

lemma less_queued_sweep: "less_queued s (fold (reconcile e ph) is s)"
proof (induction "is" arbitrary: s)
  case (Cons i "is")
  have "less_queued s (reconcile e ph i s)" using less_queued_settle by (simp add: reconcile_def less_queued_def split: option.split)
  from less_queued_trans [OF this Cons.IH] show ?case by simp
qed (simp add: less_queued_def)

lemma out_inv_admit:
  assumes "out_inv s" "map_of (th_links s) i = Some o'" "\<not> lo_closed o'"
  shows "out_inv (snd (owner_admit e i b s))"
proof -
  let ?n = "length b"
  define s1 where "s1 = (if \<not> outboundFits ?n s then fold (reconcile e Sweep) (map fst (th_links s)) s else s)"
  have 1: "out_inv s1" using assms out_inv_sweep by (simp add: s1_def)
  have "less_queued s s1" using less_queued_sweep by (simp add: s1_def less_queued_def)
  then obtain p where p: "map_of (th_links s1) i = Some p" "length (lo_queued p) \<le> length (lo_queued o')" "lo_charged p \<le> lo_charged o'" "\<not> lo_closed p"
    using assms(2,3) unfolding less_queued_def shrunk_def by auto
  let ?p = "p\<lparr>lo_charged := lo_charged p + int ?n, lo_queued := lo_queued p @ [?n]\<rparr>"
  let ?w = "effect (Wrote i b) (set_owner i ?p (s1\<lparr>th_outBytes := th_outBytes s1 + int ?n, th_outSlices := th_outSlices s1 + 1\<rparr>))"
  show ?thesis
  proof (cases "length (lo_queued o') \<ge> MAX_OUTBOUND_QUEUE_SLICES \<or> int ?n > int MAX_OUTBOUND_QUEUE_BYTES - lo_charged o' \<or> \<not> outboundFits ?n s1")
    case True
    with assms 1 show ?thesis by (auto simp: owner_admit_def reserveOutbound_def Let_def s1_def [symmetric])
  next
    case False
    have "owner_ok p" using 1 p(1) by (auto simp: out_inv_def)
    then have "owner_ok ?p" using False p by (auto simp: owner_ok_def)
    then have "out_inv (set_owner i ?p (s1\<lparr>th_outBytes := th_outBytes s1 + int ?n, th_outSlices := th_outSlices s1 + 1\<rparr>))"
      using False by (intro out_inv_owner [OF 1 p(1)]) (auto simp: outboundFits_def)
    then have w: "out_inv ?w" using outbound.effects by (simp add: set_owner_def)
    have "owner_admit e i b s = (case e_write e of Write_Throws \<Rightarrow> (Inl Adapter_Threw, releaseAll i ?w)
        | Write_Ends \<Rightarrow> (Inr (charge_of i (onClose e i ?w)), onClose e i ?w)
        | Written \<Rightarrow> (Inr (charge_of i (reconcile e After i ?w)), reconcile e After i ?w))"
      using assms False p(1) by (simp add: owner_admit_def reserveOutbound_def Let_def s1_def [symmetric] owner_write_def split: write_outcome.split)
    then show ?thesis using w outbound.onClose_keeps out_inv_reconcile out_inv_releaseAll by (simp split: write_outcome.split)
  qed
qed

lemma out_inv_send:
  assumes "out_inv s"
  shows "out_inv (snd (owner_send e i b s))"
proof (cases "map_of (th_links s) i")
  case (Some o')
  have "out_inv (snd (owner_admit e i b (settle i now s)))" if "\<not> lo_closed o'" for now
  proof -
    obtain o'' where "map_of (th_links (settle i now s)) i = Some o''" "shrunk o' o''"
      using less_queued_settle [of s i now, unfolded less_queued_def] Some by blast
    with that have "map_of (th_links (settle i now s)) i = Some o''" "\<not> lo_closed o''" by (simp_all add: shrunk_def)
    then show ?thesis by (rule out_inv_admit [OF out_inv_settle [OF assms]])
  qed
  with Some assms show ?thesis by (auto simp: owner_send_def Let_def out_inv_settle split: option.split)
qed (use assms in \<open>simp add: owner_send_def\<close>)

lemma out_inv_net_send: "out_inv s \<Longrightarrow> out_inv (snd (net_send e i b s))"
  using out_inv_send [of s e i b] by (auto simp: net_send_def outbound.dropLink_keeps split: prod.split sum.split)

lemma out_inv_register: "out_inv s \<Longrightarrow> out_inv (snd (register m ch s))"
proof -
  assume ok: "out_inv s"
  then have "map_of (th_links s) (th_nextLinkId s) = None" by (cases "map_of (th_links s) (th_nextLinkId s)") (auto simp: out_inv_def)
  moreover have "owner_ok \<lparr>lo_channel = ch, lo_queued = [], lo_charged = 0, lo_closed = False\<rparr>" by (simp add: owner_ok_def)
  ultimately show ?thesis using ok by (auto simp: register_def out_inv_def sum_new effect_def Let_def less_Suc_eq)
qed

lemma out_inv_effects: "out_inv (fold (\<lambda>i. effect (f i)) xs s) = out_inv s"
  by (induction xs arbitrary: s) (simp_all add: effect_def)

lemma out_inv_reset: "out_inv s \<Longrightarrow> out_inv (reset e s)"
  using outbound.dropLinks_keep [of s e "map fst (th_links s)"] by (simp add: reset_def Let_def out_inv_effects)

text \<open>The datagrams' side and the driver's own flags are not the links' books.\<close>

lemma out_inv_datagrams:
  "out_inv s \<Longrightarrow> out_inv (snd (bind_start dg s))" "out_inv s \<Longrightarrow> out_inv (snd (bind_done g bound s))" "out_inv s \<Longrightarrow> out_inv (heard i b s)"
  "out_inv s \<Longrightarrow> out_inv (reads_done g n s)" "out_inv s \<Longrightarrow> out_inv (snd (net_udpSend dg batch s))" "out_inv s \<Longrightarrow> out_inv (net_udpClose i s)"
  by (simp_all add: bind_start_def bind_done_def heard_def pumpReads_def reads_done_def net_udpSend_def net_udpClose_def effect_def Let_def
      split: option.split sum.split)

lemma out_inv_pump: "out_inv s \<Longrightarrow> out_inv (pump_turn e s)"
  using out_inv_told [of "s\<lparr>th_readsDue := False, th_reads := _\<rparr>" e]
  by (simp add: pump_turn_def Let_def case_prod_beta out_inv_datagrams(4) split: list.split call_answer.split)

lemma out_inv_pending: "out_inv s \<Longrightarrow> out_inv (pending_done k s)"
  by (simp add: pending_done_def out_inv_datagrams(4))

lemma host_run_out: "host_run E C s arr \<Longrightarrow> out_inv s"
proof (induction rule: host_run.induct)
  case run_new
  show ?case by (simp add: out_inv_def TransportHost_new_def)
next
  case (run_open s arr channel m)
  then show ?case using out_inv_register [of s m] by (simp add: net_open_def Let_def case_prod_beta split: option.split)
next
  case (run_accept s arr e ch m listener via)
  then show ?case using out_inv_register [of s m ch] out_inv_told
    by (simp add: accept_def announce_def tell_def Let_def case_prod_beta outbound.effects)
next
  case (run_close_turn s arr e)
  then show ?case by (simp add: close_turn_def out_inv_gone split: list.split)
qed (simp_all add: activate_def release_host_def close_host_def out_inv_reset net_close_def Let_def outbound.effects
    out_inv_net_send outbound.net_pause_keeps outbound.onData_keeps outbound.onClose_keeps outbound.releaseRead_keeps out_inv_datagrams
    out_inv_pump out_inv_pending)

text \<open>C24: A node's outbound books are exact and bounded. In every run, whatever adapters answer and whenever they throw, the bytes and
  writes charged to the node are those charged to its live links, each link's charge is the sum of its admitted writes not yet
  drained, and neither a link nor the node is ever charged past its limit. When an adapter reports what it still holds,
  at least that much stays charged, and no write that has drained whole stays.\<close>

theorem link_outbound_books:
  assumes "host_run E C s arr"
  shows "th_outBytes s = (\<Sum>(i, o') \<leftarrow> th_links s. lo_charged o') \<and> th_outSlices s = (\<Sum>(i, o') \<leftarrow> th_links s. int (length (lo_queued o'))) \<and>
    th_outBytes s \<le> int MAX_NODE_OUTBOUND_QUEUE_BYTES \<and> th_outSlices s \<le> int MAX_NODE_OUTBOUND_QUEUE_SLICES \<and>
    (\<forall>i o'. map_of (th_links s) i = Some o' \<longrightarrow> lo_charged o' = int (sum_list (lo_queued o')) \<and>
       lo_charged o' \<le> int MAX_OUTBOUND_QUEUE_BYTES \<and> length (lo_queued o') \<le> MAX_OUTBOUND_QUEUE_SLICES \<and>
       (\<forall>now. int now \<le> lo_charged o' \<longrightarrow> (\<exists>o''. map_of (th_links (settle i (Some now) s)) i = Some o'' \<and> int now \<le> lo_charged o'' \<and>
          (lo_queued o'' \<noteq> [] \<longrightarrow> lo_charged o'' - int (hd (lo_queued o'')) < int now))))"
proof -
  have inv: "out_inv s" by (rule host_run_out [OF assms])
  have settles: "\<exists>o''. map_of (th_links (settle i (Some now) s)) i = Some o'' \<and> int now \<le> lo_charged o'' \<and>
      (lo_queued o'' \<noteq> [] \<longrightarrow> lo_charged o'' - int (hd (lo_queued o'')) < int now)"
    if o: "map_of (th_links s) i = Some o'" and now: "int now \<le> lo_charged o'" for i o' now
  proof -
    obtain n b where n: "settle_loop (lo_charged o') (int now) (lo_queued o') 0 0 = (n, b)" by fastforce
    from settle_loop_takes [OF n] obtain k where k: "k \<le> length (lo_queued o')" "n = k"
      "k < length (lo_queued o') \<longrightarrow> lo_charged o' - b - int (lo_queued o' ! k) < int now" "k > 0 \<longrightarrow> int now \<le> lo_charged o' - b" "k = 0 \<longrightarrow> b = 0"
      by auto
    show ?thesis
    proof (cases "n = 0")
      case True
      with o n k now show ?thesis by (auto simp: settle_def hd_conv_nth)
    next
      case False
      with o n k show ?thesis by (auto simp: settle_def releaseOutbound_def set_owner_def hd_drop_conv_nth)
    qed
  qed
  have "owner_ok o'" if "map_of (th_links s) i = Some o'" for i o' using inv that by (simp add: out_inv_def)
  then have "\<forall>i o'. map_of (th_links s) i = Some o' \<longrightarrow> lo_charged o' = int (sum_list (lo_queued o')) \<and>
       lo_charged o' \<le> int MAX_OUTBOUND_QUEUE_BYTES \<and> length (lo_queued o') \<le> MAX_OUTBOUND_QUEUE_SLICES \<and>
       (\<forall>now. int now \<le> lo_charged o' \<longrightarrow> (\<exists>o''. map_of (th_links (settle i (Some now) s)) i = Some o'' \<and> int now \<le> lo_charged o'' \<and>
          (lo_queued o'' \<noteq> [] \<longrightarrow> lo_charged o'' - int (hd (lo_queued o'')) < int now)))"
    using settles unfolding owner_ok_def by blast
  with inv show ?thesis unfolding out_inv_def by blast
qed

definition demo_env :: Env where
  "demo_env = \<lparr>e_backlog = (\<lambda>_ _. Some (Fin 3)), e_write = Written, e_readable = (\<lambda>_ _. True), e_close_fires = (\<lambda>_. False),
     e_answer = (\<lambda>_. Answer_Promise)\<rparr>"

definition demo_channel :: RawLink where
  "demo_channel = \<lparr>rl_key = 0, rl_buffered = True, rl_pausable = True, rl_stream = True, rl_remoteAddr = []\<rparr>"

definition demo_host :: TransportHost where
  "demo_host = snd (net_open None (Some demo_channel) (activate demo_env TransportHost_new))"

lemma demo_host_run: "host_run (\<lambda>e. e = demo_env) (\<lambda>_. True) demo_host (\<lambda>_. [])"
  unfolding demo_host_def by (intro host_run.intros) (simp_all add: TransportHost_new_def)

lemma demo_host_value:
  "demo_host = TransportHost_new\<lparr>th_bound := True, th_nextLinkId := 2,
     th_links := [(1, \<lparr>lo_channel = demo_channel, lo_queued = [], lo_charged = 0, lo_closed = False\<rparr>)], th_idOf := [(0, 1)],
     th_reads_of := (\<lambda>_. \<lparr>rd_active = None, rd_paused = False, rd_held = []\<rparr>)\<rparr>"
  by (simp add: demo_host_def net_open_def register_def activate_def release_host_def DEFAULT_MAX_RAW_LINKS_def Let_def TransportHost_new_def
      demo_channel_def fun_eq_iff)

theorem link_outbound_books_witness:
  "let s = snd (net_send demo_env 1 [1, 2, 3] demo_host) in th_outBytes s = 3 \<and> th_outBytes s = (\<Sum>(i, o') \<leftarrow> th_links s. lo_charged o')"
proof -
  let ?s = "snd (net_send demo_env 1 [1, 2, 3] demo_host)"
  have "host_run (\<lambda>e. e = demo_env) (\<lambda>_. True) ?s (\<lambda>_. [])" by (rule host_run.run_send [OF demo_host_run refl])
  note link_outbound_books [OF this]
  moreover have "th_outBytes ?s = 3"
    by (simp add: demo_host_value net_send_def owner_send_def owner_admit_def owner_write_def reserveOutbound_def outboundFits_def report_def settle_def
        reconcile_def effect_def set_owner_def releaseOutbound_def demo_env_def demo_channel_def TransportHost_new_def MAX_SAFE_def
        MAX_OUTBOUND_QUEUE_SLICES_def MAX_OUTBOUND_QUEUE_BYTES_def MAX_LINK_READ_BYTES_def MAX_NODE_OUTBOUND_QUEUE_BYTES_def
        MAX_NODE_OUTBOUND_QUEUE_SLICES_def Let_def)
  ultimately show ?thesis by (simp add: Let_def)
qed

end
