(* ===== verification/Link_In.thy ===== *)
theory Link_In
  imports Link_Out
begin

text \<open>
  The reading side of the host's link driver: each link's reads reach the occupant in order and one at a time, the inbound books are
  exact while adapters' \<open>setReadable\<close> returns, and the datagrams held are bounded and never stuck.
\<close>

section \<open>The order of reads\<close>

definition delivered :: "nat \<Rightarrow> TransportHost \<Rightarrow> bytes list" where
  "delivered i s = concat (map (\<lambda>ev. case ev of LinkBytes j b \<Rightarrow> if j = i then [b] else [] | _ \<Rightarrow> []) (th_log s))"

text \<open>Links other than \<open>i\<close> are as they were, or gone; and nothing was delivered to any.\<close>

definition kept_but :: "nat set \<Rightarrow> TransportHost \<Rightarrow> TransportHost \<Rightarrow> bool" where
  "kept_but X s s' \<longleftrightarrow> (\<forall>i. delivered i s' = delivered i s \<and> (live i s' \<longrightarrow> live i s \<and> (i \<notin> X \<longrightarrow> th_reads_of s' i = th_reads_of s i))) \<and>
     th_bound s' = th_bound s \<and> th_closed s' = th_closed s \<and> th_nextLinkId s' = th_nextLinkId s"

lemma kept_refl [simp]: "kept_but X s s"
  by (simp add: kept_but_def)

lemma kept_trans: "kept_but X s s' \<Longrightarrow> kept_but X s' s'' \<Longrightarrow> kept_but X s s''"
  unfolding kept_but_def by metis

lemma kept_mono: "kept_but X s s' \<Longrightarrow> X \<subseteq> Y \<Longrightarrow> kept_but Y s s'"
  unfolding kept_but_def by blast

lemma kept_dead: "kept_but {i} s s' \<Longrightarrow> \<not> live i s' \<Longrightarrow> kept_but {} s s'"
  unfolding kept_but_def by (metis singletonD)

lemma kept_effect [simp]: "kept_but X s (effect x s)"
  by (simp add: kept_but_def effect_def delivered_def available_def)

lemma kept_inbound [simp]: "kept_but X s (s\<lparr>th_inSlices := a, th_inBytes := b\<rparr>)" "kept_but X s (s\<lparr>th_starved := q\<rparr>)"
  by (simp_all add: kept_but_def delivered_def available_def)

lemma kept_reads [simp]: "kept_but {i} s (set_reads i r s)"
  by (simp add: kept_but_def set_reads_def delivered_def available_def)

lemma links_releaseAll: "live j (releaseAll i s) = live j s" "th_log (releaseAll i s) = th_log s" "th_reads_of (releaseAll i s) = th_reads_of s"
  "th_nextLinkId (releaseAll i s) = th_nextLinkId s" "th_bound (releaseAll i s) = th_bound s" "th_closed (releaseAll i s) = th_closed s"
  by (auto simp: releaseAll_def releaseOutbound_def set_owner_def available_def split: option.split)

lemma kept_gone: "kept_but {} s (channelClosed e i s)" "\<not> live i (channelClosed e i s)"
  using links_releaseAll [where i = i and s = s]
  by (auto simp: channelClosed_def toTransport_def kept_but_def delivered_def available_def Let_def)

lemma kept_available: "kept_but X s s' \<Longrightarrow> available s' = available s"
  by (simp add: kept_but_def available_def)

lemma gone_stays: "kept_but X s s' \<Longrightarrow> \<not> live i s \<Longrightarrow> \<not> live i s'"
  unfolding kept_but_def by blast

lemma kept_release_one: "(\<And>s. kept_but {} s (rel s)) \<Longrightarrow> kept_but {} s (release_one rel n s)"
  unfolding release_one_def using kept_trans [OF kept_inbound(1)] by blast

lemma kept_held_loop: "(\<And>s. kept_but {} s (rel s)) \<Longrightarrow> kept_but {} s (held_loop rel i k m s)"
proof (induction rel i k m s rule: held_loop.induct)
  case (2 rel i k m s)
  let ?s = "release_one rel (length (rd_held (th_reads_of s i) ! k)) s"
  have "kept_but {} s ?s" by (rule kept_release_one) (rule 2(2))
  with 2 show ?case by (auto intro: kept_trans [of "{}" s ?s])
qed simp

lemma kept_dropHeld: "(\<And>s. kept_but {} s (rel s)) \<Longrightarrow> kept_but {i} s (dropHeld_with rel i s)"
  unfolding dropHeld_with_def Let_def using kept_trans [OF kept_mono [OF kept_held_loop] kept_reads] by blast

lemma kept_onClose:
  assumes "\<And>s. kept_but {} s (rel s)"
  shows "kept_but {} s (onClose_with rel e i s)" "\<not> live i (onClose_with rel e i s)"
proof -
  let ?s = "dropHeld_with rel i s"
  have "kept_but {i} s (channelClosed e i ?s)"
    by (rule kept_trans [OF kept_dropHeld [OF assms] kept_mono [OF kept_gone(1)]]) simp
  then show "kept_but {} s (onClose_with rel e i s)" "\<not> live i (onClose_with rel e i s)"
    unfolding onClose_with_def by (rule kept_dead, intro kept_gone) (rule kept_gone)
qed

lemma kept_dropLink:
  assumes "\<And>s. kept_but {} s (rel s)"
  shows "kept_but {} s (dropLink_with rel e i s)" "\<not> live i (dropLink_with rel e i s)"
proof -
  let ?s = "if e_close_fires e i then onClose_with rel e i (effect (Shut i False) s) else effect (Shut i False) s"
  have "kept_but {} s ?s" using kept_trans [OF kept_effect kept_onClose(1) [OF assms]] by simp
  from kept_trans [OF this kept_gone(1)] kept_gone(2) show "kept_but {} s (dropLink_with rel e i s)" "\<not> live i (dropLink_with rel e i s)"
    by (simp_all add: dropLink_with_def Let_def)
qed

lemma kept_fail:
  assumes "\<And>s. kept_but {} s (rel s)"
  shows "kept_but {} s (failReadSide_with rel e i s)" "\<not> live i (failReadSide_with rel e i s)"
proof -
  note d = kept_dropLink [OF assms, where s = "dropHeld_with rel i s" and e = e and i = i]
  have "kept_but {i} s (dropLink_with rel e i (dropHeld_with rel i s))" by (rule kept_trans [OF kept_dropHeld [OF assms] kept_mono [OF d(1)]]) simp
  with d(2) kept_dead show "kept_but {} s (failReadSide_with rel e i s)" "\<not> live i (failReadSide_with rel e i s)"
    unfolding failReadSide_with_def by blast+
qed

lemma kept_setReadable: "kept_but {} s (snd (setReadable e i on s))" "live j (snd (setReadable e i on s)) = live j s"
  "th_reads_of (snd (setReadable e i on s)) = th_reads_of s"
  by (auto simp: setReadable_def effect_def split: option.split) (simp_all flip: effect_def)

lemma kept_resume: "(\<And>s. kept_but {} s (rel s)) \<Longrightarrow> kept_but {} s (resume_with rel e i s)"
  using kept_setReadable(1) [of s e i True] kept_trans [OF kept_setReadable(1) kept_fail(1)]
  by (auto simp: resume_with_def case_prod_beta)

lemma kept_starved: "kept_but {} s (starved_loop n e s)"
proof (induction n arbitrary: s)
  case (Suc n)
  show ?case
  proof (cases "th_starved s")
    case (Cons i rest)
    let ?s = "resume_with (starved_loop n e) e i (s\<lparr>th_starved := rest\<rparr>)"
    have "kept_but {} s ?s" by (rule kept_trans [OF kept_inbound(2) kept_resume]) (rule Suc.IH)
    from kept_trans [OF this Suc.IH] Cons show ?thesis by simp
  qed simp
qed simp

lemma kept_all: "kept_but {} s (starved_all e s)"
  by (simp add: starved_all_def kept_starved)

lemma kept_ops:
  "kept_but {} s (onClose e i s)" "\<not> live i (onClose e i s)" "kept_but {} s (dropLink e i s)" "\<not> live i (dropLink e i s)"
  "kept_but {} s (failReadSide e i s)" "\<not> live i (failReadSide e i s)" "kept_but {} s (resume e i s)" "kept_but {i} s (dropHeld e i s)"
  "kept_but {} s (releaseInboundRead e n s)"
  unfolding onClose_def dropLink_def failReadSide_def resume_def dropHeld_def releaseInboundRead_def
  by (intro kept_onClose kept_dropLink kept_fail kept_resume kept_dropHeld kept_release_one kept_all)+

lemma kept_dropHeld_dead: "\<not> live i s \<Longrightarrow> kept_but {} s (dropHeld e i s)"
  using kept_dead [OF kept_ops(8)] gone_stays [OF kept_ops(8)] by blast

text \<open>The reads handed over so far are the first that arrived; a link in the table has the rest held, in order, and holds none while
  it is idle.\<close>

definition ordered :: "(nat \<Rightarrow> bytes list) \<Rightarrow> nat \<Rightarrow> TransportHost \<Rightarrow> bool" where
  "ordered arr i s \<longleftrightarrow> (\<exists>r. arr i = delivered i s @ r) \<and> (live i s \<longrightarrow> arr i = delivered i s @ rd_held (th_reads_of s i))"

definition idle_ok :: "nat \<Rightarrow> TransportHost \<Rightarrow> bool" where
  "idle_ok i s \<longleftrightarrow> (live i s \<and> rd_active (th_reads_of s i) = None \<and> \<not> rd_paused (th_reads_of s i) \<longrightarrow> rd_held (th_reads_of s i) = [])"

definition ord_but :: "nat set \<Rightarrow> (nat \<Rightarrow> bytes list) \<Rightarrow> TransportHost \<Rightarrow> bool" where
  "ord_but X arr s \<longleftrightarrow> (\<forall>i. ordered arr i s \<and> (i \<notin> X \<longrightarrow> idle_ok i s) \<and> (th_nextLinkId s \<le> i \<longrightarrow> arr i = [] \<and> \<not> live i s) \<and> (live i s \<longrightarrow> available s))"

lemma ord_kept:
  assumes "ord_but X arr s" "kept_but {} s s'"
  shows "ord_but X arr s'"
proof -
  have "ordered arr i s' \<and> (i \<notin> X \<longrightarrow> idle_ok i s') \<and> (th_nextLinkId s' \<le> i \<longrightarrow> arr i = [] \<and> \<not> live i s') \<and> (live i s' \<longrightarrow> available s')" for i
    using assms(1) [unfolded ord_but_def, rule_format, of i] assms(2) [unfolded kept_but_def, THEN conjunct1, rule_format, of i] assms(2)
    by (cases "live i s'") (auto simp: kept_but_def available_def ordered_def idle_ok_def)
  then show ?thesis by (simp add: ord_but_def)
qed

lemma ord_dead: "ord_but {i} arr s \<Longrightarrow> \<not> live i s \<Longrightarrow> ord_but {} arr s"
  by (auto simp: ord_but_def idle_ok_def)

lemma ord_mono: "ord_but X arr s \<Longrightarrow> X \<subseteq> Y \<Longrightarrow> ord_but Y arr s"
  by (auto simp: ord_but_def)

lemma kept_releaseActive:
  "kept_but {i} s (releaseActive e i s)" "live i (releaseActive e i s) \<Longrightarrow> th_reads_of (releaseActive e i s) i = (th_reads_of s i)\<lparr>rd_active := None\<rparr>"
proof -
  have k: "kept_but {} s (releaseInboundRead e n s)" for n by (rule kept_ops(9))
  from kept_trans [OF kept_mono [OF k] kept_reads] show "kept_but {i} s (releaseActive e i s)"
    by (simp add: releaseActive_def Let_def split: option.split)
  show "live i (releaseActive e i s) \<Longrightarrow> th_reads_of (releaseActive e i s) i = (th_reads_of s i)\<lparr>rd_active := None\<rparr>"
  proof (cases "rd_active (th_reads_of s i)")
    case (Some n)
    assume "live i (releaseActive e i s)"
    with Some have "live i (releaseInboundRead e n s)" by (simp add: releaseActive_def Let_def set_reads_def)
    with k [of n] have "th_reads_of (releaseInboundRead e n s) i = th_reads_of s i" by (simp add: kept_but_def)
    with Some show ?thesis by (simp add: releaseActive_def Let_def set_reads_def)
  qed (simp add: releaseActive_def)
qed

text \<open>A read handed over: the link failed, or the read is the next delivered and is in flight.\<close>

definition handed :: "nat \<Rightarrow> bytes \<Rightarrow> TransportHost \<Rightarrow> TransportHost \<Rightarrow> bool" where
  "handed i b s s' \<longleftrightarrow> (\<forall>j. delivered j s' = (if j = i then delivered i s @ [b] else delivered j s) \<and> live j s' = live j s \<and>
     th_reads_of s' j = (if j = i then (th_reads_of s i)\<lparr>rd_active := Some (length b)\<rparr> else th_reads_of s j)) \<and>
     available s' = available s \<and> th_nextLinkId s' = th_nextLinkId s"

lemma dispatch_cases:
  assumes "live i s" "available s" "dispatchRead e i b s = (sync, s')"
  shows "\<not> sync \<and> kept_but {} s s' \<and> \<not> live i s' \<or> handed i b s s'"
proof -
  let ?s1 = "set_reads i ((th_reads_of s i)\<lparr>rd_active := Some (length b)\<rparr>) s"
  obtain ok s2 where s2: "setReadable e i False ?s1 = (ok, s2)" by fastforce
  have "kept_but {i} s (snd (setReadable e i False ?s1))" by (rule kept_trans [OF kept_reads kept_mono [OF kept_setReadable(1)]]) simp
  then have k2: "kept_but {i} s s2" using s2 by simp
  show ?thesis
  proof (cases ok)
    case False
    with assms(3) s2 have s': "sync = False" "s' = failReadSide e i (releaseActive e i s2)" by (simp_all add: dispatchRead_def)
    have "kept_but {i} s s'" unfolding s'
      by (rule kept_trans [OF k2 kept_trans [OF kept_releaseActive(1) kept_mono [OF kept_ops(5)]]]) simp
    with kept_dead kept_ops(6) s' show ?thesis by blast
  next
    case True
    have f: "live j s2 = live j s" "th_reads_of s2 = th_reads_of ?s1" "delivered j s2 = delivered j s" "available s2 = available s"
      "th_nextLinkId s2 = th_nextLinkId s" for j
      using kept_setReadable(2) [where s = ?s1 and e = e and i = i and on = False] kept_setReadable(3) [where s = ?s1 and e = e and i = i and on = False] s2 k2
      by (auto simp: set_reads_def kept_but_def available_def)
    have "\<not> th_closed s2 \<and> th_bound s2" using f(4) assms(2) by (simp add: available_def)
    with True assms(3) s2 have s': "s' = s2\<lparr>th_log := th_log s2 @ [LinkBytes i b]\<rparr>" by (simp add: dispatchRead_def toTransport_def Let_def)
    have "delivered j s' = delivered j s2 @ (if j = i then [b] else [])" for j by (simp add: s' delivered_def)
    moreover have "available s' = available s2" by (simp add: s' available_def)
    ultimately have "handed i b s s'" unfolding handed_def using f by (simp add: s' set_reads_def)
    then show ?thesis ..
  qed
qed

text \<open>As \<open>ord_but\<close>, with nothing said of what link \<open>i\<close> holds.\<close>

definition ord_rest :: "nat \<Rightarrow> (nat \<Rightarrow> bytes list) \<Rightarrow> TransportHost \<Rightarrow> bool" where
  "ord_rest i arr s \<longleftrightarrow> (\<forall>j. (j \<noteq> i \<longrightarrow> ordered arr j s \<and> idle_ok j s) \<and> (th_nextLinkId s \<le> j \<longrightarrow> arr j = [] \<and> \<not> live j s) \<and> (live j s \<longrightarrow> available s)) \<and>
     (\<exists>r. arr i = delivered i s @ r)"

lemma ord_rest: "ord_but {i} arr s \<Longrightarrow> ord_rest i arr s"
  by (auto simp: ord_but_def ord_rest_def ordered_def)

lemma ord_rest_kept:
  assumes "ord_rest i arr s" "kept_but {i} s s'"
  shows "ord_rest i arr s'"
proof -
  have "(j \<noteq> i \<longrightarrow> ordered arr j s' \<and> idle_ok j s') \<and> (th_nextLinkId s' \<le> j \<longrightarrow> arr j = [] \<and> \<not> live j s') \<and> (live j s' \<longrightarrow> available s')" for j
    using assms(1) [unfolded ord_rest_def, THEN conjunct1, rule_format, of j] assms(2) [unfolded kept_but_def, THEN conjunct1, rule_format, of j] assms(2)
    by (cases "live j s'") (auto simp: kept_but_def available_def ordered_def idle_ok_def)
  moreover have "\<exists>r. arr i = delivered i s' @ r" using assms by (simp add: ord_rest_def kept_but_def)
  ultimately show ?thesis by (simp add: ord_rest_def)
qed

lemma ord_rest_live: "ord_rest i arr s \<Longrightarrow> (live i s \<Longrightarrow> arr i = delivered i s @ rd_held (th_reads_of s i)) \<Longrightarrow> ord_but {i} arr s"
  unfolding ord_but_def ord_rest_def ordered_def by (metis singletonI)

lemma ord_rest_dead: "ord_rest i arr s \<Longrightarrow> \<not> live i s \<Longrightarrow> ord_but {} arr s"
  unfolding ord_but_def ord_rest_def ordered_def idle_ok_def by metis

lemma ord_rest_idle: "ord_but {i} arr s \<Longrightarrow> idle_ok i s \<Longrightarrow> ord_but {} arr s"
  by (auto simp: ord_but_def)

lemma ord_handed:
  assumes "ord_rest i arr s" "handed i b s s'" "live i s" "arr i = delivered i s @ [b] @ rd_held (th_reads_of s i)"
  shows "ord_but {} arr s'"
proof -
  have "(j \<noteq> i \<longrightarrow> ordered arr j s' \<and> idle_ok j s') \<and> (th_nextLinkId s' \<le> j \<longrightarrow> arr j = [] \<and> \<not> live j s') \<and> (live j s' \<longrightarrow> available s')" for j
    using assms(1) [unfolded ord_rest_def, THEN conjunct1, rule_format, of j] assms(2) [unfolded handed_def, THEN conjunct1, rule_format, of j] assms(2)
    by (cases "j = i") (auto simp: handed_def ordered_def idle_ok_def)
  moreover have "ordered arr i s'" "idle_ok i s'" using assms(2-4) by (auto simp: handed_def ordered_def idle_ok_def)
  ultimately show ?thesis unfolding ord_but_def by metis
qed

text \<open>The loop of \<open>releaseRead\<close> leaves the link idle, in flight, paused or gone.\<close>

lemma releaseRead_loop_ord:
  "ord_but {i} arr s \<Longrightarrow> rd_active (th_reads_of s i) = None \<Longrightarrow> length (rd_held (th_reads_of s i)) < n \<Longrightarrow> ord_but {} arr (releaseRead_loop n e i s)"
proof (induction n arbitrary: s)
  case (Suc n)
  show ?case
  proof (cases "map_of (th_links s) i")
    case None
    then have dead: "\<not> live i s" by simp
    from ord_kept [OF ord_dead [OF Suc.prems(1) dead] kept_dropHeld_dead [OF dead]] None show ?thesis by simp
  next
    case (Some o')
    then have live: "live i s" by simp
    then have avail: "available s" and held: "arr i = delivered i s @ rd_held (th_reads_of s i)"
      using Suc.prems(1) by (auto simp: ord_but_def ordered_def)
    show ?thesis
    proof (cases "rd_paused (th_reads_of s i)")
      case True
      then have "idle_ok i s" by (simp add: idle_ok_def)
      with Suc.prems(1) True Some show ?thesis by (simp add: ord_rest_idle)
    next
      case False
      show ?thesis
      proof (cases "rd_held (th_reads_of s i)")
        case Nil
        then have "ord_but {} arr s" using Suc.prems(1) by (intro ord_rest_idle) (auto simp: idle_ok_def)
        then have "ord_but {} arr (s\<lparr>th_starved := q\<rparr>)" "ord_but {} arr (resume e i s)" for q
          using ord_kept [OF _ kept_inbound(2)] ord_kept [OF _ kept_ops(7)] by blast+
        with Nil False Some show ?thesis by simp
      next
        case (Cons b rest)
        let ?s = "set_reads i ((th_reads_of s i)\<lparr>rd_held := rest\<rparr>) s"
        obtain sync s' where d: "dispatchRead e i b ?s = (sync, s')" by fastforce
        have loop: "releaseRead_loop (Suc n) e i s = (if sync then releaseRead_loop n e i (releaseActive e i s') else s')"
          using Some False Cons d by simp
        have r: "ord_rest i arr ?s" using ord_rest_kept [OF ord_rest [OF Suc.prems(1)] kept_reads] by blast
        have l: "live i ?s" "available ?s" "arr i = delivered i ?s @ [b] @ rd_held (th_reads_of ?s i)"
          using live avail held Cons by (simp_all add: set_reads_def available_def delivered_def)
        from dispatch_cases [OF l(1,2) d] show ?thesis
        proof
          assume f: "\<not> sync \<and> kept_but {} ?s s' \<and> \<not> live i s'"
          then have "ord_rest i arr s'" using ord_rest_kept [OF r] kept_mono by blast
          with f show ?thesis unfolding loop by (simp add: ord_rest_dead)
        next
          assume h: "handed i b ?s s'"
          have o: "ord_but {} arr s'" by (rule ord_handed [OF r h l(1,3)])
          let ?a = "releaseActive e i s'"
          have ra: "ord_rest i arr ?a" using ord_rest_kept [OF ord_rest [OF ord_mono [OF o]] kept_releaseActive(1)] by blast
          have h': "rd_held (th_reads_of s' i) = rest" "live i s'" using h l(1) by (simp_all add: handed_def set_reads_def)
          have a: "ord_but {i} arr ?a"
          proof (rule ord_rest_live [OF ra])
            assume "live i ?a"
            then have "th_reads_of ?a i = (th_reads_of s' i)\<lparr>rd_active := None\<rparr>" by (rule kept_releaseActive(2))
            moreover have "delivered i ?a = delivered i s'" using kept_releaseActive(1) [of i s' e] by (simp add: kept_but_def)
            ultimately show "arr i = delivered i ?a @ rd_held (th_reads_of ?a i)" using o h' by (simp add: ord_but_def ordered_def)
          qed
          show ?thesis
          proof (cases "sync")
            case True
            have "ord_but {} arr (releaseRead_loop n e i ?a)"
            proof (cases "live i ?a")
              case l: True
              note rd = kept_releaseActive(2) [OF l]
              show ?thesis by (rule Suc.IH [OF a]) (use rd h' Suc.prems(3) Cons in simp_all)
            next
              case False
              have n: "n \<noteq> 0" using Suc.prems(3) Cons by simp
              from ord_kept [OF ord_dead [OF a False] kept_dropHeld_dead [OF False]] False n show ?thesis by (cases n) simp_all
            qed
            with True show ?thesis unfolding loop by simp
          qed (use o loop in simp)
        qed
      qed
    qed
  qed
qed simp

lemma releaseRead_ord:
  assumes "ord_but {i} arr s"
  shows "ord_but {} arr (releaseRead e i s)"
proof -
  let ?a = "releaseActive e i s"
  have ra: "ord_rest i arr ?a" using ord_rest_kept [OF ord_rest [OF assms] kept_releaseActive(1)] .
  have d: "delivered i ?a = delivered i s" "live i ?a \<Longrightarrow> live i s" using kept_releaseActive(1) [of i s e] by (simp_all add: kept_but_def)
  show ?thesis
  proof (cases "live i ?a")
    case True
    note rd = kept_releaseActive(2) [OF True]
    have "arr i = delivered i s @ rd_held (th_reads_of s i)" using assms d(2) [OF True] by (simp add: ord_but_def ordered_def)
    then have "ord_but {i} arr ?a" using rd d(1) by (intro ord_rest_live [OF ra]) simp
    then show ?thesis unfolding releaseRead_def Let_def by (rule releaseRead_loop_ord) (use rd in simp_all)
  next
    case False
    from ord_kept [OF ord_rest_dead [OF ra False] kept_dropHeld_dead [OF False]] False show ?thesis by (simp add: releaseRead_def Let_def)
  qed
qed

lemma onData_ord:
  assumes o: "ord_but {} arr s" and i: "live i s"
  shows "ord_but {} (arr(i := arr i @ [b])) (onData e i b s)"
proof -
  let ?arr = "arr(i := arr i @ [b])"
  obtain o' where o': "map_of (th_links s) i = Some o'" using i by auto
  have others: "ord_rest i ?arr s'" if "kept_but {i} s s'" for s'
  proof -
    have "ord_rest i arr s'" by (rule ord_rest_kept [OF ord_rest [OF ord_mono [OF o]] that]) simp
    moreover have "i < th_nextLinkId s'" using o i that by (metis kept_but_def linorder_not_less ord_but_def)
    ultimately show ?thesis by (auto simp: ord_rest_def ordered_def)
  qed
  have failed: "ord_but {} ?arr (failReadSide e i s')" if "kept_but {} s s'" for s'
    by (rule ord_rest_dead [OF others kept_ops(6)]) (rule kept_mono [OF kept_trans [OF that kept_ops(5)]], simp)
  obtain ok s1 where s1: "reserveInboundRead (length b) (rl_pausable (lo_channel o')) s = (ok, s1)" by fastforce
  have k1: "kept_but {} s s1" and same: "th_reads_of s1 = th_reads_of s" "live j s1 = live j s" for j
    using s1 by (auto simp: reserveInboundRead_def split: if_splits)
  have d1: "delivered i s1 = delivered i s" and av: "available s1" using k1 o i kept_available [OF k1] by (auto simp: kept_but_def ord_but_def)
  have held: "arr i = delivered i s @ rd_held (th_reads_of s i)" using o i by (simp add: ord_but_def ordered_def)
  let ?r = "th_reads_of s1 i"
  consider "length b > MAX_LINK_READ_BYTES" | "length b \<le> MAX_LINK_READ_BYTES" "\<not> ok"
    | "length b \<le> MAX_LINK_READ_BYTES" ok "rd_active ?r = None \<and> \<not> rd_paused ?r" | "length b \<le> MAX_LINK_READ_BYTES" ok "\<not> (rd_active ?r = None \<and> \<not> rd_paused ?r)"
    by linarith
  then show ?thesis
  proof cases
    case 1
    with failed [OF kept_refl] o' show ?thesis by (simp add: onData_def)
  next
    case 2
    with failed [OF k1] o' s1 show ?thesis by (simp add: onData_def)
  next
    case 3
    then have nil: "rd_held (th_reads_of s i) = []" using o i same(1) by (auto simp: ord_but_def idle_ok_def)
    obtain sync s' where d: "dispatchRead e i b s1 = (sync, s')" by fastforce
    have eq: "onData e i b s = (if sync then releaseRead e i s' else s')" using 3 o' s1 d by (simp add: onData_def Let_def)
    have l1: "live i s1" using i same by simp
    from dispatch_cases [OF l1 av d] show ?thesis
    proof
      assume f: "\<not> sync \<and> kept_but {} s1 s' \<and> \<not> live i s'"
      then have "kept_but {i} s s'" using kept_mono [OF kept_trans [OF k1]] by blast
      from ord_rest_dead [OF others [OF this]] f show ?thesis unfolding eq by simp
    next
      assume h: "handed i b s1 s'"
      have "ord_but {} ?arr s'"
        by (rule ord_handed [OF others h l1]) (use kept_mono [OF k1] held nil d1 same in simp_all)
      moreover from this have "ord_but {} ?arr (releaseRead e i s')" by (rule releaseRead_ord [OF ord_mono]) simp
      ultimately show ?thesis unfolding eq by simp
    qed
  next
    case 4
    let ?s = "set_reads i (?r\<lparr>rd_held := rd_held ?r @ [b]\<rparr>) s1"
    have "kept_but {i} s ?s" by (rule kept_trans [OF kept_mono [OF k1] kept_reads]) simp
    then have "ord_but {i} ?arr ?s"
    proof (intro ord_rest_live [OF others])
      show "?arr i = delivered i ?s @ rd_held (th_reads_of ?s i)" using held d1 same by (simp add: set_reads_def delivered_def)
    qed
    then have "ord_but {} ?arr ?s" by (rule ord_rest_idle) (use 4 in \<open>auto simp: idle_ok_def set_reads_def\<close>)
    with 4 o' s1 show ?thesis by (auto simp: onData_def Let_def)
  qed
qed

lemma link_pause_ord:
  assumes o: "ord_but {} arr s"
  shows "ord_but {} arr (link_pause e on i s)"
proof -
  let ?s = "set_reads i ((th_reads_of s i)\<lparr>rd_paused := on\<rparr>) s"
  have "ord_rest i arr ?s" by (rule ord_rest_kept [OF ord_rest [OF ord_mono [OF o]] kept_reads]) simp
  then have 1: "ord_but {i} arr ?s" using o by (intro ord_rest_live) (auto simp: ord_but_def ordered_def set_reads_def delivered_def)
  show ?thesis
  proof (cases on)
    case True
    then have "ord_but {} arr ?s" by (intro ord_rest_idle [OF 1]) (simp add: idle_ok_def set_reads_def)
    then have "ord_but {} arr (snd (setReadable e i False ?s))" by (rule ord_kept) (rule kept_setReadable)
    with ord_kept [OF this kept_ops(5)] True show ?thesis by (simp add: link_pause_def Let_def case_prod_beta)
  next
    case False
    have "ord_but {} arr ?s" if "rd_active (th_reads_of ?s i) \<noteq> None" using that by (intro ord_rest_idle [OF 1]) (auto simp: idle_ok_def)
    with releaseRead_ord [OF 1] False show ?thesis by (simp add: link_pause_def Let_def)
  qed
qed

text \<open>Everything on the writing side, the datagrams' side and at a link's end keeps or ends each link.\<close>

lemma kept_settle: "kept_but X s (settle i now s)"
  by (auto simp: settle_def releaseOutbound_def set_owner_def kept_but_def delivered_def available_def Let_def case_prod_beta split: option.split)

lemma kept_reconcile: "kept_but X s (reconcile e ph i s)"
  by (simp add: reconcile_def kept_settle split: option.split)

lemma kept_sweep: "kept_but X s (fold (reconcile e ph) is s)"
proof (induction "is" arbitrary: s)
  case (Cons i "is")
  from kept_trans [OF kept_reconcile Cons.IH] show ?case by simp
qed simp

lemma kept_reserve: "kept_but X s (snd (reserveOutbound e n s))"
proof -
  define s1 where "s1 = (if \<not> outboundFits n s then fold (reconcile e Sweep) (map fst (th_links s)) s else s)"
  have "kept_but X s s1" by (simp add: kept_sweep s1_def)
  moreover have "kept_but X s1 (s1\<lparr>th_outBytes := a, th_outSlices := b\<rparr>)" for a b by (simp add: kept_but_def delivered_def available_def)
  ultimately have "kept_but X s s1" "kept_but X s (s1\<lparr>th_outBytes := a, th_outSlices := b\<rparr>)" for a b by (blast intro: kept_trans)+
  then show ?thesis by (simp add: reserveOutbound_def Let_def s1_def [symmetric])
qed

lemma kept_releaseAll: "kept_but X s (releaseAll i s)"
  using links_releaseAll [where i = i and s = s] by (simp add: kept_but_def delivered_def)

lemma kept_owner: "live i s \<Longrightarrow> kept_but X s (set_owner i o' s)"
  by (auto simp: kept_but_def set_owner_def delivered_def available_def)

lemma kept_write: "kept_but {} s (snd (owner_write e i b s))"
proof (cases "map_of (th_links s) i")
  case (Some o')
  let ?s = "effect (Wrote i b) (set_owner i (o'\<lparr>lo_charged := lo_charged o' + int (length b), lo_queued := lo_queued o' @ [length b]\<rparr>) s)"
  have s: "kept_but {} s ?s" using kept_trans [OF kept_owner kept_effect] Some by blast
  from kept_trans [OF s kept_releaseAll] kept_trans [OF s kept_ops(1)] kept_trans [OF s kept_reconcile] Some show ?thesis
    by (simp add: owner_write_def Let_def split: write_outcome.split)
qed (simp add: owner_write_def)

lemma kept_admit: "kept_but {} s (snd (owner_admit e i b s))"
proof -
  let ?s = "snd (reserveOutbound e (length b) s)"
  have "kept_but {} s ?s" by (rule kept_reserve)
  moreover from kept_trans [OF this kept_write] have "kept_but {} s (snd (owner_write e i b ?s))" .
  ultimately show ?thesis by (simp add: owner_admit_def case_prod_beta split: option.split)
qed

lemma kept_owner_send: "kept_but {} s (snd (owner_send e i b s))"
proof -
  have "kept_but {} s (settle i now s)" "kept_but {} s (snd (owner_admit e i b (settle i now s)))" for now
    by (rule kept_settle, rule kept_trans [OF kept_settle kept_admit])
  then show ?thesis by (simp add: owner_send_def Let_def split: option.split)
qed

lemma kept_send: "kept_but {} s (snd (net_send e i b s))"
proof -
  obtain r s' where r: "owner_send e i b s = (r, s')" by fastforce
  have "kept_but {} s s'" using kept_owner_send [of s e i b] r by simp
  moreover from kept_trans [OF this kept_ops(3)] have "kept_but {} s (dropLink e i s')" .
  ultimately show ?thesis using r by (simp add: net_send_def split: sum.split)
qed

lemma kept_datagrams:
  "kept_but X s (snd (bind_start dg s))" "kept_but X s (snd (bind_done g bound s))" "kept_but X s (heard i b s)" "kept_but X s (reads_done g n s)"
  "kept_but X s (snd (net_udpSend dg batch s))" "kept_but X s (net_udpClose i s)" "kept_but X s (s\<lparr>th_closing := c\<rparr>)"
  by (simp_all add: kept_but_def delivered_def available_def bind_start_def bind_done_def heard_def pumpReads_def reads_done_def net_udpSend_def
      net_udpClose_def effect_def Let_def split: option.split sum.split)

lemma kept_pump: "kept_but X s (pump_turn e s)"
proof -
  have d: "kept_but X s (s\<lparr>th_readsDue := False, th_reads := r\<rparr>)" for r by (simp add: kept_but_def delivered_def available_def)
  have t: "kept_but X s (snd (toTransport e (Datagrams ds) s))" for s ds by (simp add: toTransport_def kept_but_def delivered_def available_def)
  have p: "kept_but X s (s\<lparr>th_readsBusy := True, th_pending := q\<rparr>)" for s q by (simp add: kept_but_def delivered_def available_def)
  note k = kept_trans [OF d t] and k' = kept_trans [OF kept_trans [OF d t] p] and k'' = kept_trans [OF kept_trans [OF d t] kept_datagrams(4)]
  have "kept_but X s (s\<lparr>th_readsDue := False\<rparr>)" by (simp add: kept_but_def delivered_def available_def)
  with d k k' k'' show ?thesis by (simp add: pump_turn_def Let_def case_prod_beta split: list.split call_answer.split)
qed

lemma kept_pending: "kept_but X s (pending_done k s)"
proof -
  have "kept_but X s (s\<lparr>th_pending := q\<rparr>)" for q by (simp add: kept_but_def delivered_def available_def)
  from kept_trans [OF this kept_datagrams(4)] show ?thesis by (simp add: pending_done_def)
qed

lemma kept_close_link: "kept_but {} s (net_close e i graceful s)"
proof -
  let ?s = "effect (Shut i graceful) s"
  have "kept_but {} s (if e_close_fires e i then onClose e i ?s else ?s)" using kept_trans [OF kept_effect kept_ops(1)] by simp
  from kept_trans [OF this kept_datagrams(7)] show ?thesis by (simp add: net_close_def Let_def)
qed

lemma kept_close_turn: "kept_but {} s (close_turn e s)"
  using kept_trans [OF kept_datagrams(7) kept_gone(1)] by (simp add: close_turn_def split: list.split)

lemma dropLinks: "kept_but {} s (fold (dropLink e) is s) \<and> (\<forall>i \<in> set is. \<not> live i (fold (dropLink e) is s))"
proof (induction "is" arbitrary: s)
  case (Cons i "is")
  have "kept_but {} s (fold (dropLink e) is (dropLink e i s))" using kept_trans [OF kept_ops(3)] Cons.IH by blast
  moreover have "\<not> live i (fold (dropLink e) is (dropLink e i s))" using gone_stays [OF _ kept_ops(4)] Cons.IH by blast
  ultimately show ?case using Cons.IH by simp
qed simp

lemma kept_reset: "kept_but {} s (reset e s)" "\<not> live i (reset e s)"
proof -
  let ?s = "fold (dropLink e) (map fst (th_links s)) s"
  have udp: "kept_but X s (fold (\<lambda>i. effect (f i)) xs s)" for X s xs and f :: "nat \<Rightarrow> effect"
    by (induction xs arbitrary: s) (auto intro: kept_trans [OF kept_effect])
  let ?t = "?s\<lparr>th_starved := [], th_socketGen := th_socketGen ?s + 1\<rparr>"
  let ?u = "fold (\<lambda>i. effect (UdpClosed i)) (th_sockets ?t) ?t"
  have "kept_but {} ?s ?t" by (simp add: kept_but_def delivered_def available_def)
  moreover have "kept_but {} ?t ?u" by (rule udp)
  moreover have "kept_but {} ?u (reset e s)" by (simp add: kept_but_def delivered_def available_def reset_def Let_def)
  ultimately have "kept_but {} ?s (reset e s)" by (blast intro: kept_trans)
  moreover have dl: "kept_but {} s ?s" "\<forall>i \<in> set (map fst (th_links s)). \<not> live i ?s" using dropLinks by blast+
  moreover have "\<not> live i ?s"
  proof (cases "live i s")
    case True
    then have "i \<in> set (map fst (th_links s))" by (force dest: map_of_SomeD)
    with dl(2) show ?thesis by blast
  qed (use gone_stays dl(1) in blast)
  ultimately show "kept_but {} s (reset e s)" "\<not> live i (reset e s)" using kept_trans gone_stays by blast+
qed

lemma ord_reset:
  assumes "ord_but {} arr s"
  shows "ord_but {} arr (reset e (s\<lparr>th_closed := c, th_bound := b\<rparr>))" "\<not> live i (reset e (s\<lparr>th_closed := c, th_bound := b\<rparr>))"
proof -
  let ?s = "s\<lparr>th_closed := c, th_bound := b\<rparr>"
  note k = kept_reset [where s = ?s and e = e]
  show "\<not> live i (reset e ?s)" by (rule k)
  have "delivered i (reset e ?s) = delivered i s" "th_nextLinkId (reset e ?s) = th_nextLinkId s" for i
    using k(1) by (simp_all add: kept_but_def delivered_def)
  with assms k(2) show "ord_but {} arr (reset e ?s)" unfolding ord_but_def ordered_def idle_ok_def by metis
qed

lemma ord_release:
  assumes "ord_but {} arr s"
  shows "ord_but {} arr (release_host e s)" "\<not> live i (release_host e s)"
proof -
  have "\<not> live i s" if "\<not> th_bound s" using that assms by (auto simp: ord_but_def available_def)
  moreover have "s\<lparr>th_bound := False\<rparr> = s\<lparr>th_closed := th_closed s, th_bound := False\<rparr>" by simp
  ultimately show "ord_but {} arr (release_host e s)" "\<not> live i (release_host e s)"
    using assms ord_reset [OF assms, where e = e and c = "th_closed s" and b = False] unfolding release_host_def by auto
qed

text \<open>The driver is never bound once closed.\<close>

definition flags_ok :: "TransportHost \<Rightarrow> bool" where
  "flags_ok s \<longleftrightarrow> (th_bound s \<longrightarrow> \<not> th_closed s)"

lemma flags_kept: "flags_ok s \<Longrightarrow> kept_but X s s' \<Longrightarrow> flags_ok s'"
  by (simp add: flags_ok_def kept_but_def)

lemma kept_told: "(\<And>i b. ev \<noteq> LinkBytes i b) \<Longrightarrow> kept_but X s (snd (toTransport e ev s))"
  by (cases ev) (auto simp: toTransport_def kept_but_def delivered_def)

lemma kept_announce: "kept_but X s (announce e i ch listener via s)"
  unfolding announce_def tell_def Let_def by (rule kept_told) simp

interpretation flags: read_side_invariant flags_ok
proof unfold_locales
  show "flags_ok (channelClosed e i s)" if "flags_ok s" for e i s using flags_kept [OF that kept_gone(1)] .
qed (simp_all add: flags_ok_def set_reads_def effect_def toTransport_def)

lemmas kept_run = kept_send kept_close_link kept_close_turn kept_ops(1) kept_datagrams kept_pump kept_pending

text \<open>A new link.\<close>

lemma ord_register:
  assumes "ord_but {} arr s" "available s"
  shows "ord_but {} arr (snd (register m ch s))"
proof (cases "length (th_links s) \<ge> (case m of Some m \<Rightarrow> m | None \<Rightarrow> DEFAULT_MAX_RAW_LINKS)")
  case True
  with ord_kept [OF assms(1) kept_effect] show ?thesis by (simp add: register_def)
next
  case False
  let ?s = "snd (register m ch s)" and ?n = "th_nextLinkId s"
  have s: "delivered j ?s = delivered j s" "live j ?s = (j = ?n \<or> live j s)" "th_nextLinkId ?s = Suc ?n" "available ?s"
    "th_reads_of ?s j = (if j = ?n then \<lparr>rd_active = None, rd_paused = False, rd_held = []\<rparr> else th_reads_of s j)" for j
    using False assms(2) by (auto simp: register_def Let_def delivered_def available_def)
  have "arr ?n = []" using assms(1) by (simp add: ord_but_def)
  moreover from this have "delivered ?n s = []" using assms(1) [unfolded ord_but_def ordered_def, rule_format, of ?n] by auto
  ultimately show ?thesis using assms(1) s unfolding ord_but_def ordered_def idle_ok_def by auto
qed

lemma reset_flags [simp]: "th_bound (reset e s) = th_bound s" "th_closed (reset e s) = th_closed s"
  using kept_reset(1) [of s e] by (simp_all add: kept_but_def)

lemma flags_life: "flags_ok s \<Longrightarrow> flags_ok (release_host e s)" "flags_ok s \<Longrightarrow> flags_ok (close_host e s)" "th_closed (release_host e s) = th_closed s"
  by (auto simp: flags_ok_def release_host_def close_host_def)

lemma host_run_flags: "host_run E C s arr \<Longrightarrow> flags_ok s"
proof (induction rule: host_run.induct)
  case run_new
  show ?case by (simp add: flags_ok_def TransportHost_new_def)
next
  case (run_activate s arr e)
  then show ?case by (simp add: flags_ok_def activate_def flags_life)
next
  case (run_open s arr channel m)
  then show ?case by (simp add: net_open_def register_def effect_def flags_ok_def Let_def case_prod_beta split: option.split)
next
  case (run_accept s arr e ch m listener via)
  then show ?case by (simp add: accept_def announce_def tell_def toTransport_def register_def effect_def flags_ok_def Let_def case_prod_beta)
qed (simp_all add: flags_kept [OF _ kept_run(1)] flags_kept [OF _ kept_run(2)] flags_kept [OF _ kept_run(3)] flags_kept [OF _ kept_run(4)]
    flags_kept [OF _ kept_run(5)] flags_kept [OF _ kept_run(6)] flags_kept [OF _ kept_run(7)] flags_kept [OF _ kept_run(8)]
    flags_kept [OF _ kept_run(9)] flags_kept [OF _ kept_run(10)] flags_kept [OF _ kept_run(12)] flags_kept [OF _ kept_run(13)]
    flags_life flags.onData_keeps flags.net_pause_keeps flags.releaseRead_keeps)


lemma host_run_ord: "host_run E C s arr \<Longrightarrow> ord_but {} arr s"
proof (induction rule: host_run.induct)
  case run_new
  show ?case by (simp add: ord_but_def ordered_def idle_ok_def delivered_def TransportHost_new_def)
next
  case (run_activate s arr e)
  with ord_release [OF run_activate.IH, of e] show ?case by (simp add: activate_def ord_but_def ordered_def idle_ok_def delivered_def)
next
  case (run_release s arr e)
  show ?case by (rule ord_release [OF run_release.IH])
next
  case (run_close s arr e)
  with ord_reset(1) [OF run_close.IH, where e = e and c = True and b = False] show ?case by (simp add: close_host_def)
next
  case (run_open s arr channel m)
  have "th_bound s \<Longrightarrow> available s" using host_run_flags [OF run_open(1)] by (simp add: flags_ok_def available_def)
  with ord_register [OF run_open.IH] run_open.IH show ?case by (simp add: net_open_def Let_def case_prod_beta split: option.split)
next
  case (run_accept s arr e ch m listener via)
  show ?case
  proof (cases "available s")
    case True
    note r = ord_register [OF run_accept.IH True, of m ch]
    show ?thesis using r ord_kept [OF r kept_announce] True by (simp add: accept_def case_prod_beta)
  qed (use ord_kept [OF run_accept.IH kept_effect] in \<open>simp add: accept_def\<close>)
next
  case (run_data s arr e i b)
  then show ?case by (simp add: onData_ord) (auto simp: onData_def)
next
  case (run_pause s arr e i paused)
  then show ?case by (simp add: net_pause_def link_pause_ord)
next
  case (run_settled s arr e i)
  have "ord_but {i} arr s" by (rule ord_mono [OF run_settled.IH]) simp
  then show ?case by (rule releaseRead_ord)
qed (auto intro: ord_kept kept_run)



end
