(* ===== verification/Link_Books.thy ===== *)
theory Link_Books
  imports Link_In
begin

text \<open>
  What the host's link driver holds of the reads and datagrams that arrived: the inbound books are exact while adapters'
  \<open>setReadable\<close> returns, the datagrams held are bounded and never stuck, and a batch of datagrams goes out as the datagrams
  of it whose socket is held. The locale \<open>side_invariant\<close> carries a property of this side over the writing side.
\<close>

section \<open>What the writing side leaves alone\<close>

definition chan_of :: "TransportHost \<Rightarrow> nat \<Rightarrow> RawLink option" where
  "chan_of s i = map_option lo_channel (map_of (th_links s) i)"

definition side_view ::
  "TransportHost \<Rightarrow> (int \<times> int \<times> (nat \<Rightarrow> Reads) \<times> nat \<times> (nat \<Rightarrow> RawLink option)) \<times>
    nat list \<times> nat \<times> nat \<times> DatagramEvent list \<times> int \<times> bool \<times> bool \<times> (nat \<times> nat) list" where
  "side_view s = ((th_inSlices s, th_inBytes s, th_reads_of s, th_nextLinkId s, chan_of s),
     th_sockets s, th_binding s, th_socketGen s, th_reads s, th_heldDatagramBytes s, th_readsBusy s, th_readsDue s, th_pending s)"

lemma view_owner: "chan_of s i = Some (lo_channel o') \<Longrightarrow> side_view (set_owner i o' s) = side_view s"
  by (auto simp: side_view_def set_owner_def chan_of_def fun_eq_iff)

lemma view_simple [simp]:
  "side_view (effect x s) = side_view s" "side_view (snd (toTransport e ev s)) = side_view s" "side_view (releaseOutbound b n s) = side_view s"
  "side_view (s\<lparr>th_closing := c\<rparr>) = side_view s" "side_view (s\<lparr>th_outBytes := a, th_outSlices := k\<rparr>) = side_view s"
  by (simp_all add: side_view_def chan_of_def [abs_def] effect_def toTransport_def releaseOutbound_def)

lemma view_settle [simp]: "side_view (settle i now s) = side_view s"
  using view_owner [where s = s and i = i] by (auto simp: settle_def Let_def case_prod_beta chan_of_def split: option.split)

lemma view_reconcile [simp]: "side_view (reconcile e ph i s) = side_view s"
  by (simp add: reconcile_def split: option.split)

lemma view_sweep [simp]: "side_view (fold (reconcile e ph) is s) = side_view s"
  by (induction "is" arbitrary: s) simp_all

lemma view_reserve [simp]: "side_view (snd (reserveOutbound e n s)) = side_view s"
  by (simp add: reserveOutbound_def Let_def)

lemma view_releaseAll [simp]: "side_view (releaseAll i s) = side_view s"
  using view_owner [where s = s and i = i] by (auto simp: releaseAll_def chan_of_def split: option.split)

locale side_invariant =
  fixes P :: "TransportHost \<Rightarrow> bool" and e :: Env
  assumes view: "side_view s' = side_view s \<Longrightarrow> P s \<Longrightarrow> P s'"
    and gone: "P s \<Longrightarrow> P (channelClosed e i s)"
    and ended: "P s \<Longrightarrow> P (onClose e i s)"
    and dropped: "P s \<Longrightarrow> P (dropLink e i s)"
begin

lemma write_keeps:
  assumes "P s"
  shows "P (snd (owner_write e i b s))"
proof (cases "map_of (th_links s) i")
  case (Some o')
  let ?s = "effect (Wrote i b) (set_owner i (o'\<lparr>lo_charged := lo_charged o' + int (length b), lo_queued := lo_queued o' @ [length b]\<rparr>) s)"
  have "side_view ?s = side_view s" using Some by (simp add: view_owner chan_of_def)
  from view [OF this assms] have "P ?s" .
  moreover from this have "P (releaseAll i ?s)" "P (onClose e i ?s)" "P (reconcile e After i ?s)" using view [of _ ?s] ended by simp_all
  ultimately show ?thesis using Some by (simp add: owner_write_def Let_def split: write_outcome.split)
qed (use assms in \<open>simp add: owner_write_def\<close>)

lemma admit_keeps: "P s \<Longrightarrow> P (snd (owner_admit e i b s))"
  using view [of "snd (reserveOutbound e (length b) s)" s] write_keeps [of "snd (reserveOutbound e (length b) s)" i b]
  by (simp add: owner_admit_def case_prod_beta split: option.split)

lemma send_keeps:
  assumes "P s"
  shows "P (snd (net_send e i b s))"
proof -
  have "P (settle i now s)" for now using view [of "settle i now s" s] assms by simp
  then have "P (snd (owner_send e i b s))" using assms admit_keeps by (simp add: owner_send_def Let_def split: option.split)
  then show ?thesis using assms dropped by (cases "owner_send e i b s") (simp add: net_send_def split: sum.split)
qed

lemma close_keeps: "P s \<Longrightarrow> P (net_close e i graceful s)"
proof -
  assume p: "P s"
  have "P (effect x s)" for x using view [of "effect x s" s] p by simp
  then have "P (if e_close_fires e i then onClose e i (effect x s) else effect x s)" for x using ended by simp
  from view [OF _ this] p show "P (net_close e i graceful s)" by (simp add: net_close_def Let_def)
qed

lemma close_turn_keeps: "P s \<Longrightarrow> P (close_turn e s)"
  using gone view [of "s\<lparr>th_closing := _\<rparr>" s] by (simp add: close_turn_def split: list.split)

lemma announce_keeps: "P s \<Longrightarrow> P (announce e i ch listener v s)"
  using view [of _ s] by (simp add: announce_def tell_def Let_def)

lemma drops_keep: "P s \<Longrightarrow> P (fold (dropLink e) is s)"
  by (induction "is" arbitrary: s) (simp_all add: dropped)

end

section \<open>The inbound books\<close>

definition calm :: "Env \<Rightarrow> bool" where
  "calm e \<longleftrightarrow> (\<forall>i on. e_readable e i on)"

definition reads_slices :: "Reads \<Rightarrow> int" where
  "reads_slices r = (case rd_active r of None \<Rightarrow> 0 | Some _ \<Rightarrow> 1) + int (length (rd_held r))"

definition reads_bytes :: "Reads \<Rightarrow> int" where
  "reads_bytes r = (case rd_active r of None \<Rightarrow> 0 | Some n \<Rightarrow> int n) + int (sum_list (map length (rd_held r)))"

text \<open>The books exceed what the links hold by \<open>d\<close> reads of \<open>n\<close> bytes; under \<open>capped\<close> they are within the budget.\<close>

definition in_off :: "bool \<Rightarrow> int \<Rightarrow> int \<Rightarrow> TransportHost \<Rightarrow> bool" where
  "in_off capped d n s \<longleftrightarrow> th_inSlices s = (\<Sum>i<th_nextLinkId s. reads_slices (th_reads_of s i)) + d \<and>
     th_inBytes s = (\<Sum>i<th_nextLinkId s. reads_bytes (th_reads_of s i)) + n \<and> (\<forall>i\<ge>th_nextLinkId s. reads_slices (th_reads_of s i) = 0) \<and>
     (capped \<longrightarrow> th_inSlices s \<le> int MAX_INBOUND_HOLD_SLICES \<and> th_inBytes s \<le> int MAX_INBOUND_HOLD_BYTES)"

abbreviation in_view :: "TransportHost \<Rightarrow> int \<times> int \<times> (nat \<Rightarrow> Reads) \<times> nat" where
  "in_view s \<equiv> (th_inSlices s, th_inBytes s, th_reads_of s, th_nextLinkId s)"

lemma in_off_view: "in_view s' = in_view s \<Longrightarrow> in_off capped d n s' = in_off capped d n s"
  by (simp add: in_off_def)

lemma sum_upd:
  assumes "i < (n :: nat)"
  shows "(\<Sum>j<n. f (if j = i then r else g j)) = (\<Sum>j<n. f (g j)) - f (g i) + (f r :: int)"
proof -
  have "(\<Sum>j\<in>{..<n} - {i}. f (if j = i then r else g j)) = (\<Sum>j\<in>{..<n} - {i}. f (g j))" by (intro sum.cong) auto
  with assms sum.remove [OF finite_lessThan, of i n "\<lambda>j. f (if j = i then r else g j)"] sum.remove [OF finite_lessThan, of i n "\<lambda>j. f (g j)"]
  show ?thesis by simp
qed

lemma reads_empty: "reads_slices r = 0 \<longleftrightarrow> rd_active r = None \<and> rd_held r = []" "reads_slices r = 0 \<Longrightarrow> reads_bytes r = 0"
  by (auto simp: reads_slices_def reads_bytes_def split: option.splits)

lemma in_off_known: "in_off capped d n s \<Longrightarrow> i < th_nextLinkId s \<or> rd_active (th_reads_of s i) = None \<and> rd_held (th_reads_of s i) = []"
  using reads_empty(1) unfolding in_off_def by (meson not_less)

lemma in_off_reads:
  assumes "in_off capped d n s" "i < th_nextLinkId s \<or> reads_slices r = 0"
  shows "in_off capped (d + reads_slices (th_reads_of s i) - reads_slices r) (n + reads_bytes (th_reads_of s i) - reads_bytes r) (set_reads i r s)"
proof (cases "i < th_nextLinkId s")
  case True
  with assms(1) show ?thesis by (auto simp: in_off_def set_reads_def sum_upd)
next
  case False
  have "(\<Sum>j<th_nextLinkId s. f (((th_reads_of s)(i := r)) j)) = (\<Sum>j<th_nextLinkId s. f (th_reads_of s j))" for f :: "Reads \<Rightarrow> int"
    using False by (intro sum.cong) auto
  then show ?thesis using False assms reads_empty(2) [of r] reads_empty(2) [of "th_reads_of s i"] by (auto simp: in_off_def set_reads_def)
qed

lemma calm_readable: "calm e \<Longrightarrow> fst (setReadable e i on s)" "in_view (snd (setReadable e i on s)) = in_view s"
  by (auto simp: calm_def setReadable_def effect_def split: option.split)

lemma calm_resume: "calm e \<Longrightarrow> in_view (resume_with rel e i s) = in_view s"
  using calm_readable [where e = e and i = i and on = True and s = s] by (auto simp: resume_with_def case_prod_beta)

lemma calm_starved: "calm e \<Longrightarrow> in_view (starved_loop n e s) = in_view s"
proof (induction n arbitrary: s)
  case (Suc n)
  show ?case
  proof (cases "th_starved s")
    case (Cons i rest)
    let ?s = "resume_with (starved_loop n e) e i (s\<lparr>th_starved := rest\<rparr>)"
    have "in_view (starved_loop n e ?s) = in_view ?s" by (rule Suc.IH [OF Suc.prems])
    also have "\<dots> = in_view (s\<lparr>th_starved := rest\<rparr>)" by (rule calm_resume [OF Suc.prems])
    finally show ?thesis using Cons by simp
  qed simp
qed simp

lemma calm_all: "calm e \<Longrightarrow> in_view (starved_all e s) = in_view s"
  by (simp add: starved_all_def calm_starved)

lemma in_off_release:
  assumes "calm e" "in_off capped d n s"
  shows "in_off capped (d - 1) (n - int k) (releaseInboundRead e k s)" "th_reads_of (releaseInboundRead e k s) = th_reads_of s"
    "th_nextLinkId (releaseInboundRead e k s) = th_nextLinkId s"
proof -
  let ?s = "s\<lparr>th_inSlices := th_inSlices s - 1, th_inBytes := th_inBytes s - int k\<rparr>"
  have v: "in_view (releaseInboundRead e k s) = in_view ?s" using calm_all [OF assms(1)] by (simp add: releaseInboundRead_def release_one_def)
  have "in_off capped (d - 1) (n - int k) ?s" using assms(2) by (auto simp: in_off_def)
  with in_off_view [OF v] v show "in_off capped (d - 1) (n - int k) (releaseInboundRead e k s)" "th_reads_of (releaseInboundRead e k s) = th_reads_of s"
    "th_nextLinkId (releaseInboundRead e k s) = th_nextLinkId s" by simp_all
qed

lemma in_off_held:
  assumes "calm e"
  shows "in_off capped d n s \<Longrightarrow> length (rd_held (th_reads_of s i)) = k + m \<Longrightarrow>
    in_off capped (d - int m) (n - int (sum_list (map length (drop k (rd_held (th_reads_of s i)))))) (held_loop (starved_all e) i k m s) \<and>
    th_reads_of (held_loop (starved_all e) i k m s) = th_reads_of s \<and> th_nextLinkId (held_loop (starved_all e) i k m s) = th_nextLinkId s"
proof (induction m arbitrary: d n s k)
  case (Suc m)
  let ?h = "rd_held (th_reads_of s i)"
  let ?s = "releaseInboundRead e (length (?h ! k)) s"
  note r = in_off_release [OF assms Suc.prems(1), of "length (?h ! k)"]
  have k: "k < length ?h" using Suc.prems(2) by simp
  then have "drop k ?h = ?h ! k # drop (k + 1) ?h" by (simp add: Cons_nth_drop_Suc)
  with Suc.IH [OF r(1), of "k + 1"] r(2,3) Suc.prems(2) k show ?case
    by (simp add: releaseInboundRead_def [symmetric] algebra_simps)
qed simp

lemma in_off_dropHeld:
  assumes "calm e" "in_off capped d n s"
  shows "in_off capped d n (dropHeld e i s)"
proof -
  let ?r = "th_reads_of s i"
  let ?s = "held_loop (starved_all e) i 0 (length (rd_held ?r)) s"
  have h: "in_off capped (d - int (length (rd_held ?r))) (n - int (sum_list (map length (rd_held ?r)))) ?s" "th_reads_of ?s = th_reads_of s"
    "th_nextLinkId ?s = th_nextLinkId s"
    using in_off_held [OF assms, of i 0 "length (rd_held ?r)"] by simp_all
  have "i < th_nextLinkId ?s \<or> reads_slices (?r\<lparr>rd_held := []\<rparr>) = 0"
    using in_off_known [OF assms(2), of i] h(3) by (auto simp: reads_empty(1))
  from in_off_reads [OF h(1) this] show ?thesis
    by (simp add: dropHeld_def dropHeld_with_def Let_def h(2) reads_slices_def reads_bytes_def)
qed

lemma in_view_gone: "in_view (channelClosed e i s) = in_view s"
  using view_releaseAll [of i s] by (simp add: channelClosed_def toTransport_def Let_def side_view_def)

lemma in_off_ended: "calm e \<Longrightarrow> in_off capped d n s \<Longrightarrow> in_off capped d n (onClose e i s)"
  using in_off_dropHeld in_off_view [OF in_view_gone] by (simp add: onClose_def onClose_with_def dropHeld_def)

lemma in_off_dropped: "calm e \<Longrightarrow> in_off capped d n s \<Longrightarrow> in_off capped d n (dropLink e i s)"
proof -
  assume "calm e" "in_off capped d n s"
  moreover have "in_view (effect x s) = in_view s" for x by (simp add: effect_def)
  ultimately have "in_off capped d n (if e_close_fires e i then onClose e i (effect x s) else effect x s)" for x
    using in_off_ended [of e capped d n "effect x s" i] in_off_view [of "effect x s" s capped d n] by simp
  from this [of "Shut i False"] in_off_view [OF in_view_gone] show ?thesis
    by (cases "e_close_fires e i") (simp_all add: dropLink_def dropLink_with_def Let_def onClose_def)
qed

lemma in_off_failed: "calm e \<Longrightarrow> in_off capped d n s \<Longrightarrow> in_off capped d n (failReadSide e i s)"
  using in_off_dropped [OF _ in_off_dropHeld] by (simp add: failReadSide_def failReadSide_with_def dropLink_def dropHeld_def)

lemma in_off_active:
  assumes "calm e" "in_off capped d n s"
  shows "in_off capped d n (releaseActive e i s)" "th_reads_of (releaseActive e i s) = (th_reads_of s)(i := (th_reads_of s i)\<lparr>rd_active := None\<rparr>)"
proof -
  let ?r = "th_reads_of s i"
  show "in_off capped d n (releaseActive e i s)"
  proof (cases "rd_active ?r")
    case (Some k)
    note r = in_off_release [OF assms, of k]
    have "i < th_nextLinkId s" using in_off_known [OF assms(2), of i] Some by simp
    then have "in_off capped (d - 1 + reads_slices ?r - reads_slices (?r\<lparr>rd_active := None\<rparr>)) (n - int k + reads_bytes ?r - reads_bytes (?r\<lparr>rd_active := None\<rparr>))
        (set_reads i (?r\<lparr>rd_active := None\<rparr>) (releaseInboundRead e k s))"
      using in_off_reads [OF r(1), where i = i and r = "?r\<lparr>rd_active := None\<rparr>"] r(2,3) by simp
    with Some r(2) show ?thesis by (simp add: releaseActive_def Let_def reads_slices_def reads_bytes_def)
  qed (use assms(2) in \<open>simp add: releaseActive_def\<close>)
  show "th_reads_of (releaseActive e i s) = (th_reads_of s)(i := ?r\<lparr>rd_active := None\<rparr>)"
    using in_off_release(2) [OF assms] by (auto simp: releaseActive_def Let_def set_reads_def fun_eq_iff split: option.split)
qed

text \<open>A read that was reserved, or held, and is handed over.\<close>

lemma in_off_dispatch:
  assumes "calm e" "in_off capped (d + 1) (n + int (length b)) s" "i < th_nextLinkId s" "rd_active (th_reads_of s i) = None"
  shows "in_off capped d n (snd (dispatchRead e i b s))"
    "th_reads_of (snd (dispatchRead e i b s)) = (th_reads_of s)(i := (th_reads_of s i)\<lparr>rd_active := Some (length b)\<rparr>)"
proof -
  let ?r = "(th_reads_of s i)\<lparr>rd_active := Some (length b)\<rparr>"
  let ?s = "snd (setReadable e i False (set_reads i ?r s))"
  have v: "in_view ?s = in_view (set_reads i ?r s)" by (rule calm_readable(2))
  have "in_off capped d n (set_reads i ?r s)"
    using in_off_reads [OF assms(2), of i ?r] assms(3,4) by (simp add: reads_slices_def reads_bytes_def)
  then have "in_off capped d n ?s" using in_off_view [OF v] by simp
  moreover have "in_view (snd (dispatchRead e i b s)) = in_view ?s"
    using calm_readable(1) [OF assms(1)] by (simp add: dispatchRead_def Let_def case_prod_beta toTransport_def)
  ultimately show "in_off capped d n (snd (dispatchRead e i b s))" "th_reads_of (snd (dispatchRead e i b s)) = (th_reads_of s)(i := ?r)"
    using in_off_view [of "snd (dispatchRead e i b s)" ?s] v by (auto simp: set_reads_def)
qed


lemma in_off_loop:
  assumes "calm e"
  shows "in_off capped 0 0 s \<Longrightarrow> rd_active (th_reads_of s i) = None \<Longrightarrow> in_off capped 0 0 (releaseRead_loop m e i s)"
proof (induction m arbitrary: s)
  case (Suc m)
  let ?r = "th_reads_of s i"
  have same: "in_off capped 0 0 (dropHeld e i s)" "in_off capped 0 0 (s\<lparr>th_starved := q\<rparr>)" "in_off capped 0 0 (resume e i s)" for q
    using in_off_dropHeld [OF assms Suc.prems(1)] in_off_view [OF calm_resume [OF assms]] in_off_view [of "s\<lparr>th_starved := q\<rparr>" s] Suc.prems(1)
    by (simp_all add: resume_def)
  have "in_off capped 0 0 (snd (dispatchRead e i b s0))" "in_off capped 0 0 (releaseRead_loop m e i (releaseActive e i (snd (dispatchRead e i b s0))))"
    if held: "rd_held ?r = b # rest" and s: "s0 = set_reads i (?r\<lparr>rd_held := rest\<rparr>) s" for b rest s0
  proof -
    have i: "i < th_nextLinkId s" using in_off_known [OF Suc.prems(1), of i] held by simp
    then have "in_off capped (0 + 1) (0 + int (length b)) s0"
      using in_off_reads [OF Suc.prems(1), where i = i and r = "?r\<lparr>rd_held := rest\<rparr>"] held s by (simp add: reads_slices_def reads_bytes_def split: option.split)
    then have d: "in_off capped 0 0 (snd (dispatchRead e i b s0))" by (rule in_off_dispatch(1) [OF assms]) (use i s Suc.prems(2) in \<open>simp_all add: set_reads_def\<close>)
    show "in_off capped 0 0 (releaseRead_loop m e i (releaseActive e i (snd (dispatchRead e i b s0))))"
      by (rule Suc.IH) (simp_all add: in_off_active [OF assms d])
    show "in_off capped 0 0 (snd (dispatchRead e i b s0))" by (rule d)
  qed
  with same Suc.prems(1) show ?case by (simp add: Let_def case_prod_beta split: option.split list.split)
qed simp

lemma in_off_settled: "calm e \<Longrightarrow> in_off capped 0 0 s \<Longrightarrow> in_off capped 0 0 (releaseRead e i s)"
  unfolding releaseRead_def Let_def by (rule in_off_loop) (simp_all add: in_off_active)

lemma in_off_pause:
  assumes "calm e" "in_off capped 0 0 s" "i < th_nextLinkId s"
  shows "in_off capped 0 0 (link_pause e on i s)"
proof -
  let ?s = "set_reads i ((th_reads_of s i)\<lparr>rd_paused := on\<rparr>) s"
  have s: "in_off capped 0 0 ?s" using in_off_reads [OF assms(2), where i = i and r = "(th_reads_of s i)\<lparr>rd_paused := on\<rparr>"] assms(3)
    by (simp add: reads_slices_def reads_bytes_def)
  then have "in_off capped 0 0 (snd (setReadable e i False ?s))" using in_off_view [OF calm_readable(2)] by simp
  with s in_off_settled [OF assms(1) s] calm_readable(1) [OF assms(1)] show ?thesis
    by (cases on) (simp_all add: link_pause_def Let_def case_prod_beta)
qed

lemma in_off_data:
  assumes "calm e" "in_off capped 0 0 s" "i < th_nextLinkId s" "capped \<Longrightarrow> map_of (th_links s) i = Some o' \<Longrightarrow> \<not> rl_pausable (lo_channel o')"
    and o: "map_of (th_links s) i = Some o'"
  shows "in_off capped 0 0 (onData e i b s)"
proof (cases "length b > MAX_LINK_READ_BYTES \<or> \<not> fst (reserveInboundRead (length b) (rl_pausable (lo_channel o')) s)")
  case True
  then have "onData e i b s = failReadSide e i s" using o by (auto simp: onData_def reserveInboundRead_def)
  with in_off_failed assms(1,2) show ?thesis by simp
next
  case False
  let ?s = "s\<lparr>th_inSlices := th_inSlices s + 1, th_inBytes := th_inBytes s + int (length b)\<rparr>" and ?r = "th_reads_of s i"
  have s: "reserveInboundRead (length b) (rl_pausable (lo_channel o')) s = (True, ?s)" using False by (auto simp: reserveInboundRead_def split: if_splits)
  have r: "in_off capped (0 + 1) (0 + int (length b)) ?s"
    using assms(2,4) o s by (auto simp: in_off_def reserveInboundRead_def split: if_splits)
  have "in_off capped 0 0 (snd (dispatchRead e i b ?s))" if "rd_active ?r = None"
    using in_off_dispatch(1) [OF assms(1) r] that assms(3) by simp
  moreover have "in_off capped 0 0 (set_reads i (?r\<lparr>rd_held := rd_held ?r @ [b]\<rparr>) ?s)"
    using in_off_reads [OF r, where i = i and r = "?r\<lparr>rd_held := rd_held ?r @ [b]\<rparr>"] assms(3) by (simp add: reads_slices_def reads_bytes_def split: option.split)
  ultimately show ?thesis using False o s in_off_settled [OF assms(1)] by (auto simp: onData_def Let_def case_prod_beta)
qed


text \<open>Under \<open>capped\<close> no live channel can be paused at its socket, so every read counts against the budget before it is held.\<close>

definition chans_ok :: "bool \<Rightarrow> TransportHost \<Rightarrow> bool" where
  "chans_ok capped s \<longleftrightarrow> (\<forall>i ch. chan_of s i = Some ch \<longrightarrow> capped \<longrightarrow> \<not> rl_pausable ch)"

lemma chans_view: "chan_of s' = chan_of s \<Longrightarrow> chans_ok capped s' = chans_ok capped s"
  by (simp add: chans_ok_def)

lemma chan_simple [simp]: "chan_of (effect x s) = chan_of s" "chan_of (set_reads i r s) = chan_of s" "chan_of (snd (toTransport e ev s)) = chan_of s"
  "chan_of (releaseAll i s) = chan_of s"
  using view_releaseAll [of i s] by (simp_all add: fun_eq_iff chan_of_def effect_def set_reads_def toTransport_def side_view_def)

lemma chan_gone: "chan_of (channelClosed e i s) = (chan_of s)(i := None)"
proof -
  have "chan_of (s\<lparr>th_links := mdel i (th_links s)\<rparr>) = (chan_of s)(i := None)" for s by (simp add: fun_eq_iff chan_of_def)
  then show ?thesis by (auto simp: channelClosed_def Let_def) (simp add: chan_of_def fun_eq_iff)
qed

interpretation chans: read_side_invariant "chans_ok capped" for capped
proof unfold_locales
  show "chans_ok capped (channelClosed e i s)" if "chans_ok capped s" for s e i using that by (simp add: chans_ok_def chan_gone)
qed (simp_all add: chans_ok_def chan_of_def [abs_def] set_reads_def effect_def toTransport_def)

definition in_inv :: "bool \<Rightarrow> TransportHost \<Rightarrow> bool" where
  "in_inv capped s \<longleftrightarrow> in_off capped 0 0 s \<and> chans_ok capped s"

interpretation inbound: side_invariant "\<lambda>s. calm e \<longrightarrow> in_inv capped s" e for capped e
proof unfold_locales
  show "calm e \<longrightarrow> in_inv capped s'" if "side_view s' = side_view s" "calm e \<longrightarrow> in_inv capped s" for s s'
    using that in_off_view [of s' s] chans_view [of s' s] by (simp add: side_view_def in_inv_def)
qed (simp_all add: in_inv_def in_off_view [OF in_view_gone] chans.gone in_off_ended in_off_dropped chans.onClose_keeps chans.dropLink_keeps)

lemma in_inv_same: "in_view s' = in_view s \<Longrightarrow> chan_of s' = chan_of s \<Longrightarrow> in_inv capped s \<Longrightarrow> in_inv capped s'"
  using in_off_view [of s' s] chans_view [of s' s] by (simp add: in_inv_def)

lemma in_inv_flags [simp]: "in_inv capped (s\<lparr>th_bound := b\<rparr>) = in_inv capped s" "in_inv capped (s\<lparr>th_closed := c\<rparr>) = in_inv capped s"
  by (simp_all add: in_inv_def in_off_def chans_ok_def chan_of_def)

lemma in_inv_reset:
  assumes "calm e" "in_inv capped s"
  shows "in_inv capped (reset e s)"
proof -
  have 1: "in_inv capped (fold (dropLink e) (map fst (th_links s)) s)" using inbound.drops_keep assms by blast
  have u: "in_view (fold (\<lambda>i. effect (UdpClosed i)) xs s) = in_view s" "chan_of (fold (\<lambda>i. effect (UdpClosed i)) xs s) = chan_of s" for xs s
    by (induction xs arbitrary: s) (simp_all, simp_all add: effect_def)
  show ?thesis unfolding reset_def Let_def by (rule in_inv_same [OF _ _ 1]) (use u in \<open>simp_all add: chan_of_def [abs_def]\<close>)
qed

lemma in_effect: "in_inv capped s \<Longrightarrow> in_inv capped (effect x s)"
  by (erule in_inv_same [rotated 2]) (simp_all, simp add: effect_def)

lemma in_datagrams:
  "in_inv capped s \<Longrightarrow> in_inv capped (snd (bind_start dg s))" "in_inv capped s \<Longrightarrow> in_inv capped (snd (bind_done g bound s))"
  "in_inv capped s \<Longrightarrow> in_inv capped (heard i b s)" "in_inv capped s \<Longrightarrow> in_inv capped (reads_done g n s)"
  "in_inv capped s \<Longrightarrow> in_inv capped (snd (net_udpSend dg batch s))" "in_inv capped s \<Longrightarrow> in_inv capped (net_udpClose i s)"
  by (erule in_inv_same [rotated 2]; simp add: chan_of_def [abs_def] bind_start_def bind_done_def heard_def pumpReads_def reads_done_def net_udpSend_def
      net_udpClose_def effect_def Let_def split: option.split sum.split)+

lemma in_pump: "in_inv capped s \<Longrightarrow> in_inv capped (pump_turn e s)"
  by (erule in_inv_same [rotated 2])
    (simp_all add: chan_of_def [abs_def] pump_turn_def toTransport_def reads_done_def pumpReads_def Let_def case_prod_beta split: list.split call_answer.split)

lemma in_pending: "in_inv capped s \<Longrightarrow> in_inv capped (pending_done k s)"
  by (erule in_inv_same [rotated 2]) (simp_all add: chan_of_def [abs_def] pending_done_def reads_done_def pumpReads_def)

lemma in_register:
  assumes "in_inv capped s" "capped \<Longrightarrow> \<not> rl_pausable ch"
  shows "in_inv capped (snd (register m ch s))"
proof -
  let ?r = "\<lparr>rd_active = None, rd_paused = False, rd_held = []\<rparr>" and ?n = "th_nextLinkId s"
  have "in_inv capped (effect x s)" for x by (rule in_effect [OF assms(1)])
  moreover have "in_inv capped (s\<lparr>th_nextLinkId := ?n + 1, th_links := mset_at ?n \<lparr>lo_channel = ch, lo_queued = [], lo_charged = 0, lo_closed = False\<rparr> (th_links s),
      th_idOf := k, th_reads_of := (th_reads_of s)(?n := ?r)\<rparr>)" for k
  proof -
    have "reads_slices ?r = 0" "reads_bytes ?r = 0" by (simp_all add: reads_slices_def reads_bytes_def)
    then show ?thesis using assms by (auto simp: in_inv_def in_off_def chans_ok_def chan_of_def)
  qed
  ultimately show ?thesis by (simp add: register_def Let_def)
qed

lemma host_run_in:
  assumes "host_run E C s arr" "\<forall>e. E e \<longrightarrow> calm e" "\<forall>ch. C ch \<longrightarrow> capped \<longrightarrow> \<not> rl_pausable ch"
  shows "in_inv capped s"
  using assms(1)
proof (induction rule: host_run.induct)
  case run_new
  show ?case by (simp add: in_inv_def in_off_def chans_ok_def chan_of_def TransportHost_new_def reads_slices_def reads_bytes_def)
next
  case (run_activate s arr e)
  have "in_inv capped (release_host e s)" using in_inv_reset assms(2) run_activate by (simp add: release_host_def)
  then show ?case by (simp add: activate_def)
next
  case (run_release s arr e)
  then show ?case using in_inv_reset assms(2) by (simp add: release_host_def)
next
  case (run_close s arr e)
  then show ?case using in_inv_reset assms(2) by (simp add: close_host_def)
next
  case (run_open s arr channel m)
  have "in_inv capped (snd (register m ch s))" if "channel = Some ch" for ch using run_open that assms(3) by (intro in_register) auto
  with run_open.IH show ?case by (simp add: net_open_def Let_def case_prod_beta split: option.split)
next
  case (run_accept s arr e ch m listener via)
  have "in_inv capped (effect x s)" for x by (rule in_effect [OF run_accept.IH])
  moreover have r: "in_inv capped (snd (register m ch s))" using run_accept assms(3) by (intro in_register) auto
  moreover have "in_inv capped (announce e i ch listener via (snd (register m ch s)))" for i
    using inbound.announce_keeps [where e = e and capped = capped] r assms(2) run_accept by blast
  ultimately show ?case by (simp add: accept_def case_prod_beta)
next
  case (run_send s arr e i b)
  then show ?case using inbound.send_keeps assms(2) by blast
next
  case (run_pause s arr e i paused)
  have "i < th_nextLinkId s" if "live i s" using that host_run_out [OF run_pause(1)] by (auto simp: out_inv_def)
  then show ?case using run_pause assms(2) in_off_pause chans.link_pause_keeps by (simp add: net_pause_def in_inv_def)
next
  case (run_close_link s arr e i graceful)
  then show ?case using inbound.close_keeps assms(2) by blast
next
  case (run_close_turn s arr e)
  then show ?case using inbound.close_turn_keeps assms(2) by blast
next
  case (run_data s arr e i b)
  show ?case
  proof (cases "map_of (th_links s) i")
    case (Some o')
    have "i < th_nextLinkId s" using Some host_run_out [OF run_data(1)] by (auto simp: out_inv_def)
    moreover have "capped \<Longrightarrow> \<not> rl_pausable (lo_channel o')" using run_data.IH Some by (auto simp: in_inv_def chans_ok_def chan_of_def)
    ultimately have "in_off capped 0 0 (onData e i b s)" using run_data assms(2) Some by (intro in_off_data) (auto simp: in_inv_def)
    with run_data.IH chans.onData_keeps show ?thesis by (simp add: in_inv_def)
  qed (use run_data.IH in \<open>simp add: onData_def\<close>)
next
  case (run_ended s arr e i)
  then show ?case using inbound.ended assms(2) by blast
next
  case (run_settled s arr e i)
  then show ?case using in_off_settled assms(2) chans.releaseRead_keeps by (simp add: in_inv_def)
qed (simp_all add: in_datagrams in_pump in_pending)

text \<open>C26: The node's inbound budget is exact. In every run in which adapters' \<open>setReadable\<close> returns, the reads and bytes charged are
  one for each read in the realm and one for each read held, over every link there ever was; and when no adapter can be
  paused at its socket, they never pass the budget.\<close>

theorem link_inbound_books:
  assumes "host_run E C s arr" "\<forall>e. E e \<longrightarrow> calm e"
  shows "th_inSlices s = (\<Sum>i<th_nextLinkId s. (if rd_active (th_reads_of s i) = None then 0 else 1) + int (length (rd_held (th_reads_of s i)))) \<and>
    th_inBytes s = (\<Sum>i<th_nextLinkId s. (case rd_active (th_reads_of s i) of None \<Rightarrow> 0 | Some n \<Rightarrow> int n) + int (sum_list (map length (rd_held (th_reads_of s i))))) \<and>
    ((\<forall>ch. C ch \<longrightarrow> \<not> rl_pausable ch) \<longrightarrow> th_inSlices s \<le> int MAX_INBOUND_HOLD_SLICES \<and> th_inBytes s \<le> int MAX_INBOUND_HOLD_BYTES)"
proof -
  have "(if rd_active r = None then 0 else 1) + int (length (rd_held r)) = reads_slices r" for r by (auto simp: reads_slices_def)
  moreover have "(case rd_active r of None \<Rightarrow> 0 | Some n \<Rightarrow> int n) + int (sum_list (map length (rd_held r))) = reads_bytes r" for r by (simp add: reads_bytes_def)
  ultimately show ?thesis using host_run_in [OF assms, of "\<forall>ch. C ch \<longrightarrow> \<not> rl_pausable ch"] by (auto simp: in_inv_def in_off_def)
qed

theorem link_inbound_books_witness:
  "let s = onData demo_env 1 [2, 3] (onData demo_env 1 [1] demo_host) in
     th_inSlices s = 2 \<and> th_inBytes s = (\<Sum>i<2. (case rd_active (th_reads_of s i) of None \<Rightarrow> 0 | Some n \<Rightarrow> int n) + int (sum_list (map length (rd_held (th_reads_of s i)))))"
proof -
  define s where "s = onData demo_env 1 [2, 3] (onData demo_env 1 [1] demo_host)"
  note evals = demo_host_value onData_def reserveInboundRead_def dispatchRead_def setReadable_def toTransport_def set_reads_def effect_def
    demo_env_def demo_channel_def TransportHost_new_def MAX_LINK_READ_BYTES_def Let_def
  have "\<exists>arr. host_run (\<lambda>e. e = demo_env) (\<lambda>_. True) s arr"
    using host_run.run_data [OF host_run.run_data [OF demo_host_run refl, of 1 "[1]"] refl, of 1 "[2, 3]"] unfolding s_def by blast
  moreover have "\<forall>e. e = demo_env \<longrightarrow> calm e" by (simp add: calm_def demo_env_def)
  ultimately have "th_inBytes s = (\<Sum>i<th_nextLinkId s. (case rd_active (th_reads_of s i) of None \<Rightarrow> 0 | Some n \<Rightarrow> int n) + int (sum_list (map length (rd_held (th_reads_of s i)))))"
    using link_inbound_books by blast
  moreover have "th_nextLinkId s = 2" "th_inSlices s = 2" by (simp_all add: s_def evals)
  ultimately show ?thesis by (simp only: Let_def s_def [symmetric] simp_thms)
qed

text \<open>C29: A link the occupant closes while it is paused keeps its charge for good. Where a channel's own close does not fire \<open>onClose\<close>,
  the link leaves the table with the reads it held still charged to the node's inbound budget: the books do not change, the reads
  stay held, no read, pause or resume reaches the link again, and neither does a change of occupant give the bytes back.\<close>

theorem paused_close_leaks:
  assumes "host_run E C s arr" "th_bound s" "live i s" "rd_paused (th_reads_of s i)" "rd_active (th_reads_of s i) = None" "th_closing s = []"
    and "\<forall>j. \<not> e_close_fires e j" "s' = close_turn e (net_close e i graceful s)"
  shows "\<not> live i s' \<and> th_inBytes s' = th_inBytes s \<and> th_inSlices s' = th_inSlices s \<and> rd_held (th_reads_of s' i) = rd_held (th_reads_of s i) \<and>
    onData e' i b s' = s' \<and> net_pause e' i on s' = s' \<and> releaseActive e' i s' = s' \<and>
    th_inBytes (release_host e s') = th_inBytes s \<and> th_inSlices (release_host e s') = th_inSlices s"
proof -
  let ?t = "effect (Shut i graceful) s"
  have s': "s' = channelClosed e i (?t\<lparr>th_closing := []\<rparr>)" using assms by (simp add: net_close_def close_turn_def effect_def)
  have v: "in_view s' = in_view s" unfolding s' in_view_gone by (simp add: effect_def)
  have dead: "\<not> live i s'" unfolding s' by (rule kept_gone)
  have drop: "in_view (dropLink e j s) = in_view s" for j s
    using assms(7) in_view_gone [of e j "effect (Shut j False) s"] by (simp add: dropLink_def dropLink_with_def effect_def)
  have "in_view (fold (dropLink e) is s) = in_view s" for "is" s
    by (induction "is" arbitrary: s) (use drop in simp_all)
  moreover have "in_view (fold (\<lambda>i. effect (UdpClosed i)) xs s) = in_view s" for xs s by (induction xs arbitrary: s) (simp_all add: effect_def)
  ultimately have "in_view (reset e s) = in_view s" for s by (simp add: reset_def Let_def)
  then have "in_view (release_host e s') = in_view s'" by (simp add: release_host_def)
  with v dead assms(5) show ?thesis by (simp add: onData_def net_pause_def releaseActive_def)
qed

theorem paused_close_leaks_witness:
  "let s' = close_turn demo_env (net_close demo_env 1 False (onData demo_env 1 [1, 2] (net_pause demo_env 1 True demo_host))) in
     th_links s' = [] \<and> th_inBytes s' = 2 \<and> th_inBytes (release_host demo_env s') = 2"
proof -
  define s where "s = onData demo_env 1 [1, 2] (net_pause demo_env 1 True demo_host)"
  define s' where "s' = close_turn demo_env (net_close demo_env 1 False s)"
  note evals = demo_host_value onData_def reserveInboundRead_def net_pause_def link_pause_def setReadable_def set_reads_def effect_def
    demo_env_def demo_channel_def TransportHost_new_def MAX_LINK_READ_BYTES_def Let_def
  have "\<exists>arr. host_run (\<lambda>e. e = demo_env) (\<lambda>_. True) s arr"
    using host_run.run_data [OF host_run.run_pause [OF demo_host_run refl, of 1 True] refl, of 1 "[1, 2]"] unfolding s_def by blast
  then obtain arr where run: "host_run (\<lambda>e. e = demo_env) (\<lambda>_. True) s arr" ..
  have s: "th_bound s" "live 1 s" "rd_paused (th_reads_of s 1)" "rd_active (th_reads_of s 1) = None" "th_closing s = []" "th_inBytes s = 2"
    "\<forall>j. \<not> e_close_fires demo_env j" by (simp_all add: s_def evals)
  from paused_close_leaks [OF run s(1-5) s(7) s'_def] s(6) have "th_inBytes s' = 2" "th_inBytes (release_host demo_env s') = 2" by auto
  moreover have "th_links s' = []"
    by (simp add: s'_def s_def net_close_def close_turn_def channelClosed_def releaseAll_def releaseOutbound_def set_owner_def toTransport_def mdel_def evals)
  ultimately show ?thesis by (simp only: Let_def s_def [symmetric] s'_def [symmetric] simp_thms)
qed

end
