(* ===== verification/Link_Datagrams.thy ===== *)
theory Link_Datagrams
  imports Link_Books
begin

text \<open>
  The datagrams of the host's link driver: what waits for the occupant is bounded and never stuck, and a batch to send goes out as
  the datagrams of it whose socket the occupant holds.
\<close>

section \<open>What waits for the occupant\<close>

definition event_ok :: "DatagramEvent \<Rightarrow> bool" where
  "event_ok d \<longleftrightarrow> dg_args d \<noteq> [] \<and> dg_bytes d = sum_list (map (length \<circ> snd) (dg_args d)) \<and> (dg_bytes d \<le> MAX_LINK_READ_BYTES \<or> length (dg_args d) = 1)"

text \<open>The events of this generation of sockets that the realm still has.\<close>

definition in_realm :: "TransportHost \<Rightarrow> (nat \<times> nat) list" where
  "in_realm s = filter (\<lambda>p. fst p = th_socketGen s) (th_pending s)"

definition dgram_inv :: "TransportHost \<Rightarrow> bool" where
  "dgram_inv s \<longleftrightarrow> \<not> (th_readsBusy s \<and> th_readsDue s) \<and> (th_reads s \<noteq> [] \<longrightarrow> th_readsBusy s \<or> th_readsDue s) \<and>
     length (in_realm s) = (if th_readsBusy s then 1 else 0) \<and> (\<forall>p \<in> set (th_pending s). fst p \<le> th_socketGen s) \<and>
     th_heldDatagramBytes s = int (sum_list (map dg_bytes (th_reads s)) + sum_list (map snd (in_realm s))) \<and>
     th_heldDatagramBytes s \<le> int MAX_UDP_HELD_BYTES \<and> (\<forall>d \<in> set (th_reads s). event_ok d) \<and>
     distinct (th_sockets s) \<and> length (th_sockets s) + th_binding s \<le> MAX_UDP_SOCKETS"

lemma dgram_view: "snd (side_view s') = snd (side_view s) \<Longrightarrow> dgram_inv s' = dgram_inv s"
  by (simp add: side_view_def dgram_inv_def in_realm_def)

lemma dgram_updates [simp]:
  "dgram_inv (s\<lparr>th_reads_of := x0\<rparr>) = dgram_inv s" "dgram_inv (s\<lparr>th_idOf := x1\<rparr>) = dgram_inv s" "dgram_inv (s\<lparr>th_bound := x2\<rparr>) = dgram_inv s"
  "dgram_inv (s\<lparr>th_closed := x3\<rparr>) = dgram_inv s" "dgram_inv (s\<lparr>th_inSlices := x4\<rparr>) = dgram_inv s" "dgram_inv (s\<lparr>th_inBytes := x5\<rparr>) = dgram_inv s"
  "dgram_inv (s\<lparr>th_starved := x6\<rparr>) = dgram_inv s" "dgram_inv (s\<lparr>th_links := x7\<rparr>) = dgram_inv s" "dgram_inv (s\<lparr>th_nextLinkId := x8\<rparr>) = dgram_inv s"
  "dgram_inv (s\<lparr>th_log := x9\<rparr>) = dgram_inv s" "dgram_inv (s\<lparr>th_effects := x10\<rparr>) = dgram_inv s" "dgram_inv (s\<lparr>th_closing := x11\<rparr>) = dgram_inv s"
  by (rule dgram_view, simp add: side_view_def)+

lemma dgram_gone: "dgram_inv s \<Longrightarrow> dgram_inv (channelClosed e i s)"
proof -
  have "snd (side_view (s\<lparr>th_links := l\<rparr>)) = snd (side_view s)" for s l by (simp add: side_view_def)
  then have "snd (side_view (channelClosed e i s)) = snd (side_view s)" by (simp add: channelClosed_def Let_def)
  then show "dgram_inv s \<Longrightarrow> dgram_inv (channelClosed e i s)" using dgram_view by blast
qed

interpretation waiting: read_side_invariant dgram_inv
  by unfold_locales (simp_all add: dgram_gone set_reads_def effect_def toTransport_def)

interpretation sending: side_invariant dgram_inv e for e
  by unfold_locales (simp_all add: dgram_gone waiting.onClose_keeps waiting.dropLink_keeps, metis dgram_view)

lemma dgram_pump: 
  assumes "length (in_realm s) = (if th_readsBusy s then 1 else 0)" "\<forall>p \<in> set (th_pending s). fst p \<le> th_socketGen s" "\<not> (th_readsBusy s \<and> th_readsDue s)"
    "th_heldDatagramBytes s = int (sum_list (map dg_bytes (th_reads s)) + sum_list (map snd (in_realm s)))"
    "th_heldDatagramBytes s \<le> int MAX_UDP_HELD_BYTES" "\<forall>d \<in> set (th_reads s). event_ok d"
    "distinct (th_sockets s)" "length (th_sockets s) + th_binding s \<le> MAX_UDP_SOCKETS"
  shows "dgram_inv (pumpReads s)"
  using assms by (auto simp: dgram_inv_def pumpReads_def in_realm_def)

lemma dgram_heard:
  assumes "dgram_inv s"
  shows "dgram_inv (heard i b s)"
proof (cases "i \<notin> set (th_sockets s) \<or> int (length b) > int MAX_UDP_HELD_BYTES - th_heldDatagramBytes s")
  case True
  with assms show ?thesis by (auto simp: heard_def)
next
  case False
  let ?rs = "if th_reads s = [] \<or> dg_bytes (last (th_reads s)) + length b > MAX_LINK_READ_BYTES then th_reads s @ [\<lparr>dg_args = [], dg_bytes = 0\<rparr>] else th_reads s"
  let ?l = "last ?rs"
  let ?new = "butlast ?rs @ [?l\<lparr>dg_args := dg_args ?l @ [(i, b)], dg_bytes := dg_bytes ?l + length b\<rparr>]"
  have ok: "\<forall>d \<in> set (th_reads s). event_ok d" using assms by (simp add: dgram_inv_def)
  then have last: "event_ok (last (th_reads s))" if "th_reads s \<noteq> []" using that by simp
  have "\<forall>d \<in> set ?new. event_ok d" using ok last by (auto simp: event_ok_def dest: in_set_butlastD)
  moreover have "sum_list (map dg_bytes ?new) = sum_list (map dg_bytes (th_reads s)) + length b"
    by (cases "th_reads s" rule: rev_cases) (simp_all add: butlast_append)
  ultimately have new: "\<forall>d \<in> set ?new. event_ok d" "sum_list (map dg_bytes ?new) = sum_list (map dg_bytes (th_reads s)) + length b" by blast+
  define new where "new = ?new"
  let ?s = "s\<lparr>th_heldDatagramBytes := th_heldDatagramBytes s + int (length b), th_reads := new\<rparr>"
  have "dgram_inv (pumpReads ?s)"
    by (rule dgram_pump) (use assms new [folded new_def] False in \<open>simp_all add: dgram_inv_def in_realm_def\<close>)
  moreover have "heard i b s = pumpReads ?s" using False unfolding heard_def Let_def new_def by simp
  ultimately show ?thesis by simp
qed

text \<open>An answered event: what the realm still has is as \<open>rest\<close>, without the event's bytes.\<close>

lemma dgram_done:
  assumes "\<forall>p \<in> set (th_pending s). fst p \<le> th_socketGen s" "\<forall>d \<in> set (th_reads s). event_ok d" "distinct (th_sockets s)"
    "length (th_sockets s) + th_binding s \<le> MAX_UDP_SOCKETS" "\<not> th_readsDue s" "in_realm s = []"
    "th_heldDatagramBytes s = int (sum_list (map dg_bytes (th_reads s))) + int n" "th_heldDatagramBytes s \<le> int MAX_UDP_HELD_BYTES"
  shows "dgram_inv (reads_done (th_socketGen s) n s)"
  unfolding reads_done_def using assms by (simp, intro dgram_pump) (simp_all add: in_realm_def)

lemma dgram_pending:
  assumes "dgram_inv s"
  shows "dgram_inv (pending_done k s)"
proof (cases "k < length (th_pending s)")
  case True
  let ?p = "th_pending s ! k" and ?rest = "take k (th_pending s) @ drop (Suc k) (th_pending s)"
  let ?s = "s\<lparr>th_pending := ?rest\<rparr>"
  have split: "th_pending s = take k (th_pending s) @ ?p # drop (Suc k) (th_pending s)" using True by (simp add: id_take_nth_drop)
  have sub: "set ?rest \<subseteq> set (th_pending s)" by (auto dest: in_set_takeD in_set_dropD)
  have realm: "in_realm s = filter (\<lambda>p. fst p = th_socketGen s) (take k (th_pending s)) @ (if fst ?p = th_socketGen s then [?p] else []) @
      filter (\<lambda>p. fst p = th_socketGen s) (drop (Suc k) (th_pending s))"
    unfolding in_realm_def by (subst split) simp
  show ?thesis
  proof (cases "fst ?p = th_socketGen s")
    case g: True
    have b: "th_readsBusy s" "length (in_realm s) = 1" using assms realm g by (auto simp: dgram_inv_def split: if_splits)
    then have e: "in_realm ?s = []" "in_realm s = [?p]" using realm g by (auto simp: in_realm_def)
    have "dgram_inv (reads_done (th_socketGen ?s) (snd ?p) ?s)"
      by (rule dgram_done) (use assms sub b e in \<open>auto simp: dgram_inv_def\<close>)
    with g True show ?thesis by (simp add: pending_done_def)
  next
    case False
    then have "in_realm ?s = in_realm s" using realm by (simp add: in_realm_def)
    then have "dgram_inv ?s" using assms sub unfolding dgram_inv_def by auto
    with False True show ?thesis by (simp add: pending_done_def reads_done_def)
  qed
qed (use assms in \<open>simp add: pending_done_def\<close>)

lemma dgram_turn:
  assumes inv: "dgram_inv s" and due: "th_readsDue s" and "\<forall>ds. e_answer e (Datagrams ds) \<noteq> Answer_Throws"
  shows "dgram_inv (pump_turn e s)"
proof (cases "th_reads s")
  case Nil
  with inv due show ?thesis by (auto simp: pump_turn_def dgram_inv_def in_realm_def)
next
  case (Cons d rest)
  have idle: "\<not> th_readsBusy s" "in_realm s = []" using inv due by (auto simp: dgram_inv_def)
  let ?s = "snd (toTransport e (Datagrams (dg_args d)) (s\<lparr>th_readsDue := False, th_reads := rest\<rparr>))"
  have r: "th_pending ?s = th_pending s" "th_socketGen ?s = th_socketGen s" "th_reads ?s = rest" "th_sockets ?s = th_sockets s" "th_binding ?s = th_binding s"
    "\<not> th_readsDue ?s" "\<not> th_readsBusy ?s" "th_heldDatagramBytes ?s = th_heldDatagramBytes s" "in_realm ?s = []"
    using idle by (auto simp: toTransport_def in_realm_def)
  have answered: "dgram_inv (reads_done (th_socketGen ?s) (dg_bytes d) ?s)"
    by (rule dgram_done) (use inv Cons idle r in \<open>auto simp: dgram_inv_def\<close>)
  have "dgram_inv (?s\<lparr>th_readsBusy := True, th_pending := th_pending ?s @ [(th_socketGen ?s, dg_bytes d)]\<rparr>)"
    using inv Cons idle r by (auto simp: dgram_inv_def in_realm_def)
  moreover have "fst (toTransport e (Datagrams (dg_args d)) (s\<lparr>th_readsDue := False, th_reads := rest\<rparr>)) \<noteq> Answer_Throws"
    using assms(3) by (simp add: toTransport_def)
  ultimately show ?thesis using answered Cons idle by (simp add: pump_turn_def Let_def case_prod_beta split: call_answer.split)
qed

lemma dgram_sockets:
  "dgram_inv s \<Longrightarrow> dgram_inv (snd (bind_start dg s))" "dgram_inv s \<Longrightarrow> 0 < th_binding s \<Longrightarrow> dgram_inv (snd (bind_done g bound s))"
  "dgram_inv s \<Longrightarrow> dgram_inv (snd (net_udpSend dg batch s))" "dgram_inv s \<Longrightarrow> dgram_inv (net_udpClose i s)"
proof -
  have set: "dgram_inv (s\<lparr>th_binding := b, th_sockets := ks\<rparr>)" if "dgram_inv s" "distinct ks" "length ks + b \<le> MAX_UDP_SOCKETS" for b ks s
    using that unfolding dgram_inv_def in_realm_def by (elim conjE, intro conjI; simp)
  have swap: "s\<lparr>th_sockets := ks\<rparr> = s\<lparr>th_binding := th_binding s, th_sockets := ks\<rparr>" "s\<lparr>th_binding := b\<rparr> = s\<lparr>th_binding := b, th_sockets := th_sockets s\<rparr>" for s b ks
    by simp_all
  have old: "distinct (th_sockets s)" "length (th_sockets s) + th_binding s \<le> MAX_UDP_SOCKETS" if "dgram_inv s" for s using that by (simp_all add: dgram_inv_def)
  show "dgram_inv s \<Longrightarrow> dgram_inv (snd (bind_start dg s))"
    using set [of s "th_sockets s" "th_binding s + 1"] old by (simp add: bind_start_def)
  have less: "length (th_sockets s) + (th_binding s - 1) \<le> MAX_UDP_SOCKETS" "length (th_sockets s @ [i]) + (th_binding s - 1) \<le> MAX_UDP_SOCKETS"
    if "dgram_inv s" "0 < th_binding s" for i using old(2) [OF that(1)] that(2) by simp_all
  show "dgram_inv (snd (bind_done g bound s))" if "dgram_inv s" "0 < th_binding s"
    using set [OF that(1) old(1) [OF that(1)] less(1) [OF that]] set [OF that(1) _ less(2) [OF that]] old(1) [OF that(1)]
    by (auto simp: bind_done_def effect_def Let_def split: option.split)
  show "dgram_inv s \<Longrightarrow> dgram_inv (snd (net_udpSend dg batch s))" by (simp add: net_udpSend_def effect_def split: sum.split)
  have "length (filter (\<lambda>j. j \<noteq> i) (th_sockets s)) + th_binding s \<le> MAX_UDP_SOCKETS" if "dgram_inv s"
    using old(2) [OF that] length_filter_le [of "\<lambda>j. j \<noteq> i" "th_sockets s"] by linarith
  then show "dgram_inv s \<Longrightarrow> dgram_inv (net_udpClose i s)"
    using set [of s "filter (\<lambda>j. j \<noteq> i) (th_sockets s)" "th_binding s"] old(1) by (simp add: net_udpClose_def effect_def)
qed

lemma dgram_register: "dgram_inv s \<Longrightarrow> dgram_inv (snd (register m ch s))"
  by (simp add: register_def effect_def Let_def)

lemma dgram_reset:
  assumes "dgram_inv s"
  shows "dgram_inv (reset e s)"
proof -
  let ?s = "fold (dropLink e) (map fst (th_links s)) s"
  have 1: "dgram_inv ?s" by (rule waiting.dropLinks_keep [OF assms])
  have u: "snd (side_view (fold (\<lambda>i. effect (UdpClosed i)) xs s)) = snd (side_view s)" for xs s by (induction xs arbitrary: s) simp_all
  let ?t = "?s\<lparr>th_starved := [], th_socketGen := th_socketGen ?s + 1\<rparr>"
  let ?u = "fold (\<lambda>i. effect (UdpClosed i)) (th_sockets ?t) ?t"
  have "th_socketGen ?u = th_socketGen ?s + 1" "th_binding ?u = th_binding ?s" "th_pending ?u = th_pending ?s" using u [of "th_sockets ?t" ?t] by (simp_all add: side_view_def)
  moreover have "\<forall>p \<in> set (th_pending ?s). fst p \<noteq> Suc (th_socketGen ?s)" using 1 by (force simp: dgram_inv_def)
  ultimately show ?thesis using 1 by (auto simp: reset_def Let_def dgram_inv_def in_realm_def filter_empty_conv)
qed

lemma host_run_dgram:
  assumes "host_run E C s arr" "\<forall>e ds. E e \<longrightarrow> e_answer e (Datagrams ds) \<noteq> Answer_Throws"
  shows "dgram_inv s"
  using assms(1)
proof (induction rule: host_run.induct)
  case run_new
  show ?case by (simp add: dgram_inv_def in_realm_def TransportHost_new_def)
next
  case (run_open s arr channel m)
  then show ?case by (simp add: net_open_def Let_def case_prod_beta dgram_register split: option.split)
next
  case (run_accept s arr e ch m listener via)
  then show ?case by (simp add: accept_def case_prod_beta dgram_register waiting.effects sending.announce_keeps)
next
  case (run_pump s arr e)
  then show ?case using assms(2) by (simp add: dgram_turn)
qed (simp_all add: activate_def release_host_def close_host_def dgram_reset sending.send_keeps sending.close_keeps sending.close_turn_keeps
    waiting.net_pause_keeps waiting.onData_keeps waiting.onClose_keeps waiting.releaseRead_keeps dgram_sockets dgram_heard dgram_pending)

text \<open>C27: The datagrams that wait for the occupant are bounded, counted exactly and never stuck. In every run in which the occupant's
  entry does not throw at a \<open>datagrams\<close> event, what is charged is what the waiting events and the one in the realm carry, it
  stays within the host's bound, the sockets held and being bound stay within theirs, no event outgrows one read unless a single
  datagram batch does, at most one event is in the realm, and while an event waits and none is in the realm, a turn is due; that turn hands the
  occupant the oldest.\<close>

theorem datagrams_bounded_and_pumped:
  assumes "host_run E C s arr" "\<forall>e ds. E e \<longrightarrow> e_answer e (Datagrams ds) \<noteq> Answer_Throws"
  shows "th_heldDatagramBytes s = int (sum_list (map dg_bytes (th_reads s)) + sum_list (map snd (in_realm s))) \<and>
    th_heldDatagramBytes s \<le> int MAX_UDP_HELD_BYTES \<and> length (th_sockets s) + th_binding s \<le> MAX_UDP_SOCKETS \<and> distinct (th_sockets s) \<and>
    (\<forall>d \<in> set (th_reads s). dg_bytes d = sum_list (map (length \<circ> snd) (dg_args d)) \<and> (dg_bytes d \<le> MAX_LINK_READ_BYTES \<or> length (dg_args d) = 1)) \<and>
    length (in_realm s) \<le> 1 \<and> (th_reads s \<noteq> [] \<and> in_realm s = [] \<longrightarrow> th_readsDue s) \<and>
    (\<forall>d rest. th_readsDue s \<and> th_reads s = d # rest \<and> available s \<longrightarrow> th_log (pump_turn e s) = th_log s @ [Datagrams (dg_args d)] \<and> th_reads (pump_turn e s) = rest)"
proof -
  have inv: "dgram_inv s" by (rule host_run_dgram [OF assms])
  have "th_log (pump_turn e s) = th_log s @ [Datagrams (dg_args d)] \<and> th_reads (pump_turn e s) = rest"
    if "th_readsDue s" "th_reads s = d # rest" "available s" for d rest
    using that inv by (simp add: pump_turn_def toTransport_def available_def dgram_inv_def reads_done_def pumpReads_def Let_def split: call_answer.split)
  moreover have "\<forall>d \<in> set (th_reads s). dg_bytes d = sum_list (map (length \<circ> snd) (dg_args d)) \<and> (dg_bytes d \<le> MAX_LINK_READ_BYTES \<or> length (dg_args d) = 1)"
    using inv unfolding dgram_inv_def event_ok_def by blast
  moreover have "length (in_realm s) \<le> 1" "th_reads s \<noteq> [] \<and> in_realm s = [] \<longrightarrow> th_readsDue s" using inv by (auto simp: dgram_inv_def split: if_splits)
  ultimately show ?thesis using inv unfolding dgram_inv_def by blast
qed

definition demo_udp :: TransportHost where
  "demo_udp = heard 7 [5, 6] (snd (bind_done 0 (Some (7, 4000)) (snd (bind_start True demo_host))))"

theorem datagrams_bounded_and_pumped_witness:
  "th_heldDatagramBytes demo_udp = 2 \<and> th_log (pump_turn demo_env demo_udp) = [Datagrams [(7, [5, 6])]] \<and> th_readsDue demo_udp"
proof -
  note evals = demo_udp_def demo_host_value bind_start_def bind_done_def heard_def pumpReads_def effect_def available_def
    TransportHost_new_def MAX_UDP_SOCKETS_def MAX_UDP_HELD_BYTES_def MAX_LINK_READ_BYTES_def Let_def
  have run: "host_run (\<lambda>e. e = demo_env) (\<lambda>_. True) demo_udp (\<lambda>_. [])"
    unfolding demo_udp_def by (intro host_run.run_heard host_run.run_bound host_run.run_bind demo_host_run) (simp add: evals)
  have "\<forall>e ds. e = demo_env \<longrightarrow> e_answer e (Datagrams ds) \<noteq> Answer_Throws" by (simp add: demo_env_def)
  from datagrams_bounded_and_pumped [OF run this, of demo_env]
  have "\<forall>d rest. th_readsDue demo_udp \<and> th_reads demo_udp = d # rest \<and> available demo_udp \<longrightarrow>
      th_log (pump_turn demo_env demo_udp) = th_log demo_udp @ [Datagrams (dg_args d)] \<and> th_reads (pump_turn demo_env demo_udp) = rest" by (elim conjE)
  moreover have "th_readsDue demo_udp" "th_reads demo_udp = [\<lparr>dg_args = [(7, [5, 6])], dg_bytes = 2\<rparr>]" "available demo_udp" "th_log demo_udp = []" "th_heldDatagramBytes demo_udp = 2"
    by (simp_all add: evals)
  ultimately show ?thesis by simp
qed


section \<open>A batch to send\<close>

text \<open>The wire form of a datagram to send, \<open>[socket u32][hostLen u8][host][port u16][len u16][bytes]\<close>.\<close>

type_synonym datagram = "nat \<times> bytes \<times> nat \<times> bytes"

definition datagram_ok :: "datagram \<Rightarrow> bool" where
  "datagram_ok = (\<lambda>(i, host, port, b). i < 2 ^ 32 \<and> length host < 256 \<and> port < 65536 \<and> length b < 65536)"

definition u16_bytes :: "nat \<Rightarrow> bytes" where
  "u16_bytes n = [of_nat (n div 256), of_nat (n mod 256)]"

definition datagram_bytes :: "datagram \<Rightarrow> bytes" where
  "datagram_bytes = (\<lambda>(i, host, port, b). u32be (int i) @ of_nat (length host) # host @ u16_bytes port @ u16_bytes (length b) @ b)"

lemma u16_read: "n < 65536 \<Longrightarrow> 256 * unat (num_at (u16_bytes n @ y) 0) + unat (num_at (u16_bytes n @ y) (Suc 0)) = n"
  by (simp add: u16_bytes_def num_at_def unat_of_nat_byte)

lemma byte_less: "unat (a :: byte) < 256"
  by (rule order_less_le_trans [OF unsigned_less]) simp

lemma u16_bytes_read: "u16_bytes (256 * unat a + unat b) = [a, b]"
  using byte_less [of b] by (simp add: u16_bytes_def)

lemma u32be_read: "u32be (int (readU32BE (a # b # c # d # x) 0)) = [a, b, c, d]"
proof -
  let ?w = "push_bit 24 (ucast a) OR push_bit 16 (ucast b) OR push_bit 8 (ucast c) OR ucast d :: 32 word"
  have "ucast (drop_bit 24 ?w) = a" "ucast (drop_bit 16 ?w) = b" "ucast (drop_bit 8 ?w) = c" "ucast ?w = d"
    by (rule bit_word_eqI; auto simp: bit_simps dest: bit_imp_le_length)+
  moreover have "readU32BE (a # b # c # d # x) 0 = unat ?w" by (simp add: readU32BE_def num_at_def)
  ultimately show ?thesis by (simp add: u32be_def writeU32BE_def low_byte Let_def numeral_eq_Suc)
qed

lemma length_u16 [simp]: "length (u16_bytes n) = 2"
  by (simp add: u16_bytes_def)

text \<open>Reading a datagram where one is.\<close>

lemma datagram_read:
  assumes "datagram_ok (i, host, port, b)" "x = datagram_bytes (i, host, port, b) @ post"
  shows "unat (num_at x 4) = length host" "readU32BE x 0 = i" "subarray x 5 (5 + length host) = host"
    "256 * unat (num_at x (5 + length host)) + unat (num_at x (6 + length host)) = port"
    "256 * unat (num_at x (7 + length host)) + unat (num_at x (8 + length host)) = length b"
    "subarray x (9 + length host) (9 + length host + length b) = b"
    "length (datagram_bytes (i, host, port, b)) = 9 + length host + length b"
proof -
  have ok: "i < 2 ^ 32" "length host < 256" "port < 65536" "length b < 65536" using assms(1) by (simp_all add: datagram_ok_def)
  let ?h = "u32be (int i) @ [of_nat (length host)]"
  have x: "x = ?h @ host @ u16_bytes port @ u16_bytes (length b) @ b @ post" using assms(2) by (simp add: datagram_bytes_def)
  show "unat (num_at x 4) = length host" using ok(2) by (simp add: x unat_of_nat_byte num_at_def nth_append)
  show "readU32BE x 0 = i" using readU32BE_u32be [of "int i"] ok(1) by (simp add: x)
  show "subarray x 5 (5 + length host) = host" unfolding x by (rule subarray_middle) simp_all
  have l: "num_at (p @ y) (length p + k) = num_at y k" for p y :: bytes and k by simp
  show "256 * unat (num_at x (5 + length host)) + unat (num_at x (6 + length host)) = port"
    using u16_read [OF ok(3)] l [of "?h @ host" _ 0] l [of "?h @ host" _ 1] by (simp add: x)
  show "256 * unat (num_at x (7 + length host)) + unat (num_at x (8 + length host)) = length b"
    using u16_read [OF ok(4)] l [of "?h @ host @ u16_bytes port" _ 0] l [of "?h @ host @ u16_bytes port" _ 1] by (simp add: x)
  show "subarray x (9 + length host) (9 + length host + length b) = b"
    using subarray_middle [of "?h @ host @ u16_bytes port @ u16_bytes (length b)" "9 + length host" b "9 + length host + length b" post] by (simp add: x)
  show "length (datagram_bytes (i, host, port, b)) = 9 + length host + length b" by (simp add: datagram_bytes_def)
qed

text \<open>A datagram that ends within the batch is one.\<close>

lemma datagram_there:
  assumes "datagramEnd x 0 = Some end'" "end' \<le> length x"
  shows "\<exists>d. datagram_ok d \<and> take end' x = datagram_bytes d"
proof -
  let ?h = "unat (num_at x 4)"
  have e: "9 + ?h \<le> length x" "end' = 9 + ?h + (256 * unat (num_at x (7 + ?h)) + unat (num_at x (8 + ?h)))"
    using assms(1) by (auto simp: datagramEnd_def Let_def split: if_splits)
  then have "Suc (Suc (Suc (Suc (Suc 0)))) \<le> length x" by simp
  then obtain a b c d f y where x': "x = a # b # c # d # f # y" by (auto simp: Suc_le_length_iff)
  then have f: "f = num_at x 4" by (simp add: num_at_def)
  have y: "length y = length x - 5" "num_at x (k + 5) = num_at y k" for k using x' by (simp_all add: num_at_def)
  note x = x' [unfolded f]
  let ?host = "take ?h y" and ?z = "drop ?h y"
  have lz: "4 \<le> length ?z" using e(1) y(1) by simp
  have nz: "num_at x (5 + ?h + k) = num_at ?z k" for k
  proof -
    have "num_at x (5 + ?h + k) = num_at y (?h + k)" using y(2) [of "?h + k"] by (simp only: ac_simps)
    then show ?thesis using lz by (simp add: num_at_def [of y] num_at_def [of ?z] less_diff_conv add.commute)
  qed
  from lz obtain p q u v w where z: "?z = p # q # u # v # w"
    by (cases ?z; cases "tl ?z"; cases "tl (tl ?z)"; cases "tl (tl (tl ?z))") auto
  have "num_at ?z 2 = u" "num_at ?z 3 = v" unfolding z by (simp_all add: num_at_def)
  then have uv: "num_at x (7 + ?h) = u" "num_at x (8 + ?h) = v" using nz [of 2] nz [of 3] by (simp_all only: ac_simps) simp_all
  let ?n = "256 * unat u + unat v"
  have n: "?n \<le> length w" using assms(2) e(2) uv y(1) arg_cong [OF z, of length] by simp
  have h: "length ?host = ?h" using e(1) y(1) by simp
  have small: "256 * unat r + unat t < 65536" for r t :: byte using byte_less [of r] byte_less [of t] by linarith
  let ?d = "(readU32BE x 0, ?host, 256 * unat p + unat q, take ?n w)"
  have "datagram_ok ?d" using h n small [of p q] small [of u v] byte_less [of "num_at x 4"] readU32BE_bound [of x 0] by (simp add: datagram_ok_def)
  moreover have "take end' x = datagram_bytes ?d"
  proof -
    define hd' where "hd' = [a, b, c, d] @ num_at x 4 # ?host @ [p, q] @ [u, v]"
    have "datagram_bytes ?d = hd' @ take ?n w" using h n u32be_read [of a b c d "f # y", folded x'] by (simp add: datagram_bytes_def u16_bytes_read hd'_def)
    moreover have "x = hd' @ w"
    proof -
      have "hd' @ w = [a, b, c, d] @ num_at x 4 # ?host @ ?z" unfolding z hd'_def by simp
      also have "\<dots> = a # b # c # d # f # y" unfolding f [symmetric] append_take_drop_id by (simp only: append.simps)
      finally show ?thesis using x' by (simp only:)
    qed
    moreover have "end' = length hd' + ?n" using e(2) uv h by (simp add: hd'_def)
    ultimately show ?thesis by simp
  qed
  ultimately show ?thesis by blast
qed


lemma datagramEnd_shift: "datagramEnd (pre @ x) (length pre) = map_option ((+) (length pre)) (datagramEnd x 0)"
  by (simp add: datagramEnd_def Let_def)

lemma datagramEnd_at: "datagram_ok d \<Longrightarrow> datagramEnd (pre @ datagram_bytes d @ post) (length pre) = Some (length pre + length (datagram_bytes d))"
proof (cases d)
  case (fields i host port b)
  assume "datagram_ok d"
  with fields datagram_read [of i host port b "datagram_bytes d @ post" post] show ?thesis
    by (simp add: datagramEnd_shift) (simp add: datagramEnd_def Let_def ac_simps)
qed

lemma datagram_nonempty: "datagram_bytes d \<noteq> []"
  by (cases d) (simp add: datagram_bytes_def)

definition batch_bytes :: "datagram list \<Rightarrow> bytes" where
  "batch_bytes ds = concat (map datagram_bytes ds)"

lemma batch_Cons [simp]: "batch_bytes (d # ds) = datagram_bytes d @ batch_bytes ds" "batch_bytes [] = []"
  by (simp_all add: batch_bytes_def)

lemma readU32BE_datagram: "datagram_ok d \<Longrightarrow> readU32BE (pre @ datagram_bytes d @ post) (length pre) = fst d"
proof (cases d)
  case (fields i host port b)
  assume "datagram_ok d"
  with fields datagram_read(2) [of i host port b "datagram_bytes d @ post" post] readU32BE_shift [of pre "datagram_bytes d @ post" 0] show ?thesis by simp
qed

definition as_read :: "datagram \<Rightarrow> nat \<times> jstr \<times> nat \<times> bytes" where
  "as_read = (\<lambda>(i, host, port, b). (i, utf8Decode host, port, b))"

lemma forEachDatagram_batch:
  "\<forall>d \<in> set ds. datagram_ok d \<Longrightarrow> forEachDatagram (pre @ batch_bytes ds) (length pre) = map as_read ds"
proof (induction ds arbitrary: pre)
  case Nil
  show ?case by (subst forEachDatagram.simps) simp
next
  case (Cons d ds)
  obtain i host port b where d: "d = (i, host, port, b)" by (cases d)
  have ok: "datagram_ok (i, host, port, b)" using Cons.prems d by simp
  let ?x = "datagram_bytes d @ batch_bytes ds"
  note r = datagram_read [OF ok, of ?x "batch_bytes ds"]
  have sub: "subarray (pre @ ?x) (length pre + k) (length pre + m) = subarray ?x k m" for k m by (simp add: subarray_def)
  have num: "num_at (pre @ ?x) (length pre + k) = num_at ?x k" for k by simp
  have u32: "readU32BE (pre @ ?x) (length pre) = i" using readU32BE_datagram [of d pre "batch_bytes ds"] ok d by simp
  have ending: "datagramEnd (pre @ ?x) (length pre) = Some (length pre + length (datagram_bytes d))" using ok d by (intro datagramEnd_at) simp
  have next': "forEachDatagram (pre @ ?x) (length pre + length (datagram_bytes d)) = map as_read ds"
    using Cons.IH [of "pre @ datagram_bytes d"] Cons.prems by simp
  have "unat (num_at (pre @ ?x) (length pre + 4)) = length host" "subarray (pre @ ?x) (length pre + 5) (length pre + 5 + length host) = host"
    "256 * unat (num_at (pre @ ?x) (length pre + 5 + length host)) + unat (num_at (pre @ ?x) (length pre + 5 + length host + 1)) = port"
    "subarray (pre @ ?x) (length pre + 5 + length host + 4) (length pre + length (datagram_bytes d)) = b"
    using r num sub [of 5 "5 + length host"] sub [of "9 + length host" "length (datagram_bytes d)"] d by (simp_all add: ac_simps del: append_assoc)
  with u32 ending next' d datagram_nonempty [of d] show ?case by (subst forEachDatagram.simps) (simp add: Let_def as_read_def)
qed


text \<open>The batch the platform is given while \<open>kept\<close> has been picked from the bytes before \<open>pre\<close>'s end.\<close>

definition picked :: "bytes list option \<Rightarrow> bytes \<Rightarrow> bytes" where
  "picked kept whole = (case kept of None \<Rightarrow> whole | Some k \<Rightarrow> concatBytes k)"

lemma udp_filter_batch:
  "\<forall>d \<in> set ds. datagram_ok d \<Longrightarrow> \<exists>kept'. udp_filter sockets (pre @ batch_bytes ds) (length pre) kept = Inr kept' \<and>
     picked kept' (pre @ batch_bytes ds) = picked kept pre @ batch_bytes (filter (\<lambda>d. fst d \<in> set sockets) ds)"
proof (induction ds arbitrary: pre kept)
  case Nil
  show ?case by (subst udp_filter.simps) (simp add: picked_def)
next
  case (Cons d ds)
  let ?x = "datagram_bytes d @ batch_bytes ds" and ?n = "length pre + length (datagram_bytes d)"
  have ok: "datagram_ok d" using Cons.prems by simp
  let ?kept = "if fst d \<in> set sockets then map_option (\<lambda>k. k @ [datagram_bytes d]) kept else Some (case kept of None \<Rightarrow> [pre] | Some k \<Rightarrow> k)"
  have "subarray (pre @ ?x) (length pre) ?n = datagram_bytes d" "subarray (pre @ ?x) 0 (length pre) = pre" by (simp_all add: subarray_def)
  then have step: "udp_filter sockets (pre @ ?x) (length pre) kept = udp_filter sockets (pre @ ?x) ?n ?kept"
    using datagramEnd_at [OF ok, of pre "batch_bytes ds"] readU32BE_datagram [OF ok, of pre "batch_bytes ds"] datagram_nonempty [of d]
    by (subst udp_filter.simps, cases kept) simp_all
  from Cons.IH [of "pre @ datagram_bytes d" ?kept] Cons.prems obtain kept' where k: "udp_filter sockets (pre @ ?x) ?n ?kept = Inr kept'"
    "picked kept' (pre @ ?x) = picked ?kept (pre @ datagram_bytes d) @ batch_bytes (filter (\<lambda>d. fst d \<in> set sockets) ds)" by auto
  have "picked ?kept (pre @ datagram_bytes d) = picked kept pre @ (if fst d \<in> set sockets then datagram_bytes d else [])"
    by (auto simp: picked_def concatBytes_def split: option.split)
  with k step show ?case by auto
qed

lemma udp_filter_parses:
  "udp_filter sockets batch at' kept = Inr kept' \<Longrightarrow> at' \<le> length batch \<Longrightarrow> \<exists>ds. (\<forall>d \<in> set ds. datagram_ok d) \<and> drop at' batch = batch_bytes ds"
proof (induction sockets batch at' kept rule: udp_filter.induct)
  case (1 sockets batch at' kept)
  show ?case
  proof (cases "at' < length batch")
    case True
    with 1(2) obtain end' where e: "datagramEnd batch at' = Some end'" "end' \<le> length batch"
      by (subst (asm) udp_filter.simps) (auto split: option.splits if_splits)
    let ?kept = "if readU32BE batch at' \<in> set sockets then map_option (\<lambda>k. k @ [subarray batch at' end']) kept
      else Some (case kept of None \<Rightarrow> [subarray batch 0 at'] | Some k \<Rightarrow> k)"
    have "udp_filter sockets batch end' ?kept = Inr kept'" using 1(2) True e by (subst (asm) udp_filter.simps) simp
    with 1(1) [OF _ e(1)] True e(2) obtain ds where ds: "\<forall>d \<in> set ds. datagram_ok d" "drop end' batch = batch_bytes ds" by auto
    let ?x = "drop at' batch"
    have "datagramEnd ?x 0 = Some (end' - at')" "at' < end'"
      using datagramEnd_shift [of "take at' batch" ?x] e(1) True by (auto simp: datagramEnd_def Let_def split: if_splits)
    moreover from this obtain d where "datagram_ok d" "take (end' - at') ?x = datagram_bytes d"
      using datagram_there [of ?x "end' - at'"] e(2) by (auto simp: diff_le_mono)
    moreover have "?x = take (end' - at') ?x @ drop end' batch" using append_take_drop_id [of "end' - at'" ?x] \<open>at' < end'\<close> by simp
    ultimately have "?x = batch_bytes (d # ds)" "\<forall>d \<in> set (d # ds). datagram_ok d" using ds by simp_all
    then show ?thesis by blast
  qed (use 1(3) in \<open>intro exI [of _ "[]"], simp\<close>)
qed

text \<open>C28: What \<open>link/udpSend\<close> gives the platform is, of a batch of well-formed datagrams, the datagrams whose socket the occupant holds, whole and
  in order, and the platform reads each of a batch back as it was sent; any other batch is refused and nothing of it is sent.\<close>

theorem udpSend_exact:
  assumes "th_bound s"
  shows "(\<forall>ds. (\<forall>d \<in> set ds. datagram_ok d) \<longrightarrow>
      net_udpSend True (batch_bytes ds) s = (Inr (), effect (UdpSent (batch_bytes (filter (\<lambda>d. fst d \<in> set (th_sockets s)) ds))) s) \<and>
      forEachDatagram (batch_bytes ds) 0 = map as_read ds) \<and>
    (\<forall>batch. (\<forall>ds. (\<forall>d \<in> set ds. datagram_ok d) \<longrightarrow> batch \<noteq> batch_bytes ds) \<longrightarrow> net_udpSend True batch s = (Inl (), s))"
proof (intro conjI allI impI)
  fix ds assume ok: "\<forall>d \<in> set ds. datagram_ok d"
  show "net_udpSend True (batch_bytes ds) s = (Inr (), effect (UdpSent (batch_bytes (filter (\<lambda>d. fst d \<in> set (th_sockets s)) ds))) s)"
    using udp_filter_batch [OF ok, of "th_sockets s" "[]" None] assms by (auto simp: net_udpSend_def picked_def)
  show "forEachDatagram (batch_bytes ds) 0 = map as_read ds" using forEachDatagram_batch [OF ok, of "[]"] by simp
next
  fix batch assume none: "\<forall>ds. (\<forall>d \<in> set ds. datagram_ok d) \<longrightarrow> batch \<noteq> batch_bytes ds"
  have "udp_filter (th_sockets s) batch 0 None \<noteq> Inr kept" for kept using udp_filter_parses [of "th_sockets s" batch 0 None kept] none by auto
  then have "udp_filter (th_sockets s) batch 0 None = Inl ()" by (cases "udp_filter (th_sockets s) batch 0 None") auto
  with assms show "net_udpSend True batch s = (Inl (), s)" by (simp add: net_udpSend_def)
qed

theorem udpSend_exact_witness:
  "net_udpSend True (batch_bytes [(7, [97], 80, [1, 2]), (8, [97], 80, [3])]) demo_udp = (Inr (), effect (UdpSent (batch_bytes [(7, [97], 80, [1, 2])])) demo_udp)"
proof -
  have d: "th_bound demo_udp" "th_sockets demo_udp = [7]"
    by (simp_all add: demo_udp_def demo_host_value bind_start_def bind_done_def heard_def pumpReads_def effect_def TransportHost_new_def
        MAX_UDP_SOCKETS_def MAX_UDP_HELD_BYTES_def MAX_LINK_READ_BYTES_def Let_def)
  have "\<forall>d \<in> set [(7, [97], 80, [1, 2]), (8, [97], 80, [3])]. datagram_ok d" by (simp add: datagram_ok_def)
  with udpSend_exact [OF d(1)] have "net_udpSend True (batch_bytes [(7, [97], 80, [1, 2]), (8, [97], 80, [3])]) demo_udp =
      (Inr (), effect (UdpSent (batch_bytes (filter (\<lambda>d. fst d \<in> set (th_sockets demo_udp)) [(7, [97], 80, [1, 2]), (8, [97], 80, [3])]))) demo_udp)" by blast
  then show ?thesis using d(2) by simp
qed

end
