(* ===== verification/Ake.thy ===== *)
theory Ake
  imports Framing Complex_Main
begin

text \<open>
  \<^verbatim>\<open>WASM/transport/src/ake.js\<close>: one link of the transport guest, its concealed-identity handshake and its record layer. A
  host call is the argument \<open>h\<close>: the answer to a name and its bytes, \<open>None\<close> for a rejection, which the caller throws on; entropy,
  the clock and what the channel, the limiter and the routing core answer are in \<open>Turn\<close>, one per step. The link's work chain is
  \<open>lk_work\<close>: a step of it runs to its end, and what arrives meanwhile runs after it. What the link hands to the wire, the routing
  core and the limiter is appended to \<open>lk_out\<close>. Wiping a dropped key's memory is not represented.
\<close>

section \<open>Constants\<close>

definition N_SIGN :: jstr where "N_SIGN = js ''node/sign''"
definition N_VERIFY :: jstr where "N_VERIFY = js ''node/verify''"
definition N_MLKEM :: jstr where "N_MLKEM = js ''mlkem''"
definition N_LINK_OPEN :: jstr where "N_LINK_OPEN = js ''link/open''"
definition P_HASH :: jstr where "P_HASH = js ''crypto/blake2b''"
definition P_SEAL :: jstr where "P_SEAL = js ''crypto/chacha20poly1305-ietf/seal''"
definition P_OPEN :: jstr where "P_OPEN = js ''crypto/chacha20poly1305-ietf/open''"
definition P_DH :: jstr where "P_DH = js ''crypto/x25519/dh''"

definition X25519_BASEPOINT :: bytes where
  "X25519_BASEPOINT = 9 # replicate 31 0"

datatype reason = REASON_NONE | REASON_HANDSHAKE | REASON_CLEAN | REASON_ABORTED | REASON_LOCAL | REASON_TRUNCATED
  | REASON_REFUSED | REASON_TIMEOUT | REASON_DROPPED

definition ROUTINE_REASONS :: "reason list" where
  "ROUTINE_REASONS = [REASON_NONE, REASON_CLEAN, REASON_LOCAL]"

definition SUITE_CHANNEL_CONCEALED :: byte where "SUITE_CHANNEL_CONCEALED = 3"
definition SUITE_LEN :: nat where "SUITE_LEN = 1"
definition PK_LEN :: nat where "PK_LEN = 32"
definition EPH_LEN :: nat where "EPH_LEN = 32"
definition SIG_LEN :: nat where "SIG_LEN = 64"
definition NPUB_LEN :: nat where "NPUB_LEN = 12"
definition TAG_LEN :: nat where "TAG_LEN = 16"
definition KEM_PK_LEN :: nat where "KEM_PK_LEN = 1184"
definition KEM_SK_LEN :: nat where "KEM_SK_LEN = 2400"
definition KEM_CT_LEN :: nat where "KEM_CT_LEN = 1088"
definition KEM_SS_LEN :: nat where "KEM_SS_LEN = 32"
definition M1_LEN :: nat where "M1_LEN = SUITE_LEN + EPH_LEN + KEM_PK_LEN + TAG_LEN"
definition M2_LEN :: nat where "M2_LEN = EPH_LEN + KEM_CT_LEN + SIG_LEN + TAG_LEN"
definition M3_LEN :: nat where "M3_LEN = PK_LEN + SIG_LEN + TAG_LEN"

definition SUITE_BYTE :: bytes where "SUITE_BYTE = [SUITE_CHANNEL_CONCEALED]"
definition ZERO_NPUB :: bytes where "ZERO_NPUB = replicate NPUB_LEN 0"

text \<open>A label's text with its trailing NUL.\<close>

definition label :: "string \<Rightarrow> bytes" where
  "label s = utf8Encode (js s @ [0])"

definition LABEL_REKEY :: bytes where "LABEL_REKEY = label ''seedkernel-session-rekey-v1''"
definition LABEL_PROBE :: bytes where "LABEL_PROBE = label ''seedkernel-c-probe-v1''"
definition LABEL_M2 :: bytes where "LABEL_M2 = label ''seedkernel-c-msg2-v1''"
definition LABEL_M3 :: bytes where "LABEL_M3 = label ''seedkernel-c-msg3-v1''"
definition LABEL_I2R :: bytes where "LABEL_I2R = label ''seedkernel-session-i->r-v1''"
definition LABEL_R2I :: bytes where "LABEL_R2I = label ''seedkernel-session-r->i-v1''"
definition DOMAIN_CHANNEL :: bytes where "DOMAIN_CHANNEL = label ''seedkernel-channel-id-v1''"
definition DOMAIN_CONTACT :: bytes where "DOMAIN_CONTACT = label ''seedkernel-contact-secret-v1''"

definition REJECT_AFTER_EPOCHS :: nat where "REJECT_AFTER_EPOCHS = 65536"
definition MAX_QUEUE_BYTES :: nat where "MAX_QUEUE_BYTES = 1024 * 1024"
definition MAX_SEEN_PROBES :: nat where "MAX_SEEN_PROBES = 4096"

section \<open>The seam helpers\<close>

type_synonym seam = "jstr \<Rightarrow> bytes \<Rightarrow> bytes option"

definition HASH_256 :: bytes where "HASH_256 = [32, 0]"

definition hash :: "seam \<Rightarrow> bytes list \<Rightarrow> bytes option" where
  "hash h ps = h P_HASH (guest_concatBytes (HASH_256 # ps))"

definition verify :: "seam \<Rightarrow> bytes \<Rightarrow> bytes \<Rightarrow> bytes \<Rightarrow> bool option" where
  "verify h pk sig msg = map_option (\<lambda>r. elem_at r 0 = Some 1) (h N_VERIFY (guest_concatBytes [pk, sig, msg]))"

definition aeadArgs :: "bytes \<Rightarrow> bytes \<Rightarrow> bytes \<Rightarrow> bytes" where
  "aeadArgs key npub msg =
     (let at' = length npub + length key + 4; out = replicate (at' + length msg) 0
      in set_bytes (set_bytes (set_bytes out 0 npub) (length npub) key) at' msg)"

definition aeadEnc :: "seam \<Rightarrow> bytes \<Rightarrow> bytes \<Rightarrow> bytes \<Rightarrow> bytes option" where
  "aeadEnc h key npub msg = h P_SEAL (aeadArgs key npub msg)"

text \<open>An answer \<open>Some None\<close> is the source's \<open>{ok: false}\<close>.\<close>

definition aeadDec :: "seam \<Rightarrow> bytes \<Rightarrow> bytes \<Rightarrow> bytes \<Rightarrow> bytes option option" where
  "aeadDec h key npub ct = map_option (\<lambda>r. if elem_at r 0 = Some 1 then Some (drop 1 r) else None) (h P_OPEN (aeadArgs key npub ct))"

definition scalarmult :: "seam \<Rightarrow> bytes \<Rightarrow> bytes \<Rightarrow> bytes option option" where
  "scalarmult h sk pk =
     map_option (\<lambda>r. if elem_at r 0 = Some 1 then Some (drop 1 r) else None) (h P_DH (set_bytes (set_bytes (replicate 64 0) 0 sk) 32 pk))"

definition boxKeypair :: "seam \<Rightarrow> bytes \<Rightarrow> (bytes \<times> bytes) option" where
  "boxKeypair h sk = (case scalarmult h sk X25519_BASEPOINT of Some (Some x) \<Rightarrow> Some (x, sk) | _ \<Rightarrow> None)"

definition kemCall :: "seam \<Rightarrow> byte \<Rightarrow> bytes list \<Rightarrow> (bytes \<Rightarrow> 'a option) \<Rightarrow> 'a option" where
  "kemCall h op ps take' = Option.bind (h N_MLKEM (guest_concatBytes ([op] # ps))) take'"

definition kemKeypair :: "seam \<Rightarrow> bytes \<Rightarrow> (bytes \<times> bytes) option" where
  "kemKeypair h seed = kemCall h 0 [seed]
     (\<lambda>r. if length r \<noteq> KEM_PK_LEN + KEM_SK_LEN then None else Some (take KEM_PK_LEN r, drop KEM_PK_LEN r))"

definition kemEncaps :: "seam \<Rightarrow> bytes \<Rightarrow> bytes \<Rightarrow> (bytes \<times> bytes) option option" where
  "kemEncaps h pk coins = kemCall h 1 [pk, coins]
     (\<lambda>r. Some (if length r = 1 + KEM_CT_LEN + KEM_SS_LEN \<and> elem_at r 0 = Some 1
        then Some (subarray r 1 (1 + KEM_CT_LEN), drop (1 + KEM_CT_LEN) r) else None))"

definition kemDecaps :: "seam \<Rightarrow> bytes \<Rightarrow> bytes \<Rightarrow> bytes option option" where
  "kemDecaps h sk ct = kemCall h 2 [sk, ct]
     (\<lambda>r. Some (if length r = 1 + KEM_SS_LEN \<and> elem_at r 0 = Some 1 then Some (drop 1 r) else None))"

text \<open>\<open>rootKey\<close> and \<open>keySecret\<close> keep their answer; here it is the same each time it is asked.\<close>

definition rootKey :: "seam \<Rightarrow> bytes \<Rightarrow> bytes option" where
  "rootKey h key = hash h [DOMAIN_CHANNEL, key]"

definition keySecret :: "seam \<Rightarrow> bytes option" where
  "keySecret h = Option.bind (h N_SIGN DOMAIN_CONTACT) (\<lambda>sig. hash h [DOMAIN_CONTACT, sig])"

definition channelIdentityMessage :: "bytes \<Rightarrow> bytes \<Rightarrow> bytes \<Rightarrow> bytes" where
  "channelIdentityMessage rt th i = guest_concatBytes [DOMAIN_CHANNEL, rt, th, i]"

definition netLinkOpen :: "seam \<Rightarrow> jstr \<Rightarrow> (nat \<times> bool) option" where
  "netLinkOpen h dest = map_option (\<lambda>r. (readU32BE r 0, elem_at r 4 = Some 1)) (h N_LINK_OPEN (utf8Encode dest))"

definition netLinkSend_args :: "nat \<Rightarrow> bytes \<Rightarrow> bytes" where
  "netLinkSend_args linkId b = args [linkId] [] (Some b)"

definition netLinkClose_args :: "nat \<Rightarrow> bool \<Rightarrow> bytes" where
  "netLinkClose_args linkId graceful = args [linkId] [if graceful then 1 else 0] None"

definition netLinkDeliver_args :: "bytes \<Rightarrow> bytes \<Rightarrow> bytes \<Rightarrow> bytes" where
  "netLinkDeliver_args claim attribution payload = guest_concatBytes [[of_nat (length claim)], claim, attribution, payload]"

text \<open>The proved probes, oldest first.\<close>

definition probeSeen :: "bytes \<Rightarrow> jstr list \<Rightarrow> bool" where
  "probeSeen ephI seen \<longleftrightarrow> guest_toHex ephI \<in> set seen"

definition rememberProbe :: "bytes \<Rightarrow> jstr list \<Rightarrow> jstr list" where
  "rememberProbe ephI seen =
     (let seen = (if length seen \<ge> MAX_SEEN_PROBES then tl seen else seen); x = guest_toHex ephI
      in if x \<in> set seen then seen else seen @ [x])"

section \<open>The link\<close>

record Conf =
  cf_ownPk :: bytes
  cf_admitPeers :: "jstr list option"
  cf_maxFrameBytes :: nat
  cf_maxPreAuthQueueSlices :: nat
  cf_handshakeTimeoutMs :: rat
  cf_unverifiedTimeoutMs :: rat

definition maxOutboundQueueBytes :: "Conf \<Rightarrow> nat" where
  "maxOutboundQueueBytes cf = 8 * cf_maxFrameBytes cf"

definition maxOutboundQueueSlices :: nat where
  "maxOutboundQueueSlices = 4096"

definition admits :: "Conf \<Rightarrow> bytes \<Rightarrow> bool" where
  "admits cf peer = (case cf_admitPeers cf of None \<Rightarrow> True | Some ps \<Rightarrow> guest_toHex peer \<in> set ps)"

datatype work = Boot | Message bytes | Record bytes | Ending

datatype out =
    Wire bytes
  | ShutChannel bool
  | Arm rat
  | OnAuth jstr
  | OnFrame jstr bytes bytes
  | OnClose
  | SlotPromote
  | SlotHold
  | SlotTouch
  | SlotRelease
  | FramerAbort
  | FramerDiscard
  | FramerRaiseCap
  | FramerGoodbye

text \<open>\<open>lk_framed\<close> is whether the link has a framer of its own; \<open>lk_slot\<close> whether it holds a slot of the limiter.\<close>

record Link =
  lk_weDialed :: bool
  lk_framed :: bool
  lk_dialedPeerId :: jstr
  lk_acceptPeerId :: jstr
  lk_contactSecret :: "bytes option"
  lk_networkKey :: bytes
  lk_lint :: bool
  lk_idleMs :: rat
  lk_rekeyAfterFrames :: nat
  lk_root :: "bytes option"
  lk_peerPubkey :: "bytes option"
  lk_peerId :: jstr
  lk_authed :: bool
  lk_peerSaidGoodbye :: bool
  lk_myEph :: "(bytes \<times> bytes) option"
  lk_myKem :: "(bytes \<times> bytes) option"
  lk_kemSecret :: "bytes option"
  lk_queue :: "bytes list"
  lk_queuedBytes :: int
  lk_outboundQueuedBytes :: int
  lk_outboundQueuedSlices :: int
  lk_peerEph :: "bytes option"
  lk_closed :: bool
  lk_parting :: bool
  lk_stalled :: bool
  lk_closedLocally :: bool
  lk_aborted :: bool
  lk_timedOut :: bool
  lk_slot :: bool
  lk_due :: "rat option"
  lk_lastSeen :: rat
  lk_sendKey :: "bytes option"
  lk_recvKey :: "bytes option"
  lk_sendEpoch :: nat
  lk_sendCtr :: nat
  lk_recvEpoch :: nat
  lk_recvCtr :: nat
  lk_th :: "bytes option"
  lk_ee :: "bytes option"
  lk_work :: "work list"
  lk_out :: "out list"

text \<open>One step's surroundings: the clock, the bytes of its random draws, whether the channel takes a message, what the limiter
  answers, the secrets of an accept (\<open>None\<close> when asking failed), whether the tie-break ends the link as it
  authenticates, and whether the codec's own goodbye went out (\<open>None\<close> for a codec that has none).\<close>

record Turn =
  tn_now :: rat
  tn_eph :: bytes
  tn_kem :: bytes
  tn_coins :: bytes
  tn_wired :: "bytes \<Rightarrow> bool"
  tn_promote :: bool
  tn_hold :: bool
  tn_secrets :: "bytes list option"
  tn_loses :: bool
  tn_goodbye :: "bool option"

text \<open>What a \<open>new Link\<close> is given.\<close>

record LinkSpec =
  sp_weDialed :: bool
  sp_framed :: bool
  sp_dialedPeerId :: jstr
  sp_acceptPeerId :: jstr
  sp_linkSecret :: "bytes option"
  sp_networkKey :: bytes
  sp_lint :: bool
  sp_idleMs :: rat
  sp_rekeyAfterFrames :: nat

definition emit :: "out \<Rightarrow> Link \<Rightarrow> Link" where
  "emit x s = s\<lparr>lk_out := lk_out s @ [x]\<rparr>"

definition enqueue :: "work \<Rightarrow> Link \<Rightarrow> Link" where
  "enqueue w s = s\<lparr>lk_work := lk_work s @ [w]\<rparr>"

text \<open>A value the step needs, thrown on when it is missing: a step answers whether it ran to its end.\<close>

definition need :: "'a option \<Rightarrow> 's \<Rightarrow> ('a \<Rightarrow> bool \<times> 's) \<Rightarrow> bool \<times> 's" where
  "need r s k = (case r of None \<Rightarrow> (False, s) | Some x \<Rightarrow> k x)"

definition dueIn :: "Turn \<Rightarrow> rat \<Rightarrow> Link \<Rightarrow> rat \<times> Link" where
  "dueIn t ms s = (tn_now t + ms, emit (Arm (tn_now t + ms)) s)"

definition armDeadline :: "Turn \<Rightarrow> rat \<Rightarrow> Link \<Rightarrow> Link" where
  "armDeadline t ms s = (if ms > 0 then let (at', s) = dueIn t ms s in s\<lparr>lk_due := Some at'\<rparr> else s\<lparr>lk_due := None\<rparr>)"

definition armIdle :: "Turn \<Rightarrow> Link \<Rightarrow> Link" where
  "armIdle t s =
     (let s = s\<lparr>lk_lastSeen := tn_now t\<rparr>
      in if lk_idleMs s > 0 then let (at', s) = dueIn t (lk_idleMs s) s in s\<lparr>lk_due := Some at'\<rparr> else s\<lparr>lk_due := None\<rparr>)"

definition markTraffic :: "Turn \<Rightarrow> Link \<Rightarrow> Link" where
  "markTraffic t s = (let s = s\<lparr>lk_lastSeen := tn_now t\<rparr> in if lk_slot s then emit SlotTouch s else s)"

section \<open>Ending\<close>

definition severWire :: "Link \<Rightarrow> Link" where
  "severWire s = (if lk_framed s then emit FramerAbort s else s)"

definition clearEphemeral :: "Link \<Rightarrow> Link" where
  "clearEphemeral s = s\<lparr>lk_myEph := None, lk_myKem := None, lk_ee := None, lk_kemSecret := None\<rparr>"

definition releaseSlot :: "Link \<Rightarrow> Link" where
  "releaseSlot s = (if lk_slot s then emit SlotRelease (s\<lparr>lk_slot := False\<rparr>) else s)"

definition teardown :: "Link \<Rightarrow> Link" where
  "teardown s =
     (let s = severWire s; s = s\<lparr>lk_due := None\<rparr>; s = releaseSlot s; s = s\<lparr>lk_sendKey := None, lk_recvKey := None\<rparr> in clearEphemeral s)"

definition end_link :: "bool \<Rightarrow> bool \<Rightarrow> Link \<Rightarrow> Link" where
  "end_link farewell defensive s =
     (if lk_closed s then (if \<not> farewell then s\<lparr>lk_parting := False\<rparr> else s)
      else let s = s\<lparr>lk_closed := True,
                     lk_parting := farewell \<and> \<not> lk_peerSaidGoodbye s \<and> lk_sendEpoch s < REJECT_AFTER_EPOCHS,
                     lk_closedLocally := True, lk_aborted := lk_aborted s \<or> defensive\<rparr>
           in emit OnClose (enqueue Ending (severWire s)))"

definition close_link :: "Link \<Rightarrow> Link" where
  "close_link s = end_link True False s"

definition abort :: "bool \<Rightarrow> Link \<Rightarrow> Link" where
  "abort defensive s = end_link False defensive s"

definition closeReason :: "Link \<Rightarrow> reason" where
  "closeReason s =
     (if \<not> lk_closed s then REASON_NONE
      else if \<not> lk_authed s
      then (if lk_aborted s then REASON_REFUSED else if lk_timedOut s then REASON_TIMEOUT
            else if \<not> lk_closedLocally s then REASON_DROPPED else REASON_HANDSHAKE)
      else if lk_peerSaidGoodbye s then REASON_CLEAN
      else if lk_aborted s then REASON_ABORTED
      else if lk_closedLocally s then REASON_LOCAL
      else REASON_TRUNCATED)"

definition stall :: "Link \<Rightarrow> Link" where
  "stall s =
     (if lk_stalled s then s
      else let s = s\<lparr>lk_stalled := True, lk_aborted := True\<rparr>; s = (if lk_framed s then emit FramerDiscard s else s) in clearEphemeral s)"

definition refuse :: "Link \<Rightarrow> Link" where
  "refuse s = (if lk_authed s then abort True s else stall s)"

definition onChannelClosed :: "Link \<Rightarrow> Link" where
  "onChannelClosed s = (if lk_closed s then s else emit OnClose (teardown (s\<lparr>lk_closed := True\<rparr>)))"

definition onWake :: "rat \<Rightarrow> Link \<Rightarrow> rat option \<times> Link" where
  "onWake t s =
     (if (case lk_due s of None \<Rightarrow> True | Some d \<Rightarrow> t < d) then (lk_due s, s)
      else let s = s\<lparr>lk_due := None\<rparr> in
           if lk_closed s then (None, s)
           else let s = (if \<not> lk_authed s then abort False (s\<lparr>lk_timedOut := True\<rparr>)
                         else if lk_idleMs s \<le> 0 then s
                         else if t - lk_lastSeen s < lk_idleMs s then s\<lparr>lk_due := Some (lk_lastSeen s + lk_idleMs s)\<rparr>
                         else close_link s)
                in (lk_due s, s))"

section \<open>Records\<close>

definition nonce :: "nat \<Rightarrow> nat \<Rightarrow> bytes" where
  "nonce epoch ctr = guest_writeU32BE (guest_writeU32BE (replicate NPUB_LEN 0) 0 epoch) 8 ctr"

definition ratchet :: "seam \<Rightarrow> bytes \<Rightarrow> bytes option" where
  "ratchet h k = hash h [k, LABEL_REKEY]"

definition wire :: "Turn \<Rightarrow> bytes \<Rightarrow> Link \<Rightarrow> bool \<times> Link" where
  "wire t msg s = (if tn_wired t msg then (True, emit (Wire msg) s) else (False, s))"

definition seal :: "seam \<Rightarrow> bytes \<Rightarrow> Link \<Rightarrow> bytes option \<times> Link" where
  "seal h frame s =
     (case Option.bind (lk_sendKey s) (\<lambda>k. map_option (Pair k) (aeadEnc h k (nonce (lk_sendEpoch s) (lk_sendCtr s)) frame)) of
        None \<Rightarrow> (None, s)
      | Some (k, ct) \<Rightarrow>
          let s = s\<lparr>lk_sendCtr := lk_sendCtr s + 1\<rparr> in
          if lk_sendCtr s \<ge> lk_rekeyAfterFrames s
          then (case ratchet h k of
                  None \<Rightarrow> (None, s)
                | Some k' \<Rightarrow> (Some ct, s\<lparr>lk_sendKey := Some k', lk_sendEpoch := lk_sendEpoch s + 1, lk_sendCtr := 0\<rparr>))
          else (Some ct, s))"

definition seal_wire :: "seam \<Rightarrow> Turn \<Rightarrow> bytes \<Rightarrow> Link \<Rightarrow> bool \<times> Link" where
  "seal_wire h t frame s = (case seal h frame s of (None, s) \<Rightarrow> (False, s) | (Some ct, s) \<Rightarrow> wire t ct s)"

definition wireRecord :: "seam \<Rightarrow> Turn \<Rightarrow> bytes \<Rightarrow> Link \<Rightarrow> Link" where
  "wireRecord h t frame s = (case seal_wire h t frame s of (True, s) \<Rightarrow> s | (False, s) \<Rightarrow> abort False s)"

text \<open>Drop-oldest past either bound, keeping the newest.\<close>

fun drop_oldest :: "nat \<Rightarrow> int \<Rightarrow> bytes list \<Rightarrow> int \<times> bytes list" where
  "drop_oldest m n (f # g # q) =
     (if n > int MAX_QUEUE_BYTES \<or> length (f # g # q) > m then drop_oldest m (n - int (length f)) (g # q) else (n, f # g # q))"
| "drop_oldest m n q = (n, q)"

definition send :: "Conf \<Rightarrow> Turn \<Rightarrow> bytes \<Rightarrow> Link \<Rightarrow> Link" where
  "send cf t frame s =
     (if lk_closed s then s
      else if int (length frame) > int (cf_maxFrameBytes cf) - int TAG_LEN then s
      else if frame = [] then s
      else if lk_authed s
      then (if lk_sendEpoch s \<ge> REJECT_AFTER_EPOCHS then close_link s
            else if lk_outboundQueuedSlices s \<ge> int maxOutboundQueueSlices \<or>
                    int (length frame) > int (maxOutboundQueueBytes cf) - lk_outboundQueuedBytes s
            then abort False s
            else let s = markTraffic t s;
                     s = s\<lparr>lk_outboundQueuedSlices := lk_outboundQueuedSlices s + 1,
                           lk_outboundQueuedBytes := lk_outboundQueuedBytes s + int (length frame)\<rparr>
                 in enqueue (Record frame) s)
      else let (n, q) = drop_oldest (cf_maxPreAuthQueueSlices cf) (lk_queuedBytes s + int (length frame)) (lk_queue s @ [frame])
           in s\<lparr>lk_queue := q, lk_queuedBytes := n\<rparr>)"

definition takeQueued :: "Link \<Rightarrow> bytes list \<times> Link" where
  "takeQueued s = (lk_queue s, s\<lparr>lk_queuedBytes := 0, lk_queue := []\<rparr>)"

definition record_turn :: "seam \<Rightarrow> Turn \<Rightarrow> bytes \<Rightarrow> Link \<Rightarrow> Link" where
  "record_turn h t frame s =
     (let s = (if lk_closed s \<and> \<not> lk_parting s then s else wireRecord h t frame s)
      in s\<lparr>lk_outboundQueuedSlices := lk_outboundQueuedSlices s - 1, lk_outboundQueuedBytes := lk_outboundQueuedBytes s - int (length frame)\<rparr>)"

text \<open>The step \<open>end\<close> puts behind the work before it.\<close>

definition ending_turn :: "seam \<Rightarrow> Turn \<Rightarrow> Link \<Rightarrow> Link" where
  "ending_turn h t s =
     (let (said, s) =
        (if lk_parting s \<and> lk_authed s \<and> lk_sendKey s \<noteq> None \<and> lk_sendEpoch s < REJECT_AFTER_EPOCHS
         then (case seal_wire h t [] s of
                 (False, s) \<Rightarrow> (False, s)
               | (True, s) \<Rightarrow>
                   (case tn_goodbye t of
                      Some ok \<Rightarrow> if \<not> lk_framed s then (True, s) else if ok then (True, emit FramerGoodbye s) else (False, s)
                    | None \<Rightarrow> (True, s)))
         else (False, s))
      in emit (ShutChannel said) (teardown s))"

section \<open>The handshake\<close>

definition andthen :: "bool \<times> 's \<Rightarrow> ('s \<Rightarrow> bool \<times> 's) \<Rightarrow> bool \<times> 's" where
  "andthen r k = (case r of (False, s) \<Rightarrow> (False, s) | (True, s) \<Rightarrow> k s)"

definition kdf :: "seam \<Rightarrow> bytes list \<Rightarrow> bytes \<Rightarrow> bytes \<Rightarrow> Link \<Rightarrow> bytes option" where
  "kdf h ikm ctx lbl s = Option.bind (lk_contactSecret s) (\<lambda>secret. hash h (ikm @ [secret, ctx, lbl]))"

text \<open>\<open>this.kdf([this.ee, this.kemSecret], ...)\<close>.\<close>

definition kdf_shared :: "seam \<Rightarrow> bytes \<Rightarrow> bytes \<Rightarrow> Link \<Rightarrow> bytes option" where
  "kdf_shared h ctx lbl s = Option.bind (lk_ee s) (\<lambda>ee. Option.bind (lk_kemSecret s) (\<lambda>kem. kdf h [ee, kem] ctx lbl s))"

definition sealZero :: "seam \<Rightarrow> bytes \<Rightarrow> bytes \<Rightarrow> bytes option" where
  "sealZero h key plain = aeadEnc h key ZERO_NPUB plain"

definition openZero :: "seam \<Rightarrow> bytes \<Rightarrow> bytes \<Rightarrow> bytes option option" where
  "openZero h key ct = aeadDec h key ZERO_NPUB ct"

definition rooted :: "seam \<Rightarrow> bytes list \<Rightarrow> Link \<Rightarrow> bytes option" where
  "rooted h ps s = Option.bind (lk_root s) (\<lambda>rt. hash h (rt # ps))"

definition probeContext :: "seam \<Rightarrow> bytes \<Rightarrow> bytes \<Rightarrow> bytes \<Rightarrow> Link \<Rightarrow> bytes option" where
  "probeContext h suite ephI kemPkI s = rooted h [suite, ephI, kemPkI] s"

definition probeKey :: "seam \<Rightarrow> bytes \<Rightarrow> Link \<Rightarrow> bytes option" where
  "probeKey h ctx s = kdf h [] ctx LABEL_PROBE s"

definition signTranscript :: "Conf \<Rightarrow> seam \<Rightarrow> bytes \<Rightarrow> Link \<Rightarrow> bytes option \<times> Link" where
  "signTranscript cf h th s =
     (case Option.bind (lk_root s) (\<lambda>rt. h N_SIGN (channelIdentityMessage rt th (cf_ownPk cf))) of
        Some sig \<Rightarrow> (Some sig, s)
      | None \<Rightarrow> (None, abort False s))"

definition openIdentity :: "Conf \<Rightarrow> seam \<Rightarrow> bytes \<Rightarrow> bytes \<Rightarrow> bytes \<Rightarrow> Link \<Rightarrow> bytes option option" where
  "openIdentity cf h key ct th s =
     Option.bind (openZero h key ct) (\<lambda>r. case r of
        None \<Rightarrow> Some None
      | Some plain \<Rightarrow>
          (let i = take PK_LEN plain; sig = subarray plain PK_LEN (PK_LEN + SIG_LEN) in
           Option.bind (lk_root s) (\<lambda>rt.
             map_option (\<lambda>ok. if \<not> ok then None else if bytesCompare i (cf_ownPk cf) = 0 then None else Some i)
               (verify h i sig (channelIdentityMessage rt th i)))))"

definition ensureKeys :: "seam \<Rightarrow> Turn \<Rightarrow> Link \<Rightarrow> bool \<times> Link" where
  "ensureKeys h t s =
     andthen (if lk_myEph s = None then need (boxKeypair h (tn_eph t)) s (\<lambda>k. (True, s\<lparr>lk_myEph := Some k\<rparr>)) else (True, s))
       (\<lambda>s. if lk_weDialed s \<and> lk_myKem s = None then need (kemKeypair h (tn_kem t)) s (\<lambda>k. (True, s\<lparr>lk_myKem := Some k\<rparr>)) else (True, s))"

definition sendMsg1 :: "seam \<Rightarrow> Turn \<Rightarrow> Link \<Rightarrow> bool \<times> Link" where
  "sendMsg1 h t s =
     need (lk_myEph s) s (\<lambda>(ephPk, _). need (lk_myKem s) s (\<lambda>(kemPk, _).
       let eph = take EPH_LEN ephPk in
       need (probeContext h SUITE_BYTE eph kemPk s) s (\<lambda>ctx. need (probeKey h ctx s) s (\<lambda>k. need (sealZero h k []) s (\<lambda>ct.
       let w1 = guest_concatBytes [SUITE_BYTE, eph, kemPk, ct] in
       need (rooted h [w1] s) s (\<lambda>th. wire t w1 (s\<lparr>lk_th := Some th\<rparr>)))))))"

text \<open>The trial of each secret; the link keeps the last it tried.\<close>

fun try_secrets :: "seam \<Rightarrow> bytes \<Rightarrow> bytes \<Rightarrow> bytes list \<Rightarrow> Link \<Rightarrow> bool option \<times> Link" where
  "try_secrets h ctx ct [] s = (Some False, s)"
| "try_secrets h ctx ct (secret # rest) s =
     (let s = s\<lparr>lk_contactSecret := Some secret\<rparr> in
      case Option.bind (probeKey h ctx s) (\<lambda>k. openZero h k ct) of
        None \<Rightarrow> (None, s)
      | Some (Some _) \<Rightarrow> (Some True, s)
      | Some None \<Rightarrow> try_secrets h ctx ct rest s)"

text \<open>\<open>onMsg1\<close> once the probe is proved and remembered.\<close>

definition answerMsg1 :: "Conf \<Rightarrow> seam \<Rightarrow> Turn \<Rightarrow> bytes \<Rightarrow> bytes \<Rightarrow> bytes \<Rightarrow> Link \<Rightarrow> bool \<times> Link" where
  "answerMsg1 cf h t w1 ephI kemPkI s =
     andthen (ensureKeys h t (armDeadline t (cf_handshakeTimeoutMs cf) s)) (\<lambda>s.
     need (lk_myEph s) s (\<lambda>(ephPk, ephSk). need (scalarmult h ephSk ephI) s (\<lambda>dh.
     case dh of None \<Rightarrow> (True, stall s) | Some ee \<Rightarrow>
     let s = s\<lparr>lk_ee := Some ee\<rparr> in
     need (kemEncaps h kemPkI (tn_coins t)) s (\<lambda>kem.
     case kem of None \<Rightarrow> (True, stall s) | Some (ct, ss) \<Rightarrow>
     let s = s\<lparr>lk_kemSecret := Some ss, lk_peerEph := Some ephI\<rparr> in
     need (rooted h [w1] s) s (\<lambda>h1.
     let hd' = guest_concatBytes [take EPH_LEN ephPk, ct] in
     need (hash h [h1, hd']) s (\<lambda>hs.
     case signTranscript cf h hs s of (None, s) \<Rightarrow> (True, s) | (Some sig, s) \<Rightarrow>
     need (kdf_shared h hs LABEL_M2 s) s (\<lambda>k. need (sealZero h k sig) s (\<lambda>sealed.
     let w2 = guest_concatBytes [hd', sealed] in
     need (hash h [h1, w2]) s (\<lambda>th. wire t w2 (s\<lparr>lk_th := Some th\<rparr>))))))))))"

definition onMsg1 :: "Conf \<Rightarrow> seam \<Rightarrow> Turn \<Rightarrow> bytes \<Rightarrow> Link \<times> jstr list \<Rightarrow> bool \<times> Link \<times> jstr list" where
  "onMsg1 cf h t w1 = (\<lambda>(s, seen).
     if length w1 \<noteq> M1_LEN \<or> elem_at w1 0 \<noteq> Some SUITE_CHANNEL_CONCEALED then (True, stall s, seen)
     else let ephI = subarray w1 SUITE_LEN (SUITE_LEN + EPH_LEN);
              kemPkI = subarray w1 (SUITE_LEN + EPH_LEN) (SUITE_LEN + EPH_LEN + KEM_PK_LEN);
              ct = drop (SUITE_LEN + EPH_LEN + KEM_PK_LEN) w1 in
     case tn_secrets t of None \<Rightarrow> (True, stall s, seen) | Some secrets \<Rightarrow>
     need (probeContext h (take SUITE_LEN w1) ephI kemPkI s) (s, seen) (\<lambda>ctx.
     case try_secrets h ctx ct secrets s of
       (None, s) \<Rightarrow> (False, s, seen)
     | (Some False, s) \<Rightarrow> (True, stall s, seen)
     | (Some True, s) \<Rightarrow>
         if probeSeen ephI seen then (True, stall s, seen)
         else let s = (if lk_slot s then emit SlotPromote s else s) in
              if lk_slot s \<and> \<not> tn_promote t then (True, stall s, seen)
              else let (ok, s) = answerMsg1 cf h t w1 ephI kemPkI s in (ok, s, rememberProbe ephI seen)))"

definition deriveConcealedSession :: "seam \<Rightarrow> Link \<Rightarrow> bool \<times> Link" where
  "deriveConcealedSession h s =
     need (lk_th s) s (\<lambda>th.
     need (kdf_shared h th LABEL_I2R s) s (\<lambda>k1.
     let s = (if lk_weDialed s then s\<lparr>lk_sendKey := Some k1\<rparr> else s\<lparr>lk_recvKey := Some k1\<rparr>) in
     need (kdf_shared h th LABEL_R2I s) s (\<lambda>k2.
     let s = (if lk_weDialed s then s\<lparr>lk_recvKey := Some k2\<rparr> else s\<lparr>lk_sendKey := Some k2\<rparr>) in
     (True, clearEphemeral s))))"

definition becomeAuthed :: "seam \<Rightarrow> Turn \<Rightarrow> Link \<Rightarrow> Link" where
  "becomeAuthed h t s =
     (if lk_closed s then s
      else let s = s\<lparr>lk_authed := True\<rparr>; held = lk_slot s; s = (if held then emit SlotHold s else s) in
           if held \<and> \<not> tn_hold t then abort False s
           else let s = armIdle t s; s = (if lk_framed s then emit FramerRaiseCap s else s); s = emit (OnAuth (lk_peerId s)) s;
                    s = (if tn_loses t then close_link s else s) in
                if lk_closed s then s
                else let (frames, s) = takeQueued s in fold (wireRecord h t) frames s)"

definition onMsg2 :: "Conf \<Rightarrow> seam \<Rightarrow> Turn \<Rightarrow> bytes \<Rightarrow> Link \<Rightarrow> bool \<times> Link" where
  "onMsg2 cf h t w2 s =
     (if length w2 \<noteq> M2_LEN then (True, stall s)
      else let hd' = take (EPH_LEN + KEM_CT_LEN) w2; ephR = take EPH_LEN hd'; kemCt = drop EPH_LEN hd' in
      need (lk_myEph s) s (\<lambda>(_, ephSk). need (scalarmult h ephSk ephR) s (\<lambda>dh.
      case dh of None \<Rightarrow> (True, stall s) | Some ee \<Rightarrow>
      let s = s\<lparr>lk_ee := Some ee\<rparr> in
      need (lk_myKem s) s (\<lambda>(_, kemSk). need (kemDecaps h kemSk kemCt) s (\<lambda>kem.
      case kem of None \<Rightarrow> (True, stall s) | Some ss \<Rightarrow>
      let s = s\<lparr>lk_kemSecret := Some ss\<rparr> in
      need (lk_th s) s (\<lambda>th. need (hash h [th, hd']) s (\<lambda>hs.
      need (Option.bind (kdf_shared h hs LABEL_M2 s) (\<lambda>k. openZero h k (drop (EPH_LEN + KEM_CT_LEN) w2))) s (\<lambda>r.
      case r of None \<Rightarrow> (True, stall s) | Some sig \<Rightarrow>
      let idR = fromHex (lk_dialedPeerId s) in
      if bytesCompare idR (cf_ownPk cf) = 0 then (True, abort False s)
      else need (Option.bind (lk_root s) (\<lambda>rt. verify h idR sig (channelIdentityMessage rt hs idR))) s (\<lambda>ok.
      if \<not> ok then (True, abort True s)
      else if lk_lint s \<and> \<not> admits cf idR then (True, abort True s)
      else let s = s\<lparr>lk_peerPubkey := Some idR, lk_peerId := lk_dialedPeerId s\<rparr> in
      need (hash h [th, w2]) s (\<lambda>h2.
      case signTranscript cf h h2 s of (None, s) \<Rightarrow> (True, s) | (Some sigI, s) \<Rightarrow>
      need (Option.bind (kdf_shared h h2 LABEL_M3 s) (\<lambda>k. sealZero h k (guest_concatBytes [cf_ownPk cf, sigI]))) s (\<lambda>w3.
      need (hash h [h2, w3]) s (\<lambda>th'.
      case deriveConcealedSession h (s\<lparr>lk_th := Some th'\<rparr>) of
        (False, s) \<Rightarrow> (True, abort False s)
      | (True, s) \<Rightarrow> andthen (wire t w3 s) (\<lambda>s. (True, becomeAuthed h t s))))))))))))))"

definition onMsg3 :: "Conf \<Rightarrow> seam \<Rightarrow> Turn \<Rightarrow> bytes \<Rightarrow> Link \<Rightarrow> bool \<times> Link" where
  "onMsg3 cf h t w3 s =
     (if length w3 \<noteq> M3_LEN then (True, stall s)
      else need (lk_th s) s (\<lambda>th.
      need (Option.bind (kdf_shared h th LABEL_M3 s) (\<lambda>k. openIdentity cf h k w3 th s)) s (\<lambda>r.
      case r of None \<Rightarrow> (True, stall s) | Some idI \<Rightarrow>
      if (lk_lint s \<and> \<not> admits cf idI) \<or> (lk_acceptPeerId s \<noteq> [] \<and> guest_toHex idI \<noteq> lk_acceptPeerId s) then (True, abort True s)
      else let s = s\<lparr>lk_peerPubkey := Some idI, lk_peerId := guest_toHex idI\<rparr> in
      need (hash h [th, w3]) s (\<lambda>th'.
      case deriveConcealedSession h (s\<lparr>lk_th := Some th'\<rparr>) of
        (False, s) \<Rightarrow> (True, stall s)
      | (True, s) \<Rightarrow> (True, becomeAuthed h t s)))))"

section \<open>Reading\<close>

definition onRecord :: "Conf \<Rightarrow> seam \<Rightarrow> Turn \<Rightarrow> bytes \<Rightarrow> Link \<Rightarrow> bool \<times> Link" where
  "onRecord cf h t body' s =
     (case lk_recvKey s of None \<Rightarrow> (True, abort True s) | Some key \<Rightarrow>
      if length body' < TAG_LEN \<or> length body' > cf_maxFrameBytes cf then (True, abort True s)
      else if lk_recvEpoch s \<ge> REJECT_AFTER_EPOCHS then (True, abort False s)
      else need (aeadDec h key (nonce (lk_recvEpoch s) (lk_recvCtr s)) body') s (\<lambda>r.
      case r of None \<Rightarrow> (True, abort True s) | Some pt \<Rightarrow>
      let s = markTraffic t s; s = s\<lparr>lk_recvCtr := lk_recvCtr s + 1\<rparr> in
      andthen
        (if lk_recvCtr s \<ge> lk_rekeyAfterFrames s
         then need (ratchet h key) s (\<lambda>k. (True, s\<lparr>lk_recvKey := Some k, lk_recvEpoch := lk_recvEpoch s + 1, lk_recvCtr := 0\<rparr>))
         else (True, s))
        (\<lambda>s. if pt = [] then (True, close_link (s\<lparr>lk_peerSaidGoodbye := True\<rparr>))
             else (True, emit (OnFrame (lk_peerId s) pt (case lk_peerPubkey s of Some pk \<Rightarrow> pk | None \<Rightarrow> [])) s))))"

definition onMessage :: "Conf \<Rightarrow> seam \<Rightarrow> Turn \<Rightarrow> bytes \<Rightarrow> Link \<times> jstr list \<Rightarrow> Link \<times> jstr list" where
  "onMessage cf h t m = (\<lambda>(s, seen).
     if lk_closed s \<or> lk_stalled s then (s, seen)
     else let (ok, s, seen) =
            (if lk_authed s then let (ok, s) = onRecord cf h t m s in (ok, s, seen)
             else if lk_weDialed s then let (ok, s) = onMsg2 cf h t m s in (ok, s, seen)
             else if lk_peerEph s \<noteq> None then let (ok, s) = onMsg3 cf h t m s in (ok, s, seen)
             else onMsg1 cf h t m (s, seen))
          in (if ok then s else refuse s, seen))"

text \<open>A platform-framed read is a message; a framer's messages are enqueued as it decodes them, and its refusal is \<open>refuse\<close>.\<close>

definition onWire :: "Conf \<Rightarrow> bytes \<Rightarrow> Link \<Rightarrow> Link" where
  "onWire cf b s =
     (if lk_closed s \<or> lk_stalled s then s
      else if length b > (if lk_authed s then cf_maxFrameBytes cf else MAX_HANDSHAKE_FRAME_BYTES) then refuse s
      else enqueue (Message b) s)"

definition onWire_framed :: "bytes list \<Rightarrow> Link \<Rightarrow> Link" where
  "onWire_framed msgs s = (if lk_closed s \<or> lk_stalled s then s else fold (\<lambda>m. enqueue (Message m)) msgs s)"

section \<open>A link's life\<close>

definition boot :: "Conf \<Rightarrow> seam \<Rightarrow> Turn \<Rightarrow> Link \<Rightarrow> Link" where
  "boot cf h t s =
     (case need (rootKey h (lk_networkKey s)) s (\<lambda>rt.
        let s = s\<lparr>lk_root := Some rt\<rparr> in
        if lk_weDialed s then andthen (ensureKeys h t s) (\<lambda>s. sendMsg1 h t (armDeadline t (cf_handshakeTimeoutMs cf) s))
        else (True, armDeadline t (cf_unverifiedTimeoutMs cf) s)) of
        (True, s) \<Rightarrow> s
      | (False, s) \<Rightarrow> abort False s)"

text \<open>\<open>slot\<close> is the limiter's answer, \<open>None\<close> when the link has no limiter.\<close>

definition new_Link :: "LinkSpec \<Rightarrow> bool option \<Rightarrow> Link" where
  "new_Link sp slot =
     (let s = \<lparr>lk_weDialed = sp_weDialed sp, lk_framed = sp_framed sp, lk_dialedPeerId = sp_dialedPeerId sp, lk_acceptPeerId = sp_acceptPeerId sp,
        lk_contactSecret = sp_linkSecret sp, lk_networkKey = sp_networkKey sp, lk_lint = sp_lint sp, lk_idleMs = sp_idleMs sp,
        lk_rekeyAfterFrames = sp_rekeyAfterFrames sp, lk_root = None, lk_peerPubkey = None, lk_peerId = [], lk_authed = False,
        lk_peerSaidGoodbye = False, lk_myEph = None, lk_myKem = None, lk_kemSecret = None, lk_queue = [], lk_queuedBytes = 0,
        lk_outboundQueuedBytes = 0, lk_outboundQueuedSlices = 0, lk_peerEph = None, lk_closed = False, lk_parting = False, lk_stalled = False,
        lk_closedLocally = False, lk_aborted = False, lk_timedOut = False, lk_slot = (slot = Some True), lk_due = None, lk_lastSeen = 0,
        lk_sendKey = None, lk_recvKey = None, lk_sendEpoch = 0, lk_sendCtr = 0, lk_recvEpoch = 0, lk_recvCtr = 0, lk_th = None, lk_ee = None,
        lk_work = [], lk_out = []\<rparr>
      in if slot = Some False then abort False s else enqueue Boot s)"

text \<open>The next step of the work chain; \<open>seen\<close> is the node's memory of proved probes.\<close>

definition work_turn :: "Conf \<Rightarrow> seam \<Rightarrow> Turn \<Rightarrow> Link \<times> jstr list \<Rightarrow> Link \<times> jstr list" where
  "work_turn cf h t = (\<lambda>(s, seen).
     case lk_work s of
       [] \<Rightarrow> (s, seen)
     | w # rest \<Rightarrow>
         let s = s\<lparr>lk_work := rest\<rparr> in
         case w of
           Boot \<Rightarrow> (boot cf h t s, seen)
         | Message m \<Rightarrow> onMessage cf h t m (s, seen)
         | Record frame \<Rightarrow> (record_turn h t frame s, seen)
         | Ending \<Rightarrow> (ending_turn h t s, seen))"

end
