(* ===== verification/Ake_Suite.thy ===== *)
theory Ake_Suite
  imports Ake
begin

text \<open>
  What a link relies on of the host's primitives and of the ML-KEM module, as documented: widths, and that opening undoes
  sealing, decapsulation encapsulation and verification signing. A small suite that keeps these laws evaluates the theorems.
\<close>

lemma aeadArgs_eq: "aeadArgs key npub msg = npub @ key @ replicate 4 0 @ msg"
proof -
  have "aeadArgs key npub msg = take (length npub + length key + 4) (npub @ key @ replicate (4 + length msg) 0) @ msg"
    by (simp add: aeadArgs_def set_bytes_def Let_def)
  also have "\<dots> = npub @ key @ take 4 (replicate (4 + length msg) 0) @ msg" by simp
  finally show ?thesis by (simp add: min_def)
qed

section \<open>The laws\<close>

definition hash_width :: "seam \<Rightarrow> bool" where
  "hash_width h \<longleftrightarrow> (\<forall>ps x. hash h ps = Some x \<longrightarrow> length x = 32)"

definition aead_correct :: "seam \<Rightarrow> bool" where
  "aead_correct h \<longleftrightarrow> (\<forall>key n f ct. length key = 32 \<and> length n = NPUB_LEN \<and> aeadEnc h key n f = Some ct \<longrightarrow>
     aeadDec h key n ct = Some (Some f) \<and> length ct = length f + TAG_LEN)"

text \<open>A host that answers: nothing it is asked fails.\<close>

definition answers :: "seam \<Rightarrow> bool" where
  "answers h \<longleftrightarrow> (\<forall>ps. hash h ps \<noteq> None) \<and> (\<forall>key n f. length key = 32 \<and> length n = NPUB_LEN \<longrightarrow> aeadEnc h key n f \<noteq> None)"

definition dh_correct :: "seam \<Rightarrow> bool" where
  "dh_correct h \<longleftrightarrow> (\<forall>a b. length a = 32 \<and> length b = 32 \<longrightarrow>
     (\<exists>pa pb x. scalarmult h a X25519_BASEPOINT = Some (Some pa) \<and> scalarmult h b X25519_BASEPOINT = Some (Some pb) \<and>
        length pa = EPH_LEN \<and> length pb = EPH_LEN \<and> scalarmult h a pb = Some (Some x) \<and> scalarmult h b pa = Some (Some x)))"

definition kem_correct :: "seam \<Rightarrow> bool" where
  "kem_correct h \<longleftrightarrow> (\<forall>seed coins. length seed = 64 \<and> length coins = 32 \<longrightarrow>
     (\<exists>pk sk ct ss. kemKeypair h seed = Some (pk, sk) \<and> length pk = KEM_PK_LEN \<and> kemEncaps h pk coins = Some (Some (ct, ss)) \<and>
        length ct = KEM_CT_LEN \<and> kemDecaps h sk ct = Some (Some ss)))"

definition signs :: "seam \<Rightarrow> bytes \<Rightarrow> seam \<Rightarrow> bool" where
  "signs h pk h' \<longleftrightarrow> (\<forall>m. \<exists>sig. h N_SIGN m = Some sig \<and> length sig = SIG_LEN \<and> verify h' pk sig m = Some True)"

text \<open>The two hosts of a link differ in the key they sign with.\<close>

definition same_suite :: "seam \<Rightarrow> seam \<Rightarrow> bool" where
  "same_suite h h' \<longleftrightarrow> (\<forall>x. x \<noteq> N_SIGN \<longrightarrow> h x = h' x)"

lemmas suite_laws = hash_width_def aead_correct_def answers_def dh_correct_def kem_correct_def signs_def same_suite_def

section \<open>A small suite\<close>

text \<open>The hash sums, the seal appends the beginning of its key, and an open checks it; the exchange and the signature carry what they
  are made of.\<close>

definition small_host :: "bytes \<Rightarrow> seam" where
  "small_host pk x b =
     (if x = P_HASH then Some (replicate 32 (sum_list (drop 2 b)))
      else if x = P_SEAL then Some (drop 48 b @ take TAG_LEN (drop 12 b))
      else if x = P_OPEN
      then (let ct = drop 48 b; n = length ct - TAG_LEN
            in if TAG_LEN \<le> length ct \<and> drop n ct = take TAG_LEN (drop 12 b) then Some (1 # take n ct) else Some [0])
      else if x = P_DH then Some (1 # map2 (XOR) (take 32 b) (drop 32 b))
      else if x = N_MLKEM
      then (if elem_at b 0 = Some 0 then Some (replicate (KEM_PK_LEN + KEM_SK_LEN) 3)
            else if elem_at b 0 = Some 1 then (let c = drop (1 + KEM_PK_LEN) b in Some (1 # c @ replicate (KEM_CT_LEN - 32) 0 @ c))
            else Some (1 # take 32 (drop (1 + KEM_SK_LEN) b)))
      else if x = N_SIGN then Some (pk @ pk)
      else if x = N_VERIFY then Some [if take 64 (drop 32 b) = take 32 b @ take 32 b then 1 else 0]
      else None)"

lemma seam_names_distinct [simp]:
  "P_SEAL \<noteq> P_HASH" "P_OPEN \<noteq> P_HASH" "P_OPEN \<noteq> P_SEAL" "P_DH \<noteq> P_HASH" "P_DH \<noteq> P_SEAL" "P_DH \<noteq> P_OPEN"
  "N_MLKEM \<noteq> P_HASH" "N_MLKEM \<noteq> P_SEAL" "N_MLKEM \<noteq> P_OPEN" "N_MLKEM \<noteq> P_DH" "N_SIGN \<noteq> P_HASH" "N_SIGN \<noteq> P_SEAL" "N_SIGN \<noteq> P_OPEN"
  "N_SIGN \<noteq> P_DH" "N_SIGN \<noteq> N_MLKEM" "N_VERIFY \<noteq> P_HASH" "N_VERIFY \<noteq> P_SEAL" "N_VERIFY \<noteq> P_OPEN" "N_VERIFY \<noteq> P_DH" "N_VERIFY \<noteq> N_MLKEM"
  "N_VERIFY \<noteq> N_SIGN"
  by (code_simp)+

lemma small_hash: "hash (small_host pk) ps = Some (replicate 32 (sum_list (concat ps)))"
  by (simp add: hash_def small_host_def guest_concatBytes_eq HASH_256_def)

lemma small_seal: "length key = 32 \<Longrightarrow> length n = NPUB_LEN \<Longrightarrow> aeadEnc (small_host pk) key n f = Some (f @ take TAG_LEN key)"
  by (simp add: aeadEnc_def small_host_def aeadArgs_eq NPUB_LEN_def TAG_LEN_def)

lemma small_open: "length key = 32 \<Longrightarrow> length n = NPUB_LEN \<Longrightarrow> aeadDec (small_host pk) key n ct =
    Some (if TAG_LEN \<le> length ct \<and> drop (length ct - TAG_LEN) ct = take TAG_LEN key then Some (take (length ct - TAG_LEN) ct) else None)"
  by (simp add: aeadDec_def small_host_def aeadArgs_eq NPUB_LEN_def elem_at_def Let_def TAG_LEN_def)

lemma small_dh: "length a = 32 \<Longrightarrow> length b = 32 \<Longrightarrow> scalarmult (small_host pk) a b = Some (Some (map2 (XOR) a b))"
  by (simp add: scalarmult_def small_host_def set_bytes_def elem_at_def)

lemma map2_xor_swap: "length a = n \<Longrightarrow> length b = n \<Longrightarrow> length c = n \<Longrightarrow> map2 (XOR) a (map2 (XOR) b c) = map2 (XOR) b (map2 (XOR) a (c :: bytes))"
  by (rule nth_equalityI) (auto simp: xor.left_commute)

lemma small_kem:
  assumes "length seed = 64" "length coins = 32"
  shows "kemKeypair (small_host pk) seed = Some (replicate KEM_PK_LEN 3, replicate KEM_SK_LEN 3)"
    "kemEncaps (small_host pk) (replicate KEM_PK_LEN 3) coins = Some (Some (coins @ replicate (KEM_CT_LEN - 32) 0, coins))"
    "kemDecaps (small_host pk) (replicate KEM_SK_LEN 3) (coins @ replicate (KEM_CT_LEN - 32) 0) = Some (Some coins)"
proof -
  have a: "small_host pk N_MLKEM (guest_concatBytes [[0], seed]) = Some (replicate (KEM_PK_LEN + KEM_SK_LEN) 3)"
    "small_host pk N_MLKEM (guest_concatBytes [[1], replicate KEM_PK_LEN 3, coins]) = Some (1 # coins @ replicate (KEM_CT_LEN - 32) 0 @ coins)"
    "small_host pk N_MLKEM (guest_concatBytes [[2], replicate KEM_SK_LEN 3, coins @ replicate (KEM_CT_LEN - 32) 0]) = Some (1 # coins)"
    using assms by (simp_all add: small_host_def guest_concatBytes_eq elem_at_def Let_def)
  show "kemKeypair (small_host pk) seed = Some (replicate KEM_PK_LEN 3, replicate KEM_SK_LEN 3)"
    by (simp add: kemKeypair_def kemCall_def a min_def)
  show "kemEncaps (small_host pk) (replicate KEM_PK_LEN 3) coins = Some (Some (coins @ replicate (KEM_CT_LEN - 32) 0, coins))"
    using assms by (simp add: kemEncaps_def kemCall_def a elem_at_def subarray_def KEM_CT_LEN_def KEM_SS_LEN_def)
  show "kemDecaps (small_host pk) (replicate KEM_SK_LEN 3) (coins @ replicate (KEM_CT_LEN - 32) 0) = Some (Some coins)"
    using assms by (simp add: kemDecaps_def kemCall_def a elem_at_def KEM_SS_LEN_def)
qed

lemma small_laws: "hash_width (small_host pk)" "aead_correct (small_host pk)" "answers (small_host pk)" "same_suite (small_host pk) (small_host pk')"
proof -
  show "hash_width (small_host pk)" "answers (small_host pk)" by (auto simp: suite_laws small_hash small_seal)
  show "aead_correct (small_host pk)" by (auto simp: aead_correct_def small_seal small_open TAG_LEN_def)
  show "same_suite (small_host pk) (small_host pk')" by (simp add: same_suite_def small_host_def fun_eq_iff)
qed

lemma small_exchange: "dh_correct (small_host pk)" "kem_correct (small_host pk)"
proof -
  have "length X25519_BASEPOINT = 32" by (simp add: X25519_BASEPOINT_def)
  then show "dh_correct (small_host pk)"
    unfolding dh_correct_def EPH_LEN_def by (auto simp: small_dh map2_xor_swap [of _ 32])
  show "kem_correct (small_host pk)" unfolding kem_correct_def
  proof (intro allI impI)
    fix seed coins :: bytes assume "length seed = 64 \<and> length coins = 32"
    then show "\<exists>k sk ct ss. kemKeypair (small_host pk) seed = Some (k, sk) \<and> length k = KEM_PK_LEN \<and> kemEncaps (small_host pk) k coins = Some (Some (ct, ss)) \<and>
        length ct = KEM_CT_LEN \<and> kemDecaps (small_host pk) sk ct = Some (Some ss)"
      using small_kem [of seed coins pk] by (intro exI conjI) (auto simp: KEM_CT_LEN_def)
  qed
qed

lemma small_signs: "length pk = 32 \<Longrightarrow> signs (small_host pk) pk (small_host pk')"
  by (simp add: signs_def verify_def small_host_def guest_concatBytes_eq elem_at_def SIG_LEN_def)

definition small_conf :: Conf where
  "small_conf = \<lparr>cf_ownPk = replicate 32 2, cf_admitPeers = None, cf_maxFrameBytes = 64, cf_maxPreAuthQueueSlices = 4,
     cf_handshakeTimeoutMs = 0, cf_unverifiedTimeoutMs = 0\<rparr>"

definition small_turn :: Turn where
  "small_turn = \<lparr>tn_now = 0, tn_eph = replicate 32 4, tn_kem = replicate 64 5, tn_coins = replicate 32 6, tn_wired = (\<lambda>_. True),
     tn_promote = True, tn_hold = True, tn_secrets = None, tn_loses = False, tn_goodbye = None\<rparr>"

end
