(* ===== verification/Ake_Record.thy ===== *)
theory Ake_Record
  imports Ake_Suite
begin

text \<open>
  The record layer of a link: no nonce is used twice under a key, and what a link hands on is a beginning of what its peer
  sealed, in order.
\<close>

section \<open>Nonces\<close>

lemma nonce_read: "epoch < 2 ^ 32 \<Longrightarrow> ctr < 2 ^ 32 \<Longrightarrow> readU32BE (nonce epoch ctr) 0 = epoch \<and> readU32BE (nonce epoch ctr) 8 = ctr"
proof -
  assume b: "epoch < 2 ^ 32" "ctr < 2 ^ 32"
  let ?n = "writeU32BE (replicate 12 0) 0 (int epoch)"
  have n: "nonce epoch ctr = writeU32BE ?n 8 (int ctr)" by (simp add: nonce_def guest_writeU32BE_eq NPUB_LEN_def)
  have "readU32BE (writeU32BE ?n 8 (int ctr)) 8 = ctr" using b(2) by (subst readU32BE_writeU32BE) simp_all
  moreover have "readU32BE (writeU32BE ?n 8 v) 0 = readU32BE ?n 0" for v by (simp add: readU32BE_def writeU32BE_def [where offset = 8] Let_def)
  moreover have "readU32BE ?n 0 = epoch" using b(1) by (subst readU32BE_writeU32BE) simp_all
  ultimately show ?thesis using n by simp
qed

lemma nonce_inj: "e < 2 ^ 32 \<Longrightarrow> c < 2 ^ 32 \<Longrightarrow> e' < 2 ^ 32 \<Longrightarrow> c' < 2 ^ 32 \<Longrightarrow> nonce e c = nonce e' c' \<longleftrightarrow> e = e' \<and> c = c'"
  by (metis nonce_read)

lemma length_nonce: "length (nonce epoch ctr) = NPUB_LEN"
  by (simp add: nonce_def guest_writeU32BE_def)

section \<open>Sealing\<close>

text \<open>The records a link seals one after another, each with the key and nonce it was sealed under; it stops at the first that fails.\<close>

fun seal_all :: "seam \<Rightarrow> bytes list \<Rightarrow> Link \<Rightarrow> (bytes \<times> bytes \<times> bytes \<times> bytes) list \<times> Link" where
  "seal_all h [] s = ([], s)"
| "seal_all h (f # fs) s =
     (case (lk_sendKey s, seal h f s) of
        (Some k, Some ct, s') \<Rightarrow> (let (rs, s'') = seal_all h fs s' in ((k, nonce (lk_sendEpoch s) (lk_sendCtr s), f, ct) # rs, s''))
      | _ \<Rightarrow> ([], s))"

text \<open>Where a direction is: how many records it has passed.\<close>

definition at_record :: "nat \<Rightarrow> nat \<Rightarrow> nat \<Rightarrow> nat" where
  "at_record r epoch ctr = epoch * r + ctr"

lemma seal_steps:
  assumes "seal h f s = (Some ct, s')" "lk_sendKey s = Some k" "lk_sendCtr s < lk_rekeyAfterFrames s"
  shows "aeadEnc h k (nonce (lk_sendEpoch s) (lk_sendCtr s)) f = Some ct \<and> lk_rekeyAfterFrames s' = lk_rekeyAfterFrames s \<and>
    lk_sendCtr s' < lk_rekeyAfterFrames s' \<and>
    at_record (lk_rekeyAfterFrames s) (lk_sendEpoch s') (lk_sendCtr s') = Suc (at_record (lk_rekeyAfterFrames s) (lk_sendEpoch s) (lk_sendCtr s)) \<and>
    (if Suc (lk_sendCtr s) < lk_rekeyAfterFrames s then lk_sendKey s' = Some k \<and> lk_sendEpoch s' = lk_sendEpoch s \<and> lk_sendCtr s' = Suc (lk_sendCtr s)
     else ratchet h k = lk_sendKey s' \<and> lk_sendKey s' \<noteq> None \<and> lk_sendEpoch s' = Suc (lk_sendEpoch s) \<and> lk_sendCtr s' = 0)"
  using assms by (auto simp: seal_def at_record_def Let_def split: option.splits if_splits)


text \<open>The key of each epoch.\<close>

fun key_at :: "seam \<Rightarrow> bytes \<Rightarrow> nat \<Rightarrow> bytes option" where
  "key_at h k 0 = Some k"
| "key_at h k (Suc e) = Option.bind (key_at h k e) (ratchet h)"

lemma at_record_div: "c < r \<Longrightarrow> at_record r e c div r = e" "c < r \<Longrightarrow> at_record r e c mod r = c"
  by (simp_all add: at_record_def)

lemma seal_all_at:
  "lk_sendKey s = key_at h k (lk_sendEpoch s) \<Longrightarrow> lk_sendCtr s < lk_rekeyAfterFrames s \<Longrightarrow> i < length (fst (seal_all h fs s)) \<Longrightarrow>
   let r = lk_rekeyAfterFrames s; n = at_record r (lk_sendEpoch s) (lk_sendCtr s) + i
   in i < length fs \<and> (\<exists>key ct. fst (seal_all h fs s) ! i = (key, nonce (n div r) (n mod r), fs ! i, ct) \<and>
        key_at h k (n div r) = Some key \<and> aeadEnc h key (nonce (n div r) (n mod r)) (fs ! i) = Some ct)"
proof (induction fs arbitrary: s i)
  case (Cons f fs)
  let ?r = "lk_rekeyAfterFrames s"
  obtain key ct s' where s: "lk_sendKey s = Some key" "seal h f s = (Some ct, s')"
    using Cons.prems(3) by (cases "lk_sendKey s"; cases "seal h f s"; cases "fst (seal h f s)") auto
  have out: "fst (seal_all h (f # fs) s) = (key, nonce (lk_sendEpoch s) (lk_sendCtr s), f, ct) # fst (seal_all h fs s')"
    using s by (simp add: case_prod_beta Let_def)
  note st = seal_steps [OF s(2,1) Cons.prems(2)]
  show ?case
  proof (cases i)
    case 0
    with out s(1) st Cons.prems(1,2) show ?thesis by (simp add: Let_def at_record_div)
  next
    case (Suc j)
    have "lk_sendKey s' = key_at h k (lk_sendEpoch s')" using st s(1) Cons.prems(1) by (auto split: if_splits)
    from Cons.IH [OF this] st Suc Cons.prems(3) out show ?thesis by (simp add: Let_def)
  qed
qed simp

lemma sealed_once:
  assumes "lk_sendKey s = Some k" "lk_sendEpoch s = 0" "lk_sendCtr s = 0" "0 < lk_rekeyAfterFrames s" "lk_rekeyAfterFrames s \<le> 2 ^ 32"
    "length fs \<le> REJECT_AFTER_EPOCHS * lk_rekeyAfterFrames s" "(key, nonce e c, pt, ct) \<in> set (fst (seal_all h fs s))" "e < 2 ^ 32" "c < lk_rekeyAfterFrames s"
  shows "at_record (lk_rekeyAfterFrames s) e c < length fs \<and> pt = fs ! at_record (lk_rekeyAfterFrames s) e c"
proof -
  let ?r = "lk_rekeyAfterFrames s"
  from assms(7) obtain i where i: "i < length (fst (seal_all h fs s))" "fst (seal_all h fs s) ! i = (key, nonce e c, pt, ct)" by (metis in_set_conv_nth)
  have "i < length fs \<and> (\<exists>key ct. fst (seal_all h fs s) ! i = (key, nonce (i div ?r) (i mod ?r), fs ! i, ct))"
    using seal_all_at [of s h k i fs] assms(1-4) i(1) by (auto simp: Let_def at_record_def)
  then have n: "i < length fs" "nonce e c = nonce (i div ?r) (i mod ?r)" "pt = fs ! i" using i(2) by auto
  have "i div ?r < REJECT_AFTER_EPOCHS" using n(1) assms(4,6) by (simp add: less_mult_imp_div_less)
  then have "i div ?r < 2 ^ 32" "i mod ?r < 2 ^ 32" using assms(4,5) by (auto simp: REJECT_AFTER_EPOCHS_def intro: less_le_trans [OF mod_less_divisor])
  moreover have "c < 2 ^ 32" using assms(5,9) by linarith
  ultimately have "e = i div ?r" "c = i mod ?r" using n(2) nonce_inj [OF assms(8), of c "i div ?r" "i mod ?r"] by simp_all
  then have "at_record ?r e c = i" by (simp add: at_record_def)
  with n show ?thesis by simp
qed

section \<open>Opening\<close>

definition handed :: "Link \<Rightarrow> bytes list" where
  "handed s = concat (map (\<lambda>x. case x of OnFrame _ pt _ \<Rightarrow> [pt] | _ \<Rightarrow> []) (lk_out s))"

lemma handed_emit: "handed (emit x s) = handed s @ (case x of OnFrame _ pt _ \<Rightarrow> [pt] | _ \<Rightarrow> [])"
  by (simp add: handed_def emit_def)

lemma handed_updates [simp]:
  "handed (s\<lparr>lk_closed := a\<rparr>) = handed s" "handed (s\<lparr>lk_parting := a\<rparr>) = handed s" "handed (s\<lparr>lk_closedLocally := a\<rparr>) = handed s"
  "handed (s\<lparr>lk_aborted := a\<rparr>) = handed s" "handed (s\<lparr>lk_work := w\<rparr>) = handed s" "handed (s\<lparr>lk_lastSeen := n\<rparr>) = handed s"
  "handed (s\<lparr>lk_recvCtr := c\<rparr>) = handed s" "handed (s\<lparr>lk_recvKey := k\<rparr>) = handed s" "handed (s\<lparr>lk_recvEpoch := c\<rparr>) = handed s"
  "handed (s\<lparr>lk_peerSaidGoodbye := a\<rparr>) = handed s"
  by (simp_all add: handed_def)

lemma ended: "handed (end_link f d s) = handed s" "lk_closed (end_link f d s)" "lk_authed (end_link f d s) = lk_authed s"
  by (simp_all add: end_link_def severWire_def enqueue_def Let_def handed_emit) (simp_all add: emit_def)

lemma touched: "handed (markTraffic t s) = handed s" "lk_recvKey (markTraffic t s) = lk_recvKey s" "lk_recvEpoch (markTraffic t s) = lk_recvEpoch s"
  "lk_recvCtr (markTraffic t s) = lk_recvCtr s" "lk_rekeyAfterFrames (markTraffic t s) = lk_rekeyAfterFrames s" "lk_authed (markTraffic t s) = lk_authed s"
  "lk_closed (markTraffic t s) = lk_closed s" "lk_stalled (markTraffic t s) = lk_stalled s" "lk_peerId (markTraffic t s) = lk_peerId s"
  by (simp_all add: markTraffic_def Let_def handed_emit) (simp_all add: emit_def)

text \<open>A record of an open link: it opened and is handed on or ends the stream, or the link is over.\<close>

lemma onRecord_cases:
  assumes "onRecord cf h t m s = (ok, s')" "lk_recvKey s = Some key" "lk_authed s"
  defines "p \<equiv> aeadDec h key (nonce (lk_recvEpoch s) (lk_recvCtr s)) m"
  shows "(lk_recvEpoch s < REJECT_AFTER_EPOCHS \<and> ok \<and> (\<exists>pt. p = Some (Some pt) \<and> pt \<noteq> [] \<and> handed s' = handed s @ [pt] \<and> lk_authed s' \<and> lk_closed s' = lk_closed s \<and>
      lk_rekeyAfterFrames s' = lk_rekeyAfterFrames s \<and>
      (if Suc (lk_recvCtr s) < lk_rekeyAfterFrames s then lk_recvKey s' = Some key \<and> lk_recvEpoch s' = lk_recvEpoch s \<and> lk_recvCtr s' = Suc (lk_recvCtr s)
       else ratchet h key = lk_recvKey s' \<and> lk_recvKey s' \<noteq> None \<and> lk_recvEpoch s' = Suc (lk_recvEpoch s) \<and> lk_recvCtr s' = 0))) \<or>
    handed s' = handed s \<and> lk_authed s' \<and> (lk_closed s' \<or> \<not> ok) \<and>
      \<not> (TAG_LEN \<le> length m \<and> length m \<le> cf_maxFrameBytes cf \<and> lk_recvEpoch s < REJECT_AFTER_EPOCHS \<and> (\<exists>pt. p = Some (Some pt) \<and> pt \<noteq> []) \<and>
        (Suc (lk_recvCtr s) < lk_rekeyAfterFrames s \<or> ratchet h key \<noteq> None))"
proof (cases "length m < TAG_LEN \<or> length m > cf_maxFrameBytes cf \<or> lk_recvEpoch s \<ge> REJECT_AFTER_EPOCHS \<or> p = None \<or> p = Some None")
  case True
  with assms show ?thesis by (auto simp: onRecord_def need_def abort_def ended split: if_splits)
next
  case False
  then obtain pt where pt: "p = Some (Some pt)" by (metis option.exhaust)
  let ?s = "(markTraffic t s)\<lparr>lk_recvCtr := Suc (lk_recvCtr s)\<rparr>"
  define fin where "fin = (\<lambda>s. if pt = [] then (True, close_link (s\<lparr>lk_peerSaidGoodbye := True\<rparr>))
     else (True, emit (OnFrame (lk_peerId s) pt (case lk_peerPubkey s of Some pk \<Rightarrow> pk | None \<Rightarrow> [])) s))"
  have r: "onRecord cf h t m s = andthen (if Suc (lk_recvCtr s) \<ge> lk_rekeyAfterFrames s
      then need (ratchet h key) ?s (\<lambda>k. (True, ?s\<lparr>lk_recvKey := Some k, lk_recvEpoch := lk_recvEpoch s + 1, lk_recvCtr := 0\<rparr>)) else (True, ?s)) fin"
    using assms(2) False pt by (simp add: onRecord_def need_def [of "Some _"] Let_def touched p_def fin_def)
  have fin: "handed (snd (fin u)) = (if pt = [] then handed u else handed u @ [pt])" "fst (fin u)" "lk_authed (snd (fin u)) = lk_authed u"
    "pt = [] \<Longrightarrow> lk_closed (snd (fin u))" "pt \<noteq> [] \<Longrightarrow> lk_closed (snd (fin u)) = lk_closed u"
    "pt \<noteq> [] \<Longrightarrow> lk_recvKey (snd (fin u)) = lk_recvKey u" "pt \<noteq> [] \<Longrightarrow> lk_recvEpoch (snd (fin u)) = lk_recvEpoch u"
    "pt \<noteq> [] \<Longrightarrow> lk_recvCtr (snd (fin u)) = lk_recvCtr u" "pt \<noteq> [] \<Longrightarrow> lk_rekeyAfterFrames (snd (fin u)) = lk_rekeyAfterFrames u" for u
    unfolding fin_def by (simp_all add: close_link_def ended handed_emit) (simp_all add: emit_def)
  show ?thesis
  proof (cases "Suc (lk_recvCtr s) \<ge> lk_rekeyAfterFrames s \<and> ratchet h key = None")
    case True
    then have "s' = ?s" "\<not> ok" using r assms(1) by (auto simp: need_def andthen_def)
    with assms(3) True show ?thesis by (simp add: touched not_less)
  next
    case go: False
    define u where "u = (if Suc (lk_recvCtr s) \<ge> lk_rekeyAfterFrames s
      then ?s\<lparr>lk_recvKey := ratchet h key, lk_recvEpoch := lk_recvEpoch s + 1, lk_recvCtr := 0\<rparr> else ?s)"
    have "onRecord cf h t m s = fin u" using r go by (auto simp: need_def andthen_def u_def)
    then have "ok = fst (fin u)" "s' = snd (fin u)" using assms(1) by (metis fst_conv, metis snd_conv)
    moreover have "handed u = handed s" "lk_authed u" "lk_closed u = lk_closed s" "lk_rekeyAfterFrames u = lk_rekeyAfterFrames s"
      "if Suc (lk_recvCtr s) < lk_rekeyAfterFrames s then lk_recvKey u = Some key \<and> lk_recvEpoch u = lk_recvEpoch s \<and> lk_recvCtr u = Suc (lk_recvCtr s)
       else ratchet h key = lk_recvKey u \<and> lk_recvKey u \<noteq> None \<and> lk_recvEpoch u = Suc (lk_recvEpoch s) \<and> lk_recvCtr u = 0"
      using assms(2,3) go by (auto simp: u_def touched)
    ultimately show ?thesis using fin [of u] pt False by (cases "pt = []") auto
  qed
qed


text \<open>The receiving end of a session whose other end seals \<open>fs\<close>.\<close>

definition receives :: "seam \<Rightarrow> bytes \<Rightarrow> nat \<Rightarrow> bytes list \<Rightarrow> Link \<Rightarrow> bool" where
  "receives h k r fs s \<longleftrightarrow> lk_authed s \<and> (\<exists>n \<le> length fs. handed s = take n fs \<and> [] \<notin> set (handed s) \<and>
     (\<not> lk_closed s \<longrightarrow> lk_rekeyAfterFrames s = r \<and> lk_recvCtr s < r \<and> at_record r (lk_recvEpoch s) (lk_recvCtr s) = n \<and>
        lk_recvKey s = key_at h k (lk_recvEpoch s) \<and> lk_recvKey s \<noteq> None))"

lemma receives_message:
  assumes inv: "receives h k r fs s" and r: "0 < r"
    and pos: "\<And>e c key body pt. e < REJECT_AFTER_EPOCHS \<Longrightarrow> c < r \<Longrightarrow> key_at h k e = Some key \<Longrightarrow> aeadDec h key (nonce e c) body = Some (Some pt) \<Longrightarrow>
      at_record r e c < length fs \<and> pt = fs ! at_record r e c"
  shows "receives h k r fs (fst (onMessage cf h t m (s, seen)))"
proof (cases "lk_closed s \<or> lk_stalled s")
  case True
  with inv show ?thesis by (auto simp: onMessage_def)
next
  case False
  obtain ok s' where s': "onRecord cf h t m s = (ok, s')" by fastforce
  have a: "lk_authed s" using inv by (simp add: receives_def)
  have eq: "fst (onMessage cf h t m (s, seen)) = (if ok then s' else refuse s')" using False a s' by (simp add: onMessage_def)
  obtain n where n: "n \<le> length fs" "handed s = take n fs" "[] \<notin> set (handed s)" "lk_rekeyAfterFrames s = r" "lk_recvCtr s < r"
    "at_record r (lk_recvEpoch s) (lk_recvCtr s) = n" "lk_recvKey s = key_at h k (lk_recvEpoch s)" "lk_recvKey s \<noteq> None"
    using inv False unfolding receives_def by blast
  then obtain key where key: "lk_recvKey s = Some key" by auto
  have over: "receives h k r fs u" if "handed u = handed s" "lk_authed u" "lk_closed u" for u using that n(1-3) by (auto simp: receives_def)
  from onRecord_cases [OF s' key a] show ?thesis
  proof
    assume "lk_recvEpoch s < REJECT_AFTER_EPOCHS \<and> ok \<and> (\<exists>pt. aeadDec h key (nonce (lk_recvEpoch s) (lk_recvCtr s)) m = Some (Some pt) \<and> pt \<noteq> [] \<and>
      handed s' = handed s @ [pt] \<and> lk_authed s' \<and> lk_closed s' = lk_closed s \<and> lk_rekeyAfterFrames s' = lk_rekeyAfterFrames s \<and>
      (if Suc (lk_recvCtr s) < lk_rekeyAfterFrames s then lk_recvKey s' = Some key \<and> lk_recvEpoch s' = lk_recvEpoch s \<and> lk_recvCtr s' = Suc (lk_recvCtr s)
       else ratchet h key = lk_recvKey s' \<and> lk_recvKey s' \<noteq> None \<and> lk_recvEpoch s' = Suc (lk_recvEpoch s) \<and> lk_recvCtr s' = 0))"
    then obtain pt where pt: "lk_recvEpoch s < REJECT_AFTER_EPOCHS" ok "aeadDec h key (nonce (lk_recvEpoch s) (lk_recvCtr s)) m = Some (Some pt)" "pt \<noteq> []"
      "handed s' = handed s @ [pt]" "lk_authed s'" "lk_closed s' = lk_closed s" "lk_rekeyAfterFrames s' = r"
      "if Suc (lk_recvCtr s) < r then lk_recvKey s' = Some key \<and> lk_recvEpoch s' = lk_recvEpoch s \<and> lk_recvCtr s' = Suc (lk_recvCtr s)
       else ratchet h key = lk_recvKey s' \<and> lk_recvKey s' \<noteq> None \<and> lk_recvEpoch s' = Suc (lk_recvEpoch s) \<and> lk_recvCtr s' = 0" using n(4) by auto
    have "key_at h k (lk_recvEpoch s) = Some key" using n(7) key by simp
    from pos [OF pt(1) n(5) this pt(3)] n(6) have p: "n < length fs" "pt = fs ! n" by auto
    have h: "handed s' = take (Suc n) fs" using pt(5) n(2) p by (simp add: take_Suc_conv_app_nth)
    have "at_record r (lk_recvEpoch s') (lk_recvCtr s') = Suc n \<and> lk_recvKey s' = key_at h k (lk_recvEpoch s') \<and> lk_recvCtr s' < r"
      using pt(9) n(5,6) \<open>key_at h k (lk_recvEpoch s) = Some key\<close> r by (auto simp: at_record_def split: if_splits)
    moreover have "lk_recvKey s' \<noteq> None" using pt(9) by (auto split: if_splits)
    moreover have "[] \<notin> set (handed s')" using pt(4,5) n(3) by auto
    ultimately show ?thesis unfolding eq using pt(2,6,8) h p(1) by (simp add: receives_def) (intro exI [of _ "Suc n"], auto)
  next
    assume "handed s' = handed s \<and> lk_authed s' \<and> (lk_closed s' \<or> \<not> ok) \<and>
      \<not> (TAG_LEN \<le> length m \<and> length m \<le> cf_maxFrameBytes cf \<and> lk_recvEpoch s < REJECT_AFTER_EPOCHS \<and>
        (\<exists>pt. aeadDec h key (nonce (lk_recvEpoch s) (lk_recvCtr s)) m = Some (Some pt) \<and> pt \<noteq> []) \<and>
        (Suc (lk_recvCtr s) < lk_rekeyAfterFrames s \<or> ratchet h key \<noteq> None))"
    then show ?thesis unfolding eq by (auto intro!: over simp: refuse_def abort_def ended)
  qed
qed


definition receive_all :: "Conf \<Rightarrow> seam \<Rightarrow> jstr list \<Rightarrow> (Turn \<times> bytes) list \<Rightarrow> Link \<Rightarrow> Link" where
  "receive_all cf h seen ms b = fold (\<lambda>(t, m) s. fst (onMessage cf h t m (s, seen))) ms b"

lemma receive_all_simps [simp]:
  "receive_all cf h seen [] b = b" "receive_all cf h seen ((t, m) # ms) b = receive_all cf h seen ms (fst (onMessage cf h t m (b, seen)))"
  by (simp_all add: receive_all_def)

lemma receive_all_closed: "lk_closed b \<Longrightarrow> receive_all cf h seen ms b = b"
  by (induction ms) (auto simp: onMessage_def)

lemma take_takeWhile: "(\<forall>x \<in> set (take n xs). P x) \<Longrightarrow> take n (takeWhile P xs) = take n xs"
proof (induction xs arbitrary: n)
  case (Cons x xs)
  then show ?case by (cases n) auto
qed simp

section \<open>A small session\<close>

definition small_key :: bytes where
  "small_key = 1 # replicate 31 0"

lemma small_key_length [simp]: "length small_key = 32"
  by (simp add: small_key_def)

lemma take_small_key: "take 16 small_key = 1 # replicate 15 0"
  by (simp add: small_key_def)

definition small_end :: Link where
  "small_end = (new_Link \<lparr>sp_weDialed = True, sp_framed = False, sp_dialedPeerId = [], sp_acceptPeerId = [], sp_linkSecret = None,
      sp_networkKey = [], sp_lint = False, sp_idleMs = 0, sp_rekeyAfterFrames = 2\<rparr> None)\<lparr>lk_authed := True, lk_work := [],
      lk_sendKey := Some small_key, lk_recvKey := Some small_key\<rparr>"

text \<open>The small suite, where nothing opens but the record sealed.\<close>

definition strict_host :: seam where
  "strict_host = (small_host [])(P_OPEN := \<lambda>b. Some (if b = aeadArgs small_key (nonce 0 0) (7 # 1 # replicate 15 0) then [1, 7] else [0]))"


lemma strict_seal: "aeadEnc strict_host key n f = aeadEnc (small_host []) key n f" "hash strict_host ps = hash (small_host []) ps"
  using seam_names_distinct(2,3) [THEN not_sym] by (simp_all add: aeadEnc_def hash_def strict_host_def)

lemma small_end_simps [simp]:
  "lk_sendKey small_end = Some small_key" "lk_recvKey small_end = Some small_key" "lk_sendEpoch small_end = 0"
  "lk_sendCtr small_end = 0" "lk_recvEpoch small_end = 0" "lk_recvCtr small_end = 0" "lk_rekeyAfterFrames small_end = 2"
  "lk_authed small_end" "\<not> lk_closed small_end" "\<not> lk_stalled small_end" "handed small_end = []"
  by (simp_all add: small_end_def new_Link_def enqueue_def handed_def)

lemma small_sealed:
  "fst (seal_all strict_host [[7]] small_end) = [(small_key, nonce 0 0, [7], 7 # 1 # replicate 15 0)]"
  "length (fst (seal_all (small_host []) [[7], [8], [9], []] small_end)) = 4"
  by (simp_all add: seal_def strict_seal small_seal length_nonce ratchet_def small_hash TAG_LEN_def small_key_def [symmetric] take_small_key)

lemma strict_open:
  assumes "key_at strict_host small_key e = Some key" "aeadDec strict_host key (nonce e c) ct = Some (Some pt)"
  shows "key = small_key \<and> nonce e c = nonce 0 0 \<and> pt = [7]"
proof -
  have "length key = 32" using assms(1) by (cases e) (auto simp: ratchet_def strict_seal small_hash split: bind_splits)
  moreover have "aeadArgs key (nonce e c) ct = aeadArgs small_key (nonce 0 0) (7 # 1 # replicate 15 0)" "pt = [7]"
    using assms(2) by (auto simp: aeadDec_def strict_host_def elem_at_def split: if_splits)
  ultimately show ?thesis by (simp add: aeadArgs_eq length_nonce)
qed

section \<open>Authenticity\<close>

text \<open>C18: The record layer delivers a beginning of what the peer sealed. Let one end seal \<open>fs\<close>, through as many ratchets as that takes, and
  let a body open under a session key and nonce only when that end sealed its content under them. Then whatever bodies reach
  the other end, lost, repeated, reordered, forged or cut, what it hands on is a beginning of \<open>fs\<close>, never past an end-of-stream
  record; and no two of the records are sealed under the same nonce.\<close>

theorem records_authentic:
  assumes a: "lk_sendKey a = Some k" "lk_sendEpoch a = 0" "lk_sendCtr a = 0" "lk_rekeyAfterFrames a = r" "0 < r" "r \<le> 2 ^ 32"
      "length fs \<le> REJECT_AFTER_EPOCHS * r"
    and b: "lk_authed b" "lk_recvKey b = Some k" "lk_recvEpoch b = 0" "lk_recvCtr b = 0" "lk_rekeyAfterFrames b = r" "handed b = []"
    and integrity: "\<forall>e key c body' pt. key_at h k e = Some key \<and> aeadDec h key (nonce e c) body' = Some (Some pt) \<longrightarrow>
      (\<exists>ct. (key, nonce e c, pt, ct) \<in> set (fst (seal_all h fs a)))"
  shows "(\<exists>n. handed (receive_all cf h seen ms b) = take n (takeWhile (\<lambda>f. f \<noteq> []) fs)) \<and>
    distinct (map (\<lambda>(key, n, f, ct). n) (fst (seal_all h fs a)))"
proof
  have pos: "at_record r e c < length fs \<and> pt = fs ! at_record r e c"
    if "e < REJECT_AFTER_EPOCHS" "c < r" "key_at h k e = Some key" "aeadDec h key (nonce e c) body' = Some (Some pt)" for e c key body' pt
  proof -
    from integrity that(3,4) obtain ct where ct: "(key, nonce e c, pt, ct) \<in> set (fst (seal_all h fs a))" by blast
    have "e < 2 ^ 32" using that(1) by (simp add: REJECT_AFTER_EPOCHS_def)
    then show ?thesis using sealed_once [OF a(1-3) _ _ _ ct] a(4-7) that(2) by simp
  qed
  have "receives h k r fs b" using a(5) b by (simp add: receives_def at_record_def) (intro exI [of _ 0], simp)
  moreover have step: "receives h k r fs (fst (onMessage cf h t m (s, seen)))" if "receives h k r fs s" for s t m
    using that a(5) pos by (rule receives_message)
  have "receives h k r fs s \<Longrightarrow> receives h k r fs (receive_all cf h seen ms s)" for s
    by (induction ms arbitrary: s) (auto simp: step)
  ultimately have "receives h k r fs (receive_all cf h seen ms b)" by blast
  then obtain n where n: "handed (receive_all cf h seen ms b) = take n fs" "[] \<notin> set (take n fs)"
    unfolding receives_def by metis
  then have "take n (takeWhile (\<lambda>f. f \<noteq> []) fs) = take n fs" by (intro take_takeWhile) metis
  with n show "\<exists>n. handed (receive_all cf h seen ms b) = take n (takeWhile (\<lambda>f. f \<noteq> []) fs)" by metis
  let ?rs = "fst (seal_all h fs a)"
  have i: "i < length fs \<and> (\<lambda>(key, n, f, ct). n) (?rs ! i) = nonce (i div r) (i mod r)" if "i < length ?rs" for i
    using seal_all_at [of a h k i fs] a that by (auto simp: Let_def at_record_def)
  have small: "i div r < 2 ^ 32" "i mod r < 2 ^ 32" if "i < length ?rs" for i
  proof -
    have "i div r < REJECT_AFTER_EPOCHS" using i [OF that] a(5,7) by (simp add: less_mult_imp_div_less)
    then show "i div r < 2 ^ 32" by (simp add: REJECT_AFTER_EPOCHS_def)
    show "i mod r < 2 ^ 32" using a(5,6) mod_less_divisor [of r i] by linarith
  qed
  have "i = j" if "i < length ?rs" "j < length ?rs" "nonce (i div r) (i mod r) = nonce (j div r) (j mod r)" for i j
    using nonce_inj [of "i div r" "i mod r" "j div r" "j mod r"] small [OF that(1)] small [OF that(2)] that(3) by (metis div_mult_mod_eq)
  then have "inj_on (\<lambda>i. (\<lambda>(key, n, f, ct). n) (?rs ! i)) {..<length ?rs}" using i by (auto simp: inj_on_def)
  then show "distinct (map (\<lambda>(key, n, f, ct). n) ?rs)" by (auto simp: distinct_conv_nth inj_on_def)
qed


theorem records_authentic_witness:
  "\<exists>n. handed (receive_all small_conf strict_host [] [(small_turn, 7 # 1 # replicate 15 0), (small_turn, [])] small_end) = take n (takeWhile (\<lambda>f. f \<noteq> []) [[7]])"
proof -
  have "\<forall>e key c ct pt. key_at strict_host small_key e = Some key \<and> aeadDec strict_host key (nonce e c) ct = Some (Some pt) \<longrightarrow>
      (\<exists>ct. (key, nonce e c, pt, ct) \<in> set (fst (seal_all strict_host [[7]] small_end)))"
    unfolding small_sealed using strict_open by auto
  then show ?thesis by (intro records_authentic [where a = small_end and r = 2, THEN conjunct1]) (simp_all add: REJECT_AFTER_EPOCHS_def)
qed

section \<open>Delivery\<close>

text \<open>Two ends of a direction in step.\<close>

definition in_step :: "Link \<Rightarrow> Link \<Rightarrow> bool" where
  "in_step a b \<longleftrightarrow> lk_sendKey a = lk_recvKey b \<and> (\<exists>key. lk_recvKey b = Some key \<and> length key = 32) \<and> lk_sendEpoch a = lk_recvEpoch b \<and> lk_sendCtr a = lk_recvCtr b \<and>
     lk_rekeyAfterFrames a = lk_rekeyAfterFrames b \<and> lk_recvCtr b < lk_rekeyAfterFrames b \<and> lk_authed b \<and> \<not> lk_closed b \<and> \<not> lk_stalled b"

lemma onRecord_stalled: "onRecord cf h t m s = (ok, s') \<Longrightarrow> lk_stalled s' = lk_stalled s"
  by (auto simp: onRecord_def need_def andthen_def abort_def close_link_def end_link_def severWire_def enqueue_def emit_def markTraffic_def Let_def
      split: if_splits option.splits prod.splits)

lemma open_one:
  assumes s: "seal h f a = (Some ct, a')" and step: "in_step a b" and law: "aead_correct h" "hash_width h"
    and fits: "length f + TAG_LEN \<le> cf_maxFrameBytes cf" "lk_sendEpoch a < REJECT_AFTER_EPOCHS"
    and b'_def: "b' = fst (onMessage cf h t ct (b, seen))"
  shows "if f = [] then closeReason b' = REASON_CLEAN \<and> lk_closed b' \<and> handed b' = handed b else in_step a' b' \<and> handed b' = handed b @ [f]"
proof -
  obtain key where key: "lk_sendKey a = Some key" "lk_recvKey b = Some key" "length key = 32" using step by (auto simp: in_step_def)
  have st: "lk_authed b" "\<not> lk_closed b" "\<not> lk_stalled b" using step by (auto simp: in_step_def)
  note sealed = seal_steps [OF s key(1)]
  have enc: "aeadEnc h key (nonce (lk_recvEpoch b) (lk_recvCtr b)) f = Some ct" using sealed step by (auto simp: in_step_def)
  then have dec: "aeadDec h key (nonce (lk_recvEpoch b) (lk_recvCtr b)) ct = Some (Some f)" "length ct = length f + TAG_LEN"
    using law(1) key(3) length_nonce [of "lk_recvEpoch b" "lk_recvCtr b"] unfolding aead_correct_def by blast+
  obtain ok u where u: "onRecord cf h t ct b = (ok, u)" by fastforce
  have b': "b' = (if ok then u else refuse u)" using st u by (simp add: b'_def onMessage_def)
  have rat: "Suc (lk_recvCtr b) < lk_rekeyAfterFrames b \<or> ratchet h key \<noteq> None" using sealed step by (auto simp: in_step_def split: if_splits)
  show ?thesis
  proof (cases "f = []")
    case True
    have "ok \<and> lk_closed u \<and> lk_peerSaidGoodbye u \<and> lk_authed u \<and> handed u = handed b"
      using u key(2) fits dec rat step True st
      by (auto simp: in_step_def onRecord_def need_def andthen_def touched Let_def close_link_def ended not_less not_le split: if_splits option.splits)
         (auto simp: end_link_def severWire_def enqueue_def emit_def Let_def touched split: if_splits)
    with True b' show ?thesis by (simp add: closeReason_def)
  next
    case False
    from onRecord_cases [OF u key(2) st(1)] False dec fits step rat have "ok \<and> handed u = handed b @ [f] \<and> lk_authed u \<and> lk_closed u = lk_closed b \<and>
        lk_rekeyAfterFrames u = lk_rekeyAfterFrames b \<and>
        (if Suc (lk_recvCtr b) < lk_rekeyAfterFrames b then lk_recvKey u = Some key \<and> lk_recvEpoch u = lk_recvEpoch b \<and> lk_recvCtr u = Suc (lk_recvCtr b)
         else ratchet h key = lk_recvKey u \<and> lk_recvKey u \<noteq> None \<and> lk_recvEpoch u = Suc (lk_recvEpoch b) \<and> lk_recvCtr u = 0)"
      by (auto simp: in_step_def)
    moreover from this have "b' = u" using b' by simp
    moreover have "length k = 32" if "ratchet h key = Some k" for k using that law(2) by (simp add: ratchet_def hash_width_def)
    ultimately show ?thesis using False sealed step key onRecord_stalled [OF u] by (auto simp: in_step_def split: if_splits)
  qed
qed

lemma delivery:
  "in_step a b \<Longrightarrow> aead_correct h \<Longrightarrow> hash_width h \<Longrightarrow> \<forall>f \<in> set fs. length f + TAG_LEN \<le> cf_maxFrameBytes cf \<Longrightarrow>
   at_record (lk_rekeyAfterFrames a) (lk_sendEpoch a) (lk_sendCtr a) + length fs \<le> REJECT_AFTER_EPOCHS * lk_rekeyAfterFrames a \<Longrightarrow>
   length (fst (seal_all h fs a)) = length fs \<Longrightarrow> length ts = length fs \<Longrightarrow>
   let b' = receive_all cf h seen (zip ts (map (\<lambda>(key, n, f, ct). ct) (fst (seal_all h fs a)))) b
   in handed b' = handed b @ takeWhile (\<lambda>f. f \<noteq> []) fs \<and> (if [] \<in> set fs then closeReason b' = REASON_CLEAN else in_step (snd (seal_all h fs a)) b')"
proof (induction fs arbitrary: a b ts)
  case (Cons f fs)
  obtain key where key: "lk_sendKey a = Some key" using Cons.prems(1) by (auto simp: in_step_def)
  then obtain ct a' where s: "seal h f a = (Some ct, a')" using Cons.prems(6) by (cases "seal h f a"; cases "fst (seal h f a)") auto
  obtain t ts' where ts: "ts = t # ts'" using Cons.prems(7) by (cases ts) auto
  have out: "seal_all h (f # fs) a = ((key, nonce (lk_sendEpoch a) (lk_sendCtr a), f, ct) # fst (seal_all h fs a'), snd (seal_all h fs a'))"
    using s key by (simp add: case_prod_beta Let_def)
  define b' where "b' = fst (onMessage cf h t ct (b, seen))"
  have "lk_sendEpoch a < REJECT_AFTER_EPOCHS"
  proof (rule ccontr)
    assume "\<not> ?thesis"
    then have "REJECT_AFTER_EPOCHS * lk_rekeyAfterFrames a \<le> lk_sendEpoch a * lk_rekeyAfterFrames a" by simp
    then show False using Cons.prems(5) unfolding at_record_def length_Cons by linarith
  qed
  then have one: "if f = [] then closeReason b' = REASON_CLEAN \<and> lk_closed b' \<and> handed b' = handed b else in_step a' b' \<and> handed b' = handed b @ [f]"
    using open_one [OF s Cons.prems(1,2,3) _ _ b'_def] Cons.prems(4) by simp
  have rest: "receive_all cf h seen (zip ts (map (\<lambda>(key, n, f, ct). ct) (fst (seal_all h (f # fs) a)))) b =
      receive_all cf h seen (zip ts' (map (\<lambda>(key, n, f, ct). ct) (fst (seal_all h fs a')))) b'" unfolding ts out b'_def by simp
  show ?case
  proof (cases "f = []")
    case True
    with one show ?thesis unfolding rest by (simp add: receive_all_closed Let_def)
  next
    case False
    have "lk_sendCtr a < lk_rekeyAfterFrames a" using Cons.prems(1) by (simp add: in_step_def)
    note st = seal_steps [OF s key this]
    have "at_record (lk_rekeyAfterFrames a') (lk_sendEpoch a') (lk_sendCtr a') + length fs \<le> REJECT_AFTER_EPOCHS * lk_rekeyAfterFrames a'"
      using Cons.prems(5) st by simp
    moreover have "in_step a' b'" "handed b' = handed b @ [f]" using one False by simp_all
    moreover have "length (fst (seal_all h fs a')) = length fs" using Cons.prems(6) out by simp
    ultimately have "let b'' = receive_all cf h seen (zip ts' (map (\<lambda>(key, n, f, ct). ct) (fst (seal_all h fs a')))) b'
      in handed b'' = handed b' @ takeWhile (\<lambda>f. f \<noteq> []) fs \<and> (if [] \<in> set fs then closeReason b'' = REASON_CLEAN else in_step (snd (seal_all h fs a')) b'')"
      using Cons.prems(2-4,7) ts by (intro Cons.IH) auto
    with False \<open>handed b' = handed b @ [f]\<close> show ?thesis unfolding rest unfolding out by (auto simp: Let_def)
  qed
qed simp


text \<open>C19: The record layer delivers all that is sealed. Where opening undoes sealing, a link that seals \<open>fs\<close>, ratcheting as it goes,
  and a link that starts in step with it and gets the sealed bodies in order: what the second hands on is \<open>fs\<close> up to the
  end-of-stream record; with one, it closes clean; without one, it stays open and in step for what is sealed next.\<close>

theorem records_delivered:
  assumes "in_step a b" "handed b = []" "aead_correct h" "hash_width h" "\<forall>f \<in> set fs. length f + TAG_LEN \<le> cf_maxFrameBytes cf"
    "at_record (lk_rekeyAfterFrames a) (lk_sendEpoch a) (lk_sendCtr a) + length fs \<le> REJECT_AFTER_EPOCHS * lk_rekeyAfterFrames a"
    "length (fst (seal_all h fs a)) = length fs" "length ts = length fs"
  shows "let b' = receive_all cf h seen (zip ts (map (\<lambda>(key, n, f, ct). ct) (fst (seal_all h fs a)))) b
    in handed b' = takeWhile (\<lambda>f. f \<noteq> []) fs \<and> (if [] \<in> set fs then closeReason b' = REASON_CLEAN else in_step (snd (seal_all h fs a)) b')"
  using delivery [OF assms(1,3-8)] assms(2) by (simp add: Let_def)

theorem records_delivered_witness:
  "handed (receive_all small_conf (small_host []) [] (zip (replicate 4 small_turn)
     (map (\<lambda>(key, n, f, ct). ct) (fst (seal_all (small_host []) [[7], [8], [9], []] small_end)))) small_end) = [[7], [8], [9]]"
  using records_delivered [of small_end small_end "small_host []" "[[7], [8], [9], []]" small_conf "replicate 4 small_turn" "[]"] small_laws [of "[]"] small_sealed(2)
  by (simp del: seal_all.simps add: in_step_def Let_def REJECT_AFTER_EPOCHS_def TAG_LEN_def small_conf_def at_record_def)

end
