(* ===== verification/Ake_Agree.thy ===== *)
theory Ake_Agree
  imports Ake_Record
begin

text \<open>
  The handshake between two honest links: step by step what each end holds and writes, and at the end that both are
  authenticated, name each other and hold the same keys.
\<close>

definition wires :: "out list \<Rightarrow> bytes list" where
  "wires os = concat (map (\<lambda>x. case x of Wire m \<Rightarrow> [m] | _ \<Rightarrow> []) os)"

definition sent :: "Link \<Rightarrow> bytes list" where
  "sent s = wires (lk_out s)"

lemma wires_append [simp]: "wires (xs @ ys) = wires xs @ wires ys"
  by (simp add: wires_def)

lemma wires_one [simp]: "wires [] = []" "wires [x] = (case x of Wire m \<Rightarrow> [m] | _ \<Rightarrow> [])"
  by (simp_all add: wires_def)

text \<open>Arming a deadline and telling the limiter, as updates.\<close>

definition arm_due :: "Turn \<Rightarrow> rat \<Rightarrow> rat option" where
  "arm_due t ms = (if ms > 0 then Some (tn_now t + ms) else None)"

definition told :: "bool \<Rightarrow> out \<Rightarrow> out list" where
  "told b x = (if b then [x] else [])"

lemma armDeadline_eq: "armDeadline t ms s = s\<lparr>lk_due := arm_due t ms, lk_out := lk_out s @ told (ms > 0) (Arm (tn_now t + ms))\<rparr>"
  by (cases s) (simp add: armDeadline_def dueIn_def emit_def arm_due_def told_def Let_def)

lemma armIdle_eq:
  "armIdle t s = s\<lparr>lk_lastSeen := tn_now t, lk_due := arm_due t (lk_idleMs s), lk_out := lk_out s @ told (lk_idleMs s > 0) (Arm (tn_now t + lk_idleMs s))\<rparr>"
  by (cases s) (simp add: armIdle_def dueIn_def emit_def arm_due_def told_def Let_def)

lemma emit_if: "(if b then emit x s else s) = s\<lparr>lk_out := lk_out s @ told b x\<rparr>"
  by (simp add: emit_def told_def)

lemma wires_told [simp]: "wires (told b x) = (if b then wires [x] else [])"
  by (simp add: told_def)

lemmas run_simps = need_def andthen_def Let_def rooted_def kdf_def kdf_shared_def wire_def guest_concatBytes_eq armDeadline_eq armIdle_eq emit_if
  emit_def clearEphemeral_def

section \<open>msg1\<close>

lemma boot_dial:
  assumes "lk_weDialed s" "lk_myEph s = None" "lk_myKem s = None" "lk_contactSecret s = Some secret" "rootKey h (lk_networkKey s) = Some rt"
    "boxKeypair h (tn_eph t) = Some (epk, esk)" "length epk = EPH_LEN" "kemKeypair h (tn_kem t) = Some (kpk, ksk)"
    "hash h [rt, SUITE_BYTE, epk, kpk] = Some ctx" "hash h [secret, ctx, LABEL_PROBE] = Some k" "sealZero h k [] = Some ct"
    "w1 = SUITE_BYTE @ epk @ kpk @ ct" "hash h [rt, w1] = Some th" "tn_wired t w1"
  shows "\<exists>due out. boot cf h t s = s\<lparr>lk_root := Some rt, lk_myEph := Some (epk, esk), lk_myKem := Some (kpk, ksk), lk_th := Some th,
    lk_due := due, lk_out := out\<rparr> \<and> wires out = wires (lk_out s) @ [w1]"
  using assms by (cases s) (simp add: boot_def ensureKeys_def sendMsg1_def probeContext_def probeKey_def run_simps)

lemma boot_accept:
  assumes "\<not> lk_weDialed s" "rootKey h (lk_networkKey s) = Some rt"
  shows "\<exists>due out. boot cf h t s = s\<lparr>lk_root := Some rt, lk_due := due, lk_out := out\<rparr> \<and> wires out = wires (lk_out s)"
  using assms by (cases s) (simp add: boot_def run_simps)

section \<open>msg2\<close>

lemma try_secrets_first:
  assumes "\<forall>x \<in> set before. \<exists>k. hash h [x, ctx, LABEL_PROBE] = Some k \<and> openZero h k ct = Some None"
    "hash h [secret, ctx, LABEL_PROBE] = Some k" "openZero h k ct = Some (Some pt)"
  shows "try_secrets h ctx ct (before @ secret # after) s = (Some True, s\<lparr>lk_contactSecret := Some secret\<rparr>)"
  using assms by (induction before arbitrary: s) (auto simp: probeKey_def kdf_def Let_def)

lemma msg1_answered:
  assumes s: "\<not> lk_weDialed s" "lk_myEph s = None" "lk_root s = Some rt"
    and w1: "w1 = SUITE_BYTE @ epkA @ kpk @ c1" "length epkA = EPH_LEN" "length kpk = KEM_PK_LEN" "length c1 = TAG_LEN"
    and probe: "tn_secrets t = Some (before @ secret # after)" "hash h [rt, SUITE_BYTE, epkA, kpk] = Some ctx"
      "\<forall>x \<in> set before. \<exists>k. hash h [x, ctx, LABEL_PROBE] = Some k \<and> openZero h k c1 = Some None"
      "hash h [secret, ctx, LABEL_PROBE] = Some k1" "openZero h k1 c1 = Some (Some [])" "\<not> probeSeen epkA seen" "lk_slot s \<longrightarrow> tn_promote t"
    and keys: "boxKeypair h (tn_eph t) = Some (epkB, eskB)" "length epkB = EPH_LEN" "scalarmult h eskB epkA = Some (Some ee)"
      "kemEncaps h kpk (tn_coins t) = Some (Some (kct, ss))"
    and sign: "hash h [rt, w1] = Some h1" "hash h [h1, epkB @ kct] = Some hs" "h N_SIGN (channelIdentityMessage rt hs (cf_ownPk cf)) = Some sig"
    and w2: "hash h [ee, ss, secret, hs, LABEL_M2] = Some k2" "sealZero h k2 sig = Some c2" "w2 = epkB @ kct @ c2" "hash h [h1, w2] = Some th" "tn_wired t w2"
  shows "\<exists>due out. onMsg1 cf h t w1 (s, seen) = (True, s\<lparr>lk_contactSecret := Some secret, lk_myEph := Some (epkB, eskB), lk_ee := Some ee,
    lk_kemSecret := Some ss, lk_peerEph := Some epkA, lk_th := Some th, lk_due := due, lk_out := out\<rparr>, rememberProbe epkA seen) \<and>
    wires out = wires (lk_out s) @ [w2]"
proof -
  have cut: "length w1 = M1_LEN" "elem_at w1 0 = Some SUITE_CHANNEL_CONCEALED" "subarray w1 SUITE_LEN (SUITE_LEN + EPH_LEN) = epkA"
    "subarray w1 (SUITE_LEN + EPH_LEN) (SUITE_LEN + EPH_LEN + KEM_PK_LEN) = kpk" "drop (SUITE_LEN + EPH_LEN + KEM_PK_LEN) w1 = c1" "take SUITE_LEN w1 = SUITE_BYTE"
    using w1 by (simp_all add: M1_LEN_def SUITE_BYTE_def SUITE_LEN_def elem_at_def subarray_def)
  note tried = try_secrets_first [OF probe(3-5), of after]
  show ?thesis using s probe(1,2,6,7) keys sign w2 tried
    by (cases s) (simp add: onMsg1_def answerMsg1_def ensureKeys_def signTranscript_def probeContext_def cut run_simps)
qed


section \<open>msg3\<close>

lemma becomeAuthed_ok:
  assumes "\<not> lk_closed s" "lk_slot s \<longrightarrow> tn_hold t" "\<not> tn_loses t" "lk_queue s = []"
  shows "\<exists>due out. becomeAuthed h t s = s\<lparr>lk_authed := True, lk_lastSeen := tn_now t, lk_queuedBytes := 0, lk_due := due, lk_out := out\<rparr> \<and>
    wires out = wires (lk_out s)"
  using assms by (cases s) (simp add: becomeAuthed_def takeQueued_def run_simps)

lemma derived:
  assumes "lk_th s = Some th" "lk_ee s = Some ee" "lk_kemSecret s = Some ss" "lk_contactSecret s = Some secret"
    "hash h [ee, ss, secret, th, LABEL_I2R] = Some ki" "hash h [ee, ss, secret, th, LABEL_R2I] = Some kr"
  shows "deriveConcealedSession h s = (True, clearEphemeral (if lk_weDialed s then s\<lparr>lk_sendKey := Some ki, lk_recvKey := Some kr\<rparr>
    else s\<lparr>lk_recvKey := Some ki, lk_sendKey := Some kr\<rparr>))"
  using assms by (simp add: deriveConcealedSession_def need_def Let_def kdf_shared_def kdf_def)

lemma msg2_answered:
  assumes s: "lk_weDialed s" "\<not> lk_closed s" "lk_queue s = []" "lk_myEph s = Some (epkA, eskA)" "lk_myKem s = Some (kpk, ksk)" "lk_root s = Some rt"
      "lk_contactSecret s = Some secret" "lk_th s = Some h1"
    and w2: "w2 = epkB @ kct @ c2" "length epkB = EPH_LEN" "length kct = KEM_CT_LEN" "length c2 = SIG_LEN + TAG_LEN"
    and keys: "scalarmult h eskA epkB = Some (Some ee)" "kemDecaps h ksk kct = Some (Some ss)"
    and peer: "hash h [h1, epkB @ kct] = Some hs" "hash h [ee, ss, secret, hs, LABEL_M2] = Some k2" "openZero h k2 c2 = Some (Some sigB)"
      "fromHex (lk_dialedPeerId s) = idB" "idB \<noteq> cf_ownPk cf" "verify h idB sigB (channelIdentityMessage rt hs idB) = Some True" "lk_lint s \<longrightarrow> admits cf idB"
    and sign: "hash h [h1, w2] = Some h2" "h N_SIGN (channelIdentityMessage rt h2 (cf_ownPk cf)) = Some sigA"
      "hash h [ee, ss, secret, h2, LABEL_M3] = Some k3" "sealZero h k3 (cf_ownPk cf @ sigA) = Some w3" "hash h [h2, w3] = Some th" "tn_wired t w3"
    and session: "hash h [ee, ss, secret, th, LABEL_I2R] = Some ki" "hash h [ee, ss, secret, th, LABEL_R2I] = Some kr"
    and routed: "lk_slot s \<longrightarrow> tn_hold t" "\<not> tn_loses t"
  shows "\<exists>due out. onMsg2 cf h t w2 s = (True, s\<lparr>lk_peerPubkey := Some idB, lk_peerId := lk_dialedPeerId s, lk_th := Some th, lk_sendKey := Some ki,
    lk_recvKey := Some kr, lk_myEph := None, lk_myKem := None, lk_ee := None, lk_kemSecret := None, lk_authed := True, lk_lastSeen := tn_now t,
    lk_queuedBytes := 0, lk_due := due, lk_out := out\<rparr>) \<and> wires out = wires (lk_out s) @ [w3]"
proof -
  have cut: "length w2 = M2_LEN" "take (EPH_LEN + KEM_CT_LEN) w2 = epkB @ kct" "drop (EPH_LEN + KEM_CT_LEN) w2 = c2"
    "take EPH_LEN (epkB @ kct) = epkB" "drop EPH_LEN (epkB @ kct) = kct" using w2 by (simp_all add: M2_LEN_def)
  let ?u = "s\<lparr>lk_ee := Some ee, lk_kemSecret := Some ss, lk_peerPubkey := Some idB, lk_peerId := lk_dialedPeerId s, lk_th := Some th\<rparr>"
  let ?v = "clearEphemeral (?u\<lparr>lk_sendKey := Some ki, lk_recvKey := Some kr\<rparr>)"
  let ?w = "emit (Wire w3) ?v"
  have d: "deriveConcealedSession h ?u = (True, ?v)" using derived [of ?u th ee ss secret h ki kr] s(1,7) session by simp
  have "onMsg2 cf h t w2 s = (True, becomeAuthed h t ?w)"
    using s(4-8) keys peer sign d w2(2,3) by (simp add: onMsg2_def cut signTranscript_def bytesCompare_zero need_def andthen_def Let_def kdf_shared_def kdf_def wire_def guest_concatBytes_eq) blast
  moreover obtain due out where "becomeAuthed h t ?w = ?w\<lparr>lk_authed := True, lk_lastSeen := tn_now t, lk_queuedBytes := 0, lk_due := due, lk_out := out\<rparr>" "wires out = wires (lk_out ?w)"
    using becomeAuthed_ok [of ?w t h] s(2,3) routed by (auto simp: emit_def clearEphemeral_def)
  ultimately show ?thesis by (intro exI [of _ due] exI [of _ out]) (auto simp: emit_def clearEphemeral_def intro!: Link.equality)
qed

lemma msg3_taken:
  assumes s: "\<not> lk_weDialed s" "\<not> lk_closed s" "lk_queue s = []" "lk_root s = Some rt" "lk_contactSecret s = Some secret" "lk_th s = Some h2"
      "lk_ee s = Some ee" "lk_kemSecret s = Some ss"
    and peer: "length w3 = M3_LEN" "hash h [ee, ss, secret, h2, LABEL_M3] = Some k3" "openZero h k3 w3 = Some (Some (idA @ sigA))" "length idA = PK_LEN" "length sigA = SIG_LEN"
      "verify h idA sigA (channelIdentityMessage rt h2 idA) = Some True" "idA \<noteq> cf_ownPk cf" "lk_lint s \<longrightarrow> admits cf idA"
      "lk_acceptPeerId s = [] \<or> lk_acceptPeerId s = guest_toHex idA"
    and session: "hash h [h2, w3] = Some th" "hash h [ee, ss, secret, th, LABEL_I2R] = Some ki" "hash h [ee, ss, secret, th, LABEL_R2I] = Some kr"
    and routed: "lk_slot s \<longrightarrow> tn_hold t" "\<not> tn_loses t"
  shows "\<exists>due out. onMsg3 cf h t w3 s = (True, s\<lparr>lk_peerPubkey := Some idA, lk_peerId := guest_toHex idA, lk_th := Some th, lk_sendKey := Some kr,
    lk_recvKey := Some ki, lk_myEph := None, lk_myKem := None, lk_ee := None, lk_kemSecret := None, lk_authed := True, lk_lastSeen := tn_now t,
    lk_queuedBytes := 0, lk_due := due, lk_out := out\<rparr>) \<and> wires out = wires (lk_out s)"
proof -
  let ?u = "s\<lparr>lk_peerPubkey := Some idA, lk_peerId := guest_toHex idA, lk_th := Some th\<rparr>"
  let ?v = "clearEphemeral (?u\<lparr>lk_recvKey := Some ki, lk_sendKey := Some kr\<rparr>)"
  have d: "deriveConcealedSession h ?u = (True, ?v)" using derived [of ?u th ee ss secret h ki kr] s session by simp
  have "onMsg3 cf h t w3 s = (True, becomeAuthed h t ?v)"
    using s(4-8) peer session(1) d
    by (auto simp: onMsg3_def openIdentity_def bytesCompare_zero need_def Let_def kdf_shared_def kdf_def subarray_def)
  moreover obtain due out where "becomeAuthed h t ?v = ?v\<lparr>lk_authed := True, lk_lastSeen := tn_now t, lk_queuedBytes := 0, lk_due := due, lk_out := out\<rparr>" "wires out = wires (lk_out ?v)"
    using becomeAuthed_ok [of ?v t h] s(2,3) routed by (auto simp: clearEphemeral_def)
  ultimately show ?thesis by (intro exI [of _ due] exI [of _ out]) (auto simp: clearEphemeral_def intro!: Link.equality)
qed


section \<open>Agreement\<close>

text \<open>A dial and an accept started, and the three messages each carried to the other end.\<close>

definition exchange :: "Conf \<Rightarrow> seam \<Rightarrow> Conf \<Rightarrow> seam \<Rightarrow> Turn \<times> Turn \<Rightarrow> Turn \<times> Turn \<times> Turn \<Rightarrow> Link \<Rightarrow> Link \<Rightarrow> jstr list \<Rightarrow> Link \<times> Link \<times> jstr list" where
  "exchange cfA hA cfB hB = (\<lambda>(t1, t4) (t2, t3, t5) a b seen.
     let a = fst (work_turn cfA hA t1 (a, [])); b = fst (work_turn cfB hB t2 (b, seen));
         (b, seen) = onMessage cfB hB t3 (sent a ! 0) (b, seen);
         a = fst (onMessage cfA hA t4 (sent b ! 0) (a, []));
         (b, seen) = onMessage cfB hB t5 (sent a ! 1) (b, seen)
     in (a, b, seen))"

definition suite_ok :: "seam \<Rightarrow> bool" where
  "suite_ok h \<longleftrightarrow> hash_width h \<and> aead_correct h \<and> answers h \<and> dh_correct h \<and> kem_correct h"

text \<open>A step whose draws have their widths, whose writes the channel takes and whose slot the limiter grants.\<close>

definition willing :: "Turn \<Rightarrow> bool" where
  "willing t \<longleftrightarrow> length (tn_eph t) = 32 \<and> length (tn_kem t) = 64 \<and> length (tn_coins t) = 32 \<and> (\<forall>m. tn_wired t m) \<and> tn_promote t \<and> tn_hold t \<and> \<not> tn_loses t"

definition opens_apart :: "seam \<Rightarrow> bytes \<Rightarrow> bytes \<Rightarrow> bool" where
  "opens_apart h secret x \<longleftrightarrow> (\<forall>ctx k k' ct. hash h [secret, ctx, LABEL_PROBE] = Some k \<and> hash h [x, ctx, LABEL_PROBE] = Some k' \<and> sealZero h k [] = Some ct \<longrightarrow>
     openZero h k' ct = Some None)"

lemma same_suite_calls:
  assumes "same_suite h h'"
  shows "hash h' = hash h" "verify h' = verify h" "sealZero h' = sealZero h" "openZero h' = openZero h" "scalarmult h' = scalarmult h" "boxKeypair h' = boxKeypair h"
    "kemKeypair h' = kemKeypair h" "kemEncaps h' = kemEncaps h" "kemDecaps h' = kemDecaps h" "rootKey h' = rootKey h"
  using assms seam_names_distinct [THEN not_sym]
  by (auto simp: fun_eq_iff same_suite_def hash_def verify_def sealZero_def openZero_def aeadEnc_def aeadDec_def scalarmult_def boxKeypair_def kemCall_def
      kemKeypair_def kemEncaps_def kemDecaps_def rootKey_def)

lemma suite_hash: "suite_ok h \<Longrightarrow> \<exists>x. hash h ps = Some x \<and> length x = 32"
  unfolding suite_ok_def answers_def hash_width_def by (metis option.exhaust)

lemma suite_seal: "suite_ok h \<Longrightarrow> length k = 32 \<Longrightarrow> \<exists>ct. sealZero h k m = Some ct \<and> openZero h k ct = Some (Some m) \<and> length ct = length m + TAG_LEN"
  unfolding suite_ok_def answers_def aead_correct_def sealZero_def openZero_def ZERO_NPUB_def by (metis length_replicate option.exhaust)

lemma suite_exchange:
  assumes "suite_ok h" "length a = 32" "length b = 32"
  obtains pa pb x where "boxKeypair h a = Some (pa, a)" "boxKeypair h b = Some (pb, b)" "length pa = EPH_LEN" "length pb = EPH_LEN"
    "scalarmult h a pb = Some (Some x)" "scalarmult h b pa = Some (Some x)"
proof -
  obtain pa pb x where "scalarmult h a X25519_BASEPOINT = Some (Some pa)" "scalarmult h b X25519_BASEPOINT = Some (Some pb)" "length pa = EPH_LEN" "length pb = EPH_LEN"
      "scalarmult h a pb = Some (Some x)" "scalarmult h b pa = Some (Some x)" using assms unfolding suite_ok_def dh_correct_def by metis
  then show ?thesis using that by (simp add: boxKeypair_def)
qed

lemma started:
  fixes sp :: LinkSpec
  assumes "slot \<noteq> Some False"
  defines "s \<equiv> (new_Link sp slot)\<lparr>lk_work := []\<rparr>"
  shows "lk_work (new_Link sp slot) = [Boot]" "lk_weDialed s = sp_weDialed sp" "lk_dialedPeerId s = sp_dialedPeerId sp" "lk_acceptPeerId s = sp_acceptPeerId sp"
    "lk_contactSecret s = sp_linkSecret sp" "lk_networkKey s = sp_networkKey sp" "lk_lint s = sp_lint sp" "lk_rekeyAfterFrames s = sp_rekeyAfterFrames sp"
    "lk_myEph s = None" "lk_myKem s = None" "lk_peerEph s = None" "lk_queue s = []" "\<not> lk_authed s" "\<not> lk_closed s" "\<not> lk_stalled s" "lk_out s = []"
    "lk_sendEpoch s = 0" "lk_sendCtr s = 0" "lk_recvEpoch s = 0" "lk_recvCtr s = 0"
  using assms(1) by (simp_all add: s_def new_Link_def enqueue_def Let_def)

lemma remembered: "probeSeen e (rememberProbe e seen)"
  by (simp add: probeSeen_def rememberProbe_def Let_def)

lemma exchange_ok:
  assumes suite: "suite_ok hA" "same_suite hA hB" "signs hA (cf_ownPk cfA) hB" "signs hB (cf_ownPk cfB) hA"
    and ids: "length (cf_ownPk cfA) = PK_LEN" "cf_ownPk cfA \<noteq> cf_ownPk cfB" "sp_lint spA \<longrightarrow> admits cfA (cf_ownPk cfB)" "sp_lint spB \<longrightarrow> admits cfB (cf_ownPk cfA)"
    and dial: "sp_weDialed spA" "sp_dialedPeerId spA = guest_toHex (cf_ownPk cfB)" "sp_linkSecret spA = Some secret" "slotA \<noteq> Some False"
    and accept: "\<not> sp_weDialed spB" "sp_acceptPeerId spB = [] \<or> sp_acceptPeerId spB = guest_toHex (cf_ownPk cfA)" "slotB \<noteq> Some False"
    and net: "sp_networkKey spA = sp_networkKey spB" "sp_rekeyAfterFrames spA = sp_rekeyAfterFrames spB" "0 < sp_rekeyAfterFrames spA"
    and turns: "willing t1" "willing t2" "willing t3" "willing t4" "willing t5" "tn_secrets t3 = Some (before @ secret # after)" "\<forall>x \<in> set before. opens_apart hA secret x"
    and fresh: "boxKeypair hA (tn_eph t1) = Some (eph, esk)" "\<not> probeSeen eph seen"
  shows "case exchange cfA hA cfB hB (t1, t4) (t2, t3, t5) (new_Link spA slotA) (new_Link spB slotB) seen of (a, b, seen') \<Rightarrow>
    in_step a b \<and> in_step b a \<and> lk_peerPubkey a = Some (cf_ownPk cfB) \<and> lk_peerPubkey b = Some (cf_ownPk cfA) \<and>
    lk_peerId a = guest_toHex (cf_ownPk cfB) \<and> lk_peerId b = guest_toHex (cf_ownPk cfA) \<and> probeSeen eph seen' \<and>
    (\<exists>a1 w2. fst (work_turn cfA hA t1 (new_Link spA slotA, [])) = a1 \<and> lk_work a1 = [] \<and> a = fst (onMessage cfA hA t4 w2 (a1, []))) \<and>
    (\<exists>b1 b2 w1 w3 seen2. fst (work_turn cfB hB t2 (new_Link spB slotB, seen)) = b1 \<and> lk_work b1 = [] \<and> fst (onMessage cfB hB t3 w1 (b1, seen)) = b2 \<and>
       lk_work b2 = [] \<and> b = fst (onMessage cfB hB t5 w3 (b2, seen2)))"
proof -
  let ?pA = "cf_ownPk cfA" and ?pB = "cf_ownPk cfB" and ?h = hA
  note eqs = same_suite_calls [OF suite(2)]
  have len: "length (tn_eph t1) = 32" "length (tn_eph t3) = 32" "length (tn_kem t1) = 64" "length (tn_coins t3) = 32" using turns by (auto simp: willing_def)
  obtain eA eB ee where dh: "boxKeypair ?h (tn_eph t1) = Some (eA, tn_eph t1)" "boxKeypair ?h (tn_eph t3) = Some (eB, tn_eph t3)" "length eA = EPH_LEN" "length eB = EPH_LEN"
    "scalarmult ?h (tn_eph t1) eB = Some (Some ee)" "scalarmult ?h (tn_eph t3) eA = Some (Some ee)" using suite_exchange [OF suite(1) len(1,2)] by blast
  have eph: "eph = eA" using fresh(1) dh(1) by simp
  obtain kpk ksk kct ss where kem: "kemKeypair ?h (tn_kem t1) = Some (kpk, ksk)" "length kpk = KEM_PK_LEN" "kemEncaps ?h kpk (tn_coins t3) = Some (Some (kct, ss))"
    "length kct = KEM_CT_LEN" "kemDecaps ?h ksk kct = Some (Some ss)" using suite(1) len(3,4) unfolding suite_ok_def kem_correct_def by metis
  note hashes = suite_hash [OF suite(1)] and seals = suite_seal [OF suite(1)]
  obtain rt where rt: "rootKey ?h (sp_networkKey spA) = Some rt" using hashes by (auto simp: rootKey_def)
  obtain ctx where ctx: "hash ?h [rt, SUITE_BYTE, eA, kpk] = Some ctx" using hashes by blast
  obtain k1 where k1: "hash ?h [secret, ctx, LABEL_PROBE] = Some k1" "length k1 = 32" using hashes by blast
  obtain c1 where c1: "sealZero ?h k1 [] = Some c1" "openZero ?h k1 c1 = Some (Some [])" "length c1 = TAG_LEN" using seals [OF k1(2), of "[]"] by auto
  define w1 where "w1 = SUITE_BYTE @ eA @ kpk @ c1"
  obtain h1 where h1: "hash ?h [rt, w1] = Some h1" using hashes by blast
  obtain hs where hs: "hash ?h [h1, eB @ kct] = Some hs" using hashes by blast
  obtain sB where sB: "hB N_SIGN (channelIdentityMessage rt hs ?pB) = Some sB" "length sB = SIG_LEN" "verify ?h ?pB sB (channelIdentityMessage rt hs ?pB) = Some True"
    using suite(4) unfolding signs_def by blast
  obtain k2 where k2: "hash ?h [ee, ss, secret, hs, LABEL_M2] = Some k2" "length k2 = 32" using hashes by blast
  obtain c2 where c2: "sealZero ?h k2 sB = Some c2" "openZero ?h k2 c2 = Some (Some sB)" "length c2 = SIG_LEN + TAG_LEN" using seals [OF k2(2), of sB] sB(2) by auto
  define w2 where "w2 = eB @ kct @ c2"
  obtain h2 where h2: "hash ?h [h1, w2] = Some h2" using hashes by blast
  obtain sA where sA: "hA N_SIGN (channelIdentityMessage rt h2 ?pA) = Some sA" "length sA = SIG_LEN" "verify ?h ?pA sA (channelIdentityMessage rt h2 ?pA) = Some True"
    using suite(3) eqs(2) unfolding signs_def by metis
  obtain k3 where k3: "hash ?h [ee, ss, secret, h2, LABEL_M3] = Some k3" "length k3 = 32" using hashes by blast
  obtain w3 where w3: "sealZero ?h k3 (?pA @ sA) = Some w3" "openZero ?h k3 w3 = Some (Some (?pA @ sA))" "length w3 = M3_LEN"
    using seals [OF k3(2), of "?pA @ sA"] sA(2) ids(1) by (auto simp: M3_LEN_def)
  obtain th where th: "hash ?h [h2, w3] = Some th" using hashes by blast
  obtain ki kr where ki: "hash ?h [ee, ss, secret, th, LABEL_I2R] = Some ki" "length ki = 32" and kr: "hash ?h [ee, ss, secret, th, LABEL_R2I] = Some kr" "length kr = 32"
    using hashes by metis
  have before: "\<forall>x \<in> set before. \<exists>k. hash ?h [x, ctx, LABEL_PROBE] = Some k \<and> openZero ?h k c1 = Some None"
    using turns(7) k1(1) c1(1) hashes unfolding opens_apart_def by metis
  let ?a0 = "(new_Link spA slotA)\<lparr>lk_work := []\<rparr>" and ?b0 = "(new_Link spB slotB)\<lparr>lk_work := []\<rparr>"
  note newA = started [OF dial(4), of spA] and newB = started [OF accept(3), of spB]
  obtain d1 o1 where a1: "boot cfA hA t1 ?a0 = ?a0\<lparr>lk_root := Some rt, lk_myEph := Some (eA, tn_eph t1), lk_myKem := Some (kpk, ksk), lk_th := Some h1, lk_due := d1, lk_out := o1\<rparr>"
    "wires o1 = [w1]"
    using boot_dial [where s = ?a0 and h = hA and t = t1 and cf = cfA, OF _ _ _ _ _ dh(1) dh(3) kem(1) ctx k1(1) c1(1) w1_def h1] rt dial turns(1) newA
    by (auto simp: willing_def)
  obtain d2 o2 where b1: "boot cfB hB t2 ?b0 = ?b0\<lparr>lk_root := Some rt, lk_due := d2, lk_out := o2\<rparr>" "wires o2 = []"
    using boot_accept [where s = ?b0 and h = hB and t = t2 and cf = cfB] rt eqs(10) net(1) accept(1) newB by auto
  let ?b1 = "?b0\<lparr>lk_root := Some rt, lk_due := d2, lk_out := o2\<rparr>"
  obtain d3 o3 where b2: "onMsg1 cfB hB t3 w1 (?b1, seen) = (True, ?b1\<lparr>lk_contactSecret := Some secret, lk_myEph := Some (eB, tn_eph t3), lk_ee := Some ee,
      lk_kemSecret := Some ss, lk_peerEph := Some eA, lk_th := Some h2, lk_due := d3, lk_out := o3\<rparr>, rememberProbe eA seen)" "wires o3 = [w2]"
    using msg1_answered [where s = ?b1 and h = hB and t = t3 and cf = cfB, unfolded eqs,
        OF _ _ _ w1_def dh(3) kem(2) c1(3) turns(6) ctx before k1(1) c1(2) fresh(2) [unfolded eph] _ dh(2,4,6) kem(3) h1 hs sB(1) k2(1) c2(1) w2_def h2]
      newB b1 turns(3) accept(1) by (auto simp: willing_def)
  let ?a1 = "?a0\<lparr>lk_root := Some rt, lk_myEph := Some (eA, tn_eph t1), lk_myKem := Some (kpk, ksk), lk_th := Some h1, lk_due := d1, lk_out := o1\<rparr>"
  let ?b2 = "?b1\<lparr>lk_contactSecret := Some secret, lk_myEph := Some (eB, tn_eph t3), lk_ee := Some ee,
      lk_kemSecret := Some ss, lk_peerEph := Some eA, lk_th := Some h2, lk_due := d3, lk_out := o3\<rparr>"
  have idB: "fromHex (guest_toHex ?pB) = ?pB" using fromHex_toHex [of ?pB] by (simp add: guest_toHex_eq toHex_eq_concat)
  obtain d4 o4 where a2: "onMsg2 cfA hA t4 w2 ?a1 = (True, ?a1\<lparr>lk_peerPubkey := Some ?pB, lk_peerId := lk_dialedPeerId ?a1, lk_th := Some th, lk_sendKey := Some ki,
      lk_recvKey := Some kr, lk_myEph := None, lk_myKem := None, lk_ee := None, lk_kemSecret := None, lk_authed := True, lk_lastSeen := tn_now t4,
      lk_queuedBytes := 0, lk_due := d4, lk_out := o4\<rparr>)" "wires o4 = [w1, w3]"
    using msg2_answered [where s = ?a1 and h = hA and t = t4 and cf = cfA and epkA = eA and kpk = kpk and idB = ?pB, OF _ _ _ _ _ _ _ _ w2_def dh(4) kem(4) c2(3) dh(5) kem(5) hs k2(1) c2(2) _ _ sB(3) _ h2 sA(1)
        k3(1) w3(1) th _ ki(1) kr(1)] newA a1(2) turns(4) dial idB ids(2) [symmetric] ids(3) by (auto simp: willing_def)
  obtain d5 o5 where b3: "onMsg3 cfB hB t5 w3 ?b2 = (True, ?b2\<lparr>lk_peerPubkey := Some ?pA, lk_peerId := guest_toHex ?pA, lk_th := Some th, lk_sendKey := Some kr,
      lk_recvKey := Some ki, lk_myEph := None, lk_myKem := None, lk_ee := None, lk_kemSecret := None, lk_authed := True, lk_lastSeen := tn_now t5,
      lk_queuedBytes := 0, lk_due := d5, lk_out := o5\<rparr>)"
    using msg3_taken [where s = ?b2 and h = hB and t = t5 and cf = cfB, unfolded eqs, OF _ _ _ _ _ _ _ _ w3(3) k3(1) w3(2) ids(1) sA(2,3) _ _ _ th ki(1) kr(1)]
      newB turns(5) accept ids by auto (auto simp: willing_def)
  have starts: "fst (work_turn cfA hA t1 (new_Link spA slotA, [])) = ?a1" "fst (work_turn cfB hB t2 (new_Link spB slotB, seen)) = ?b1"
    using a1(1) b1(1) newA(1) newB(1) by (simp_all add: work_turn_def)
  moreover have msg1: "onMessage cfB hB t3 w1 (?b1, seen) = (?b2, rememberProbe eA seen)" using b2(1) newB accept(1) by (simp add: onMessage_def)
  moreover obtain a2' where A: "fst (onMessage cfA hA t4 w2 (?a1, [])) = a2'" "sent a2' ! 1 = w3" "lk_sendKey a2' = Some ki" "lk_recvKey a2' = Some kr"
      "lk_sendEpoch a2' = 0" "lk_sendCtr a2' = 0" "lk_recvEpoch a2' = 0" "lk_recvCtr a2' = 0" "lk_rekeyAfterFrames a2' = sp_rekeyAfterFrames spA" "lk_authed a2'" "\<not> lk_closed a2'"
      "\<not> lk_stalled a2'" "lk_peerPubkey a2' = Some ?pB" "lk_peerId a2' = guest_toHex ?pB"
    using a2 newA dial by (simp add: onMessage_def sent_def)
  moreover obtain b3' where B: "onMessage cfB hB t5 w3 (?b2, rememberProbe eA seen) = (b3', rememberProbe eA seen)" "lk_sendKey b3' = Some kr" "lk_recvKey b3' = Some ki"
      "lk_sendEpoch b3' = 0" "lk_sendCtr b3' = 0" "lk_recvEpoch b3' = 0" "lk_recvCtr b3' = 0" "lk_rekeyAfterFrames b3' = sp_rekeyAfterFrames spA" "lk_authed b3'" "\<not> lk_closed b3'"
      "\<not> lk_stalled b3'" "lk_peerPubkey b3' = Some ?pA" "lk_peerId b3' = guest_toHex ?pA"
    using b3 newB accept net by (simp add: onMessage_def)
  moreover have "sent ?a1 ! 0 = w1" "sent ?b2 ! 0 = w2" using a1(2) b2(2) by (simp_all add: sent_def)
  ultimately have x: "exchange cfA hA cfB hB (t1, t4) (t2, t3, t5) (new_Link spA slotA) (new_Link spB slotB) seen = (a2', b3', rememberProbe eA seen)"
    by (simp add: exchange_def Let_def)
  have "\<exists>a1 w2. fst (work_turn cfA hA t1 (new_Link spA slotA, [])) = a1 \<and> lk_work a1 = [] \<and> a2' = fst (onMessage cfA hA t4 w2 (a1, []))"
    by (rule exI [of _ ?a1], rule exI [of _ w2]) (simp add: starts A(1))
  moreover have "\<exists>b1 b2 w1 w3 seen2. fst (work_turn cfB hB t2 (new_Link spB slotB, seen)) = b1 \<and> lk_work b1 = [] \<and> fst (onMessage cfB hB t3 w1 (b1, seen)) = b2 \<and>
       lk_work b2 = [] \<and> b3' = fst (onMessage cfB hB t5 w3 (b2, seen2))"
    by (rule exI [of _ ?b1], rule exI [of _ ?b2], rule exI [of _ w1], rule exI [of _ w3], rule exI [of _ "rememberProbe eA seen"]) (use starts msg1 B(1) in simp)
  ultimately show ?thesis unfolding x prod.case using A B net(3) ki(2) kr(2) eph by (simp add: in_step_def remembered)
qed


text \<open>C17: Two honest ends of a link agree. Let a node dial another over a host whose primitives keep their laws, presenting one of the
  secrets the other accepts, each the peer the other is after and neither refused by limiter, lint or replay memory. Once the three
  messages have crossed, both links are authenticated, each names the other's key, the dialer's sending keys and counters
  are the accepter's receiving ones and the other way round, and the dialer's msg1 is remembered.\<close>

theorem ake_agreement:
  assumes suite: "suite_ok hA" "same_suite hA hB" "signs hA (cf_ownPk cfA) hB" "signs hB (cf_ownPk cfB) hA"
    and ids: "length (cf_ownPk cfA) = PK_LEN" "cf_ownPk cfA \<noteq> cf_ownPk cfB" "sp_lint spA \<longrightarrow> admits cfA (cf_ownPk cfB)" "sp_lint spB \<longrightarrow> admits cfB (cf_ownPk cfA)"
    and dial: "sp_weDialed spA" "sp_dialedPeerId spA = guest_toHex (cf_ownPk cfB)" "sp_linkSecret spA = Some secret" "slotA \<noteq> Some False"
    and accept: "\<not> sp_weDialed spB" "sp_acceptPeerId spB = [] \<or> sp_acceptPeerId spB = guest_toHex (cf_ownPk cfA)" "slotB \<noteq> Some False"
    and net: "sp_networkKey spA = sp_networkKey spB" "sp_rekeyAfterFrames spA = sp_rekeyAfterFrames spB" "0 < sp_rekeyAfterFrames spA"
    and turns: "willing t1" "willing t2" "willing t3" "willing t4" "willing t5" "tn_secrets t3 = Some (before @ secret # after)" "\<forall>x \<in> set before. opens_apart hA secret x"
    and fresh: "boxKeypair hA (tn_eph t1) = Some (eph, esk)" "\<not> probeSeen eph seen"
  shows "case exchange cfA hA cfB hB (t1, t4) (t2, t3, t5) (new_Link spA slotA) (new_Link spB slotB) seen of (a, b, seen') \<Rightarrow>
    in_step a b \<and> in_step b a \<and> lk_peerPubkey a = Some (cf_ownPk cfB) \<and> lk_peerPubkey b = Some (cf_ownPk cfA) \<and>
    lk_peerId a = guest_toHex (cf_ownPk cfB) \<and> lk_peerId b = guest_toHex (cf_ownPk cfA) \<and> probeSeen eph seen'"
  using exchange_ok [OF assms] by (auto split: prod.splits)

definition small_dial :: LinkSpec where
  "small_dial = \<lparr>sp_weDialed = True, sp_framed = True, sp_dialedPeerId = guest_toHex (replicate 32 7), sp_acceptPeerId = [], sp_linkSecret = Some [1],
     sp_networkKey = replicate 32 0, sp_lint = False, sp_idleMs = 0, sp_rekeyAfterFrames = 2\<rparr>"

definition small_accept :: LinkSpec where
  "small_accept = small_dial\<lparr>sp_weDialed := False, sp_dialedPeerId := [], sp_linkSecret := None\<rparr>"

definition small_secrets :: Turn where
  "small_secrets = small_turn\<lparr>tn_secrets := Some [[2], [1]]\<rparr>"

lemma small_apart: "opens_apart (small_host pk) [1] [2]"
  by (auto simp: opens_apart_def sealZero_def openZero_def small_hash small_seal small_open ZERO_NPUB_def TAG_LEN_def)

abbreviation "small_A \<equiv> small_host (replicate 32 2)"
abbreviation "small_B \<equiv> small_host (replicate 32 7)"
abbreviation "small_peer \<equiv> small_conf\<lparr>cf_ownPk := replicate 32 7\<rparr>"

lemma small_handshake:
  "suite_ok small_A" "same_suite small_A small_B" "signs small_A (cf_ownPk small_conf) small_B" "signs small_B (cf_ownPk small_peer) small_A"
  "length (cf_ownPk small_conf) = PK_LEN" "cf_ownPk small_conf \<noteq> cf_ownPk small_peer"
  "sp_lint small_dial \<longrightarrow> admits small_conf (cf_ownPk small_peer)" "sp_lint small_accept \<longrightarrow> admits small_peer (cf_ownPk small_conf)"
  "sp_weDialed small_dial" "sp_dialedPeerId small_dial = guest_toHex (cf_ownPk small_peer)" "sp_linkSecret small_dial = Some [1]" "None \<noteq> Some False"
  "\<not> sp_weDialed small_accept" "sp_acceptPeerId small_accept = [] \<or> sp_acceptPeerId small_accept = guest_toHex (cf_ownPk small_conf)" "Some True \<noteq> Some False"
  "sp_networkKey small_dial = sp_networkKey small_accept" "sp_rekeyAfterFrames small_dial = sp_rekeyAfterFrames small_accept" "0 < sp_rekeyAfterFrames small_dial"
  "willing small_turn" "willing small_turn" "willing small_secrets" "willing small_turn" "willing small_turn"
  "tn_secrets small_secrets = Some ([[2]] @ [1] # [])" "\<forall>x \<in> set [[2]]. opens_apart small_A [1] x"
  "boxKeypair small_A (tn_eph small_turn) = Some (map2 (XOR) (replicate 32 4) X25519_BASEPOINT, replicate 32 4)"
  "\<not> probeSeen (map2 (XOR) (replicate 32 4) X25519_BASEPOINT) []"
  using small_laws small_exchange small_apart small_signs [of "replicate 32 2" "replicate 32 7"] small_signs [of "replicate 32 7" "replicate 32 2"]
  by (simp_all add: suite_ok_def small_conf_def small_dial_def small_accept_def small_secrets_def small_turn_def PK_LEN_def willing_def probeSeen_def boxKeypair_def small_dh
      X25519_BASEPOINT_def)

theorem ake_agreement_witness:
  "case exchange small_conf small_A small_peer small_B (small_turn, small_turn) (small_turn, small_secrets, small_turn)
      (new_Link small_dial None) (new_Link small_accept (Some True)) [] of (a, b, seen') \<Rightarrow>
    in_step a b \<and> in_step b a \<and> lk_peerPubkey a = Some (replicate 32 7) \<and> lk_peerPubkey b = Some (replicate 32 2)"
  using ake_agreement [OF small_handshake] by (auto simp: small_conf_def split: prod.splits)

end
