(* ===== verification/Ake_Auth.thy ===== *)
theory Ake_Auth
  imports Ake_Agree
begin

text \<open>
  What a link has established when it says it is authenticated, whatever its peer, its channel and its host do: every run of a
  link, from its constructor through any sequence of its operations.
\<close>

section \<open>Runs\<close>

text \<open>\<open>S\<close> holds the secrets an accept may be asked with.\<close>

inductive link_run :: "Conf \<Rightarrow> seam \<Rightarrow> bytes set \<Rightarrow> LinkSpec \<Rightarrow> Link \<Rightarrow> bool" for cf h S sp where
  run_new: "link_run cf h S sp (new_Link sp slot)"
| run_work: "link_run cf h S sp s \<Longrightarrow> (\<And>xs. tn_secrets t = Some xs \<Longrightarrow> set xs \<subseteq> S) \<Longrightarrow> link_run cf h S sp (fst (work_turn cf h t (s, seen)))"
| run_send: "link_run cf h S sp s \<Longrightarrow> link_run cf h S sp (send cf t frame s)"
| run_takeQueued: "link_run cf h S sp s \<Longrightarrow> link_run cf h S sp (snd (takeQueued s))"
| run_close: "link_run cf h S sp s \<Longrightarrow> link_run cf h S sp (close_link s)"
| run_abort: "link_run cf h S sp s \<Longrightarrow> link_run cf h S sp (abort defensive s)"
| run_onWire: "link_run cf h S sp s \<Longrightarrow> link_run cf h S sp (onWire cf b s)"
| run_framed: "link_run cf h S sp s \<Longrightarrow> link_run cf h S sp (onWire_framed msgs s)"
| run_refuse: "link_run cf h S sp s \<Longrightarrow> link_run cf h S sp (refuse s)"
| run_onChannelClosed: "link_run cf h S sp s \<Longrightarrow> link_run cf h S sp (onChannelClosed s)"
| run_onWake: "link_run cf h S sp s \<Longrightarrow> link_run cf h S sp (snd (onWake now s))"

section \<open>Steps that only keep books\<close>

definition frames_out :: "out list \<Rightarrow> (jstr \<times> bytes \<times> bytes) list" where
  "frames_out os = concat (map (\<lambda>x. case x of OnFrame p pt pk \<Rightarrow> [(p, pt, pk)] | _ \<Rightarrow> []) os)"

lemma frames_out_simps [simp]: "frames_out [] = []" "frames_out (xs @ ys) = frames_out xs @ frames_out ys"
  "frames_out [x] = (case x of OnFrame p pt pk \<Rightarrow> [(p, pt, pk)] | _ \<Rightarrow> [])"
  by (simp_all add: frames_out_def)

lemma frames_told [simp]: "frames_out (told b x) = (if b then frames_out [x] else [])"
  by (simp add: told_def)

definition active :: "Link \<Rightarrow> bool" where
  "active s \<longleftrightarrow> \<not> lk_closed s \<and> \<not> lk_stalled s \<and> \<not> lk_authed s"

text \<open>What a step that is no handshake message leaves: who the peer is, the transcript, and what was handed on; it writes only with a session key.\<close>

definition keeps :: "Link \<Rightarrow> Link \<Rightarrow> bool" where
  "keeps s s' \<longleftrightarrow> lk_weDialed s' = lk_weDialed s \<and> lk_dialedPeerId s' = lk_dialedPeerId s \<and> lk_acceptPeerId s' = lk_acceptPeerId s \<and>
     lk_networkKey s' = lk_networkKey s \<and> lk_lint s' = lk_lint s \<and> lk_root s' = lk_root s \<and> lk_contactSecret s' = lk_contactSecret s \<and>
     lk_peerPubkey s' = lk_peerPubkey s \<and> lk_peerId s' = lk_peerId s \<and> lk_authed s' = lk_authed s \<and> lk_peerEph s' = lk_peerEph s \<and> lk_th s' = lk_th s \<and>
     frames_out (lk_out s') = frames_out (lk_out s) \<and> (\<exists>ws. sent s' = sent s @ ws \<and> (ws \<noteq> [] \<longrightarrow> lk_sendKey s \<noteq> None)) \<and>
     (lk_sendKey s' \<noteq> None \<longrightarrow> lk_sendKey s \<noteq> None) \<and> (active s' \<longrightarrow> active s)"

lemma keeps_refl [simp]: "keeps s s"
  by (simp add: keeps_def)

lemma keeps_trans: "keeps s s' \<Longrightarrow> keeps s' s'' \<Longrightarrow> keeps s s''"
  unfolding keeps_def by auto

lemma keeps_updates [simp]:
  "keeps s (s\<lparr>lk_work := w\<rparr>)" "keeps s (s\<lparr>lk_due := d\<rparr>)" "keeps s (s\<lparr>lk_timedOut := b\<rparr>)" "keeps s (s\<lparr>lk_parting := b\<rparr>)" "keeps s (s\<lparr>lk_lastSeen := x\<rparr>)"
  "keeps s (s\<lparr>lk_outboundQueuedSlices := i, lk_outboundQueuedBytes := j\<rparr>)" "keeps s (s\<lparr>lk_queuedBytes := i, lk_queue := q\<rparr>)" "keeps s (s\<lparr>lk_queue := q, lk_queuedBytes := i\<rparr>)"
  "keeps s (s\<lparr>lk_closed := True\<rparr>)" "keeps s (s\<lparr>lk_peerSaidGoodbye := b\<rparr>)" "keeps s (s\<lparr>lk_recvCtr := n\<rparr>)" "keeps s (s\<lparr>lk_recvKey := k\<rparr>)" "keeps s (s\<lparr>lk_recvEpoch := n\<rparr>)"
  by (simp_all add: keeps_def sent_def active_def)

lemma keeps_end: "keeps s (end_link f d s)" "keeps s (abort d s)" "keeps s (close_link s)"
proof -
  show "keeps s (end_link f d s)" for f d by (auto simp: end_link_def severWire_def enqueue_def emit_def keeps_def sent_def active_def Let_def)
  then show "keeps s (abort d s)" "keeps s (close_link s)" by (simp_all add: abort_def close_link_def)
qed

lemma keeps_stall: "keeps s (stall s)" "keeps s (refuse s)"
proof -
  show "keeps s (stall s)" by (auto simp: stall_def clearEphemeral_def emit_def keeps_def sent_def active_def Let_def)
  then show "keeps s (refuse s)" using keeps_end by (simp add: refuse_def)
qed

lemma keeps_teardown: "keeps s (teardown s)" "keeps s (onChannelClosed s)" "keeps s (emit (ShutChannel b) s)" "keeps s (emit OnClose s)"
  "keeps s (emit FramerGoodbye s)" "keeps s (markTraffic t s)" "keeps s (enqueue w s)"
  by (auto simp: teardown_def onChannelClosed_def severWire_def releaseSlot_def clearEphemeral_def emit_def keeps_def sent_def active_def markTraffic_def enqueue_def Let_def)

lemma keeps_seal_wire: "seal_wire h t f s = (ok, s') \<Longrightarrow> keeps s s'"
  by (cases "lk_sendKey s") (auto simp: seal_wire_def seal_def wire_def emit_def keeps_def sent_def active_def Let_def split: option.splits if_splits prod.splits)

lemma keeps_wireRecord: "keeps s (wireRecord h t f s)"
  unfolding wireRecord_def by (auto intro: keeps_seal_wire keeps_trans [OF keeps_seal_wire keeps_end(2)] split: prod.splits bool.splits)

lemma keeps_wireRecords: "keeps s (fold (wireRecord h t) fs s)"
  by (induction fs arbitrary: s) (auto intro: keeps_trans keeps_wireRecord)

lemma keeps_record_turn: "keeps s (record_turn h t f s)"
  unfolding record_turn_def Let_def by (auto intro: keeps_trans [OF _ keeps_updates(6)] keeps_wireRecord)

lemma keeps_ending_turn: "keeps s (ending_turn h t s)"
  unfolding ending_turn_def
  by (auto simp: Let_def intro!: keeps_trans [OF _ keeps_teardown(3)] keeps_trans [OF _ keeps_teardown(1)]
      intro: keeps_seal_wire keeps_trans [OF keeps_seal_wire keeps_teardown(5)] split: prod.splits bool.splits option.splits if_splits)

lemma keeps_send: "keeps s (send cf t f s)"
proof -
  have "keeps s (enqueue w ((markTraffic t s)\<lparr>lk_outboundQueuedSlices := i, lk_outboundQueuedBytes := j\<rparr>))" for w i j
    by (rule keeps_trans [OF keeps_trans [OF keeps_teardown(6) keeps_updates(6)] keeps_teardown(7)])
  note queued = this
  show ?thesis by (simp add: send_def Let_def case_prod_beta keeps_end queued)
qed

lemma keeps_onWire: "keeps s (onWire cf b s)" "keeps s (onWire_framed msgs s)" "keeps s (snd (takeQueued s))" "keeps s (snd (onWake now s))"
proof -
  show "keeps s (onWire cf b s)" by (simp add: onWire_def keeps_teardown keeps_stall)
  have "keeps s (fold (\<lambda>m. enqueue (Message m)) msgs s)" for s by (induction msgs arbitrary: s) (auto intro: keeps_trans keeps_teardown)
  then show "keeps s (onWire_framed msgs s)" by (simp add: onWire_framed_def)
  show "keeps s (snd (takeQueued s))" by (simp add: takeQueued_def)
  have woken: "keeps s (abort False (s\<lparr>lk_due := None, lk_timedOut := True\<rparr>))" "keeps s (close_link (s\<lparr>lk_due := None\<rparr>))"
    by (rule keeps_trans [OF keeps_trans [OF keeps_updates(2) keeps_updates(3)] keeps_end(2)], rule keeps_trans [OF keeps_updates(2) keeps_end(3)])
  show "keeps s (snd (onWake now s))" by (simp add: onWake_def Let_def woken split: option.splits)
qed


section \<open>What authentication establishes\<close>

text \<open>A dialer has a signature of the dialed key over a transcript that begins with the msg1 it sent itself.\<close>

definition dial_proved :: "Conf \<Rightarrow> seam \<Rightarrow> Link \<Rightarrow> bool" where
  "dial_proved cf h s \<longleftrightarrow> (\<exists>w1 \<in> set (sent s). \<exists>rt h1 hd' hs sig pk. rootKey h (lk_networkKey s) = Some rt \<and> hash h [rt, w1] = Some h1 \<and>
     length hd' = EPH_LEN + KEM_CT_LEN \<and> hash h [h1, hd'] = Some hs \<and> pk = fromHex (lk_dialedPeerId s) \<and>
     verify h pk sig (channelIdentityMessage rt hs pk) = Some True \<and> lk_peerPubkey s = Some pk \<and> lk_peerId s = lk_dialedPeerId s \<and>
     pk \<noteq> cf_ownPk cf \<and> (lk_lint s \<longrightarrow> admits cf pk))"

text \<open>An accept has a signature of the key it names over a transcript that ends with the msg2 it sent itself.\<close>

definition accept_proved :: "Conf \<Rightarrow> seam \<Rightarrow> Link \<Rightarrow> bool" where
  "accept_proved cf h s \<longleftrightarrow> (\<exists>w2 \<in> set (sent s). \<exists>rt w1 h1 h2 sig pk. rootKey h (lk_networkKey s) = Some rt \<and> hash h [rt, w1] = Some h1 \<and>
     hash h [h1, w2] = Some h2 \<and> verify h pk sig (channelIdentityMessage rt h2 pk) = Some True \<and> lk_peerPubkey s = Some pk \<and> lk_peerId s = guest_toHex pk \<and>
     pk \<noteq> cf_ownPk cf \<and> (lk_lint s \<longrightarrow> admits cf pk) \<and> (lk_acceptPeerId s = [] \<or> lk_acceptPeerId s = guest_toHex pk))"

text \<open>The link has had a msg1 whose seal opened under one of its secrets.\<close>

definition probe_proved :: "seam \<Rightarrow> bytes set \<Rightarrow> Link \<Rightarrow> bool" where
  "probe_proved h S s \<longleftrightarrow> (\<exists>rt w1 secret ctx k pt. rootKey h (lk_networkKey s) = Some rt \<and> lk_contactSecret s = Some secret \<and> secret \<in> S \<and> length w1 = M1_LEN \<and>
     hash h [rt, take SUITE_LEN w1, subarray w1 SUITE_LEN (SUITE_LEN + EPH_LEN), subarray w1 (SUITE_LEN + EPH_LEN) (SUITE_LEN + EPH_LEN + KEM_PK_LEN)] = Some ctx \<and>
     hash h [secret, ctx, LABEL_PROBE] = Some k \<and> openZero h k (drop (SUITE_LEN + EPH_LEN + KEM_PK_LEN) w1) = Some (Some pt))"

definition dial_inv :: "Conf \<Rightarrow> seam \<Rightarrow> Link \<Rightarrow> bool" where
  "dial_inv cf h s \<longleftrightarrow> (active s \<longrightarrow> lk_th s \<noteq> None \<longrightarrow> (\<exists>rt w1. lk_root s = Some rt \<and> w1 \<in> set (sent s) \<and> hash h [rt, w1] = lk_th s)) \<and>
     (lk_authed s \<longrightarrow> dial_proved cf h s)"

definition accept_inv :: "Conf \<Rightarrow> seam \<Rightarrow> bytes set \<Rightarrow> Link \<Rightarrow> bool" where
  "accept_inv cf h S s \<longleftrightarrow> (sent s \<noteq> [] \<or> lk_sendKey s \<noteq> None \<or> lk_th s \<noteq> None \<longrightarrow> probe_proved h S s) \<and>
     (active s \<longrightarrow> lk_peerEph s = None \<longrightarrow> sent s = [] \<and> lk_sendKey s = None \<and> lk_th s = None) \<and>
     (active s \<longrightarrow> lk_th s \<noteq> None \<longrightarrow> (\<exists>rt w1 h1 w2. lk_root s = Some rt \<and> w2 \<in> set (sent s) \<and> hash h [rt, w1] = Some h1 \<and> hash h [h1, w2] = lk_th s)) \<and>
     (lk_authed s \<longrightarrow> accept_proved cf h s)"

definition link_inv :: "Conf \<Rightarrow> seam \<Rightarrow> bytes set \<Rightarrow> LinkSpec \<Rightarrow> Link \<Rightarrow> bool" where
  "link_inv cf h S sp s \<longleftrightarrow> lk_weDialed s = sp_weDialed sp \<and> lk_dialedPeerId s = sp_dialedPeerId sp \<and> lk_acceptPeerId s = sp_acceptPeerId sp \<and>
     lk_networkKey s = sp_networkKey sp \<and> lk_lint s = sp_lint sp \<and> (lk_root s \<noteq> None \<longrightarrow> lk_root s = rootKey h (lk_networkKey s)) \<and>
     (\<forall>(p, pt, pk) \<in> set (frames_out (lk_out s)). lk_authed s \<and> p = lk_peerId s \<and> lk_peerPubkey s = Some pk) \<and>
     (if lk_weDialed s then dial_inv cf h s else accept_inv cf h S s)"

lemma dial_proved_same:
  assumes eqs: "lk_networkKey s' = lk_networkKey s" "lk_dialedPeerId s' = lk_dialedPeerId s" "lk_lint s' = lk_lint s" "lk_peerPubkey s' = lk_peerPubkey s" "lk_peerId s' = lk_peerId s"
    and sub: "set (sent s) \<subseteq> set (sent s')"
  shows "dial_proved cf h s \<Longrightarrow> dial_proved cf h s'"
  unfolding dial_proved_def eqs by (rule bexE, assumption) (rule bexI, assumption, rule subsetD [OF sub])

lemma proved_keeps:
  assumes "keeps s s'"
  shows "dial_proved cf h s \<Longrightarrow> dial_proved cf h s'" "accept_proved cf h s \<Longrightarrow> accept_proved cf h s'" "probe_proved h S s \<Longrightarrow> probe_proved h S s'"
proof -
  have eqs: "lk_networkKey s' = lk_networkKey s" "lk_dialedPeerId s' = lk_dialedPeerId s" "lk_acceptPeerId s' = lk_acceptPeerId s" "lk_lint s' = lk_lint s"
    "lk_peerPubkey s' = lk_peerPubkey s" "lk_peerId s' = lk_peerId s" "lk_contactSecret s' = lk_contactSecret s" and sub: "set (sent s) \<subseteq> set (sent s')"
    using assms by (auto simp: keeps_def)
  show "dial_proved cf h s \<Longrightarrow> dial_proved cf h s'" using eqs sub by (intro dial_proved_same [of s' s])
  show "accept_proved cf h s \<Longrightarrow> accept_proved cf h s'" unfolding accept_proved_def eqs by (rule bexE, assumption) (rule bexI, assumption, rule subsetD [OF sub])
  show "probe_proved h S s \<Longrightarrow> probe_proved h S s'" unfolding probe_proved_def eqs .
qed

lemma link_inv_keeps: "keeps s s' \<Longrightarrow> link_inv cf h S sp s \<Longrightarrow> link_inv cf h S sp s'"
proof -
  assume k: "keeps s s'" and i: "link_inv cf h S sp s"
  have "dial_inv cf h s'" if "dial_inv cf h s" using that k proved_keeps(1) [OF k] by (auto simp: dial_inv_def keeps_def)
  moreover have "accept_inv cf h S s'" if a: "accept_inv cf h S s"
  proof -
    have eqs: "lk_th s' = lk_th s" "lk_authed s' = lk_authed s" "lk_peerEph s' = lk_peerEph s" "lk_root s' = lk_root s" using k by (simp_all add: keeps_def)
    obtain ws where ws: "sent s' = sent s @ ws" "ws \<noteq> [] \<longrightarrow> lk_sendKey s \<noteq> None" "lk_sendKey s' \<noteq> None \<longrightarrow> lk_sendKey s \<noteq> None" "active s' \<longrightarrow> active s"
      using k unfolding keeps_def by blast
    have "probe_proved h S s'" if "sent s' \<noteq> [] \<or> lk_sendKey s' \<noteq> None \<or> lk_th s' \<noteq> None"
      using that a ws eqs(1) proved_keeps(3) [OF k] unfolding accept_inv_def by (metis append_is_Nil_conv)
    moreover have "sent s' = [] \<and> lk_sendKey s' = None \<and> lk_th s' = None" if "active s'" "lk_peerEph s' = None"
      using that a ws eqs unfolding accept_inv_def by (metis append_Nil)
    moreover have "accept_proved cf h s'" if "lk_authed s'" using that a eqs(2) proved_keeps(2) [OF k] unfolding accept_inv_def by blast
    moreover have "\<exists>rt w1 h1 w2. lk_root s' = Some rt \<and> w2 \<in> set (sent s') \<and> hash h [rt, w1] = Some h1 \<and> hash h [h1, w2] = lk_th s'" if "active s'" "lk_th s' \<noteq> None"
      using that a ws(1,4) unfolding accept_inv_def eqs by (metis UnCI set_append)
    ultimately show ?thesis unfolding accept_inv_def by blast
  qed
  ultimately show ?thesis using k i by (auto simp: link_inv_def keeps_def)
qed

section \<open>The handshake steps\<close>

lemma need_split: "P (need r s k) \<longleftrightarrow> (r = None \<longrightarrow> P (False, s)) \<and> (\<forall>x. r = Some x \<longrightarrow> P (k x))"
  by (cases r) (simp_all add: need_def)

lemma andthen_split: "P (andthen r k) \<longleftrightarrow> (\<forall>s. r = (False, s) \<longrightarrow> P (False, s)) \<and> (\<forall>s. r = (True, s) \<longrightarrow> P (k s))"
  by (cases r; cases "fst r") (auto simp: andthen_def)

lemmas step_splits = need_split andthen_split option.split prod.split bool.split if_split

text \<open>The same as rules, one per construct of a step, for a condition \<open>Q\<close> on its outcome.\<close>

lemma step_rules:
  shows "\<lbrakk>r = None \<Longrightarrow> Q (False, s); \<And>x. r = Some x \<Longrightarrow> Q (k x)\<rbrakk> \<Longrightarrow> Q (need r s k)"
    and "\<lbrakk>\<And>s. p = (False, s) \<Longrightarrow> Q (False, s); \<And>s. p = (True, s) \<Longrightarrow> Q (f s)\<rbrakk> \<Longrightarrow> Q (andthen p f)"
    and "(\<And>x. x = v \<Longrightarrow> Q (g x)) \<Longrightarrow> Q (Let v g)"
    and "\<lbrakk>b \<Longrightarrow> Q y; \<not> b \<Longrightarrow> Q z\<rbrakk> \<Longrightarrow> Q (if b then y else z)"
    and "\<lbrakk>o' = None \<Longrightarrow> Q y; \<And>x. o' = Some x \<Longrightarrow> Q (h x)\<rbrakk> \<Longrightarrow> Q (case o' of None \<Rightarrow> y | Some x \<Rightarrow> h x)"
    and "(\<And>x u. q = (x, u) \<Longrightarrow> Q (j x u)) \<Longrightarrow> Q (case q of (x, u) \<Rightarrow> j x u)"
    and "\<lbrakk>b \<Longrightarrow> Q y; \<not> b \<Longrightarrow> Q z\<rbrakk> \<Longrightarrow> Q (case b of True \<Rightarrow> y | False \<Rightarrow> z)"
  by (simp_all add: need_def andthen_def split: option.splits prod.splits bool.splits)

text \<open>What no handshake step changes.\<close>

definition goes :: "Link \<Rightarrow> Link \<Rightarrow> bool" where
  "goes s s' \<longleftrightarrow> lk_weDialed s' = lk_weDialed s \<and> lk_dialedPeerId s' = lk_dialedPeerId s \<and> lk_acceptPeerId s' = lk_acceptPeerId s \<and>
     lk_networkKey s' = lk_networkKey s \<and> lk_lint s' = lk_lint s \<and> lk_contactSecret s' = lk_contactSecret s \<and>
     frames_out (lk_out s') = frames_out (lk_out s) \<and> set (sent s) \<subseteq> set (sent s') \<and> (active s' \<longrightarrow> active s)"

lemma goes_trans: "goes s s' \<Longrightarrow> goes s' s'' \<Longrightarrow> goes s s''"
  unfolding goes_def by auto

lemma goes_keeps: "keeps s s' \<Longrightarrow> goes s s'"
  unfolding goes_def keeps_def by auto

lemma ensureKeys_effect: "ensureKeys h t s = (ok, s') \<Longrightarrow> \<exists>e k. s' = s\<lparr>lk_myEph := e, lk_myKem := k\<rparr>"
  by (cases s) (auto simp: ensureKeys_def need_def andthen_def split: if_splits option.splits)

lemma boot_dial_effect:
  assumes "lk_weDialed s" "s' = boot cf h t s"
  shows "goes s s' \<and> lk_authed s' = lk_authed s \<and> lk_peerPubkey s' = lk_peerPubkey s \<and> lk_peerId s' = lk_peerId s \<and> lk_root s' \<in> {lk_root s, rootKey h (lk_networkKey s)} \<and>
    (lk_closed s' \<or> (\<exists>rt w1. lk_root s' = Some rt \<and> w1 \<in> set (sent s') \<and> hash h [rt, w1] = lk_th s'))"
proof -
  have ab: "lk_closed (abort False u)" "goes u (abort False u)" "lk_authed (abort False u) = lk_authed u" "lk_peerPubkey (abort False u) = lk_peerPubkey u"
     "lk_peerId (abort False u) = lk_peerId u" "lk_root (abort False u) = lk_root u" for u
    using keeps_end(2) [of u False] goes_keeps ended by (auto simp: keeps_def abort_def)
  let ?P = "\<lambda>u. goes s u \<and> lk_authed u = lk_authed s \<and> lk_peerPubkey u = lk_peerPubkey s \<and> lk_peerId u = lk_peerId s \<and> lk_root u \<in> {lk_root s, rootKey h (lk_networkKey s)}"
  let ?Q = "\<lambda>(ok, u). ?P u \<and> (ok \<longrightarrow> (\<exists>rt w1. lk_root u = Some rt \<and> w1 \<in> set (sent u) \<and> hash h [rt, w1] = lk_th u))"
  let ?r = "need (rootKey h (lk_networkKey s)) s (\<lambda>rt. let s = s\<lparr>lk_root := Some rt\<rparr> in
        andthen (ensureKeys h t s) (\<lambda>s. sendMsg1 h t (armDeadline t (cf_handshakeTimeoutMs cf) s)))"
  have "?Q ?r"
    by (auto simp: sendMsg1_def wire_def armDeadline_eq emit_def goes_def sent_def active_def rooted_def Let_def dest!: ensureKeys_effect split: step_splits)
  moreover have "s' = (case ?r of (True, s) \<Rightarrow> s | (False, s) \<Rightarrow> abort False s)" using assms by (simp add: boot_def Let_def)
  ultimately show ?thesis using ab goes_trans by (cases ?r) (auto split: bool.splits)
qed

lemma ends_effect: "goes u (stall u)" "\<not> active (stall u)" "goes u (abort d u)" "\<not> active (abort d u)" "lk_authed (stall u) = lk_authed u" "lk_authed (abort d u) = lk_authed u"
  "lk_root (stall u) = lk_root u" "lk_root (abort d u) = lk_root u"
proof -
  show "goes u (stall u)" "goes u (abort d u)" using keeps_stall keeps_end goes_keeps by blast+
  show "\<not> active (stall u)" by (simp add: active_def stall_def clearEphemeral_def emit_def Let_def)
  show "\<not> active (abort d u)" using ended by (simp add: active_def abort_def)
  show "lk_authed (stall u) = lk_authed u" "lk_authed (abort d u) = lk_authed u" "lk_root (stall u) = lk_root u" "lk_root (abort d u) = lk_root u"
    using keeps_stall(1) [of u] keeps_end(2) [of u d] by (auto simp: keeps_def)
qed

lemma refused_over: "\<not> active (refuse u)" and refused_same: "lk_authed (refuse u) = lk_authed u" "lk_root (refuse u) = lk_root u"
  by (simp_all add: refuse_def ends_effect)

lemma signTranscript_effect: "signTranscript cf h th s = (r, s') \<Longrightarrow> s' = (if r = None then abort False s else s)"
  by (auto simp: signTranscript_def split: option.splits)

lemma view_updates [simp]:
  "sent (u\<lparr>lk_ee := x\<rparr>) = sent u" "sent (u\<lparr>lk_kemSecret := x\<rparr>) = sent u" "sent (u\<lparr>lk_peerEph := x\<rparr>) = sent u" "sent (u\<lparr>lk_th := x\<rparr>) = sent u"
  "sent (u\<lparr>lk_myEph := y\<rparr>) = sent u" "sent (u\<lparr>lk_myKem := y\<rparr>) = sent u" "sent (u\<lparr>lk_due := d\<rparr>) = sent u" "sent (u\<lparr>lk_peerPubkey := x\<rparr>) = sent u"
  "sent (u\<lparr>lk_peerId := p\<rparr>) = sent u" "sent (u\<lparr>lk_sendKey := x\<rparr>) = sent u" "sent (u\<lparr>lk_recvKey := x\<rparr>) = sent u" "sent (u\<lparr>lk_authed := b\<rparr>) = sent u"
  "sent (emit (Wire w) u) = sent u @ [w]"
  "active (u\<lparr>lk_ee := x\<rparr>) = active u" "active (u\<lparr>lk_kemSecret := x\<rparr>) = active u" "active (u\<lparr>lk_peerEph := x\<rparr>) = active u" "active (u\<lparr>lk_th := x\<rparr>) = active u"
  "active (u\<lparr>lk_myEph := y\<rparr>) = active u" "active (u\<lparr>lk_myKem := y\<rparr>) = active u" "active (u\<lparr>lk_due := d\<rparr>) = active u" "active (u\<lparr>lk_peerPubkey := x\<rparr>) = active u"
  "active (u\<lparr>lk_peerId := p\<rparr>) = active u" "active (u\<lparr>lk_sendKey := x\<rparr>) = active u" "active (u\<lparr>lk_recvKey := x\<rparr>) = active u" "active (emit o' u) = active u"
  by (simp_all add: sent_def active_def emit_def)

lemma goes_updates [simp]:
  "goes s (u\<lparr>lk_ee := x\<rparr>) = goes s u" "goes s (u\<lparr>lk_kemSecret := x\<rparr>) = goes s u" "goes s (u\<lparr>lk_peerEph := x\<rparr>) = goes s u" "goes s (u\<lparr>lk_th := x\<rparr>) = goes s u"
  "goes s (u\<lparr>lk_myEph := y\<rparr>) = goes s u" "goes s (u\<lparr>lk_myKem := y\<rparr>) = goes s u" "goes s (u\<lparr>lk_due := d\<rparr>) = goes s u" "goes s (u\<lparr>lk_peerPubkey := x\<rparr>) = goes s u"
  "goes s (u\<lparr>lk_peerId := p\<rparr>) = goes s u" "goes s (u\<lparr>lk_sendKey := x\<rparr>) = goes s u" "goes s (u\<lparr>lk_recvKey := x\<rparr>) = goes s u"
  by (simp_all add: goes_def)

lemma goes_wire [simp]: "goes s u \<Longrightarrow> goes s (emit (Wire w) u)"
  unfolding goes_def by (simp add: subset_insertI2) (simp add: emit_def)

lemma goes_arm [simp]: "goes s (armDeadline t ms s)"
  by (simp add: goes_def armDeadline_eq sent_def active_def)

lemma goes_refl [simp]: "goes s s"
  by (simp add: goes_def)

lemma clear_goes [simp]: "goes s (clearEphemeral u) = goes s u" "sent (clearEphemeral u) = sent u" "active (clearEphemeral u) = active u"
  by (simp_all add: clearEphemeral_def)

lemma ensureKeys_goes: "ensureKeys h t s = (ok, s') \<Longrightarrow> goes u s \<Longrightarrow> goes u s' \<and> lk_authed s' = lk_authed s \<and> lk_root s' = lk_root s"
  using ensureKeys_effect [of h t s ok s'] by auto

lemmas ends_goes = ends_effect goes_trans [OF _ ends_effect(1)] goes_trans [OF _ ends_effect(3)]

lemma answerMsg1_effect:
  assumes "answerMsg1 cf h t w1 ephI kemPkI s = (ok, s')"
  shows "goes s s' \<and> lk_authed s' = lk_authed s \<and> lk_root s' = lk_root s \<and> (ok \<and> active s' \<longrightarrow> lk_peerEph s' \<noteq> None \<and>
    (\<exists>rt w2 h1. lk_root s' = Some rt \<and> w2 \<in> set (sent s') \<and> hash h [rt, w1] = Some h1 \<and> hash h [h1, w2] = lk_th s'))"
proof -
  let ?Q = "\<lambda>(ok, u). goes s u \<and> lk_authed u = lk_authed s \<and> lk_root u = lk_root s \<and> (ok \<and> active u \<longrightarrow> lk_peerEph u \<noteq> None \<and>
    (\<exists>rt w2 h1. lk_root u = Some rt \<and> w2 \<in> set (sent u) \<and> hash h [rt, w1] = Some h1 \<and> hash h [h1, w2] = lk_th u))"
  define a where "a = armDeadline t (cf_handshakeTimeoutMs cf) s"
  have a: "goes s a" "lk_authed a = lk_authed s" "lk_root a = lk_root s" by (simp_all add: a_def) (simp_all add: armDeadline_eq)
  have keys: "goes s u \<and> lk_authed u = lk_authed s \<and> lk_root u = lk_root s" if "ensureKeys h t a = (b, u)" for b u using ensureKeys_goes [OF that a(1)] a by simp
  have out: "lk_authed (emit x u) = lk_authed u" "lk_root (emit x u) = lk_root u" "lk_peerEph (emit x u) = lk_peerEph u" "lk_th (emit x u) = lk_th u" for x u by (simp_all add: emit_def)
  have "?Q (answerMsg1 cf h t w1 ephI kemPkI s)"
    unfolding answerMsg1_def a_def [symmetric] wire_def rooted_def
    by (auto simp: ends_goes out Let_def dest!: keys signTranscript_effect split: step_splits bind_splits)
  then show ?thesis unfolding assms prod.case .
qed


lemma derive_effect:
  "deriveConcealedSession h s = (ok, s') \<Longrightarrow> goes u s' = goes u s \<and> lk_authed s' = lk_authed s \<and> lk_root s' = lk_root s \<and> lk_peerPubkey s' = lk_peerPubkey s \<and>
   lk_peerId s' = lk_peerId s"
  by (auto simp: deriveConcealedSession_def need_def Let_def clearEphemeral_def split: option.splits if_splits)

lemma becomeAuthed_keeps: "\<not> lk_closed s \<Longrightarrow> keeps (s\<lparr>lk_authed := True\<rparr>) (becomeAuthed h t s)"
proof -
  assume c: "\<not> lk_closed s"
  define a where "a = s\<lparr>lk_authed := True, lk_out := lk_out s @ told (lk_slot s) SlotHold\<rparr>"
  define b where "b = emit (OnAuth (lk_peerId s)) ((armIdle t a)\<lparr>lk_out := lk_out (armIdle t a) @ told (lk_framed s) FramerRaiseCap\<rparr>)"
  have k: "keeps (s\<lparr>lk_authed := True\<rparr>) a" "keeps (s\<lparr>lk_authed := True\<rparr>) b"
    by (simp_all add: a_def b_def armIdle_eq keeps_def emit_def sent_def active_def)
  have "becomeAuthed h t s = (if lk_slot s \<and> \<not> tn_hold t then abort False a
      else let s = (if tn_loses t then close_link b else b) in if lk_closed s then s else fold (wireRecord h t) (lk_queue s) (snd (takeQueued s)))"
    using c by (simp add: becomeAuthed_def Let_def emit_if a_def b_def armIdle_eq emit_def takeQueued_def)
  then show ?thesis using k keeps_end(2) [of a False] keeps_end(3) [of b]
    by (auto simp: Let_def intro: keeps_trans [OF keeps_trans [OF _ keeps_onWire(3)] keeps_wireRecords] keeps_trans)
qed

lemma proved_authed [simp]: "dial_proved cf h (s\<lparr>lk_authed := b\<rparr>) = dial_proved cf h s" "accept_proved cf h (s\<lparr>lk_authed := b\<rparr>) = accept_proved cf h s"
  by (simp_all add: dial_proved_def accept_proved_def)

lemma becomeAuthed_effect:
  assumes "goes u s" "\<not> lk_authed s" and s'_def: "s' = becomeAuthed h t s"
  shows "goes u s' \<and> lk_root s' = lk_root s \<and> (dial_proved cf h s \<longrightarrow> dial_proved cf h s') \<and> (accept_proved cf h s \<longrightarrow> accept_proved cf h s') \<and>
    (\<not> lk_authed s' \<longrightarrow> \<not> active s')"
proof (cases "lk_closed s")
  case True
  with assms show ?thesis by (simp add: becomeAuthed_def active_def)
next
  case False
  note k = becomeAuthed_keeps [OF False, of h t]
  have "goes u (s\<lparr>lk_authed := True\<rparr>)" using assms(1) by (auto simp: goes_def active_def)
  then have "goes u s'" using goes_keeps [OF k] goes_trans s'_def by blast
  with proved_keeps(1,2) [OF k, of cf h] k show ?thesis by (simp add: s'_def keeps_def)
qed

lemma dial_provedI:
  assumes "goes s u" "rootKey h (lk_networkKey s) = Some rt" "w1 \<in> set (sent s)" "hash h [rt, w1] = Some h1" "length w2 = M2_LEN"
    "hash h [h1, take (EPH_LEN + KEM_CT_LEN) w2] = Some hs" "verify h (fromHex (lk_dialedPeerId s)) sig (channelIdentityMessage rt hs (fromHex (lk_dialedPeerId s))) = Some True"
    "lk_peerPubkey u = Some (fromHex (lk_dialedPeerId s))" "lk_peerId u = lk_dialedPeerId s" "fromHex (lk_dialedPeerId s) \<noteq> cf_ownPk cf"
    "lk_lint s \<longrightarrow> admits cf (fromHex (lk_dialedPeerId s))"
  shows "dial_proved cf h u"
proof -
  have "w1 \<in> set (sent u)" "lk_networkKey u = lk_networkKey s" "lk_dialedPeerId u = lk_dialedPeerId s" "lk_lint u = lk_lint s" using assms(1,3) by (auto simp: goes_def)
  moreover have "length (take (EPH_LEN + KEM_CT_LEN) w2) = EPH_LEN + KEM_CT_LEN" using assms(5) by (simp add: M2_LEN_def)
  ultimately show ?thesis unfolding dial_proved_def using assms(2,4,6-11) by (intro bexI [of _ w1] exI conjI) auto
qed

lemma onMsg2_effect:
  assumes m: "onMsg2 cf h t w2 s = (ok, s')" and s: "active s" "lk_root s = Some rt" "rootKey h (lk_networkKey s) = Some rt"
    "lk_th s \<noteq> None \<longrightarrow> (\<exists>w1 \<in> set (sent s). hash h [rt, w1] = lk_th s)"
  shows "goes s s' \<and> lk_root s' = lk_root s \<and> (lk_authed s' \<longrightarrow> dial_proved cf h s') \<and> (ok \<and> \<not> lk_authed s' \<longrightarrow> \<not> active s')"
proof -
  define Q where "Q = (\<lambda>(ok, u). goes s u \<and> lk_root u = lk_root s \<and> (lk_authed u \<longrightarrow> dial_proved cf h u) \<and> (ok \<and> \<not> lk_authed u \<longrightarrow> \<not> active u))"
  have na: "\<not> lk_authed s" using s(1) by (simp add: active_def)
  have out: "lk_authed (emit x u) = lk_authed u" "lk_root (emit x u) = lk_root u" "lk_peerPubkey (emit x u) = lk_peerPubkey u" "lk_peerId (emit x u) = lk_peerId u" for x u
    by (simp_all add: emit_def)
  have stops: "Q (False, u)" "Q (True, stall u)" "Q (True, abort d u)" if "goes s u" "lk_root u = lk_root s" "\<not> lk_authed u" for u d
    using that by (simp_all add: Q_def ends_goes)
  have fin: "Q (True, becomeAuthed h t u)" if p: "goes s u" "\<not> lk_authed u" "lk_root u = lk_root s" "lk_peerPubkey u = Some (fromHex (lk_dialedPeerId s))"
      "lk_peerId u = lk_dialedPeerId s" "lk_th s = Some th" "length w2 = M2_LEN" "hash h [th, take (EPH_LEN + KEM_CT_LEN) w2] = Some hs"
      "verify h (fromHex (lk_dialedPeerId s)) sig (channelIdentityMessage rt hs (fromHex (lk_dialedPeerId s))) = Some True"
      "bytesCompare (fromHex (lk_dialedPeerId s)) (cf_ownPk cf) \<noteq> 0" "\<not> (lk_lint s \<and> \<not> admits cf (fromHex (lk_dialedPeerId s)))" for u th hs sig
  proof -
    obtain w1 where "w1 \<in> set (sent s)" "hash h [rt, w1] = Some th" using s(4) p(6) by auto
    then have "dial_proved cf h u" using dial_provedI [OF p(1) s(3) _ _ p(7,8,9,4,5)] p(10,11) by (auto simp: bytesCompare_zero)
    then show ?thesis using becomeAuthed_effect [OF p(1,2) refl, of h t cf] p(3) by (auto simp: Q_def)
  qed
  have "Q (onMsg2 cf h t w2 s)"
    unfolding onMsg2_def wire_def
    by (intro step_rules [where Q = Q]; simp add: stops na s(2) out)
      (auto simp: na s(2) out split: if_splits bind_splits dest!: signTranscript_effect derive_effect [where u = s] intro!: stops fin)
  then show ?thesis unfolding m Q_def prod.case .
qed


lemma accept_provedI:
  assumes "goes s u" "rootKey h (lk_networkKey s) = Some rt" "w2 \<in> set (sent s)" "hash h [rt, w1] = Some h1" "hash h [h1, w2] = Some h2"
    "verify h pk sig (channelIdentityMessage rt h2 pk) = Some True" "lk_peerPubkey u = Some pk" "lk_peerId u = guest_toHex pk" "pk \<noteq> cf_ownPk cf"
    "lk_lint s \<longrightarrow> admits cf pk" "lk_acceptPeerId s = [] \<or> lk_acceptPeerId s = guest_toHex pk"
  shows "accept_proved cf h u"
proof -
  have "w2 \<in> set (sent u)" "lk_networkKey u = lk_networkKey s" "lk_acceptPeerId u = lk_acceptPeerId s" "lk_lint u = lk_lint s" using assms(1,3) by (auto simp: goes_def)
  then show ?thesis unfolding accept_proved_def using assms(2,4-11) by (intro bexI [of _ w2] exI conjI) auto
qed

lemma openIdentity_sound:
  "openIdentity cf h key ct th s = Some (Some pk) \<Longrightarrow> lk_root s = Some rt \<Longrightarrow> \<exists>sig. verify h pk sig (channelIdentityMessage rt th pk) = Some True \<and> pk \<noteq> cf_ownPk cf"
  by (auto simp: openIdentity_def bytesCompare_zero Let_def split: bind_splits option.splits if_splits)

lemma onMsg3_effect:
  assumes m: "onMsg3 cf h t w3 s = (ok, s')" and s: "active s" "lk_root s = Some rt" "rootKey h (lk_networkKey s) = Some rt"
    "lk_th s \<noteq> None \<longrightarrow> (\<exists>w1 h1 w2. w2 \<in> set (sent s) \<and> hash h [rt, w1] = Some h1 \<and> hash h [h1, w2] = lk_th s)"
  shows "goes s s' \<and> lk_root s' = lk_root s \<and> (lk_authed s' \<longrightarrow> accept_proved cf h s') \<and> (ok \<and> \<not> lk_authed s' \<longrightarrow> \<not> active s')"
proof -
  define Q where "Q = (\<lambda>(ok, u). goes s u \<and> lk_root u = lk_root s \<and> (lk_authed u \<longrightarrow> accept_proved cf h u) \<and> (ok \<and> \<not> lk_authed u \<longrightarrow> \<not> active u))"
  have na: "\<not> lk_authed s" using s(1) by (simp add: active_def)
  have stops: "Q (False, u)" "Q (True, stall u)" "Q (True, abort d u)" if "goes s u" "lk_root u = lk_root s" "\<not> lk_authed u" for u d
    using that by (simp_all add: Q_def ends_goes)
  have fin: "Q (True, becomeAuthed h t u)" if p: "goes s u" "\<not> lk_authed u" "lk_root u = lk_root s" "lk_peerPubkey u = Some pk" "lk_peerId u = guest_toHex pk"
      "lk_th s = Some th" "openIdentity cf h k w3 th s = Some (Some pk)" "\<not> (lk_lint s \<and> \<not> admits cf pk \<or> lk_acceptPeerId s \<noteq> [] \<and> guest_toHex pk \<noteq> lk_acceptPeerId s)" for u pk th k
  proof -
    obtain w1 h1 w2 where w: "w2 \<in> set (sent s)" "hash h [rt, w1] = Some h1" "hash h [h1, w2] = Some th" using s(4) p(6) by auto
    obtain sig where "verify h pk sig (channelIdentityMessage rt th pk) = Some True" "pk \<noteq> cf_ownPk cf" using openIdentity_sound [OF p(7) s(2)] by blast
    then have "accept_proved cf h u" using accept_provedI [OF p(1) s(3) w] p(4,5,8) by auto
    then show ?thesis using becomeAuthed_effect [OF p(1,2) refl, of h t cf] p(3) by (auto simp: Q_def)
  qed
  have "Q (onMsg3 cf h t w3 s)"
    unfolding onMsg3_def
    by (intro step_rules [where Q = Q]; simp add: stops na s(2))
      (auto simp: na s(2) split: if_splits bind_splits dest!: derive_effect [where u = s] intro!: stops fin)
  then show ?thesis unfolding m Q_def prod.case .
qed

lemma try_secrets_effect:
  "try_secrets h ctx ct xs s = (r, s') \<Longrightarrow> (\<exists>c. s' = s\<lparr>lk_contactSecret := c\<rparr>) \<and>
   (r = Some True \<longrightarrow> (\<exists>x \<in> set xs. lk_contactSecret s' = Some x \<and> (\<exists>k pt. hash h [x, ctx, LABEL_PROBE] = Some k \<and> openZero h k ct = Some (Some pt))))"
proof (induction xs arbitrary: s)
  case Nil
  then show ?case by (cases s) auto
next
  case (Cons x xs)
  let ?s = "s\<lparr>lk_contactSecret := Some x\<rparr>"
  show ?case
  proof (cases "Option.bind (probeKey h ctx ?s) (\<lambda>k. openZero h k ct)")
    case None
    with Cons.prems show ?thesis by (auto simp: Let_def)
  next
    case (Some r')
    show ?thesis
    proof (cases r')
      case None
      with Cons.prems Some have "try_secrets h ctx ct xs ?s = (r, s')" by (simp add: Let_def)
      from Cons.IH [OF this] show ?thesis by auto
    next
      case (Some pt)
      with Cons.prems \<open>Option.bind _ _ = Some r'\<close> show ?thesis by (auto simp: Let_def probeKey_def kdf_def split: bind_splits)
    qed
  qed
qed


section \<open>The invariant\<close>

lemma link_inv_secret:
  assumes "link_inv cf h S sp s" "\<not> lk_weDialed s" "active s" "lk_peerEph s = None"
  shows "link_inv cf h S sp (s\<lparr>lk_contactSecret := c\<rparr>)"
  using assms by (auto simp: link_inv_def accept_inv_def active_def sent_def)

lemma link_inv_goes:
  assumes "link_inv cf h S sp s" "goes s s'" "\<not> lk_authed s" "lk_root s' = lk_root s" "if lk_weDialed s then dial_inv cf h s' else accept_inv cf h S s'"
  shows "link_inv cf h S sp s'"
proof -
  have "frames_out (lk_out s) = []" using assms(1,3) unfolding link_inv_def by (cases "frames_out (lk_out s)") auto
  then show ?thesis using assms by (auto simp: link_inv_def goes_def)
qed

lemma probe_proved_goes: "goes s s' \<Longrightarrow> probe_proved h S s \<Longrightarrow> probe_proved h S s'"
  unfolding goes_def probe_proved_def by metis

lemma onMsg1_inv:
  assumes inv: "link_inv cf h S sp s" and s: "\<not> lk_weDialed s" "active s" "lk_peerEph s = None" and S: "\<And>xs. tn_secrets t = Some xs \<Longrightarrow> set xs \<subseteq> S"
    and m: "onMsg1 cf h t w1 (s, seen) = (ok, s', seen')"
  shows "link_inv cf h S sp (if ok then s' else refuse s')"
proof -
  define Q where "Q = (\<lambda>(ok, u, seen :: jstr list). link_inv cf h S sp (if ok then u else refuse u))"
  have kept: "link_inv cf h S sp (stall u)" "link_inv cf h S sp (refuse u)" if "link_inv cf h S sp u" for u using that link_inv_keeps keeps_stall by blast+
  have stops: "Q (False, u, y)" "Q (True, stall u, y)" if "link_inv cf h S sp u" for u y using kept [OF that] by (simp_all add: Q_def)
  have tried: "link_inv cf h S sp u" if "try_secrets h ctx ct xs s = (r, u)" for ctx ct xs r u
    using try_secrets_effect [OF that] link_inv_secret [OF inv s] by auto
  have promoted: "link_inv cf h S sp (emit SlotPromote u)" if "link_inv cf h S sp u" for u
    using that by (rule link_inv_keeps [rotated]) (simp add: keeps_def emit_def sent_def active_def)
  have answered: "Q (b, u', y)" if p: "length w1 = M1_LEN" "probeContext h (take SUITE_LEN w1) (subarray w1 SUITE_LEN (SUITE_LEN + EPH_LEN))
      (subarray w1 (SUITE_LEN + EPH_LEN) (SUITE_LEN + EPH_LEN + KEM_PK_LEN)) s = Some ctx"
      "tn_secrets t = Some xs" "try_secrets h ctx (drop (SUITE_LEN + EPH_LEN + KEM_PK_LEN) w1) xs s = (Some True, u)"
      "answerMsg1 cf h t w1 e k (if lk_slot u then emit SlotPromote u else u) = (b, u')" for ctx xs u b u' e k y
  proof -
    let ?u = "if lk_slot u then emit SlotPromote u else u"
    obtain rt where rt: "lk_root s = Some rt" "hash h [rt, take SUITE_LEN w1, subarray w1 SUITE_LEN (SUITE_LEN + EPH_LEN),
        subarray w1 (SUITE_LEN + EPH_LEN) (SUITE_LEN + EPH_LEN + KEM_PK_LEN)] = Some ctx" using p(2) by (auto simp: probeContext_def rooted_def split: bind_splits)
    obtain c x kk pt where u: "u = s\<lparr>lk_contactSecret := c\<rparr>" "x \<in> S" "lk_contactSecret u = Some x" "hash h [x, ctx, LABEL_PROBE] = Some kk"
        "openZero h kk (drop (SUITE_LEN + EPH_LEN + KEM_PK_LEN) w1) = Some (Some pt)" using try_secrets_effect [OF p(4)] S [OF p(3)] by blast
    have root: "rootKey h (lk_networkKey s) = Some rt" using inv rt(1) by (auto simp: link_inv_def)
    have "probe_proved h S u" unfolding probe_proved_def using root rt(2) u p(1) by (intro exI conjI) auto
    moreover have k: "keeps u ?u" by (simp add: keeps_def emit_def sent_def active_def)
    moreover note e = answerMsg1_effect [OF p(5)]
    ultimately have pr: "probe_proved h S u'" using probe_proved_goes proved_keeps(3) by blast
    have i: "link_inv cf h S sp ?u" using link_inv_keeps [OF k tried [OF p(4)]] .
    have nd: "\<not> lk_weDialed ?u" "\<not> lk_authed ?u" using s(1,2) u(1) by (auto simp: emit_def active_def)
    let ?v = "if b then u' else refuse u'"
    have g: "goes ?u ?v" "lk_root ?v = lk_root ?u" "\<not> lk_authed ?v" "probe_proved h S ?v"
      using e pr goes_trans [OF _ goes_keeps [OF keeps_stall(2)]] proved_keeps(3) [OF keeps_stall(2)] keeps_stall(2) [of u'] nd by (auto simp: keeps_def)
    have "active ?v \<Longrightarrow> lk_peerEph ?v \<noteq> None \<and> (\<exists>rt w2 h1. lk_root ?v = Some rt \<and> w2 \<in> set (sent ?v) \<and> hash h [rt, w1] = Some h1 \<and> hash h [h1, w2] = lk_th ?v)"
    proof -
      assume "active ?v"
      then have "b" using refused_over [of u'] by (cases b) simp_all
      then have v: "?v = u'" by simp
      show ?thesis using e \<open>b\<close> \<open>active ?v\<close> unfolding v by blast
    qed
    then have "accept_inv cf h S ?v" using g(3,4) unfolding accept_inv_def by blast
    then show ?thesis using link_inv_goes [OF i g(1) nd(2) g(2)] nd(1) by (simp add: Q_def)
  qed
  have "Q (onMsg1 cf h t w1 (s, seen))"
    unfolding onMsg1_def prod.case
    by (intro step_rules [where Q = Q]; simp add: stops inv)
      (auto simp: inv split: if_splits dest: tried intro: stops promoted answered)
  then show ?thesis unfolding m Q_def prod.case .
qed


lemma link_inv_root: "link_inv cf h S sp s \<Longrightarrow> rootKey h (lk_networkKey s) = Some rt \<Longrightarrow> link_inv cf h S sp (s\<lparr>lk_root := Some rt\<rparr>)"
  by (auto simp: link_inv_def dial_inv_def accept_inv_def active_def sent_def dial_proved_def accept_proved_def probe_proved_def)

lemma boot_inv:
  assumes inv: "link_inv cf h S sp s"
  shows "link_inv cf h S sp (boot cf h t s)"
proof (cases "lk_weDialed s")
  case True
  note e = boot_dial_effect [OF True refl, of cf h t]
  let ?s = "boot cf h t s"
  have g: "goes s ?s" using e by blast
  have "dial_proved cf h ?s" if "lk_authed ?s"
  proof (rule dial_proved_same [of ?s s])
    show "dial_proved cf h s" using that inv e True by (simp add: link_inv_def dial_inv_def)
  qed (use g e in \<open>auto simp: goes_def\<close>)
  moreover have "\<exists>rt w1. lk_root ?s = Some rt \<and> w1 \<in> set (sent ?s) \<and> hash h [rt, w1] = lk_th ?s" if "active ?s" using e that by (auto simp: active_def)
  ultimately have "dial_inv cf h ?s" unfolding dial_inv_def by blast
  then show ?thesis using inv e True g by (auto simp: link_inv_def goes_def)
next
  case False
  show ?thesis
  proof (cases "rootKey h (lk_networkKey s)")
    case None
    then show ?thesis using link_inv_keeps [OF keeps_end(2) inv] by (simp add: boot_def need_def)
  next
    case (Some rt)
    have "keeps (s\<lparr>lk_root := Some rt\<rparr>) (armDeadline t (cf_unverifiedTimeoutMs cf) (s\<lparr>lk_root := Some rt\<rparr>))" by (simp add: armDeadline_eq keeps_def sent_def active_def)
    from link_inv_keeps [OF this link_inv_root [OF inv Some]] show ?thesis using False Some by (simp add: boot_def need_def Let_def)
  qed
qed

lemma frame_inv:
  assumes "link_inv cf h S sp u" "lk_authed u"
  shows "link_inv cf h S sp (emit (OnFrame (lk_peerId u) pt (case lk_peerPubkey u of Some pk \<Rightarrow> pk | None \<Rightarrow> [])) u)"
proof -
  have "lk_peerPubkey u \<noteq> None" using assms by (auto simp: link_inv_def dial_inv_def accept_inv_def dial_proved_def accept_proved_def split: if_splits)
  then show ?thesis using assms
    by (auto simp: link_inv_def dial_inv_def accept_inv_def active_def sent_def dial_proved_def accept_proved_def probe_proved_def emit_def)
qed

lemma onRecord_inv:
  assumes inv: "link_inv cf h S sp s" and a: "lk_authed s" and m: "onRecord cf h t m s = (ok, s')"
  shows "link_inv cf h S sp s'"
proof -
  define Q where "Q = (\<lambda>(ok :: bool, u). link_inv cf h S sp u)"
  have kept: "Q (b, u)" if "keeps s u" for b u using link_inv_keeps [OF that inv] by (simp add: Q_def)
  have ends: "Q (b, abort d s)" "Q (b, s)" for b d using kept keeps_end keeps_refl by blast+
  have marked: "keeps s ((markTraffic t s)\<lparr>lk_recvCtr := n\<rparr>)" for n by (rule keeps_trans [OF keeps_teardown(6) keeps_updates(11)])
  have ratchets: "keeps s ((markTraffic t s)\<lparr>lk_recvKey := k, lk_recvEpoch := e, lk_recvCtr := n\<rparr>)" for n k e
    by (rule keeps_trans [OF keeps_trans [OF keeps_trans [OF keeps_teardown(6) keeps_updates(12)] keeps_updates(13)] keeps_updates(11)])
  have fin: "Q (True, close_link (u\<lparr>lk_peerSaidGoodbye := True\<rparr>))"
      "Q (True, emit (OnFrame (lk_peerId u) pt (case lk_peerPubkey u of Some pk \<Rightarrow> pk | None \<Rightarrow> [])) u)" if "keeps s u" for u pt
  proof -
    show "Q (True, close_link (u\<lparr>lk_peerSaidGoodbye := True\<rparr>))" by (rule kept, rule keeps_trans [OF keeps_trans [OF that keeps_updates(10)] keeps_end(3)])
    show "Q (True, emit (OnFrame (lk_peerId u) pt (case lk_peerPubkey u of Some pk \<Rightarrow> pk | None \<Rightarrow> [])) u)"
      using frame_inv [OF link_inv_keeps [OF that inv]] that a by (auto simp: Q_def keeps_def)
  qed
  have "Q (onRecord cf h t m s)"
    unfolding onRecord_def
    by (intro step_rules [where Q = Q]; simp add: ends)
      (auto simp: need_def marked ratchets split: if_splits option.split_asm intro!: kept fin)
  then show ?thesis unfolding m Q_def prod.case .
qed


lemma unready_effect:
  assumes "lk_th s = None" "\<not> lk_authed s"
  shows "onMsg2 cf h t w s = (ok, s') \<Longrightarrow> goes s s' \<and> lk_root s' = lk_root s \<and> \<not> lk_authed s' \<and> (ok \<longrightarrow> \<not> active s')"
    and "onMsg3 cf h t w s = (ok, s') \<Longrightarrow> keeps s s' \<and> (ok \<longrightarrow> \<not> active s')"
proof -
  define Q where "Q = (\<lambda>(ok, u). goes s u \<and> lk_root u = lk_root s \<and> \<not> lk_authed u \<and> (ok \<longrightarrow> \<not> active u))"
  have stops: "Q (False, u)" "Q (True, stall u)" if "goes s u" "lk_root u = lk_root s" "\<not> lk_authed u" for u using that by (simp_all add: Q_def ends_goes)
  have "Q (onMsg2 cf h t w s)" unfolding onMsg2_def by (intro step_rules [where Q = Q]; simp add: stops assms)
  then show "onMsg2 cf h t w s = (ok, s') \<Longrightarrow> goes s s' \<and> lk_root s' = lk_root s \<and> \<not> lk_authed s' \<and> (ok \<longrightarrow> \<not> active s')" by (simp add: Q_def)
  show "onMsg3 cf h t w s = (ok, s') \<Longrightarrow> keeps s s' \<and> (ok \<longrightarrow> \<not> active s')"
    using assms(1) keeps_stall(1) [of s] ends_effect(2) [of s] by (auto simp: onMsg3_def need_def split: if_splits)
qed

text \<open>A dial after msg2 and an accept after msg3: over, or authenticated.\<close>

lemma dial_step_inv:
  assumes inv: "link_inv cf h S sp s" and s: "active s" "lk_weDialed s" and u: "onMsg2 cf h t m s = (ok, u)"
  shows "link_inv cf h S sp (if ok then u else refuse u)"
proof -
  have na: "\<not> lk_authed s" using s(1) by (simp add: active_def)
  have e: "goes s u \<and> lk_root u = lk_root s \<and> (lk_authed u \<longrightarrow> dial_proved cf h u) \<and> (ok \<and> \<not> lk_authed u \<longrightarrow> \<not> active u)"
  proof (cases "lk_th s")
    case None
    with unready_effect(1) [OF None na u] show ?thesis by blast
  next
    case (Some th)
    then obtain rt w1 where rt: "lk_root s = Some rt" "w1 \<in> set (sent s)" "hash h [rt, w1] = lk_th s" using inv s by (auto simp: link_inv_def dial_inv_def)
    then have "rootKey h (lk_networkKey s) = Some rt" using inv by (simp add: link_inv_def)
    from onMsg2_effect [OF u s(1) rt(1) this] rt(2,3) show ?thesis by blast
  qed
  have "dial_inv cf h u" if "\<not> active u" using e that by (simp add: dial_inv_def)
  moreover have "\<not> active u" if ok using e that by (auto simp: active_def)
  ultimately have "link_inv cf h S sp u" if ok using link_inv_goes [OF inv _ na, of u] e s(2) that by simp
  moreover have "link_inv cf h S sp (refuse u)"
  proof (rule link_inv_goes [OF inv _ na])
    show "goes s (refuse u)" "lk_root (refuse u) = lk_root s" using e goes_trans [OF _ goes_keeps [OF keeps_stall(2)]] by (simp_all add: refused_same)
    have "lk_authed (refuse u) \<longrightarrow> dial_proved cf h (refuse u)" using e proved_keeps(1) [OF keeps_stall(2), of cf h u] by (simp add: refused_same)
    then show "if lk_weDialed s then dial_inv cf h (refuse u) else accept_inv cf h S (refuse u)" using refused_over s(2) by (simp add: dial_inv_def)
  qed
  ultimately show ?thesis by simp
qed

lemma accept_step_inv:
  assumes inv: "link_inv cf h S sp s" and s: "active s" "\<not> lk_weDialed s" and u: "onMsg3 cf h t m s = (ok, u)"
  shows "link_inv cf h S sp (if ok then u else refuse u)"
proof (cases "lk_th s")
  case None
  have "\<not> lk_authed s" using s(1) by (simp add: active_def)
  from unready_effect(2) [OF None this u] link_inv_keeps [OF _ inv, of u] link_inv_keeps [OF keeps_stall(2), of cf h S sp u] show ?thesis by auto
next
  case (Some th)
  have na: "\<not> lk_authed s" using s(1) by (simp add: active_def)
  have ai: "accept_inv cf h S s" using inv s(2) by (simp add: link_inv_def)
  then obtain rt w1 h1 w2 where rt: "lk_root s = Some rt" "w2 \<in> set (sent s)" "hash h [rt, w1] = Some h1" "hash h [h1, w2] = lk_th s" using Some s(1) by (auto simp: accept_inv_def)
  then have "rootKey h (lk_networkKey s) = Some rt" using inv by (simp add: link_inv_def)
  from onMsg3_effect [OF u s(1) rt(1) this] rt(2-4)
  have e: "goes s u \<and> lk_root u = lk_root s \<and> (lk_authed u \<longrightarrow> accept_proved cf h u) \<and> (ok \<and> \<not> lk_authed u \<longrightarrow> \<not> active u)" by blast
  have "probe_proved h S s" using ai Some by (simp add: accept_inv_def)
  then have p: "probe_proved h S u" using e probe_proved_goes by blast
  have "accept_inv cf h S u" if "\<not> active u" using e p that by (simp add: accept_inv_def)
  moreover have "\<not> active u" if ok using e that by (auto simp: active_def)
  ultimately have "link_inv cf h S sp u" if ok using link_inv_goes [OF inv _ na, of u] e s(2) that by simp
  moreover have "link_inv cf h S sp (refuse u)"
  proof (rule link_inv_goes [OF inv _ na])
    show "goes s (refuse u)" "lk_root (refuse u) = lk_root s" using e goes_trans [OF _ goes_keeps [OF keeps_stall(2)]] by (simp_all add: refused_same)
    have "lk_authed (refuse u) \<longrightarrow> accept_proved cf h (refuse u)" using e proved_keeps(2) [OF keeps_stall(2), of cf h u] by (simp add: refused_same)
    then show "if lk_weDialed s then dial_inv cf h (refuse u) else accept_inv cf h S (refuse u)"
      using refused_over s(2) proved_keeps(3) [OF keeps_stall(2) p] by (simp add: accept_inv_def)
  qed
  ultimately show ?thesis by simp
qed

lemma onMessage_inv:
  assumes inv: "link_inv cf h S sp s" and S: "\<And>xs. tn_secrets t = Some xs \<Longrightarrow> set xs \<subseteq> S"
  shows "link_inv cf h S sp (fst (onMessage cf h t m (s, seen)))"
proof -
  have over: "link_inv cf h S sp (if ok then u else refuse u)" if "link_inv cf h S sp u" for ok u using that link_inv_keeps [OF keeps_stall(2)] by simp
  consider "lk_closed s \<or> lk_stalled s" | "lk_authed s" "\<not> lk_closed s" "\<not> lk_stalled s" | "active s" "lk_weDialed s" | "active s" "\<not> lk_weDialed s" "lk_peerEph s \<noteq> None"
    | "active s" "\<not> lk_weDialed s" "lk_peerEph s = None" by (auto simp: active_def)
  then show ?thesis
  proof cases
    case 1
    with inv show ?thesis by (auto simp: onMessage_def)
  next
    case 2
    obtain ok u where u: "onRecord cf h t m s = (ok, u)" by fastforce
    with 2 over [OF onRecord_inv [OF inv 2(1) u]] show ?thesis by (simp add: onMessage_def)
  next
    case 3
    obtain ok u where u: "onMsg2 cf h t m s = (ok, u)" by fastforce
    have "fst (onMessage cf h t m (s, seen)) = (if ok then u else refuse u)" using 3 u by (simp add: onMessage_def active_def)
    with dial_step_inv [OF inv 3 u] show ?thesis by simp
  next
    case 4
    obtain ok u where u: "onMsg3 cf h t m s = (ok, u)" by fastforce
    have "fst (onMessage cf h t m (s, seen)) = (if ok then u else refuse u)" using 4 u by (simp add: onMessage_def active_def)
    with accept_step_inv [OF inv 4(1,2) u] show ?thesis by simp
  next
    case 5
    obtain ok u seen' where u: "onMsg1 cf h t m (s, seen) = (ok, u, seen')" by (cases "onMsg1 cf h t m (s, seen)") auto
    with 5 onMsg1_inv [OF inv 5(2,1,3) S u] show ?thesis by (simp add: onMessage_def active_def)
  qed
qed


lemma work_turn_inv:
  assumes inv: "link_inv cf h S sp s" and S: "\<And>xs. tn_secrets t = Some xs \<Longrightarrow> set xs \<subseteq> S"
  shows "link_inv cf h S sp (fst (work_turn cf h t (s, seen)))"
proof (cases "lk_work s")
  case Nil
  with inv show ?thesis by (simp add: work_turn_def)
next
  case (Cons w rest)
  have i: "link_inv cf h S sp (s\<lparr>lk_work := rest\<rparr>)" using link_inv_keeps [OF keeps_updates(1) inv] .
  show ?thesis
  proof (cases w)
    case (Message m)
    with Cons onMessage_inv [OF i S, where m = m and seen = seen] show ?thesis by (simp add: work_turn_def)
  qed (use Cons boot_inv [OF i] link_inv_keeps [OF keeps_record_turn i] link_inv_keeps [OF keeps_ending_turn i] in \<open>simp_all add: work_turn_def\<close>)
qed

lemma new_Link_inv: "link_inv cf h S sp (new_Link sp slot)"
proof -
  have "link_inv cf h S sp s" if "lk_weDialed s = sp_weDialed sp" "lk_dialedPeerId s = sp_dialedPeerId sp" "lk_acceptPeerId s = sp_acceptPeerId sp"
      "lk_networkKey s = sp_networkKey sp" "lk_lint s = sp_lint sp" "\<not> lk_authed s" "lk_root s = None" "lk_out s = []" "lk_th s = None" "lk_sendKey s = None" for s
    using that by (simp add: link_inv_def dial_inv_def accept_inv_def sent_def)
  then show ?thesis by (auto simp: new_Link_def Let_def intro!: link_inv_keeps [OF keeps_end(2)] link_inv_keeps [OF keeps_teardown(7)])
qed

lemma run_inv: "link_run cf h S sp s \<Longrightarrow> link_inv cf h S sp s"
proof (induction rule: link_run.induct)
  case (run_work s t seen)
  then show ?case using work_turn_inv by blast
qed (auto intro: new_Link_inv link_inv_keeps keeps_send keeps_onWire keeps_end keeps_stall keeps_teardown)


section \<open>The properties\<close>

lemma run_message:
  assumes "link_run cf h S sp s" "lk_work s = []" "\<And>xs. tn_secrets t = Some xs \<Longrightarrow> set xs \<subseteq> S"
  shows "link_run cf h S sp (fst (onMessage cf h t m (s, seen)))"
proof (cases "lk_closed s \<or> lk_stalled s")
  case True
  with assms(1) show ?thesis by (auto simp: onMessage_def)
next
  case False
  have "link_run cf h S sp (fst (work_turn cf h t (onWire_framed [m] s, seen)))" by (intro run_work run_framed assms(1,3))
  moreover have "s\<lparr>lk_work := []\<rparr> = s" using assms(2) by (cases s) simp
  ultimately show ?thesis using False assms(2) by (simp add: work_turn_def onWire_framed_def enqueue_def)
qed

lemma small_run:
  "\<exists>a. link_run small_conf small_A {} small_dial a \<and> lk_authed a"
  "\<exists>b. link_run small_peer small_B {[1], [2]} small_accept b \<and> lk_authed b \<and> sent b \<noteq> []"
proof -
  obtain a b seen' a1 w2 b1 b2 w1 w3 seen2 where x: "in_step a b" "in_step b a" "fst (work_turn small_conf small_A small_turn (new_Link small_dial None, [])) = a1" "lk_work a1 = []"
      "a = fst (onMessage small_conf small_A small_turn w2 (a1, []))" "fst (work_turn small_peer small_B small_turn (new_Link small_accept (Some True), [])) = b1" "lk_work b1 = []"
      "fst (onMessage small_peer small_B small_secrets w1 (b1, [])) = b2" "lk_work b2 = []" "b = fst (onMessage small_peer small_B small_turn w3 (b2, seen2))"
    using exchange_ok [OF small_handshake] by (auto split: prod.splits)
  have none: "tn_secrets small_turn = None" "tn_secrets small_secrets = Some [[2], [1]]" by (simp_all add: small_turn_def small_secrets_def)
  have "link_run small_conf small_A {} small_dial a1" unfolding x(3) [symmetric] by (intro run_work run_new) (simp add: none)
  then have "link_run small_conf small_A {} small_dial a" unfolding x(5) using x(4) by (rule run_message) (simp add: none)
  then show "\<exists>a. link_run small_conf small_A {} small_dial a \<and> lk_authed a" using x(2) by (auto simp: in_step_def)
  have "link_run small_peer small_B {[1], [2]} small_accept b1" unfolding x(6) [symmetric] by (intro run_work run_new) (simp add: none)
  then have "link_run small_peer small_B {[1], [2]} small_accept b2" unfolding x(8) [symmetric] using x(7) by (rule run_message) (simp add: none)
  then have b: "link_run small_peer small_B {[1], [2]} small_accept b" unfolding x(10) using x(9) by (rule run_message) (simp add: none)
  moreover have "lk_authed b" using x(1) by (simp add: in_step_def)
  moreover have "sent b \<noteq> []" using run_inv [OF b] \<open>lk_authed b\<close> small_handshake(13) by (auto simp: link_inv_def accept_inv_def accept_proved_def)
  ultimately show "\<exists>b. link_run small_peer small_B {[1], [2]} small_accept b \<and> lk_authed b \<and> sent b \<noteq> []" by blast
qed

text \<open>C14: A dial authenticates the key it dialed. Whatever a dialing link is put through, once it is authenticated it holds a signature of
  exactly the dialed key, not its own and admitted by the lint, over this network's root and a transcript that starts with the msg1 this
  link itself sent; and every frame it has handed on is attributed to that key.\<close>

theorem dial_authenticates:
  assumes "link_run cf h S sp s" "sp_weDialed sp" "lk_authed s"
  shows "\<exists>w1 \<in> set (sent s). \<exists>rt h1 hd' hs sig. let pk = fromHex (sp_dialedPeerId sp) in
    rootKey h (sp_networkKey sp) = Some rt \<and> hash h [rt, w1] = Some h1 \<and> length hd' = EPH_LEN + KEM_CT_LEN \<and> hash h [h1, hd'] = Some hs \<and>
    verify h pk sig (channelIdentityMessage rt hs pk) = Some True \<and> pk \<noteq> cf_ownPk cf \<and> (sp_lint sp \<longrightarrow> admits cf pk) \<and>
    lk_peerPubkey s = Some pk \<and> lk_peerId s = sp_dialedPeerId sp \<and> (\<forall>(p, pt, k) \<in> set (frames_out (lk_out s)). p = sp_dialedPeerId sp \<and> k = pk)"
proof -
  have i: "link_inv cf h S sp s" using run_inv [OF assms(1)] .
  then have d: "dial_proved cf h s" "lk_networkKey s = sp_networkKey sp" "lk_dialedPeerId s = sp_dialedPeerId sp" "lk_lint s = sp_lint sp"
    using assms(2,3) by (auto simp: link_inv_def dial_inv_def)
  have f: "p = lk_peerId s \<and> lk_peerPubkey s = Some k" if "(p, pt, k) \<in> set (frames_out (lk_out s))" for p pt k using i that by (auto simp: link_inv_def)
  let ?pk = "fromHex (sp_dialedPeerId sp)"
  obtain w1 rt h1 hd' hs sig where x: "w1 \<in> set (sent s)" "rootKey h (sp_networkKey sp) = Some rt" "hash h [rt, w1] = Some h1" "length hd' = EPH_LEN + KEM_CT_LEN"
      "hash h [h1, hd'] = Some hs" "verify h ?pk sig (channelIdentityMessage rt hs ?pk) = Some True" "lk_peerPubkey s = Some ?pk" "lk_peerId s = sp_dialedPeerId sp"
      "?pk \<noteq> cf_ownPk cf" "sp_lint sp \<longrightarrow> admits cf ?pk"
    using d(1) unfolding dial_proved_def d(2-4) by metis
  have "\<forall>(p, pt, k) \<in> set (frames_out (lk_out s)). p = sp_dialedPeerId sp \<and> k = ?pk" using f x(7,8) by auto
  then show ?thesis unfolding Let_def
    by (rule_tac bexI [OF _ x(1)], rule_tac exI [of _ rt], rule_tac exI [of _ h1], rule_tac exI [of _ hd'], rule_tac exI [of _ hs], rule_tac exI [of _ sig]) (simp add: x)
qed

theorem dial_authenticates_witness:
  "\<exists>s sig hs rt. link_run small_conf small_A {} small_dial s \<and> lk_authed s \<and> verify small_A (fromHex (sp_dialedPeerId small_dial)) sig
     (channelIdentityMessage rt hs (fromHex (sp_dialedPeerId small_dial))) = Some True"
  using small_run(1) dial_authenticates [of small_conf small_A "{}" small_dial] small_handshake(9) unfolding Let_def by blast

text \<open>C15: An accept authenticates the key it names. Whatever an accepting link is put through, once it is authenticated it holds a
  signature of the key it names, not its own, admitted by the lint and the one it was made for if it was made for one, over this
  network's root and a transcript that ends with the msg2 this link itself sent; and every frame it has handed on is attributed to
  that key.\<close>

theorem accept_authenticates:
  assumes "link_run cf h S sp s" "\<not> sp_weDialed sp" "lk_authed s"
  shows "\<exists>w2 \<in> set (sent s). \<exists>rt w1 h1 h2 sig pk.
    rootKey h (sp_networkKey sp) = Some rt \<and> hash h [rt, w1] = Some h1 \<and> hash h [h1, w2] = Some h2 \<and> verify h pk sig (channelIdentityMessage rt h2 pk) = Some True \<and>
    pk \<noteq> cf_ownPk cf \<and> (sp_lint sp \<longrightarrow> admits cf pk) \<and> (sp_acceptPeerId sp = [] \<or> sp_acceptPeerId sp = guest_toHex pk) \<and>
    lk_peerPubkey s = Some pk \<and> lk_peerId s = guest_toHex pk \<and> (\<forall>(p, pt, k) \<in> set (frames_out (lk_out s)). p = guest_toHex pk \<and> k = pk)"
proof -
  have i: "link_inv cf h S sp s" using run_inv [OF assms(1)] .
  then have d: "accept_proved cf h s" "lk_networkKey s = sp_networkKey sp" "lk_acceptPeerId s = sp_acceptPeerId sp" "lk_lint s = sp_lint sp"
    using assms(2,3) by (auto simp: link_inv_def accept_inv_def)
  have f: "p = lk_peerId s \<and> lk_peerPubkey s = Some k" if "(p, pt, k) \<in> set (frames_out (lk_out s))" for p pt k using i that by (auto simp: link_inv_def)
  obtain w2 rt w1 h1 h2 sig pk where x: "w2 \<in> set (sent s)" "rootKey h (sp_networkKey sp) = Some rt" "hash h [rt, w1] = Some h1" "hash h [h1, w2] = Some h2"
      "verify h pk sig (channelIdentityMessage rt h2 pk) = Some True" "lk_peerPubkey s = Some pk" "lk_peerId s = guest_toHex pk" "pk \<noteq> cf_ownPk cf"
      "sp_lint sp \<longrightarrow> admits cf pk" "sp_acceptPeerId sp = [] \<or> sp_acceptPeerId sp = guest_toHex pk"
    using d(1) unfolding accept_proved_def d(2-4) by metis
  have "\<forall>(p, pt, k) \<in> set (frames_out (lk_out s)). p = guest_toHex pk \<and> k = pk" using f x(6,7) by auto
  then show ?thesis
    by (rule_tac bexI [OF _ x(1)], rule_tac exI [of _ rt], rule_tac exI [of _ w1], rule_tac exI [of _ h1], rule_tac exI [of _ h2], rule_tac exI [of _ sig], rule_tac exI [of _ pk]) (simp add: x)
qed

theorem accept_authenticates_witness:
  "\<exists>s w2 pk. link_run small_peer small_B {[1], [2]} small_accept s \<and> lk_authed s \<and> w2 \<in> set (sent s) \<and> lk_peerPubkey s = Some pk \<and> pk \<noteq> cf_ownPk small_peer"
  using small_run(2) accept_authenticates [of small_peer small_B "{[1], [2]}" small_accept] small_handshake(13) by blast



end
