(* ===== verification/Limiter.thy ===== *)
theory Limiter
  imports Guest_Util Complex_Main
begin

text \<open>
  \<^verbatim>\<open>LinkLimiter\<close> of \<^verbatim>\<open>WASM/transport/src/core.js\<close>: the slots that bound how many links a node holds in each tier and
  from one source. A slot object is its position in \<open>lm_slots\<close>. The callback \<open>evict\<close> ends a link; what it does to the limiter
  is to touch the slots of links that take over the ended link's queue, given as \<open>ev\<close>.
\<close>

datatype tier = Unverified | Verified | Authed

record LimiterSlot =
  sl_source :: "jstr option"
  sl_tier :: tier
  sl_released :: bool
  sl_bookId :: nat

text \<open>A book's entries in insertion order, a book id and its slot.\<close>

record LinkLimiter =
  lm_maxPerSource :: rat
  lm_max :: "tier \<Rightarrow> rat"
  lm_books :: "tier \<Rightarrow> (nat \<times> nat) list"
  lm_nextId :: nat
  lm_perSource :: "jstr \<Rightarrow> nat option"
  lm_slots :: "LimiterSlot list"
  lm_evicted :: "nat list"

definition new_LinkLimiter :: "rat \<Rightarrow> rat \<Rightarrow> rat \<Rightarrow> rat \<Rightarrow> LinkLimiter" where
  "new_LinkLimiter maxUnverified maxPerSource maxVerified maxAuthed =
     \<lparr>lm_maxPerSource = maxPerSource,
      lm_max = (\<lambda>t. case t of Unverified \<Rightarrow> maxUnverified | Verified \<Rightarrow> maxVerified | Authed \<Rightarrow> maxAuthed),
      lm_books = (\<lambda>_. []), lm_nextId = 0, lm_perSource = (\<lambda>_. None), lm_slots = [], lm_evicted = []\<rparr>"

text \<open>\<open>Map.delete\<close> and \<open>Map.set\<close> of a fresh key.\<close>

definition book_delete :: "tier \<Rightarrow> nat \<Rightarrow> LinkLimiter \<Rightarrow> LinkLimiter" where
  "book_delete t b lm = lm\<lparr>lm_books := (lm_books lm)(t := filter (\<lambda>e. fst e \<noteq> b) (lm_books lm t))\<rparr>"

definition book_set :: "tier \<Rightarrow> nat \<Rightarrow> nat \<Rightarrow> LinkLimiter \<Rightarrow> LinkLimiter" where
  "book_set t b i lm = lm\<lparr>lm_books := (lm_books lm)(t := lm_books lm t @ [(b, i)])\<rparr>"

definition set_slot :: "nat \<Rightarrow> (LimiterSlot \<Rightarrow> LimiterSlot) \<Rightarrow> LinkLimiter \<Rightarrow> LinkLimiter" where
  "set_slot i f lm = lm\<lparr>lm_slots := (lm_slots lm)[i := f (lm_slots lm ! i)]\<rparr>"

definition unbook :: "nat \<Rightarrow> LinkLimiter \<Rightarrow> LinkLimiter" where
  "unbook i lm = book_delete (sl_tier (lm_slots lm ! i)) (sl_bookId (lm_slots lm ! i)) lm"

text \<open>\<open>slot.bookId = this.nextId++\<close>, and its place at the tail of a book.\<close>

definition rebook :: "tier \<Rightarrow> nat \<Rightarrow> LinkLimiter \<Rightarrow> LinkLimiter" where
  "rebook t i lm =
     (let b = lm_nextId lm; lm = set_slot i (\<lambda>s. s\<lparr>sl_tier := t, sl_bookId := b\<rparr>) (lm\<lparr>lm_nextId := b + 1\<rparr>)
      in book_set t b i lm)"

definition touch :: "nat \<Rightarrow> LinkLimiter \<Rightarrow> LinkLimiter" where
  "touch i lm =
     (let s = lm_slots lm ! i in
      if sl_released s \<or> sl_tier s \<noteq> Authed then lm else rebook Authed i (book_delete Authed (sl_bookId s) lm))"

definition release :: "nat \<Rightarrow> LinkLimiter \<Rightarrow> LinkLimiter" where
  "release i lm =
     (if sl_released (lm_slots lm ! i) then lm
      else let lm = set_slot i (\<lambda>s. s\<lparr>sl_released := True\<rparr>) (unbook i lm) in
           case sl_source (lm_slots lm ! i) of
             None \<Rightarrow> lm
           | Some src \<Rightarrow>
               (case lm_perSource lm src of
                  None \<Rightarrow> lm
                | Some n \<Rightarrow> lm\<lparr>lm_perSource := (lm_perSource lm)(src := if n \<le> 1 then None else Some (n - 1))\<rparr>))"

definition makeRoom :: "(nat \<Rightarrow> nat list) \<Rightarrow> tier \<Rightarrow> LinkLimiter \<Rightarrow> bool \<times> LinkLimiter" where
  "makeRoom ev t lm =
     (if of_nat (length (lm_books lm t)) < lm_max lm t then (True, lm)
      else case lm_books lm t of
             [] \<Rightarrow> (False, lm)
           | (b, victim) # _ \<Rightarrow>
               (let lm = release victim lm; lm = lm\<lparr>lm_evicted := lm_evicted lm @ [victim]\<rparr> in (True, fold touch (ev victim) lm)))"

definition acquire :: "(nat \<Rightarrow> nat list) \<Rightarrow> jstr option \<Rightarrow> LinkLimiter \<Rightarrow> nat option \<times> LinkLimiter" where
  "acquire ev source lm =
     (let count = (\<lambda>lm src. case lm_perSource lm src of None \<Rightarrow> 0 | Some n \<Rightarrow> n) in
      if (case source of None \<Rightarrow> False | Some src \<Rightarrow> of_nat (count lm src) \<ge> lm_maxPerSource lm) then (None, lm)
      else case makeRoom ev Unverified lm of
             (False, lm) \<Rightarrow> (None, lm)
           | (True, lm) \<Rightarrow>
               (let b = lm_nextId lm; i = length (lm_slots lm);
                    lm = lm\<lparr>lm_nextId := b + 1, lm_slots := lm_slots lm @ [\<lparr>sl_source = source, sl_tier = Unverified, sl_released = False, sl_bookId = b\<rparr>]\<rparr>;
                    lm = (case source of None \<Rightarrow> lm | Some src \<Rightarrow> lm\<lparr>lm_perSource := (lm_perSource lm)(src \<mapsto> count lm src + 1)\<rparr>)
                in (Some i, book_set Unverified b i lm)))"

definition move :: "(nat \<Rightarrow> nat list) \<Rightarrow> nat \<Rightarrow> tier \<Rightarrow> LinkLimiter \<Rightarrow> bool \<times> LinkLimiter" where
  "move ev i t lm =
     (if sl_released (lm_slots lm ! i) \<or> sl_tier (lm_slots lm ! i) = t then (True, lm)
      else case makeRoom ev t lm of
             (False, lm) \<Rightarrow> (False, lm)
           | (True, lm) \<Rightarrow> (True, rebook t i (unbook i lm)))"

definition promote :: "(nat \<Rightarrow> nat list) \<Rightarrow> nat \<Rightarrow> LinkLimiter \<Rightarrow> bool \<times> LinkLimiter" where
  "promote ev i lm = move ev i Verified lm"

definition hold :: "(nat \<Rightarrow> nat list) \<Rightarrow> nat \<Rightarrow> LinkLimiter \<Rightarrow> bool \<times> LinkLimiter" where
  "hold ev i lm = move ev i Authed lm"

section \<open>Runs\<close>

text \<open>A link holds only slots it acquired.\<close>

inductive limiter_run :: "rat \<Rightarrow> rat \<Rightarrow> rat \<Rightarrow> rat \<Rightarrow> LinkLimiter \<Rightarrow> bool" for mu ms mv ma where
  run_new: "limiter_run mu ms mv ma (new_LinkLimiter mu ms mv ma)"
| run_acquire: "limiter_run mu ms mv ma lm \<Longrightarrow> \<forall>v. \<forall>j \<in> set (ev v). j < length (lm_slots lm) \<Longrightarrow> limiter_run mu ms mv ma (snd (acquire ev source lm))"
| run_promote: "limiter_run mu ms mv ma lm \<Longrightarrow> \<forall>v. \<forall>j \<in> set (ev v). j < length (lm_slots lm) \<Longrightarrow> i < length (lm_slots lm) \<Longrightarrow>
    limiter_run mu ms mv ma (snd (promote ev i lm))"
| run_hold: "limiter_run mu ms mv ma lm \<Longrightarrow> \<forall>v. \<forall>j \<in> set (ev v). j < length (lm_slots lm) \<Longrightarrow> i < length (lm_slots lm) \<Longrightarrow>
    limiter_run mu ms mv ma (snd (hold ev i lm))"
| run_touch: "limiter_run mu ms mv ma lm \<Longrightarrow> i < length (lm_slots lm) \<Longrightarrow> limiter_run mu ms mv ma (touch i lm)"
| run_release: "limiter_run mu ms mv ma lm \<Longrightarrow> i < length (lm_slots lm) \<Longrightarrow> limiter_run mu ms mv ma (release i lm)"

section \<open>The books\<close>

definition holds :: "LinkLimiter \<Rightarrow> nat \<Rightarrow> bool" where
  "holds lm i \<longleftrightarrow> i < length (lm_slots lm) \<and> \<not> sl_released (lm_slots lm ! i)"

definition from_source :: "LinkLimiter \<Rightarrow> jstr \<Rightarrow> nat" where
  "from_source lm src = length (filter (\<lambda>s. \<not> sl_released s \<and> sl_source s = Some src) (lm_slots lm))"

text \<open>Each book holds the live slots of its tier under their book ids, ids rising.\<close>

definition books_ok :: "LinkLimiter \<Rightarrow> bool" where
  "books_ok lm \<longleftrightarrow>
     (\<forall>t. sorted_wrt (<) (map fst (lm_books lm t)) \<and>
        set (lm_books lm t) = {(b, i). holds lm i \<and> sl_tier (lm_slots lm ! i) = t \<and> sl_bookId (lm_slots lm ! i) = b}) \<and>
     (\<forall>i. holds lm i \<longrightarrow> sl_bookId (lm_slots lm ! i) < lm_nextId lm)"

definition sources_ok :: "LinkLimiter \<Rightarrow> bool" where
  "sources_ok lm \<longleftrightarrow> (\<forall>src. lm_perSource lm src = (if from_source lm src = 0 then None else Some (from_source lm src)))"

definition limits_ok :: "LinkLimiter \<Rightarrow> bool" where
  "limits_ok lm \<longleftrightarrow> (\<forall>t. length (lm_books lm t) = 0 \<or> of_nat (length (lm_books lm t)) < lm_max lm t + 1) \<and>
     (\<forall>src. from_source lm src = 0 \<or> of_nat (from_source lm src) < lm_maxPerSource lm + 1)"


lemma book_unique:
  assumes "books_ok lm" "(b, i) \<in> set (lm_books lm t)" "(b, j) \<in> set (lm_books lm t)"
  shows "i = j"
proof -
  have "distinct (map fst (lm_books lm t))" using assms(1) by (simp add: books_ok_def strict_sorted_iff)
  then show ?thesis using assms(2,3) by (metis eq_key_imp_eq_value)
qed

lemma booked: "books_ok lm \<Longrightarrow> holds lm i \<Longrightarrow> (sl_bookId (lm_slots lm ! i), i) \<in> set (lm_books lm (sl_tier (lm_slots lm ! i)))"
  by (simp add: books_ok_def)

lemma in_book: "books_ok lm \<Longrightarrow> (b, i) \<in> set (lm_books lm t) \<Longrightarrow> holds lm i \<and> sl_tier (lm_slots lm ! i) = t \<and> sl_bookId (lm_slots lm ! i) = b"
  by (auto simp: books_ok_def)

lemma books_set: "books_ok lm \<Longrightarrow> set (lm_books lm t) = {(b, i). holds lm i \<and> sl_tier (lm_slots lm ! i) = t \<and> sl_bookId (lm_slots lm ! i) = b}"
  by (simp add: books_ok_def)

lemma books_below: "books_ok lm \<Longrightarrow> holds lm i \<Longrightarrow> sl_bookId (lm_slots lm ! i) < lm_nextId lm"
  by (simp add: books_ok_def)

lemma books_sorted: "books_ok lm \<Longrightarrow> sorted_wrt (<) (map fst (lm_books lm t))"
  by (simp add: books_ok_def)

text \<open>Taking a slot off its book takes off just that one.\<close>

lemma unbooked:
  assumes "books_ok lm" "holds lm i"
  shows "lm_books (unbook i lm) t = filter (\<lambda>e. snd e \<noteq> i) (lm_books lm t)"
proof (cases "t = sl_tier (lm_slots lm ! i)")
  case True
  have "fst e \<noteq> sl_bookId (lm_slots lm ! i) \<longleftrightarrow> snd e \<noteq> i" if "e \<in> set (lm_books lm t)" for e
    using that in_book [OF assms(1), of "fst e" "snd e" t] booked [OF assms] book_unique [OF assms(1), of "fst e" "snd e" t i] True by auto
  then show ?thesis using True by (auto simp: unbook_def book_delete_def intro!: filter_cong)
next
  case False
  then have "snd e \<noteq> i" if "e \<in> set (lm_books lm t)" for e using that in_book [OF assms(1), of "fst e" "snd e" t] by auto
  then show ?thesis using False by (auto simp: unbook_def book_delete_def filter_id_conv intro!: sym [OF filter_True])
qed

lemma unbook_rest [simp]: "lm_slots (unbook i lm) = lm_slots lm" "lm_nextId (unbook i lm) = lm_nextId lm" "lm_perSource (unbook i lm) = lm_perSource lm"
  "lm_max (unbook i lm) = lm_max lm" "lm_maxPerSource (unbook i lm) = lm_maxPerSource lm" "holds (unbook i lm) j = holds lm j" "from_source (unbook i lm) = from_source lm"
  by (simp_all add: unbook_def book_delete_def holds_def from_source_def fun_eq_iff)

lemma rebook_rest [simp]: "length (lm_slots (rebook t i lm)) = length (lm_slots lm)" "lm_perSource (rebook t i lm) = lm_perSource lm"
  "lm_max (rebook t i lm) = lm_max lm" "lm_maxPerSource (rebook t i lm) = lm_maxPerSource lm" "lm_nextId (rebook t i lm) = Suc (lm_nextId lm)"
  by (simp_all add: rebook_def book_set_def set_slot_def Let_def)

lemma rebook_slots: "i < length (lm_slots lm) \<Longrightarrow> lm_slots (rebook t i lm) ! j = (if j = i then (lm_slots lm ! i)\<lparr>sl_tier := t, sl_bookId := lm_nextId lm\<rparr> else lm_slots lm ! j)"
  by (simp add: rebook_def book_set_def set_slot_def Let_def)

lemma rebook_holds [simp]: "holds (rebook t i lm) j = holds lm j"
  by (cases "j = i") (auto simp: holds_def rebook_def book_set_def set_slot_def Let_def)

lemma count_update: "i < length xs \<Longrightarrow> length (filter P (xs[i := y])) + (if P (xs ! i) then 1 else 0) = length (filter P xs) + (if P y then 1 else 0)"
proof -
  assume i: "i < length xs"
  have "length (filter P xs) = length (filter P (take i xs @ xs ! i # drop (Suc i) xs))" using id_take_nth_drop [OF i] by simp
  then show ?thesis by (simp add: upd_conv_take_nth_drop [OF i])
qed

lemma rebook_sources [simp]: "from_source (rebook t i lm) src = from_source lm src"
proof (cases "i < length (lm_slots lm)")
  case True
  have "lm_slots (rebook t i lm) = (lm_slots lm)[i := (lm_slots lm ! i)\<lparr>sl_tier := t, sl_bookId := lm_nextId lm\<rparr>]"
    by (simp add: rebook_def book_set_def set_slot_def Let_def)
  with count_update [OF True, of "\<lambda>s. \<not> sl_released s \<and> sl_source s = Some src" "(lm_slots lm ! i)\<lparr>sl_tier := t, sl_bookId := lm_nextId lm\<rparr>"]
  show ?thesis by (simp add: from_source_def split: if_splits)
qed (simp add: from_source_def rebook_def book_set_def set_slot_def Let_def list_update_beyond)

lemma rebook_books: "lm_books (rebook t i lm) u = (if u = t then lm_books lm t @ [(lm_nextId lm, i)] else lm_books lm u)"
  by (simp add: rebook_def book_set_def set_slot_def Let_def)

lemma moved_books_ok:
  assumes ok: "books_ok lm" and i: "holds lm i"
  shows "books_ok (rebook t i (unbook i lm))"
proof -
  let ?m = "rebook t i (unbook i lm)"
  have l: "i < length (lm_slots lm)" using i by (simp add: holds_def)
  have b: "lm_books ?m u = filter (\<lambda>e. snd e \<noteq> i) (lm_books lm u) @ (if u = t then [(lm_nextId lm, i)] else [])" for u
    by (simp add: rebook_books unbooked [OF ok i])
  have sl: "lm_slots ?m ! j = (if j = i then (lm_slots lm ! i)\<lparr>sl_tier := t, sl_bookId := lm_nextId lm\<rparr> else lm_slots lm ! j)" for j
    using rebook_slots [of i "unbook i lm" t j] l by simp
  have below: "fst e < lm_nextId lm" if "e \<in> set (lm_books lm u)" for e u
    using that in_book [OF ok, of "fst e" "snd e" u] books_below [OF ok, of "snd e"] by simp
  have "sorted_wrt (<) (map fst (filter (\<lambda>e. snd e \<noteq> i) (lm_books lm u)))" for u
    using books_sorted [OF ok, of u] unfolding sorted_wrt_map by (rule sorted_wrt_filter)
  then have "sorted_wrt (<) (map fst (lm_books ?m u))" for u using below by (auto simp: b sorted_wrt_append)
  moreover have "set (lm_books ?m u) = {(b, j). holds ?m j \<and> sl_tier (lm_slots ?m ! j) = u \<and> sl_bookId (lm_slots ?m ! j) = b}" for u
    using i by (auto simp: b sl books_set [OF ok])
  moreover have "sl_bookId (lm_slots ?m ! j) < lm_nextId ?m" if "holds ?m j" for j using books_below [OF ok, of j] that by (simp add: sl less_Suc_eq)
  ultimately show ?thesis unfolding books_ok_def by blast
qed


lemma released_books_ok:
  assumes ok: "books_ok lm" and i: "holds lm i" and m: "m = set_slot i (\<lambda>s. s\<lparr>sl_released := True\<rparr>) (unbook i lm)"
  shows "books_ok m" "holds m j \<longleftrightarrow> holds lm j \<and> j \<noteq> i" "lm_slots m ! j = (if j = i then (lm_slots lm ! i)\<lparr>sl_released := True\<rparr> else lm_slots lm ! j)"
    "lm_books m t = filter (\<lambda>e. snd e \<noteq> i) (lm_books lm t)"
proof -
  have l: "i < length (lm_slots lm)" using i by (simp add: holds_def)
  show sl: "lm_slots m ! j = (if j = i then (lm_slots lm ! i)\<lparr>sl_released := True\<rparr> else lm_slots lm ! j)" for j using l by (simp add: m set_slot_def)
  show h: "holds m j \<longleftrightarrow> holds lm j \<and> j \<noteq> i" for j using l by (auto simp: holds_def sl) (simp_all add: m set_slot_def)
  show b: "lm_books m t = filter (\<lambda>e. snd e \<noteq> i) (lm_books lm t)" for t using unbooked [OF ok i, of t] by (simp add: m set_slot_def)
  have "sorted_wrt (<) (map fst (lm_books m t))" for t
    using books_sorted [OF ok, of t] unfolding b sorted_wrt_map by (rule sorted_wrt_filter)
  moreover have "set (lm_books m t) = {(b, j). holds m j \<and> sl_tier (lm_slots m ! j) = t \<and> sl_bookId (lm_slots m ! j) = b}" for t
    by (auto simp: b h sl books_set [OF ok])
  moreover have "sl_bookId (lm_slots m ! j) < lm_nextId m" if "holds m j" for j
    using books_below [OF ok, of j] that by (simp add: h sl) (simp add: m set_slot_def)
  ultimately show "books_ok m" unfolding books_ok_def by blast
qed


lemma book_shrinks:
  assumes ok: "books_ok lm" and i: "holds lm i"
  shows "length (filter (\<lambda>e. snd e \<noteq> i) (lm_books lm t)) + (if sl_tier (lm_slots lm ! i) = t then 1 else 0) = length (lm_books lm t)"
proof -
  have d: "distinct (lm_books lm t)" using books_sorted [OF ok, of t] by (simp add: strict_sorted_iff distinct_map)
  have "set (filter (\<lambda>e. snd e = i) (lm_books lm t)) = {e. fst e = sl_bookId (lm_slots lm ! i) \<and> snd e = i \<and> sl_tier (lm_slots lm ! i) = t}"
    using i unfolding set_filter books_set [OF ok] by force
  also have "\<dots> = (if sl_tier (lm_slots lm ! i) = t then {(sl_bookId (lm_slots lm ! i), i)} else {})" by (auto simp: prod_eq_iff)
  finally have "set (filter (\<lambda>e. snd e = i) (lm_books lm t)) = (if sl_tier (lm_slots lm ! i) = t then {(sl_bookId (lm_slots lm ! i), i)} else {})" .
  then have "card (set (filter (\<lambda>e. snd e = i) (lm_books lm t))) = (if sl_tier (lm_slots lm ! i) = t then 1 else 0)" by (simp only: card.empty card_1_singleton_iff split: if_split) auto
  then have "length (filter (\<lambda>e. snd e = i) (lm_books lm t)) = (if sl_tier (lm_slots lm ! i) = t then 1 else 0)"
    by (simp only: distinct_card [OF distinct_filter [OF d]])
  then show ?thesis using sum_length_filter_compl [of "\<lambda>e. snd e = i" "lm_books lm t"] by simp
qed

definition limiter_ok :: "LinkLimiter \<Rightarrow> bool" where
  "limiter_ok lm \<longleftrightarrow> books_ok lm \<and> sources_ok lm \<and> limits_ok lm"

lemma touch_eq: "touch i lm = (if \<not> holds lm i \<and> i < length (lm_slots lm) \<or> sl_released (lm_slots lm ! i) \<or> sl_tier (lm_slots lm ! i) \<noteq> Authed then lm else rebook Authed i (unbook i lm))"
  by (auto simp: touch_def holds_def unbook_def Let_def)

lemma touch_keeps:
  assumes ok: "limiter_ok lm" and i: "i < length (lm_slots lm)"
  shows "limiter_ok (touch i lm)" "length (lm_slots (touch i lm)) = length (lm_slots lm)" "holds (touch i lm) j = holds lm j"
    "sl_tier (lm_slots (touch i lm) ! j) = sl_tier (lm_slots lm ! j)" "length (lm_books (touch i lm) t) = length (lm_books lm t)" "lm_max (touch i lm) = lm_max lm"
    "lm_maxPerSource (touch i lm) = lm_maxPerSource lm" "lm_evicted (touch i lm) = lm_evicted lm"
proof -
  have b: "books_ok lm" using ok by (simp add: limiter_ok_def)
  consider "touch i lm = lm" | "touch i lm = rebook Authed i (unbook i lm)" "holds lm i" "sl_tier (lm_slots lm ! i) = Authed"
    using i by (cases "sl_released (lm_slots lm ! i) \<or> sl_tier (lm_slots lm ! i) \<noteq> Authed") (auto simp: touch_eq holds_def)
  then have "limiter_ok (touch i lm) \<and> length (lm_slots (touch i lm)) = length (lm_slots lm) \<and> holds (touch i lm) j = holds lm j \<and>
    sl_tier (lm_slots (touch i lm) ! j) = sl_tier (lm_slots lm ! j) \<and> length (lm_books (touch i lm) t) = length (lm_books lm t) \<and> lm_max (touch i lm) = lm_max lm \<and>
    lm_maxPerSource (touch i lm) = lm_maxPerSource lm \<and> lm_evicted (touch i lm) = lm_evicted lm"
  proof cases
    case 2
    let ?m = "rebook Authed i (unbook i lm)"
    have len: "length (lm_books ?m u) = length (lm_books lm u)" for u
      using book_shrinks [OF b 2(2), of u] 2(3) by (auto simp: rebook_books unbooked [OF b 2(2)] split: if_splits)
    have "limiter_ok ?m" using ok moved_books_ok [OF b 2(2), of Authed] len by (auto simp: limiter_ok_def sources_ok_def limits_ok_def)
    moreover have "lm_evicted ?m = lm_evicted lm" by (simp add: rebook_def book_set_def set_slot_def unbook_def book_delete_def Let_def)
    ultimately show ?thesis using 2 len i rebook_slots [of i "unbook i lm" Authed j] by simp
  qed (use ok in simp_all)
  then show "limiter_ok (touch i lm)" "length (lm_slots (touch i lm)) = length (lm_slots lm)" "holds (touch i lm) j = holds lm j"
    "sl_tier (lm_slots (touch i lm) ! j) = sl_tier (lm_slots lm ! j)" "length (lm_books (touch i lm) t) = length (lm_books lm t)" "lm_max (touch i lm) = lm_max lm"
    "lm_maxPerSource (touch i lm) = lm_maxPerSource lm" "lm_evicted (touch i lm) = lm_evicted lm" by simp_all
qed

lemma touches_keep:
  "limiter_ok lm \<Longrightarrow> \<forall>j \<in> set is. j < length (lm_slots lm) \<Longrightarrow> limiter_ok (fold touch is lm) \<and> length (lm_slots (fold touch is lm)) = length (lm_slots lm) \<and>
   (\<forall>j. holds (fold touch is lm) j = holds lm j \<and> sl_tier (lm_slots (fold touch is lm) ! j) = sl_tier (lm_slots lm ! j)) \<and>
   (\<forall>t. length (lm_books (fold touch is lm) t) = length (lm_books lm t)) \<and> lm_max (fold touch is lm) = lm_max lm \<and>
   lm_maxPerSource (fold touch is lm) = lm_maxPerSource lm \<and> lm_evicted (fold touch is lm) = lm_evicted lm"
proof (induction "is" arbitrary: lm)
  case (Cons i "is")
  have i: "i < length (lm_slots lm)" using Cons.prems(2) by simp
  note k = touch_keeps [OF Cons.prems(1) i]
  have "\<forall>j \<in> set is. j < length (lm_slots (touch i lm))" using Cons.prems(2) k(2) by simp
  from Cons.IH [OF k(1) this] show ?case using k by simp
qed simp

lemma release_keeps:
  assumes ok: "limiter_ok lm" and i: "i < length (lm_slots lm)"
  shows "limiter_ok (release i lm)" "length (lm_slots (release i lm)) = length (lm_slots lm)" "holds (release i lm) j \<longleftrightarrow> holds lm j \<and> j \<noteq> i"
    "sl_tier (lm_slots (release i lm) ! j) = sl_tier (lm_slots lm ! j)" "holds lm i \<Longrightarrow> lm_books (release i lm) t = filter (\<lambda>e. snd e \<noteq> i) (lm_books lm t)"
    "lm_max (release i lm) = lm_max lm" "lm_maxPerSource (release i lm) = lm_maxPerSource lm" "lm_evicted (release i lm) = lm_evicted lm"
proof -
  have b: "books_ok lm" using ok by (simp add: limiter_ok_def)
  have "limiter_ok (release i lm) \<and> length (lm_slots (release i lm)) = length (lm_slots lm) \<and> (holds (release i lm) j \<longleftrightarrow> holds lm j \<and> j \<noteq> i) \<and>
    sl_tier (lm_slots (release i lm) ! j) = sl_tier (lm_slots lm ! j) \<and> (holds lm i \<longrightarrow> lm_books (release i lm) t = filter (\<lambda>e. snd e \<noteq> i) (lm_books lm t)) \<and>
    lm_max (release i lm) = lm_max lm \<and> lm_maxPerSource (release i lm) = lm_maxPerSource lm \<and> lm_evicted (release i lm) = lm_evicted lm"
  proof (cases "sl_released (lm_slots lm ! i)")
    case True
    with ok show ?thesis by (auto simp: release_def holds_def)
  next
    case False
    then have h: "holds lm i" using i by (simp add: holds_def)
    define m where "m = set_slot i (\<lambda>s. s\<lparr>sl_released := True\<rparr>) (unbook i lm)"
    note r = released_books_ok [OF b h m_def]
    let ?src = "sl_source (lm_slots lm ! i)"
    have slots: "lm_slots m = (lm_slots lm)[i := (lm_slots lm ! i)\<lparr>sl_released := True\<rparr>]" by (simp add: m_def set_slot_def)
    have cnt: "from_source m s + (if ?src = Some s then 1 else 0) = from_source lm s" for s
      using count_update [OF i, of "\<lambda>x. \<not> sl_released x \<and> sl_source x = Some s" "(lm_slots lm ! i)\<lparr>sl_released := True\<rparr>"] False by (simp add: from_source_def slots)
    have rest: "lm_perSource m = lm_perSource lm" "lm_max m = lm_max lm" "lm_maxPerSource m = lm_maxPerSource lm" "lm_evicted m = lm_evicted lm"
      by (simp_all add: m_def set_slot_def) (simp add: unbook_def book_delete_def)
    define m' where "m' = release i lm"
    have m': "lm_slots m' = lm_slots m" "lm_books m' = lm_books m" "lm_nextId m' = lm_nextId m" "lm_max m' = lm_max m" "lm_maxPerSource m' = lm_maxPerSource m"
        "lm_evicted m' = lm_evicted m"
      using False r(3) [of i] by (simp_all add: m'_def release_def m_def [symmetric] Let_def split: option.split)
    have same: "holds m' = holds m" "from_source m' = from_source m" by (simp_all add: holds_def from_source_def m' fun_eq_iff)
    have "books_ok m'" using r(1) by (simp add: books_ok_def m' same)
    moreover have "lm_perSource m' s = (if from_source m' s = 0 then None else Some (from_source m' s))" for s
    proof -
      have p: "lm_perSource lm s = (if from_source lm s = 0 then None else Some (from_source lm s))" for s using ok by (simp add: limiter_ok_def sources_ok_def)
      have src: "sl_source (lm_slots m ! i) = ?src" using r(3) [of i] by simp
      show ?thesis
      proof (cases ?src)
        case None
        then show ?thesis using False p cnt [of s] src by (simp add: m'_def [symmetric] same) (simp add: m'_def release_def m_def [symmetric] Let_def rest)
      next
        case (Some x)
        have "from_source lm x \<noteq> 0" using cnt [of x] Some by simp
        then have "lm_perSource m' = (lm_perSource m)(x := if from_source lm x \<le> 1 then None else Some (from_source lm x - 1))"
          using False Some src p [of x] by (simp add: m'_def release_def m_def [symmetric] Let_def rest)
        then show ?thesis using p [of s] cnt [of s] Some by (auto simp: same rest)
      qed
    qed
    moreover have "limits_ok m'"
    proof -
      have "length (lm_books m' u) \<le> length (lm_books lm u)" for u by (simp add: m' r(4))
      moreover have "from_source m' s \<le> from_source lm s" for s using cnt [of s] by (simp add: same)
      ultimately show ?thesis using ok unfolding limiter_ok_def limits_ok_def m' rest
        by (metis le_zero_eq of_nat_mono order_le_less_trans)
    qed
    ultimately have "limiter_ok m'" by (simp add: limiter_ok_def sources_ok_def)
    then show ?thesis using r m' rest i by (simp add: m'_def [symmetric] same slots nth_list_update)
  qed
  then show "limiter_ok (release i lm)" "length (lm_slots (release i lm)) = length (lm_slots lm)" "holds (release i lm) j \<longleftrightarrow> holds lm j \<and> j \<noteq> i"
    "sl_tier (lm_slots (release i lm) ! j) = sl_tier (lm_slots lm ! j)" "holds lm i \<Longrightarrow> lm_books (release i lm) t = filter (\<lambda>e. snd e \<noteq> i) (lm_books lm t)"
    "lm_max (release i lm) = lm_max lm" "lm_maxPerSource (release i lm) = lm_maxPerSource lm" "lm_evicted (release i lm) = lm_evicted lm" by simp_all
qed


lemma evicted_update [simp]: "limiter_ok (lm\<lparr>lm_evicted := e\<rparr>) = limiter_ok lm" "holds (lm\<lparr>lm_evicted := e\<rparr>) = holds lm"
  by (simp_all add: limiter_ok_def books_ok_def sources_ok_def limits_ok_def from_source_def holds_def fun_eq_iff)

lemma limits_book: "limiter_ok lm \<Longrightarrow> lm_books lm t \<noteq> [] \<Longrightarrow> of_nat (length (lm_books lm t)) < lm_max lm t + 1"
  unfolding limiter_ok_def limits_ok_def by (metis length_0_conv)

lemma limits_source: "limiter_ok lm \<Longrightarrow> from_source lm src \<noteq> 0 \<Longrightarrow> of_nat (from_source lm src) < lm_maxPerSource lm + 1"
  unfolding limiter_ok_def limits_ok_def by metis

text \<open>Room is made by dropping the stalest slot of the tier, and is refused only by a tier without a budget.\<close>

lemma makeRoom_keeps:
  assumes ok: "limiter_ok lm" and ev: "\<forall>v. \<forall>j \<in> set (ev v). j < length (lm_slots lm)" and m: "makeRoom ev t lm = (r, m)"
  shows "limiter_ok m \<and> length (lm_slots m) = length (lm_slots lm) \<and> lm_max m = lm_max lm \<and> lm_maxPerSource m = lm_maxPerSource lm \<and>
    (\<forall>j. sl_tier (lm_slots m ! j) = sl_tier (lm_slots lm ! j)) \<and>
    (r \<longrightarrow> of_nat (length (lm_books m t)) < lm_max lm t) \<and>
    (if of_nat (length (lm_books lm t)) < lm_max lm t then r \<and> m = lm
     else if lm_max lm t \<le> 0 \<and> lm_books lm t = [] then \<not> r \<and> m = lm
     else r \<and> (\<exists>v. holds lm v \<and> sl_tier (lm_slots lm ! v) = t \<and> lm_evicted m = lm_evicted lm @ [v] \<and> (\<forall>j. holds m j \<longleftrightarrow> holds lm j \<and> j \<noteq> v) \<and>
       (\<forall>j. holds lm j \<and> sl_tier (lm_slots lm ! j) = t \<longrightarrow> sl_bookId (lm_slots lm ! v) \<le> sl_bookId (lm_slots lm ! j))))"
proof (cases "of_nat (length (lm_books lm t)) < lm_max lm t")
  case True
  with m ok show ?thesis by (auto simp: makeRoom_def)
next
  case full: False
  have b: "books_ok lm" using ok by (simp add: limiter_ok_def)
  show ?thesis
  proof (cases "lm_books lm t")
    case Nil
    with m ok full show ?thesis by (auto simp: makeRoom_def not_less)
  next
    case (Cons e rest)
    obtain k v where e: "e = (k, v)" by (cases e)
    have in': "(k, v) \<in> set (lm_books lm t)" using Cons e by simp
    note v = in_book [OF b in']
    have lv: "v < length (lm_slots lm)" using v by (simp add: holds_def)
    define u where "u = (release v lm)\<lparr>lm_evicted := lm_evicted lm @ [v]\<rparr>"
    note rel = release_keeps [OF ok lv]
    have mu: "r" "m = fold touch (ev v) u" using m full Cons e rel(8) by (auto simp: makeRoom_def u_def Let_def)
    have u: "limiter_ok u" "length (lm_slots u) = length (lm_slots lm)" "holds u j \<longleftrightarrow> holds lm j \<and> j \<noteq> v" "sl_tier (lm_slots u ! j) = sl_tier (lm_slots lm ! j)"
        "lm_books u t = filter (\<lambda>e. snd e \<noteq> v) (lm_books lm t)" "lm_max u = lm_max lm" "lm_maxPerSource u = lm_maxPerSource lm" "lm_evicted u = lm_evicted lm @ [v]" for j
      using rel v by (simp_all add: u_def)
    have "\<forall>j \<in> set (ev v). j < length (lm_slots u)" using ev u(2) by auto
    note k = touches_keep [OF u(1) this]
    have "length (lm_books u t) + 1 = length (lm_books lm t)" using book_shrinks [OF b, of v t] v by (simp add: u(5))
    moreover have "lm_books lm t \<noteq> []" "of_nat (length (lm_books lm t)) < lm_max lm t + 1" using limits_book [OF ok, of t] Cons by simp_all
    ultimately have room: "of_nat (length (lm_books m t)) < lm_max lm t" using k by (simp add: mu)
    have "sl_bookId (lm_slots lm ! v) \<le> sl_bookId (lm_slots lm ! j)" if "holds lm j" "sl_tier (lm_slots lm ! j) = t" for j
    proof -
      have "(sl_bookId (lm_slots lm ! j), j) \<in> set (lm_books lm t)" using booked [OF b that(1)] that(2) by simp
      then have "sl_bookId (lm_slots lm ! j) \<in> set (map fst (lm_books lm t))" by force
      then show ?thesis using books_sorted [OF b, of t] v Cons e by auto
    qed
    then show ?thesis using full Cons mu k room u v by auto
  qed
qed

lemma move_keeps:
  assumes ok: "limiter_ok lm" and ev: "\<forall>v. \<forall>j \<in> set (ev v). j < length (lm_slots lm)" and i: "i < length (lm_slots lm)" and m: "move ev i t lm = (r, m)"
  shows "limiter_ok m \<and> length (lm_slots m) = length (lm_slots lm) \<and> lm_max m = lm_max lm \<and> lm_maxPerSource m = lm_maxPerSource lm"
proof (cases "sl_released (lm_slots lm ! i) \<or> sl_tier (lm_slots lm ! i) = t")
  case True
  with m ok show ?thesis by (auto simp: move_def)
next
  case False
  obtain r' u where u: "makeRoom ev t lm = (r', u)" by fastforce
  note k = makeRoom_keeps [OF ok ev u]
  show ?thesis
  proof (cases r')
    case True
    have m': "m = rebook t i (unbook i u)" using m False u True by (simp add: move_def)
    have b: "books_ok u" using k by (simp add: limiter_ok_def)
    have "holds lm i" using False i by (simp add: holds_def)
    then have h: "holds u i" using k False True by (auto split: if_splits)
    have t: "sl_tier (lm_slots u ! i) \<noteq> t" using k False by simp
    have len: "length (lm_books m s) = (if s = t then Suc (length (lm_books u t)) else if s = sl_tier (lm_slots u ! i) then length (lm_books u s) - 1 else length (lm_books u s))" for s
      using book_shrinks [OF b h, of s] t by (auto simp: m' rebook_books unbooked [OF b h] split: if_splits)
    have "limits_ok m"
    proof -
      have lt: "of_nat (length (lm_books u t)) < lm_max u t" using k True by simp
      have lu: "length (lm_books u s) = 0 \<or> of_nat (length (lm_books u s)) < lm_max u s + 1" for s using k limits_book [of u s] by auto
      have "of_nat (length (lm_books u s) - 1) < lm_max u s + 1" if "length (lm_books u s) \<noteq> 0" for s
        using lu [of s] that by (metis diff_le_self of_nat_mono order_le_less_trans)
      then have "length (lm_books m s) = 0 \<or> of_nat (length (lm_books m s)) < lm_max m s + 1" for s
        using lt lu [of s] by (auto simp: len) (auto simp: m')
      moreover have "from_source m src = 0 \<or> of_nat (from_source m src) < lm_maxPerSource m + 1" for src
        using k limits_source [of u src] by (auto simp: m')
      ultimately show ?thesis unfolding limits_ok_def by blast
    qed
    then show ?thesis using k moved_books_ok [OF b h, of t] by (simp add: limiter_ok_def sources_ok_def) (simp add: m')
  next
    case r: False
    then have "m = u" using m u False by (simp add: move_def)
    with k show ?thesis by simp
  qed
qed


lemma touch_sources [simp]: "from_source (touch i lm) src = from_source lm src"
  by (simp add: touch_eq)

lemma touches_sources [simp]: "from_source (fold touch is lm) src = from_source lm src"
  by (induction "is" arbitrary: lm) simp_all

lemma release_sources: "from_source (release i lm) src \<le> from_source lm src"
proof (cases "i < length (lm_slots lm)")
  case True
  have "lm_slots (release i lm) = (if sl_released (lm_slots lm ! i) then lm_slots lm else (lm_slots lm)[i := (lm_slots lm ! i)\<lparr>sl_released := True\<rparr>])"
    by (simp add: release_def set_slot_def Let_def split: option.split)
  with count_update [OF True, of "\<lambda>s. \<not> sl_released s \<and> sl_source s = Some src" "(lm_slots lm ! i)\<lparr>sl_released := True\<rparr>"] show ?thesis by (simp add: from_source_def)
next
  case False
  have "lm_slots (release i lm) = lm_slots lm" using False by (simp add: release_def set_slot_def Let_def list_update_beyond split: option.split)
  then show ?thesis by (simp add: from_source_def)
qed

lemma makeRoom_sources: "from_source (snd (makeRoom ev t lm)) src \<le> from_source lm src"
proof -
  have "from_source (x\<lparr>lm_evicted := y\<rparr>) = from_source x" for x y by (simp add: from_source_def fun_eq_iff)
  then show ?thesis using release_sources by (simp add: makeRoom_def Let_def split: list.split)
qed

lemma acquire_keeps:
  assumes ok: "limiter_ok lm" and ev: "\<forall>v. \<forall>j \<in> set (ev v). j < length (lm_slots lm)" and m: "acquire ev source lm = (r, m)"
    and pos: "\<forall>t. 0 \<le> lm_max lm t"
  shows "limiter_ok m \<and> lm_max m = lm_max lm \<and> lm_maxPerSource m = lm_maxPerSource lm \<and>
    (r = None \<longleftrightarrow> (\<exists>src. source = Some src \<and> of_nat (from_source lm src) \<ge> lm_maxPerSource lm) \<or> lm_max lm Unverified = 0)"
proof -
  have cnt: "(case lm_perSource x src of None \<Rightarrow> 0 | Some n \<Rightarrow> n) = from_source x src" if "limiter_ok x" for x src
    using that by (auto simp: limiter_ok_def sources_ok_def)
  show ?thesis
  proof (cases "\<exists>src. source = Some src \<and> of_nat (from_source lm src) \<ge> lm_maxPerSource lm")
    case True
    then have "r = None \<and> m = lm" using m cnt [OF ok] by (auto simp: acquire_def)
    with True ok show ?thesis by simp
  next
    case False
    obtain r' u where u: "makeRoom ev Unverified lm = (r', u)" by fastforce
    note k = makeRoom_keeps [OF ok ev u]
    show ?thesis
    proof (cases r')
      case r: False
      then have "r = None \<and> m = u" using m u False cnt [OF ok] by (auto simp: acquire_def Let_def split: option.splits if_splits)
      with k r pos [rule_format, of Unverified] False show ?thesis by (auto split: if_splits)
    next
      case True
      let ?n = "length (lm_slots u)" and ?b = "lm_nextId u"
      let ?new = "\<lparr>sl_source = source, sl_tier = Unverified, sl_released = False, sl_bookId = ?b\<rparr>"
      have uok: "limiter_ok u" and b: "books_ok u" using k by (auto simp: limiter_ok_def)
      have rm: "r = Some ?n" and slots: "lm_slots m = lm_slots u @ [?new]" and books: "lm_books m t = lm_books u t @ (if t = Unverified then [(?b, ?n)] else [])"
          and next_id: "lm_nextId m = Suc ?b" and mx: "lm_max m = lm_max u" "lm_maxPerSource m = lm_maxPerSource u"
          and per: "lm_perSource m src = (if source = Some src then Some (from_source u src + 1) else lm_perSource u src)" for t src
        using m u False True cnt [OF ok] cnt [OF uok] by (auto simp: acquire_def book_set_def Let_def split: option.splits)
      have h: "holds m j \<longleftrightarrow> holds u j \<or> j = ?n" for j by (auto simp: holds_def slots nth_append less_Suc_eq)
      have sl: "lm_slots m ! j = (if holds u j then lm_slots u ! j else ?new)" if "holds m j" for j using that by (auto simp: h holds_def slots nth_append)
      have fresh: "\<not> holds u ?n" by (simp add: holds_def)
      have src: "from_source m s = from_source u s + (if source = Some s then 1 else 0)" for s by (simp add: from_source_def slots)
      have "sorted_wrt (<) (map fst (lm_books m t))" for t
      proof -
        have "fst e < ?b" if "e \<in> set (lm_books u t)" for e using that in_book [OF b, of "fst e" "snd e" t] books_below [OF b, of "snd e"] by simp
        then show ?thesis using books_sorted [OF b, of t] by (auto simp: books sorted_wrt_append)
      qed
      moreover have "set (lm_books m t) = {(b, j). holds m j \<and> sl_tier (lm_slots m ! j) = t \<and> sl_bookId (lm_slots m ! j) = b}" for t
        using fresh by (auto simp: books h sl books_set [OF b])
      moreover have "sl_bookId (lm_slots m ! j) < lm_nextId m" if "holds m j" for j using books_below [OF b, of j] by (auto simp: sl [OF that] next_id)
      ultimately have "books_ok m" unfolding books_ok_def by blast
      moreover have "sources_ok m" using uok by (auto simp: limiter_ok_def sources_ok_def per src)
      moreover have "limits_ok m"
      proof -
        have "from_source u s \<le> from_source lm s" for s using makeRoom_sources [of ev Unverified lm s] u by simp
        then have "of_nat (from_source m s) < lm_maxPerSource m + 1" if "source = Some s" for s
          using False that k mx(2) by (simp add: src) (meson leD le_less_trans not_le of_nat_mono)
        moreover have "from_source m s = 0 \<or> of_nat (from_source m s) < lm_maxPerSource m + 1" if "source \<noteq> Some s" for s
          using uok that by (auto simp: src mx limiter_ok_def limits_ok_def)
        moreover have "length (lm_books m t) = 0 \<or> of_nat (length (lm_books m t)) < lm_max m t + 1" for t
          using uok k True by (auto simp: books mx limiter_ok_def limits_ok_def)
        ultimately show ?thesis unfolding limits_ok_def by blast
      qed
      ultimately have "limiter_ok m" by (simp add: limiter_ok_def)
      moreover have "lm_max lm Unverified \<noteq> 0" using k True by (auto split: if_splits)
      ultimately show ?thesis using k rm mx False by simp
    qed
  qed
qed


section \<open>The properties\<close>

lemma run_ok:
  assumes "limiter_run mu ms mv ma lm" "0 \<le> mu" "0 \<le> mv" "0 \<le> ma"
  shows "limiter_ok lm \<and> lm_max lm = (\<lambda>t. case t of Unverified \<Rightarrow> mu | Verified \<Rightarrow> mv | Authed \<Rightarrow> ma) \<and> lm_maxPerSource lm = ms"
  using assms
proof (induction rule: limiter_run.induct)
  case run_new
  then show ?case by (simp add: new_LinkLimiter_def limiter_ok_def books_ok_def sources_ok_def limits_ok_def holds_def from_source_def)
next
  case (run_acquire lm ev source)
  have "\<forall>t. 0 \<le> lm_max lm t" using run_acquire by (auto split: tier.split)
  with run_acquire acquire_keeps [of lm ev source "fst (acquire ev source lm)" "snd (acquire ev source lm)"] show ?case by simp
next
  case (run_promote lm ev i)
  then show ?case using move_keeps [of lm ev i Verified "fst (promote ev i lm)" "snd (promote ev i lm)"] by (simp add: promote_def)
next
  case (run_hold lm ev i)
  then show ?case using move_keeps [of lm ev i Authed "fst (hold ev i lm)" "snd (hold ev i lm)"] by (simp add: hold_def)
next
  case (run_touch lm i)
  then show ?case using touch_keeps [of lm i] by simp
next
  case (run_release lm i)
  then show ?case using release_keeps [of lm i] by simp
qed

lemma small_limiter:
  "limiter_run 1 1 1 1 (snd (acquire (\<lambda>_. []) (Some []) (new_LinkLimiter 1 1 1 1)))"
  "snd (acquire (\<lambda>_. []) (Some []) (new_LinkLimiter 1 1 1 1)) = \<lparr>lm_maxPerSource = 1, lm_max = (\<lambda>t. case t of Unverified \<Rightarrow> 1 | Verified \<Rightarrow> 1 | Authed \<Rightarrow> 1),
     lm_books = (\<lambda>_. [])(Unverified := [(0, 0)]), lm_nextId = 1, lm_perSource = [[] \<mapsto> 1],
     lm_slots = [\<lparr>sl_source = Some [], sl_tier = Unverified, sl_released = False, sl_bookId = 0\<rparr>], lm_evicted = []\<rparr>"
  by (rule run_acquire [OF run_new]) (simp_all add: acquire_def makeRoom_def new_LinkLimiter_def book_set_def)

text \<open>C23: The limiter's bounds hold and its books are exact. In every run, each tier holds no more slots than its budget (rounded up), no
  source holds more than its cap over all tiers, a tier's book lists exactly its unreleased slots, and the count kept for a
  source is the number of its unreleased slots, with no entry left at zero.\<close>

theorem limiter_bounded:
  assumes "limiter_run mu ms mv ma lm" "0 \<le> mu" "0 \<le> ms" "0 \<le> mv" "0 \<le> ma"
  shows "of_nat (length (lm_books lm Unverified)) < mu + 1 \<and> of_nat (length (lm_books lm Verified)) < mv + 1 \<and> of_nat (length (lm_books lm Authed)) < ma + 1 \<and>
    (\<forall>src. of_nat (from_source lm src) < ms + 1) \<and>
    (\<forall>t. snd ` set (lm_books lm t) = {i. i < length (lm_slots lm) \<and> \<not> sl_released (lm_slots lm ! i) \<and> sl_tier (lm_slots lm ! i) = t} \<and> distinct (map snd (lm_books lm t))) \<and>
    (\<forall>src. lm_perSource lm src = (if from_source lm src = 0 then None else Some (from_source lm src)))"
proof -
  have r: "limiter_ok lm" "lm_max lm = (\<lambda>t. case t of Unverified \<Rightarrow> mu | Verified \<Rightarrow> mv | Authed \<Rightarrow> ma)" "lm_maxPerSource lm = ms" using run_ok [OF assms(1,2,4,5)] by simp_all
  have b: "books_ok lm" using r(1) by (simp add: limiter_ok_def)
  have "of_nat (length (lm_books lm t)) < lm_max lm t + 1" for t
    using limits_book [OF r(1), of t] assms(2-5) by (cases "lm_books lm t = []") (auto simp: r(2) split: tier.split)
  from this [of Unverified] this [of Verified] this [of Authed]
  have "of_nat (length (lm_books lm Unverified)) < mu + 1" "of_nat (length (lm_books lm Verified)) < mv + 1" "of_nat (length (lm_books lm Authed)) < ma + 1" by (simp_all add: r(2))
  moreover have "of_nat (from_source lm src) < ms + 1" for src using limits_source [OF r(1), of src] r(3) assms(3) by (cases "from_source lm src = 0") auto
  moreover have "snd ` set (lm_books lm t) = {i. i < length (lm_slots lm) \<and> \<not> sl_released (lm_slots lm ! i) \<and> sl_tier (lm_slots lm ! i) = t}" for t
    unfolding books_set [OF b] holds_def by force
  moreover have "distinct (map snd (lm_books lm t))" for t
  proof -
    have "distinct (lm_books lm t)" using books_sorted [OF b, of t] by (simp add: strict_sorted_iff distinct_map)
    moreover have "inj_on snd (set (lm_books lm t))" unfolding inj_on_def by (metis in_book [OF b] prod.collapse)
    ultimately show ?thesis by (simp add: distinct_map)
  qed
  ultimately show ?thesis using r(1) unfolding limiter_ok_def sources_ok_def by blast
qed

theorem limiter_bounded_witness:
  "length (lm_books (snd (acquire (\<lambda>_. []) (Some []) (new_LinkLimiter 1 1 1 1))) Unverified) = 1 \<and>
   of_nat (from_source (snd (acquire (\<lambda>_. []) (Some []) (new_LinkLimiter 1 1 1 1))) []) < (2 :: rat)"
  using limiter_bounded [OF small_limiter(1)] small_limiter(2) by auto

text \<open>A full tier sheds its stalest link and nobody else. In every run, asking for a slot is refused exactly for a source at its cap or a
  tier with no budget; moving a held slot up is refused exactly for a tier with no budget; and making room takes away one slot at
  most, of that tier, whose place in the book (the time it entered the tier, or last carried traffic once authenticated) is the oldest.\<close>

theorem limiter_sheds_stalest:
  assumes "limiter_run mu ms mv ma lm" "0 \<le> mu" "0 \<le> mv" "0 \<le> ma" "\<forall>v. \<forall>j \<in> set (ev v). j < length (lm_slots lm)"
  shows "(fst (acquire ev source lm) = None \<longleftrightarrow> (\<exists>src. source = Some src \<and> of_nat (from_source lm src) \<ge> ms) \<or> mu = 0) \<and>
    (\<forall>t. (fst (makeRoom ev t lm) \<longleftrightarrow> lm_max lm t \<noteq> 0) \<and>
      (if of_nat (length (lm_books lm t)) < lm_max lm t \<or> lm_max lm t = 0 then snd (makeRoom ev t lm) = lm
       else \<exists>v. holds lm v \<and> sl_tier (lm_slots lm ! v) = t \<and> (\<forall>j. holds (snd (makeRoom ev t lm)) j \<longleftrightarrow> holds lm j \<and> j \<noteq> v) \<and>
         lm_evicted (snd (makeRoom ev t lm)) = lm_evicted lm @ [v] \<and>
         (\<forall>j. holds lm j \<and> sl_tier (lm_slots lm ! j) = t \<longrightarrow> sl_bookId (lm_slots lm ! v) \<le> sl_bookId (lm_slots lm ! j)))) \<and>
    (\<forall>i t. holds lm i \<and> sl_tier (lm_slots lm ! i) \<noteq> t \<longrightarrow> (fst (move ev i t lm) \<longleftrightarrow> lm_max lm t \<noteq> 0))"
proof -
  have r: "limiter_ok lm" "lm_max lm = (\<lambda>t. case t of Unverified \<Rightarrow> mu | Verified \<Rightarrow> mv | Authed \<Rightarrow> ma)" "lm_maxPerSource lm = ms" using run_ok [OF assms(1-4)] by simp_all
  have pos: "\<forall>t. 0 \<le> lm_max lm t" using assms(2-4) by (auto simp: r(2) split: tier.split)
  have "(fst (acquire ev source lm) = None \<longleftrightarrow> (\<exists>src. source = Some src \<and> of_nat (from_source lm src) \<ge> ms) \<or> mu = 0)"
    using acquire_keeps [OF r(1) assms(5) prod.collapse [symmetric] pos, of source] by (simp add: r(2,3))
  moreover have room: "(fst (makeRoom ev t lm) \<longleftrightarrow> lm_max lm t \<noteq> 0) \<and>
      (if of_nat (length (lm_books lm t)) < lm_max lm t \<or> lm_max lm t = 0 then snd (makeRoom ev t lm) = lm
       else \<exists>v. holds lm v \<and> sl_tier (lm_slots lm ! v) = t \<and> (\<forall>j. holds (snd (makeRoom ev t lm)) j \<longleftrightarrow> holds lm j \<and> j \<noteq> v) \<and>
         lm_evicted (snd (makeRoom ev t lm)) = lm_evicted lm @ [v] \<and>
         (\<forall>j. holds lm j \<and> sl_tier (lm_slots lm ! j) = t \<longrightarrow> sl_bookId (lm_slots lm ! v) \<le> sl_bookId (lm_slots lm ! j)))" for t
  proof -
    have e: "lm_books lm t = []" if "lm_max lm t = 0" using limits_book [OF r(1), of t] that by (cases "lm_books lm t") auto
    have "0 \<le> lm_max lm t" using pos by blast
    then show ?thesis using makeRoom_keeps [OF r(1) assms(5) prod.collapse [symmetric], of t] e by (auto split: if_splits)
  qed
  moreover have "fst (move ev i t lm) = fst (makeRoom ev t lm)" if "holds lm i" "sl_tier (lm_slots lm ! i) \<noteq> t" for i t
    using that by (cases "makeRoom ev t lm"; cases "fst (makeRoom ev t lm)") (auto simp: move_def holds_def)
  ultimately show ?thesis by simp
qed


theorem limiter_sheds_stalest_witness:
  "lm_evicted (snd (makeRoom (\<lambda>_. []) Unverified (snd (acquire (\<lambda>_. []) (Some []) (new_LinkLimiter 1 1 1 1))))) = [0] \<and>
   fst (acquire (\<lambda>_. []) (Some []) (snd (acquire (\<lambda>_. []) (Some []) (new_LinkLimiter 1 1 1 1)))) = None"
proof -
  let ?lm = "snd (acquire (\<lambda>_. []) (Some []) (new_LinkLimiter 1 1 1 1))"
  have ev: "\<forall>v. \<forall>j \<in> set ((\<lambda>_. []) v). j < length (lm_slots ?lm)" by simp
  note x = limiter_sheds_stalest [OF small_limiter(1) zero_le_one zero_le_one zero_le_one ev]
  have only: "v = 0" if "holds ?lm v" for v using that by (simp add: small_limiter(2) holds_def)
  have "length (lm_books ?lm Unverified) = 1" "lm_max ?lm Unverified = 1" "lm_evicted ?lm = []" "from_source ?lm [] = 1" by (simp_all add: small_limiter(2) from_source_def)
  then show ?thesis using x [of "Some []", THEN conjunct1] x [THEN conjunct2, THEN conjunct1, rule_format, of Unverified] only by auto
qed

end
