(* ===== verification/Router.thy ===== *)
theory Router
  imports Ake
begin

text \<open>
  \<^verbatim>\<open>WASM/transport/src/router.js\<close> and class \<open>Core\<close> of \<^verbatim>\<open>WASM/transport/src/core.js\<close>: which links lead to a peer, and the requests and
  answers carried over them. A link is its number; of its own state (theory \<open>Ake\<close>) the routing reads whether it is closed and
  authenticated, its peer and its queue; a deferred answer is the number it was made with (\<open>nt_defers\<close> counts them). Closing a link calls \<open>forget\<close> before anything else goes on, so every operation that
  may end one takes \<open>fg\<close>, what \<open>forget\<close> does. \<open>over\<close> says which writes end their link, which depends on its queue and epochs.
  What waits for a later turn is in \<open>nt_tasks\<close> and \<open>nt_deliveries\<close>; what leaves is appended to \<open>nt_out\<close>.
\<close>

section \<open>State\<close>

record NetConf =
  nc_ownId :: jstr
  nc_ownPk :: bytes
  nc_maxFrameBytes :: nat
  nc_maxPreAuthQueueSlices :: nat
  nc_requestTimeoutMs :: rat
  nc_maxOutstandingHostCallBytes :: rat
  nc_maxOutstandingHostCalls :: rat

definition callWeight :: "NetConf \<Rightarrow> rat" where
  "callWeight nc = nc_maxOutstandingHostCallBytes nc / nc_maxOutstandingHostCalls nc"

definition maxRequestWeight :: "NetConf \<Rightarrow> rat" where
  "maxRequestWeight nc = of_nat (nc_maxFrameBytes nc) + of_nat PK_LEN + callWeight nc"

definition deliveryWindow :: "NetConf \<Rightarrow> rat" where
  "deliveryWindow nc = nc_maxOutstandingHostCallBytes nc - 2 * maxRequestWeight nc"

definition KIND_REQ :: byte where "KIND_REQ = 0"
definition KIND_RES :: byte where "KIND_RES = 1"
definition KIND_CTL :: byte where "KIND_CTL = 2"
definition FLAG_NO_REPLY :: byte where "FLAG_NO_REPLY = 128"
definition CTL_RETIRE :: byte where "CTL_RETIRE = 0"
definition REQ_HEAD_LEN :: nat where "REQ_HEAD_LEN = 1 + 4 + 1"
definition REQ_PROTO_LEN_AT :: nat where "REQ_PROTO_LEN_AT = REQ_HEAD_LEN - 1"
definition RES_HEAD_LEN :: nat where "RES_HEAD_LEN = 1 + 4"

record Peerlink =
  rl_weDialed :: bool
  rl_relayed :: bool
  rl_relay :: jstr
  rl_dialedPeerId :: jstr
  rl_peerId :: jstr
  rl_peerPubkey :: bytes
  rl_authed :: bool
  rl_closed :: bool
  rl_queue :: "bytes list"

record Pool =
  pl_links :: "nat list"
  pl_direct :: nat
  pl_held :: "nat list"
  pl_next :: nat

text \<open>\<open>pd_d\<close> is the deferred that answers the app; \<open>pd_due\<close> is \<open>None\<close> for never.\<close>

record Pending =
  pd_to :: jstr
  pd_d :: nat
  pd_due :: "rat option"
  pd_relayedBytes :: nat
  pd_held :: "bytes option"

record RelayQ =
  rq_bytes :: int
  rq_waiting :: "nat list"

text \<open>
  What a later turn does: place a frame once its dial is over (the correlation, of a request, is failed where no link takes it),
  and fail a request no link took.
\<close>

datatype task = AfterDial "nat option" jstr bytes | Unplaced nat

text \<open>How a link ends: a goodbye, a failure, or its channel going away.\<close>

datatype ending = ByClose | ByAbort | ByChannel

text \<open>A request on \<open>link/deliver\<close>: from whom, its weight, its correlation, whether it wants no reply, and the link it came on.\<close>

datatype delivery = Delivery jstr rat nat bool nat

datatype rout =
    Sent nat bytes
  | Ended ending nat
  | Resolve nat bytes
  | Deliver bytes bytes bytes
  | Signal jstr "byte option" bytes
  | DialPeer jstr
  | DirectUpgrade jstr
  | DirectDrop jstr
  | CheckReady
  | StatusChanged

record Net =
  nt_opened :: "nat list"
  nt_links :: "nat \<Rightarrow> Peerlink"
  nt_pools :: "jstr \<Rightarrow> Pool option"
  nt_connecting :: "jstr \<Rightarrow> nat list"
  nt_addrs :: "jstr \<Rightarrow> bool"
  nt_pending :: "(nat \<times> Pending) list"
  nt_nextCorr :: nat
  nt_defers :: nat
  nt_delivering :: "(jstr \<times> rat) list"
  nt_deliveringWeight :: rat
  nt_relayed :: "jstr \<Rightarrow> nat option"
  nt_qs :: "RelayQ list"
  nt_tasks :: "task list"
  nt_deliveries :: "delivery list"
  nt_out :: "rout list"

type_synonym forgetter = "nat \<Rightarrow> Net \<Rightarrow> Net"
type_synonym overs = "Net \<Rightarrow> nat \<Rightarrow> bytes \<Rightarrow> ending option"

definition say :: "rout \<Rightarrow> Net \<Rightarrow> Net" where
  "say x s = s\<lparr>nt_out := nt_out s @ [x]\<rparr>"

definition set_link :: "nat \<Rightarrow> (Peerlink \<Rightarrow> Peerlink) \<Rightarrow> Net \<Rightarrow> Net" where
  "set_link l f s = s\<lparr>nt_links := (nt_links s)(l := f (nt_links s l))\<rparr>"

definition set_pool :: "jstr \<Rightarrow> Pool option \<Rightarrow> Net \<Rightarrow> Net" where
  "set_pool p x s = s\<lparr>nt_pools := (nt_pools s)(p := x)\<rparr>"

section \<open>A link as the routing sees it\<close>

text \<open>\<open>Link.end\<close> (for \<open>close\<close> and \<open>abort\<close>) and \<open>Link.onChannelClosed\<close>, told apart by \<open>how\<close>.\<close>

definition link_end :: "forgetter \<Rightarrow> ending \<Rightarrow> nat \<Rightarrow> Net \<Rightarrow> Net" where
  "link_end fg how l s =
     (if rl_closed (nt_links s l) then s else fg l (say (Ended how l) (set_link l (\<lambda>x. x\<lparr>rl_closed := True\<rparr>) s)))"

definition peerlink_send :: "NetConf \<Rightarrow> forgetter \<Rightarrow> overs \<Rightarrow> nat \<Rightarrow> bytes \<Rightarrow> Net \<Rightarrow> Net" where
  "peerlink_send nc fg over l frame s =
     (if rl_closed (nt_links s l) then s
      else if int (length frame) > int (nc_maxFrameBytes nc) - int TAG_LEN \<or> frame = [] then s
      else if rl_authed (nt_links s l)
      then (case over s l frame of Some how \<Rightarrow> link_end fg how l s | None \<Rightarrow> say (Sent l frame) s)
      else let q = rl_queue (nt_links s l) @ [frame]
           in set_link l (\<lambda>x. x\<lparr>rl_queue := snd (drop_oldest (nc_maxPreAuthQueueSlices nc) (int (sum_list (map length q))) q)\<rparr>) s)"

section \<open>The router\<close>

definition linkCount :: "jstr \<Rightarrow> Net \<Rightarrow> nat" where
  "linkCount p s = (case nt_pools s p of None \<Rightarrow> 0 | Some pool \<Rightarrow> length (pl_links pool))"

definition hasDirect :: "jstr \<Rightarrow> Net \<Rightarrow> bool" where
  "hasDirect p s = (case nt_pools s p of None \<Rightarrow> False | Some pool \<Rightarrow> pl_direct pool > 0)"

definition relayedOnly :: "jstr \<Rightarrow> Net \<Rightarrow> bool" where
  "relayedOnly p s = (case nt_pools s p of None \<Rightarrow> False | Some pool \<Rightarrow> pl_direct pool = 0)"

definition relayOf :: "jstr \<Rightarrow> Net \<Rightarrow> jstr" where
  "relayOf p s =
     (case nt_pools s p of
        None \<Rightarrow> []
      | Some pool \<Rightarrow> (case find (\<lambda>l. rl_relay (nt_links s l) \<noteq> []) (pl_links pool) of None \<Rightarrow> [] | Some l \<Rightarrow> rl_relay (nt_links s l)))"

definition ways :: "Pool \<Rightarrow> nat" where
  "ways pool = (if pl_direct pool > 0 then pl_direct pool else length (pl_links pool))"

definition router_send :: "NetConf \<Rightarrow> forgetter \<Rightarrow> overs \<Rightarrow> jstr \<Rightarrow> bytes \<Rightarrow> Net \<Rightarrow> bool \<times> Net" where
  "router_send nc fg over to frame s =
     (case nt_pools s to of
        None \<Rightarrow> (False, s)
      | Some pool \<Rightarrow>
          if pl_links pool = [] then (False, s)
          else let i = pl_next pool mod ways pool; s = set_pool to (Some (pool\<lparr>pl_next := i + 1\<rparr>)) s
               in (True, peerlink_send nc fg over (pl_links pool ! i) frame s))"

fun indexOf :: "nat \<Rightarrow> nat list \<Rightarrow> nat option" where
  "indexOf l [] = None"
| "indexOf l (x # xs) = (if x = l then Some 0 else map_option Suc (indexOf l xs))"

definition sendOn :: "NetConf \<Rightarrow> forgetter \<Rightarrow> overs \<Rightarrow> jstr \<Rightarrow> nat \<Rightarrow> bytes \<Rightarrow> Net \<Rightarrow> bool \<times> Net" where
  "sendOn nc fg over to l frame s =
     (case nt_pools s to of
        Some pool \<Rightarrow>
          (case indexOf l (pl_links pool) of
             Some i \<Rightarrow> if i \<ge> ways pool then router_send nc fg over to frame s else (True, peerlink_send nc fg over l frame s)
           | None \<Rightarrow> router_send nc fg over to frame s)
      | None \<Rightarrow> router_send nc fg over to frame s)"

definition sendInOrder :: "NetConf \<Rightarrow> forgetter \<Rightarrow> overs \<Rightarrow> jstr \<Rightarrow> bytes \<Rightarrow> Net \<Rightarrow> bool \<times> Net" where
  "sendInOrder nc fg over to frame s =
     (case nt_pools s to of
        None \<Rightarrow> (False, s)
      | Some pool \<Rightarrow> (case pl_links pool of [] \<Rightarrow> (False, s) | l # _ \<Rightarrow> (True, peerlink_send nc fg over l frame s)))"

definition list_link :: "Net \<Rightarrow> Pool \<Rightarrow> nat \<Rightarrow> Pool" where
  "list_link s pool l =
     (if rl_relayed (nt_links s l) then pool\<lparr>pl_links := pl_links pool @ [l]\<rparr>
      else pool\<lparr>pl_links := take (pl_direct pool) (pl_links pool) @ l # drop (pl_direct pool) (pl_links pool), pl_direct := pl_direct pool + 1\<rparr>)"

text \<open>\<open>None\<close> when the link is not listed.\<close>

definition unlist :: "Net \<Rightarrow> Pool \<Rightarrow> nat \<Rightarrow> Pool option" where
  "unlist s pool l =
     (if l \<in> set (pl_links pool)
      then Some (pool\<lparr>pl_links := remove1 l (pl_links pool),
                      pl_direct := (if rl_relayed (nt_links s l) then pl_direct pool else pl_direct pool - 1)\<rparr>)
      else None)"

definition canonicalKeep :: "NetConf \<Rightarrow> Peerlink \<Rightarrow> bool" where
  "canonicalKeep nc link \<longleftrightarrow> rl_weDialed link = (bytesCompare (nc_ownPk nc) (rl_peerPubkey link) < 0)"

definition retire :: "forgetter \<Rightarrow> jstr \<Rightarrow> nat \<Rightarrow> Net \<Rightarrow> Net" where
  "retire fg p loser s =
     (if rl_weDialed (nt_links s loser) then link_end fg ByClose loser s
      else case nt_pools s p of
             None \<Rightarrow> s
           | Some pool \<Rightarrow> set_pool p (Some (pool\<lparr>pl_held := pl_held pool @ [loser]\<rparr>)) s)"

definition find_rival :: "Net \<Rightarrow> Pool \<Rightarrow> nat \<Rightarrow> nat option" where
  "find_rival s pool l =
     find (\<lambda>r. rl_weDialed (nt_links s r) \<noteq> rl_weDialed (nt_links s l) \<and> rl_relayed (nt_links s r) = rl_relayed (nt_links s l)) (pl_links pool)"

text \<open>The end of \<open>promote\<close>: the link joins its pool.\<close>

definition join :: "jstr \<Rightarrow> nat \<Rightarrow> bool \<Rightarrow> Net \<Rightarrow> Net" where
  "join p l up s =
     (let pool = (case nt_pools s p of Some pool \<Rightarrow> pool | None \<Rightarrow> \<lparr>pl_links = [], pl_direct = 0, pl_held = [], pl_next = 0\<rparr>);
          s = set_pool p (Some (list_link s pool l)) s;
          s = (if up then say CheckReady s else s)
      in say StatusChanged s)"

definition promote :: "NetConf \<Rightarrow> forgetter \<Rightarrow> jstr \<Rightarrow> nat \<Rightarrow> Net \<Rightarrow> bool \<times> Net" where
  "promote nc fg p l s =
     (case nt_pools s p of
        None \<Rightarrow> (True, join p l True s)
      | Some pool \<Rightarrow>
          (case find_rival s pool l of
             None \<Rightarrow> (True, join p l False s)
           | Some rival \<Rightarrow>
               if \<not> canonicalKeep nc (nt_links s l) then (False, retire fg p l s)
               else let s = (case unlist s pool rival of Some pool \<Rightarrow> set_pool p (Some pool) s | None \<Rightarrow> s)
                    in (True, join p l False (retire fg p rival s))))"

text \<open>The loop of \<open>retireRelayed\<close>: it asks the peer to close each relayed link.\<close>

fun retire_loop :: "NetConf \<Rightarrow> forgetter \<Rightarrow> overs \<Rightarrow> jstr \<Rightarrow> nat list \<Rightarrow> Net \<Rightarrow> Net" where
  "retire_loop nc fg over p [] s = s"
| "retire_loop nc fg over p (l # ls) s =
     (let s = (case nt_pools s p of
                 None \<Rightarrow> s
               | Some pool \<Rightarrow>
                   let pool = (case unlist s pool l of Some pool \<Rightarrow> pool | None \<Rightarrow> pool)
                   in set_pool p (Some (pool\<lparr>pl_held := pl_held pool @ [l]\<rparr>)) s)
      in retire_loop nc fg over p ls (peerlink_send nc fg over l [KIND_CTL, CTL_RETIRE] s))"

definition retireRelayed :: "NetConf \<Rightarrow> forgetter \<Rightarrow> overs \<Rightarrow> jstr \<Rightarrow> Net \<Rightarrow> Net" where
  "retireRelayed nc fg over p s =
     (case nt_pools s p of
        None \<Rightarrow> s
      | Some pool \<Rightarrow> if pl_direct pool = 0 then s else retire_loop nc fg over p (drop (pl_direct pool) (pl_links pool)) s)"

end
