(* ===== verification/Reqres.thy ===== *)
theory Reqres
  imports Router "HOL-Library.AList"
begin

text \<open>
  The request and response layer, class \<open>ReqRes\<close> of \<^verbatim>\<open>WASM/transport/src/router.js\<close>, and class \<open>Core\<close> of \<^verbatim>\<open>WASM/transport/src/core.js\<close>,
  which call each other and the router (theory \<open>Router\<close>). A dial and the direct path are outputs: what comes of them is a link being
  opened later. \<open>nt_relayed\<close> names a peer's relay window in \<open>nt_qs\<close>, since a loop over a window goes on with it after the
  map has lost it.
\<close>

section \<open>Placing frames\<close>

definition core_push :: "jstr \<Rightarrow> nat \<Rightarrow> Net \<Rightarrow> Net" where
  "core_push p l s = s\<lparr>nt_connecting := (nt_connecting s)(p := nt_connecting s p @ [l])\<rparr>"

definition core_drop :: "jstr \<Rightarrow> nat \<Rightarrow> Net \<Rightarrow> Net" where
  "core_drop p l s = s\<lparr>nt_connecting := (nt_connecting s)(p := remove1 l (nt_connecting s p))\<rparr>"

definition core_place :: "NetConf \<Rightarrow> forgetter \<Rightarrow> overs \<Rightarrow> jstr \<Rightarrow> bytes \<Rightarrow> Net \<Rightarrow> bool \<times> Net" where
  "core_place nc fg over to frame s =
     (case router_send nc fg over to frame s of
        (True, s) \<Rightarrow> (True, s)
      | (False, s) \<Rightarrow> (case nt_connecting s to of [] \<Rightarrow> (False, s) | l # _ \<Rightarrow> (True, peerlink_send nc fg over l frame s)))"

text \<open>\<open>sendFrame\<close> up to its first wait: a frame is placed, has nowhere to go, or waits for a dial.\<close>

datatype placing = Placed | Dropped | Dialing

definition sendFrame :: "NetConf \<Rightarrow> forgetter \<Rightarrow> overs \<Rightarrow> jstr \<Rightarrow> bytes \<Rightarrow> Net \<Rightarrow> placing \<times> Net" where
  "sendFrame nc fg over to frame s =
     (if to = nc_ownId nc then (Dropped, s)
      else case core_place nc fg over to frame s of
             (True, s) \<Rightarrow> (Placed, s)
           | (False, s) \<Rightarrow> if \<not> nt_addrs s to then (Dropped, s) else (Dialing, say (DialPeer to) s))"

definition owe :: "task \<Rightarrow> Net \<Rightarrow> Net" where
  "owe x s = s\<lparr>nt_tasks := nt_tasks s @ [x]\<rparr>"

definition put :: "NetConf \<Rightarrow> forgetter \<Rightarrow> overs \<Rightarrow> nat \<Rightarrow> jstr \<Rightarrow> bytes \<Rightarrow> Net \<Rightarrow> Net" where
  "put nc fg over corr to frame s =
     (case sendFrame nc fg over to frame s of
        (Placed, s) \<Rightarrow> s
      | (Dropped, s) \<Rightarrow> owe (Unplaced corr) s
      | (Dialing, s) \<Rightarrow> owe (AfterDial (Some corr) to frame) s)"

section \<open>Requests\<close>

definition set_pending :: "nat \<Rightarrow> Pending \<Rightarrow> Net \<Rightarrow> Net" where
  "set_pending c p s = s\<lparr>nt_pending := AList.update c p (nt_pending s)\<rparr>"

definition set_q :: "nat \<Rightarrow> (RelayQ \<Rightarrow> RelayQ) \<Rightarrow> Net \<Rightarrow> Net" where
  "set_q q f s = s\<lparr>nt_qs := (nt_qs s)[q := f (nt_qs s ! q)]\<rparr>"

definition set_relayed :: "jstr \<Rightarrow> nat option \<Rightarrow> Net \<Rightarrow> Net" where
  "set_relayed to q s = s\<lparr>nt_relayed := (nt_relayed s)(to := q)\<rparr>"

definition shift_q :: "nat \<Rightarrow> Net \<Rightarrow> Net" where
  "shift_q q = set_q q (\<lambda>x. x\<lparr>rq_waiting := tl (rq_waiting x)\<rparr>)"

definition add_bytes :: "nat \<Rightarrow> int \<Rightarrow> Net \<Rightarrow> Net" where
  "add_bytes q n = set_q q (\<lambda>x. x\<lparr>rq_bytes := rq_bytes x + n\<rparr>)"

text \<open>
  The loop of \<open>pumpRelayed\<close>; every turn but the last takes one correlation off the window, so as many turns as it holds
  are enough. A waiting request always holds its frame; where it did not, \<open>frame.length\<close> would throw, and the loop ends.
\<close>

fun pump_loop :: "NetConf \<Rightarrow> forgetter \<Rightarrow> overs \<Rightarrow> jstr \<Rightarrow> nat \<Rightarrow> bool \<Rightarrow> nat \<Rightarrow> Net \<Rightarrow> Net" where
  "pump_loop nc fg over to q direct 0 s = s"
| "pump_loop nc fg over to q direct (Suc n) s =
     (case rq_waiting (nt_qs s ! q) of
        [] \<Rightarrow> s
      | corr # _ \<Rightarrow>
          (case map_of (nt_pending s) corr of
             None \<Rightarrow> pump_loop nc fg over to q direct n (shift_q q s)
           | Some p \<Rightarrow>
               (case pd_held p of
                  None \<Rightarrow> s
                | Some frame \<Rightarrow>
                    if \<not> direct \<and> rq_bytes (nt_qs s ! q) > 0 \<and> rq_bytes (nt_qs s ! q) + int (length frame) > int (nc_maxFrameBytes nc) then s
                    else let s = shift_q q s;
                             s = (if direct then set_pending corr (p\<lparr>pd_held := None\<rparr>) s
                                  else add_bytes q (int (length frame)) (set_pending corr (p\<lparr>pd_held := None, pd_relayedBytes := length frame\<rparr>) s))
                         in pump_loop nc fg over to q direct n (put nc fg over corr to frame s))))"

definition pumpRelayed :: "NetConf \<Rightarrow> forgetter \<Rightarrow> overs \<Rightarrow> jstr \<Rightarrow> Net \<Rightarrow> Net" where
  "pumpRelayed nc fg over to s =
     (case nt_relayed s to of
        None \<Rightarrow> s
      | Some q \<Rightarrow>
          let direct = (\<not> relayedOnly to s);
              s = pump_loop nc fg over to q direct (length (rq_waiting (nt_qs s ! q))) s
          in if rq_waiting (nt_qs s ! q) = [] \<and> (direct \<or> rq_bytes (nt_qs s ! q) = 0) then set_relayed to None s else s)"

definition reqres_finish :: "NetConf \<Rightarrow> forgetter \<Rightarrow> overs \<Rightarrow> nat \<Rightarrow> bytes option \<Rightarrow> Net \<Rightarrow> Net" where
  "reqres_finish nc fg over corr payload s =
     (case map_of (nt_pending s) corr of
        None \<Rightarrow> s
      | Some p \<Rightarrow>
          let s = s\<lparr>nt_pending := AList.delete corr (nt_pending s)\<rparr>;
              s = (if pd_relayedBytes p > 0
                   then (case nt_relayed s (pd_to p) of
                           None \<Rightarrow> s
                         | Some q \<Rightarrow> pumpRelayed nc fg over (pd_to p) (add_bytes q (- int (pd_relayedBytes p)) s))
                   else s)
          in say (Resolve (pd_d p) (case payload of None \<Rightarrow> [0] | Some b \<Rightarrow> 1 # b)) s)"

text \<open>\<open>pending\<close> only loses entries while it is walked.\<close>

definition peerDown :: "NetConf \<Rightarrow> forgetter \<Rightarrow> overs \<Rightarrow> jstr \<Rightarrow> Net \<Rightarrow> Net" where
  "peerDown nc fg over peer s =
     fold (\<lambda>(corr, p) s. if pd_to p = peer then reqres_finish nc fg over corr None s else s)
       (nt_pending s) (set_relayed peer None s)"

definition buildReq :: "nat \<Rightarrow> bool \<Rightarrow> bytes \<Rightarrow> bytes \<Rightarrow> bytes" where
  "buildReq corr noReply proto payload =
     [if noReply then KIND_REQ OR FLAG_NO_REPLY else KIND_REQ] @ argU32 corr @ [of_nat (length proto)] @ proto @ payload"

text \<open>The end of \<open>request\<close>, for a peer behind a relay: the request waits in its window. A fresh window is a fresh entry of \<open>nt_qs\<close>.\<close>

definition await_window :: "NetConf \<Rightarrow> forgetter \<Rightarrow> overs \<Rightarrow> nat \<Rightarrow> jstr \<Rightarrow> Net \<Rightarrow> Net" where
  "await_window nc fg over corr to s =
     (let s = (case nt_relayed s to of
                 Some _ \<Rightarrow> s
               | None \<Rightarrow> set_relayed to (Some (length (nt_qs s))) (s\<lparr>nt_qs := nt_qs s @ [\<lparr>rq_bytes = 0, rq_waiting = []\<rparr>]\<rparr>));
          s = set_q (the (nt_relayed s to)) (\<lambda>x. x\<lparr>rq_waiting := rq_waiting x @ [corr]\<rparr>) s
      in pumpRelayed nc fg over to s)"

definition request :: "NetConf \<Rightarrow> forgetter \<Rightarrow> overs \<Rightarrow> rat \<Rightarrow> nat \<Rightarrow> jstr \<Rightarrow> bytes \<Rightarrow> bytes \<Rightarrow> bool \<Rightarrow> Net \<Rightarrow> Net" where
  "request nc fg over now d to proto payload noReply s =
     (let corr = (if noReply then 0 else nt_nextCorr s);
          s = (if noReply then s else s\<lparr>nt_nextCorr := nt_nextCorr s + 1\<rparr>);
          s = (if nt_nextCorr s > 0xffffffff then s\<lparr>nt_nextCorr := 1\<rparr> else s);
          frame = buildReq corr noReply proto payload
      in if noReply then put nc fg over 0 to frame s
         else let p = \<lparr>pd_to = to, pd_d = d,
                       pd_due = (if nc_requestTimeoutMs nc > 0 then Some (now + nc_requestTimeoutMs nc) else None),
                       pd_relayedBytes = 0, pd_held = None\<rparr>
              in if \<not> relayedOnly to s then put nc fg over corr to frame (set_pending corr p s)
                 else await_window nc fg over corr to (set_pending corr (p\<lparr>pd_held := Some frame\<rparr>) s))"

text \<open>The app's op \<open>send\<close>: refused requests never reach the layer, the others are answered through a fresh deferred.\<close>

datatype op_send_error = ProtoTooLong | OverFrameCap

definition op_send :: "NetConf \<Rightarrow> forgetter \<Rightarrow> overs \<Rightarrow> rat \<Rightarrow> bool \<Rightarrow> bytes \<Rightarrow> bytes \<Rightarrow> bytes \<Rightarrow> Net \<Rightarrow> (op_send_error, Net) result" where
  "op_send nc fg over now noReply to proto payload s =
     (if length proto > 0xff then Inl ProtoTooLong
      else if int (REQ_HEAD_LEN + length proto + length payload) > int (nc_maxFrameBytes nc) - int TAG_LEN then Inl OverFrameCap
      else if noReply then Inr (request nc fg over now 0 (guest_toHex to) proto payload True s)
      else Inr (request nc fg over now (nt_defers s) (guest_toHex to) proto payload False (s\<lparr>nt_defers := nt_defers s + 1\<rparr>)))"

section \<open>Answers\<close>

definition held_weight :: "jstr \<Rightarrow> Net \<Rightarrow> rat" where
  "held_weight peer s = (case map_of (nt_delivering s) peer of None \<Rightarrow> 0 | Some w \<Rightarrow> w)"

definition reqres_admits :: "NetConf \<Rightarrow> jstr \<Rightarrow> rat \<Rightarrow> Net \<Rightarrow> bool" where
  "reqres_admits nc peer weight s =
     (let mine = held_weight peer s
      in if mine = 0 then nt_deliveringWeight s + weight \<le> deliveryWindow nc
         else nt_deliveringWeight s + weight \<le> deliveryWindow nc - maxRequestWeight nc \<and> mine + weight \<le> deliveryWindow nc / of_nat (length (nt_delivering s)))"

definition reqres_hold :: "jstr \<Rightarrow> rat \<Rightarrow> Net \<Rightarrow> Net" where
  "reqres_hold peer weight s =
     (let mine = held_weight peer s + weight
      in s\<lparr>nt_delivering := (if mine > 0 then AList.update peer mine (nt_delivering s) else AList.delete peer (nt_delivering s)),
           nt_deliveringWeight := nt_deliveringWeight s + weight\<rparr>)"

definition respond :: "NetConf \<Rightarrow> forgetter \<Rightarrow> overs \<Rightarrow> nat \<Rightarrow> bool \<Rightarrow> jstr \<Rightarrow> nat \<Rightarrow> bytes \<Rightarrow> Net \<Rightarrow> Net" where
  "respond nc fg over corr noReply peer l payload s =
     (if noReply then s
      else let content = (if int (RES_HEAD_LEN + length payload) \<le> int (nc_maxFrameBytes nc) - int TAG_LEN then payload else []);
               frame = [KIND_RES] @ argU32 corr @ content
           in case sendOn nc fg over peer l frame s of
                (True, s) \<Rightarrow> s
              | (False, s) \<Rightarrow> (case sendFrame nc fg over peer frame s of
                                (Dialing, s) \<Rightarrow> owe (AfterDial None peer frame) s
                              | (_, s) \<Rightarrow> s))"

text \<open>What a delivered request counts, by the lengths of its protocol id and its payload.\<close>

definition requestWeight :: "NetConf \<Rightarrow> nat \<Rightarrow> nat \<Rightarrow> rat" where
  "requestWeight nc idLen n = of_nat (1 + idLen + PK_LEN + n) + callWeight nc"

definition reqres_onFrame :: "NetConf \<Rightarrow> forgetter \<Rightarrow> overs \<Rightarrow> jstr \<Rightarrow> bytes \<Rightarrow> bytes \<Rightarrow> nat \<Rightarrow> Net \<Rightarrow> Net" where
  "reqres_onFrame nc fg over peer frame pk l s =
     (if length frame < RES_HEAD_LEN then s
      else let kind = frame ! 0; noReply = (kind AND FLAG_NO_REPLY \<noteq> 0); corr = readU32BE frame 1
      in if kind AND KIND_RES \<noteq> 0
         then (case map_of (nt_pending s) corr of
                 None \<Rightarrow> s
               | Some p \<Rightarrow> if pd_to p \<noteq> peer then s else reqres_finish nc fg over corr (Some (drop RES_HEAD_LEN frame)) s)
         else if length frame < REQ_HEAD_LEN then s
         else let idLen = unat (frame ! REQ_PROTO_LEN_AT)
         in if length frame < REQ_HEAD_LEN + idLen then s
            else let proto = take idLen (drop REQ_HEAD_LEN frame); payload = drop (REQ_HEAD_LEN + idLen) frame;
                     weight = requestWeight nc idLen (length payload)
                 in if \<not> reqres_admits nc peer weight s then respond nc fg over corr noReply peer l [] s
                    else reqres_hold peer weight (say (Deliver proto pk payload)
                           (s\<lparr>nt_deliveries := nt_deliveries s @ [Delivery peer weight corr noReply l]\<rparr>)))"

text \<open>\<open>link/deliver\<close> has answered (a rejection answers nothing).\<close>

definition on_delivered :: "NetConf \<Rightarrow> forgetter \<Rightarrow> overs \<Rightarrow> nat \<Rightarrow> bytes \<Rightarrow> Net \<Rightarrow> Net" where
  "on_delivered nc fg over i answer s =
     (case nt_deliveries s ! i of
        Delivery peer weight corr noReply l \<Rightarrow>
          respond nc fg over corr noReply peer l answer
            (reqres_hold peer (- weight) (s\<lparr>nt_deliveries := take i (nt_deliveries s) @ drop (Suc i) (nt_deliveries s)\<rparr>)))"

text \<open>
  The walk of \<open>onWake\<close>: the first entry is expired and gone, or still waiting and its deadline the answer. \<open>None\<close> is never.
\<close>

fun wake_loop :: "NetConf \<Rightarrow> forgetter \<Rightarrow> overs \<Rightarrow> rat \<Rightarrow> nat \<Rightarrow> Net \<Rightarrow> rat option \<times> Net" where
  "wake_loop nc fg over t 0 s = (None, s)"
| "wake_loop nc fg over t (Suc n) s =
     (case nt_pending s of
        [] \<Rightarrow> (None, s)
      | (corr, p) # _ \<Rightarrow>
          (case pd_due p of
             None \<Rightarrow> (None, s)
           | Some due \<Rightarrow> if t < due then (Some due, s) else wake_loop nc fg over t n (reqres_finish nc fg over corr None s)))"

definition reqres_onWake :: "NetConf \<Rightarrow> forgetter \<Rightarrow> overs \<Rightarrow> rat \<Rightarrow> Net \<Rightarrow> rat option \<times> Net" where
  "reqres_onWake nc fg over t s = (if nc_requestTimeoutMs nc \<le> 0 then (None, s) else wake_loop nc fg over t (length (nt_pending s)) s)"

section \<open>Links coming and going\<close>

definition router_remove :: "NetConf \<Rightarrow> forgetter \<Rightarrow> overs \<Rightarrow> nat \<Rightarrow> Net \<Rightarrow> Net" where
  "router_remove nc fg over l s =
     (let pid = rl_peerId (nt_links s l)
      in case nt_pools s pid of
           None \<Rightarrow> s
         | Some pool \<Rightarrow>
             if l \<in> set (pl_held pool) then set_pool pid (Some (pool\<lparr>pl_held := remove1 l (pl_held pool)\<rparr>)) s
             else (case unlist s pool l of
                     None \<Rightarrow> s
                   | Some pool \<Rightarrow>
                       let s = say StatusChanged s
                       in if pl_links pool \<noteq> [] then set_pool pid (Some pool) s
                          else if pl_held pool \<noteq> []
                          then set_pool pid (Some (fold (\<lambda>h pool. list_link s pool h) (pl_held pool) (pool\<lparr>pl_held := []\<rparr>))) s
                          else peerDown nc fg over pid (set_pool pid None s)))"

text \<open>The loop of \<open>forget\<close> that hands a link's frames on.\<close>

definition place_all :: "NetConf \<Rightarrow> forgetter \<Rightarrow> overs \<Rightarrow> jstr \<Rightarrow> bytes list \<Rightarrow> Net \<Rightarrow> Net" where
  "place_all nc fg over p frames s = fold (\<lambda>frame s. snd (core_place nc fg over p frame s)) frames s"

text \<open>\<open>Core.forget\<close>, where closing another link on the way does \<open>fg\<close>.\<close>

definition forget_with :: "NetConf \<Rightarrow> forgetter \<Rightarrow> overs \<Rightarrow> nat \<Rightarrow> Net \<Rightarrow> Net" where
  "forget_with nc fg over l s =
     (let link = nt_links s l;
          s = router_remove nc fg over l (core_drop (rl_dialedPeerId link) l s);
          p = (if rl_peerId link \<noteq> [] then rl_peerId link else rl_dialedPeerId link)
      in if p = [] then s
         else let s = place_all nc fg over p (rl_queue link) (set_link l (\<lambda>x. x\<lparr>rl_queue := []\<rparr>) s)
              in if \<not> rl_authed link \<and> linkCount p s = 0 \<and> nt_connecting s p = []
                 then say CheckReady (peerDown nc fg over p s) else s)"

text \<open>
  \<open>forget\<close> ends another link only while it hands frames on, and a link it hands them to has none of its own (lemma \<open>forget_unfold\<close>
  of theory \<open>Net_Inv\<close>), so two rounds are all of it.
\<close>

definition forget :: "NetConf \<Rightarrow> overs \<Rightarrow> nat \<Rightarrow> Net \<Rightarrow> Net" where
  "forget nc over = forget_with nc (forget_with nc (\<lambda>_ s. s) over) over"

definition openLink :: "nat \<Rightarrow> Peerlink \<Rightarrow> Net \<Rightarrow> Net" where
  "openLink l spec s =
     (let s = s\<lparr>nt_opened := l # nt_opened s, nt_links := (nt_links s)(l := spec\<lparr>rl_peerId := [], rl_peerPubkey := [], rl_authed := False, rl_closed := False, rl_queue := []\<rparr>)\<rparr>
      in if rl_dialedPeerId spec \<noteq> [] then core_push (rl_dialedPeerId spec) l s else s)"

definition core_onAuth :: "NetConf \<Rightarrow> forgetter \<Rightarrow> overs \<Rightarrow> jstr \<Rightarrow> nat \<Rightarrow> Net \<Rightarrow> Net" where
  "core_onAuth nc fg over p l s =
     (case promote nc fg p l (core_drop (rl_dialedPeerId (nt_links s l)) l s) of
        (False, s) \<Rightarrow> s
      | (True, s) \<Rightarrow>
          if rl_relayed (nt_links s l) then say (DirectUpgrade p) s
          else let s = pumpRelayed nc fg over p s
               in if \<not> rl_weDialed (nt_links s l) then retireRelayed nc fg over p s else s)"

text \<open>
  \<open>Link.becomeAuthed\<close>, once a link has proved its peer: \<open>kept\<close> is whether the limiter has a slot for it. The frames that waited are
  sealed at the end, unless the tie-break closed the link and handed them on.
\<close>

definition becomes_authed :: "NetConf \<Rightarrow> overs \<Rightarrow> bool \<Rightarrow> nat \<Rightarrow> bytes \<Rightarrow> Net \<Rightarrow> Net" where
  "becomes_authed nc over kept l pk s =
     (let fg = forget nc over;
          s = set_link l (\<lambda>x. x\<lparr>rl_peerPubkey := pk, rl_peerId := guest_toHex pk, rl_authed := True\<rparr>) s
      in if \<not> kept then link_end fg ByAbort l s
         else let s = core_onAuth nc fg over (guest_toHex pk) l s
              in if rl_closed (nt_links s l) then s
                 else fold (\<lambda>frame. say (Sent l frame)) (rl_queue (nt_links s l)) (set_link l (\<lambda>x. x\<lparr>rl_queue := []\<rparr>) s))"

definition onControl :: "forgetter \<Rightarrow> jstr \<Rightarrow> bytes \<Rightarrow> nat \<Rightarrow> Net \<Rightarrow> Net" where
  "onControl fg p frame l s =
     (let tag = (if 1 < length frame then Some (frame ! 1) else None)
      in if tag \<noteq> Some CTL_RETIRE then say (Signal p tag (drop 2 frame)) s
         else if rl_relayed (nt_links s l) \<and> hasDirect p s then link_end fg ByClose l s else s)"

text \<open>A link's \<open>onFrame\<close>.\<close>

definition on_frame :: "NetConf \<Rightarrow> forgetter \<Rightarrow> overs \<Rightarrow> nat \<Rightarrow> bytes \<Rightarrow> Net \<Rightarrow> Net" where
  "on_frame nc fg over l frame s =
     (let p = rl_peerId (nt_links s l)
      in if frame \<noteq> [] \<and> frame ! 0 = KIND_CTL then onControl fg p frame l s
         else reqres_onFrame nc fg over p frame (rl_peerPubkey (nt_links s l)) l s)"

definition addAddr :: "bytes \<Rightarrow> Net \<Rightarrow> Net" where
  "addAddr peer s = s\<lparr>nt_addrs := (nt_addrs s)(guest_toHex peer := True)\<rparr>"

definition forgetPeer :: "forgetter \<Rightarrow> jstr \<Rightarrow> Net \<Rightarrow> Net" where
  "forgetPeer fg p s =
     (let s = s\<lparr>nt_addrs := (nt_addrs s)(p := False)\<rparr>;
          s = fold (link_end fg ByAbort) (nt_connecting s p) s;
          s = (case nt_pools s p of None \<Rightarrow> s | Some pool \<Rightarrow> fold (link_end fg ByClose) (pl_links pool @ pl_held pool) s)
      in say (DirectDrop p) s)"

text \<open>A later turn: a dial is over, or a request that no link took is failed.\<close>

definition run_task :: "NetConf \<Rightarrow> forgetter \<Rightarrow> overs \<Rightarrow> nat \<Rightarrow> Net \<Rightarrow> Net" where
  "run_task nc fg over i s =
     (let x = nt_tasks s ! i; s = s\<lparr>nt_tasks := take i (nt_tasks s) @ drop (Suc i) (nt_tasks s)\<rparr>
      in case x of
           Unplaced corr \<Rightarrow> reqres_finish nc fg over corr None s
         | AfterDial c to frame \<Rightarrow>
             (case core_place nc fg over to frame s of
                (True, s) \<Rightarrow> s
              | (False, s) \<Rightarrow> (case c of None \<Rightarrow> s | Some corr \<Rightarrow> owe (Unplaced corr) s)))"

end
