(* ===== verification/Net_Run.thy ===== *)
theory Net_Run
  imports Reqres
begin

text \<open>
  The runs of the routing core (theories \<open>Router\<close> and \<open>Reqres\<close>), and what every operation does to the requests and to the books of
  deliveries: locale \<open>net_change\<close> takes a relation on states that the single writes of the code keep, and shows that every
  operation keeps it, whatever links it ends on the way.
\<close>

section \<open>Runs\<close>

definition new_Net :: Net where
  "new_Net = \<lparr>nt_opened = [],
     nt_links = (\<lambda>_. \<lparr>rl_weDialed = False, rl_relayed = False, rl_relay = [], rl_dialedPeerId = [], rl_peerId = [], rl_peerPubkey = [],
                       rl_authed = False, rl_closed = True, rl_queue = []\<rparr>),
     nt_pools = (\<lambda>_. None), nt_connecting = (\<lambda>_. []), nt_addrs = (\<lambda>_. False), nt_pending = [], nt_nextCorr = 1, nt_defers = 0,
     nt_delivering = [], nt_deliveringWeight = 0, nt_relayed = (\<lambda>_. None), nt_qs = [], nt_tasks = [], nt_deliveries = [], nt_out = []\<rparr>"

text \<open>
  One turn of the transport at time \<open>t\<close>. A platform id names one link. What a link proves of its peer, and that the frames
  it hands on are whole records of at most the frame cap, is theory \<open>Ake\<close>'s: a dialed link proves the key it dialed, no link this node's own.
\<close>

inductive net_step :: "NetConf \<Rightarrow> rat \<Rightarrow> Net \<Rightarrow> Net \<Rightarrow> bool" for nc t where
  opens: "l \<notin> set (nt_opened s) \<Longrightarrow> net_step nc t s (openLink l spec s)"
| authenticates: "l \<in> set (nt_opened s) \<Longrightarrow> \<not> rl_closed (nt_links s l) \<Longrightarrow> \<not> rl_authed (nt_links s l) \<Longrightarrow> length pk = PK_LEN \<Longrightarrow> pk \<noteq> nc_ownPk nc \<Longrightarrow>
    rl_dialedPeerId (nt_links s l) \<in> {[], guest_toHex pk} \<Longrightarrow> net_step nc t s (becomes_authed nc over kept l pk s)"
| ends: "l \<in> set (nt_opened s) \<Longrightarrow> net_step nc t s (link_end (forget nc over) how l s)"
| sends: "op_send nc (forget nc over) over t noReply to proto payload s = Inr s' \<Longrightarrow> net_step nc t s s'"
| hears: "l \<in> set (nt_opened s) \<Longrightarrow> rl_authed (nt_links s l) \<Longrightarrow> \<not> rl_closed (nt_links s l) \<Longrightarrow> int (length frame) \<le> int (nc_maxFrameBytes nc) - int TAG_LEN \<Longrightarrow>
    net_step nc t s (on_frame nc (forget nc over) over l frame s)"
| answers: "i < length (nt_deliveries s) \<Longrightarrow> net_step nc t s (on_delivered nc (forget nc over) over i answer s)"
| later: "i < length (nt_tasks s) \<Longrightarrow> net_step nc t s (run_task nc (forget nc over) over i s)"
| wakes: "net_step nc t s (snd (reqres_onWake nc (forget nc over) over t s))"
| learns: "net_step nc t s (addAddr peer s)"
| forgets: "net_step nc t s (forgetPeer (forget nc over) p s)"

inductive net_reach :: "NetConf \<Rightarrow> rat \<Rightarrow> Net \<Rightarrow> bool" for nc where
  begins: "net_reach nc 0 new_Net"
| passes: "net_reach nc t s \<Longrightarrow> t \<le> t' \<Longrightarrow> net_reach nc t' s"
| turns: "net_reach nc t s \<Longrightarrow> net_step nc t s s' \<Longrightarrow> net_reach nc t s'"

section \<open>What every operation keeps\<close>

definition is_resolve :: "rout \<Rightarrow> bool" where
  "is_resolve x \<longleftrightarrow> (case x of Resolve _ _ \<Rightarrow> True | _ \<Rightarrow> False)"

definition same_request :: "Pending \<Rightarrow> Pending \<Rightarrow> bool" where
  "same_request p p' \<longleftrightarrow> pd_to p' = pd_to p \<and> pd_d p' = pd_d p \<and> pd_due p' = pd_due p"

locale net_change =
  fixes R :: "Net \<Rightarrow> Net \<Rightarrow> bool"
  assumes R_refl: "R s s"
    and R_trans: "R s s' \<Longrightarrow> R s' s'' \<Longrightarrow> R s s''"
    and R_say: "\<not> is_resolve x \<Longrightarrow> R s (say x s)"
    and R_set_link: "R s (set_link l f s)"
    and R_set_pool: "R s (set_pool peer pool s)"
    and R_core_drop: "R s (core_drop peer l s)"
    and R_tasks: "R s (s\<lparr>nt_tasks := todo\<rparr>)"
    and R_set_q: "R s (set_q q g s)"
    and R_set_relayed: "R s (set_relayed to w s)"
    and R_addrs: "R s (s\<lparr>nt_addrs := a\<rparr>)"
    and R_set_pending: "map_of (nt_pending s) c = Some p \<Longrightarrow> same_request p p' \<Longrightarrow> R s (set_pending c p' s)"
    and R_settle: "map_of (nt_pending s) c = Some p \<Longrightarrow> R (s\<lparr>nt_pending := AList.delete c (nt_pending s)\<rparr>) s' \<Longrightarrow> R s (say (Resolve (pd_d p) [0]) s')"
begin

lemma R_let: "R s s' \<Longrightarrow> R s' (f s') \<Longrightarrow> R s (Let s' f)"
  unfolding Let_def by (rule R_trans)

lemma R_fold: "(\<And>x s. R s (f x s)) \<Longrightarrow> R s (fold f xs s)"
  by (induction xs arbitrary: s) (auto intro: R_refl R_trans)

lemma R_owe: "R s (owe x s)"
  unfolding owe_def by (rule R_tasks)

lemma R_add_bytes: "R s (add_bytes q n s)"
  unfolding add_bytes_def by (rule R_set_q)

lemma R_link_end:
  assumes fg: "\<And>l s. R s (fg l s)"
  shows "R s (link_end fg how l s)"
  unfolding link_end_def using R_trans [OF R_trans [OF R_set_link R_say] fg] by (auto simp: is_resolve_def R_refl)

lemma R_peerlink_send:
  assumes fg: "\<And>l s. R s (fg l s)"
  shows "R s (peerlink_send nc fg over l frame s)"
  unfolding peerlink_send_def Let_def
  by (auto simp: R_refl is_resolve_def R_say R_set_link R_link_end [OF fg] split: option.split)

lemma R_router_send:
  assumes fg: "\<And>l s. R s (fg l s)"
  shows "R s (snd (router_send nc fg over to frame s))"
  unfolding router_send_def Let_def
  by (auto simp: R_refl intro: R_trans [OF R_set_pool R_peerlink_send [OF fg]] split: option.split)

lemma R_sendOn:
  assumes fg: "\<And>l s. R s (fg l s)"
  shows "R s (snd (sendOn nc fg over to l frame s))"
  unfolding sendOn_def by (auto simp: R_router_send [OF fg] R_peerlink_send [OF fg] split: option.split)

lemma R_core_place:
  assumes fg: "\<And>l s. R s (fg l s)"
  shows "R s (snd (core_place nc fg over to frame s))"
  using R_router_send [of fg s nc over to frame, OF fg] R_peerlink_send [of fg, OF fg]
  unfolding core_place_def by (auto split: prod.split bool.split list.split intro: R_trans)

lemma R_sendFrame:
  assumes fg: "\<And>l s. R s (fg l s)"
  shows "R s (snd (sendFrame nc fg over to frame s))"
  using R_core_place [of fg s nc over to frame, OF fg]
  unfolding sendFrame_def by (auto simp: R_refl is_resolve_def split: prod.split bool.split intro: R_trans [OF _ R_say])

lemma R_put:
  assumes fg: "\<And>l s. R s (fg l s)"
  shows "R s (put nc fg over corr to frame s)"
  using R_sendFrame [of fg s nc over to frame, OF fg]
  unfolding put_def by (auto split: prod.split placing.split intro: R_trans [OF _ R_owe])

lemma R_pump_loop:
  assumes fg: "\<And>l s. R s (fg l s)"
  shows "R s (pump_loop nc fg over to q direct n s)"
proof (induction n arbitrary: s direct)
  case (Suc n)
  have shift: "R s (shift_q q s)" for s unfolding shift_q_def by (rule R_set_q)
  have go: "R s (pump_loop nc fg over to q direct n (put nc fg over corr to frame s'))" if "R s s'" for s s' corr frame direct
    using that R_put [of fg, OF fg] Suc R_trans by metis
  have pend: "R s (set_pending c p' (shift_q q s))" if "map_of (nt_pending s) c = Some p" "same_request p p'" for c p p' s
    using R_trans [OF shift R_set_pending] that by (simp add: shift_q_def set_q_def)
  have sh: "R s (pump_loop nc fg over to q direct n (shift_q q s))" for direct by (rule R_trans [OF shift Suc])
  show ?case
    unfolding pump_loop.simps Let_def
    by (auto simp: R_refl sh same_request_def split: list.split option.split intro!: go intro: pend R_trans [OF pend R_add_bytes] simp del: pump_loop.simps)
qed (simp add: R_refl)

lemma R_pumpRelayed:
  assumes fg: "\<And>l s. R s (fg l s)"
  shows "R s (pumpRelayed nc fg over to s)"
  unfolding pumpRelayed_def Let_def
  by (auto simp: R_refl R_pump_loop [OF fg] intro: R_trans [OF R_pump_loop [OF fg] R_set_relayed] split: option.split)

text \<open>Settling a request: what comes between taking it off \<open>pending\<close> and its answer.\<close>

lemma R_finish_parts:
  assumes fg: "\<And>l s. R s (fg l s)" and p: "map_of (nt_pending s) corr = Some p"
  shows "\<exists>s'. R (s\<lparr>nt_pending := AList.delete corr (nt_pending s)\<rparr>) s' \<and>
    reqres_finish nc fg over corr payload s = say (Resolve (pd_d p) (case payload of None \<Rightarrow> [0] | Some b \<Rightarrow> 1 # b)) s'"
proof -
  define s0 where "s0 = s\<lparr>nt_pending := AList.delete corr (nt_pending s)\<rparr>"
  define s' where "s' = (if pd_relayedBytes p > 0
    then (case nt_relayed s0 (pd_to p) of None \<Rightarrow> s0 | Some q \<Rightarrow> pumpRelayed nc fg over (pd_to p) (add_bytes q (- int (pd_relayedBytes p)) s0)) else s0)"
  have "R s0 s'"
    unfolding s'_def by (auto simp: R_refl intro: R_trans [OF R_add_bytes R_pumpRelayed [OF fg]] split: option.split)
  moreover have "reqres_finish nc fg over corr payload s = say (Resolve (pd_d p) (case payload of None \<Rightarrow> [0] | Some b \<Rightarrow> 1 # b)) s'"
    unfolding reqres_finish_def Let_def p s'_def s0_def by simp
  ultimately show ?thesis unfolding s0_def by blast
qed

lemma R_finish:
  assumes fg: "\<And>l s. R s (fg l s)"
  shows "R s (reqres_finish nc fg over corr None s)"
proof (cases "map_of (nt_pending s) corr")
  case None
  then show ?thesis by (simp add: reqres_finish_def R_refl)
next
  case (Some p)
  then show ?thesis using R_finish_parts [of fg s corr p nc over None, OF fg Some] R_settle by auto
qed

lemma R_peerDown:
  assumes fg: "\<And>l s. R s (fg l s)"
  shows "R s (peerDown nc fg over p s)"
  unfolding peerDown_def by (rule R_trans [OF R_set_relayed R_fold]) (auto simp: R_refl R_finish [OF fg])

lemma R_router_remove:
  assumes fg: "\<And>l s. R s (fg l s)"
  shows "R s (router_remove nc fg over l s)"
proof -
  have st: "R s (say StatusChanged s)" by (simp add: R_say is_resolve_def)
  show ?thesis
    unfolding router_remove_def Let_def
    by (auto simp: R_refl R_set_pool intro: R_trans [OF st R_set_pool] R_trans [OF R_trans [OF st R_set_pool] R_peerDown [OF fg]] split: option.split)
qed

lemma R_forget_with:
  assumes fg: "\<And>l s. R s (fg l s)"
  shows "R s (forget_with nc fg over l s)"
proof -
  have place: "R s (place_all nc fg over p q s)" for p q s
    unfolding place_all_def by (rule R_fold) (rule R_core_place [OF fg])
  have end': "R s (say CheckReady (peerDown nc fg over p s))" for p s
    by (rule R_trans [OF R_peerDown [OF fg] R_say]) (simp add: is_resolve_def)
  have "R s (router_remove nc fg over l (core_drop p l s))" for p s
    by (rule R_trans [OF R_core_drop R_router_remove [OF fg]])
  then show ?thesis
    unfolding forget_with_def Let_def
    by (auto intro: R_trans [OF _ R_set_link] R_trans [OF R_trans [OF _ R_set_link] place] R_trans [OF R_trans [OF R_trans [OF _ R_set_link] place] end'])
qed

lemma R_forget: "R s (forget nc over l s)"
  unfolding forget_def by (intro R_forget_with R_refl)

lemma R_retire: "R s (retire (forget nc over) p l s)"
  unfolding retire_def by (auto simp: R_refl R_set_pool R_link_end [OF R_forget] split: option.split)

lemma R_promote: "R s (snd (promote nc (forget nc over) p l s))"
proof -
  have j: "R s (join p l up s)" for up s
    unfolding join_def Let_def
    by (auto simp: is_resolve_def intro: R_trans [OF R_set_pool R_say] R_trans [OF R_trans [OF R_set_pool R_say] R_say])
  show ?thesis
    unfolding promote_def Let_def
    by (auto simp: j R_retire intro: R_trans [OF R_retire j] R_trans [OF R_trans [OF R_set_pool R_retire] j] split: option.split)
qed

lemma R_retire_loop: "R s (retire_loop nc (forget nc over) over p ls s)"
proof (induction ls arbitrary: s)
  case (Cons l ls)
  have go: "R s (retire_loop nc (forget nc over) over p ls (peerlink_send nc (forget nc over) over l f s))" for s f
    by (rule R_trans [OF R_peerlink_send [OF R_forget] Cons])
  show ?case by (auto simp: Let_def go intro: R_trans [OF R_set_pool go] split: option.split)
qed (simp add: R_refl)

lemma R_core_onAuth: "R s (core_onAuth nc (forget nc over) over p l s)"
proof -
  have pr: "R s (snd (promote nc (forget nc over) p l (core_drop q l s)))" for q
    by (rule R_trans [OF R_core_drop R_promote])
  have re: "R s (retireRelayed nc (forget nc over) over p s)" for s
    unfolding retireRelayed_def by (auto simp: R_refl R_retire_loop split: option.split)
  have up: "R s (say (DirectUpgrade p) s)" for s by (simp add: R_say is_resolve_def)
  have pu: "R s (pumpRelayed nc (forget nc over) over p s)" for s by (rule R_pumpRelayed [OF R_forget])
  have pure: "R s (retireRelayed nc (forget nc over) over p (pumpRelayed nc (forget nc over) over p s))" for s
    by (rule R_trans [OF pu re])
  show ?thesis
    using pr [of "rl_dialedPeerId (nt_links s l)"]
    unfolding core_onAuth_def Let_def by (auto split: prod.split bool.split intro: R_trans [OF _ up] R_trans [OF _ pu] R_trans [OF _ pure])
qed

lemma R_becomes_authed: "R s (becomes_authed nc over kept l pk s)"
proof -
  have sent: "R s (fold (\<lambda>frame. say (Sent l frame)) q s)" for q s by (rule R_fold) (simp add: R_say is_resolve_def)
  show ?thesis
    unfolding becomes_authed_def Let_def
    by (auto intro: R_trans [OF R_set_link R_link_end [OF R_forget]] R_trans [OF R_set_link R_core_onAuth]
      R_trans [OF R_trans [OF R_trans [OF R_set_link R_core_onAuth] R_set_link] sent])
qed

lemma R_respond: "R s (respond nc (forget nc over) over corr noReply p l payload s)"
proof -
  have on: "R s (snd (sendOn nc (forget nc over) over p l f s))" for f s by (rule R_sendOn [OF R_forget])
  have fr: "R s (snd (sendFrame nc (forget nc over) over p f s))" for f s by (rule R_sendFrame [OF R_forget])
  have go: "R s s2" if "sendOn nc (forget nc over) over p l f s = (b, s1)" "sendFrame nc (forget nc over) over p f s1 = (c, s2)" for f b c s1 s2
    using on [of s f] fr [of s1 f] that R_trans by auto
  have on': "R s s1" if "sendOn nc (forget nc over) over p l f s = (b, s1)" for f b s1 using on [of s f] that by simp
  show ?thesis
    unfolding respond_def Let_def
    by (auto simp: R_refl split: prod.split bool.split placing.split intro: on' go R_trans [OF go R_owe])
qed

lemma R_onControl: "R s (onControl (forget nc over) p frame l s)"
  unfolding onControl_def by (auto simp: Let_def R_refl R_say is_resolve_def R_link_end [OF R_forget])

lemma R_forgetPeer: "R s (forgetPeer (forget nc over) p s)"
proof -
  have en: "R s (fold (link_end (forget nc over) how) ls s)" for how ls s by (rule R_fold) (rule R_link_end [OF R_forget])
  have sa: "R s (say (DirectDrop p) s)" for s by (simp add: R_say is_resolve_def)
  show ?thesis
    unfolding forgetPeer_def Let_def
    by (auto split: option.split intro!: R_trans [OF _ sa] intro: R_trans [OF R_addrs en] R_trans [OF R_trans [OF R_addrs en] en] simp del: fold_append)
qed

lemma R_run_task: "R s (run_task nc (forget nc over) over i s)"
proof -
  have fin: "R s (reqres_finish nc (forget nc over) over c None (s\<lparr>nt_tasks := x\<rparr>))" for c x
    by (rule R_trans [OF R_tasks R_finish [OF R_forget]])
  have pl: "R s (snd (core_place nc (forget nc over) over to f (s\<lparr>nt_tasks := x\<rparr>)))" for to f x
    by (rule R_trans [OF R_tasks R_core_place [OF R_forget]])
  have pl': "R s s1" if "core_place nc (forget nc over) over to f (s\<lparr>nt_tasks := x\<rparr>) = (b, s1)" for to f x b s1
    using pl [of to f x] that by simp
  show ?thesis
    unfolding run_task_def Let_def
    by (auto simp: fin split: task.split prod.split bool.split option.split intro: pl' R_trans [OF pl' R_owe])
qed

lemma R_wake: "R s (snd (wake_loop nc (forget nc over) over t n s))"
proof (induction n arbitrary: s)
  case (Suc n)
  have go: "R s (snd (wake_loop nc (forget nc over) over t n (reqres_finish nc (forget nc over) over c None s)))" for c
    by (rule R_trans [OF R_finish [OF R_forget] Suc])
  show ?case by (auto simp: R_refl go split: list.split option.split)
qed (simp add: R_refl)

end

end
