(* ===== verification/Net_Demo.thy ===== *)
theory Net_Demo
  imports Net_Run
begin

text \<open>
  One small run of the routing core, for the witnesses: a peer's link is accepted and authenticates, an app asks that peer, the
  peer asks back, and then answers.
\<close>

definition small_nc :: NetConf where
  "small_nc = \<lparr>nc_ownId = guest_toHex (replicate 32 1), nc_ownPk = replicate 32 1, nc_maxFrameBytes = 100, nc_maxPreAuthQueueSlices = 4,
     nc_requestTimeoutMs = 10, nc_maxOutstandingHostCallBytes = 1000000, nc_maxOutstandingHostCalls = 100\<rparr>"

definition small_peer :: bytes where
  "small_peer = replicate 32 2"

definition accepted :: Peerlink where
  "accepted = \<lparr>rl_weDialed = False, rl_relayed = False, rl_relay = [], rl_dialedPeerId = [], rl_peerId = [], rl_peerPubkey = [],
     rl_authed = False, rl_closed = False, rl_queue = []\<rparr>"

abbreviation steady :: overs where
  "steady \<equiv> (\<lambda>_ _ _. None)"

definition small_id :: jstr where
  "small_id = guest_toHex small_peer"

lemma small_ids: "guest_toHex small_peer = small_id" "small_id \<noteq> []" "small_id \<noteq> nc_ownId small_nc" "length small_peer = PK_LEN" "small_peer \<noteq> nc_ownPk small_nc"
  by (simp_all only: small_id_def) code_simp+

text \<open>The link, once it is up.\<close>

definition small_link :: Peerlink where
  "small_link = accepted\<lparr>rl_peerId := small_id, rl_peerPubkey := small_peer, rl_authed := True\<rparr>"

definition small2 :: Net where
  "small2 = new_Net\<lparr>nt_opened := [1], nt_links := (nt_links new_Net)(1 := small_link),
     nt_pools := (\<lambda>_. None)(small_id := Some \<lparr>pl_links = [1], pl_direct = 1, pl_held = [], pl_next = 0\<rparr>), nt_out := [CheckReady, StatusChanged]\<rparr>"

definition small_pending :: Pending where
  "small_pending = \<lparr>pd_to = small_id, pd_d = 0, pd_due = Some 10, pd_relayedBytes = 0, pd_held = None\<rparr>"

definition small3 :: Net where
  "small3 = small2\<lparr>nt_pools := (\<lambda>_. None)(small_id := Some \<lparr>pl_links = [1], pl_direct = 1, pl_held = [], pl_next = 1\<rparr>),
     nt_pending := [(1, small_pending)], nt_nextCorr := 2, nt_defers := 1, nt_out := [CheckReady, StatusChanged, Sent 1 (buildReq 1 False [9] [7, 7])]\<rparr>"

definition small4 :: Net where
  "small4 = small3\<lparr>nt_deliveries := [Delivery small_id (requestWeight small_nc 1 1) 5 False 1], nt_delivering := [(small_id, requestWeight small_nc 1 1)],
     nt_deliveringWeight := requestWeight small_nc 1 1, nt_out := nt_out small3 @ [Deliver [9] small_peer [8]]\<rparr>"

definition small5 :: Net where
  "small5 = small4\<lparr>nt_pending := [], nt_out := nt_out small4 @ [Resolve 0 [1, 42]]\<rparr>"

lemma small_conf: "nc_maxFrameBytes small_nc = 100" "nc_requestTimeoutMs small_nc = 10" "callWeight small_nc = 10000"
    "maxRequestWeight small_nc = 10132" "deliveryWindow small_nc = 979736" "requestWeight small_nc 1 1 = 10035"
  by (simp_all add: small_nc_def callWeight_def maxRequestWeight_def deliveryWindow_def requestWeight_def PK_LEN_def)

lemma fun_upd_const: "(\<lambda>_. x)(a := x) = (\<lambda>_. x)"
  by (rule ext) simp

lemma small_authenticates: "becomes_authed small_nc steady True 1 small_peer (openLink 1 accepted new_Net) = small2"
  by (simp add: becomes_authed_def small_ids Let_def openLink_def accepted_def new_Net_def set_link_def core_onAuth_def core_drop_def promote_def join_def
    set_pool_def say_def list_link_def pumpRelayed_def retireRelayed_def small2_def small_link_def fun_upd_const)

lemma small_sends: "op_send small_nc (forget small_nc steady) steady 0 False small_peer [9] [7, 7] small2 = Inr small3"
  by (simp add: op_send_def small_ids small_conf request_def Let_def small2_def small3_def new_Net_def set_pending_def put_def sendFrame_def core_place_def
    router_send_def relayedOnly_def ways_def peerlink_send_def set_pool_def say_def small_link_def accepted_def buildReq_def argU32_def guest_writeU32BE_def
    small_pending_def REQ_HEAD_LEN_def TAG_LEN_def)

lemma small3_states: "nt_links small3 1 = small_link" "nt_delivering small3 = []" "nt_deliveringWeight small3 = 0" "nt_deliveries small3 = []"
    "1 \<in> set (nt_opened small3)" "1 \<in> set (nt_opened small4)" "nt_links small4 1 = small_link" "nt_pending small4 = [(1, small_pending)]"
  by (simp_all add: small4_def small3_def small2_def new_Net_def)

lemma small_hears: "on_frame small_nc (forget small_nc steady) steady 1 [0, 0, 0, 0, 5, 1, 9, 8] small3 = small4"
proof -
  have w: "length ([0, 0, 0, 0, 5, 1, 9, 8] :: bytes) = 8" "([0, 0, 0, 0, 5, 1, 9, 8] :: bytes) ! 0 = 0" "([0, 0, 0, 0, 5, 1, 9, 8] :: bytes) ! 5 = 1"
    "readU32BE [0, 0, 0, 0, 5, 1, 9, 8] 1 = 5" by (simp_all, code_simp)
  show ?thesis
    unfolding on_frame_def reqres_onFrame_def Let_def small3_states REQ_PROTO_LEN_AT_def REQ_HEAD_LEN_def RES_HEAD_LEN_def
    by (simp add: w [unfolded One_nat_def] KIND_CTL_def KIND_RES_def FLAG_NO_REPLY_def reqres_admits_def held_weight_def small_conf [unfolded One_nat_def] small3_states [unfolded One_nat_def] reqres_hold_def say_def small4_def
      small_link_def accepted_def)
qed

lemma small_answered: "on_frame small_nc (forget small_nc steady) steady 1 [1, 0, 0, 0, 1, 42] small4 = small5"
proof -
  have w: "readU32BE [1, 0, 0, 0, 1, 42] 1 = 1" by code_simp
  show ?thesis
    unfolding on_frame_def reqres_onFrame_def Let_def small3_states RES_HEAD_LEN_def
    by (simp add: w [unfolded One_nat_def] KIND_CTL_def KIND_RES_def reqres_finish_def small3_states [unfolded One_nat_def] small_pending_def small_link_def say_def small5_def)
qed

lemma small_steps: "net_step small_nc 0 small3 small4" "net_step small_nc 0 small4 small5"
  using hears [of 1 small3 "[0, 0, 0, 0, 5, 1, 9, 8]" small_nc 0 steady] hears [of 1 small4 "[1, 0, 0, 0, 1, 42]" small_nc 0 steady]
  unfolding small_hears small_answered by (simp_all add: small3_states [unfolded One_nat_def] small_link_def accepted_def small_conf [unfolded One_nat_def] TAG_LEN_def)

lemma small_reach: "net_reach small_nc 0 small2" "net_reach small_nc 0 small3" "net_reach small_nc 0 small4" "net_reach small_nc 0 small5"
proof -
  have "net_reach small_nc 0 (openLink 1 accepted new_Net)" by (rule turns [OF begins opens]) (simp add: new_Net_def)
  then show r: "net_reach small_nc 0 small2"
    by (rule turns) (rule authenticates [of 1 "openLink 1 accepted new_Net" small_peer small_nc 0 steady True, unfolded small_authenticates],
      simp_all add: small_ids openLink_def accepted_def new_Net_def)
  show r3: "net_reach small_nc 0 small3" by (rule turns [OF r sends [OF small_sends]])
  show "net_reach small_nc 0 small4" by (rule turns [OF r3 small_steps(1)])
  then show "net_reach small_nc 0 small5" by (rule turns [OF _ small_steps(2)])
qed

end
