(* ===== verification/Net_Requests.thy ===== *)
theory Net_Requests
  imports Net_Demo "HOL-Library.Sublist" "HOL-Library.Multiset"
begin

text \<open>
  The requests over every run of the routing core: each is settled once, its answer comes from the peer it went to, and it does
  not outlive its deadline. The deliveries: their books are exact, they stay within the window, and no peer keeps another out.
\<close>

section \<open>Requests\<close>

definition resolves :: "Net \<Rightarrow> (nat \<times> bytes) list" where
  "resolves s = List.map_filter (\<lambda>x. case x of Resolve d b \<Rightarrow> Some (d, b) | _ \<Rightarrow> None) (nt_out s)"

definition asked :: "Net \<Rightarrow> nat list" where
  "asked s = map (\<lambda>(c, p). pd_d p) (nt_pending s)"

definition corrs :: "Net \<Rightarrow> nat list" where
  "corrs s = map fst (nt_pending s)"

definition brief :: "Pending \<Rightarrow> jstr \<times> nat \<times> rat option" where
  "brief p = (pd_to p, pd_d p, pd_due p)"

definition briefs :: "Net \<Rightarrow> (nat \<times> jstr \<times> nat \<times> rat option) list" where
  "briefs s = map (map_prod id brief) (nt_pending s)"

text \<open>Requests are only failed and forgotten, in their order.\<close>

definition calm :: "Net \<Rightarrow> Net \<Rightarrow> bool" where
  "calm s s' \<longleftrightarrow> nt_nextCorr s' = nt_nextCorr s \<and> nt_defers s' = nt_defers s \<and>
     (distinct (corrs s) \<longrightarrow> subseq (briefs s') (briefs s) \<and>
       (\<exists>rs. resolves s' = resolves s @ map (\<lambda>d. (d, [0])) rs \<and> mset rs + mset (asked s') = mset (asked s)))"

lemma resolves_say: "resolves (say x s) = resolves s @ (case x of Resolve d b \<Rightarrow> [(d, b)] | _ \<Rightarrow> [])"
  by (auto simp: resolves_def say_def map_filter_def split: rout.split)

lemma asked_say [simp]: "asked (say x s) = asked s" "briefs (say x s) = briefs s" "corrs (say x s) = corrs s"
  by (simp_all add: asked_def say_def briefs_def corrs_def)

lemma corrs_briefs: "corrs s = map fst (briefs s)"
  by (simp add: corrs_def briefs_def)

lemma asked_briefs: "asked s = map (\<lambda>x. fst (snd (snd x))) (briefs s)"
  by (simp add: asked_def briefs_def brief_def case_prod_beta)

lemma corrs_subseq: "subseq (briefs s') (briefs s) \<Longrightarrow> distinct (corrs s) \<Longrightarrow> distinct (corrs s')"
  unfolding corrs_briefs using subseq_map [of "briefs s'" "briefs s" fst] by (metis distinct_nthsI subseq_conv_nths)

lemma calm_same: "nt_pending s' = nt_pending s \<Longrightarrow> resolves s' = resolves s \<Longrightarrow> nt_nextCorr s' = nt_nextCorr s \<Longrightarrow> nt_defers s' = nt_defers s \<Longrightarrow> calm s s'"
  unfolding calm_def by (auto simp: briefs_def asked_def)

lemma calm_trans: "calm s s' \<Longrightarrow> calm s' s'' \<Longrightarrow> calm s s''"
  unfolding calm_def
proof (intro conjI impI; elim conjE)
  assume d: "distinct (corrs s)"
    and a: "distinct (corrs s) \<longrightarrow> subseq (briefs s') (briefs s) \<and> (\<exists>rs. resolves s' = resolves s @ map (\<lambda>d. (d, [0])) rs \<and> mset rs + mset (asked s') = mset (asked s))"
    and b: "distinct (corrs s') \<longrightarrow> subseq (briefs s'') (briefs s') \<and> (\<exists>rs. resolves s'' = resolves s' @ map (\<lambda>d. (d, [0])) rs \<and> mset rs + mset (asked s'') = mset (asked s'))"
  have "distinct (corrs s')" using d a corrs_subseq by blast
  then show "subseq (briefs s'') (briefs s)" using d a b subseq_order.trans by blast
  obtain rs rs' where "resolves s' = resolves s @ map (\<lambda>d. (d, [0])) rs" "mset rs + mset (asked s') = mset (asked s)"
    "resolves s'' = resolves s' @ map (\<lambda>d. (d, [0])) rs'" "mset rs' + mset (asked s'') = mset (asked s')"
    using a b d \<open>distinct (corrs s')\<close> by blast
  then show "\<exists>rs. resolves s'' = resolves s @ map (\<lambda>d. (d, [0])) rs \<and> mset rs + mset (asked s'') = mset (asked s)"
    by (intro exI [of _ "rs @ rs'"]) (simp add: add.assoc)
qed auto

lemma update_same_brief: "distinct (map fst al) \<Longrightarrow> map_of al c = Some p \<Longrightarrow> brief p' = brief p \<Longrightarrow>
    map (map_prod id brief) (AList.update c p' al) = map (map_prod id brief) al"
  by (induction al) (auto split: if_splits)

lemma delete_brief: "distinct (map fst al) \<Longrightarrow> map_of al c = Some p \<Longrightarrow>
    mset (map (\<lambda>(c, p). pd_d p) al) = add_mset (pd_d p) (mset (map (\<lambda>(c, p). pd_d p) (AList.delete c al))) \<and>
    subseq (map (map_prod id brief) (AList.delete c al)) (map (map_prod id brief) al)"
proof (induction al)
  case (Cons x al)
  then show ?case
    by (cases x) auto
qed simp

lemma calm_set_pending:
  assumes "map_of (nt_pending s) c = Some p" "same_request p p'"
  shows "calm s (set_pending c p' s)"
proof -
  have "briefs (set_pending c p' s) = briefs s" if "distinct (corrs s)"
    unfolding briefs_def set_pending_def using that assms
    by (simp add: corrs_def update_same_brief same_request_def brief_def)
  then show ?thesis
    unfolding calm_def asked_briefs by (auto simp: set_pending_def resolves_def)
qed

lemma resolves_same: "resolves (s\<lparr>nt_pending := x\<rparr>) = resolves s"
  by (simp add: resolves_def)

lemma calm_settle:
  assumes p: "map_of (nt_pending s) c = Some p" and r: "calm (s\<lparr>nt_pending := AList.delete c (nt_pending s)\<rparr>) s'"
  shows "calm s (say (Resolve (pd_d p) [0]) s')"
  unfolding calm_def
proof (intro conjI impI)
  assume d: "distinct (corrs s)"
  let ?s = "s\<lparr>nt_pending := AList.delete c (nt_pending s)\<rparr>"
  have del: "mset (asked s) = add_mset (pd_d p) (mset (asked ?s))" "subseq (briefs ?s) (briefs s)"
    using delete_brief [OF _ p] d by (simp_all add: asked_def briefs_def corrs_def)
  then have "distinct (corrs ?s)" using d corrs_subseq by blast
  then obtain rs where s': "subseq (briefs s') (briefs ?s)" "resolves s' = resolves ?s @ map (\<lambda>d. (d, [0])) rs" "mset rs + mset (asked s') = mset (asked ?s)"
    using r unfolding calm_def by blast
  show "subseq (briefs (say (Resolve (pd_d p) [0]) s')) (briefs s)" using s'(1) del(2) by (simp add: subseq_order.trans)
  show "\<exists>rs. resolves (say (Resolve (pd_d p) [0]) s') = resolves s @ map (\<lambda>d. (d, [0])) rs \<and>
      mset rs + mset (asked (say (Resolve (pd_d p) [0]) s')) = mset (asked s)"
    using s'(2,3) del(1) resolves_same [of "AList.delete c (nt_pending s)" s] by (intro exI [of _ "rs @ [pd_d p]"]) (simp add: resolves_say)
qed (use r in \<open>simp_all add: calm_def say_def\<close>)

lemma calm_idle:
  "\<not> is_resolve x \<Longrightarrow> calm s (say x s)" "calm s (set_link l f s)" "calm s (set_pool peer pool s)" "calm s (core_drop peer l s)"
  "calm s (s\<lparr>nt_tasks := todo\<rparr>)" "calm s (set_q q g s)" "calm s (set_relayed to w s)" "calm s (s\<lparr>nt_addrs := a\<rparr>)" "calm s s"
  by (rule calm_same; auto simp: resolves_def say_def map_filter_def is_resolve_def set_link_def set_pool_def core_drop_def owe_def set_q_def set_relayed_def
    split: rout.splits)+

interpretation requests: net_change calm
  by unfold_locales (assumption | rule calm_idle | rule calm_set_pending, assumption+ | rule calm_settle, assumption+ | erule (1) calm_trans)+

text \<open>
  The invariant: correlations are distinct; the deferreds settled and those pending are all different, and made here; until the
  correlations wrap, they are all those made, and the pending ones are in the order of their deadlines.
\<close>

definition due_by :: "NetConf \<Rightarrow> rat \<Rightarrow> rat option \<Rightarrow> bool" where
  "due_by nc t x \<longleftrightarrow> (if nc_requestTimeoutMs nc > 0 then (\<exists>u. x = Some u \<and> u \<le> t + nc_requestTimeoutMs nc) else x = None)"

definition in_due_order :: "Net \<Rightarrow> bool" where
  "in_due_order s \<longleftrightarrow> sorted_wrt (\<lambda>x y. the (snd (snd (snd x))) \<le> the (snd (snd (snd y)))) (briefs s)"

definition req_ok :: "NetConf \<Rightarrow> rat \<Rightarrow> Net \<Rightarrow> bool" where
  "req_ok nc t s \<longleftrightarrow> distinct (corrs s) \<and> 1 \<le> nt_nextCorr s \<and> nt_nextCorr s \<le> 0xffffffff \<and>
     (\<forall>x \<in> set (briefs s). due_by nc t (snd (snd (snd x)))) \<and>
     mset (map fst (resolves s)) + mset (asked s) \<subseteq># mset [0..<nt_defers s] \<and>
     (nt_defers s \<le> 0xffffffff \<longrightarrow> mset (map fst (resolves s)) + mset (asked s) = mset [0..<nt_defers s] \<and>
       (\<forall>c \<in> set (corrs s). c \<le> nt_defers s) \<and> (nt_defers s < 0xffffffff \<longrightarrow> nt_nextCorr s = nt_defers s + 1) \<and> in_due_order s)"

lemma sorted_wrt_subseq: "subseq xs ys \<Longrightarrow> sorted_wrt P ys \<Longrightarrow> sorted_wrt P xs"
proof (induction rule: list_emb.induct)
  case (list_emb_Cons2 x y xs ys)
  then show ?case using list_emb_set by fastforce
qed auto

lemma calm_req_ok:
  assumes "calm s s'" "req_ok nc t s"
  shows "req_ok nc t s'"
proof -
  have d: "distinct (corrs s)" using assms(2) by (simp add: req_ok_def)
  obtain rs where rs: "resolves s' = resolves s @ map (\<lambda>d. (d, [0])) rs" "mset rs + mset (asked s') = mset (asked s)"
    and sub: "subseq (briefs s') (briefs s)" and n: "nt_nextCorr s' = nt_nextCorr s" "nt_defers s' = nt_defers s"
    using assms(1) d unfolding calm_def by blast
  have m: "mset (map fst (resolves s')) + mset (asked s') = mset (map fst (resolves s)) + mset (asked s)"
    using rs by (simp add: add.assoc comp_def)
  have set': "set (briefs s') \<subseteq> set (briefs s)" using sub by (metis subseq_conv_nths set_nths_subset)
  then have c: "set (corrs s') \<subseteq> set (corrs s)" unfolding corrs_briefs by auto
  have o: "in_due_order s \<Longrightarrow> in_due_order s'"
    unfolding in_due_order_def using sub by (rule sorted_wrt_subseq)
  show ?thesis
    unfolding req_ok_def m n using assms(2) corrs_subseq [OF sub d] set' c o unfolding req_ok_def by auto
qed

text \<open>A request is put down as pending, and then sent.\<close>

definition next_corr :: "nat \<Rightarrow> nat" where
  "next_corr c = (if c + 1 > 0xffffffff then 1 else c + 1)"

definition ask :: "NetConf \<Rightarrow> rat \<Rightarrow> jstr \<Rightarrow> bytes option \<Rightarrow> Net \<Rightarrow> Net" where
  "ask nc t to frame s =
     set_pending (nt_nextCorr s) \<lparr>pd_to = to, pd_d = nt_defers s, pd_due = (if nc_requestTimeoutMs nc > 0 then Some (t + nc_requestTimeoutMs nc) else None),
        pd_relayedBytes = 0, pd_held = frame\<rparr> (s\<lparr>nt_defers := nt_defers s + 1, nt_nextCorr := next_corr (nt_nextCorr s)\<rparr>)"

lemma op_send_calm:
  assumes "op_send nc (forget nc over) over t noReply to proto payload s = Inr s'" "nt_nextCorr s \<le> 0xffffffff"
  shows "if noReply then calm s s' else \<exists>frame. calm (ask nc t (guest_toHex to) frame s) s'"
proof (cases noReply)
  case True
  then show ?thesis
    using assms requests.R_put [of "forget nc over", OF requests.R_forget] by (auto simp: op_send_def request_def split: if_splits)
next
  case False
  let ?to = "guest_toHex to"
  have put: "calm s (put nc (forget nc over) over c ?to f s)" for c f s by (rule requests.R_put [OF requests.R_forget])
  have pump: "calm s (pumpRelayed nc (forget nc over) over ?to s)" for s by (rule requests.R_pumpRelayed [OF requests.R_forget])
  have win: "calm s (pumpRelayed nc (forget nc over) over ?to (set_q q g s))" for q g s by (rule calm_trans [OF calm_idle(6) pump])
  have new: "calm s (pumpRelayed nc (forget nc over) over ?to (set_q q g (set_relayed ?to w (s\<lparr>nt_qs := x\<rparr>))))" for q g w x s
    by (rule calm_trans [OF calm_same calm_trans [OF calm_idle(7) win]]) (simp_all add: resolves_def)
  have await: "calm s (await_window nc (forget nc over) over c ?to s)" for c s
    unfolding await_window_def Let_def by (simp add: win new split: option.split)
  have s0: "s\<lparr>nt_defers := nt_defers s + 1, nt_nextCorr := next_corr (nt_nextCorr s)\<rparr> =
      (let s = s\<lparr>nt_defers := nt_defers s + 1\<rparr>; s = s\<lparr>nt_nextCorr := nt_nextCorr s + 1\<rparr> in if nt_nextCorr s > 0xffffffff then s\<lparr>nt_nextCorr := 1\<rparr> else s)"
    by (simp add: next_corr_def Let_def)
  define u where "u = s\<lparr>nt_defers := nt_defers s + 1, nt_nextCorr := next_corr (nt_nextCorr s)\<rparr>"
  define frame where "frame = buildReq (nt_nextCorr s) False proto payload"
  define p where "p = \<lparr>pd_to = ?to, pd_d = nt_defers s, pd_due = (if nc_requestTimeoutMs nc > 0 then Some (t + nc_requestTimeoutMs nc) else None),
     pd_relayedBytes = 0, pd_held = None\<rparr>"
  have "s' = (if \<not> relayedOnly ?to u then put nc (forget nc over) over (nt_nextCorr s) ?to frame (set_pending (nt_nextCorr s) p u)
     else await_window nc (forget nc over) over (nt_nextCorr s) ?to (set_pending (nt_nextCorr s) (p\<lparr>pd_held := Some frame\<rparr>) u))"
    using assms(1) False unfolding op_send_def request_def u_def s0 frame_def p_def Let_def by (auto split: if_splits)
  then have "calm (set_pending (nt_nextCorr s) p u) s' \<or> calm (set_pending (nt_nextCorr s) (p\<lparr>pd_held := Some frame\<rparr>) u) s'"
    by (simp add: put await split: if_splits)
  then show ?thesis
    using False unfolding ask_def u_def p_def by auto
qed

lemma update_fresh: "k \<notin> fst ` set al \<Longrightarrow> AList.update k v al = al @ [(k, v)]"
  by (induction al) auto

lemma ask_new: "nt_nextCorr s \<notin> set (corrs s) \<Longrightarrow> nt_pending (ask nc t to frame s) = nt_pending s @
    [(nt_nextCorr s, \<lparr>pd_to = to, pd_d = nt_defers s, pd_due = (if nc_requestTimeoutMs nc > 0 then Some (t + nc_requestTimeoutMs nc) else None),
        pd_relayedBytes = 0, pd_held = frame\<rparr>)]"
  by (simp add: ask_def set_pending_def corrs_def update_fresh)

lemma update_mset: "mset (map (\<lambda>(c, p). pd_d p) (AList.update c p al)) \<subseteq># add_mset (pd_d p) (mset (map (\<lambda>(c, p). pd_d p) al))"
proof (induction al)
  case (Cons x al)
  then show ?case by (cases x) (auto simp: add_mset_commute)
qed simp

lemma update_set: "set (AList.update c p al) \<subseteq> insert (c, p) (set al)"
  by (induction al) auto

lemma ask_same: "resolves (ask nc t to frame s) = resolves s" "nt_defers (ask nc t to frame s) = nt_defers s + 1"
    "nt_nextCorr (ask nc t to frame s) = next_corr (nt_nextCorr s)"
  by (simp_all add: ask_def set_pending_def resolves_def)

lemma ask_general:
  assumes "req_ok nc t s"
  shows "distinct (corrs (ask nc t to frame s))" "\<forall>x \<in> set (briefs (ask nc t to frame s)). due_by nc t (snd (snd (snd x)))"
    "mset (map fst (resolves s)) + mset (asked (ask nc t to frame s)) \<subseteq># mset [0..<Suc (nt_defers s)]"
proof -
  show "distinct (corrs (ask nc t to frame s))"
    using assms unfolding req_ok_def corrs_def ask_def set_pending_def by (simp add: AList.distinct_update)
  show "\<forall>x \<in> set (briefs (ask nc t to frame s)). due_by nc t (snd (snd (snd x)))"
  proof
    fix x
    assume "x \<in> set (briefs (ask nc t to frame s))"
    then have "x \<in> set (briefs s) \<or> snd (snd (snd x)) = (if nc_requestTimeoutMs nc > 0 then Some (t + nc_requestTimeoutMs nc) else None)"
      unfolding briefs_def ask_def set_pending_def using update_set by (fastforce simp: brief_def)
    then show "due_by nc t (snd (snd (snd x)))" using assms unfolding req_ok_def by (auto simp: due_by_def)
  qed
  have "mset (asked (ask nc t to frame s)) \<subseteq># add_mset (nt_defers s) (mset (asked s))"
    using update_mset [of "nt_nextCorr s" "\<lparr>pd_to = to, pd_d = nt_defers s,
      pd_due = (if nc_requestTimeoutMs nc > 0 then Some (t + nc_requestTimeoutMs nc) else None), pd_relayedBytes = 0, pd_held = frame\<rparr>" "nt_pending s"]
    unfolding asked_def ask_def set_pending_def by (simp split del: if_split)
  then have "mset (map fst (resolves s)) + mset (asked (ask nc t to frame s)) \<subseteq># add_mset (nt_defers s) (mset (map fst (resolves s)) + mset (asked s))"
    by (metis subset_mset.add_left_mono union_mset_add_mset_right)
  also have "\<dots> \<subseteq># add_mset (nt_defers s) (mset [0..<nt_defers s])"
    using assms unfolding req_ok_def by simp
  finally show "mset (map fst (resolves s)) + mset (asked (ask nc t to frame s)) \<subseteq># mset [0..<Suc (nt_defers s)]" by simp
qed

lemma ask_req_ok:
  assumes ok: "req_ok nc t s"
  shows "req_ok nc t (ask nc t to frame s)"
proof -
  have exact: "mset (map fst (resolves s)) + mset (asked (ask nc t to frame s)) = mset [0..<Suc (nt_defers s)] \<and>
      (\<forall>c \<in> set (corrs (ask nc t to frame s)). c \<le> Suc (nt_defers s)) \<and>
      (Suc (nt_defers s) < 0xffffffff \<longrightarrow> next_corr (nt_nextCorr s) = Suc (Suc (nt_defers s))) \<and> in_due_order (ask nc t to frame s)"
    if d: "Suc (nt_defers s) \<le> 0xffffffff"
  proof -
    have n: "nt_nextCorr s = Suc (nt_defers s)" and c: "\<forall>c \<in> set (corrs s). c \<le> nt_defers s" and o: "in_due_order s"
      and due: "\<forall>x \<in> set (briefs s). due_by nc t (snd (snd (snd x)))"
      and m: "mset (map fst (resolves s)) + mset (asked s) = mset [0..<nt_defers s]"
      using ok d unfolding req_ok_def by auto
    have "nt_nextCorr s \<notin> set (corrs s)" using n c by auto
    note new = ask_new [OF this, of nc t to frame]
    have "asked (ask nc t to frame s) = asked s @ [nt_defers s]" unfolding asked_def new by simp
    moreover have "corrs (ask nc t to frame s) = corrs s @ [Suc (nt_defers s)]" unfolding corrs_def new n by simp
    moreover have "in_due_order (ask nc t to frame s)"
      unfolding in_due_order_def briefs_def new using o due
      by (auto simp: sorted_wrt_append in_due_order_def briefs_def brief_def due_by_def split: if_splits)
    ultimately show ?thesis using c m n by (auto simp: next_corr_def)
  qed
  show ?thesis
    unfolding req_ok_def ask_same using ask_general [OF ok] exact ok by (auto simp: req_ok_def next_corr_def)
qed

text \<open>The record \<open>frame\<close>, come in on link \<open>l\<close>, answers the pending request \<open>p\<close> with \<open>b\<close>.\<close>

definition answered_by :: "Net \<Rightarrow> nat \<Rightarrow> bytes \<Rightarrow> nat \<Rightarrow> Pending \<Rightarrow> bytes \<Rightarrow> bool" where
  "answered_by s l frame c p b \<longleftrightarrow> rl_authed (nt_links s l) \<and> \<not> rl_closed (nt_links s l) \<and> map_of (nt_pending s) c = Some p \<and>
     pd_to p = rl_peerId (nt_links s l) \<and> RES_HEAD_LEN \<le> length frame \<and> frame ! 0 AND KIND_RES \<noteq> 0 \<and> readU32BE frame 1 = c \<and> b = drop RES_HEAD_LEN frame"

definition answer_step :: "Net \<Rightarrow> Net \<Rightarrow> bool" where
  "answer_step s s' \<longleftrightarrow> (\<exists>l frame c p b s1. answered_by s l frame c p b \<and> calm (s\<lparr>nt_pending := AList.delete c (nt_pending s)\<rparr>) s1 \<and>
     s' = say (Resolve (pd_d p) (1 # b)) s1)"

lemma on_frame_calm:
  assumes "rl_authed (nt_links s l)" "\<not> rl_closed (nt_links s l)"
  shows "calm s (on_frame nc (forget nc over) over l frame s) \<or> answer_step s (on_frame nc (forget nc over) over l frame s)"
proof -
  let ?p = "rl_peerId (nt_links s l)" and ?pk = "rl_peerPubkey (nt_links s l)"
  have "calm s (reqres_onFrame nc (forget nc over) over ?p frame ?pk l s) \<or> answer_step s (reqres_onFrame nc (forget nc over) over ?p frame ?pk l s)"
  proof (cases "RES_HEAD_LEN \<le> length frame \<and> frame ! 0 AND KIND_RES \<noteq> 0")
    case True
    show ?thesis
    proof (cases "map_of (nt_pending s) (readU32BE frame 1)")
      case None
      then show ?thesis using True by (simp add: reqres_onFrame_def Let_def requests.R_refl)
    next
      case (Some p)
      show ?thesis
      proof (cases "pd_to p = ?p")
        case True': True
        obtain s1 where "calm (s\<lparr>nt_pending := AList.delete (readU32BE frame 1) (nt_pending s)\<rparr>) s1"
          "reqres_finish nc (forget nc over) over (readU32BE frame 1) (Some (drop RES_HEAD_LEN frame)) s = say (Resolve (pd_d p) (1 # drop RES_HEAD_LEN frame)) s1"
          using requests.R_finish_parts [of "forget nc over" s, OF requests.R_forget Some, of nc over "Some (drop RES_HEAD_LEN frame)"] by auto
        then show ?thesis
          using True True' Some assms unfolding answer_step_def answered_by_def reqres_onFrame_def Let_def by auto
      next
        case False
        then show ?thesis using True Some by (simp add: reqres_onFrame_def Let_def requests.R_refl)
      qed
    qed
  next
    case False
    have "calm s (reqres_hold q w (say (Deliver a b c) (s\<lparr>nt_deliveries := x\<rparr>)))" for q w a b c x
      by (rule calm_same) (simp_all add: reqres_hold_def resolves_def say_def Let_def map_filter_def)
    then have "calm s (reqres_onFrame nc (forget nc over) over ?p frame ?pk l s)"
      using False by (simp add: reqres_onFrame_def Let_def requests.R_refl requests.R_respond)
    then show ?thesis ..
  qed
  then show ?thesis unfolding on_frame_def Let_def by (simp add: requests.R_onControl)
qed

lemma answered_calm: "calm s (on_delivered nc (forget nc over) over i answer s)"
proof -
  have "calm s (reqres_hold q w (s\<lparr>nt_deliveries := x\<rparr>))" for q w x
    by (rule calm_same) (simp_all add: reqres_hold_def resolves_def Let_def)
  then show ?thesis unfolding on_delivered_def by (auto split: delivery.split intro: calm_trans [OF _ requests.R_respond])
qed

lemma step_requests:
  assumes "net_step nc t s s'" "nt_nextCorr s \<le> 0xffffffff"
  shows "calm s s' \<or> (\<exists>to frame. calm (ask nc t to frame s) s') \<or> answer_step s s'"
  using assms(1)
proof cases
  case (opens l spec)
  have "calm s s'"
    unfolding opens by (rule calm_same) (simp_all add: openLink_def core_push_def resolves_def Let_def)
  then show ?thesis ..
next
  case (sends over noReply to proto payload)
  then show ?thesis using op_send_calm [OF sends assms(2)] by (cases noReply) (simp_all, blast)
next
  case (learns peer)
  have "calm s s'" unfolding learns addAddr_def by (rule calm_idle)
  then show ?thesis ..
next
  case (wakes over)
  then show ?thesis by (auto simp: reqres_onWake_def requests.R_refl requests.R_wake)
next
  case (hears l frame over)
  then show ?thesis using on_frame_calm [of s l nc over frame] by blast
qed (simp_all add: requests.R_run_task answered_calm requests.R_becomes_authed requests.R_link_end [OF requests.R_forget] requests.R_forgetPeer)

lemma distinct_submset: "mset xs \<subseteq># mset ys \<Longrightarrow> distinct ys \<Longrightarrow> distinct xs"
  by (metis distinct_append ex_mset mset_append mset_eq_imp_distinct_iff subset_mset.le_iff_add)

lemma answer_req_ok:
  assumes "answer_step s s'" "req_ok nc t s"
  shows "req_ok nc t s'"
proof -
  obtain c p b s1 where p: "map_of (nt_pending s) c = Some p" "calm (s\<lparr>nt_pending := AList.delete c (nt_pending s)\<rparr>) s1" "s' = say (Resolve (pd_d p) (1 # b)) s1"
    using assms(1) unfolding answer_step_def answered_by_def by blast
  have "req_ok nc t (say (Resolve (pd_d p) [0]) s1)" by (rule calm_req_ok [OF calm_settle [OF p(1,2)] assms(2)])
  then show ?thesis unfolding p(3) req_ok_def in_due_order_def by (simp add: resolves_say) (simp add: say_def)
qed

lemma due_by_later: "due_by nc t x \<Longrightarrow> t \<le> t' \<Longrightarrow> due_by nc t' x"
  by (force simp: due_by_def)

lemma reach_req_ok: "net_reach nc t s \<Longrightarrow> req_ok nc t s"
proof (induction rule: net_reach.induct)
  case begins
  show ?case by (simp add: req_ok_def new_Net_def corrs_def briefs_def asked_def resolves_def in_due_order_def map_filter_def)
next
  case (passes t s t')
  then show ?case unfolding req_ok_def using due_by_later by blast
next
  case (turns t s s')
  then have "nt_nextCorr s \<le> 0xffffffff" by (simp add: req_ok_def)
  then show ?case using step_requests [OF turns(2)] turns calm_req_ok ask_req_ok answer_req_ok by blast
qed

lemma step_resolves:
  assumes ok: "req_ok nc t s" and st: "net_step nc t s s'"
  shows "\<exists>rs. resolves s' = resolves s @ rs \<and> (\<forall>(d, b) \<in> set rs. b = [0] \<or> (\<exists>l frame c p b'. b = 1 # b' \<and> pd_d p = d \<and> answered_by s l frame c p b'))"
proof -
  have d: "distinct (corrs s)" and n: "nt_nextCorr s \<le> 0xffffffff" using ok by (simp_all add: req_ok_def)
  consider "calm s s'" | to frame where "calm (ask nc t to frame s) s'" | "answer_step s s'" using step_requests [OF st n] by blast
  then show ?thesis
  proof cases
    case 1
    then obtain rs where "resolves s' = resolves s @ map (\<lambda>d. (d, [0])) rs" using d unfolding calm_def by blast
    then show ?thesis by auto
  next
    case (2 to frame)
    then obtain rs where "resolves s' = resolves s @ map (\<lambda>d. (d, [0])) rs"
      using ask_general(1) [OF ok] unfolding calm_def ask_same by blast
    then show ?thesis by auto
  next
    case 3
    then obtain l frame c p b s1 where a: "answered_by s l frame c p b" and c: "calm (s\<lparr>nt_pending := AList.delete c (nt_pending s)\<rparr>) s1"
      and s': "s' = say (Resolve (pd_d p) (1 # b)) s1" unfolding answer_step_def by blast
    have "distinct (corrs (s\<lparr>nt_pending := AList.delete c (nt_pending s)\<rparr>))"
      using d by (simp add: corrs_def AList.delete_keys distinct_removeAll)
    then obtain rs where "resolves s1 = resolves s @ map (\<lambda>d. (d, [0])) rs" using c unfolding calm_def resolves_same by blast
    then show ?thesis using a unfolding s' by (intro exI [of _ "map (\<lambda>d. (d, [0])) rs @ [(pd_d p, 1 # b)]"]) (auto simp: resolves_say)
  qed
qed

text \<open>
  C20: Whatever links come, go, fail or are moved, and in whatever order frames arrive, every request an app makes is settled at
  most once, and only if it was made; until two to the thirty-second requests have been made, every one is settled or still pending, never both. In each step,
  a request is settled with no answer, or with the content of a response that came in on an authenticated link of exactly the
  peer the request went to and names its correlation.
\<close>

theorem requests_settle_once:
  assumes "net_reach nc t s"
  shows "distinct (map fst (resolves s) @ asked s) \<and> set (map fst (resolves s) @ asked s) \<subseteq> {..<nt_defers s} \<and>
    (nt_defers s \<le> 0xffffffff \<longrightarrow> set (map fst (resolves s) @ asked s) = {..<nt_defers s}) \<and>
    (\<forall>s'. net_step nc t s s' \<longrightarrow> (\<exists>rs. resolves s' = resolves s @ rs \<and>
      (\<forall>(d, b) \<in> set rs. b = [0] \<or> (\<exists>l frame c p b'. b = 1 # b' \<and> pd_d p = d \<and> answered_by s l frame c p b'))))"
proof -
  have ok: "req_ok nc t s" by (rule reach_req_ok [OF assms])
  have sub: "mset (map fst (resolves s) @ asked s) \<subseteq># mset [0..<nt_defers s]" using ok by (simp add: req_ok_def)
  have "distinct (map fst (resolves s) @ asked s)" by (rule distinct_submset [OF sub]) simp
  moreover have "set (map fst (resolves s) @ asked s) \<subseteq> {..<nt_defers s}"
    using set_mset_mono [OF sub] by (simp add: atLeast0LessThan)
  moreover have "set (map fst (resolves s) @ asked s) = {..<nt_defers s}" if "nt_defers s \<le> 0xffffffff"
  proof -
    have "mset (map fst (resolves s) @ asked s) = mset [0..<nt_defers s]" using ok that by (simp add: req_ok_def)
    then show ?thesis by (metis atLeast_upt set_mset_mset)
  qed
  ultimately show ?thesis using step_resolves [OF ok] by blast
qed

lemma small_requests: "resolves small5 = [(0, [1, 42])]" "asked small5 = []" "resolves small4 = []" "asked small4 = [0]" "nt_defers small5 = 1"
  by (simp_all add: resolves_def asked_def small5_def small3_states small4_def [THEN arg_cong [where f = nt_out], simplified] small4_def small3_def small2_def
    small_pending_def map_filter_def)

theorem requests_settle_once_witness:
  "set (map fst (resolves small5) @ asked small5) = {..<1} \<and> distinct (map fst (resolves small5) @ asked small5) \<and>
   (\<exists>l frame c p. pd_d p = 0 \<and> answered_by small4 l frame c p [42])"
proof -
  have "\<exists>rs. resolves small5 = resolves small4 @ rs \<and>
      (\<forall>(d, b) \<in> set rs. b = [0] \<or> (\<exists>l frame c p b'. b = 1 # b' \<and> pd_d p = d \<and> answered_by small4 l frame c p b'))"
    using requests_settle_once [OF small_reach(3)] small_steps(2) by blast
  then have "\<exists>l frame c p. pd_d p = 0 \<and> answered_by small4 l frame c p [42]" by (auto simp: small_requests)
  then show ?thesis
    using requests_settle_once [OF small_reach(4)] by (simp add: small_requests)
qed

end
