(* ===== verification/Net_Window.thy ===== *)
theory Net_Window
  imports Net_Requests
begin

text \<open>
  Requests past their deadline, and the window of deliveries, over every run of the routing core.
\<close>

section \<open>Deadlines\<close>

lemma length_briefs: "length (briefs s) = length (nt_pending s)"
  by (simp add: briefs_def)

lemma finish_first:
  assumes d: "distinct (corrs s)" and p: "nt_pending s = (corr, p) # rest"
  shows "calm s (reqres_finish nc (forget nc over) over corr None s)"
    "length (nt_pending (reqres_finish nc (forget nc over) over corr None s)) < length (nt_pending s)"
proof -
  have m: "map_of (nt_pending s) corr = Some p" using p by simp
  show "calm s (reqres_finish nc (forget nc over) over corr None s)" by (rule requests.R_finish [OF requests.R_forget])
  let ?s = "s\<lparr>nt_pending := AList.delete corr (nt_pending s)\<rparr>"
  obtain s1 where s1: "calm ?s s1" "reqres_finish nc (forget nc over) over corr None s = say (Resolve (pd_d p) [0]) s1"
    using requests.R_finish_parts [of "forget nc over" s corr p nc over None, OF requests.R_forget m] by auto
  have "distinct (corrs ?s)" using d by (simp add: corrs_def AList.delete_keys distinct_removeAll)
  then have "subseq (briefs s1) (briefs ?s)" using s1(1) unfolding calm_def by blast
  then have "length (nt_pending s1) \<le> length (nt_pending ?s)" using list_emb_length length_briefs by metis
  also have "\<dots> < length (nt_pending s)" unfolding p by (simp add: AList.length_delete_le le_imp_less_Suc)
  finally show "length (nt_pending (reqres_finish nc (forget nc over) over corr None s)) < length (nt_pending s)"
    unfolding s1(2) by (simp add: say_def)
qed

lemma wake_loop_ends:
  assumes "req_ok nc t s" "nc_requestTimeoutMs nc > 0" "length (nt_pending s) \<le> n" "wake_loop nc (forget nc over) over t n s = (nx, s')"
  shows "calm s s' \<and> (case nx of None \<Rightarrow> nt_pending s' = [] | Some u \<Rightarrow> t < u \<and> (\<exists>c p rest. nt_pending s' = (c, p) # rest \<and> pd_due p = Some u))"
  using assms
proof (induction n arbitrary: s)
  case 0
  then show ?case by (auto simp: requests.R_refl)
next
  case (Suc n)
  show ?case
  proof (cases "nt_pending s")
    case Nil
    then show ?thesis using Suc.prems by (auto simp: requests.R_refl)
  next
    case (Cons x rest)
    obtain corr p where x: "nt_pending s = (corr, p) # rest" using Cons by (cases x) auto
    have d: "distinct (corrs s)" and "due_by nc t (pd_due p)"
      using Suc.prems(1) x unfolding req_ok_def by (auto simp: briefs_def brief_def)
    then obtain u where u: "pd_due p = Some u" using Suc.prems(2) by (auto simp: due_by_def)
    show ?thesis
    proof (cases "t < u")
      case True
      then have "nx = Some u" "s' = s" using Suc.prems(4) x u by simp_all
      then show ?thesis using x u True by (simp add: requests.R_refl)
    next
      case False
      let ?s = "reqres_finish nc (forget nc over) over corr None s"
      note f = finish_first [OF d x, of nc over]
      have "wake_loop nc (forget nc over) over t n ?s = (nx, s')" using Suc.prems(4) x u False by simp
      then show ?thesis
        using Suc.IH [of ?s] calm_req_ok [OF f(1) Suc.prems(1)] Suc.prems(2,3) f calm_trans by fastforce
    qed
  qed
qed

text \<open>
  C21: No request outlives its deadline. While fewer than two to the thirty-second requests have been made, a wake leaves no request pending whose
  deadline has come, has answered every one it took away, and returns the soonest deadline left, or never when nothing is pending.
\<close>

theorem requests_time_out:
  assumes r: "net_reach nc t s" and n: "nt_defers s \<le> 0xffffffff" and tm: "nc_requestTimeoutMs nc > 0"
    and w: "reqres_onWake nc (forget nc over) over t s = (nx, s')"
  shows "(\<forall>(c, p) \<in> set (nt_pending s'). \<exists>u due. pd_due p = Some due \<and> nx = Some u \<and> t < u \<and> u \<le> due) \<and>
    (nx = None \<longleftrightarrow> nt_pending s' = []) \<and> (\<forall>u. nx = Some u \<longrightarrow> (\<exists>(c, p) \<in> set (nt_pending s'). pd_due p = Some u)) \<and>
    (\<forall>(c, p) \<in> set (nt_pending s). pd_d p \<in> set (asked s') \<or> (pd_d p, [0]) \<in> set (resolves s'))"
proof (intro conjI)
  have ok: "req_ok nc t s" by (rule reach_req_ok [OF r])
  have c: "calm s s'" and e: "case nx of None \<Rightarrow> nt_pending s' = [] | Some u \<Rightarrow> t < u \<and> (\<exists>c p rest. nt_pending s' = (c, p) # rest \<and> pd_due p = Some u)"
    using wake_loop_ends [OF ok tm order_refl] w tm unfolding reqres_onWake_def by auto
  have ok': "req_ok nc t s'" by (rule calm_req_ok [OF c ok])
  have "nt_defers s' \<le> 0xffffffff" using c n by (simp add: calm_def)
  then have o: "in_due_order s'" using ok' by (simp add: req_ok_def)
  have due: "\<forall>(c, p) \<in> set (nt_pending s'). \<exists>due. pd_due p = Some due"
    using ok' tm unfolding req_ok_def due_by_def by (force simp: briefs_def brief_def)
  show "nx = None \<longleftrightarrow> nt_pending s' = []" using e by (auto split: option.splits)
  show "\<forall>u. nx = Some u \<longrightarrow> (\<exists>(c, p) \<in> set (nt_pending s'). pd_due p = Some u)" using e by (auto split: option.splits)
  show "\<forall>(c, p) \<in> set (nt_pending s'). \<exists>u due. pd_due p = Some due \<and> nx = Some u \<and> t < u \<and> u \<le> due"
  proof (cases nx)
    case None
    then show ?thesis using e by simp
  next
    case (Some u)
    then obtain c p rest where p: "nt_pending s' = (c, p) # rest" "pd_due p = Some u" "t < u" using e by auto
    have "\<forall>(c, q) \<in> set rest. u \<le> the (pd_due q)" using o p unfolding in_due_order_def briefs_def by (fastforce simp: brief_def)
    then show ?thesis using due p Some by fastforce
  qed
  obtain rs where rs: "resolves s' = resolves s @ map (\<lambda>d. (d, [0])) rs" "mset rs + mset (asked s') = mset (asked s)"
    using c ok unfolding calm_def req_ok_def by blast
  have "set (asked s) = set rs \<union> set (asked s')" using arg_cong [OF rs(2), of set_mset] by simp
  then show "\<forall>(c, p) \<in> set (nt_pending s). pd_d p \<in> set (asked s') \<or> (pd_d p, [0]) \<in> set (resolves s')"
    unfolding rs(1) by (force simp: asked_def)
qed

theorem requests_time_out_witness:
  "let (nx, s') = reqres_onWake small_nc (forget small_nc steady) steady 10 small3 in nx = None \<and> nt_pending s' = [] \<and> (0, [0]) \<in> set (resolves s')"
proof -
  obtain nx s' where w: "reqres_onWake small_nc (forget small_nc steady) steady 10 small3 = (nx, s')" by (cases "reqres_onWake small_nc (forget small_nc steady) steady 10 small3")
  have p: "nt_pending small3 = [(1, small_pending)]" "nt_defers small3 = 1" by (simp_all add: small3_def)
  have "nt_pending s' = []"
    using w by (auto simp: reqres_onWake_def small_conf p small_pending_def reqres_finish_def say_def)
  moreover have "net_reach small_nc 10 small3" by (rule passes [OF small_reach(2)]) simp
  note t = requests_time_out [OF this _ _ w]
  ultimately show ?thesis
    using t by (simp add: w p small_conf small_pending_def asked_def)
qed

section \<open>The window of deliveries\<close>

definition same_books :: "Net \<Rightarrow> Net \<Rightarrow> bool" where
  "same_books s s' \<longleftrightarrow> nt_delivering s' = nt_delivering s \<and> nt_deliveringWeight s' = nt_deliveringWeight s \<and> nt_deliveries s' = nt_deliveries s"

interpretation books: net_change same_books
  by unfold_locales
    (auto simp: same_books_def say_def set_link_def set_pool_def core_drop_def owe_def set_q_def set_relayed_def set_pending_def)

definition weighs :: "delivery \<Rightarrow> rat" where
  "weighs x = (case x of Delivery q w c n l \<Rightarrow> w)"

definition whose :: "delivery \<Rightarrow> jstr" where
  "whose x = (case x of Delivery q w c n l \<Rightarrow> q)"

definition weight_of :: "jstr \<Rightarrow> delivery list \<Rightarrow> rat" where
  "weight_of p ds = sum_list (map (\<lambda>x. if whose x = p then weighs x else 0) ds)"

definition win_ok :: "NetConf \<Rightarrow> Net \<Rightarrow> bool" where
  "win_ok nc s \<longleftrightarrow> distinct (map fst (nt_delivering s)) \<and>
     (\<forall>p. map_of (nt_delivering s) p = (if weight_of p (nt_deliveries s) > 0 then Some (weight_of p (nt_deliveries s)) else None)) \<and>
     nt_deliveringWeight s = sum_list (map weighs (nt_deliveries s)) \<and>
     (\<forall>x \<in> set (nt_deliveries s). 0 < weighs x) \<and>
     sum_list (map weighs (nt_deliveries s)) \<le> deliveryWindow nc \<and>
     (\<forall>p. weight_of p (nt_deliveries s) \<le> deliveryWindow nc - maxRequestWeight nc)"

lemma held_weight_exact: "win_ok nc s \<Longrightarrow> (\<forall>x \<in> set (nt_deliveries s). 0 < weighs x) \<Longrightarrow> held_weight p s = weight_of p (nt_deliveries s)"
proof -
  assume w: "win_ok nc s" and pos: "\<forall>x \<in> set (nt_deliveries s). 0 < weighs x"
  have "0 \<le> weight_of p (nt_deliveries s)"
    unfolding weight_of_def by (rule sum_list_nonneg) (use pos in \<open>auto intro: less_imp_le\<close>)
  moreover have "map_of (nt_delivering s) p = (if weight_of p (nt_deliveries s) > 0 then Some (weight_of p (nt_deliveries s)) else None)"
    using w by (simp add: win_ok_def)
  ultimately show ?thesis unfolding held_weight_def by auto
qed

lemma hold_books:
  assumes "win_ok nc s" "weight_of p ds = weight_of p (nt_deliveries s) + w" "\<forall>q. q \<noteq> p \<longrightarrow> weight_of q ds = weight_of q (nt_deliveries s)"
  shows "distinct (map fst (nt_delivering (reqres_hold p w (s\<lparr>nt_deliveries := ds\<rparr>))))"
    "map_of (nt_delivering (reqres_hold p w (s\<lparr>nt_deliveries := ds\<rparr>))) q = (if weight_of q ds > 0 then Some (weight_of q ds) else None)"
proof -
  have h: "held_weight p (s\<lparr>nt_deliveries := ds\<rparr>) = weight_of p (nt_deliveries s)"
    using held_weight_exact [OF assms(1), of p] assms(1) by (simp add: held_weight_def win_ok_def)
  show "distinct (map fst (nt_delivering (reqres_hold p w (s\<lparr>nt_deliveries := ds\<rparr>))))"
    using assms(1) unfolding reqres_hold_def Let_def win_ok_def by (simp add: AList.distinct_update AList.distinct_delete)
  show "map_of (nt_delivering (reqres_hold p w (s\<lparr>nt_deliveries := ds\<rparr>))) q = (if weight_of q ds > 0 then Some (weight_of q ds) else None)"
    using assms unfolding reqres_hold_def Let_def h win_ok_def by (auto simp: AList.update_conv' AList.delete_conv')
qed

lemma books_same: "same_books s s' \<Longrightarrow> win_ok nc s \<Longrightarrow> win_ok nc s'"
  unfolding same_books_def win_ok_def by simp

lemma admit_win_ok:
  assumes w: "win_ok nc s" and a: "reqres_admits nc p weight s" and l: "0 < weight" "weight \<le> maxRequestWeight nc" "2 * maxRequestWeight nc \<le> deliveryWindow nc"
    and x: "whose x = p" "weighs x = weight"
  shows "win_ok nc (reqres_hold p weight (s\<lparr>nt_deliveries := nt_deliveries s @ [x]\<rparr>))"
proof -
  let ?ds = "nt_deliveries s @ [x]"
  have ds: "weight_of q ?ds = weight_of q (nt_deliveries s) + (if q = p then weight else 0)" for q using x by (simp add: weight_of_def)
  have pos: "\<forall>y \<in> set (nt_deliveries s). 0 < weighs y" and tot: "nt_deliveringWeight s = sum_list (map weighs (nt_deliveries s))"
    using w by (simp_all add: win_ok_def)
  have m: "held_weight p s = weight_of p (nt_deliveries s)" by (rule held_weight_exact [OF w pos])
  have M: "0 < maxRequestWeight nc" using l by simp
  have total: "sum_list (map weighs (nt_deliveries s)) + weight \<le> deliveryWindow nc"
    using a M unfolding reqres_admits_def Let_def tot by (auto split: if_splits)
  have mine: "weight_of p (nt_deliveries s) + weight \<le> deliveryWindow nc - maxRequestWeight nc"
  proof (cases "weight_of p (nt_deliveries s) = 0")
    case True
    then show ?thesis using l by simp
  next
    case False
    have "weight_of p (nt_deliveries s) \<le> sum_list (map weighs (nt_deliveries s))"
      unfolding weight_of_def by (rule sum_list_mono) (use pos in \<open>auto intro: less_imp_le\<close>)
    then show ?thesis using a False unfolding reqres_admits_def Let_def m tot by simp
  qed
  have wp: "weight_of p ?ds = weight_of p (nt_deliveries s) + weight" "\<forall>q. q \<noteq> p \<longrightarrow> weight_of q ?ds = weight_of q (nt_deliveries s)"
    using ds by simp_all
  show ?thesis
    unfolding win_ok_def using hold_books [OF w wp]
    by (simp add: reqres_hold_def [where s = "s\<lparr>nt_deliveries := _\<rparr>"] Let_def)
      (use w ds total mine x l in \<open>auto simp: win_ok_def tot\<close>)
qed

lemma sum_list_remove: "i < length xs \<Longrightarrow> sum_list (map f (take i xs @ drop (Suc i) xs)) = sum_list (map f xs) - (f (xs ! i) :: rat)"
  by (subst (3) id_take_nth_drop) auto

lemma answer_win_ok:
  assumes w: "win_ok nc s" and i: "i < length (nt_deliveries s)" and x: "whose (nt_deliveries s ! i) = p" "weighs (nt_deliveries s ! i) = weight"
  shows "win_ok nc (reqres_hold p (- weight) (s\<lparr>nt_deliveries := take i (nt_deliveries s) @ drop (Suc i) (nt_deliveries s)\<rparr>))"
proof -
  let ?ds = "take i (nt_deliveries s) @ drop (Suc i) (nt_deliveries s)"
  have ds: "weight_of q ?ds = weight_of q (nt_deliveries s) - (if q = p then weight else 0)" for q
    unfolding weight_of_def sum_list_remove [OF i] using x by simp
  have sub: "set ?ds \<subseteq> set (nt_deliveries s)" using set_take_subset set_drop_subset by fastforce
  have pos: "\<forall>y \<in> set (nt_deliveries s). 0 < weighs y" and tot: "nt_deliveringWeight s = sum_list (map weighs (nt_deliveries s))"
    using w by (simp_all add: win_ok_def)
  then have "0 < weight" using x i nth_mem by metis
  have wp: "weight_of p ?ds = weight_of p (nt_deliveries s) + - weight" "\<forall>q. q \<noteq> p \<longrightarrow> weight_of q ?ds = weight_of q (nt_deliveries s)"
    using ds by simp_all
  have sum: "sum_list (map weighs ?ds) = sum_list (map weighs (nt_deliveries s)) - weight" using sum_list_remove [OF i, of weighs] x by simp
  have lim: "weight_of q ?ds \<le> deliveryWindow nc - maxRequestWeight nc" for q
  proof -
    have "weight_of q (nt_deliveries s) \<le> deliveryWindow nc - maxRequestWeight nc" using w by (simp add: win_ok_def)
    then show ?thesis unfolding ds using \<open>0 < weight\<close> by (cases "q = p") simp_all
  qed
  have bound: "sum_list (map weighs ?ds) \<le> deliveryWindow nc" unfolding sum using w \<open>0 < weight\<close> by (simp add: win_ok_def)
  have pos': "\<forall>y \<in> set ?ds. 0 < weighs y" using sub pos by blast
  let ?s = "reqres_hold p (- weight) (s\<lparr>nt_deliveries := ?ds\<rparr>)"
  have "nt_deliveries ?s = ?ds" "nt_deliveringWeight ?s = sum_list (map weighs ?ds)"
    unfolding sum using tot by (simp_all add: reqres_hold_def Let_def)
  then show ?thesis unfolding win_ok_def using hold_books [OF w wp] pos' bound lim by simp
qed

lemma request_weight:
  assumes "0 \<le> callWeight nc" "REQ_HEAD_LEN + idLen + n \<le> nc_maxFrameBytes nc"
  shows "0 < requestWeight nc idLen n" "requestWeight nc idLen n \<le> maxRequestWeight nc"
proof -
  have "of_nat (1 + idLen + n) \<le> (of_nat (nc_maxFrameBytes nc) :: rat)" using assms(2) unfolding of_nat_le_iff by (simp add: REQ_HEAD_LEN_def)
  then show "requestWeight nc idLen n \<le> maxRequestWeight nc" by (simp add: maxRequestWeight_def requestWeight_def)
  have "0 < (of_nat (1 + idLen + PK_LEN + n) :: rat)" by simp
  then show "0 < requestWeight nc idLen n" unfolding requestWeight_def using assms(1) by linarith
qed

lemma on_frame_win_ok:
  assumes w: "win_ok nc s" and c: "0 \<le> callWeight nc" "2 * maxRequestWeight nc \<le> deliveryWindow nc" and f: "length frame \<le> nc_maxFrameBytes nc"
  shows "win_ok nc (on_frame nc (forget nc over) over l frame s)"
proof -
  let ?p = "rl_peerId (nt_links s l)" and ?pk = "rl_peerPubkey (nt_links s l)"
  have re: "win_ok nc (respond nc (forget nc over) over corr r ?p l [] s)" for corr r by (rule books_same [OF books.R_respond w])
  have fi: "win_ok nc (reqres_finish nc (forget nc over) over corr payload s)" for corr payload
  proof (cases "map_of (nt_pending s) corr")
    case None
    then show ?thesis using w by (simp add: reqres_finish_def)
  next
    case (Some p)
    obtain s' where "same_books (s\<lparr>nt_pending := AList.delete corr (nt_pending s)\<rparr>) s'"
      "\<exists>b. reqres_finish nc (forget nc over) over corr payload s = say (Resolve (pd_d p) b) s'"
      using books.R_finish_parts [of "forget nc over" s, OF books.R_forget Some, of nc over payload] by auto
    then have "same_books s (reqres_finish nc (forget nc over) over corr payload s)" by (auto simp: same_books_def say_def)
    then show ?thesis using books_same w by blast
  qed
  have ad: "win_ok nc (reqres_hold ?p weight (say (Deliver a b c) (s\<lparr>nt_deliveries := nt_deliveries s @ [Delivery ?p weight corr r l]\<rparr>)))"
    if "reqres_admits nc ?p weight s" "0 < weight" "weight \<le> maxRequestWeight nc" for weight a b c corr r
  proof -
    have "win_ok nc (reqres_hold ?p weight (s\<lparr>nt_deliveries := nt_deliveries s @ [Delivery ?p weight corr r l]\<rparr>))"
      by (rule admit_win_ok [OF w that assms(3)]) (simp_all add: whose_def weighs_def)
    then show ?thesis by (rule books_same [rotated]) (simp add: same_books_def reqres_hold_def say_def Let_def held_weight_def)
  qed
  have "win_ok nc (reqres_onFrame nc (forget nc over) over ?p frame ?pk l s)"
  proof -
    have "0 < requestWeight nc (unat (frame ! REQ_PROTO_LEN_AT)) (length frame - (REQ_HEAD_LEN + unat (frame ! REQ_PROTO_LEN_AT)))"
      "requestWeight nc (unat (frame ! REQ_PROTO_LEN_AT)) (length frame - (REQ_HEAD_LEN + unat (frame ! REQ_PROTO_LEN_AT))) \<le> maxRequestWeight nc"
      if "\<not> length frame < REQ_HEAD_LEN + unat (frame ! REQ_PROTO_LEN_AT)"
      by (rule request_weight [OF c(1)]; use that f in simp)+
    note ad' = ad [OF _ this]
    show ?thesis
      unfolding reqres_onFrame_def Let_def by (auto simp: w fi re split: option.split intro!: ad')
  qed
  moreover have "win_ok nc (onControl (forget nc over) ?p frame l s)" by (rule books_same [OF books.R_onControl w])
  ultimately show ?thesis unfolding on_frame_def Let_def by simp
qed

lemma op_send_books:
  assumes "op_send nc (forget nc over) over t noReply to proto payload s = Inr s'"
  shows "same_books s s'"
proof -
  have put: "same_books u (put nc (forget nc over) over c q f u)" for u c q f by (rule books.R_put [OF books.R_forget])
  have pump: "same_books u (pumpRelayed nc (forget nc over) over q u)" for u q by (rule books.R_pumpRelayed [OF books.R_forget])
  have await: "same_books u (await_window nc (forget nc over) over c q u)" for u c q
    using pump unfolding await_window_def Let_def same_books_def by (auto simp: set_q_def set_relayed_def split: option.split)
  have "same_books s (request nc (forget nc over) over t d q proto payload noReply (s\<lparr>nt_defers := n\<rparr>))" for d q n
    using put await unfolding request_def Let_def same_books_def by (auto simp: set_pending_def)
  moreover have "same_books s (request nc (forget nc over) over t d q proto payload noReply s)" for d q
    using put await unfolding request_def Let_def same_books_def by (auto simp: set_pending_def)
  ultimately show ?thesis using assms unfolding op_send_def by (auto split: if_splits)
qed

lemma step_win_ok:
  assumes st: "net_step nc t s s'" and w: "win_ok nc s" and c: "0 \<le> callWeight nc" "2 * maxRequestWeight nc \<le> deliveryWindow nc"
  shows "win_ok nc s'"
  using st
proof cases
  case (opens l spec)
  have "same_books s s'" unfolding opens by (simp add: same_books_def openLink_def core_push_def Let_def)
  then show ?thesis using books_same w by blast
next
  case (sends over noReply to proto payload)
  then show ?thesis using books_same w op_send_books by blast
next
  case (learns peer)
  have "same_books s s'" unfolding learns addAddr_def by (simp add: same_books_def)
  then show ?thesis using books_same w by blast
next
  case (wakes over)
  have "same_books s s'" unfolding wakes by (auto simp: reqres_onWake_def books.R_refl books.R_wake)
  then show ?thesis using books_same w by blast
next
  case (hears l frame over)
  then show ?thesis using on_frame_win_ok [OF w c] by simp
next
  case (answers i over answer)
  obtain p weight corr r l where d: "nt_deliveries s ! i = Delivery p weight corr r l" by (cases "nt_deliveries s ! i") auto
  show ?thesis
    unfolding answers on_delivered_def d
    by (simp, rule books_same [OF books.R_respond answer_win_ok [OF w answers(2)]]) (simp_all add: d whose_def weighs_def)
next
  case (later i over)
  then show ?thesis using books_same [OF books.R_run_task w] by simp
qed (simp_all add: books_same [OF _ w] books.R_becomes_authed books.R_link_end [OF books.R_forget] books.R_forgetPeer)

lemma reach_win_ok:
  assumes "net_reach nc t s" "0 \<le> callWeight nc" "2 * maxRequestWeight nc \<le> deliveryWindow nc"
  shows "win_ok nc s"
  using assms(1)
proof (induction rule: net_reach.induct)
  case begins
  have "0 \<le> maxRequestWeight nc" using assms(2) by (simp add: maxRequestWeight_def)
  then show ?case using assms(3) by (simp add: win_ok_def new_Net_def weight_of_def)
next
  case (turns t s s')
  then show ?case using step_win_ok assms by blast
qed

text \<open>
  C22: The window of deliveries. Where the window has room for two requests of the greatest weight, the weight on the window is in
  every run exactly that of the requests waiting on the host, for each peer and in all, and never passes the window. No peer keeps the others out: whatever one
  peer has waiting, as long as nobody else has, any other peer's request is taken.
\<close>

theorem delivery_window:
  assumes "net_reach nc t s" "0 \<le> callWeight nc" "2 * maxRequestWeight nc \<le> deliveryWindow nc"
  shows "nt_deliveringWeight s = sum_list (map weighs (nt_deliveries s)) \<and> nt_deliveringWeight s \<le> deliveryWindow nc \<and>
    (\<forall>p. held_weight p s = sum_list (map weighs (filter (\<lambda>x. whose x = p) (nt_deliveries s)))) \<and>
    (\<forall>p q weight. q \<noteq> p \<and> (\<forall>x \<in> set (nt_deliveries s). whose x = p) \<and> weight \<le> maxRequestWeight nc \<longrightarrow> reqres_admits nc q weight s)"
proof (intro conjI)
  have w: "win_ok nc s" by (rule reach_win_ok [OF assms])
  show tot: "nt_deliveringWeight s = sum_list (map weighs (nt_deliveries s))" and "nt_deliveringWeight s \<le> deliveryWindow nc"
    using w by (simp_all add: win_ok_def)
  have wo: "weight_of p ds = sum_list (map weighs (filter (\<lambda>x. whose x = p) ds))" for p ds
    unfolding weight_of_def by (induction ds) auto
  have h: "held_weight p s = weight_of p (nt_deliveries s)" for p by (rule held_weight_exact [OF w]) (use w in \<open>simp add: win_ok_def\<close>)
  show "\<forall>p. held_weight p s = sum_list (map weighs (filter (\<lambda>x. whose x = p) (nt_deliveries s)))" unfolding h wo by simp
  show "\<forall>p q weight. q \<noteq> p \<and> (\<forall>x \<in> set (nt_deliveries s). whose x = p) \<and> weight \<le> maxRequestWeight nc \<longrightarrow> reqres_admits nc q weight s"
  proof (intro allI impI; elim conjE)
    fix p q weight
    assume q: "q \<noteq> p" "\<forall>x \<in> set (nt_deliveries s). whose x = p" "weight \<le> maxRequestWeight nc"
    have "filter (\<lambda>x. whose x = q) (nt_deliveries s) = []" "filter (\<lambda>x. whose x = p) (nt_deliveries s) = nt_deliveries s"
      using q(1,2) by (auto simp: filter_empty_conv)
    then have "held_weight q s = 0" "sum_list (map weighs (nt_deliveries s)) = weight_of p (nt_deliveries s)" unfolding h wo by simp_all
    moreover have "weight_of p (nt_deliveries s) \<le> deliveryWindow nc - maxRequestWeight nc" using w by (simp add: win_ok_def)
    ultimately show "reqres_admits nc q weight s" unfolding reqres_admits_def Let_def tot using q(3) by simp
  qed
qed

theorem delivery_window_witness:
  "nt_deliveringWeight small4 = 10035 \<and> nt_deliveringWeight small4 \<le> 979736 \<and> held_weight small_id small4 = 10035 \<and> reqres_admits small_nc [] 10132 small4"
proof -
  have d: "nt_deliveries small4 = [Delivery small_id 10035 5 False 1]" using small_conf by (simp add: small4_def)
  have c: "0 \<le> callWeight small_nc" "2 * maxRequestWeight small_nc \<le> deliveryWindow small_nc" by (simp_all add: small_conf)
  note w = delivery_window [OF small_reach(3) c]
  have "reqres_admits small_nc [] 10132 small4"
    using w small_ids(2) by (simp add: d whose_def small_conf)
  then show ?thesis using w by (simp add: d weighs_def whose_def small_conf)
qed

end
