(* ===== verification/Spec2Isabelle.thy ===== *)
theory Spec2Isabelle
  imports Freshness Slot_Table Loader Fs_Files Guest_Seam Realm_Queue Timer Ws_Link Udp_Send Link_Datagrams Ake_Auth Limiter Net_Window
begin

text \<open>
  A verification development of seedkernel, a small host that runs signed application bundles in isolated
  realms. The code modelled is the TypeScript host and its services under \<^verbatim>\<open>src/WASM/host\<close> and
  \<^verbatim>\<open>src/WASM/services\<close>, the authoring script under \<^verbatim>\<open>src/WASM/scripts\<close>, the WebSocket module under
  \<^verbatim>\<open>src/WASM/assembly/ws\<close>, and the lower layers of the transport guest under \<^verbatim>\<open>src/WASM/transport/src\<close>.

  \<^bold>\<open>The program and how its parts meet.\<close> A \<^emph>\<open>loader\<close> chooses at each start which signed host blob to run: the one it
  carries, the committed one, or a staged one on trial. The host admits \<^emph>\<open>bundles\<close>: an envelope with two signatures,
  a manifest, a guest source and wasm modules. The freshness store refuses downgrades and revoked authors, the slot table
  keeps which app holds which name, and each app runs in a realm whose one entrance, \<open>host.call\<close>, is the
  \<^emph>\<open>guest seam\<close>. Calls into a realm are serialized by its queue under deadlines; a realm's own timer wakes it; the
  file and node services serve it under its app's scope. The transport is a guest itself: it cuts the bytes of a link into
  messages (length or WebSocket framing), authenticates the peer of a link and seals what crosses it, and runs a reliable stream
  over datagrams. The host's \<^emph>\<open>link driver\<close> lends it
  sockets under ids: it holds and charges what each link reads and writes, hands the guest one read of a link at a time, and gathers
  datagrams into events.

  \<^bold>\<open>Conventions.\<close> Bytes are \<open>8 word list\<close>, JavaScript strings lists of UTF-16 code units, a throwing function returns
  \<open>Inl\<close> an error or \<open>Inr\<close> a value, and an operation with state takes the state and returns it updated, also when it
  fails. A promise is two steps: the call, and later its settlement; interleavings are sequences of steps of an
  inductive relation. What is not in the sources is an argument: cryptography (\<open>ManifestVerifier\<close>, \<open>ManifestCrypto\<close>,
  the seam's \<open>sodium\<close>), the platform's JSON (\<open>json_codec\<close>), entropy, the clock, the result of each write of a file. Where
  a property relies on such code, it names the documented behaviour as a hypothesis (a signature verifies, a
  signature under a key was made with it, JSON text reads back).

  \<^bold>\<open>Theories, in the order they build on each other.\<close>

  \<^item> \<open>Prelude\<close>: the shared vocabulary, the result monad, clamped array views, facts on lists, words and association lists.
  \<^item> \<open>Util\<close> (\<^verbatim>\<open>host/util.ts\<close>): hex, big-endian fields, and the compacting \<open>Fifo\<close>, which interprets the queue contract
    \<open>queue_spec\<close>. \<open>Utf8\<close> (\<^verbatim>\<open>host/utf8.ts\<close>): the codec, its round trip and its replacement of lone surrogates.
    \<open>Op_Frame\<close> (\<^verbatim>\<open>host/op-frame.ts\<close>): the op envelope and argument fields. \<open>Domains\<close> (\<^verbatim>\<open>host/domains.ts\<close>): signing
    prefixes and the service table. \<open>Json\<close>: JSON values and JavaScript's numbers.
  \<^item> \<open>Wasm_Limits\<close> (\<^verbatim>\<open>host/wasm-limits.ts\<close>): the section walk of a module before it is compiled.
  \<^item> \<open>Bundle\<close> (\<^verbatim>\<open>host/bundle.ts\<close>) and \<open>Bundle_Author\<close> (\<^verbatim>\<open>scripts/bundle-author.ts\<close>): the envelope, manifest and body read
    and written; the round trip of authoring and verifying, and that what verifies was released by its author.
  \<^item> \<open>Freshness\<close> (\<^verbatim>\<open>FreshnessMarks\<close> of \<^verbatim>\<open>host/bundle.ts\<close>, and \<^verbatim>\<open>host/policy.ts\<close>): the marks only rise, a revocation
    is never lost, a restart restores the store.
  \<^item> \<open>Slot_Table\<close> (\<^verbatim>\<open>host/slot-table.ts\<close>): the claim books agree with the installed manifests in every reachable table.
  \<^item> \<open>Host_Blob\<close> (\<^verbatim>\<open>host/host-blob.ts\<close>) and \<open>Loader\<close> (\<^verbatim>\<open>host/slots.ts\<close>, \<^verbatim>\<open>host/abi.ts\<close>): host releases; the loader as a
    step relation over files that may fail and crashes at any point.
  \<^item> \<open>Fs\<close> (\<^verbatim>\<open>services/fs.ts\<close>) and \<open>Fs_Files\<close> (\<^verbatim>\<open>services/fs-files.ts\<close>, \<^verbatim>\<open>services/fs-memory.ts\<close>): the key rule and app views
    over the contract \<open>fs_store\<close>, which the file backend meets over any \<open>raw_files\<close>; both are interpreted on the in-memory
    files.
  \<^item> \<open>Node_Service\<close> (\<^verbatim>\<open>services/node.ts\<close>, \<^verbatim>\<open>host/subkeys.ts\<close>): signing scopes and derived keys.
  \<^item> \<open>Realm_Queue\<close> (\<^verbatim>\<open>host/realm-queue.ts\<close>) and \<open>Timer\<close> (\<^verbatim>\<open>services/timer.ts\<close>): deadlines, settlement, serialized entry, and
    the paced wake, as step relations with their invariants.
  \<^item> \<open>Guest_Seam\<close> (\<^verbatim>\<open>host/guest-seam.ts\<close>): which names a guest can call and what each reaches.
  \<^item> \<open>Guest_Util\<close> (\<^verbatim>\<open>transport/src/util.js\<close>): byte helpers, host events, and \<open>Pieces\<close>, which interprets \<open>byte_queue\<close>.
  \<^item> \<open>Ws_Module\<close> (\<^verbatim>\<open>assembly/ws\<close>): masking, base64, SHA-1 and the accept value.
  \<^item> \<open>Framing\<close>, \<open>Ws_Framer\<close> and \<open>Ws_Link\<close> (\<^verbatim>\<open>transport/src/framing.js\<close>): both framers; the locale \<open>incremental\<close> says when a
    parser may be fed in pieces and is interpreted on both; the round trip of a WebSocket link with the module in its place.
  \<^item> \<open>Udp_Stream\<close> (\<^verbatim>\<open>transport/src/stream.js\<close>): every operation of the datagram stream; \<open>Udp_Recv\<close>: its receiving side;
    \<open>Udp_Send\<close>: its sending side, and both ends together over a network that loses, repeats and reorders.
  \<^item> \<open>Ake\<close> (\<^verbatim>\<open>transport/src/ake.js\<close>): a link of the transport, its concealed-identity handshake, records and endings.
    \<open>Ake_Suite\<close>: the laws of the host's primitives and of ML-KEM as hypotheses, and a small suite that keeps them. \<open>Ake_Record\<close>: the record layer
    between two ends. \<open>Ake_Agree\<close>: the handshake of two honest ends step by step. \<open>Ake_Auth\<close>: the runs of a link under
    any peer and host, with what it has established once it is authenticated, and its silence before.
  \<^item> \<open>Router\<close>, \<open>Reqres\<close> (\<^verbatim>\<open>transport/src/router.js\<close>, class \<open>Core\<close> of \<^verbatim>\<open>transport/src/core.js\<close>): which links lead to a peer, and the
    requests over them. An operation that ends a link forgets it before it goes on, so operations take what forgetting does as an argument.
    \<open>Net_Run\<close>: the runs, and the locale \<open>net_change\<close>, which says of which single writes a relation between states must be closed for every operation
    to keep it; it is interpreted for the requests (\<open>Net_Requests\<close>) and for the delivery window (\<open>Net_Window\<close>). \<open>Net_Demo\<close>: a small run for the witnesses.
  \<^item> \<open>Limiter\<close> (class \<open>LinkLimiter\<close> of \<^verbatim>\<open>transport/src/core.js\<close>): the tiers and sources that bound a node's links.
  \<^item> \<open>Link_Host\<close> (\<^verbatim>\<open>services/link.ts\<close>, \<^verbatim>\<open>services/net-limits.ts\<close>, \<^verbatim>\<open>services/datagrams.ts\<close>): the link driver and its handlers. Its runs and
    outbound books are in \<open>Link_Out\<close>, the order of reads in \<open>Link_In\<close>, the inbound books in \<open>Link_Books\<close>, datagrams in
    \<open>Link_Datagrams\<close>. The locales \<open>read_side_invariant\<close> and \<open>side_invariant\<close> say what a property of the driver needs for
    every operation of the reading side, and of the writing side, to keep it; each invariant interprets them.

  \<^bold>\<open>Loops.\<close> Every loop is a terminating function. Where the source's loop is not structural the measure is proved:
  bytes left for the parsers and framers, entries left for the realm queue's entry loop (which is given the queue's
  size as its number of rounds: each round takes one entry), room left in the window for the stream's sending loop,
  packet numbers left for its walks, starved links and held reads for the link driver's loops (each round takes one).

  \<^bold>\<open>Numbers.\<close> Words are kept at their width where the code's arithmetic wraps (hex tables, masks, SHA-1, u32 and u48
  fields). Times and windows, doubles in the code, are exact rationals, so rounding of a double is not represented.

  \<^bold>\<open>Not modelled.\<close> The conversations with systems whose code is not here: a relay server (\<^verbatim>\<open>relay.js\<close>), the platform's WebRTC objects
  (\<^verbatim>\<open>direct.js\<close>) and a STUN server (\<^verbatim>\<open>udp.js\<close>); of \<^verbatim>\<open>core.js\<close> the dials and the waiters on them, the one wake over all deadlines and the
  parsing of addresses; the wiring of the shell to engines (\<^verbatim>\<open>shell-core.ts\<close>, \<^verbatim>\<open>module-table.ts\<close>). The
  build of a bundle's module set, \<open>makeFramer\<close>'s choice of a codec, \<open>CausalContext\<close>, the guest's preamble (a
  JavaScript text), the shell's half of the link service (\<open>link/deliver\<close>, \<open>link/status\<close>) and the binding of listeners are left out of
  components otherwise modelled. Engines, sockets, processes, the command line, the native host in Go and C and the build scripts are input
  and output or code of other systems.
\<close>

end
